(* ===== verification/Prelude.thy ===== *)
theory Prelude
  imports Main "HOL-Library.Word"
begin

text \<open>
  The prelude of the development: the representation of bytes, the faults a C
  program can run into, the error monad the operations are written in, safe
  list access, and the collections the component theories add their facts to.

  A byte (\<open>char\<close>, \<open>unsigned char\<close> or \<open>uint8_t\<close> of the sources) is a HOL
  \<open>char\<close>, which has exactly 256 values; \<open>byte_val\<close> reads it as the number 0..255.
  A C string is the list of its bytes before the terminating NUL.
\<close>

named_theorems monad_simps "evaluation of the error monad"
named_theorems inv_intros "preservation lemmas of component invariants"

unbundle bit_operations_syntax

section \<open>Bytes\<close>

type_synonym bytes = "char list"

abbreviation byte_val :: "char \<Rightarrow> int" where
  "byte_val c \<equiv> of_char c"

abbreviation byte_of :: "int \<Rightarrow> char" where
  "byte_of n \<equiv> char_of n"

lemma byte_val_range [simp]: "0 \<le> byte_val c" "byte_val c < 256"
proof -
  have "byte_val c = int (of_char c)" by (simp only: of_nat_of_char)
  then show "0 \<le> byte_val c" "byte_val c < 256"
    using nat_of_char_less_256 [of c] by linarith+
qed

lemma byte_of_val: "0 \<le> n \<Longrightarrow> n < 256 \<Longrightarrow> byte_val (byte_of n) = n"
  by simp

text \<open>The byte NUL, the newline and the other control bytes the sources name.\<close>

abbreviation NUL :: char where "NUL \<equiv> CHR 0x00"
abbreviation LF :: char where "LF \<equiv> CHR 0x0A"
abbreviation CR :: char where "CR \<equiv> CHR 0x0D"
abbreviation TAB :: char where "TAB \<equiv> CHR 0x09"
abbreviation SPC :: char where "SPC \<equiv> CHR 0x20"

text \<open>\<open>isspace\<close> of \<open>ctype.h\<close>, in the C locale.\<close>

definition isspace :: "char \<Rightarrow> bool" where
  "isspace c \<longleftrightarrow> c \<in> {SPC, TAB, LF, CHR 0x0B, CHR 0x0C, CR}"

text \<open>What is left behind the byte a scan stops at is shorter than what it started from.\<close>

lemma dropWhile_shorter: "dropWhile P xs = y # ys \<Longrightarrow> length ys < length xs"
  using length_dropWhile_le [of P xs] by simp

section \<open>Faults and the error monad\<close>

text \<open>
  What stops a C operation: a read or write through a freed object, a write past
  the end of an array, a call of \<open>fatal\<close> (or a failed \<open>assert\<close>), a size that is
  not positive handed to \<open>memcpy\<close>, a loop that never ends, a call through a null pointer, a read of bytes that were
  never written or lie outside the object.
\<close>

datatype fault = UseAfterFree | BufferOverflow | Panic | BadSize | Hang | Uninitialised | NullPointer

definition bindE :: "'e + 'a \<Rightarrow> ('a \<Rightarrow> 'e + 'b) \<Rightarrow> 'e + 'b" where
  "bindE m k = (case m of Inl e \<Rightarrow> Inl e | Inr x \<Rightarrow> k x)"

lemma bindE_simps [simp, monad_simps]:
  "bindE (Inl e) k = Inl e"
  "bindE (Inr x) k = k x"
  by (simp_all add: bindE_def)

lemma bindE_Inr_right [simp]: "bindE m Inr = m"
  by (cases m) simp_all

lemma bindE_assoc: "bindE (bindE m f) g = bindE m (\<lambda>x. bindE (f x) g)"
  by (cases m) simp_all

lemma bindE_eq_Inr: "bindE m k = Inr y \<longleftrightarrow> (\<exists>x. m = Inr x \<and> k x = Inr y)"
  by (cases m) auto

lemma bindE_eq_Inl: "bindE m k = Inl e \<longleftrightarrow> m = Inl e \<or> (\<exists>x. m = Inr x \<and> k x = Inl e)"
  by (cases m) auto

lemma bindE_InrE:
  assumes "bindE m k = Inr y"
  obtains x where "m = Inr x" "k x = Inr y"
  using assms by (auto simp: bindE_eq_Inr)

lemma bindE_cong [fundef_cong]:
  "m = m' \<Longrightarrow> (\<And>x. m' = Inr x \<Longrightarrow> k x = k' x) \<Longrightarrow> bindE m k = bindE m' k'"
  by (cases m') auto

text \<open>Reading a cell of a heap: a missing cell was freed.\<close>

definition deref :: "('k \<rightharpoonup> 'v) \<Rightarrow> 'k \<Rightarrow> fault + 'v" where
  "deref h k = (case h k of None \<Rightarrow> Inl UseAfterFree | Some v \<Rightarrow> Inr v)"

lemma deref_simps [simp, monad_simps]:
  "h k = Some v \<Longrightarrow> deref h k = Inr v"
  "h k = None \<Longrightarrow> deref h k = Inl UseAfterFree"
  by (simp_all add: deref_def)

lemma deref_eq_Inr: "deref h k = Inr v \<longleftrightarrow> h k = Some v"
  by (simp add: deref_def split: option.splits)

lemma deref_upd [simp]: "deref (h(k \<mapsto> v)) k = Inr v"
  by (simp add: deref_def)

text \<open>Two maps with the same bindings are the same map.\<close>

lemma map_eqI: "(\<And>k v. m k = Some v \<longleftrightarrow> m' k = Some v) \<Longrightarrow> m = m'"
  by (rule ext) (metis option.exhaust)

section \<open>Lists\<close>

lemma length_take_min: "length (take n xs) = min n (length xs)"
  by simp

lemma last_nth: "n < length xs \<Longrightarrow> last xs = xs ! (length xs - 1)"
  by (rule last_conv_nth) auto

lemma filter_neq_removes: "x \<notin> set xs \<Longrightarrow> filter (\<lambda>y. y \<noteq> x) xs = xs"
  by (induction xs) auto

lemma takeWhile_dropWhile_len: "length (takeWhile P xs) + length (dropWhile P xs) = length xs"
  by (metis length_append takeWhile_dropWhile_id)

lemma length_dropWhile_lt: "xs \<noteq> [] \<Longrightarrow> P (hd xs) \<Longrightarrow> length (dropWhile P xs) < length xs"
  by (cases xs) (auto simp: le_imp_less_Suc length_dropWhile_le)

end
