(* ===== verification/Qemud_Looper.thy ===== *)
theory Qemud_Looper
  imports Prelude "HOL-Library.Multiset"
begin

text \<open>
  The event loop of \<open>qemud.c\<close> (\<open>LoopHook\<close>, \<open>Looper\<close>, \<open>looper_*\<close>) and the
  kernel's epoll interest list it keeps in step with its array of hooks.

  The array \<open>hooks\<close> is the list \<open>lp_hooks\<close> of its first \<open>num_fds\<close> entries; the
  pointer \<open>ev.data.ptr = hook\<close> handed to the kernel is the hook's index. The
  interest list maps a descriptor to its event mask and that index.
  \<open>fd_setnonblock\<close> changes no state the daemon reads and is left out.
\<close>

section \<open>State\<close>

type_synonym mask = "32 word"

definition EPOLLIN :: mask where "EPOLLIN = 1"
definition EPOLLOUT :: mask where "EPOLLOUT = 4"
definition EPOLLERR :: mask where "EPOLLERR = 8"
definition EPOLLHUP :: mask where "EPOLLHUP = 16"

definition HOOK_PENDING :: mask where "HOOK_PENDING = 1"
definition HOOK_CLOSING :: mask where "HOOK_CLOSING = 2"

lemmas epoll_defs = EPOLLIN_def EPOLLOUT_def EPOLLERR_def EPOLLHUP_def
lemmas hook_bit_defs = HOOK_PENDING_def HOOK_CLOSING_def

text \<open>The two event callbacks \<open>looper_add\<close> is given; their \<open>user\<close> is a handler.\<close>

datatype ev_func = Ev_fdhandler_event | Ev_fdhandler_accept_event

record loop_hook =
  hook_fd :: int
  hook_wanted :: mask
  hook_events :: mask
  hook_state :: mask
  hook_user :: nat
  hook_func :: ev_func

type_synonym epoll = "int \<rightharpoonup> mask \<times> nat"

record looper =
  lp_max_fds :: nat
  lp_hooks :: "loop_hook list"
  lp_epoll :: epoll

definition num_fds :: "looper \<Rightarrow> nat" where
  "num_fds l = length (lp_hooks l)"

section \<open>Operations\<close>

text \<open>\<open>epoll_ctl\<close>: ADD fails on a known descriptor, MOD and DEL on an unknown one;
  the code ignores the result.\<close>

definition epoll_add :: "int \<Rightarrow> mask \<times> nat \<Rightarrow> epoll \<Rightarrow> epoll" where
  "epoll_add fd ev ep = (if ep fd = None then ep(fd \<mapsto> ev) else ep)"

definition epoll_mod :: "int \<Rightarrow> mask \<times> nat \<Rightarrow> epoll \<Rightarrow> epoll" where
  "epoll_mod fd ev ep = (if ep fd = None then ep else ep(fd \<mapsto> ev))"

definition epoll_del :: "int \<Rightarrow> epoll \<Rightarrow> epoll" where
  "epoll_del fd ep = ep(fd := None)"

definition looper_init :: looper where
  "looper_init = \<lparr>lp_max_fds = 0, lp_hooks = [], lp_epoll = Map.empty\<rparr>"

definition looper_done :: "looper \<Rightarrow> looper" where
  "looper_done l = l\<lparr>lp_hooks := [], lp_max_fds := 0, lp_epoll := Map.empty\<rparr>"

fun hook_index :: "loop_hook list \<Rightarrow> int \<Rightarrow> nat option" where
  "hook_index [] fd = None"
| "hook_index (h # hs) fd =
     (if hook_fd h = fd then Some 0 else map_option Suc (hook_index hs fd))"

definition looper_find :: "looper \<Rightarrow> int \<Rightarrow> nat option" where
  "looper_find l fd = hook_index (lp_hooks l) fd"

text \<open>The loop of \<open>looper_grow\<close> that hands the moved hooks to the kernel again.\<close>

fun remod_hooks :: "nat \<Rightarrow> loop_hook list \<Rightarrow> epoll \<Rightarrow> epoll" where
  "remod_hooks n [] ep = ep"
| "remod_hooks n (h # hs) ep =
     remod_hooks (Suc n) hs (epoll_mod (hook_fd h) (hook_wanted h, n) ep)"

definition looper_grow :: "looper \<Rightarrow> looper" where
  "looper_grow l =
     (let old_max = lp_max_fds l;
          new_max = old_max + old_max div 2 + 4
      in l\<lparr>lp_max_fds := new_max,
           lp_epoll := remod_hooks 0 (lp_hooks l) (lp_epoll l)\<rparr>)"

definition looper_add :: "looper \<Rightarrow> int \<Rightarrow> ev_func \<Rightarrow> nat \<Rightarrow> looper" where
  "looper_add l0 fd func user =
     (let l = (if num_fds l0 \<ge> lp_max_fds l0 then looper_grow l0 else l0);
          hook = \<lparr>hook_fd = fd, hook_wanted = 0, hook_events = 0, hook_state = 0,
                  hook_user = user, hook_func = func\<rparr>
      in l\<lparr>lp_hooks := lp_hooks l @ [hook],
           lp_epoll := epoll_add fd (0, num_fds l) (lp_epoll l)\<rparr>)"

definition looper_del :: "looper \<Rightarrow> int \<Rightarrow> looper" where
  "looper_del l fd =
     (case looper_find l fd of
        None \<Rightarrow> l
      | Some i \<Rightarrow>
          let hook = lp_hooks l ! i
          in l\<lparr>lp_hooks := (lp_hooks l)[i := hook\<lparr>hook_state := hook_state hook OR HOOK_CLOSING\<rparr>],
               lp_epoll := epoll_del fd (lp_epoll l)\<rparr>)"

definition looper_enable :: "looper \<Rightarrow> int \<Rightarrow> mask \<Rightarrow> looper" where
  "looper_enable l fd events =
     (case looper_find l fd of
        None \<Rightarrow> l
      | Some i \<Rightarrow>
          let hook = lp_hooks l ! i
          in if events AND NOT (hook_wanted hook) \<noteq> 0
             then let w = hook_wanted hook OR events
                  in l\<lparr>lp_hooks := (lp_hooks l)[i := hook\<lparr>hook_wanted := w\<rparr>],
                       lp_epoll := epoll_mod fd (w, i) (lp_epoll l)\<rparr>
             else l)"

definition looper_disable :: "looper \<Rightarrow> int \<Rightarrow> mask \<Rightarrow> looper" where
  "looper_disable l fd events =
     (case looper_find l fd of
        None \<Rightarrow> l
      | Some i \<Rightarrow>
          let hook = lp_hooks l ! i
          in if events AND hook_wanted hook \<noteq> 0
             then let w = hook_wanted hook AND NOT events
                  in l\<lparr>lp_hooks := (lp_hooks l)[i := hook\<lparr>hook_wanted := w\<rparr>],
                       lp_epoll := epoll_mod fd (w, i) (lp_epoll l)\<rparr>
             else l)"

text \<open>The three phases of one round of \<open>looper_loop\<close>. The first marks the hooks the
  kernel reported; the second (the callbacks) is in the theory of the daemon; the
  third removes the hooks that were closed, the last one taking the free slot.\<close>

definition mark_hook :: "mask \<Rightarrow> loop_hook \<Rightarrow> loop_hook" where
  "mark_hook events h = h\<lparr>hook_state := HOOK_PENDING, hook_events := events\<rparr>"

fun mark_pending :: "(nat \<times> mask) list \<Rightarrow> loop_hook list \<Rightarrow> loop_hook list" where
  "mark_pending [] hs = hs"
| "mark_pending ((i, events) # evs) hs =
     mark_pending evs (if i < length hs then hs[i := mark_hook events (hs ! i)] else hs)"

definition hook_closing :: "loop_hook \<Rightarrow> bool" where
  "hook_closing h \<longleftrightarrow> hook_state h AND HOOK_CLOSING \<noteq> 0"

function reap :: "nat \<Rightarrow> loop_hook list \<Rightarrow> epoll \<Rightarrow> loop_hook list \<times> epoll" where
  "reap n hs ep =
     (if n < length hs
      then if \<not> hook_closing (hs ! n) then reap (Suc n) hs ep
           else let h = last hs
                in reap n (butlast (hs[n := h])) (epoll_mod (hook_fd h) (hook_wanted h, n) ep)
      else (hs, ep))"
  by pat_completeness auto
termination
  by (relation "measure (\<lambda>(n, hs, ep). length hs - n)") auto

declare reap.simps [simp del]

definition looper_reap :: "looper \<Rightarrow> looper" where
  "looper_reap l =
     (let (hs, ep) = reap 0 (lp_hooks l) (lp_epoll l) in l\<lparr>lp_hooks := hs, lp_epoll := ep\<rparr>)"

section \<open>The interest list follows the array\<close>

text \<open>
  What the kernel should hold for a descriptor: its hook's mask and index, or
  nothing when it has no hook or its hook waits to be removed.
\<close>

definition epoll_of :: "loop_hook list \<Rightarrow> epoll" where
  "epoll_of hs fd =
     (case hook_index hs fd of
        None \<Rightarrow> None
      | Some i \<Rightarrow> if hook_closing (hs ! i) then None else Some (hook_wanted (hs ! i), i))"

definition looper_ok :: "looper \<Rightarrow> bool" where
  "looper_ok l \<longleftrightarrow>
     distinct (map hook_fd (lp_hooks l)) \<and>
     num_fds l \<le> lp_max_fds l \<and>
     lp_epoll l = epoll_of (lp_hooks l)"

definition hook_fds :: "looper \<Rightarrow> int set" where
  "hook_fds l = hook_fd ` set (lp_hooks l)"

lemma hook_index_Some:
  "hook_index hs fd = Some i \<Longrightarrow> i < length hs \<and> hook_fd (hs ! i) = fd"
  by (induction hs arbitrary: i) (auto split: if_splits simp: nth_Cons')

lemma hook_index_None: "hook_index hs fd = None \<longleftrightarrow> fd \<notin> hook_fd ` set hs"
  by (induction hs) auto

lemma hook_index_eqI:
  "distinct (map hook_fd hs) \<Longrightarrow> i < length hs \<Longrightarrow> hook_fd (hs ! i) = fd \<Longrightarrow>
     hook_index hs fd = Some i"
proof (induction hs arbitrary: i)
  case Nil
  then show ?case by simp
next
  case (Cons h hs)
  show ?case
  proof (cases i)
    case 0
    with Cons.prems show ?thesis by simp
  next
    case (Suc j)
    with Cons.prems have "hook_index hs fd = Some j"
      by (intro Cons.IH) simp_all
    moreover have "hook_fd h \<noteq> fd"
      using Cons.prems Suc by (auto dest: nth_mem)
    ultimately show ?thesis
      using Suc by simp
  qed
qed

lemma hook_index_update [simp]:
  "i < length hs \<Longrightarrow> hook_fd h = hook_fd (hs ! i) \<Longrightarrow> hook_index (hs[i := h]) fd = hook_index hs fd"
proof (induction hs arbitrary: i)
  case Nil
  then show ?case by simp
next
  case (Cons x hs)
  then show ?case by (cases i) auto
qed

lemma hook_index_snoc:
  "hook_index (hs @ [h]) fd =
     (case hook_index hs fd of Some i \<Rightarrow> Some i
      | None \<Rightarrow> if hook_fd h = fd then Some (length hs) else None)"
  by (induction hs) (auto split: option.splits)

lemma map_fd_update:
  "i < length hs \<Longrightarrow> hook_fd h = hook_fd (hs ! i) \<Longrightarrow> map hook_fd (hs[i := h]) = map hook_fd hs"
  by (metis length_map list_update_id map_update nth_map)

lemma epoll_of_Some:
  "distinct (map hook_fd hs) \<Longrightarrow>
   epoll_of hs fd = Some (w, i) \<longleftrightarrow>
     i < length hs \<and> hook_fd (hs ! i) = fd \<and> \<not> hook_closing (hs ! i) \<and> hook_wanted (hs ! i) = w"
  using hook_index_eqI [of hs i fd]
  by (auto simp: epoll_of_def split: option.splits dest: hook_index_Some)

lemma fd_index_unique:
  "distinct (map hook_fd hs) \<Longrightarrow> i < length hs \<Longrightarrow> j < length hs \<Longrightarrow>
     hook_fd (hs ! i) = hook_fd (hs ! j) \<longleftrightarrow> i = j"
  using nth_eq_iff_index_eq [of "map hook_fd hs" i j] by simp

lemma epoll_of_update:
  assumes "i < length hs" "hook_fd h = hook_fd (hs ! i)" "distinct (map hook_fd hs)"
  shows "epoll_of (hs[i := h]) =
    (epoll_of hs)(hook_fd h := if hook_closing h then None else Some (hook_wanted h, i))"
proof (rule map_eqI)
  fix fd :: int and v :: "mask \<times> nat"
  obtain w j where v: "v = (w, j)" by (cases v)
  have d: "distinct (map hook_fd (hs[i := h]))"
    using assms by (simp add: map_fd_update)
  show "epoll_of (hs[i := h]) fd = Some v \<longleftrightarrow>
    ((epoll_of hs)(hook_fd h := if hook_closing h then None else Some (hook_wanted h, i))) fd = Some v"
    using assms fd_index_unique [OF assms(3), of i j]
    by (auto simp: v epoll_of_Some [OF d] epoll_of_Some [OF assms(3)] nth_list_update)
qed

lemma epoll_of_snoc:
  assumes "distinct (map hook_fd hs)" "hook_fd h \<notin> hook_fd ` set hs" "\<not> hook_closing h"
  shows "epoll_of (hs @ [h]) = (epoll_of hs)(hook_fd h \<mapsto> (hook_wanted h, length hs))"
proof (rule map_eqI)
  fix fd :: int and v :: "mask \<times> nat"
  obtain w j where v: "v = (w, j)" by (cases v)
  have d: "distinct (map hook_fd (hs @ [h]))"
    using assms by simp
  have "hook_fd (hs ! j) \<noteq> hook_fd h" if "j < length hs" for j
    using that assms(2) by (metis imageI nth_mem)
  then show "epoll_of (hs @ [h]) fd = Some v \<longleftrightarrow>
      ((epoll_of hs)(hook_fd h \<mapsto> (hook_wanted h, length hs))) fd = Some v"
    using assms(3)
    by (auto simp: v epoll_of_Some [OF d] epoll_of_Some [OF assms(1)] nth_append less_Suc_eq)
qed

section \<open>Every operation keeps the interest list in step\<close>

lemma looper_ok_init [inv_intros]: "looper_ok looper_init"
  by (auto simp: looper_ok_def looper_init_def num_fds_def epoll_of_def)

lemma remod_hooks_id:
  "(\<And>j. j < length hs \<Longrightarrow> ep (hook_fd (hs ! j)) \<in> {None, Some (hook_wanted (hs ! j), n + j)}) \<Longrightarrow>
     remod_hooks n hs ep = ep"
proof (induction hs arbitrary: n)
  case Nil
  then show ?case by simp
next
  case (Cons h hs)
  have "ep (hook_fd h) \<in> {None, Some (hook_wanted h, n)}"
    using Cons.prems [of 0] by simp
  then have "epoll_mod (hook_fd h) (hook_wanted h, n) ep = ep"
    by (auto simp: epoll_mod_def)
  moreover have "remod_hooks (Suc n) hs ep = ep"
    using Cons.prems [of "Suc j" for j] by (intro Cons.IH) simp
  ultimately show ?case by simp
qed

lemma epoll_of_index:
  "distinct (map hook_fd hs) \<Longrightarrow> j < length hs \<Longrightarrow>
     epoll_of hs (hook_fd (hs ! j)) =
       (if hook_closing (hs ! j) then None else Some (hook_wanted (hs ! j), j))"
  by (simp add: epoll_of_def hook_index_eqI)

lemma looper_grow_ok:
  assumes "looper_ok l"
  shows "looper_ok (looper_grow l)" "lp_hooks (looper_grow l) = lp_hooks l"
    "lp_epoll (looper_grow l) = lp_epoll l" "lp_max_fds l < lp_max_fds (looper_grow l)"
proof -
  have "remod_hooks 0 (lp_hooks l) (epoll_of (lp_hooks l)) = epoll_of (lp_hooks l)"
    using assms by (intro remod_hooks_id) (auto simp: looper_ok_def epoll_of_index)
  then show "looper_ok (looper_grow l)" "lp_epoll (looper_grow l) = lp_epoll l"
    using assms by (auto simp: looper_ok_def looper_grow_def num_fds_def Let_def)
  show "lp_hooks (looper_grow l) = lp_hooks l" "lp_max_fds l < lp_max_fds (looper_grow l)"
    by (simp_all add: looper_grow_def Let_def)
qed

lemma looper_add_hooks:
  "lp_hooks (looper_add l fd func user) =
     lp_hooks l @ [\<lparr>hook_fd = fd, hook_wanted = 0, hook_events = 0, hook_state = 0,
                    hook_user = user, hook_func = func\<rparr>]"
  by (simp add: looper_add_def looper_grow_def Let_def)

lemma hook_closing_simps [simp]:
  "hook_state h = 0 \<Longrightarrow> \<not> hook_closing h"
  "hook_state h = HOOK_PENDING \<Longrightarrow> \<not> hook_closing h"
  "hook_closing (h\<lparr>hook_wanted := w\<rparr>) = hook_closing h"
  "hook_closing (h\<lparr>hook_events := w\<rparr>) = hook_closing h"
  by (simp_all add: hook_closing_def hook_bit_defs)

lemma hook_closing_or [simp]:
  "hook_closing (h\<lparr>hook_state := x OR HOOK_CLOSING\<rparr>)"
proof -
  have "(x OR HOOK_CLOSING) AND HOOK_CLOSING = HOOK_CLOSING"
    by (rule bit_word_eqI) (auto simp: bit_simps)
  then show ?thesis
    by (simp add: hook_closing_def hook_bit_defs)
qed

lemma looper_ok_add [inv_intros]:
  assumes "looper_ok l" "fd \<notin> hook_fds l"
  shows "looper_ok (looper_add l fd func user)"
proof -
  let ?h = "\<lparr>hook_fd = fd, hook_wanted = 0, hook_events = 0, hook_state = 0,
             hook_user = user, hook_func = func\<rparr>"
  let ?l = "if num_fds l \<ge> lp_max_fds l then looper_grow l else l"
  have ok: "looper_ok ?l" and hs: "lp_hooks ?l = lp_hooks l"
    and room: "num_fds l < lp_max_fds ?l"
    using assms looper_grow_ok [of l] by (auto simp: looper_ok_def)
  have "hook_index (lp_hooks l) fd = None"
    using assms by (simp add: hook_fds_def hook_index_None)
  then have "epoll_of (lp_hooks l) fd = None"
    by (simp add: epoll_of_def)
  moreover have "epoll_of (lp_hooks l @ [?h]) = (epoll_of (lp_hooks l))(fd \<mapsto> (0, num_fds l))"
    using assms epoll_of_snoc [of "lp_hooks l" ?h]
    by (simp add: looper_ok_def hook_fds_def num_fds_def)
  ultimately show ?thesis
    using ok hs room assms
    by (simp add: looper_add_def Let_def looper_ok_def num_fds_def epoll_add_def hook_fds_def)
qed

text \<open>A change of one hook that leaves its descriptor alone.\<close>

lemma looper_ok_update:
  assumes "looper_ok l" "i < num_fds l" "hook_fd h = hook_fd (lp_hooks l ! i)"
  shows "looper_ok (l\<lparr>lp_hooks := (lp_hooks l)[i := h],
    lp_epoll := (lp_epoll l)(hook_fd h := if hook_closing h then None else Some (hook_wanted h, i))\<rparr>)"
  using assms
  by (simp add: looper_ok_def num_fds_def map_fd_update epoll_of_update del: fun_upd_apply)

lemma looper_findD:
  "looper_find l fd = Some i \<Longrightarrow> i < num_fds l \<and> hook_fd (lp_hooks l ! i) = fd"
  by (simp add: looper_find_def num_fds_def hook_index_Some)

lemma looper_ok_del [inv_intros]:
  assumes "looper_ok l"
  shows "looper_ok (looper_del l fd)"
proof (cases "looper_find l fd")
  case None
  with assms show ?thesis by (simp add: looper_del_def)
next
  case (Some i)
  let ?h = "(lp_hooks l ! i)\<lparr>hook_state := hook_state (lp_hooks l ! i) OR HOOK_CLOSING\<rparr>"
  from looper_ok_update [OF assms, of i ?h] looper_findD [OF Some] Some
  show ?thesis by (simp add: looper_del_def epoll_del_def Let_def)
qed

lemma epoll_mod_ok:
  assumes "looper_ok l" "looper_find l fd = Some i"
  shows "epoll_mod fd (w, i) (lp_epoll l) =
    (lp_epoll l)(fd := if hook_closing (lp_hooks l ! i) then None else Some (w, i))"
  using assms by (auto simp: looper_ok_def epoll_of_def looper_find_def epoll_mod_def)

lemma looper_ok_wanted:
  assumes "looper_ok l" "looper_find l fd = Some i"
  shows "looper_ok (l\<lparr>lp_hooks := (lp_hooks l)[i := (lp_hooks l ! i)\<lparr>hook_wanted := w\<rparr>],
    lp_epoll := epoll_mod fd (w, i) (lp_epoll l)\<rparr>)"
  using looper_ok_update [OF assms(1), of i "(lp_hooks l ! i)\<lparr>hook_wanted := w\<rparr>"]
    looper_findD [OF assms(2)] epoll_mod_ok [OF assms]
  by (simp split: if_splits)

lemma looper_ok_enable [inv_intros]: "looper_ok l \<Longrightarrow> looper_ok (looper_enable l fd events)"
  using looper_ok_wanted [of l fd]
  by (auto simp: looper_enable_def Let_def split: option.split)

lemma looper_ok_disable [inv_intros]: "looper_ok l \<Longrightarrow> looper_ok (looper_disable l fd events)"
  using looper_ok_wanted [of l fd]
  by (auto simp: looper_disable_def Let_def split: option.split)

section \<open>Removing the closed hooks\<close>

lemma mset_butlast_update:
  assumes "n < length hs"
  shows "mset (butlast (hs[n := last hs])) = mset hs - {#hs ! n#}"
proof -
  from assms have ne: "hs \<noteq> []" by auto
  then have "last (hs[n := last hs]) = last hs"
    using assms by (simp add: last_conv_nth nth_list_update)
  moreover have "hs[n := last hs] \<noteq> []"
    using ne by simp
  ultimately have "mset (hs[n := last hs]) = add_mset (last hs) (mset (butlast (hs[n := last hs])))"
    by (metis append_butlast_last_id mset_append union_mset_add_mset_right mset.simps add_mset_add_single)
  moreover have "mset (hs[n := last hs]) = add_mset (last hs) (mset hs - {#hs ! n#})"
    using assms by (simp add: mset_update)
  ultimately show ?thesis by simp
qed

lemma distinct_butlast_update:
  assumes "n < length hs" "distinct (map f hs)"
  shows "distinct (map f (butlast (hs[n := last hs])))"
proof -
  have "mset (map f (butlast (hs[n := last hs]))) \<subseteq># mset (map f hs)"
    using mset_butlast_update [OF assms(1)]
    by (simp add: image_mset_subseteq_mono)
  then show ?thesis
    using assms(2) by (metis mset_eq_imp_distinct_iff mset_subset_eq_exists_conv distinct_append ex_mset mset_append)
qed

lemma nth_butlast_update:
  assumes "n < length hs" "i < length hs - 1"
  shows "butlast (hs[n := last hs]) ! i = (if i = n then hs ! (length hs - 1) else hs ! i)"
  using assms by (auto simp: nth_butlast nth_list_update last_nth [OF assms(1)])

lemma reap_step_epoll:
  assumes d: "distinct (map hook_fd hs)" and n: "n < length hs" and c: "hook_closing (hs ! n)"
  shows "epoll_mod (hook_fd (last hs)) (hook_wanted (last hs), n) (epoll_of hs) =
         epoll_of (butlast (hs[n := last hs]))"
proof (rule map_eqI)
  fix fd :: int and v :: "mask \<times> nat"
  obtain w i where v: "v = (w, i)" by (cases v)
  let ?m = "length hs - 1" and ?hs = "butlast (hs[n := last hs])"
  have m: "?m < length hs" and last: "last hs = hs ! ?m"
    using n last_nth [OF n] by auto
  have ep: "epoll_of hs (hook_fd (last hs)) =
      (if hook_closing (last hs) then None else Some (hook_wanted (last hs), ?m))"
    using epoll_of_index [OF d m] last by simp
  have uniq: "i < length hs \<Longrightarrow> hook_fd (hs ! i) = hook_fd (hs ! ?m) \<longleftrightarrow> i = ?m"
    by (rule fd_index_unique [OF d _ m])
  have neq: "i < ?m \<Longrightarrow> hook_fd (hs ! i) \<noteq> hook_fd (hs ! ?m)"
    using uniq by auto
  have nm: "hook_closing (hs ! ?m) \<or> n < ?m"
    using c n by (cases "n = ?m") auto
  have "epoll_of ?hs fd = Some (w, i) \<longleftrightarrow>
      i < ?m \<and> hook_fd (?hs ! i) = fd \<and> \<not> hook_closing (?hs ! i) \<and> hook_wanted (?hs ! i) = w"
    using epoll_of_Some [OF distinct_butlast_update [OF n d]] by simp
  also have "\<dots> \<longleftrightarrow> i < ?m \<and> (if i = n then hook_fd (hs ! ?m) = fd \<and> \<not> hook_closing (hs ! ?m) \<and>
        hook_wanted (hs ! ?m) = w
      else hook_fd (hs ! i) = fd \<and> \<not> hook_closing (hs ! i) \<and> hook_wanted (hs ! i) = w)"
    using nth_butlast_update [OF n, of i] by auto
  also have "\<dots> \<longleftrightarrow> epoll_mod (hook_fd (last hs)) (hook_wanted (last hs), n) (epoll_of hs) fd = Some (w, i)"
  proof (cases "fd = hook_fd (hs ! ?m)")
    case True
    then show ?thesis
      using n c ep neq nm by (auto simp: epoll_mod_def last)
  next
    case False
    then show ?thesis
      using n c uniq epoll_of_Some [OF d, of fd w i] ep m
      by (auto simp: epoll_mod_def last less_Suc_eq)
  qed
  finally show "epoll_mod (hook_fd (last hs)) (hook_wanted (last hs), n) (epoll_of hs) fd = Some v \<longleftrightarrow>
      epoll_of ?hs fd = Some v"
    by (simp add: v)
qed

lemma reap_ok:
  assumes "distinct (map hook_fd hs)"
    and "\<And>i. i < n \<Longrightarrow> i < length hs \<Longrightarrow> \<not> hook_closing (hs ! i)"
  shows "\<exists>hs'. reap n hs (epoll_of hs) = (hs', epoll_of hs') \<and>
      distinct (map hook_fd hs') \<and> length hs' \<le> length hs \<and>
      (\<forall>h \<in> set hs'. \<not> hook_closing h) \<and>
      mset hs' = filter_mset (\<lambda>h. \<not> hook_closing h) (mset hs)"
  using assms
proof (induction n hs "epoll_of hs" rule: reap.induct)
  case (1 n hs)
  show ?case
  proof (cases "n < length hs")
    case False
    then have live: "\<forall>h \<in> set hs. \<not> hook_closing h"
      using "1.prems" by (auto simp: in_set_conv_nth)
    then have "filter_mset (\<lambda>h. \<not> hook_closing h) (mset hs) = mset hs"
      by (simp add: filter_mset_eq_conv)
    with False live "1.prems" show ?thesis
      by (simp add: reap.simps [of n])
  next
    case True
    show ?thesis
    proof (cases "hook_closing (hs ! n)")
      case False
      have "\<not> hook_closing (hs ! i)" if "i < Suc n" "i < length hs" for i
        using that False "1.prems"(2) by (auto simp: less_Suc_eq)
      with "1.hyps"(1) [OF True False] "1.prems"(1) True False show ?thesis
        by (simp add: reap.simps [of n])
    next
      case closing: True
      let ?hs = "butlast (hs[n := last hs])"
      have unfold: "reap n hs (epoll_of hs) = reap n ?hs (epoll_of ?hs)"
        using True closing reap_step_epoll [OF "1.prems"(1) True closing]
        by (simp add: reap.simps [of n hs] Let_def)
      have low: "\<not> hook_closing (?hs ! i)" if "i < n" "i < length ?hs" for i
        using that True "1.prems"(2) [of i] nth_butlast_update [OF True, of i] by simp
      have "filter_mset (\<lambda>h. \<not> hook_closing h) (mset ?hs) =
          filter_mset (\<lambda>h. \<not> hook_closing h) (mset hs)"
        using closing by (simp add: mset_butlast_update [OF True])
      with "1.hyps"(2) [OF True _ refl, of ] closing low unfold
        distinct_butlast_update [OF True "1.prems"(1)] reap_step_epoll [OF "1.prems"(1) True closing]
      show ?thesis by fastforce
    qed
  qed
qed

lemma looper_reap_ok [inv_intros]:
  assumes "looper_ok l"
  shows "looper_ok (looper_reap l)"
    and "\<forall>h \<in> set (lp_hooks (looper_reap l)). \<not> hook_closing h"
    and "mset (lp_hooks (looper_reap l)) = filter_mset (\<lambda>h. \<not> hook_closing h) (mset (lp_hooks l))"
proof -
  have d: "distinct (map hook_fd (lp_hooks l))" and ep: "lp_epoll l = epoll_of (lp_hooks l)"
    and len: "length (lp_hooks l) \<le> lp_max_fds l"
    using assms by (auto simp: looper_ok_def num_fds_def)
  obtain hs' where r: "reap 0 (lp_hooks l) (epoll_of (lp_hooks l)) = (hs', epoll_of hs')"
    "distinct (map hook_fd hs')" "length hs' \<le> length (lp_hooks l)"
    "\<forall>h \<in> set hs'. \<not> hook_closing h"
    "mset hs' = filter_mset (\<lambda>h. \<not> hook_closing h) (mset (lp_hooks l))"
    using reap_ok [OF d, of 0] by auto
  have "looper_reap l = l\<lparr>lp_hooks := hs', lp_epoll := epoll_of hs'\<rparr>"
    by (simp add: looper_reap_def ep r)
  then show "looper_ok (looper_reap l)"
    "\<forall>h \<in> set (lp_hooks (looper_reap l)). \<not> hook_closing h"
    "mset (lp_hooks (looper_reap l)) = filter_mset (\<lambda>h. \<not> hook_closing h) (mset (lp_hooks l))"
    using r len by (auto simp: looper_ok_def num_fds_def)
qed

lemma mark_pending_fds [simp]: "map hook_fd (mark_pending evs hs) = map hook_fd hs"
  by (induction evs hs rule: mark_pending.induct)
    (auto simp: mark_hook_def map_fd_update)

text \<open>The last loop of a round of \<open>looper_loop\<close> removes exactly the hooks marked
  \<open>HOOK_CLOSING\<close>, keeps all the others once, and leaves the kernel's interest list
  pointing at the new place of every hook it moved.\<close>

theorem reap_removes_closing:
  assumes "looper_ok l"
  shows "looper_ok (looper_reap l) \<and>
    mset (lp_hooks (looper_reap l)) = filter_mset (\<lambda>h. \<not> hook_closing h) (mset (lp_hooks l))"
  using looper_reap_ok [OF assms] by simp

lemma two_hooks_ok: "looper_ok (looper_del (looper_add (looper_add looper_init 3 Ev_fdhandler_event 0) 5 Ev_fdhandler_event 1) 3)"
  by (intro inv_intros) (auto simp: hook_fds_def looper_add_hooks looper_init_def)

theorem reap_removes_closing_witness:
  "let l = looper_del (looper_add (looper_add looper_init 3 Ev_fdhandler_event 0) 5 Ev_fdhandler_event 1) 3
   in looper_ok (looper_reap l) \<and>
      mset (lp_hooks (looper_reap l)) = filter_mset (\<lambda>h. \<not> hook_closing h) (mset (lp_hooks l))"
  unfolding Let_def by (rule reap_removes_closing [OF two_hooks_ok])

text \<open>C37: Every operation of the event loop keeps the kernel's interest list equal to what the
  array of hooks says: descriptors distinct, each live hook registered with its mask
  and its place, each closed one gone; \<open>looper_add\<close> needs a descriptor no hook has.\<close>

theorem looper_operations_keep_ok:
  assumes "looper_ok l" "fd \<notin> hook_fds l"
  shows "looper_ok (looper_add l fd func user) \<and>
    looper_ok (looper_del l fd') \<and> looper_ok (looper_enable l fd' ev) \<and>
    looper_ok (looper_disable l fd' ev) \<and> looper_ok (looper_grow l)"
  using assms by (simp add: inv_intros looper_grow_ok)

theorem looper_operations_keep_ok_witness:
  "let l = looper_add looper_init 3 Ev_fdhandler_event 0
   in looper_ok (looper_add l 7 Ev_fdhandler_event 0) \<and>
    looper_ok (looper_del l 3) \<and> looper_ok (looper_enable l 3 EPOLLIN) \<and>
    looper_ok (looper_disable l 3 EPOLLIN) \<and> looper_ok (looper_grow l)"
  unfolding Let_def
  by (rule looper_operations_keep_ok [OF looper_ok_add [OF looper_ok_init]])
    (simp_all add: hook_fds_def looper_add_hooks, simp_all add: looper_init_def)

end
