(* ===== verification/Qemud_State.thy ===== *)
theory Qemud_State
  imports Qemud_Looper
begin

text \<open>
  The data of \<open>qemud.c\<close> and its packet pool.

  Objects the daemon allocates and frees (\<open>FDHandler\<close>, \<open>Client\<close>) live in heaps
  keyed by an address that is never used again, so reading a freed object is the
  fault \<open>UseAfterFree\<close>. Packets are owned by exactly one queue at a time, so they
  are values; the pool keeps how many were taken from \<open>malloc\<close> and how many wait
  on the list \<open>_free_packets\<close>, which is what a leak changes. The doubly linked
  lists (\<open>next\<close>, \<open>pref\<close>) are lists of addresses, in the same order.
\<close>

section \<open>Packets\<close>

definition MAX_PAYLOAD :: nat where "MAX_PAYLOAD = 4000"

text \<open>\<open>len\<close> is the length of \<open>pk_data\<close>: the bytes of \<open>data\<close> past it are never read.\<close>

record packet =
  pk_data :: bytes
  pk_channel :: int

definition pk_len :: "packet \<Rightarrow> nat" where
  "pk_len p = length (pk_data p)"

section \<open>Receivers\<close>

text \<open>The functions a \<open>Receiver\<close> points to, with their \<open>user\<close> argument.\<close>

datatype post_fn =
    Post_none
  | Post_serial            \<comment> \<open>\<open>serial_fd_receive\<close>\<close>
  | Post_client nat        \<comment> \<open>\<open>client_fd_receive\<close>\<close>
  | Post_control           \<comment> \<open>\<open>multiplexer_control_accept\<close>\<close>

datatype close_fn =
    Close_none
  | Close_serial           \<comment> \<open>\<open>serial_fd_close\<close>\<close>
  | Close_client nat       \<comment> \<open>\<open>client_fd_close\<close>\<close>
  | Close_control          \<comment> \<open>\<open>multiplexer_control_close\<close>\<close>

record receiver =
  rc_post :: post_fn
  rc_close :: close_fn

section \<open>Objects\<close>

record fdhandler =
  fh_fd :: int
  fh_is_closing :: bool
  fh_receiver :: receiver
  fh_out_pos :: nat
  fh_out :: "packet list"

record client =
  cl_channel :: int
  cl_registered :: bool
  cl_fdhandler :: "nat option"

text \<open>The reader's part of \<open>Serial\<close>: \<open>sr_in\<close> is the filled part of
  \<open>in_packet->data\<close>, so \<open>in_len\<close> is its length.\<close>

record serial =
  sr_in :: bytes
  sr_in_datalen :: int
  sr_in_channel :: int

text \<open>What the daemon does to the outside: bytes written to a descriptor, and closes.\<close>

datatype effect = Wrote int bytes | Closed int

record qemud =
  q_looper :: looper
  q_pool_total :: nat
  q_pool_free :: nat
  q_handlers :: "nat \<rightharpoonup> fdhandler"
  q_next_handler :: nat
  q_active :: "nat list"
  q_closing :: "nat list"
  q_clients :: "nat \<rightharpoonup> client"
  q_next_client :: nat
  q_client_list :: "nat list"
  q_last_channel :: "32 word"
  q_serial :: serial
  q_serial_handler :: nat
  q_effects :: "effect list"

section \<open>The packet pool\<close>

definition new_packet :: packet where
  "new_packet = \<lparr>pk_data = [], pk_channel = - 1\<rparr>"

definition packet_alloc :: "qemud \<Rightarrow> packet \<times> qemud" where
  "packet_alloc q =
     (new_packet,
      if q_pool_free q \<noteq> 0 then q\<lparr>q_pool_free := q_pool_free q - 1\<rparr>
      else q\<lparr>q_pool_total := q_pool_total q + 1\<rparr>)"

definition packet_free :: "qemud \<Rightarrow> qemud" where
  "packet_free q = q\<lparr>q_pool_free := q_pool_free q + 1\<rparr>"

fun packet_free_all :: "packet list \<Rightarrow> qemud \<Rightarrow> qemud" where
  "packet_free_all [] q = q"
| "packet_free_all (p # ps) q = packet_free_all ps (packet_free q)"

text \<open>Packets that are out of the pool.\<close>

definition pool_used :: "qemud \<Rightarrow> int" where
  "pool_used q = int (q_pool_total q) - int (q_pool_free q)"

lemma packet_alloc_used [simp]: "pool_used (snd (packet_alloc q)) = pool_used q + 1"
  by (simp add: packet_alloc_def pool_used_def)

lemma packet_free_used [simp]: "pool_used (packet_free q) = pool_used q - 1"
  by (simp add: packet_free_def pool_used_def)

lemma packet_free_all_used [simp]:
  "pool_used (packet_free_all ps q) = pool_used q - int (length ps)"
  by (induction ps q rule: packet_free_all.induct) auto

lemma packet_free_all_eq: "packet_free_all ps q = q\<lparr>q_pool_free := q_pool_free q + length ps\<rparr>"
  by (induction ps q rule: packet_free_all.induct) (auto simp: packet_free_def)

end
