(* ===== verification/Qemud_FDHandler.thy ===== *)
theory Qemud_FDHandler
  imports Qemud_State
begin

text \<open>
  The handlers of \<open>qemud.c\<close> (\<open>fdhandler_*\<close>, \<open>receiver_*\<close>): a handler reads packets
  from its descriptor for a receiver and queues the packets that are written to it.

  The functions a receiver points to belong to the theories above this one, so
  the operations that call them take the call as an argument: \<open>recv\<close> for
  \<open>r->post(r->user, p)\<close> and \<open>run\<close> for \<open>r->close(r->user)\<close>. What the system
  calls return is the argument \<open>io\<close>.
\<close>

section \<open>Definitions\<close>

text \<open>A \<open>read\<close> and a \<open>write\<close> fail (\<open>None\<close>) or move bytes; an \<open>accept\<close> fails or
  gives a descriptor. The loops around \<open>EINTR\<close> end with one of these.\<close>

record io =
  io_read :: "bytes option"
  io_write :: "nat option"
  io_accept :: "int option"

type_synonym post_call = "post_fn \<Rightarrow> packet \<Rightarrow> qemud \<Rightarrow> fault + qemud"
type_synonym close_call = "close_fn \<Rightarrow> qemud \<Rightarrow> fault + qemud"

definition get_handler :: "nat \<Rightarrow> qemud \<Rightarrow> fault + fdhandler" where
  "get_handler f q = deref (q_handlers q) f"

definition put_handler :: "nat \<Rightarrow> fdhandler \<Rightarrow> qemud \<Rightarrow> qemud" where
  "put_handler f h q = q\<lparr>q_handlers := (q_handlers q)(f \<mapsto> h)\<rparr>"

definition add_effect :: "effect \<Rightarrow> qemud \<Rightarrow> qemud" where
  "add_effect e q = q\<lparr>q_effects := q_effects q @ [e]\<rparr>"

definition receiver_post :: "post_call \<Rightarrow> receiver \<Rightarrow> packet \<Rightarrow> qemud \<Rightarrow> fault + qemud" where
  "receiver_post recv r p q =
     (if rc_post r \<noteq> Post_none then recv (rc_post r) p q else Inr (packet_free q))"

text \<open>\<open>receiver_close(f->receiver)\<close>: the fields of \<open>f\<close> are written after the call.\<close>

definition receiver_close :: "close_call \<Rightarrow> nat \<Rightarrow> qemud \<Rightarrow> fault + qemud" where
  "receiver_close run f q =
     bindE (get_handler f q) (\<lambda>h.
     bindE (if rc_close (fh_receiver h) \<noteq> Close_none
            then run (rc_close (fh_receiver h)) q else Inr q) (\<lambda>q.
     bindE (get_handler f q) (\<lambda>h.
       Inr (put_handler f (h\<lparr>fh_receiver := \<lparr>rc_post = Post_none, rc_close = Close_none\<rparr>\<rparr>) q))))"

definition fdhandler_remove :: "nat \<Rightarrow> qemud \<Rightarrow> qemud" where
  "fdhandler_remove f q =
     q\<lparr>q_active := filter (\<lambda>g. g \<noteq> f) (q_active q),
       q_closing := filter (\<lambda>g. g \<noteq> f) (q_closing q)\<rparr>"

definition fdhandler_prepend_active :: "nat \<Rightarrow> qemud \<Rightarrow> qemud" where
  "fdhandler_prepend_active f q = q\<lparr>q_active := f # q_active q\<rparr>"

definition fdhandler_prepend_closing :: "nat \<Rightarrow> qemud \<Rightarrow> qemud" where
  "fdhandler_prepend_closing f q = q\<lparr>q_closing := f # q_closing q\<rparr>"

definition fdhandler_list_init :: "qemud \<Rightarrow> qemud" where
  "fdhandler_list_init q = q\<lparr>q_active := [], q_closing := []\<rparr>"

definition fdhandler_close :: "close_call \<Rightarrow> nat \<Rightarrow> qemud \<Rightarrow> fault + qemud" where
  "fdhandler_close run f q =
     bindE (receiver_close run f q) (\<lambda>q.
     let q = fdhandler_remove f q in
     bindE (get_handler f q) (\<lambda>h.
     let q = packet_free_all (fh_out h) q;
         q = (if fh_fd h \<ge> 0
              then add_effect (Closed (fh_fd h)) (q\<lparr>q_looper := looper_del (q_looper q) (fh_fd h)\<rparr>)
              else q)
     in Inr (q\<lparr>q_handlers := (q_handlers q)(f := None)\<rparr>)))"

text \<open>With \<open>close\<close> cleared first, \<open>fdhandler_close\<close> calls no receiver.\<close>

definition fdhandler_shutdown :: "nat \<Rightarrow> qemud \<Rightarrow> fault + qemud" where
  "fdhandler_shutdown f q =
     bindE (get_handler f q) (\<lambda>h.
     let h = h\<lparr>fh_receiver := (fh_receiver h)\<lparr>rc_close := Close_none\<rparr>\<rparr>;
         q = put_handler f h q
     in if fh_out h \<noteq> [] \<and> \<not> fh_is_closing h
        then Inr (fdhandler_prepend_closing f (fdhandler_remove f
                   (put_handler f (h\<lparr>fh_is_closing := True\<rparr>) q)))
        else fdhandler_close (\<lambda>_. Inr) f q)"

definition fdhandler_enqueue :: "nat \<Rightarrow> packet \<Rightarrow> qemud \<Rightarrow> fault + qemud" where
  "fdhandler_enqueue f p q =
     bindE (get_handler f q) (\<lambda>h.
     let first = fh_out h;
         h = h\<lparr>fh_out := fh_out h @ [p]\<rparr>
     in if first = []
        then Inr (put_handler f (h\<lparr>fh_out_pos := 0\<rparr>)
                   (q\<lparr>q_looper := looper_enable (q_looper q) (fh_fd h) EPOLLOUT\<rparr>))
        else Inr (put_handler f h q))"

text \<open>The three parts of \<open>fdhandler_event\<close>. A \<open>read\<close> of zero bytes takes neither branch.\<close>

definition handler_read :: "post_call \<Rightarrow> nat \<Rightarrow> io \<Rightarrow> qemud \<Rightarrow> fault + qemud" where
  "handler_read recv f io q =
     bindE (get_handler f q) (\<lambda>h.
     let (p, q) = packet_alloc q
     in case io_read io of
          None \<Rightarrow> Inr (packet_free q)
        | Some bs \<Rightarrow>
            if length bs > 0
            then receiver_post recv (fh_receiver h) (p\<lparr>pk_data := bs, pk_channel := - 101\<rparr>) q
            else Inr q)"

definition handler_write :: "nat \<Rightarrow> io \<Rightarrow> qemud \<Rightarrow> fault + qemud" where
  "handler_write f io q =
     bindE (get_handler f q) (\<lambda>h.
     case fh_out h of
       [] \<Rightarrow> Inr q
     | p # rest \<Rightarrow>
         (case io_write io of
            None \<Rightarrow> Inr q
          | Some len \<Rightarrow>
              let q = add_effect (Wrote (fh_fd h) (take len (drop (fh_out_pos h) (pk_data p)))) q;
                  pos = fh_out_pos h + len
              in if pos \<ge> pk_len p
                 then let q = packet_free (put_handler f (h\<lparr>fh_out_pos := 0, fh_out := rest\<rparr>) q)
                      in if rest = []
                         then Inr (q\<lparr>q_looper := looper_disable (q_looper q) (fh_fd h) EPOLLOUT\<rparr>)
                         else Inr q
                 else Inr (put_handler f (h\<lparr>fh_out_pos := pos\<rparr>) q)))"

definition fdhandler_event ::
  "post_call \<Rightarrow> close_call \<Rightarrow> nat \<Rightarrow> mask \<Rightarrow> io \<Rightarrow> qemud \<Rightarrow> fault + qemud" where
  "fdhandler_event recv run f events io q =
     bindE (if events AND EPOLLIN \<noteq> 0 then handler_read recv f io q else Inr q) (\<lambda>q.
     if events AND (EPOLLHUP OR EPOLLERR) \<noteq> 0 then fdhandler_close run f q
     else if events AND EPOLLOUT \<noteq> 0 then handler_write f io q
     else Inr q)"

definition fdhandler_new_with ::
  "ev_func \<Rightarrow> int \<Rightarrow> receiver \<Rightarrow> qemud \<Rightarrow> nat \<times> qemud" where
  "fdhandler_new_with func fd r q =
     (let f = q_next_handler q;
          h = \<lparr>fh_fd = fd, fh_is_closing = False, fh_receiver = r, fh_out_pos = 0, fh_out = []\<rparr>;
          q = fdhandler_prepend_active f (put_handler f h (q\<lparr>q_next_handler := f + 1\<rparr>));
          l = looper_enable (looper_add (q_looper q) fd func f) fd EPOLLIN
      in (f, q\<lparr>q_looper := l\<rparr>))"

definition fdhandler_new :: "int \<Rightarrow> receiver \<Rightarrow> qemud \<Rightarrow> nat \<times> qemud" where
  "fdhandler_new fd r q = fdhandler_new_with Ev_fdhandler_event fd r q"

definition fdhandler_new_accept :: "int \<Rightarrow> receiver \<Rightarrow> qemud \<Rightarrow> nat \<times> qemud" where
  "fdhandler_new_accept fd r q = fdhandler_new_with Ev_fdhandler_accept_event fd r q"

definition fdhandler_accept_event ::
  "post_call \<Rightarrow> close_call \<Rightarrow> nat \<Rightarrow> mask \<Rightarrow> io \<Rightarrow> qemud \<Rightarrow> fault + qemud" where
  "fdhandler_accept_event recv run f events io q =
     (if events AND EPOLLIN \<noteq> 0
      then bindE (get_handler f q) (\<lambda>h.
           let (p, q) = packet_alloc q
           in case io_accept io of
                None \<Rightarrow> Inr (packet_free q)
              | Some fd \<Rightarrow>
                  bindE (receiver_post recv (fh_receiver h)
                           (p\<lparr>pk_data := [CHR 0x01], pk_channel := fd\<rparr>) q) (\<lambda>q.
                  if events AND (EPOLLHUP OR EPOLLERR) \<noteq> 0
                  then fdhandler_close run f q else Inr q))
      else if events AND (EPOLLHUP OR EPOLLERR) \<noteq> 0 then fdhandler_close run f q
      else Inr q)"

end
