(* ===== verification/Qemud_Hex.thy ===== *)
theory Qemud_Hex
  imports Prelude
begin

text \<open>
  The number conversions of the framing protocol of \<open>qemud.c\<close>: \<open>hex2int\<close> and
  \<open>int2hex\<close>. The callers pass 2 or 4 digits, so \<open>result\<close> stays far below
  \<open>INT_MAX\<close> and the model's \<open>int\<close> is the code's \<open>int\<close>.
\<close>

section \<open>Definitions\<close>

definition hexchars :: "char list" where
  "hexchars = ''0123456789abcdef''"

text \<open>
  The cascade of the \<open>do { ... } while (0)\<close> block. The comparisons are made on
  \<open>unsigned\<close> differences, so a byte below the base wraps to a huge value and
  fails: in \<open>int\<close> this is a difference outside \<open>0..9\<close> or \<open>0..5\<close>.
\<close>

definition hex_digit :: "char \<Rightarrow> int option" where
  "hex_digit ch =
     (let c = byte_val ch;
          d0 = c - byte_val CHR ''0'';
          d1 = c - byte_val CHR ''a'';
          d2 = c - byte_val CHR ''A''
      in if 0 \<le> d0 \<and> d0 < 10 then Some d0
         else if 0 \<le> d1 \<and> d1 < 6 then Some (d1 + 10)
         else if 0 \<le> d2 \<and> d2 < 6 then Some (d2 + 10)
         else None)"

fun hex2int_loop :: "int \<Rightarrow> bytes \<Rightarrow> int" where
  "hex2int_loop result [] = result"
| "hex2int_loop result (c # cs) =
     (case hex_digit c of
        None \<Rightarrow> - 1
      | Some d \<Rightarrow> hex2int_loop (push_bit 4 result OR d) cs)"

definition hex2int :: "bytes \<Rightarrow> int" where
  "hex2int data = hex2int_loop 0 data"

text \<open>\<open>int2hex value to width\<close> returns the \<open>width\<close> bytes it stores at \<open>to\<close>.\<close>

fun int2hex :: "int \<Rightarrow> nat \<Rightarrow> bytes" where
  "int2hex v 0 = []"
| "int2hex v (Suc w) = hexchars ! nat (drop_bit (4 * w) v AND 15) # int2hex v w"

section \<open>Lemmas\<close>

lemma length_int2hex [simp]: "length (int2hex v w) = w"
  by (induction w) auto

lemma hex_digit_range: "hex_digit c = Some d \<Longrightarrow> 0 \<le> d \<and> d < 16"
  by (auto simp: hex_digit_def Let_def split: if_splits)

lemma shift_or_digit:
  assumes "0 \<le> r" "0 \<le> d" "d < 16"
  shows "push_bit 4 r OR d = 16 * r + (d :: int)"
proof -
  have "d = take_bit 4 d"
    using assms by (simp add: take_bit_int_eq_self)
  then have "push_bit 4 r AND d = push_bit 4 r AND take_bit 4 d"
    by simp
  also have "\<dots> = 0"
    by (rule bit_eqI) (auto simp: bit_simps)
  finally have "push_bit 4 r AND d = 0" .
  then have "push_bit 4 r OR d = push_bit 4 r + d"
    by (simp add: disjunctive_add_eq_or)
  then show ?thesis
    by (simp add: push_bit_eq_mult)
qed

lemma hex2int_loop_bounds:
  "0 \<le> r \<Longrightarrow> hex2int_loop r cs = - 1 \<or>
     (0 \<le> hex2int_loop r cs \<and> hex2int_loop r cs < (r + 1) * 16 ^ length cs)"
proof (induction cs arbitrary: r)
  case Nil
  then show ?case by simp
next
  case (Cons c cs)
  show ?case
  proof (cases "hex_digit c")
    case None
    then show ?thesis by simp
  next
    case (Some d)
    then have d: "0 \<le> d" "d < 16" by (auto dest: hex_digit_range)
    let ?r = "16 * r + d"
    have eq: "hex2int_loop r (c # cs) = hex2int_loop ?r cs"
      using Some d Cons.prems by (simp add: shift_or_digit)
    have "(?r + 1) * 16 ^ length cs \<le> (16 * r + 16) * 16 ^ length cs"
      using d by (intro mult_right_mono) auto
    also have "\<dots> = (r + 1) * 16 ^ length (c # cs)"
      by (simp add: algebra_simps)
    finally have le: "(?r + 1) * 16 ^ length cs \<le> (r + 1) * 16 ^ length (c # cs)" .
    have "0 \<le> ?r" using Cons.prems d by simp
    from Cons.IH [OF this] le show ?thesis
      unfolding eq by linarith
  qed
qed

lemma hexchars_digit:
  assumes "0 \<le> d" "d < 16"
  shows "hex_digit (hexchars ! nat d) = Some d"
proof -
  have "d \<in> {0, 1, 2, 3, 4, 5, 6, 7, 8, 9, 10, 11, 12, 13, 14, 15}"
    using assms by (simp, presburger)
  then show ?thesis
    by (auto simp: hexchars_def hex_digit_def)
qed

lemma and_15_mod: "(x :: int) AND 15 = x mod 16"
proof -
  have "x AND 15 = take_bit 4 x"
    by (simp add: take_bit_eq_mask mask_eq_exp_minus_1)
  then show ?thesis by (simp add: take_bit_eq_mod)
qed

lemma hex2int_loop_int2hex:
  "0 \<le> r \<Longrightarrow> hex2int_loop r (int2hex v w) = r * 16 ^ w + v mod 16 ^ w"
proof (induction w arbitrary: r)
  case 0
  then show ?case by simp
next
  case (Suc w)
  let ?d = "v div 16 ^ w mod 16"
  have d: "drop_bit (4 * w) v AND 15 = ?d"
    by (simp add: and_15_mod drop_bit_eq_div power_mult)
  have "hex2int_loop r (int2hex v (Suc w)) = hex2int_loop (16 * r + ?d) (int2hex v w)"
    using Suc.prems by (simp add: d hexchars_digit shift_or_digit)
  also have "\<dots> = (16 * r + ?d) * 16 ^ w + v mod 16 ^ w"
    using Suc.prems by (intro Suc.IH) simp
  also have "\<dots> = r * 16 ^ Suc w + v mod 16 ^ Suc w"
    using zmod_zmult2_eq [of 16 v "16 ^ w"] by (simp add: algebra_simps)
  finally show ?case .
qed

lemma hex2int_int2hex_mod: "hex2int (int2hex v w) = v mod 16 ^ w"
  by (simp add: hex2int_def hex2int_loop_int2hex)

lemma hex2int_loop_foldl:
  "0 \<le> r \<Longrightarrow> hex2int_loop r cs =
     (if list_all (\<lambda>c. hex_digit c \<noteq> None) cs then foldl (\<lambda>r c. 16 * r + the (hex_digit c)) r cs else - 1)"
proof (induction cs arbitrary: r)
  case Nil
  then show ?case by simp
next
  case (Cons c cs)
  then show ?case
    using hex_digit_range [of c] by (cases "hex_digit c") (auto simp: shift_or_digit)
qed

text \<open>\<open>hex2int\<close> reads its bytes, both letter cases allowed, as a number in base 16, most
  significant digit first; one byte that is no digit makes it -1.\<close>

theorem hex2int_spec:
  "hex2int cs =
     (if list_all (\<lambda>c. hex_digit c \<noteq> None) cs then foldl (\<lambda>r c. 16 * r + the (hex_digit c)) 0 cs else - 1)"
  by (simp add: hex2int_def hex2int_loop_foldl)

text \<open>What \<open>int2hex\<close> writes in a field of \<open>w\<close> digits, \<open>hex2int\<close> reads back modulo
  \<open>16^w\<close>; so two digits carry a channel below 256 and four a length below 65536.\<close>

theorem hex_field_roundtrip:
  "length (int2hex v w) = w \<and> hex2int (int2hex v w) = v mod 16 ^ w"
  by (simp add: hex2int_int2hex_mod)

end
