(* ===== verification/Qemud_Serial.thy ===== *)
theory Qemud_Serial
  imports Qemud_FDHandler Qemud_Hex
begin

text \<open>
  The framing of the serial port in \<open>qemud.c\<close> (\<open>Serial\<close>, \<open>serial_*\<close>): every
  packet is preceded by six bytes, two hexadecimal digits of its channel and four
  of its length. The reader is a state machine over the bytes of the port, which
  \<open>read\<close> may hand over in pieces of any size.
\<close>

section \<open>Definitions\<close>

definition HEADER_SIZE :: nat where "HEADER_SIZE = 6"
definition CHANNEL_OFFSET :: nat where "CHANNEL_OFFSET = 0"
definition LENGTH_OFFSET :: nat where "LENGTH_OFFSET = 2"
definition CHANNEL_SIZE :: nat where "CHANNEL_SIZE = 2"
definition LENGTH_SIZE :: nat where "LENGTH_SIZE = 4"
definition CHANNEL_CONTROL :: int where "CHANNEL_CONTROL = 0"

lemmas serial_consts = HEADER_SIZE_def CHANNEL_OFFSET_def LENGTH_OFFSET_def
  CHANNEL_SIZE_def LENGTH_SIZE_def CHANNEL_CONTROL_def

text \<open>The block that runs when the six bytes of a header are there.\<close>

definition read_header :: "serial \<Rightarrow> bytes \<Rightarrow> serial" where
  "read_header s hdr =
     (let datalen = hex2int (take LENGTH_SIZE (drop LENGTH_OFFSET hdr));
          channel = hex2int (take CHANNEL_SIZE (drop CHANNEL_OFFSET hdr))
      in s\<lparr>sr_in := [], sr_in_datalen := (if datalen \<le> 0 then 0 else datalen),
           sr_in_channel := channel\<rparr>)"

text \<open>
  The loop of \<open>serial_fd_receive\<close> over the bytes at \<open>p->data + rpos\<close>. \<open>post\<close> hands
  a complete packet to the receiver and takes a new \<open>in_packet\<close>. \<open>memcpy\<close> past the
  4000 bytes of \<open>data\<close> is the fault \<open>BufferOverflow\<close>.
\<close>

function serial_rx ::
  "(packet \<Rightarrow> 'w \<Rightarrow> fault + 'w) \<Rightarrow> serial \<Rightarrow> bytes \<Rightarrow> 'w \<Rightarrow> fault + serial \<times> 'w" where
  "serial_rx post s bs w =
     (if bs = [] then Inr (s, w)
      else
        let inpos = length (sr_in s);
            wanted = (if sr_in_datalen s = 0 then int HEADER_SIZE else sr_in_datalen s) - int inpos;
            avail = min (length bs) (nat wanted);
            inp = sr_in s @ take avail bs;
            rest = drop avail bs
        in if wanted \<le> 0 then Inl BadSize
           else if inpos + avail > MAX_PAYLOAD then Inl BufferOverflow
           else if sr_in_datalen s = 0
           then if length inp = HEADER_SIZE
                then serial_rx post (read_header s inp) rest w
                else serial_rx post (s\<lparr>sr_in := inp\<rparr>) rest w
           else if int (length inp) = sr_in_datalen s
                then bindE (if sr_in_channel s < 0 then Inr w
                            else post \<lparr>pk_data = inp, pk_channel = sr_in_channel s\<rparr> w)
                       (\<lambda>w. serial_rx post (s\<lparr>sr_in := [], sr_in_datalen := 0\<rparr>) rest w)
                else serial_rx post (s\<lparr>sr_in := inp\<rparr>) rest w)"
  by pat_completeness auto
termination
  by (relation "measure (\<lambda>(post, s, bs, w). length bs)") (auto split: if_splits)

declare serial_rx.simps [simp del]

definition serial_fd_receive ::
  "(packet \<Rightarrow> qemud \<Rightarrow> fault + qemud) \<Rightarrow> packet \<Rightarrow> qemud \<Rightarrow> fault + qemud" where
  "serial_fd_receive recv p q =
     bindE (serial_rx (\<lambda>inp q. bindE (recv inp q) (\<lambda>q. Inr (snd (packet_alloc q))))
              (q_serial q) (pk_data p) q)
       (\<lambda>(s, q). Inr (packet_free (q\<lparr>q_serial := s\<rparr>)))"

definition serial_header :: "packet \<Rightarrow> bytes" where
  "serial_header p = int2hex (pk_channel p) CHANNEL_SIZE @ int2hex (int (pk_len p)) LENGTH_SIZE"

definition serial_send :: "packet \<Rightarrow> qemud \<Rightarrow> fault + qemud" where
  "serial_send p q =
     (let (h, q) = packet_alloc q;
          h = h\<lparr>pk_data := serial_header p\<rparr>
      in bindE (fdhandler_enqueue (q_serial_handler q) h q) (\<lambda>q.
           fdhandler_enqueue (q_serial_handler q) p q))"

definition serial_init :: "int \<Rightarrow> qemud \<Rightarrow> qemud" where
  "serial_init fd q =
     (let (f, q) = fdhandler_new fd \<lparr>rc_post = Post_serial, rc_close = Close_serial\<rparr> q
      in snd (packet_alloc
           (q\<lparr>q_serial_handler := f,
              q_serial := \<lparr>sr_in = [], sr_in_datalen = 0, sr_in_channel = 0\<rparr>\<rparr>)))"

section \<open>The reader sees a stream, not the pieces\<close>

lemma serial_rx_Nil [simp]: "serial_rx post s [] w = Inr (s, w)"
  by (simp add: serial_rx.simps)

text \<open>One unfolding, with what is still wanted and what is taken made explicit.\<close>

definition rx_wanted :: "serial \<Rightarrow> int" where
  "rx_wanted s = (if sr_in_datalen s = 0 then int HEADER_SIZE else sr_in_datalen s) - int (length (sr_in s))"

definition rx_chunk ::
  "(packet \<Rightarrow> 'w \<Rightarrow> fault + 'w) \<Rightarrow> serial \<Rightarrow> bytes \<Rightarrow> 'w \<Rightarrow> fault + serial \<times> 'w" where
  "rx_chunk post s xs w =
     (let inp = sr_in s @ xs
      in if rx_wanted s \<le> 0 then Inl BadSize
         else if length inp > MAX_PAYLOAD then Inl BufferOverflow
         else if int (length xs) < rx_wanted s then Inr (s\<lparr>sr_in := inp\<rparr>, w)
         else if sr_in_datalen s = 0 then Inr (read_header s inp, w)
         else bindE (if sr_in_channel s < 0 then Inr w
                     else post \<lparr>pk_data = inp, pk_channel = sr_in_channel s\<rparr> w)
                (\<lambda>w. Inr (s\<lparr>sr_in := [], sr_in_datalen := 0\<rparr>, w)))"

lemma serial_rx_chunk:
  fixes s :: serial
  assumes "bs \<noteq> []"
  defines "n \<equiv> min (length bs) (nat (rx_wanted s))"
  shows "serial_rx post s bs w =
    bindE (rx_chunk post s (take n bs) w) (\<lambda>(s, w). serial_rx post s (drop n bs) w)"
  using assms
  by (subst serial_rx.simps)
    (auto simp: rx_chunk_def rx_wanted_def Let_def bindE_assoc split: if_splits)

text \<open>A piece that leaves the reader wanting more can be read in two parts.\<close>

lemma rx_chunk_split:
  assumes "xs \<noteq> []" "ys \<noteq> []" "int (length xs + length ys) \<le> rx_wanted s"
  shows "rx_chunk post s (xs @ ys) w =
    bindE (rx_chunk post s xs w) (\<lambda>(s, w). rx_chunk post s ys w)"
proof -
  have "int (length xs) < rx_wanted s"
    using assms by (cases ys) auto
  moreover have "rx_wanted (s\<lparr>sr_in := sr_in s @ xs\<rparr>) = rx_wanted s - int (length xs)"
    by (simp add: rx_wanted_def)
  moreover have "read_header (s\<lparr>sr_in := i\<rparr>) h = read_header s h" for i h
    by (simp add: read_header_def Let_def)
  ultimately show ?thesis
    by (auto simp: rx_chunk_def Let_def)
qed

lemma serial_rx_single: "serial_rx post s [b] w = rx_chunk post s [b] w"
proof (cases "rx_wanted s \<le> 0")
  case True
  then show ?thesis
    by (subst serial_rx_chunk) (auto simp: rx_chunk_def)
next
  case False
  then have "min 1 (nat (rx_wanted s)) = 1" by simp
  then show ?thesis
    by (subst serial_rx_chunk) (cases "rx_chunk post s [b] w"; auto)+
qed

text \<open>Reading a list of bytes is reading its first byte, then the others.\<close>

lemma serial_rx_Cons:
  "serial_rx post s (b # bs) w =
     bindE (serial_rx post s [b] w) (\<lambda>(s, w). serial_rx post s bs w)"
proof (cases "rx_wanted s \<le> 1 \<or> bs = []")
  case True
  have "serial_rx post s (b # bs) w =
      bindE (rx_chunk post s [b] w) (\<lambda>(s, w). serial_rx post s bs w)"
  proof (cases "rx_wanted s \<le> 0")
    case True
    then show ?thesis
      by (subst serial_rx_chunk) (auto simp: rx_chunk_def)
  next
    case False
    with True have "min (length (b # bs)) (nat (rx_wanted s)) = 1" by auto
    then show ?thesis
      by (subst serial_rx_chunk) auto
  qed
  then show ?thesis by (simp add: serial_rx_single)
next
  case False
  then have bs: "bs \<noteq> []" and w: "1 < rx_wanted s" by auto
  define n where "n = min (length bs) (nat (rx_wanted s - 1))"
  have n: "min (length (b # bs)) (nat (rx_wanted s)) = Suc n" and "take n bs \<noteq> []"
    using w bs by (auto simp: n_def)
  have split: "rx_chunk post s (take (Suc n) (b # bs)) w =
      bindE (rx_chunk post s [b] w) (\<lambda>(s, w). rx_chunk post s (take n bs) w)"
    using rx_chunk_split [of "[b]" "take n bs" s post w] \<open>take n bs \<noteq> []\<close> w
    by (simp add: n_def)
  have cont: "bindE (rx_chunk post s' (take n bs) w') (\<lambda>(s, w). serial_rx post s (drop n bs) w) =
      serial_rx post s' bs w'" if "rx_chunk post s [b] w = Inr (s', w')" for s' w'
  proof -
    have "s' = s\<lparr>sr_in := sr_in s @ [b]\<rparr>"
      using that w by (simp add: rx_chunk_def Let_def split: if_splits)
    then have "rx_wanted s' = rx_wanted s - 1"
      by (simp add: rx_wanted_def)
    then show ?thesis
      using serial_rx_chunk [OF bs, of post s' w'] by (simp add: n_def)
  qed
  have "serial_rx post s (b # bs) w =
      bindE (rx_chunk post s (take (Suc n) (b # bs)) w) (\<lambda>(s, w). serial_rx post s (drop n bs) w)"
    by (subst serial_rx_chunk) (simp_all only: n list.simps drop_Suc_Cons, simp)
  also have "\<dots> = bindE (rx_chunk post s [b] w) (\<lambda>(s, w). serial_rx post s bs w)"
    unfolding split using cont by (cases "rx_chunk post s [b] w") auto
  finally show ?thesis
    by (simp only: serial_rx_single)
qed

lemma serial_rx_append:
  "serial_rx post s (xs @ ys) w =
     bindE (serial_rx post s xs w) (\<lambda>(s, w). serial_rx post s ys w)"
proof (induction xs arbitrary: s w)
  case Nil
  then show ?case by simp
next
  case (Cons x xs)
  show ?case
    using Cons.IH serial_rx_Cons [of post s x "xs @ ys" w] serial_rx_Cons [of post s x xs w]
    by (cases "serial_rx post s [x] w") auto
qed

section \<open>Well-formed readers\<close>

definition serial_ok :: "serial \<Rightarrow> bool" where
  "serial_ok s \<longleftrightarrow> 0 \<le> sr_in_datalen s \<and> sr_in_datalen s < 16 ^ LENGTH_SIZE \<and> 0 < rx_wanted s"

definition serial_idle :: "serial \<Rightarrow> bool" where
  "serial_idle s \<longleftrightarrow> sr_in s = [] \<and> sr_in_datalen s = 0"

lemma serial_idle_ok [simp]: "serial_idle s \<Longrightarrow> serial_ok s"
  by (simp add: serial_idle_def serial_ok_def rx_wanted_def serial_consts)

lemma hex2int_bounds: "hex2int cs = - 1 \<or> (0 \<le> hex2int cs \<and> hex2int cs < 16 ^ length cs)"
  using hex2int_loop_bounds [of 0 cs] by (auto simp: hex2int_def)

lemma hex2int_less: "length cs \<le> n \<Longrightarrow> hex2int cs < 16 ^ n"
proof -
  assume "length cs \<le> n"
  then have "(16 :: int) ^ length cs \<le> 16 ^ n" "(0 :: int) < 16 ^ n"
    by (simp_all add: power_increasing)
  then show "hex2int cs < 16 ^ n"
    using hex2int_bounds [of cs] by linarith
qed

lemma read_header_ok: "serial_ok (read_header s hdr)"
  using hex2int_less [of "take LENGTH_SIZE (drop LENGTH_OFFSET hdr)" LENGTH_SIZE]
  by (auto simp: read_header_def Let_def serial_ok_def rx_wanted_def serial_consts)

lemma read_header_channel:
  "- 1 \<le> sr_in_channel (read_header s hdr) \<and> sr_in_channel (read_header s hdr) < 256"
  using hex2int_bounds [of "take CHANNEL_SIZE (drop CHANNEL_OFFSET hdr)"]
    hex2int_less [of "take CHANNEL_SIZE (drop CHANNEL_OFFSET hdr)" CHANNEL_SIZE]
  by (auto simp: read_header_def Let_def serial_consts)

lemma rx_chunk_ok:
  assumes "serial_ok s" "rx_chunk post s xs w = Inr (s', w')"
  shows "serial_ok s'"
proof -
  have short: "serial_ok (s\<lparr>sr_in := sr_in s @ xs\<rparr>)" if "int (length xs) < rx_wanted s"
    using assms(1) that by (simp add: serial_ok_def rx_wanted_def split: if_splits)
  have full: "serial_ok (s\<lparr>sr_in := [], sr_in_datalen := 0\<rparr>)"
    by (simp add: serial_ok_def rx_wanted_def serial_consts)
  from assms(2) show ?thesis
    using short full read_header_ok
    by (auto simp: rx_chunk_def Let_def bindE_eq_Inr split: if_splits)
qed

lemma serial_rx_ok:
  "serial_ok s \<Longrightarrow> serial_rx post s bs w = Inr (s', w') \<Longrightarrow> serial_ok s'"
proof (induction bs arbitrary: s w)
  case Nil
  then show ?case by simp
next
  case (Cons b bs)
  then show ?case
    using rx_chunk_ok [of s post "[b]" w]
    by (subst (asm) serial_rx_Cons) (auto simp: serial_rx_single bindE_eq_Inr)
qed

lemma rx_chunk_BadSize:
  assumes "serial_ok s" "\<And>p w. post p w \<noteq> Inl BadSize"
  shows "rx_chunk post s xs w \<noteq> Inl BadSize"
  using assms by (auto simp: rx_chunk_def Let_def serial_ok_def bindE_eq_Inl)

lemma serial_rx_BadSize:
  "serial_ok s \<Longrightarrow> (\<And>p w. post p w \<noteq> Inl BadSize) \<Longrightarrow> serial_rx post s bs w \<noteq> Inl BadSize"
proof (induction bs arbitrary: s w)
  case Nil
  then show ?case by simp
next
  case (Cons b bs)
  then show ?case
    using rx_chunk_ok [of s post "[b]" w] rx_chunk_BadSize [of s post "[b]" w]
    by (subst serial_rx_Cons) (auto simp: serial_rx_single bindE_eq_Inl)
qed

section \<open>Frames\<close>

definition frame :: "packet \<Rightarrow> bytes" where
  "frame p = serial_header p @ pk_data p"

text \<open>A packet the header can announce and the reader can hold.\<close>

definition sendable :: "packet \<Rightarrow> bool" where
  "sendable p \<longleftrightarrow> 0 \<le> pk_channel p \<and> pk_channel p < 256 \<and> 0 < pk_len p \<and> pk_len p \<le> MAX_PAYLOAD"

lemma length_serial_header [simp]: "length (serial_header p) = 6"
  by (simp add: serial_header_def serial_consts)

lemma read_serial_header:
  assumes "0 \<le> pk_channel p" "pk_channel p < 256" "pk_len p < 65536"
  shows "read_header s (serial_header p) =
    s\<lparr>sr_in := [], sr_in_datalen := int (pk_len p), sr_in_channel := pk_channel p\<rparr>"
  using assms
  by (simp add: read_header_def serial_header_def serial_consts hex2int_int2hex_mod)

lemma serial_rx_header:
  assumes "serial_idle s" "0 \<le> pk_channel p" "pk_channel p < 256" "pk_len p < 65536"
  shows "serial_rx post s (serial_header p @ bs) w =
    serial_rx post (s\<lparr>sr_in := [], sr_in_datalen := int (pk_len p), sr_in_channel := pk_channel p\<rparr>) bs w"
proof -
  have n: "nat (rx_wanted s) = 6" "rx_wanted s = 6"
    using assms(1) by (auto simp: serial_idle_def rx_wanted_def serial_consts)
  have ne: "serial_header p @ bs \<noteq> []"
    using length_serial_header [of p] by (metis append_is_Nil_conv list.size(3) zero_neq_numeral)
  have "rx_chunk post s (serial_header p) w = Inr (read_header s (serial_header p), w)"
    using assms(1) n by (simp add: rx_chunk_def serial_idle_def MAX_PAYLOAD_def)
  then show ?thesis
    using serial_rx_chunk [OF ne, of post s w] assms by (simp add: n read_serial_header)
qed

lemma serial_rx_payload:
  assumes "sr_in s = []" "sr_in_datalen s = int (length xs)" "0 \<le> sr_in_channel s"
    "xs \<noteq> []" "length xs \<le> MAX_PAYLOAD"
  shows "serial_rx post s (xs @ bs) w =
    bindE (post \<lparr>pk_data = xs, pk_channel = sr_in_channel s\<rparr> w)
      (\<lambda>w. serial_rx post (s\<lparr>sr_in := [], sr_in_datalen := 0\<rparr>) bs w)"
proof -
  have n: "rx_wanted s = int (length xs)"
    using assms by (simp add: rx_wanted_def)
  have "serial_rx post s (xs @ bs) w =
      bindE (rx_chunk post s xs w) (\<lambda>(s, w). serial_rx post s bs w)"
    using serial_rx_chunk [of "xs @ bs" post s w] assms n by simp
  then show ?thesis
    using assms n by (simp add: rx_chunk_def bindE_assoc)
qed

lemma serial_rx_frame:
  assumes "serial_idle s" "sendable p"
  shows "serial_rx post s (frame p @ bs) w =
    bindE (post p w) (\<lambda>w. serial_rx post (s\<lparr>sr_in_channel := pk_channel p\<rparr>) bs w)"
proof -
  let ?s = "s\<lparr>sr_in := [], sr_in_datalen := int (pk_len p), sr_in_channel := pk_channel p\<rparr>"
  have p: "\<lparr>pk_data = pk_data p, pk_channel = pk_channel p\<rparr> = p" by simp
  have restore: "?s\<lparr>sr_in := [], sr_in_datalen := 0\<rparr> = s\<lparr>sr_in_channel := pk_channel p\<rparr>"
    using assms(1) by (cases s) (simp add: serial_idle_def)
  have "serial_rx post s (frame p @ bs) w = serial_rx post ?s (pk_data p @ bs) w"
    using assms by (simp add: frame_def serial_rx_header sendable_def MAX_PAYLOAD_def)
  also have "\<dots> = bindE (post p w) (\<lambda>w. serial_rx post (s\<lparr>sr_in_channel := pk_channel p\<rparr>) bs w)"
    using assms serial_rx_payload [of ?s "pk_data p" post bs w] restore p
    by (simp add: sendable_def pk_len_def)
  finally show ?thesis .
qed

section \<open>The contract of the framing\<close>

text \<open>
  What a user of the serial port relies on: writing a packet gives bytes, and a
  reader that meets these bytes hands on the packet and is ready for the next,
  whatever follows and however the bytes are cut.
\<close>

definition collect_packets :: "'p \<Rightarrow> 'p list \<Rightarrow> 'e + 'p list" where
  "collect_packets p ps = Inr (ps @ [p])"

text \<open>One call of the reader for every piece \<open>read\<close> returned.\<close>

fun rx_pieces ::
  "('r \<Rightarrow> 'b list \<Rightarrow> 'w \<Rightarrow> 'e + 'r \<times> 'w) \<Rightarrow> 'r \<Rightarrow> 'b list list \<Rightarrow> 'w \<Rightarrow> 'e + 'r \<times> 'w" where
  "rx_pieces rx s [] w = Inr (s, w)"
| "rx_pieces rx s (xs # xss) w = bindE (rx s xs w) (\<lambda>(s, w). rx_pieces rx s xss w)"

locale framing =
  fixes enc :: "'p \<Rightarrow> 'b list"
    and rx :: "('p \<Rightarrow> 'p list \<Rightarrow> 'e + 'p list) \<Rightarrow> 'r \<Rightarrow> 'b list \<Rightarrow> 'p list \<Rightarrow> 'e + 'r \<times> 'p list"
    and ready :: "'r \<Rightarrow> bool"
    and legal :: "'p \<Rightarrow> bool"
  assumes rx_nil: "rx post s [] w = Inr (s, w)"
    and rx_append: "rx post s (xs @ ys) w = bindE (rx post s xs w) (\<lambda>(s, w). rx post s ys w)"
    and rx_enc: "ready s \<Longrightarrow> legal p \<Longrightarrow>
      \<exists>s'. ready s' \<and> rx post s (enc p) w = bindE (post p w) (\<lambda>w. Inr (s', w))"
begin

lemma rx_stream:
  "ready s \<Longrightarrow> (\<forall>p \<in> set ps. legal p) \<Longrightarrow>
   \<exists>s'. ready s' \<and> rx collect_packets s (concat (map enc ps)) w = Inr (s', w @ ps)"
proof (induction ps arbitrary: s w)
  case Nil
  then show ?case by (auto simp: rx_nil)
next
  case (Cons p ps)
  obtain s1 where s1: "ready s1" "rx collect_packets s (enc p) w = Inr (s1, w @ [p])"
    using rx_enc [of s p collect_packets w] Cons.prems by (auto simp: collect_packets_def)
  with Cons.IH [of s1 "w @ [p]"] Cons.prems show ?case
    by (auto simp: rx_append)
qed

lemma rx_pieces_concat: "rx_pieces (rx post) s xss w = rx post s (concat xss) w"
proof (induction xss arbitrary: s w)
  case Nil
  then show ?case by (simp add: rx_nil)
next
  case (Cons xs xss)
  then show ?case
    by (cases "rx post s xs w") (auto simp: rx_append)
qed

lemma rx_pieces_stream:
  "ready s \<Longrightarrow> (\<forall>p \<in> set ps. legal p) \<Longrightarrow> concat xss = concat (map enc ps) \<Longrightarrow>
   \<exists>s'. ready s' \<and> rx_pieces (rx collect_packets) s xss w = Inr (s', w @ ps)"
  using rx_stream [of s ps w] by (simp add: rx_pieces_concat)

end

interpretation qemud_framing: framing frame serial_rx serial_idle sendable
proof
  show "serial_rx post s [] w = Inr (s, w)"
    for post :: "packet \<Rightarrow> packet list \<Rightarrow> fault + packet list" and s w
    by simp
  show "serial_rx post s (xs @ ys) w = bindE (serial_rx post s xs w) (\<lambda>(s, w). serial_rx post s ys w)"
    for post :: "packet \<Rightarrow> packet list \<Rightarrow> fault + packet list" and s xs ys w
    by (rule serial_rx_append)
  show "\<exists>s'. serial_idle s' \<and> serial_rx post s (frame p) w = bindE (post p w) (\<lambda>w. Inr (s', w))"
    if "serial_idle s" "sendable p"
    for post :: "packet \<Rightarrow> packet list \<Rightarrow> fault + packet list" and s p w
    using that serial_rx_frame [of s p post "[]" w]
    by (intro exI [of _ "s\<lparr>sr_in_channel := pk_channel p\<rparr>"]) (auto simp: serial_idle_def)
qed

text \<open>C6: However the byte stream of a list of frames is cut into reads, the serial
  reader delivers exactly those packets, in order, and ends ready for the next frame.\<close>

theorem serial_stream_roundtrip:
  assumes "serial_idle s" "\<forall>p \<in> set ps. sendable p" "concat xss = concat (map frame ps)"
  shows "\<exists>s'. serial_idle s' \<and> rx_pieces (serial_rx collect_packets) s xss [] = Inr (s', ps)"
  using qemud_framing.rx_pieces_stream [OF assms, of "[]"] by simp

theorem serial_stream_roundtrip_witness:
  "let s = \<lparr>sr_in = [], sr_in_datalen = 0, sr_in_channel = 0\<rparr>;
       p = \<lparr>pk_data = ''ok'', pk_channel = 18\<rparr>
   in \<exists>s'. serial_idle s' \<and>
        rx_pieces (serial_rx collect_packets) s [''120'', ''00'', ''2ok''] [] = Inr (s', [p])"
  unfolding Let_def
  by (rule serial_stream_roundtrip)
    (simp_all add: serial_idle_def sendable_def pk_len_def MAX_PAYLOAD_def frame_def
      serial_header_def serial_consts hexchars_def and_15_mod numeral_eq_Suc)

text \<open>A header that announces more than the 4000 bytes of a packet makes the reader
  copy past the end of \<open>in_packet->data\<close> once the bytes are there: the code never
  compares \<open>in_datalen\<close> with \<open>MAX_PAYLOAD\<close>.\<close>

theorem serial_overlong_overflows:
  assumes "serial_idle s" "0 \<le> ch" "ch < 256"
    and "MAX_PAYLOAD < len" "len < 65536" "MAX_PAYLOAD < length xs" "length xs \<le> len"
  shows "serial_rx post s (int2hex ch CHANNEL_SIZE @ int2hex (int len) LENGTH_SIZE @ xs) w =
    Inl BufferOverflow"
proof -
  let ?p = "\<lparr>pk_data = replicate len NUL, pk_channel = ch\<rparr>"
  let ?s = "s\<lparr>sr_in := [], sr_in_datalen := int len, sr_in_channel := ch\<rparr>"
  have hdr: "int2hex ch CHANNEL_SIZE @ int2hex (int len) LENGTH_SIZE @ xs = serial_header ?p @ xs"
    by (simp add: serial_header_def pk_len_def)
  have "serial_rx post s (serial_header ?p @ xs) w = serial_rx post ?s xs w"
    using assms serial_rx_header [of s ?p post xs w] by (simp add: pk_len_def)
  also have "\<dots> = Inl BufferOverflow"
    using assms serial_rx_chunk [of xs post ?s w]
    by (cases xs) (auto simp: rx_chunk_def rx_wanted_def MAX_PAYLOAD_def)
  finally show ?thesis
    by (simp only: hdr)
qed

theorem serial_overlong_overflows_witness:
  "serial_rx collect_packets \<lparr>sr_in = [], sr_in_datalen = 0, sr_in_channel = 0\<rparr>
     (int2hex 1 CHANNEL_SIZE @ int2hex (int 4001) LENGTH_SIZE @ replicate 4001 CHR ''x'') [] =
   Inl BufferOverflow"
  by (rule serial_overlong_overflows) (simp_all add: serial_idle_def MAX_PAYLOAD_def)

end
