(* ===== verification/C_Format.thy ===== *)
theory C_Format
  imports Prelude
begin

text \<open>
  The part of the C library's formatted output that the sources use: unsigned
  and signed decimal, hexadecimal with a minimum width, padding, and the
  truncation and result of \<open>snprintf\<close>.
\<close>

section \<open>Digits\<close>

definition digit_char :: "nat \<Rightarrow> char" where
  "digit_char d = ''0123456789abcdef'' ! (d mod 16)"

fun digits_base :: "nat \<Rightarrow> nat \<Rightarrow> char list" where
  "digits_base b n =
     (if b < 2 \<or> n < b then [digit_char n]
      else digits_base b (n div b) @ [digit_char (n mod b)])"

declare digits_base.simps [simp del]

lemma digits_base_nonempty [simp]: "digits_base b n \<noteq> []"
  by (subst digits_base.simps) simp

lemma digits_base_small: "n < b \<Longrightarrow> digits_base b n = [digit_char n]"
  by (subst digits_base.simps) simp

lemma length_digits_base_pos: "0 < length (digits_base b n)"
  by simp

lemma length_digits_base_le:
  "2 \<le> b \<Longrightarrow> 0 < k \<Longrightarrow> n < b ^ k \<Longrightarrow> length (digits_base b n) \<le> k"
proof (induction k arbitrary: n)
  case 0
  then show ?case by simp
next
  case (Suc k)
  show ?case
  proof (cases "n < b")
    case True
    then show ?thesis by (simp add: digits_base_small)
  next
    case False
    with Suc.prems have "0 < k"
      by (cases k) auto
    moreover have "n div b < b ^ k"
      using Suc.prems by (simp add: less_mult_imp_div_less mult.commute)
    ultimately have "length (digits_base b (n div b)) \<le> k"
      using Suc.IH Suc.prems by blast
    then show ?thesis
      using False Suc.prems by (subst digits_base.simps) simp
  qed
qed

section \<open>Conversions\<close>

text \<open>\<open>%u\<close>, \<open>%d\<close> and \<open>%x\<close> without a width.\<close>

definition fmt_u :: "nat \<Rightarrow> char list" where
  "fmt_u n = digits_base 10 n"

definition fmt_d :: "int \<Rightarrow> char list" where
  "fmt_d i = (if i < 0 then CHR ''-'' # fmt_u (nat (- i)) else fmt_u (nat i))"

definition fmt_x :: "nat \<Rightarrow> char list" where
  "fmt_x n = digits_base 16 n"

text \<open>A width: blanks or zeros on the left, blanks on the right with \<open>-\<close>.\<close>

definition pad_left :: "char \<Rightarrow> nat \<Rightarrow> char list \<Rightarrow> char list" where
  "pad_left c w s = replicate (w - length s) c @ s"

definition pad_right :: "nat \<Rightarrow> char list \<Rightarrow> char list" where
  "pad_right w s = s @ replicate (w - length s) SPC"

lemma length_pad_left [simp]: "length (pad_left c w s) = max w (length s)"
  by (auto simp: pad_left_def)

lemma length_pad_right [simp]: "length (pad_right w s) = max w (length s)"
  by (auto simp: pad_right_def)

text \<open>
  \<open>snprintf(buf, n, ...)\<close>: the bytes stored before the NUL, at most
  \<open>n - 1\<close>, and the result, the length of the whole output.
\<close>

definition snprintf :: "nat \<Rightarrow> char list \<Rightarrow> char list \<times> nat" where
  "snprintf n out = (take (n - 1) out, length out)"

lemma snprintf_fits: "length out < n \<Longrightarrow> snprintf n out = (out, length out)"
  by (simp add: snprintf_def)

lemma fmt_u_nonempty [simp]: "fmt_u n \<noteq> []"
  by (simp add: fmt_u_def)

lemma length_fmt_u: "0 < k \<Longrightarrow> n < 10 ^ k \<Longrightarrow> length (fmt_u n) \<le> k"
  by (simp add: fmt_u_def length_digits_base_le)

lemma length_fmt_x: "0 < k \<Longrightarrow> n < 16 ^ k \<Longrightarrow> length (fmt_x n) \<le> k"
  by (simp add: fmt_x_def length_digits_base_le)

text \<open>A 32-bit \<open>int\<close> prints in at most 11 bytes, a 64-bit one in at most 20.\<close>

lemma length_fmt_d32:
  assumes "- (2 ^ 31) \<le> i" "i < 2 ^ 31"
  shows "length (fmt_d i) \<le> 11"
proof -
  have "nat \<bar>i\<bar> < 10 ^ 10" using assms by simp
  then have "length (fmt_u (nat \<bar>i\<bar>)) \<le> 10" by (intro length_fmt_u) auto
  then show ?thesis by (auto simp: fmt_d_def)
qed

lemma length_fmt_d64:
  assumes "- (2 ^ 63) \<le> i" "i < 2 ^ 63"
  shows "length (fmt_d i) \<le> 20"
proof -
  have "nat \<bar>i\<bar> < 10 ^ 19" using assms by simp
  then have "length (fmt_u (nat \<bar>i\<bar>)) \<le> 19" by (intro length_fmt_u) auto
  then show ?thesis by (auto simp: fmt_d_def)
qed

section \<open>Reading decimal digits back\<close>

definition decimal_char :: "char \<Rightarrow> bool" where
  "decimal_char c \<longleftrightarrow> 48 \<le> byte_val c \<and> byte_val c \<le> 57"

lemma digit_char_decimal:
  assumes "d < 10"
  shows "byte_val (digit_char d) = 48 + int d" "decimal_char (digit_char d)"
proof -
  have "d \<in> {0, 1, 2, 3, 4, 5, 6, 7, 8, 9}"
    using assms by auto
  then show "byte_val (digit_char d) = 48 + int d" "decimal_char (digit_char d)"
    by (auto simp: digit_char_def decimal_char_def)
qed

lemma fmt_u_small: "n < 10 \<Longrightarrow> fmt_u n = [digit_char n]"
  by (simp add: fmt_u_def digits_base_small)

lemma fmt_u_step: "10 \<le> n \<Longrightarrow> fmt_u n = fmt_u (n div 10) @ [digit_char (n mod 10)]"
  unfolding fmt_u_def by (subst digits_base.simps) simp

lemma fmt_u_induct [case_names small step]:
  assumes "\<And>n. n < 10 \<Longrightarrow> P n" "\<And>n. 10 \<le> n \<Longrightarrow> P (n div 10) \<Longrightarrow> P n"
  shows "P (n :: nat)"
proof (induction n rule: less_induct)
  case (less n)
  show ?case
  proof (cases "n < 10")
    case True
    then show ?thesis by (rule assms(1))
  next
    case False
    then have "P (n div 10)"
      by (intro less) simp
    with False show ?thesis by (simp add: assms(2))
  qed
qed

lemma fmt_u_decimal: "list_all decimal_char (fmt_u n)"
proof (induction n rule: fmt_u_induct)
  case (small n)
  then show ?case by (simp add: fmt_u_small digit_char_decimal)
next
  case (step n)
  then show ?case by (simp add: fmt_u_step [of n] digit_char_decimal)
qed

lemma fmt_u_value: "foldl (\<lambda>r c. r * 10 + (byte_val c - 48)) 0 (fmt_u n) = int n"
proof (induction n rule: fmt_u_induct)
  case (small n)
  then show ?case by (simp add: fmt_u_small digit_char_decimal)
next
  case (step n)
  then have "foldl (\<lambda>r c. r * 10 + (byte_val c - 48)) 0 (fmt_u n) = int (n div 10) * 10 + int (n mod 10)"
    by (simp add: fmt_u_step [of n] digit_char_decimal)
  also have "\<dots> = int (n div 10 * 10 + n mod 10)"
    unfolding of_nat_add of_nat_mult by simp
  finally show ?case by (simp only: div_mult_mod_eq)
qed

lemma fmt_u_head: "0 < n \<Longrightarrow> hd (fmt_u n) \<noteq> CHR ''0''"
proof (induction n rule: fmt_u_induct)
  case (small n)
  then have "n \<in> {1, 2, 3, 4, 5, 6, 7, 8, 9}" by auto
  then show ?case by (auto simp: fmt_u_small digit_char_def)
next
  case (step n)
  then show ?case by (simp add: fmt_u_step [of n])
qed

section \<open>Reading numbers\<close>

text \<open>\<open>strtoll\<close> in base 10: white space, a sign and digits; without digits the value is 0 and the end is
  the start; out of range it is the nearest bound, with \<open>ERANGE\<close>.\<close>

definition strtoll10 :: "bytes \<Rightarrow> int \<times> bytes \<times> bool" where
  "strtoll10 s =
     (let t = dropWhile isspace s;
          neg = (t \<noteq> [] \<and> hd t = CHR ''-'');
          u = (if t \<noteq> [] \<and> (hd t = CHR ''-'' \<or> hd t = CHR ''+'') then tl t else t);
          ds = takeWhile decimal_char u;
          m = foldl (\<lambda>n c. n * 10 + (byte_val c - 48)) 0 ds;
          v = (if neg then - m else m)
      in if ds = [] then (0, s, False)
         else if v > 2 ^ 63 - 1 then (2 ^ 63 - 1, dropWhile decimal_char u, True)
         else if v < - (2 ^ 63) then (- (2 ^ 63), dropWhile decimal_char u, True)
         else (v, dropWhile decimal_char u, False))"

definition atoi :: "bytes \<Rightarrow> int" where
  "atoi s = signed_take_bit 31 (fst (strtoll10 s))"

end
