(* ===== verification/Qemud_Mux.thy ===== *)
theory Qemud_Mux
  imports Qemud_Serial C_Format
begin

text \<open>
  Clients and the global multiplexer of \<open>qemud.c\<close> (\<open>client_*\<close>, \<open>multiplexer_*\<close>):
  registration of a service over the control channel, pass-through of packets,
  disconnection from either side, and the two dispatch tables that stand for the
  function pointers of the receivers.
\<close>

section \<open>Sending through the serial port\<close>

definition multiplexer_serial_send :: "int \<Rightarrow> packet \<Rightarrow> qemud \<Rightarrow> fault + qemud" where
  "multiplexer_serial_send channel p q = serial_send (p\<lparr>pk_channel := channel\<rparr>) q"

text \<open>\<open>"%.*s"\<close> prints the bytes before a NUL, \<open>"%02x"\<close> at least two digits.\<close>

definition connect_message :: "bytes \<Rightarrow> nat \<Rightarrow> bytes" where
  "connect_message service channel =
     ''connect:'' @ takeWhile (\<lambda>c. c \<noteq> NUL) service @ '':'' @ pad_left CHR ''0'' 2 (fmt_x channel)"

definition disconnect_message :: "nat \<Rightarrow> bytes" where
  "disconnect_message channel = ''disconnect:'' @ pad_left CHR ''0'' 2 (fmt_x channel)"

text \<open>The channels of the clients on the list, in list order.\<close>

fun client_channels :: "(nat \<rightharpoonup> client) \<Rightarrow> nat list \<Rightarrow> fault + int list" where
  "client_channels h [] = Inr []"
| "client_channels h (c # cs) =
     bindE (deref h c) (\<lambda>cl. bindE (client_channels h cs) (\<lambda>chs. Inr (cl_channel cl # chs)))"

text \<open>
  The loop \<open>TRY_AGAIN\<close>: \<open>last_channel\<close> is incremented until its low byte is no
  client's channel. 256 increments meet every value of the low byte, so when none
  of them is free the loop never ends.
\<close>

fun try_channels :: "nat \<Rightarrow> int list \<Rightarrow> 32 word \<Rightarrow> fault + int \<times> 32 word" where
  "try_channels 0 used lc = Inl Hang"
| "try_channels (Suc n) used lc =
     (let lc = lc + 1;
          channel = uint (lc AND 0xff)
      in if channel \<in> set used then try_channels n used lc else Inr (channel, lc))"

definition multiplexer_open_channel :: "packet \<Rightarrow> qemud \<Rightarrow> fault + int \<times> qemud" where
  "multiplexer_open_channel service q =
     (let (p, q) = packet_alloc q in
      bindE (client_channels (q_clients q) (q_client_list q)) (\<lambda>used.
      bindE (try_channels 256 used (q_last_channel q)) (\<lambda>(channel, lc).
      let q = q\<lparr>q_last_channel := lc\<rparr>;
          (out, len) = snprintf MAX_PAYLOAD (connect_message (pk_data service) (nat channel))
      in if len \<ge> MAX_PAYLOAD then Inr (- 1, packet_free q)
         else bindE (serial_send (p\<lparr>pk_data := out, pk_channel := CHANNEL_CONTROL\<rparr>) q) (\<lambda>q.
                Inr (channel, q)))))"

definition multiplexer_close_channel :: "int \<Rightarrow> qemud \<Rightarrow> fault + qemud" where
  "multiplexer_close_channel channel q =
     (let (p, q) = packet_alloc q;
          (out, len) = snprintf MAX_PAYLOAD (disconnect_message (nat channel))
      in if len > MAX_PAYLOAD then Inr q
         else serial_send (p\<lparr>pk_data := out, pk_channel := CHANNEL_CONTROL\<rparr>) q)"

section \<open>Clients\<close>

definition get_client :: "nat \<Rightarrow> qemud \<Rightarrow> fault + client" where
  "get_client c q = deref (q_clients q) c"

definition put_client :: "nat \<Rightarrow> client \<Rightarrow> qemud \<Rightarrow> qemud" where
  "put_client c cl q = q\<lparr>q_clients := (q_clients q)(c \<mapsto> cl)\<rparr>"

definition client_free :: "nat \<Rightarrow> qemud \<Rightarrow> fault + qemud" where
  "client_free c q =
     bindE (get_client c q) (\<lambda>cl.
     let q = q\<lparr>q_client_list := filter (\<lambda>d. d \<noteq> c) (q_client_list q)\<rparr> in
     bindE (case cl_fdhandler cl of None \<Rightarrow> Inr q | Some f \<Rightarrow> fdhandler_shutdown f q) (\<lambda>q.
       Inr (q\<lparr>q_clients := (q_clients q)(c := None)\<rparr>)))"

definition client_fd_receive :: "nat \<Rightarrow> packet \<Rightarrow> qemud \<Rightarrow> fault + qemud" where
  "client_fd_receive c p q =
     bindE (get_client c q) (\<lambda>cl.
     if cl_registered cl then multiplexer_serial_send (cl_channel cl) p q
     else if cl_channel cl > 0 then client_free c (packet_free q)
     else
       bindE (multiplexer_open_channel p q) (\<lambda>(channel, q).
       bindE (get_client c q) (\<lambda>cl.
       let q = put_client c (cl\<lparr>cl_channel := channel\<rparr>) q
       in if channel < 0 then client_free c (packet_free q)
          else Inr (packet_free q))))"

definition client_fd_close :: "nat \<Rightarrow> qemud \<Rightarrow> fault + qemud" where
  "client_fd_close c q =
     bindE (get_client c q) (\<lambda>cl.
     let q = put_client c (cl\<lparr>cl_fdhandler := None\<rparr>) q in
     bindE (if cl_channel cl > 0 then multiplexer_close_channel (cl_channel cl) q else Inr q) (\<lambda>q.
       client_free c q))"

text \<open>A write through the null pointer \<open>c->fdhandler\<close> has no defined result either.\<close>

definition client_enqueue :: "nat \<Rightarrow> packet \<Rightarrow> qemud \<Rightarrow> fault + qemud" where
  "client_enqueue c p q =
     bindE (get_client c q) (\<lambda>cl.
     case cl_fdhandler cl of None \<Rightarrow> Inl UseAfterFree | Some f \<Rightarrow> fdhandler_enqueue f p q)"

definition client_registration :: "nat \<Rightarrow> bool \<Rightarrow> qemud \<Rightarrow> fault + qemud" where
  "client_registration c registered q =
     (let (p, q) = packet_alloc q;
          p = p\<lparr>pk_data := (if \<not> registered then ''KO'' else ''OK'')\<rparr>
      in bindE (client_enqueue c p q) (\<lambda>q.
         bindE (get_client c q) (\<lambda>cl.
         let cl = cl\<lparr>cl_registered := registered\<rparr>;
             cl = (if \<not> registered then cl\<lparr>cl_channel := - 1\<rparr> else cl)
         in Inr (put_client c cl q))))"

definition client_send :: "nat \<Rightarrow> packet \<Rightarrow> qemud \<Rightarrow> fault + qemud" where
  "client_send c p q = client_enqueue c p q"

definition client_new :: "int \<Rightarrow> qemud \<Rightarrow> qemud" where
  "client_new fd q =
     (let c = q_next_client q;
          q = q\<lparr>q_next_client := c + 1\<rparr>;
          (f, q) = fdhandler_new fd \<lparr>rc_post = Post_client c, rc_close = Close_client c\<rparr> q;
          cl = \<lparr>cl_channel = - 1, cl_registered = False, cl_fdhandler = Some f\<rparr>
      in put_client c cl (q\<lparr>q_client_list := c # q_client_list q\<rparr>))"

section \<open>The multiplexer\<close>

fun find_client :: "(nat \<rightharpoonup> client) \<Rightarrow> nat list \<Rightarrow> int \<Rightarrow> fault + nat option" where
  "find_client h [] channel = Inr None"
| "find_client h (c # cs) channel =
     bindE (deref h c) (\<lambda>cl.
     if cl_channel cl = channel then Inr (Some c) else find_client h cs channel)"

definition multiplexer_find_client :: "int \<Rightarrow> qemud \<Rightarrow> fault + nat option" where
  "multiplexer_find_client channel q = find_client (q_clients q) (q_client_list q) channel"

definition has_prefix :: "bytes \<Rightarrow> bytes \<Rightarrow> bool" where
  "has_prefix s data \<longleftrightarrow> take (length s) data = s"

definition multiplexer_handle_control :: "packet \<Rightarrow> qemud \<Rightarrow> fault + qemud" where
  "multiplexer_handle_control p q =
     (let data = pk_data p;
          channel = hex2int (take 2 (drop 11 data));
          on_client = (\<lambda>action.
            bindE (multiplexer_find_client channel q) (\<lambda>client.
            bindE (case client of None \<Rightarrow> Inr q | Some c \<Rightarrow> action c q) (\<lambda>q.
              Inr (packet_free q))))
      in if pk_len p = 13 \<and> has_prefix ''ok:connect:'' data
         then on_client (\<lambda>c. client_registration c True)
         else if pk_len p = 13 \<and> has_prefix ''ko:connect:'' data
         then on_client (\<lambda>c. client_registration c False)
         else if pk_len p = 13 \<and> has_prefix ''disconnect:'' data
         then on_client client_free
         else Inr (packet_free q))"

definition multiplexer_serial_receive :: "packet \<Rightarrow> qemud \<Rightarrow> fault + qemud" where
  "multiplexer_serial_receive p q =
     (if pk_channel p = CHANNEL_CONTROL then multiplexer_handle_control p q
      else bindE (multiplexer_find_client (pk_channel p) q) (\<lambda>client.
           case client of
             Some c \<Rightarrow> client_send c p q
           | None \<Rightarrow> Inr (packet_free q)))"

definition multiplexer_control_accept :: "packet \<Rightarrow> qemud \<Rightarrow> fault + qemud" where
  "multiplexer_control_accept p q = Inr (packet_free (client_new (pk_channel p) q))"

section \<open>Function pointers\<close>

text \<open>\<open>serial_fd_close\<close> and \<open>multiplexer_control_close\<close> call \<open>fatal\<close>.\<close>

fun run_post :: "post_fn \<Rightarrow> packet \<Rightarrow> qemud \<Rightarrow> fault + qemud" where
  "run_post Post_none p q = Inr (packet_free q)"
| "run_post Post_serial p q = serial_fd_receive multiplexer_serial_receive p q"
| "run_post (Post_client c) p q = client_fd_receive c p q"
| "run_post Post_control p q = multiplexer_control_accept p q"

fun run_close :: "close_fn \<Rightarrow> qemud \<Rightarrow> fault + qemud" where
  "run_close Close_none q = Inr q"
| "run_close Close_serial q = Inl Panic"
| "run_close (Close_client c) q = client_fd_close c q"
| "run_close Close_control q = Inl Panic"

section \<open>Start\<close>

definition empty_qemud :: qemud where
  "empty_qemud = \<lparr>q_looper = looper_init, q_pool_total = 0, q_pool_free = 0,
     q_handlers = Map.empty, q_next_handler = 0, q_active = [], q_closing = [],
     q_clients = Map.empty, q_next_client = 0, q_client_list = [], q_last_channel = 0,
     q_serial = \<lparr>sr_in = [], sr_in_datalen = 0, sr_in_channel = 0\<rparr>, q_serial_handler = 0,
     q_effects = []\<rparr>"

text \<open>The descriptors of the serial port and of the control socket are the system's.\<close>

definition multiplexer_init :: "int \<Rightarrow> int \<Rightarrow> qemud" where
  "multiplexer_init serial_fd control_fd =
     (let q = fdhandler_list_init empty_qemud;
          q = serial_init serial_fd q;
          (f, q) = fdhandler_new_accept control_fd
                     \<lparr>rc_post = Post_control, rc_close = Close_control\<rparr> q
      in q\<lparr>q_client_list := []\<rparr>)"

section \<open>The main loop\<close>

text \<open>One callback of \<open>looper_loop\<close>: \<open>hook->ev_func(hook->ev_user, hook->events)\<close>.\<close>

definition run_hook :: "loop_hook \<Rightarrow> io \<Rightarrow> qemud \<Rightarrow> fault + qemud" where
  "run_hook h io q =
     (case hook_func h of
        Ev_fdhandler_event \<Rightarrow> fdhandler_event run_post run_close (hook_user h) (hook_events h) io q
      | Ev_fdhandler_accept_event \<Rightarrow>
          fdhandler_accept_event run_post run_close (hook_user h) (hook_events h) io q)"

definition map_hooks :: "(loop_hook list \<Rightarrow> loop_hook list) \<Rightarrow> qemud \<Rightarrow> qemud" where
  "map_hooks g q = q\<lparr>q_looper := (q_looper q)\<lparr>lp_hooks := g (lp_hooks (q_looper q))\<rparr>\<rparr>"

text \<open>
  The second \<open>for\<close> of a round. A hook that a callback adds has no pending event,
  so the loop up to the changing \<open>num_fds\<close> runs the callbacks of the hooks that
  were there: \<open>fuel\<close> counts the hooks still to visit, and \<open>Hang\<close> says it was too small.
\<close>

fun run_pending :: "nat \<Rightarrow> nat \<Rightarrow> (nat \<Rightarrow> io) \<Rightarrow> qemud \<Rightarrow> fault + qemud" where
  "run_pending fuel n ios q =
     (if n < num_fds (q_looper q)
      then case fuel of
             0 \<Rightarrow> Inl Hang
           | Suc fuel \<Rightarrow>
               let h = lp_hooks (q_looper q) ! n
               in if hook_state h AND HOOK_PENDING \<noteq> 0
                  then let h' = h\<lparr>hook_state := hook_state h AND NOT HOOK_PENDING\<rparr>
                       in bindE (run_hook h' (ios n) (map_hooks (\<lambda>hs. hs[n := h']) q)) (\<lambda>q.
                            run_pending fuel (n + 1) ios q)
                  else run_pending fuel (n + 1) ios q
      else Inr q)"

definition looper_round :: "nat \<Rightarrow> (nat \<times> mask) list \<Rightarrow> (nat \<Rightarrow> io) \<Rightarrow> qemud \<Rightarrow> fault + qemud" where
  "looper_round fuel evs ios q =
     bindE (run_pending fuel 0 ios (map_hooks (mark_pending evs) q)) (\<lambda>q.
       Inr (q\<lparr>q_looper := looper_reap (q_looper q)\<rparr>))"

end
