(* ===== verification/Qemud_Inv.thy ===== *)
theory Qemud_Inv
  imports Qemud_Mux
begin

text \<open>
  The invariant of the daemon of \<open>qemud.c\<close> and its preservation by every callback:
  the hooks, the handlers, the two handler lists, the clients, their channels and
  the packet pool agree with each other, so no callback that meets the stated
  conditions touches a freed object.
\<close>

section \<open>Hoare triples for the error monad\<close>

text \<open>
  \<open>safe m P\<close>: the operation ends in a state with \<open>P\<close>, or stops in one of the ways
  that are not an access to freed memory or a bad size.
\<close>

definition safe :: "fault + 'a \<Rightarrow> ('a \<Rightarrow> bool) \<Rightarrow> bool" where
  "safe m P \<longleftrightarrow>
     (case m of Inr x \<Rightarrow> P x | Inl e \<Rightarrow> e = BufferOverflow \<or> e = Panic \<or> e = Hang)"

lemma safe_simps [simp]:
  "safe (Inr x) P \<longleftrightarrow> P x"
  "safe (Inl e) P \<longleftrightarrow> e = BufferOverflow \<or> e = Panic \<or> e = Hang"
  by (simp_all add: safe_def)

lemma safe_bind: "safe m Q \<Longrightarrow> (\<And>x. Q x \<Longrightarrow> safe (k x) P) \<Longrightarrow> safe (bindE m k) P"
  by (cases m) auto

lemma safe_mono: "safe m Q \<Longrightarrow> (\<And>x. Q x \<Longrightarrow> P x) \<Longrightarrow> safe m P"
  by (cases m) auto

lemma safe_InrD: "safe m P \<Longrightarrow> m = Inr x \<Longrightarrow> P x"
  by simp

lemma safe_no_UAF: "safe m P \<Longrightarrow> m \<noteq> Inl UseAfterFree \<and> m \<noteq> Inl BadSize"
  by (cases m) auto

section \<open>The invariant\<close>

text \<open>
  What the invariant says of a hook and of a handler; everything else about them
  (queues, masks, pending bits) is free.
\<close>

definition hook_key :: "loop_hook \<Rightarrow> int \<times> nat \<times> ev_func \<times> bool" where
  "hook_key k = (hook_fd k, hook_user k, hook_func k, hook_closing k)"

definition handler_key :: "fdhandler \<Rightarrow> int \<times> bool \<times> receiver" where
  "handler_key h = (fh_fd h, fh_is_closing h, fh_receiver h)"

definition hook_keys :: "qemud \<Rightarrow> (int \<times> nat \<times> ev_func \<times> bool) list" where
  "hook_keys q = map hook_key (lp_hooks (q_looper q))"

definition hkey :: "qemud \<Rightarrow> nat \<rightharpoonup> int \<times> bool \<times> receiver" where
  "hkey q f = map_option handler_key (q_handlers q f)"

abbreviation serial_recv :: receiver where
  "serial_recv \<equiv> \<lparr>rc_post = Post_serial, rc_close = Close_serial\<rparr>"
abbreviation control_recv :: receiver where
  "control_recv \<equiv> \<lparr>rc_post = Post_control, rc_close = Close_control\<rparr>"
abbreviation client_recv :: "nat \<Rightarrow> receiver" where
  "client_recv c \<equiv> \<lparr>rc_post = Post_client c, rc_close = Close_client c\<rparr>"
abbreviation orphan_recv :: "nat \<Rightarrow> receiver" where
  "orphan_recv c \<equiv> \<lparr>rc_post = Post_client c, rc_close = Close_none\<rparr>"

definition hooks_ok :: "qemud \<Rightarrow> bool" where
  "hooks_ok q \<longleftrightarrow>
     looper_ok (q_looper q) \<and>
     (\<forall>f fd cl r. hkey q f = Some (fd, cl, r) \<longrightarrow>
        f < q_next_handler q \<and> 0 \<le> fd \<and> (\<exists>func. (fd, f, func, False) \<in> set (hook_keys q))) \<and>
     (\<forall>fd f func. (fd, f, func, False) \<in> set (hook_keys q) \<longrightarrow>
        (\<exists>cl r. hkey q f = Some (fd, cl, r) \<and> (func = Ev_fdhandler_accept_event \<longleftrightarrow> r = control_recv)))"

definition lists_ok :: "qemud \<Rightarrow> bool" where
  "lists_ok q \<longleftrightarrow>
     distinct (q_active q @ q_closing q) \<and>
     (\<forall>f. f \<in> set (q_active q) \<longleftrightarrow> (\<exists>fd r. hkey q f = Some (fd, False, r))) \<and>
     (\<forall>f. f \<in> set (q_closing q) \<longleftrightarrow> (\<exists>fd r. hkey q f = Some (fd, True, r)))"

text \<open>
  Clients in \<open>Y\<close> are being destroyed; handlers in \<open>X\<close> are being closed. Outside
  these, client and handler point at each other.
\<close>

definition clients_ok :: "nat set \<Rightarrow> qemud \<Rightarrow> bool" where
  "clients_ok Y q \<longleftrightarrow>
     distinct (q_client_list q) \<and>
     set (q_client_list q) \<subseteq> dom (q_clients q) \<and> dom (q_clients q) \<subseteq> set (q_client_list q) \<union> Y \<and>
     (\<forall>c cl. q_clients q c = Some cl \<longrightarrow> c < q_next_client q \<and> cl_channel cl < 256 \<and>
        (c \<notin> Y \<longrightarrow> (\<exists>f fd. cl_fdhandler cl = Some f \<and> hkey q f = Some (fd, False, client_recv c)))) \<and>
     (\<forall>c d cl dl. q_clients q c = Some cl \<longrightarrow> q_clients q d = Some dl \<longrightarrow>
        0 \<le> cl_channel cl \<longrightarrow> cl_channel cl = cl_channel dl \<longrightarrow> c = d)"

definition receivers_ok :: "nat set \<Rightarrow> qemud \<Rightarrow> bool" where
  "receivers_ok X q \<longleftrightarrow>
     (\<forall>f fd cl r. hkey q f = Some (fd, cl, r) \<longrightarrow> f \<notin> X \<longrightarrow>
        (if cl then \<exists>c. r = orphan_recv c
         else r = serial_recv \<or> r = control_recv \<or>
              (\<exists>c k. r = client_recv c \<and> q_clients q c = Some k \<and> cl_fdhandler k = Some f)))"

text \<open>The handler of the serial port is the first one that is allocated.\<close>

definition serial_handler_ok :: "qemud \<Rightarrow> bool" where
  "serial_handler_ok q \<longleftrightarrow> serial_ok (q_serial q) \<and> q_serial_handler q = 0 \<and>
     (\<exists>fd. hkey q (q_serial_handler q) = Some (fd, False, serial_recv)) \<and>
     (\<forall>f fd cl. hkey q f = Some (fd, cl, serial_recv) \<longrightarrow> f = q_serial_handler q)"

definition wf_qemud :: "nat set \<Rightarrow> nat set \<Rightarrow> qemud \<Rightarrow> bool" where
  "wf_qemud X Y q \<longleftrightarrow>
     hooks_ok q \<and> lists_ok q \<and> clients_ok Y q \<and> receivers_ok X q \<and> serial_handler_ok q"

text \<open>
  Packet accounting: what is out of the pool is queued on a handler, is the
  reader's \<open>in_packet\<close>, or is one of the \<open>n\<close> others (held by the running callback,
  or lost).
\<close>

definition out_len :: "(nat \<rightharpoonup> fdhandler) \<Rightarrow> nat \<Rightarrow> int" where
  "out_len hs f = (case hs f of None \<Rightarrow> 0 | Some h \<Rightarrow> int (length (fh_out h)))"

definition queued :: "qemud \<Rightarrow> int" where
  "queued q = sum_list (map (out_len (q_handlers q)) (q_active q @ q_closing q))"

definition extra :: "qemud \<Rightarrow> int" where
  "extra q = pool_used q - queued q - 1"

section \<open>Steps that keep the shape\<close>

text \<open>
  Queues, pool, effects, event masks and the reader may change; every object, list
  and link stays.
\<close>

definition same_shape :: "qemud \<Rightarrow> qemud \<Rightarrow> bool" where
  "same_shape q q' \<longleftrightarrow>
     (looper_ok (q_looper q) \<longrightarrow> looper_ok (q_looper q')) \<and>
     hook_keys q' = hook_keys q \<and> hkey q' = hkey q \<and>
     q_next_handler q' = q_next_handler q \<and> q_active q' = q_active q \<and> q_closing q' = q_closing q \<and>
     q_clients q' = q_clients q \<and> q_next_client q' = q_next_client q \<and>
     q_client_list q' = q_client_list q \<and> q_serial_handler q' = q_serial_handler q \<and>
     (serial_ok (q_serial q) \<longrightarrow> serial_ok (q_serial q'))"

lemma same_shape_refl [simp, intro]: "same_shape q q"
  by (simp add: same_shape_def)

lemma same_shape_trans [trans]: "same_shape q q' \<Longrightarrow> same_shape q' q'' \<Longrightarrow> same_shape q q''"
  by (simp add: same_shape_def)

lemmas wf_defs = wf_qemud_def hooks_ok_def lists_ok_def clients_ok_def receivers_ok_def
  serial_handler_ok_def

lemma same_shape_wf:
  assumes s: "same_shape q q'" and w: "wf_qemud X Y q"
  shows "wf_qemud X Y q'"
proof -
  have eqs: "hook_keys q' = hook_keys q" "hkey q' = hkey q" "q_next_handler q' = q_next_handler q"
    "q_active q' = q_active q" "q_closing q' = q_closing q" "q_clients q' = q_clients q"
    "q_next_client q' = q_next_client q" "q_client_list q' = q_client_list q"
    "q_serial_handler q' = q_serial_handler q"
    using s by (simp_all add: same_shape_def)
  have "looper_ok (q_looper q')" "serial_ok (q_serial q')"
    using s w unfolding same_shape_def wf_defs by blast+
  with w show ?thesis
    unfolding wf_defs eqs by (elim conjE, intro conjI) assumption+
qed

lemma hkey_SomeD: "hkey q f = Some k \<Longrightarrow> \<exists>h. q_handlers q f = Some h \<and> handler_key h = k"
  by (auto simp: hkey_def)

lemma same_shape_pool [simp]:
  "same_shape q (q\<lparr>q_pool_free := x\<rparr>)" "same_shape q (q\<lparr>q_pool_total := x\<rparr>)"
  "same_shape q (q\<lparr>q_last_channel := lc\<rparr>)"
  "same_shape q (add_effect e q)" "same_shape q (packet_free q)"
  "same_shape q (snd (packet_alloc q))"
  by (auto simp: same_shape_def hook_keys_def hkey_def fun_eq_iff add_effect_def packet_free_def
      packet_alloc_def)

lemma queued_pool [simp]:
  "queued (q\<lparr>q_pool_free := x\<rparr>) = queued q" "queued (q\<lparr>q_pool_total := x\<rparr>) = queued q"
  "queued (q\<lparr>q_last_channel := lc\<rparr>) = queued q" "queued (q\<lparr>q_looper := l\<rparr>) = queued q"
  "queued (add_effect e q) = queued q" "queued (packet_free q) = queued q"
  "queued (snd (packet_alloc q)) = queued q"
  by (auto simp: queued_def add_effect_def packet_free_def packet_alloc_def)

lemma pool_used_simps [simp]:
  "pool_used (q\<lparr>q_last_channel := lc\<rparr>) = pool_used q" "pool_used (q\<lparr>q_looper := l\<rparr>) = pool_used q"
  "pool_used (add_effect e q) = pool_used q" "pool_used (put_handler f h q) = pool_used q"
  "pool_used (put_client c k q) = pool_used q"
  by (simp_all add: pool_used_def add_effect_def put_handler_def put_client_def)

lemma looper_keys:
  "map hook_key (lp_hooks (looper_enable l fd ev)) = map hook_key (lp_hooks l)"
  "map hook_key (lp_hooks (looper_disable l fd ev)) = map hook_key (lp_hooks l)"
  using looper_findD [of l fd]
  by (auto simp: looper_enable_def looper_disable_def Let_def hook_key_def num_fds_def map_update
      intro!: list_update_same_conv [THEN iffD2] split: option.split)

lemma same_shape_looper [simp]:
  "same_shape q (q\<lparr>q_looper := looper_enable (q_looper q) fd ev\<rparr>)"
  "same_shape q (q\<lparr>q_looper := looper_disable (q_looper q) fd ev\<rparr>)"
  using looper_keys looper_ok_enable looper_ok_disable
  by (auto simp: same_shape_def hook_keys_def hkey_def fun_eq_iff)

text \<open>A handler whose queue changes, with a change of the event mask.\<close>

lemma same_shape_queue:
  assumes "q_handlers q f = Some h" "handler_key h' = handler_key h"
    "l = q_looper q \<or> l = looper_enable (q_looper q) fd ev \<or> l = looper_disable (q_looper q) fd ev"
  shows "same_shape q (put_handler f h' (q\<lparr>q_looper := l\<rparr>))"
  using assms looper_keys [of "q_looper q" fd ev] looper_ok_enable looper_ok_disable
  by (auto simp: same_shape_def hook_keys_def hkey_def fun_eq_iff put_handler_def)

lemma same_shape_put:
  assumes "q_handlers q f = Some h" "handler_key h' = handler_key h"
  shows "same_shape q (put_handler f h' q)"
  using same_shape_queue [OF assms, of "q_looper q"] by simp

lemma sum_list_map_upd:
  fixes g :: "'a \<Rightarrow> int"
  assumes "distinct xs"
  shows "sum_list (map (g(x := v)) xs) = sum_list (map g xs) + (if x \<in> set xs then v - g x else 0)"
  using assms by (induction xs) auto

lemma out_len_upd: "out_len (hs(f \<mapsto> h)) = (out_len hs)(f := int (length (fh_out h)))"
  by (auto simp: out_len_def fun_eq_iff)

lemma wf_handler_listed:
  "wf_qemud X Y q \<Longrightarrow> q_handlers q f = Some h \<Longrightarrow> f \<in> set (q_active q @ q_closing q)"
  by (cases "fh_is_closing h") (auto simp: wf_qemud_def lists_ok_def hkey_def handler_key_def)

lemma queued_put:
  assumes "wf_qemud X Y q" "q_handlers q f = Some h"
  shows "queued (put_handler f h' q) = queued q + int (length (fh_out h')) - int (length (fh_out h))"
proof -
  have d: "distinct (q_active q @ q_closing q)"
    using assms(1) by (simp add: wf_qemud_def lists_ok_def)
  have "out_len (q_handlers q) f = int (length (fh_out h))"
    using assms(2) by (simp add: out_len_def)
  then show ?thesis
    using sum_list_map_upd [OF d, of "out_len (q_handlers q)" f "int (length (fh_out h'))"]
      wf_handler_listed [OF assms]
    by (simp add: queued_def put_handler_def out_len_upd)
qed

lemma extra_simps [simp]:
  "extra (packet_free q) = extra q - 1" "extra (snd (packet_alloc q)) = extra q + 1"
  "extra (add_effect e q) = extra q" "extra (q\<lparr>q_last_channel := lc\<rparr>) = extra q"
  "extra (q\<lparr>q_looper := l\<rparr>) = extra q"
  by (simp_all add: extra_def)

lemma extra_put:
  assumes "wf_qemud X Y q" "q_handlers q f = Some h"
  shows "extra (put_handler f h' q) = extra q - int (length (fh_out h')) + int (length (fh_out h))"
  using queued_put [OF assms] by (simp add: extra_def)

section \<open>Queueing and writing\<close>

lemma enqueue_safe:
  assumes "wf_qemud X Y q" "q_handlers q f = Some h"
  shows "safe (fdhandler_enqueue f p q) (\<lambda>q'. same_shape q q' \<and> extra q' = extra q - 1)"
proof -
  from same_shape_wf [OF same_shape_looper(1) assms(1)]
  have "wf_qemud X Y (q\<lparr>q_looper := looper_enable (q_looper q) (fh_fd h) EPOLLOUT\<rparr>)" .
  then show ?thesis
    using same_shape_queue [OF assms(2), of "h\<lparr>fh_out := fh_out h @ [p]\<rparr>" "q_looper q"]
      same_shape_queue [OF assms(2), of "h\<lparr>fh_out := fh_out h @ [p], fh_out_pos := 0\<rparr>"
        "looper_enable (q_looper q) (fh_fd h) EPOLLOUT" "fh_fd h" EPOLLOUT]
      extra_put [OF assms, of "h\<lparr>fh_out := fh_out h @ [p]\<rparr>"] assms(2)
      extra_put [of X Y "q\<lparr>q_looper := looper_enable (q_looper q) (fh_fd h) EPOLLOUT\<rparr>" f h
        "h\<lparr>fh_out := fh_out h @ [p], fh_out_pos := 0\<rparr>"]
    by (auto simp: fdhandler_enqueue_def get_handler_def Let_def handler_key_def)
qed

lemma wf_serial_handler:
  "wf_qemud X Y q \<Longrightarrow> \<exists>h. q_handlers q (q_serial_handler q) = Some h"
  by (auto simp: wf_qemud_def serial_handler_ok_def dest: hkey_SomeD)

lemma serial_send_safe:
  assumes "wf_qemud X Y q"
  shows "safe (serial_send p q) (\<lambda>q'. same_shape q q' \<and> extra q' = extra q - 1)"
proof -
  let ?q = "snd (packet_alloc q)" and ?s = "q_serial_handler q"
  have w: "wf_qemud X Y ?q"
    by (rule same_shape_wf [OF _ assms]) simp
  have eq: "q_serial_handler ?q = ?s" "fst (packet_alloc q) = new_packet"
    by (simp_all add: packet_alloc_def)
  obtain h where h: "q_handlers ?q ?s = Some h"
    using wf_serial_handler [OF w] eq by auto
  have "safe (bindE (fdhandler_enqueue ?s hp ?q) (\<lambda>q. fdhandler_enqueue (q_serial_handler q) p q))
      (\<lambda>q'. same_shape q q' \<and> extra q' = extra q - 1)" for hp
  proof (rule safe_bind [OF enqueue_safe [OF w h]])
    fix q1 assume q1: "same_shape ?q q1 \<and> extra q1 = extra ?q - 1"
    then have w1: "wf_qemud X Y q1" and sh: "same_shape q q1"
      using same_shape_wf [OF _ w] same_shape_trans [of q ?q q1] by auto
    obtain h1 where "q_handlers q1 (q_serial_handler q1) = Some h1"
      using wf_serial_handler [OF w1] by auto
    from enqueue_safe [OF w1 this, of p] q1 sh
    show "safe (fdhandler_enqueue (q_serial_handler q1) p q1)
        (\<lambda>q'. same_shape q q' \<and> extra q' = extra q - 1)"
      by (auto elim!: safe_mono dest: same_shape_trans)
  qed
  then show ?thesis
    unfolding serial_send_def Let_def case_prod_beta eq .
qed

lemma handler_write_safe:
  assumes w: "wf_qemud X Y q" and h: "q_handlers q f = Some h"
  shows "safe (handler_write f io q) (\<lambda>q'. same_shape q q' \<and> extra q' = extra q)"
proof (cases "fh_out h")
  case Nil
  with h show ?thesis by (simp add: handler_write_def get_handler_def)
next
  case (Cons p rest)
  show ?thesis
  proof (cases "io_write io")
    case None
    with h Cons show ?thesis by (simp add: handler_write_def get_handler_def)
  next
    case (Some len)
    let ?e = "Wrote (fh_fd h) (take len (drop (fh_out_pos h) (pk_data p)))"
    let ?q = "add_effect ?e q"
    have w': "wf_qemud X Y ?q"
      by (rule same_shape_wf [OF same_shape_pool(4) w])
    have h': "q_handlers ?q f = Some h"
      using h by (simp add: add_effect_def)
    have shape: "same_shape q (put_handler f k ?q)" if "handler_key k = handler_key h" for k
      by (rule same_shape_trans [OF same_shape_pool(4) same_shape_put [OF h' that]])
    have shape1: "same_shape q (packet_free (put_handler f k ?q))" if "handler_key k = handler_key h" for k
      by (rule same_shape_trans [OF shape [OF that] same_shape_pool(5)])
    have shape2: "same_shape q (packet_free (put_handler f k ?q)\<lparr>q_looper :=
        looper_disable (q_looper (packet_free (put_handler f k ?q))) (fh_fd h) EPOLLOUT\<rparr>)"
      if "handler_key k = handler_key h" for k
      by (rule same_shape_trans [OF shape1 [OF that] same_shape_looper(2)])
    show ?thesis
      using h Cons Some extra_put [OF w' h'] shape shape1 shape2
      by (auto simp: handler_write_def get_handler_def Let_def handler_key_def)
  qed
qed

end
