(* ===== verification/Qemud_Safety.thy ===== *)
theory Qemud_Safety
  imports Qemud_Inv
begin

text \<open>
  The operations of \<open>qemud.c\<close> that create and destroy objects keep the invariant of
  \<open>Qemud_Inv\<close>; the callbacks of the event loop are safe in every state that has it,
  and the states the daemon starts in have it.
\<close>

section \<open>Channels\<close>

lemma client_channels_eq:
  "set cs \<subseteq> dom h \<Longrightarrow> client_channels h cs = Inr (map (\<lambda>c. cl_channel (the (h c))) cs)"
  by (induction cs) auto

lemma find_client_eq:
  "set cs \<subseteq> dom h \<Longrightarrow>
   find_client h cs ch = Inr (find (\<lambda>c. cl_channel (the (h c)) = ch) cs)"
  by (induction cs) auto

lemma try_channels_free:
  "try_channels n used lc = Inr (ch, lc') \<Longrightarrow> ch \<notin> set used \<and> 0 \<le> ch \<and> ch < 256"
proof (induction n arbitrary: lc)
  case 0
  then show ?case by simp
next
  case (Suc n)
  have "uint ((lc + 1) AND 0xff :: 32 word) < 256"
    using AND_upper2 [of "0xff :: int" "uint (lc + 1)"] by (simp add: uint_and)
  with Suc show ?case
    by (auto simp: Let_def split: if_splits)
qed

lemma try_channels_safe: "safe (try_channels n used lc) (\<lambda>(ch, lc'). ch \<notin> set used \<and> 0 \<le> ch \<and> ch < 256)"
proof (cases "try_channels n used lc")
  case (Inl e)
  have "try_channels n used lc = Inl e \<Longrightarrow> e = Hang"
    by (induction n arbitrary: lc) (auto simp: Let_def split: if_splits)
  with Inl show ?thesis by simp
next
  case (Inr r)
  then show ?thesis
    using try_channels_free [of n used lc "fst r" "snd r"] by (simp add: case_prod_beta)
qed

lemma wf_clients:
  assumes "wf_qemud X Y q"
  shows "set (q_client_list q) \<subseteq> dom (q_clients q)" "dom (q_clients q) \<subseteq> set (q_client_list q) \<union> Y"
    "distinct (q_client_list q)"
  using assms by (auto simp: wf_qemud_def clients_ok_def)

lemma find_client_safe:
  assumes "wf_qemud X Y q"
  shows "safe (multiplexer_find_client ch q) (\<lambda>r. \<forall>c. r = Some c \<longrightarrow>
     c \<in> set (q_client_list q) \<and> (\<exists>k. q_clients q c = Some k \<and> cl_channel k = ch))"
proof -
  have c: "\<exists>k. q_clients q (q_client_list q ! i) = Some k" if "i < length (q_client_list q)" for i
    using wf_clients(1) [OF assms] nth_mem [OF that] by blast
  show ?thesis
    using wf_clients(1) [OF assms] c
    by (fastforce simp: multiplexer_find_client_def find_client_eq find_Some_iff)
qed

lemma open_channel_safe:
  assumes w: "wf_qemud X Y q"
  shows "safe (multiplexer_open_channel p q) (\<lambda>(ch, q'). same_shape q q' \<and> extra q' = extra q \<and>
     ch < 256 \<and> (0 \<le> ch \<longrightarrow> (\<forall>c k. c \<in> set (q_client_list q) \<longrightarrow> q_clients q c = Some k \<longrightarrow> cl_channel k \<noteq> ch)))"
proof -
  let ?q = "snd (packet_alloc q)"
  have sh: "same_shape q ?q" by simp
  have eq: "q_clients ?q = q_clients q" "q_client_list ?q = q_client_list q"
    "q_last_channel ?q = q_last_channel q"
    by (simp_all add: packet_alloc_def)
  let ?used = "map (\<lambda>c. cl_channel (the (q_clients q c))) (q_client_list q)"
  have used: "client_channels (q_clients q) (q_client_list q) = Inr ?used"
    using wf_clients [OF w] by (simp add: client_channels_eq)
  have fresh: "\<forall>c k. c \<in> set (q_client_list q) \<longrightarrow> q_clients q c = Some k \<longrightarrow> cl_channel k \<noteq> ch"
    if "ch \<notin> set ?used" for ch
    using that by force
  have rest: "safe (case snprintf MAX_PAYLOAD msg of (out, len) \<Rightarrow>
        if MAX_PAYLOAD \<le> len then Inr (- 1, packet_free (?q\<lparr>q_last_channel := lc\<rparr>))
        else bindE (serial_send (pk out) (?q\<lparr>q_last_channel := lc\<rparr>)) (\<lambda>q. Inr (ch, q)))
      (\<lambda>(ch, q'). same_shape q q' \<and> extra q' = extra q \<and> ch < 256 \<and>
        (0 \<le> ch \<longrightarrow> (\<forall>c k. c \<in> set (q_client_list q) \<longrightarrow> q_clients q c = Some k \<longrightarrow> cl_channel k \<noteq> ch)))"
    if ch: "ch \<notin> set ?used" "ch < 256" for ch lc msg pk
  proof -
    let ?r = "?q\<lparr>q_last_channel := lc\<rparr>"
    have sr: "same_shape q ?r"
      by (rule same_shape_trans [OF sh same_shape_pool(3)])
    have "safe (bindE (serial_send (pk out) ?r) (\<lambda>q. Inr (ch, q)))
      (\<lambda>(ch, q'). same_shape q q' \<and> extra q' = extra q \<and> ch < 256 \<and>
        (0 \<le> ch \<longrightarrow> (\<forall>c k. c \<in> set (q_client_list q) \<longrightarrow> q_clients q c = Some k \<longrightarrow> cl_channel k \<noteq> ch)))" for out
      using ch fresh same_shape_trans [OF sr]
      by (intro safe_bind [OF serial_send_safe [OF same_shape_wf [OF sr w]]]) auto
    then show ?thesis
      using same_shape_trans [OF sr same_shape_pool(5)] by (auto simp: snprintf_def)
  qed
  show ?thesis
    unfolding multiplexer_open_channel_def Let_def case_prod_beta eq used bindE_simps
  proof (rule safe_bind [OF try_channels_safe])
    fix x :: "int \<times> 32 word"
    assume x: "case x of (ch, lc') \<Rightarrow> ch \<notin> set ?used \<and> 0 \<le> ch \<and> ch < 256"
    show "safe (if MAX_PAYLOAD \<le> snd (snprintf MAX_PAYLOAD (connect_message (pk_data p) (nat (fst x))))
         then Inr (- 1, packet_free (?q\<lparr>q_last_channel := snd x\<rparr>))
         else bindE (serial_send
                (fst (packet_alloc q)\<lparr>pk_data := fst (snprintf MAX_PAYLOAD (connect_message (pk_data p) (nat (fst x)))),
                   pk_channel := CHANNEL_CONTROL\<rparr>)
                (?q\<lparr>q_last_channel := snd x\<rparr>)) (\<lambda>q. Inr (fst x, q)))
       (\<lambda>x. same_shape q (snd x) \<and> extra (snd x) = extra q \<and> fst x < 256 \<and>
         (0 \<le> fst x \<longrightarrow> (\<forall>c k. c \<in> set (q_client_list q) \<longrightarrow> q_clients q c = Some k \<longrightarrow> cl_channel k \<noteq> fst x)))"
      using rest [where ch = "fst x" and lc = "snd x" and msg = "connect_message (pk_data p) (nat (fst x))"
          and pk = "\<lambda>out. fst (packet_alloc q)\<lparr>pk_data := out, pk_channel := CHANNEL_CONTROL\<rparr>"] x
      unfolding case_prod_beta by simp
  qed
qed

section \<open>Destroying and orphaning a handler\<close>

text \<open>What \<open>fdhandler_close\<close> does to everything but the receiver, and the branch of
  \<open>fdhandler_shutdown\<close> that keeps the handler until its queue is written.\<close>

definition drop_handler :: "nat \<Rightarrow> fdhandler \<Rightarrow> qemud \<Rightarrow> qemud" where
  "drop_handler f h q =
     (let q = packet_free_all (fh_out h) (fdhandler_remove f q);
          q = add_effect (Closed (fh_fd h)) (q\<lparr>q_looper := looper_del (q_looper q) (fh_fd h)\<rparr>)
      in q\<lparr>q_handlers := (q_handlers q)(f := None)\<rparr>)"

definition orphan_handler :: "nat \<Rightarrow> fdhandler \<Rightarrow> qemud \<Rightarrow> qemud" where
  "orphan_handler f h q =
     fdhandler_prepend_closing f (fdhandler_remove f
       (put_handler f (h\<lparr>fh_receiver := (fh_receiver h)\<lparr>rc_close := Close_none\<rparr>, fh_is_closing := True\<rparr>) q))"

lemma drop_handler_put [simp]: "drop_handler f h (put_handler f h' q) = drop_handler f h q"
  by (simp add: drop_handler_def put_handler_def Let_def fdhandler_remove_def packet_free_all_eq
      add_effect_def)

lemma drop_handler_fields [simp]:
  "hkey (drop_handler f h q) = (hkey q)(f := None)"
  "q_handlers (drop_handler f h q) = (q_handlers q)(f := None)"
  "q_next_handler (drop_handler f h q) = q_next_handler q"
  "q_active (drop_handler f h q) = filter (\<lambda>g. g \<noteq> f) (q_active q)"
  "q_closing (drop_handler f h q) = filter (\<lambda>g. g \<noteq> f) (q_closing q)"
  "q_clients (drop_handler f h q) = q_clients q"
  "q_next_client (drop_handler f h q) = q_next_client q"
  "q_client_list (drop_handler f h q) = q_client_list q"
  "q_serial (drop_handler f h q) = q_serial q"
  "q_serial_handler (drop_handler f h q) = q_serial_handler q"
  "q_looper (drop_handler f h q) = looper_del (q_looper q) (fh_fd h)"
  "pool_used (drop_handler f h q) = pool_used q - int (length (fh_out h))"
  by (auto simp: drop_handler_def Let_def fdhandler_remove_def packet_free_all_eq add_effect_def
      hkey_def pool_used_def)

lemma orphan_handler_fields [simp]:
  "hkey (orphan_handler f h q) =
     (hkey q)(f \<mapsto> (fh_fd h, True, (fh_receiver h)\<lparr>rc_close := Close_none\<rparr>))"
  "q_next_handler (orphan_handler f h q) = q_next_handler q"
  "q_active (orphan_handler f h q) = filter (\<lambda>g. g \<noteq> f) (q_active q)"
  "q_closing (orphan_handler f h q) = f # filter (\<lambda>g. g \<noteq> f) (q_closing q)"
  "q_clients (orphan_handler f h q) = q_clients q"
  "q_next_client (orphan_handler f h q) = q_next_client q"
  "q_client_list (orphan_handler f h q) = q_client_list q"
  "q_serial (orphan_handler f h q) = q_serial q"
  "q_serial_handler (orphan_handler f h q) = q_serial_handler q"
  "q_looper (orphan_handler f h q) = q_looper q"
  "pool_used (orphan_handler f h q) = pool_used q"
  by (auto simp: orphan_handler_def fdhandler_remove_def fdhandler_prepend_closing_def put_handler_def
      hkey_def handler_key_def pool_used_def)

lemma shutdown_eq:
  assumes "q_handlers q f = Some h" "0 \<le> fh_fd h"
  shows "fdhandler_shutdown f q =
    Inr (if fh_out h \<noteq> [] \<and> \<not> fh_is_closing h then orphan_handler f h q else drop_handler f h q)"
proof -
  let ?h = "h\<lparr>fh_receiver := (fh_receiver h)\<lparr>rc_close := Close_none\<rparr>\<rparr>"
  have 1: "drop_handler f ?h q = drop_handler f h q"
    by (simp add: drop_handler_def)
  show ?thesis
    using assms
    by (auto simp: fdhandler_shutdown_def get_handler_def Let_def put_handler_def orphan_handler_def
        fdhandler_close_def receiver_close_def drop_handler_def fdhandler_remove_def
        packet_free_all_eq add_effect_def)
qed

lemma close_safe:
  assumes "q_handlers q f = Some h"
    and "safe (if rc_close (fh_receiver h) \<noteq> Close_none then run (rc_close (fh_receiver h)) q else Inr q)
      (\<lambda>q'. \<exists>h'. q_handlers q' f = Some h' \<and> 0 \<le> fh_fd h' \<and> P (drop_handler f h' q'))"
  shows "safe (fdhandler_close run f q) P"
proof -
  have last: "safe (bindE (get_handler f q') (\<lambda>h. Inr (drop_handler f h q'))) P"
    if "\<exists>h'. q_handlers q' f = Some h' \<and> 0 \<le> fh_fd h' \<and> P (drop_handler f h' q')" for q'
    using that by (auto simp: get_handler_def)
  have unfold: "fdhandler_close run f q =
      bindE (if rc_close (fh_receiver h) \<noteq> Close_none then run (rc_close (fh_receiver h)) q else Inr q)
        (\<lambda>q'. bindE (get_handler f q') (\<lambda>h. Inr (drop_handler f h q')))"
    if "\<And>q' h'. (if rc_close (fh_receiver h) \<noteq> Close_none then run (rc_close (fh_receiver h)) q else Inr q) = Inr q'
      \<Longrightarrow> q_handlers q' f = Some h' \<Longrightarrow> 0 \<le> fh_fd h'"
    using assms(1) that
    by (cases "if rc_close (fh_receiver h) \<noteq> Close_none then run (rc_close (fh_receiver h)) q else Inr q")
      (auto simp: fdhandler_close_def receiver_close_def get_handler_def deref_def Let_def
        drop_handler_def fdhandler_remove_def packet_free_all_eq add_effect_def put_handler_def
        split: option.splits if_splits)
  have "safe (bindE (if rc_close (fh_receiver h) \<noteq> Close_none then run (rc_close (fh_receiver h)) q else Inr q)
        (\<lambda>q'. bindE (get_handler f q') (\<lambda>h. Inr (drop_handler f h q')))) P"
    using assms(2) by (rule safe_bind) (rule last)
  moreover have "0 \<le> fh_fd h'"
    if "(if rc_close (fh_receiver h) \<noteq> Close_none then run (rc_close (fh_receiver h)) q else Inr q) = Inr q'"
      "q_handlers q' f = Some h'" for q' h'
    using safe_InrD [OF assms(2) that(1)] that(2) by auto
  ultimately show ?thesis
    using unfold by simp
qed

lemma hook_key_inj:
  "wf_qemud X Y q \<Longrightarrow> (d, a) \<in> set (hook_keys q) \<Longrightarrow> (d, b) \<in> set (hook_keys q) \<Longrightarrow> a = b"
proof -
  assume w: "wf_qemud X Y q"
  have "fst \<circ> hook_key = hook_fd"
    by (auto simp: hook_key_def fun_eq_iff)
  then have "distinct (map fst (hook_keys q))"
    using w by (simp add: hook_keys_def wf_qemud_def hooks_ok_def looper_ok_def)
  then show "(d, a) \<in> set (hook_keys q) \<Longrightarrow> (d, b) \<in> set (hook_keys q) \<Longrightarrow> a = b"
    by (rule eq_key_imp_eq_value)
qed

lemma looper_del_keys:
  assumes "looper_ok l"
  shows "map hook_key (lp_hooks (looper_del l fd)) =
    map (\<lambda>(d, f, func, cl). (d, f, func, cl \<or> d = fd)) (map hook_key (lp_hooks l))"
proof (cases "looper_find l fd")
  case None
  then have "fd \<notin> hook_fd ` set (lp_hooks l)"
    by (simp add: looper_find_def hook_index_None)
  then show ?thesis
    using None by (auto simp: looper_del_def hook_key_def)
next
  case (Some i)
  have d: "distinct (map hook_fd (lp_hooks l))"
    using assms by (simp add: looper_ok_def)
  have i: "i < length (lp_hooks l)" "hook_fd (lp_hooks l ! i) = fd"
    using looper_findD [OF Some] by (auto simp: num_fds_def)
  then show ?thesis
    using Some fd_index_unique [OF d _ i(1)]
    by (auto simp: looper_del_def Let_def hook_key_def nth_list_update intro!: nth_equalityI)
qed

lemma hook_keys_drop:
  assumes "wf_qemud X Y q"
  shows "(d, g, func, False) \<in> set (hook_keys (drop_handler f h q)) \<longleftrightarrow>
    (d, g, func, False) \<in> set (hook_keys q) \<and> d \<noteq> fh_fd h"
proof -
  have "looper_ok (q_looper q)"
    using assms by (simp add: wf_qemud_def hooks_ok_def)
  then have "hook_keys (drop_handler f h q) =
      map (\<lambda>(d, f, func, cl). (d, f, func, cl \<or> d = fh_fd h)) (hook_keys q)"
    by (simp only: hook_keys_def drop_handler_fields looper_del_keys)
  then show ?thesis
    by (force simp: image_iff)
qed

lemma wf_handler:
  assumes "wf_qemud X Y q" "q_handlers q f = Some h"
  shows "0 \<le> fh_fd h" "f < q_next_handler q" "hkey q f = Some (fh_fd h, fh_is_closing h, fh_receiver h)"
    "\<exists>func. (fh_fd h, f, func, False) \<in> set (hook_keys q)"
proof -
  show "hkey q f = Some (fh_fd h, fh_is_closing h, fh_receiver h)"
    using assms(2) by (simp add: hkey_def handler_key_def)
  then show "0 \<le> fh_fd h" "f < q_next_handler q" "\<exists>func. (fh_fd h, f, func, False) \<in> set (hook_keys q)"
    using assms(1) unfolding wf_qemud_def hooks_ok_def by blast+
qed

lemma receiversD:
  "wf_qemud X Y q \<Longrightarrow> hkey q f = Some (fd, cl, r) \<Longrightarrow> f \<notin> X \<Longrightarrow>
   if cl then \<exists>c. r = orphan_recv c
   else r = serial_recv \<or> r = control_recv \<or>
        (\<exists>c k. r = client_recv c \<and> q_clients q c = Some k \<and> cl_fdhandler k = Some f)"
  unfolding wf_qemud_def receivers_ok_def by blast

lemma wf_drop:
  assumes w: "wf_qemud X Y q" and h: "q_handlers q f = Some h" and s: "f \<noteq> q_serial_handler q"
    and c: "\<And>c k. q_clients q c = Some k \<Longrightarrow> c \<notin> Y \<Longrightarrow> cl_fdhandler k \<noteq> Some f"
  shows "wf_qemud (X - {f}) Y (drop_handler f h q)"
proof -
  let ?q = "drop_handler f h q"
  note wf = wf_handler [OF w h]
  have hooks: "hooks_ok q" and lists: "lists_ok q" and clients: "clients_ok Y q"
    and ser: "serial_handler_ok q"
    using w by (simp_all add: wf_qemud_def)
  obtain func where func: "(fh_fd h, f, func, False) \<in> set (hook_keys q)"
    using wf(4) by blast
  have "hooks_ok ?q"
    unfolding hooks_ok_def
  proof (intro conjI allI impI)
    show "looper_ok (q_looper ?q)"
      using hooks by (simp add: hooks_ok_def looper_ok_del)
  next
    fix g fd cl r assume "hkey ?q g = Some (fd, cl, r)"
    then have g: "hkey q g = Some (fd, cl, r)" "g \<noteq> f"
      by (auto split: if_splits)
    then show "g < q_next_handler ?q" "0 \<le> fd"
      using hooks by (auto simp: hooks_ok_def)
    obtain func' where "(fd, g, func', False) \<in> set (hook_keys q)"
      using g hooks unfolding hooks_ok_def by blast
    moreover from this have "fd \<noteq> fh_fd h"
      using hook_key_inj [OF w func] g by auto
    ultimately show "\<exists>func. (fd, g, func, False) \<in> set (hook_keys ?q)"
      using hook_keys_drop [OF w] by blast
  next
    fix fd g func' assume "(fd, g, func', False) \<in> set (hook_keys ?q)"
    then have k: "(fd, g, func', False) \<in> set (hook_keys q)" "fd \<noteq> fh_fd h"
      using hook_keys_drop [OF w] by blast+
    then obtain cl r where r: "hkey q g = Some (fd, cl, r)"
        "(func' = Ev_fdhandler_accept_event) = (r = control_recv)"
      using hooks unfolding hooks_ok_def by blast
    then have "g \<noteq> f"
      using k wf(3) by auto
    with r show "\<exists>cl r. hkey ?q g = Some (fd, cl, r) \<and>
        (func' = Ev_fdhandler_accept_event) = (r = control_recv)"
      by auto
  qed
  moreover have "lists_ok ?q"
    using lists by (auto simp: lists_ok_def)
  moreover have "clients_ok Y ?q"
    using clients c unfolding clients_ok_def by fastforce
  moreover have "receivers_ok (X - {f}) ?q"
    unfolding receivers_ok_def
  proof (intro allI impI)
    fix g fd cl r assume "hkey ?q g = Some (fd, cl, r)" "g \<notin> X - {f}"
    then have "hkey q g = Some (fd, cl, r)" "g \<notin> X"
      by (auto split: if_splits)
    from receiversD [OF w this]
    show "if cl then \<exists>c. r = orphan_recv c
         else r = serial_recv \<or> r = control_recv \<or>
              (\<exists>c k. r = client_recv c \<and> q_clients ?q c = Some k \<and> cl_fdhandler k = Some g)"
      unfolding drop_handler_fields .
  qed
  moreover have "serial_handler_ok ?q"
    using ser s by (auto simp: serial_handler_ok_def)
  ultimately show ?thesis
    by (simp add: wf_qemud_def)
qed

lemma clients_ok_keys:
  assumes "clients_ok Y q"
    and "q_clients q' = q_clients q" "q_client_list q' = q_client_list q"
      "q_next_client q' = q_next_client q"
    and same: "\<And>c f fd. c \<notin> Y \<Longrightarrow> hkey q f = Some (fd, False, client_recv c) \<Longrightarrow> hkey q' f = hkey q f"
  shows "clients_ok Y q'"
proof -
  have "\<exists>f fd. cl_fdhandler cl = Some f \<and> hkey q' f = Some (fd, False, client_recv c)"
    if cl: "q_clients q c = Some cl" "c \<notin> Y" for c cl
  proof -
    obtain f fd where "cl_fdhandler cl = Some f" "hkey q f = Some (fd, False, client_recv c)"
      using assms(1) cl unfolding clients_ok_def by blast
    with same [OF cl(2) this(2)] show ?thesis by auto
  qed
  with assms(1) show ?thesis
    unfolding clients_ok_def assms(2-4) by blast
qed

lemma wf_orphan:
  assumes w: "wf_qemud X Y q" and h: "q_handlers q f = Some h"
    and r: "fh_receiver h = client_recv c" "c \<in> Y"
  shows "wf_qemud X Y (orphan_handler f h q)"
proof -
  let ?q = "orphan_handler f h q"
  note wf = wf_handler [OF w h]
  have hooks: "hooks_ok q" and lists: "lists_ok q" and clients: "clients_ok Y q"
    and ser: "serial_handler_ok q"
    using w by (simp_all add: wf_qemud_def)
  have keys: "hook_keys ?q = hook_keys q"
    by (simp add: hook_keys_def)
  have key: "hkey ?q g = (if g = f then Some (fh_fd h, True, orphan_recv c) else hkey q g)" for g
    using r by simp
  have "hooks_ok ?q"
    unfolding hooks_ok_def keys
  proof (intro conjI allI impI)
    show "looper_ok (q_looper ?q)"
      using hooks by (simp add: hooks_ok_def)
  next
    fix g fd cl r assume "hkey ?q g = Some (fd, cl, r)"
    then obtain cl' r' where "hkey q g = Some (fd, cl', r')"
      using wf(3) by (auto simp: key split: if_splits)
    then show "g < q_next_handler ?q" "0 \<le> fd" "\<exists>func. (fd, g, func, False) \<in> set (hook_keys q)"
      using hooks unfolding hooks_ok_def orphan_handler_fields by blast+
  next
    fix fd g func assume "(fd, g, func, False) \<in> set (hook_keys q)"
    then obtain cl r where "hkey q g = Some (fd, cl, r)"
        "(func = Ev_fdhandler_accept_event) = (r = control_recv)"
      using hooks unfolding hooks_ok_def by blast
    then show "\<exists>cl r. hkey ?q g = Some (fd, cl, r) \<and>
        (func = Ev_fdhandler_accept_event) = (r = control_recv)"
      using wf(3) r by (auto simp: key)
  qed
  moreover have "lists_ok ?q"
    using lists by (auto simp: lists_ok_def)
  moreover have "clients_ok Y ?q"
    using clients r wf(3) by (intro clients_ok_keys [OF clients]) (auto simp: key)
  moreover have "receivers_ok X ?q"
    unfolding receivers_ok_def
  proof (intro allI impI)
    fix g fd cl r' assume g: "hkey ?q g = Some (fd, cl, r')" "g \<notin> X"
    show "if cl then \<exists>c. r' = orphan_recv c
         else r' = serial_recv \<or> r' = control_recv \<or>
              (\<exists>c k. r' = client_recv c \<and> q_clients ?q c = Some k \<and> cl_fdhandler k = Some g)"
    proof (cases "g = f")
      case True
      with g key [of g] show ?thesis by simp
    next
      case False
      with g key [of g] have "hkey q g = Some (fd, cl, r')" by simp
      from receiversD [OF w this g(2)] show ?thesis
        unfolding orphan_handler_fields .
    qed
  qed
  moreover have "serial_handler_ok ?q"
    using ser r wf(3) by (cases "f = 0") (auto simp: serial_handler_ok_def)
  ultimately show ?thesis
    by (simp add: wf_qemud_def)
qed

text \<open>Neither changes what is lost from the pool.\<close>

lemma sum_list_filter_neq:
  fixes g :: "'a \<Rightarrow> int"
  assumes "distinct xs"
  shows "sum_list (map (g(x := 0)) (filter (\<lambda>y. y \<noteq> x) xs)) =
    sum_list (map g xs) - (if x \<in> set xs then g x else 0)"
  using assms by (induction xs) (auto simp: filter_neq_removes fun_upd_def)

lemma extra_drop:
  assumes w: "wf_qemud X Y q" and h: "q_handlers q f = Some h"
  shows "extra (drop_handler f h q) = extra q"
proof -
  have d: "distinct (q_active q @ q_closing q)"
    using w by (simp add: wf_qemud_def lists_ok_def)
  have "out_len ((q_handlers q)(f := None)) = (out_len (q_handlers q))(f := 0)"
    by (auto simp: out_len_def fun_eq_iff)
  then have "queued (drop_handler f h q) = queued q - int (length (fh_out h))"
    using sum_list_filter_neq [OF d, of "out_len (q_handlers q)" f] wf_handler_listed [OF w h] h
    by (simp add: queued_def out_len_def)
  then show ?thesis
    by (simp add: extra_def)
qed

lemma sum_list_move_front:
  fixes g :: "'a \<Rightarrow> int"
  assumes "distinct (xs @ ys)" "x \<in> set xs"
  shows "sum_list (map g (filter (\<lambda>y. y \<noteq> x) xs @ x # filter (\<lambda>y. y \<noteq> x) ys)) = sum_list (map g (xs @ ys))"
proof -
  have "sum_list (map g (filter (\<lambda>y. y \<noteq> x) xs)) = sum_list (map g xs) - g x"
    using assms by (induction xs) (auto simp: filter_neq_removes)
  moreover have "filter (\<lambda>y. y \<noteq> x) ys = ys"
    using assms by (auto intro: filter_neq_removes)
  ultimately show ?thesis by simp
qed

lemma extra_orphan:
  assumes w: "wf_qemud X Y q" and h: "q_handlers q f = Some h" "\<not> fh_is_closing h"
  shows "extra (orphan_handler f h q) = extra q"
proof -
  have d: "distinct (q_active q @ q_closing q)" and f: "f \<in> set (q_active q)"
    using w wf_handler(3) [OF w h(1)] h(2) by (auto simp: wf_qemud_def lists_ok_def)
  let ?h = "h\<lparr>fh_receiver := (fh_receiver h)\<lparr>rc_close := Close_none\<rparr>, fh_is_closing := True\<rparr>"
  have hs: "q_handlers (orphan_handler f h q) = (q_handlers q)(f \<mapsto> ?h)"
    by (simp add: orphan_handler_def fdhandler_remove_def fdhandler_prepend_closing_def put_handler_def)
  have "out_len ((q_handlers q)(f \<mapsto> ?h)) = out_len (q_handlers q)"
    using h by (auto simp: out_len_def fun_eq_iff)
  then have "queued (orphan_handler f h q) = queued q"
    using sum_list_move_front [OF d f, of "out_len (q_handlers q)"]
    unfolding queued_def hs orphan_handler_fields by simp
  then show ?thesis
    by (simp add: extra_def)
qed

section \<open>Clients\<close>

lemma wf_weaken: "wf_qemud X Y q \<Longrightarrow> X \<subseteq> X' \<Longrightarrow> Y \<subseteq> Y' \<Longrightarrow> wf_qemud X' Y' q"
  unfolding wf_qemud_def clients_ok_def receivers_ok_def by blast

definition drop_client :: "nat \<Rightarrow> qemud \<Rightarrow> qemud" where
  "drop_client c q =
     q\<lparr>q_clients := (q_clients q)(c := None), q_client_list := filter (\<lambda>d. d \<noteq> c) (q_client_list q)\<rparr>"

lemma drop_client_fields [simp]:
  "hkey (drop_client c q) = hkey q" "hook_keys (drop_client c q) = hook_keys q"
  "extra (drop_client c q) = extra q" "q_looper (drop_client c q) = q_looper q"
  "q_active (drop_client c q) = q_active q" "q_closing (drop_client c q) = q_closing q"
  "q_next_handler (drop_client c q) = q_next_handler q" "q_serial (drop_client c q) = q_serial q"
  "q_serial_handler (drop_client c q) = q_serial_handler q"
  "q_clients (drop_client c q) = (q_clients q)(c := None)"
  by (auto simp: drop_client_def hkey_def fun_eq_iff hook_keys_def extra_def queued_def pool_used_def)

lemma wf_drop_client:
  assumes w: "wf_qemud X Y q"
    and r: "\<And>f fd cl. hkey q f = Some (fd, cl, client_recv c) \<Longrightarrow> f \<in> X"
  shows "wf_qemud X (Y - {c}) (drop_client c q)"
proof -
  let ?q = "drop_client c q"
  have "hooks_ok ?q" "lists_ok ?q" "serial_handler_ok ?q"
    using w unfolding wf_qemud_def hooks_ok_def lists_ok_def serial_handler_ok_def drop_client_fields
    by blast+
  moreover have "clients_ok (Y - {c}) ?q"
  proof -
    have "clients_ok Y q"
      using w by (simp add: wf_qemud_def)
    then show ?thesis
      unfolding clients_ok_def drop_client_fields
      by (auto simp: drop_client_def split: if_splits)
  qed
  moreover have "receivers_ok X ?q"
    unfolding receivers_ok_def
  proof (intro allI impI)
    fix f fd cl r assume "hkey ?q f = Some (fd, cl, r)" "f \<notin> X"
    then have f: "hkey q f = Some (fd, cl, r)" "f \<notin> X" by simp_all
    with assms(2) have "r \<noteq> client_recv c" by blast
    with receiversD [OF w f]
    show "if cl then \<exists>c. r = orphan_recv c
         else r = serial_recv \<or> r = control_recv \<or>
              (\<exists>c k. r = client_recv c \<and> q_clients ?q c = Some k \<and> cl_fdhandler k = Some f)"
      by (auto simp: drop_client_def split: if_splits)
  qed
  ultimately show ?thesis
    by (simp add: wf_qemud_def)
qed

lemma wf_client_link:
  "wf_qemud X Y q \<Longrightarrow> q_clients q c = Some k \<Longrightarrow> c \<notin> Y \<Longrightarrow>
   \<exists>f fd. cl_fdhandler k = Some f \<and> hkey q f = Some (fd, False, client_recv c)"
  unfolding wf_qemud_def clients_ok_def by blast

lemma wf_client:
  assumes "wf_qemud X Y q" "q_clients q c = Some k" "c \<notin> Y"
  obtains f h where "cl_fdhandler k = Some f" "q_handlers q f = Some h" "\<not> fh_is_closing h"
    "fh_receiver h = client_recv c" "hkey q f = Some (fh_fd h, False, client_recv c)"
    "f \<noteq> q_serial_handler q"
proof -
  obtain f fd where f: "cl_fdhandler k = Some f" "hkey q f = Some (fd, False, client_recv c)"
    using assms unfolding wf_qemud_def clients_ok_def by blast
  then obtain h where "q_handlers q f = Some h" "handler_key h = (fd, False, client_recv c)"
    using hkey_SomeD by blast
  moreover have "f \<noteq> q_serial_handler q"
    using f(2) assms(1) by (cases "f = 0") (auto simp: wf_qemud_def serial_handler_ok_def)
  ultimately show thesis
    using that f by (auto simp: handler_key_def)
qed

lemma client_points:
  assumes w: "wf_qemud X Y q" and f: "hkey q f = Some (fd, False, client_recv c)"
    and d: "q_clients q d = Some k" "d \<notin> Y" "cl_fdhandler k = Some f"
  shows "d = c"
  using wf_client [OF w d(1,2)] d(3) f by fastforce

text \<open>A client whose handler is still there: the handler is closed, or orphaned.\<close>

lemma client_free_safe:
  assumes w: "wf_qemud {} {} q" and k: "q_clients q c = Some k"
  shows "safe (client_free c q) (\<lambda>q'. wf_qemud {} {} q' \<and> extra q' = extra q)"
proof -
  obtain f h where f: "cl_fdhandler k = Some f" "q_handlers q f = Some h" "\<not> fh_is_closing h"
      "fh_receiver h = client_recv c" "hkey q f = Some (fh_fd h, False, client_recv c)"
      "f \<noteq> q_serial_handler q"
    using wf_client [OF w k] by auto
  have fd: "0 \<le> fh_fd h"
    using wf_handler(1) [OF w f(2)] .
  have w': "wf_qemud {} {c} q"
    using wf_weaken [OF w] by simp
  let ?q = "if fh_out h \<noteq> [] then orphan_handler f h q else drop_handler f h q"
  have "client_free c q = Inr (drop_client c ?q)"
    using k f fd shutdown_eq [of "q\<lparr>q_client_list := filter (\<lambda>d. d \<noteq> c) (q_client_list q)\<rparr>" f h]
    by (cases q) (auto simp: client_free_def get_client_def Let_def drop_client_def drop_handler_def
        orphan_handler_def fdhandler_remove_def fdhandler_prepend_closing_def put_handler_def
        packet_free_all_eq add_effect_def)
  moreover have "wf_qemud {} {c} ?q"
    using wf_orphan [OF w' f(2,4)] wf_drop [OF w' f(2,6)] client_points [OF w' f(5)] by auto
  moreover have "hkey ?q g \<noteq> Some (fd, cl, client_recv c)" for g fd cl
  proof (cases "g = f")
    case True
    with f show ?thesis by auto
  next
    case False
    with receiversD [OF w, of g fd cl "client_recv c"] k f show ?thesis
      by (auto split: if_splits)
  qed
  ultimately have "wf_qemud {} {} (drop_client c ?q)"
    using wf_drop_client [of "{}" "{c}" ?q c] by auto
  then show ?thesis
    using \<open>client_free c q = _\<close> extra_orphan [OF w f(2,3)] extra_drop [OF w f(2)] by simp
qed

lemma put_client_fields [simp]:
  "hkey (put_client c k q) = hkey q" "hook_keys (put_client c k q) = hook_keys q"
  "extra (put_client c k q) = extra q" "q_handlers (put_client c k q) = q_handlers q"
  "q_looper (put_client c k q) = q_looper q"
  "q_active (put_client c k q) = q_active q" "q_closing (put_client c k q) = q_closing q"
  "q_next_handler (put_client c k q) = q_next_handler q" "q_serial (put_client c k q) = q_serial q"
  "q_serial_handler (put_client c k q) = q_serial_handler q"
  "q_clients (put_client c k q) = (q_clients q)(c \<mapsto> k)"
  "q_client_list (put_client c k q) = q_client_list q"
  "q_next_client (put_client c k q) = q_next_client q"
  by (auto simp: put_client_def hkey_def fun_eq_iff hook_keys_def extra_def queued_def pool_used_def)

text \<open>Only the channel must stay below 256 and its own.\<close>

lemma wf_put_client:
  assumes w: "wf_qemud X Y q" and k: "q_clients q c = Some k"
    and ch: "cl_channel k' < 256"
      "\<And>d dl. 0 \<le> cl_channel k' \<Longrightarrow> q_clients q d = Some dl \<Longrightarrow> d \<noteq> c \<Longrightarrow> cl_channel dl \<noteq> cl_channel k'"
    and f: "cl_fdhandler k' = cl_fdhandler k \<or> c \<in> Y \<and> (\<forall>f. cl_fdhandler k = Some f \<longrightarrow> f \<in> X)"
  shows "wf_qemud X Y (put_client c k' q)"
proof -
  let ?q = "put_client c k' q"
  have "hooks_ok ?q" "lists_ok ?q" "serial_handler_ok ?q"
    using w unfolding wf_qemud_def hooks_ok_def lists_ok_def serial_handler_ok_def put_client_fields
    by blast+
  moreover have "clients_ok Y ?q"
    unfolding clients_ok_def put_client_fields
  proof (intro conjI allI impI)
    have cs: "clients_ok Y q"
      using w by (simp add: wf_qemud_def)
    show "distinct (q_client_list q)" "set (q_client_list q) \<subseteq> dom ((q_clients q)(c \<mapsto> k'))"
      "dom ((q_clients q)(c \<mapsto> k')) \<subseteq> set (q_client_list q) \<union> Y"
      using cs k by (auto simp: clients_ok_def)
    fix d dl assume d: "((q_clients q)(c \<mapsto> k')) d = Some dl"
    then show "d < q_next_client q" "cl_channel dl < 256"
      using cs k ch by (auto simp: clients_ok_def split: if_splits)
    show "\<exists>f fd. cl_fdhandler dl = Some f \<and> hkey q f = Some (fd, False, client_recv d)" if "d \<notin> Y"
    proof (cases "d = c")
      case True
      then show ?thesis
        using wf_client_link [OF w k] d that f by auto
    next
      case False
      then show ?thesis
        using wf_client_link [OF w _ that, of dl] d by auto
    qed
    fix e el assume e: "((q_clients q)(c \<mapsto> k')) e = Some el" "0 \<le> cl_channel dl" "cl_channel dl = cl_channel el"
    show "d = e"
    proof (cases "d = c \<or> e = c")
      case True
      then show ?thesis
        using d e ch(2) [of d dl] ch(2) [of e el] by (auto split: if_splits)
    next
      case False
      then show ?thesis
        using d e cs unfolding clients_ok_def by (metis fun_upd_other)
    qed
  qed
  moreover have "receivers_ok X ?q"
    unfolding receivers_ok_def
  proof (intro allI impI)
    fix g fd cl r assume "hkey ?q g = Some (fd, cl, r)" "g \<notin> X"
    then have g: "hkey q g = Some (fd, cl, r)" "g \<notin> X" by simp_all
    from receiversD [OF w g]
    show "if cl then \<exists>c. r = orphan_recv c
         else r = serial_recv \<or> r = control_recv \<or>
              (\<exists>d k. r = client_recv d \<and> q_clients ?q d = Some k \<and> cl_fdhandler k = Some g)"
      using f g k by (auto split: if_splits)
  qed
  ultimately show ?thesis
    by (simp add: wf_qemud_def)
qed

lemma disconnect_message_short:
  assumes "ch < 256"
  shows "length (disconnect_message (nat ch)) \<le> 13"
proof -
  have "length (fmt_x (nat ch)) \<le> 2"
    using assms by (intro length_fmt_x) auto
  then show ?thesis
    by (simp add: disconnect_message_def)
qed

lemma close_channel_safe:
  assumes w: "wf_qemud X Y q" and ch: "ch < 256"
  shows "safe (multiplexer_close_channel ch q) (\<lambda>q'. same_shape q q' \<and> extra q' = extra q)"
proof -
  have w': "wf_qemud X Y (snd (packet_alloc q))"
    by (rule same_shape_wf [OF _ w]) simp
  have "safe (serial_send p (snd (packet_alloc q))) (\<lambda>q'. same_shape q q' \<and> extra q' = extra q)" for p
    using same_shape_trans [OF same_shape_pool(6)]
    by (intro safe_mono [OF serial_send_safe [OF w']]) auto
  then show ?thesis
    using disconnect_message_short [OF ch]
    by (simp add: multiplexer_close_channel_def Let_def case_prod_beta snprintf_def MAX_PAYLOAD_def)
qed

text \<open>The peer of a client closes: the client goes first, its handler stays to be closed.\<close>

lemma client_fd_close_safe:
  assumes w: "wf_qemud {} {} q" and k: "q_clients q c = Some k" "cl_fdhandler k = Some f"
  shows "safe (client_fd_close c q)
    (\<lambda>q'. wf_qemud {f} {} q' \<and> extra q' = extra q \<and> hkey q' f = hkey q f \<and>
      q_serial_handler q' = q_serial_handler q \<and> q_clients q' c = None)"
proof -
  let ?k = "k\<lparr>cl_fdhandler := None\<rparr>"
  let ?q = "put_client c ?k q"
  have cs: "clients_ok {} q"
    using w by (simp add: wf_qemud_def)
  then have ch: "cl_channel k < 256"
    using k unfolding clients_ok_def by blast
  have uniq: "cl_channel dl \<noteq> cl_channel k"
    if "0 \<le> cl_channel k" "q_clients q d = Some dl" "d \<noteq> c" for d dl
    using cs that k(1) unfolding clients_ok_def by metis
  have w1: "wf_qemud {f} {c} q"
    using wf_weaken [OF w] by simp
  have w2: "wf_qemud {f} {c} ?q"
    by (rule wf_put_client [OF w1 k(1)]) (use ch uniq k(2) in auto)
  have rest: "safe (client_free c q')
      (\<lambda>q'. wf_qemud {f} {} q' \<and> extra q' = extra q \<and> hkey q' f = hkey q f \<and>
        q_serial_handler q' = q_serial_handler q \<and> q_clients q' c = None)"
    if q': "same_shape ?q q' \<and> extra q' = extra ?q" for q'
  proof -
    have w3: "wf_qemud {f} {c} q'"
      using same_shape_wf [OF _ w2] q' by blast
    have eq: "q_clients q' c = Some ?k" "hkey q' = hkey q" "q_serial_handler q' = q_serial_handler q"
      using q' by (simp_all add: same_shape_def)
    have "client_free c q' = Inr (drop_client c q')"
      using eq(1) by (simp add: client_free_def get_client_def drop_client_def)
    moreover have "g = f" if "hkey q' g = Some (fd, cl, client_recv c)" for g fd cl
      using receiversD [OF w, of g fd cl "client_recv c"] that eq k by (auto split: if_splits)
    then have "wf_qemud {f} {} (drop_client c q')"
      using wf_drop_client [OF w3, of c] by auto
    ultimately show ?thesis
      using q' eq by simp
  qed
  have "client_fd_close c q =
      bindE (if cl_channel ?k > 0 then multiplexer_close_channel (cl_channel ?k) ?q else Inr ?q) (client_free c)"
    using k by (simp add: client_fd_close_def get_client_def Let_def)
  moreover have "safe (if cl_channel ?k > 0 then multiplexer_close_channel (cl_channel ?k) ?q else Inr ?q)
      (\<lambda>q'. same_shape ?q q' \<and> extra q' = extra ?q)"
    using close_channel_safe [OF w2, of "cl_channel k"] ch by auto
  ultimately show ?thesis
    using rest by (simp only:) (rule safe_bind)
qed

text \<open>Closing any handler of a well-formed state.\<close>

lemma run_close_safe:
  assumes w: "wf_qemud {} {} q" and h: "q_handlers q f = Some h"
  shows "safe (fdhandler_close run_close f q) (\<lambda>q'. wf_qemud {} {} q' \<and> extra q' = extra q)"
proof (rule close_safe [OF h])
  note key = wf_handler(3) [OF w h]
  note recv = receiversD [OF w key]
  let ?P = "\<lambda>q'. \<exists>h'. q_handlers q' f = Some h' \<and> 0 \<le> fh_fd h' \<and>
    wf_qemud {} {} (drop_handler f h' q') \<and> extra (drop_handler f h' q') = extra q"
  have drop: "?P q'"
    if "wf_qemud {f} {} q'" "hkey q' f = hkey q f" "extra q' = extra q"
      "fh_receiver h \<noteq> serial_recv" "q_serial_handler q' = q_serial_handler q"
      "\<And>c k. q_clients q' c = Some k \<Longrightarrow> cl_fdhandler k \<noteq> Some f" for q'
  proof -
    have "hkey q' f = Some (fh_fd h, fh_is_closing h, fh_receiver h)"
      using that(2) key by simp
    then obtain h' where h': "q_handlers q' f = Some h'"
      using hkey_SomeD by blast
    have "f \<noteq> q_serial_handler q"
      using w key that(4) by (cases "f = 0") (auto simp: wf_qemud_def serial_handler_ok_def)
    then have "wf_qemud {} {} (drop_handler f h' q')"
      using wf_drop [OF that(1) h'] that(5,6) by auto
    then show ?thesis
      using h' wf_handler(1) [OF that(1) h'] extra_drop [OF that(1) h'] that(3) by auto
  qed
  show "safe (if rc_close (fh_receiver h) \<noteq> Close_none then run_close (rc_close (fh_receiver h)) q else Inr q) ?P"
  proof (cases "fh_is_closing h")
    case True
    with recv obtain c where c: "fh_receiver h = orphan_recv c" by auto
    have "cl_fdhandler k \<noteq> Some f" if "q_clients q d = Some k" for d k
      using wf_client_link [OF w that] key True by auto
    with drop [of q] wf_weaken [OF w] c show ?thesis by auto
  next
    case False
    with recv consider "fh_receiver h = serial_recv" | "fh_receiver h = control_recv"
      | c k where "fh_receiver h = client_recv c" "q_clients q c = Some k" "cl_fdhandler k = Some f"
      by auto
    then show ?thesis
    proof cases
      case (3 c k)
      have "safe (client_fd_close c q) ?P"
      proof (rule safe_mono [OF client_fd_close_safe [OF w 3(2,3)]])
        fix q' assume q': "wf_qemud {f} {} q' \<and> extra q' = extra q \<and> hkey q' f = hkey q f \<and>
          q_serial_handler q' = q_serial_handler q \<and> q_clients q' c = None"
        show "?P q'"
        proof (rule drop)
          fix d l assume d: "q_clients q' d = Some l"
          then show "cl_fdhandler l \<noteq> Some f"
            using wf_client_link [of "{f}" "{}" q' d l] q' key 3 by auto
        qed (use q' 3 in auto)
      qed
      then show ?thesis using 3 by simp
    qed simp_all
  qed
qed

section \<open>Packets from a client\<close>

lemma extra_looper [simp]: "extra (q\<lparr>q_serial := s\<rparr>) = extra q"
  by (simp add: extra_def queued_def pool_used_def)

lemma same_shape_free: "same_shape q q' \<Longrightarrow> same_shape q (packet_free q')"
  by (rule same_shape_trans [OF _ same_shape_pool(5)])

lemma wf_packet_free [simp]: "wf_qemud X Y q \<Longrightarrow> wf_qemud X Y (packet_free q)"
  by (rule same_shape_wf [OF same_shape_pool(5)])

lemma wf_packet_alloc [simp]: "wf_qemud X Y q \<Longrightarrow> wf_qemud X Y (snd (packet_alloc q))"
  by (rule same_shape_wf [OF same_shape_pool(6)])

lemma packet_free_clients [simp]:
  "q_clients (packet_free q) = q_clients q" "q_clients (snd (packet_alloc q)) = q_clients q"
  by (simp_all add: packet_free_def packet_alloc_def)

lemma client_receive_safe:
  assumes w: "wf_qemud {} {} q" and k: "q_clients q c = Some k"
  shows "safe (client_fd_receive c p q) (\<lambda>q'. wf_qemud {} {} q' \<and> extra q' = extra q - 1 \<and>
    (cl_registered k \<longrightarrow> same_shape q q'))"
proof (cases "cl_registered k \<or> 0 < cl_channel k")
  case True
  have "safe (serial_send p' q)
      (\<lambda>q'. wf_qemud {} {} q' \<and> extra q' = extra q - 1 \<and> (cl_registered k \<longrightarrow> same_shape q q'))" for p'
    using same_shape_wf [OF _ w] by (intro safe_mono [OF serial_send_safe [OF w]]) auto
  moreover have "safe (client_free c (packet_free q)) (\<lambda>q'. wf_qemud {} {} q' \<and> extra q' = extra q - 1)"
    using client_free_safe [of "packet_free q" c k] w k by simp
  ultimately show ?thesis
    using True k by (auto simp: client_fd_receive_def get_client_def multiplexer_serial_send_def)
next
  case False
  let ?Q = "\<lambda>(ch, q'). same_shape q q' \<and> extra q' = extra q \<and> ch < 256 \<and>
     (0 \<le> ch \<longrightarrow> (\<forall>c k. c \<in> set (q_client_list q) \<longrightarrow> q_clients q c = Some k \<longrightarrow> cl_channel k \<noteq> ch))"
  have rest: "safe (bindE (get_client c q') (\<lambda>cl.
       let q = put_client c (cl\<lparr>cl_channel := ch\<rparr>) q'
       in if ch < 0 then client_free c (packet_free q) else Inr (packet_free q)))
      (\<lambda>q'. wf_qemud {} {} q' \<and> extra q' = extra q - 1)" if Q: "?Q (ch, q')" for ch q'
  proof -
    have q': "q_clients q' = q_clients q" "wf_qemud {} {} q'" "extra q' = extra q"
      using Q same_shape_wf [OF _ w] by (auto simp: same_shape_def)
    have other: "cl_channel dl \<noteq> ch" if "0 \<le> ch" "q_clients q' d = Some dl" for d dl
      using Q that wf_clients(2) [OF w] q'(1) by auto
    have w1: "wf_qemud {} {} (put_client c (k\<lparr>cl_channel := ch\<rparr>) q')"
      by (rule wf_put_client [OF q'(2), of c k]) (use Q q'(1) k other in auto)
    from client_free_safe [OF wf_packet_free [OF w1], of c "k\<lparr>cl_channel := ch\<rparr>"] w1 q' k
    show ?thesis
      by (simp add: get_client_def Let_def)
  qed
  have "client_fd_receive c p q = bindE (multiplexer_open_channel p q) (\<lambda>(ch, q').
      bindE (get_client c q') (\<lambda>cl.
       let q = put_client c (cl\<lparr>cl_channel := ch\<rparr>) q'
       in if ch < 0 then client_free c (packet_free q) else Inr (packet_free q)))"
    using False k by (simp add: client_fd_receive_def get_client_def)
  moreover have "safe \<dots> (\<lambda>q'. wf_qemud {} {} q' \<and> extra q' = extra q - 1)"
    using rest by (intro safe_bind [OF open_channel_safe [OF w]]) (auto simp only: prod.case split: prod.split)
  ultimately show ?thesis
    using False by simp
qed

section \<open>Packets from the serial port\<close>

lemma client_send_safe:
  assumes w: "wf_qemud {} {} q" and k: "q_clients q c = Some k"
  shows "safe (client_enqueue c p q) (\<lambda>q'. same_shape q q' \<and> extra q' = extra q - 1)"
proof -
  obtain f h where "cl_fdhandler k = Some f" "q_handlers q f = Some h"
    by (rule wf_client [OF w k]) auto
  with enqueue_safe [OF w this(2)] k show ?thesis
    by (simp add: client_enqueue_def get_client_def)
qed

lemma registration_safe:
  assumes w: "wf_qemud {} {} q" and k: "q_clients q c = Some k"
  shows "safe (client_registration c r q) (\<lambda>q'. wf_qemud {} {} q' \<and> extra q' = extra q)"
proof -
  let ?q = "snd (packet_alloc q)"
  let ?k = "if r then k\<lparr>cl_registered := r\<rparr> else k\<lparr>cl_registered := r, cl_channel := - 1\<rparr>"
  have w1: "wf_qemud {} {} ?q" and k1: "q_clients ?q c = Some k"
    using w k by auto
  have rest: "safe (bindE (get_client c q') (\<lambda>cl.
         let cl = cl\<lparr>cl_registered := r\<rparr>;
             cl = (if \<not> r then cl\<lparr>cl_channel := - 1\<rparr> else cl)
         in Inr (put_client c cl q'))) (\<lambda>q'. wf_qemud {} {} q' \<and> extra q' = extra q)"
    if "same_shape ?q q' \<and> extra q' = extra ?q - 1" for q'
  proof -
    have q': "q_clients q' = q_clients q" "wf_qemud {} {} q'" "extra q' = extra q"
      using that same_shape_wf [OF _ w1] by (auto simp: same_shape_def)
    then have cs: "clients_ok {} q'"
      by (simp add: wf_qemud_def)
    have "wf_qemud {} {} (put_client c ?k q')"
    proof (rule wf_put_client [OF q'(2)])
      show "q_clients q' c = Some k" using q'(1) k by simp
      then show "cl_channel ?k < 256" using cs by (auto simp: clients_ok_def)
      show "cl_channel dl \<noteq> cl_channel ?k" if "0 \<le> cl_channel ?k" "q_clients q' d = Some dl" "d \<noteq> c" for d dl
        using cs that k q'(1) unfolding clients_ok_def by (auto split: if_splits)
    qed simp
    with q' k show ?thesis
      by (cases r) (simp_all add: get_client_def Let_def)
  qed
  show ?thesis
    unfolding client_registration_def Let_def case_prod_beta
    by (rule safe_bind [OF client_send_safe [OF w1 k1]]) (use rest in \<open>simp add: Let_def\<close>)
qed

lemma handle_control_safe:
  assumes w: "wf_qemud {} {} q"
  shows "safe (multiplexer_handle_control p q) (\<lambda>q'. wf_qemud {} {} q' \<and> extra q' = extra q - 1)"
proof -
  have on_client: "safe (bindE (multiplexer_find_client ch q) (\<lambda>client.
      bindE (case client of None \<Rightarrow> Inr q | Some c \<Rightarrow> action c q) (\<lambda>q. Inr (packet_free q))))
      (\<lambda>q'. wf_qemud {} {} q' \<and> extra q' = extra q - 1)"
    if act: "\<And>c k. q_clients q c = Some k \<Longrightarrow> safe (action c q) (\<lambda>q'. wf_qemud {} {} q' \<and> extra q' = extra q)"
    for ch action
  proof (rule safe_bind [OF find_client_safe [OF w]])
    fix r assume r: "\<forall>c. r = Some c \<longrightarrow> c \<in> set (q_client_list q) \<and> (\<exists>k. q_clients q c = Some k \<and> cl_channel k = ch)"
    have "safe (case r of None \<Rightarrow> Inr q | Some c \<Rightarrow> action c q) (\<lambda>q'. wf_qemud {} {} q' \<and> extra q' = extra q)"
      using r w act by (auto split: option.split)
    then show "safe (bindE (case r of None \<Rightarrow> Inr q | Some c \<Rightarrow> action c q) (\<lambda>q. Inr (packet_free q)))
        (\<lambda>q'. wf_qemud {} {} q' \<and> extra q' = extra q - 1)"
      by (rule safe_bind) auto
  qed
  show ?thesis
    using on_client [of "\<lambda>c. client_registration c True", OF registration_safe [OF w]]
      on_client [of "\<lambda>c. client_registration c False", OF registration_safe [OF w]]
      on_client [of client_free, OF client_free_safe [OF w]] w
    by (simp add: multiplexer_handle_control_def Let_def)
qed

lemma mux_receive_safe:
  assumes w: "wf_qemud {} {} q"
  shows "safe (multiplexer_serial_receive p q) (\<lambda>q'. wf_qemud {} {} q' \<and> extra q' = extra q - 1)"
proof -
  have "safe (bindE (multiplexer_find_client ch q) (\<lambda>client.
      case client of Some c \<Rightarrow> client_send c p q | None \<Rightarrow> Inr (packet_free q)))
      (\<lambda>q'. wf_qemud {} {} q' \<and> extra q' = extra q - 1)" for ch
  proof (rule safe_bind [OF find_client_safe [OF w]])
    fix r assume r: "\<forall>c. r = Some c \<longrightarrow> c \<in> set (q_client_list q) \<and> (\<exists>k. q_clients q c = Some k \<and> cl_channel k = ch)"
    show "safe (case r of Some c \<Rightarrow> client_send c p q | None \<Rightarrow> Inr (packet_free q))
        (\<lambda>q'. wf_qemud {} {} q' \<and> extra q' = extra q - 1)"
    proof (cases r)
      case None
      with w show ?thesis by simp
    next
      case (Some c)
      with r obtain k where "q_clients q c = Some k" by auto
      have "safe (client_enqueue c p q) (\<lambda>q'. wf_qemud {} {} q' \<and> extra q' = extra q - 1)"
        by (rule safe_mono [OF client_send_safe [OF w \<open>q_clients q c = Some k\<close>]])
          (use same_shape_wf [OF _ w] in auto)
      with Some show ?thesis
        by (simp add: client_send_def)
    qed
  qed
  with handle_control_safe [OF w] show ?thesis
    by (simp add: multiplexer_serial_receive_def)
qed

text \<open>The reader keeps any property the receiver keeps.\<close>

lemma serial_rx_safe:
  assumes "serial_ok s" "I w" and post: "\<And>p w. I w \<Longrightarrow> safe (post p w) I"
  shows "safe (serial_rx post s bs w) (\<lambda>(s', w'). serial_ok s' \<and> I w')"
  using assms(1,2)
proof (induction bs arbitrary: s w)
  case Nil
  then show ?case by simp
next
  case (Cons b bs)
  have I: "safe (rx_chunk post s [b] w) (\<lambda>(s', w'). I w')"
  proof (cases "sr_in_channel s < 0")
    case True
    then show ?thesis
      using Cons.prems by (simp add: rx_chunk_def Let_def serial_ok_def)
  next
    case False
    then show ?thesis
      using Cons.prems
      by (auto simp: rx_chunk_def Let_def serial_ok_def intro!: safe_bind [OF post])
  qed
  have "safe (rx_chunk post s [b] w) (\<lambda>(s', w'). serial_ok s' \<and> I w')"
    using I rx_chunk_ok [OF Cons.prems(1), of post "[b]" w]
    by (cases "rx_chunk post s [b] w") auto
  then show ?case
    unfolding serial_rx_Cons [of post s b bs w] serial_rx_single
    by (rule safe_bind) (use Cons.IH in auto)
qed

lemma serial_receive_safe:
  assumes w: "wf_qemud {} {} q"
  shows "safe (serial_fd_receive multiplexer_serial_receive p q)
    (\<lambda>q'. wf_qemud {} {} q' \<and> extra q' = extra q - 1)"
proof -
  let ?I = "\<lambda>q'. wf_qemud {} {} q' \<and> extra q' = extra q"
  have post: "safe (bindE (multiplexer_serial_receive inp q') (\<lambda>q. Inr (snd (packet_alloc q)))) ?I"
    if "?I q'" for inp q'
    using that by (intro safe_bind [OF mux_receive_safe]) auto
  have ok: "serial_ok (q_serial q)"
    using w by (simp add: wf_qemud_def serial_handler_ok_def)
  have put: "wf_qemud {} {} (q'\<lparr>q_serial := s\<rparr>)" if "wf_qemud {} {} q'" "serial_ok s" for q' s
  proof (rule same_shape_wf [OF _ that(1)])
    show "same_shape q' (q'\<lparr>q_serial := s\<rparr>)"
      using that(2) by (auto simp: same_shape_def hook_keys_def hkey_def fun_eq_iff)
  qed
  show ?thesis
    unfolding serial_fd_receive_def
    by (rule safe_bind [OF serial_rx_safe [of _ ?I]]) (use ok w post put in auto)
qed

section \<open>A new client\<close>

lemma new_handler_fields:
  fixes q func fd r
  defines "q' \<equiv> snd (fdhandler_new_with func fd r q)"
  shows "fst (fdhandler_new_with func fd r q) = q_next_handler q"
    "q_handlers q' = (q_handlers q)(q_next_handler q \<mapsto>
       \<lparr>fh_fd = fd, fh_is_closing = False, fh_receiver = r, fh_out_pos = 0, fh_out = []\<rparr>)"
    "hkey q' = (hkey q)(q_next_handler q \<mapsto> (fd, False, r))"
    "hook_keys q' = hook_keys q @ [(fd, q_next_handler q, func, False)]"
    "looper_ok (q_looper q) \<Longrightarrow> fd \<notin> hook_fds (q_looper q) \<Longrightarrow> looper_ok (q_looper q')"
    "q_next_handler q' = q_next_handler q + 1"
    "q_active q' = q_next_handler q # q_active q" "q_closing q' = q_closing q"
    "q_clients q' = q_clients q" "q_next_client q' = q_next_client q"
    "q_client_list q' = q_client_list q" "q_serial q' = q_serial q"
    "q_serial_handler q' = q_serial_handler q" "pool_used q' = pool_used q"
    "hook_fds (q_looper q') = insert fd (hook_fds (q_looper q))"
proof -
  have keys: "map hook_key (lp_hooks (looper_enable (looper_add l fd func f) fd EPOLLIN)) =
      map hook_key (lp_hooks l) @ [(fd, f, func, False)]" for l f
    by (simp add: looper_keys looper_add_hooks hook_key_def)
  show "hook_keys q' = hook_keys q @ [(fd, q_next_handler q, func, False)]"
    unfolding q'_def fdhandler_new_with_def Let_def snd_conv hook_keys_def
    by (simp add: keys fdhandler_prepend_active_def put_handler_def)
  then have "map fst (hook_keys q') = map fst (hook_keys q) @ [fd]" by simp
  moreover have "map fst (hook_keys p) = map hook_fd (lp_hooks (q_looper p))" for p
    by (simp add: hook_keys_def hook_key_def)
  ultimately have "map hook_fd (lp_hooks (q_looper q')) = map hook_fd (lp_hooks (q_looper q)) @ [fd]"
    by simp
  then have "set (map hook_fd (lp_hooks (q_looper q'))) = set (map hook_fd (lp_hooks (q_looper q)) @ [fd])"
    by (rule arg_cong)
  then show "hook_fds (q_looper q') = insert fd (hook_fds (q_looper q))"
    by (simp add: hook_fds_def)
qed (auto simp: q'_def fdhandler_new_with_def Let_def fdhandler_prepend_active_def put_handler_def
    hkey_def handler_key_def fun_eq_iff pool_used_def looper_ok_add looper_ok_enable)

lemma wf_client_new:
  assumes w: "wf_qemud {} {} q" and fd: "0 \<le> fd" "fd \<notin> hook_fds (q_looper q)"
  shows "wf_qemud {} {} (client_new fd q)" "extra (client_new fd q) = extra q"
proof -
  let ?f = "q_next_handler q" and ?c = "q_next_client q"
  let ?k = "\<lparr>cl_channel = - 1, cl_registered = False, cl_fdhandler = Some ?f\<rparr>"
  let ?qa = "q\<lparr>q_next_client := ?c + 1\<rparr>"
  let ?qb = "snd (fdhandler_new_with Ev_fdhandler_event fd (client_recv ?c) ?qa)"
  let ?q = "client_new fd q"
  have q0: "q_handlers ?qa = q_handlers q" "hkey ?qa = hkey q" "hook_keys ?qa = hook_keys q" "q_looper ?qa = q_looper q"
    by (auto simp: hkey_def hook_keys_def)
  have "?q = put_client ?c ?k (?qb\<lparr>q_client_list := ?c # q_client_list ?qb\<rparr>)"
    by (simp add: client_new_def fdhandler_new_def Let_def case_prod_beta new_handler_fields)
  then have fields: "q_handlers ?q = (q_handlers q)(?f \<mapsto>
       \<lparr>fh_fd = fd, fh_is_closing = False, fh_receiver = client_recv ?c, fh_out_pos = 0, fh_out = []\<rparr>)"
    "hkey ?q = (hkey q)(?f \<mapsto> (fd, False, client_recv ?c))"
    "hook_keys ?q = hook_keys q @ [(fd, ?f, Ev_fdhandler_event, False)]"
    "q_looper ?q = q_looper ?qb"
    "q_next_handler ?q = ?f + 1" "q_active ?q = ?f # q_active q" "q_closing ?q = q_closing q"
    "q_clients ?q = (q_clients q)(?c \<mapsto> ?k)" "q_next_client ?q = ?c + 1"
    "q_client_list ?q = ?c # q_client_list q" "q_serial ?q = q_serial q"
    "q_serial_handler ?q = q_serial_handler q" "pool_used ?q = pool_used q"
    using new_handler_fields [where q = ?qa and func = Ev_fdhandler_event and fd = fd and r = "client_recv ?c"] q0
    by (simp_all add: hkey_def hook_keys_def fun_eq_iff) (simp_all add: pool_used_def)
  have hooks: "hooks_ok q" and lists: "lists_ok q" and cs: "clients_ok {} q" and ser: "serial_handler_ok q"
    using w by (simp_all add: wf_qemud_def)
  have lt: "g < ?f" if "hkey q g = Some (fd', cl, r)" for g fd' cl r
    using hooks that unfolding hooks_ok_def by blast
  then have new: "hkey q ?f = None"
    by (cases "hkey q ?f") auto
  have c_new: "q_clients q ?c = None"
    using cs by (cases "q_clients q ?c") (auto simp: clients_ok_def)
  have "looper_ok (q_looper ?q)"
    using hooks fd q0(4) new_handler_fields(5) [where q = ?qa and fd = fd] unfolding fields(4) hooks_ok_def by auto
  moreover have "g < ?f + 1 \<and> 0 \<le> fd' \<and> (\<exists>func. (fd', g, func, False) \<in> set (hook_keys ?q))"
    if "hkey ?q g = Some (fd', cl, r)" for g fd' cl r
  proof (cases "g = ?f")
    case True
    have "(fd, ?f, Ev_fdhandler_event, False) \<in> set (hook_keys ?q)"
      by (simp add: fields(3))
    with that fd True show ?thesis by (auto simp: fields(2))
  next
    case False
    with that have "hkey q g = Some (fd', cl, r)" by (simp add: fields)
    with hooks lt show ?thesis unfolding hooks_ok_def fields(3) by fastforce
  qed
  moreover have "\<exists>cl r. hkey ?q g = Some (fd', cl, r) \<and> (func = Ev_fdhandler_accept_event \<longleftrightarrow> r = control_recv)"
    if "(fd', g, func, False) \<in> set (hook_keys ?q)" for fd' g func
  proof (cases "(fd', g, func, False) \<in> set (hook_keys q)")
    case True
    with hooks obtain cl r where "hkey q g = Some (fd', cl, r)" "func = Ev_fdhandler_accept_event \<longleftrightarrow> r = control_recv"
      unfolding hooks_ok_def by blast
    with new show ?thesis by (auto simp: fields)
  next
    case False
    with that show ?thesis by (auto simp: fields)
  qed
  ultimately have "hooks_ok ?q"
    unfolding hooks_ok_def fields(5) by blast
  moreover have "lists_ok ?q"
    using lists new unfolding lists_ok_def fields(2,6,7) by auto
  moreover have "clients_ok {} ?q"
  proof -
    have "\<exists>f fd'. cl_fdhandler k = Some f \<and> hkey ?q f = Some (fd', False, client_recv c)"
      if "q_clients ?q c = Some k" for c k
    proof (cases "c = ?c")
      case True
      with that show ?thesis by (auto simp: fields)
    next
      case False
      with that obtain f fd' where f: "cl_fdhandler k = Some f" "hkey q f = Some (fd', False, client_recv c)"
        using wf_client_link [OF w, of c k] by (auto simp: fields)
      with new have "f \<noteq> ?f" by auto
      with f show ?thesis by (auto simp: fields)
    qed
    moreover have "cl_channel k < 256 \<and> c < ?c + 1" if "q_clients ?q c = Some k" for c k
      using that cs unfolding clients_ok_def fields(8) by (auto split: if_splits simp: less_SucI)
    moreover have "distinct (?c # q_client_list q)" "set (?c # q_client_list q) = dom (q_clients ?q)"
      using cs c_new by (auto simp: clients_ok_def fields(8))
    moreover have "c = d" if "q_clients ?q c = Some cl" "q_clients ?q d = Some dl" "0 \<le> cl_channel cl"
        "cl_channel cl = cl_channel dl" for c d cl dl
      using that cs unfolding clients_ok_def fields(8) by (auto split: if_splits)
    ultimately show ?thesis
      unfolding clients_ok_def fields(9,10) by auto
  qed
  moreover have "receivers_ok {} ?q"
    unfolding receivers_ok_def
  proof (intro allI impI)
    fix g fd' cl r assume g: "hkey ?q g = Some (fd', cl, r)"
    show "if cl then \<exists>c. r = orphan_recv c
         else r = serial_recv \<or> r = control_recv \<or>
              (\<exists>c k. r = client_recv c \<and> q_clients ?q c = Some k \<and> cl_fdhandler k = Some g)"
    proof (cases "g = ?f")
      case True
      have "q_clients ?q ?c = Some ?k" by (simp add: fields)
      with True g show ?thesis by (auto simp: fields(2))
    next
      case False
      with g have "hkey q g = Some (fd', cl, r)" by (simp add: fields)
      from receiversD [OF w this] c_new show ?thesis
        by (auto simp: fields split: if_splits)
    qed
  qed
  moreover have "serial_handler_ok ?q"
    using ser new by (cases "?f = 0") (auto simp: serial_handler_ok_def fields)
  ultimately show "wf_qemud {} {} ?q"
    by (simp add: wf_qemud_def)
  have "?f \<notin> set (q_active q @ q_closing q)"
    using lists new by (auto simp: lists_ok_def)
  then have "queued ?q = queued q"
    using sum_list_map_upd [of "q_active q @ q_closing q" "out_len (q_handlers q)" ?f 0] lists
    by (simp add: queued_def fields out_len_upd lists_ok_def)
  then show "extra ?q = extra q"
    by (simp add: extra_def fields)
qed

section \<open>The callbacks of the event loop\<close>

text \<open>
  What a callback needs beside the invariant: the hook belongs to a live handler;
  input is not reported on a handler that is being closed (its client is gone);
  input comes together with something else only when reading cannot destroy the
  handler, that is, not on a client that is still to be registered; and an accepted
  descriptor is one no hook uses.
\<close>

definition leaked :: "loop_hook \<Rightarrow> io \<Rightarrow> int" where
  "leaked h io = (if hook_func h = Ev_fdhandler_event \<and> hook_events h AND EPOLLIN \<noteq> 0 \<and> io_read io = Some []
     then 1 else 0)"

definition admissible :: "loop_hook \<Rightarrow> io \<Rightarrow> qemud \<Rightarrow> bool" where
  "admissible h io q \<longleftrightarrow>
     hook_key h \<in> set (hook_keys q) \<and> \<not> hook_closing h \<and>
     (case q_handlers q (hook_user h) of None \<Rightarrow> False | Some g \<Rightarrow>
        hook_events h AND EPOLLIN \<noteq> 0 \<longrightarrow>
          \<not> fh_is_closing g \<and>
          (hook_events h AND (EPOLLHUP OR EPOLLERR OR EPOLLOUT) \<noteq> 0 \<longrightarrow>
             (case rc_post (fh_receiver g) of
                Post_client c \<Rightarrow> (case q_clients q c of None \<Rightarrow> False | Some k \<Rightarrow> cl_registered k)
              | _ \<Rightarrow> True))) \<and>
     (case io_accept io of None \<Rightarrow> True | Some fd \<Rightarrow> 0 \<le> fd \<and> fd \<notin> hook_fds (q_looper q))"

lemma handler_read_safe:
  assumes w: "wf_qemud {} {} q" and h: "q_handlers q f = Some h" "\<not> fh_is_closing h"
    and r: "fh_receiver h \<noteq> control_recv"
  shows "safe (handler_read run_post f io q) (\<lambda>q'. wf_qemud {} {} q' \<and>
    extra q' = extra q + (if io_read io = Some [] then 1 else 0) \<and>
    ((\<forall>c k. fh_receiver h = client_recv c \<longrightarrow> q_clients q c = Some k \<longrightarrow> cl_registered k) \<longrightarrow>
       (\<exists>h'. q_handlers q' f = Some h')))"
proof -
  let ?q = "snd (packet_alloc q)"
  have wa: "wf_qemud {} {} ?q" and ea: "extra ?q = extra q + 1" and ca: "q_clients ?q = q_clients q"
    using w by auto
  have ha: "q_handlers ?q = q_handlers q"
    by (simp add: packet_alloc_def)
  have fr: "q_handlers (packet_free ?q) = q_handlers q"
    by (simp add: ha packet_free_def)
  note key = wf_handler(3) [OF w h(1)]
  have kinds: "fh_receiver h = serial_recv \<or>
      (\<exists>c k. fh_receiver h = client_recv c \<and> q_clients q c = Some k \<and> cl_fdhandler k = Some f)"
    using receiversD [OF w key] h(2) r by auto
  then have post: "rc_post (fh_receiver h) \<noteq> Post_none" by auto
  let ?P = "\<lambda>q'. wf_qemud {} {} q' \<and> extra q' = extra q \<and>
    ((\<forall>c k. fh_receiver h = client_recv c \<longrightarrow> q_clients q c = Some k \<longrightarrow> cl_registered k) \<longrightarrow>
       (\<exists>h'. q_handlers q' f = Some h'))"
  from kinds have "safe (run_post (rc_post (fh_receiver h)) p ?q) ?P" for p
  proof (elim disjE exE conjE)
    assume 1: "fh_receiver h = serial_recv"
    have "f = 0"
      using w key h(2) 1 unfolding wf_qemud_def serial_handler_ok_def by force
    then have "\<exists>h'. q_handlers q' f = Some h'" if "wf_qemud {} {} q'" for q'
      using wf_serial_handler [OF that] that by (simp add: wf_qemud_def serial_handler_ok_def)
    then have "safe (serial_fd_receive multiplexer_serial_receive p ?q) (\<lambda>q'. wf_qemud {} {} q' \<and> extra q' = extra q \<and>
        (\<exists>h'. q_handlers q' f = Some h'))" for p
      using ea by (intro safe_mono [OF serial_receive_safe [OF wa]]) auto
    with 1 show "safe (run_post (rc_post (fh_receiver h)) p ?q) ?P" by simp
  next
    fix c k assume 2: "fh_receiver h = client_recv c" "q_clients q c = Some k" "cl_fdhandler k = Some f"
    have "safe (client_fd_receive c p ?q) (\<lambda>q'. wf_qemud {} {} q' \<and> extra q' = extra q \<and>
        (cl_registered k \<longrightarrow> (\<exists>h'. q_handlers q' f = Some h')))" for p
    proof (rule safe_mono [OF client_receive_safe [OF wa]])
      show "q_clients ?q c = Some k" using 2 ca by simp
      fix q' assume q': "wf_qemud {} {} q' \<and> extra q' = extra ?q - 1 \<and> (cl_registered k \<longrightarrow> same_shape ?q q')"
      have "\<exists>h'. q_handlers q' f = Some h'" if "cl_registered k"
      proof -
        have "hkey q' = hkey ?q" using q' that by (simp add: same_shape_def)
        moreover have "hkey ?q = hkey q" using ha by (simp add: hkey_def fun_eq_iff)
        ultimately have "hkey q' f = Some (fh_fd h, fh_is_closing h, fh_receiver h)"
          using key by simp
        then show ?thesis by (auto dest: hkey_SomeD)
      qed
      with q' ea show "wf_qemud {} {} q' \<and> extra q' = extra q \<and>
          (cl_registered k \<longrightarrow> (\<exists>h'. q_handlers q' f = Some h'))" by simp
    qed
    with 2 show "safe (run_post (rc_post (fh_receiver h)) p ?q) ?P" by simp
  qed
  then show ?thesis
    using h wa ea ha fr post
    by (auto simp: handler_read_def get_handler_def Let_def case_prod_beta receiver_post_def
        split: option.split)
qed

text \<open>The part of \<open>fdhandler_event\<close> and \<open>fdhandler_accept_event\<close> after the input.\<close>

lemma close_or_write_safe:
  assumes w: "wf_qemud {} {} q" and h: "q_handlers q f = Some h"
  shows "safe (if hup then fdhandler_close run_close f q else if out then handler_write f io q else Inr q)
    (\<lambda>q'. wf_qemud {} {} q' \<and> extra q' = extra q)"
  using run_close_safe [OF w h] safe_mono [OF handler_write_safe [OF w h, of io]] same_shape_wf [OF _ w] w
  by auto

lemma event_bits:
  fixes e :: mask
  assumes "e AND (EPOLLHUP OR EPOLLERR OR EPOLLOUT) = 0"
  shows "e AND (EPOLLHUP OR EPOLLERR) = 0" "e AND EPOLLOUT = 0"
  using assms by (simp_all add: bit.conj_disj_distrib or_eq_0_iff)

lemma handler_event_safe:
  assumes w: "wf_qemud {} {} q" and h: "q_handlers q f = Some h" and r: "fh_receiver h \<noteq> control_recv"
    and cl: "e AND EPOLLIN \<noteq> 0 \<Longrightarrow> \<not> fh_is_closing h"
    and reg: "e AND EPOLLIN \<noteq> 0 \<Longrightarrow> e AND (EPOLLHUP OR EPOLLERR OR EPOLLOUT) \<noteq> 0 \<Longrightarrow>
      \<forall>c k. fh_receiver h = client_recv c \<longrightarrow> q_clients q c = Some k \<longrightarrow> cl_registered k"
  shows "safe (fdhandler_event run_post run_close f e io q) (\<lambda>q'. wf_qemud {} {} q' \<and>
    extra q' = extra q + (if e AND EPOLLIN \<noteq> 0 \<and> io_read io = Some [] then 1 else 0))"
proof (cases "e AND EPOLLIN = 0")
  case True
  with close_or_write_safe [OF w h] show ?thesis
    by (simp add: fdhandler_event_def)
next
  case False
  have after: "safe (if e AND (EPOLLHUP OR EPOLLERR) \<noteq> 0 then fdhandler_close run_close f q'
      else if e AND EPOLLOUT \<noteq> 0 then handler_write f io q' else Inr q')
      (\<lambda>q'. wf_qemud {} {} q' \<and> extra q' = extra q + (if e AND EPOLLIN \<noteq> 0 \<and> io_read io = Some [] then 1 else 0))"
    if q': "wf_qemud {} {} q' \<and> extra q' = extra q + (if io_read io = Some [] then 1 else 0) \<and>
      ((\<forall>c k. fh_receiver h = client_recv c \<longrightarrow> q_clients q c = Some k \<longrightarrow> cl_registered k) \<longrightarrow>
       (\<exists>h'. q_handlers q' f = Some h'))" for q'
  proof (cases "e AND (EPOLLHUP OR EPOLLERR OR EPOLLOUT) = 0")
    case True
    with q' False show ?thesis by (simp add: event_bits)
  next
    case ev: False
    then obtain h' where h': "q_handlers q' f = Some h'"
      using q' reg [OF False ev] by blast
    show ?thesis
      by (rule safe_mono [OF close_or_write_safe [OF conjunct1 [OF q'] h']]) (use q' False in auto)
  qed
  have eq: "fdhandler_event run_post run_close f e io q = bindE (handler_read run_post f io q) (\<lambda>q'.
      if e AND (EPOLLHUP OR EPOLLERR) \<noteq> 0 then fdhandler_close run_close f q'
      else if e AND EPOLLOUT \<noteq> 0 then handler_write f io q' else Inr q')"
    using False by (simp add: fdhandler_event_def)
  show ?thesis
    unfolding eq by (rule safe_bind [OF handler_read_safe [OF w h cl [OF False] r] after])
qed

lemma accept_event_safe:
  assumes w: "wf_qemud {} {} q" and h: "q_handlers q f = Some h" and r: "fh_receiver h = control_recv"
    and fd: "\<And>fd. io_accept io = Some fd \<Longrightarrow> 0 \<le> fd \<and> fd \<notin> hook_fds (q_looper q)"
  shows "safe (fdhandler_accept_event run_post run_close f e io q) (\<lambda>q'. wf_qemud {} {} q' \<and> extra q' = extra q)"
proof -
  let ?q = "snd (packet_alloc q)"
  have wa: "wf_qemud {} {} ?q"
    using w by simp
  have eq: "q_looper ?q = q_looper q" "q_handlers ?q = q_handlers q" "q_next_handler ?q = q_next_handler q"
    by (simp_all add: packet_alloc_def)
  have f: "f \<noteq> q_next_handler q"
    using wf_handler(2) [OF w h] by simp
  have handlers: "q_handlers (packet_free (client_new fd ?q)) f = Some h" for fd
    using h f eq
    by (simp add: client_new_def fdhandler_new_def Let_def case_prod_beta put_client_def packet_free_def
        new_handler_fields)
  have accept: "safe (bindE (receiver_post run_post (fh_receiver h) (p\<lparr>pk_data := d, pk_channel := fd\<rparr>) ?q)
      (\<lambda>q. if hup then fdhandler_close run_close f q else Inr q)) (\<lambda>q'. wf_qemud {} {} q' \<and> extra q' = extra q)"
    if "io_accept io = Some fd" for fd hup p d
  proof -
    let ?r = "packet_free (client_new fd ?q)"
    have wr: "wf_qemud {} {} ?r" "extra ?r = extra q"
      using wf_client_new [OF wa] fd [OF that] eq(1) by auto
    show ?thesis
      using r wr run_close_safe [OF wr(1) handlers]
      by (simp add: receiver_post_def multiplexer_control_accept_def)
  qed
  show ?thesis
    using w wa h run_close_safe [OF w h] accept [where hup = True] accept [where hup = False]
    by (auto simp: fdhandler_accept_event_def get_handler_def Let_def case_prod_beta split: option.split)
qed

lemma callback_safe_aux:
  assumes w: "wf_qemud {} {} q" and a: "admissible h io q"
  shows "safe (run_hook h io q) (\<lambda>q'. wf_qemud {} {} q' \<and> extra q' = extra q + leaked h io)"
proof -
  let ?f = "hook_user h"
  from a obtain g where g: "q_handlers q ?f = Some g"
    by (auto simp: admissible_def split: option.splits)
  note key = wf_handler(3) [OF w g]
  have "(hook_fd h, ?f, hook_func h, False) \<in> set (hook_keys q)"
    using a by (auto simp: admissible_def hook_key_def)
  then have func: "hook_func h = Ev_fdhandler_accept_event \<longleftrightarrow> fh_receiver g = control_recv"
    using w key unfolding wf_qemud_def hooks_ok_def by fastforce
  have in_ok: "\<not> fh_is_closing g" if "hook_events h AND EPOLLIN \<noteq> 0"
    using a g that by (simp add: admissible_def)
  have reg: "\<forall>c k. fh_receiver g = client_recv c \<longrightarrow> q_clients q c = Some k \<longrightarrow> cl_registered k"
    if "hook_events h AND EPOLLIN \<noteq> 0" "hook_events h AND (EPOLLHUP OR EPOLLERR OR EPOLLOUT) \<noteq> 0"
    using a g that by (auto simp: admissible_def)
  have fd: "0 \<le> fd \<and> fd \<notin> hook_fds (q_looper q)" if "io_accept io = Some fd" for fd
    using a that by (simp add: admissible_def)
  show ?thesis
  proof (cases "hook_func h")
    case Ev_fdhandler_event
    then show ?thesis
      using handler_event_safe [where e = "hook_events h" and io = io, OF w g _ in_ok reg] func
      by (simp add: run_hook_def leaked_def)
  next
    case Ev_fdhandler_accept_event
    then show ?thesis
      using accept_event_safe [where e = "hook_events h" and io = io, OF w g _ fd] func
      by (simp add: run_hook_def leaked_def)
  qed
qed

end
