(* ===== verification/Qemud_Daemon.thy ===== *)
theory Qemud_Daemon
  imports Qemud_Safety
begin

text \<open>
  The states \<open>qemud\<close> can be in: \<open>multiplexer_init\<close>, then rounds of
  \<open>looper_loop\<close> made of three kinds of steps (marking the hooks the kernel
  reported, one callback, removing the closed hooks). The invariant holds in all of
  them as long as every callback is admissible; the last section shows what happens
  in callbacks that are not.
\<close>

section \<open>The initial state\<close>

lemma serial_init_fields:
  fixes fd q
  defines "a \<equiv> snd (fdhandler_new_with Ev_fdhandler_event fd serial_recv q)" and "q' \<equiv> serial_init fd q"
  shows "q_next_handler q' = q_next_handler a" "q_handlers q' = q_handlers a" "hkey q' = hkey a"
    "hook_keys q' = hook_keys a" "q_looper q' = q_looper a" "q_active q' = q_active a"
    "q_closing q' = q_closing a" "q_clients q' = q_clients a" "q_next_client q' = q_next_client a"
    "q_client_list q' = q_client_list a" "pool_used q' = pool_used a + 1"
    "q_serial q' = \<lparr>sr_in = [], sr_in_datalen = 0, sr_in_channel = 0\<rparr>"
    "q_serial_handler q' = q_next_handler q"
proof -
  have q': "q' = snd (packet_alloc (a\<lparr>q_serial_handler := q_next_handler q,
      q_serial := \<lparr>sr_in = [], sr_in_datalen = 0, sr_in_channel = 0\<rparr>\<rparr>))"
    unfolding q'_def a_def serial_init_def fdhandler_new_def case_prod_beta
    by (simp add: new_handler_fields(1))
  show "q_next_handler q' = q_next_handler a" "q_handlers q' = q_handlers a"
    "hkey q' = hkey a" "hook_keys q' = hook_keys a" "q_looper q' = q_looper a" "q_active q' = q_active a"
    "q_closing q' = q_closing a" "q_clients q' = q_clients a" "q_next_client q' = q_next_client a"
    "q_client_list q' = q_client_list a"
    "q_serial q' = \<lparr>sr_in = [], sr_in_datalen = 0, sr_in_channel = 0\<rparr>"
    "q_serial_handler q' = q_next_handler q"
    unfolding q' by (auto simp: packet_alloc_def hkey_def hook_keys_def fun_eq_iff)
  show "pool_used q' = pool_used a + 1"
    unfolding q' packet_alloc_used by (simp add: pool_used_def)
qed

lemma multiplexer_init_fields:
  fixes s c
  defines "q \<equiv> multiplexer_init s c"
  shows "hkey q = [0 \<mapsto> (s, False, serial_recv), 1 \<mapsto> (c, False, control_recv)]"
    "hook_keys q = [(s, 0, Ev_fdhandler_event, False), (c, 1, Ev_fdhandler_accept_event, False)]"
    "s \<noteq> c \<Longrightarrow> looper_ok (q_looper q)"
    "q_next_handler q = 2" "q_active q = [1, 0]" "q_closing q = []"
    "q_clients q = Map.empty" "q_next_client q = 0" "q_client_list q = []"
    "q_serial q = \<lparr>sr_in = [], sr_in_datalen = 0, sr_in_channel = 0\<rparr>" "q_serial_handler q = 0"
    "extra q = 0"
proof -
  let ?a = "snd (fdhandler_new_with Ev_fdhandler_event s serial_recv (fdhandler_list_init empty_qemud))"
  let ?s = "serial_init s (fdhandler_list_init empty_qemud)"
  have e: "hkey (fdhandler_list_init empty_qemud) = Map.empty" "hook_keys (fdhandler_list_init empty_qemud) = []"
    "q_looper (fdhandler_list_init empty_qemud) = looper_init" "pool_used (fdhandler_list_init empty_qemud) = 0"
    "q_handlers (fdhandler_list_init empty_qemud) = Map.empty"
    "q_next_handler (fdhandler_list_init empty_qemud) = 0" "q_active (fdhandler_list_init empty_qemud) = []"
    "q_closing (fdhandler_list_init empty_qemud) = []" "q_clients (fdhandler_list_init empty_qemud) = Map.empty"
    "q_next_client (fdhandler_list_init empty_qemud) = 0" "q_client_list (fdhandler_list_init empty_qemud) = []"
    "hook_fds looper_init = {}"
    by (auto simp: fdhandler_list_init_def empty_qemud_def hkey_def hook_keys_def looper_init_def
        pool_used_def hook_fds_def)
  have a: "q_next_handler ?a = 1" "hkey ?a = [0 \<mapsto> (s, False, serial_recv)]"
    "hook_keys ?a = [(s, 0, Ev_fdhandler_event, False)]" "looper_ok (q_looper ?a)"
    "q_active ?a = [0]" "q_closing ?a = []" "q_clients ?a = Map.empty" "q_next_client ?a = 0"
    "q_client_list ?a = []" "pool_used ?a = 0" "hook_fds (q_looper ?a) = {s}"
    "q_handlers ?a = [0 \<mapsto> \<lparr>fh_fd = s, fh_is_closing = False, fh_receiver = serial_recv, fh_out_pos = 0, fh_out = []\<rparr>]"
    by (simp_all add: new_handler_fields e looper_ok_init)
  have s: "q_next_handler ?s = 1" "hkey ?s = hkey ?a" "hook_keys ?s = hook_keys ?a"
    "q_looper ?s = q_looper ?a" "q_active ?s = [0]" "q_closing ?s = []" "q_clients ?s = Map.empty"
    "q_next_client ?s = 0" "q_client_list ?s = []" "pool_used ?s = 1"
    "q_serial ?s = \<lparr>sr_in = [], sr_in_datalen = 0, sr_in_channel = 0\<rparr>" "q_serial_handler ?s = 0"
    "q_handlers ?s = q_handlers ?a"
    by (simp_all add: serial_init_fields a) (simp add: e)
  have q: "q = snd (fdhandler_new_with Ev_fdhandler_accept_event c control_recv ?s)"
    unfolding q_def multiplexer_init_def
    by (simp add: fdhandler_new_accept_def Let_def case_prod_beta)
      (simp add: new_handler_fields s qemud.equality)
  show "hkey q = [0 \<mapsto> (s, False, serial_recv), 1 \<mapsto> (c, False, control_recv)]"
    "hook_keys q = [(s, 0, Ev_fdhandler_event, False), (c, 1, Ev_fdhandler_accept_event, False)]"
    "s \<noteq> c \<Longrightarrow> looper_ok (q_looper q)"
    "q_next_handler q = 2" "q_active q = [1, 0]" "q_closing q = []"
    "q_clients q = Map.empty" "q_next_client q = 0" "q_client_list q = []"
    "q_serial q = \<lparr>sr_in = [], sr_in_datalen = 0, sr_in_channel = 0\<rparr>" "q_serial_handler q = 0"
    unfolding q by (simp_all add: new_handler_fields s a e looper_ok_init)
  show "extra q = 0"
    unfolding q extra_def queued_def
    by (simp add: new_handler_fields s a e out_len_def)
qed

lemma wf_multiplexer_init:
  assumes "0 \<le> s" "0 \<le> c" "s \<noteq> c"
  shows "wf_qemud {} {} (multiplexer_init s c)"
proof -
  let ?q = "multiplexer_init s c"
  have key: "hkey ?q f = Some (fd, cl, r) \<longleftrightarrow>
      f = 0 \<and> fd = s \<and> \<not> cl \<and> r = serial_recv \<or> f = 1 \<and> fd = c \<and> \<not> cl \<and> r = control_recv" for f fd cl r
    by (auto simp: multiplexer_init_fields)
  have "hooks_ok ?q"
    using assms unfolding hooks_ok_def key multiplexer_init_fields(2,4)
    by (auto simp: multiplexer_init_fields(3))
  moreover have "lists_ok ?q"
    unfolding lists_ok_def key multiplexer_init_fields(5,6) by auto
  moreover have "clients_ok {} ?q" "receivers_ok {} ?q"
    unfolding clients_ok_def receivers_ok_def key multiplexer_init_fields by auto
  moreover have "serial_handler_ok ?q"
    unfolding serial_handler_ok_def key multiplexer_init_fields(10,11)
    by (auto simp: serial_ok_def rx_wanted_def serial_consts)
  ultimately show ?thesis
    by (simp add: wf_qemud_def)
qed

section \<open>The event loop's own steps\<close>

lemma map_hooks_simps [simp]:
  "hkey (map_hooks g q) = hkey q" "extra (map_hooks g q) = extra q"
  "hook_keys (map_hooks g q) = map hook_key (g (lp_hooks (q_looper q)))"
  by (auto simp: map_hooks_def hkey_def fun_eq_iff extra_def queued_def pool_used_def hook_keys_def)

lemma epoll_of_cong:
  "map (\<lambda>h. (hook_fd h, hook_wanted h, hook_closing h)) hs = map (\<lambda>h. (hook_fd h, hook_wanted h, hook_closing h)) hs' \<Longrightarrow>
   epoll_of hs = epoll_of hs'"
proof -
  assume a: "map (\<lambda>h. (hook_fd h, hook_wanted h, hook_closing h)) hs = map (\<lambda>h. (hook_fd h, hook_wanted h, hook_closing h)) hs'"
  have idx: "hook_index hs fd = hook_index hs' fd" for fd
    using map_eq_imp_length_eq [OF a] a by (induction hs hs' rule: list_induct2) auto
  have "hook_wanted (hs ! i) = hook_wanted (hs' ! i) \<and> hook_closing (hs ! i) = hook_closing (hs' ! i)"
    if "i < length hs" for i
    using arg_cong [OF a, of "\<lambda>xs. xs ! i"] map_eq_imp_length_eq [OF a] that by simp
  then show ?thesis
    using idx map_eq_imp_length_eq [OF a]
    by (auto simp: epoll_of_def fun_eq_iff split: option.split dest!: hook_index_Some)
qed

text \<open>A change of states and events that keeps every closing flag.\<close>

lemma same_shape_map_hooks:
  assumes "map (\<lambda>h. (hook_key h, hook_wanted h)) (g (lp_hooks (q_looper q))) =
    map (\<lambda>h. (hook_key h, hook_wanted h)) (lp_hooks (q_looper q))"
  shows "same_shape q (map_hooks g q)"
proof -
  let ?hs = "lp_hooks (q_looper q)"
  have keys: "map hook_key (g ?hs) = map hook_key ?hs"
    using arg_cong [OF assms, of "map fst"] by (simp add: comp_def)
  have "map (\<lambda>h. (hook_fd h, hook_wanted h, hook_closing h)) (g ?hs) =
      map (\<lambda>h. (hook_fd h, hook_wanted h, hook_closing h)) ?hs"
    using arg_cong [OF assms, of "map (\<lambda>((fd, _, _, c), w). (fd, w, c))"]
    by (simp add: comp_def hook_key_def)
  then have ep: "epoll_of (g ?hs) = epoll_of ?hs"
    by (rule epoll_of_cong)
  have fds: "map hook_fd (g ?hs) = map hook_fd ?hs"
    using arg_cong [OF keys, of "map fst"] by (simp add: comp_def hook_key_def)
  have "length (g ?hs) = length ?hs"
    using arg_cong [OF keys, of length] by simp
  with ep fds keys show ?thesis
    by (auto simp: same_shape_def hook_keys_def map_hooks_def looper_ok_def num_fds_def hkey_def
        fun_eq_iff)
qed

lemma mark_pending_keys:
  "\<forall>h \<in> set hs. \<not> hook_closing h \<Longrightarrow>
   map (\<lambda>h. (hook_key h, hook_wanted h)) (mark_pending evs hs) = map (\<lambda>h. (hook_key h, hook_wanted h)) hs"
proof (induction evs hs rule: mark_pending.induct)
  case (1 hs)
  then show ?case by simp
next
  case (2 i events evs hs)
  show ?case
  proof (cases "i < length hs")
    case True
    then have "\<not> hook_closing (hs ! i)"
      using 2 by simp
    then have "map (\<lambda>h. (hook_key h, hook_wanted h)) (hs[i := mark_hook events (hs ! i)]) =
        map (\<lambda>h. (hook_key h, hook_wanted h)) hs"
      using True
      by (simp add: map_update mark_hook_def hook_key_def list_update_same_conv)
    moreover have "\<forall>h \<in> set (hs[i := mark_hook events (hs ! i)]). \<not> hook_closing h"
      using 2 True by (auto simp: mark_hook_def dest!: set_update_subset_insert [THEN subsetD])
    ultimately show ?thesis
      using 2 True by simp
  next
    case False
    with 2 show ?thesis by simp
  qed
qed

definition clear_pending :: "loop_hook \<Rightarrow> loop_hook" where
  "clear_pending h = h\<lparr>hook_state := hook_state h AND NOT HOOK_PENDING\<rparr>"

lemma clear_pending_key [simp]:
  "hook_key (clear_pending h) = hook_key h" "hook_wanted (clear_pending h) = hook_wanted h"
proof -
  have "(x AND NOT HOOK_PENDING) AND HOOK_CLOSING = x AND HOOK_CLOSING" for x
    by (simp add: hook_bit_defs and.assoc)
  then show "hook_key (clear_pending h) = hook_key h"
    by (simp add: hook_key_def clear_pending_def hook_closing_def)
qed (simp add: clear_pending_def)

lemma clear_pending_shape:
  "n < length (lp_hooks (q_looper q)) \<Longrightarrow> h = lp_hooks (q_looper q) ! n \<Longrightarrow>
   same_shape q (map_hooks (\<lambda>hs. hs[n := clear_pending h]) q)"
  by (rule same_shape_map_hooks) (simp add: map_update list_update_same_conv)

lemma reap_wf:
  assumes w: "wf_qemud X Y q"
  defines "q' \<equiv> q\<lparr>q_looper := looper_reap (q_looper q)\<rparr>"
  shows "wf_qemud X Y q'" "extra q' = extra q" "\<forall>h \<in> set (lp_hooks (q_looper q')). \<not> hook_closing h"
proof -
  have ok: "looper_ok (q_looper q)"
    using w by (simp add: wf_qemud_def hooks_ok_def)
  note reap = looper_reap_ok [OF ok]
  show "extra q' = extra q" "\<forall>h \<in> set (lp_hooks (q_looper q')). \<not> hook_closing h"
    using reap(2) by (simp_all add: q'_def)
  have "set (lp_hooks (looper_reap (q_looper q))) = {h \<in> set (lp_hooks (q_looper q)). \<not> hook_closing h}"
    using arg_cong [OF reap(3), of set_mset] by simp
  then have keys: "(fd, f, func, False) \<in> set (hook_keys q') \<longleftrightarrow> (fd, f, func, False) \<in> set (hook_keys q)" for fd f func
    by (auto simp: hook_keys_def q'_def hook_key_def)
  have h: "hkey q' = hkey q"
    by (simp add: hkey_def q'_def fun_eq_iff)
  have eqs: "q_next_handler q' = q_next_handler q"
    "q_active q' = q_active q" "q_closing q' = q_closing q" "q_clients q' = q_clients q"
    "q_next_client q' = q_next_client q" "q_client_list q' = q_client_list q"
    "q_serial_handler q' = q_serial_handler q" "q_serial q' = q_serial q"
    by (simp_all add: q'_def)
  have "looper_ok (q_looper q')"
    using reap(1) by (simp add: q'_def)
  with w show "wf_qemud X Y q'"
    unfolding wf_defs keys h eqs by (elim conjE, intro conjI) assumption+
qed

section \<open>Reachable states\<close>

text \<open>
  \<open>daemon_reach s c n q\<close>: from the start with serial descriptor \<open>s\<close> and control
  descriptor \<open>c\<close>, \<open>q\<close> is reached by admissible callbacks, \<open>n\<close> of which read zero bytes.
\<close>

inductive daemon_reach :: "int \<Rightarrow> int \<Rightarrow> int \<Rightarrow> qemud \<Rightarrow> bool" for s c where
  start: "0 \<le> s \<Longrightarrow> 0 \<le> c \<Longrightarrow> s \<noteq> c \<Longrightarrow> daemon_reach s c 0 (multiplexer_init s c)"
| poll: "daemon_reach s c n q \<Longrightarrow> \<forall>h \<in> set (lp_hooks (q_looper q)). \<not> hook_closing h \<Longrightarrow>
    daemon_reach s c n (map_hooks (mark_pending evs) q)"
| callback: "daemon_reach s c n q \<Longrightarrow> i < num_fds (q_looper q) \<Longrightarrow>
    h = clear_pending (lp_hooks (q_looper q) ! i) \<Longrightarrow>
    q1 = map_hooks (\<lambda>hs. hs[i := h]) q \<Longrightarrow>
    admissible h io q1 \<Longrightarrow> run_hook h io q1 = Inr q2 \<Longrightarrow> daemon_reach s c (n + leaked h io) q2"
| remove: "daemon_reach s c n q \<Longrightarrow>
    daemon_reach s c n (q\<lparr>q_looper := looper_reap (q_looper q)\<rparr>)"

lemma reach_wf: "daemon_reach s c n q \<Longrightarrow> wf_qemud {} {} q \<and> extra q = n"
proof (induction rule: daemon_reach.induct)
  case start
  then show ?case
    by (simp add: wf_multiplexer_init multiplexer_init_fields)
next
  case (poll n q evs)
  then show ?case
    using same_shape_wf [OF same_shape_map_hooks [where g = "mark_pending evs" and q = q]] mark_pending_keys by simp
next
  case (callback n q i h q1 io q2)
  then have "wf_qemud {} {} q1" "extra q1 = n"
    using same_shape_wf [OF clear_pending_shape [OF _ refl]] by (auto simp: num_fds_def)
  with callback_safe_aux [OF this(1) callback.hyps(5)] callback.hyps(6) show ?case
    by (simp add: callback.IH)
next
  case (remove n q)
  then show ?case
    using reap_wf by blast
qed

section \<open>Runs\<close>

text \<open>Rounds of the event loop: what the kernel reports, and what the system calls return.\<close>

fun run_rounds :: "((nat \<times> mask) list \<times> (nat \<Rightarrow> io)) list \<Rightarrow> qemud \<Rightarrow> fault + qemud" where
  "run_rounds [] q = Inr q"
| "run_rounds ((evs, ios) # rs) q =
     bindE (looper_round (num_fds (q_looper q) + 2) evs ios q) (run_rounds rs)"

definition faults :: "fault \<Rightarrow> fault + 'a \<Rightarrow> bool" where
  "faults e m \<longleftrightarrow> (case m of Inl e' \<Rightarrow> e' = e | Inr _ \<Rightarrow> False)"

definition no_io :: io where
  "no_io = \<lparr>io_read = None, io_write = None, io_accept = None\<rparr>"

definition reads :: "bytes \<Rightarrow> io" where
  "reads bs = no_io\<lparr>io_read := Some bs\<rparr>"

definition accepts :: "int \<Rightarrow> io" where
  "accepts fd = no_io\<lparr>io_accept := Some fd\<rparr>"

text \<open>A client connects as descriptor 5, asks for a service and is given channel 1.\<close>

definition connect_rounds :: "((nat \<times> mask) list \<times> (nat \<Rightarrow> io)) list" where
  "connect_rounds =
     [([(1, EPOLLIN)], \<lambda>_. accepts 5), ([(2, EPOLLIN)], \<lambda>_. reads ''gsm'')]"

definition register_round :: "(nat \<times> mask) list \<times> (nat \<Rightarrow> io)" where
  "register_round = ([(0, EPOLLIN)], \<lambda>_. reads ''00000dok:connect:01'')"

section \<open>What holds in every reachable state\<close>




text \<open>C23: Every packet taken from the pool is accounted for between callbacks: it is on the
  queue of a handler, it is the serial reader's current packet, or it was lost in
  one of the \<open>n\<close> callbacks whose \<open>read\<close> returned zero bytes.\<close>

theorem daemon_packets_accounted:
  assumes "daemon_reach s c n q"
  shows "pool_used q = queued q + 1 + n"
  using reach_wf [OF assms] by (simp add: extra_def)

theorem daemon_packets_accounted_witness:
  "pool_used (multiplexer_init 3 4) = queued (multiplexer_init 3 4) + 1 + 0"
  by (rule daemon_packets_accounted [OF daemon_reach.start]) simp_all





section \<open>What happens in callbacks that are not admissible\<close>

text \<open>The emulator disconnects a client whose reply is still queued; its handler waits
  on the closing list with the \<open>post\<close> function of the freed client, and the next byte
  the client's socket delivers is handed to it. Without that byte the run is fine.\<close>

theorem closing_handler_use_after_free:
  "let run = connect_rounds @ [register_round, ([(0, EPOLLIN)], \<lambda>_. reads ''00000ddisconnect:01'')]
   in \<not> faults UseAfterFree (run_rounds run (multiplexer_init 3 4)) \<and>
      faults UseAfterFree
        (run_rounds (run @ [([(2, EPOLLIN)], \<lambda>_. reads ''AT'')]) (multiplexer_init 3 4))"
  by code_simp

text \<open>A client that sends again before the emulator answered is dropped inside the input
  part of \<open>fdhandler_event\<close>, which then goes on with the freed handler when the kernel
  reported a hang-up in the same event.\<close>

theorem unregistered_hangup_use_after_free:
  "\<not> faults UseAfterFree (run_rounds (connect_rounds @ [([(2, EPOLLIN)], \<lambda>_. reads ''AT'')])
      (multiplexer_init 3 4)) \<and>
   faults UseAfterFree (run_rounds (connect_rounds @ [([(2, EPOLLIN OR EPOLLHUP)], \<lambda>_. reads ''AT'')])
      (multiplexer_init 3 4))"
  by code_simp

definition mask_of :: "int \<Rightarrow> fault + qemud \<Rightarrow> mask option" where
  "mask_of fd m = (case m of Inl _ \<Rightarrow> None | Inr q \<Rightarrow> map_option fst (lp_epoll (q_looper q) fd))"

text \<open>When a client's descriptor is closed and handed out again by \<open>accept\<close> in the same
  round, \<open>looper_enable\<close> finds the closed hook: the new client stays registered with an
  empty mask. A descriptor that was not in use gets \<open>EPOLLIN\<close>.\<close>

theorem reused_descriptor_is_deaf:
  "let run = \<lambda>fd. connect_rounds @
       [([(0, EPOLLIN), (1, EPOLLIN)], \<lambda>i. if i = 0 then reads ''00000ddisconnect:01'' else accepts fd)]
   in mask_of 5 (run_rounds (run 5) (multiplexer_init 3 4)) = Some 0 \<and>
      mask_of 6 (run_rounds (run 6) (multiplexer_init 3 4)) = Some EPOLLIN"
  by code_simp

end
