(* ===== verification/Qemud_Streams.thy ===== *)
theory Qemud_Streams
  imports Qemud_Daemon
begin

text \<open>
  Two functional results of \<open>qemud.c\<close>: a handler's output queue is a byte stream
  (\<open>fdhandler_enqueue\<close>, the output part of \<open>fdhandler_event\<close>), and which channel
  \<open>multiplexer_open_channel\<close> gives to a client.
\<close>

section \<open>The output queue is a byte stream\<close>

text \<open>The abstract state of a handler's output: the bytes still to be written.\<close>

definition pending_bytes :: "fdhandler \<Rightarrow> bytes" where
  "pending_bytes h = drop (fh_out_pos h) (concat (map pk_data (fh_out h)))"

text \<open>The position lies inside the first packet, and an empty queue has position 0.\<close>

definition out_ok :: "fdhandler \<Rightarrow> bool" where
  "out_ok h \<longleftrightarrow> (case fh_out h of [] \<Rightarrow> fh_out_pos h = 0 | p # _ \<Rightarrow> fh_out_pos h \<le> pk_len p)"

definition handler_of :: "nat \<Rightarrow> qemud \<Rightarrow> fdhandler" where
  "handler_of f q = the (q_handlers q f)"

text \<open>A history of pushes (\<open>Inl\<close>) and pulls (\<open>Inr\<close>) of a queue with operations \<open>push\<close> and
  \<open>pull\<close>: the queue it leaves, the bytes that came out, the bytes that went in. A pull
  takes at most the \<open>avail\<close> bytes one call can take.\<close>

fun stream_run :: "('p \<Rightarrow> 'h \<Rightarrow> 'h) \<Rightarrow> (nat \<Rightarrow> 'h \<Rightarrow> 'h) \<Rightarrow> ('h \<Rightarrow> nat) \<Rightarrow> ('p + nat) list \<Rightarrow> 'h \<Rightarrow> 'h" where
  "stream_run push pull avail [] h = h"
| "stream_run push pull avail (Inl p # os) h = stream_run push pull avail os (push p h)"
| "stream_run push pull avail (Inr n # os) h = stream_run push pull avail os (pull (min n (avail h)) h)"

fun stream_outputs ::
  "('h \<Rightarrow> 'b list) \<Rightarrow> ('p \<Rightarrow> 'h \<Rightarrow> 'h) \<Rightarrow> (nat \<Rightarrow> 'h \<Rightarrow> 'h) \<Rightarrow> ('h \<Rightarrow> nat) \<Rightarrow> ('p + nat) list \<Rightarrow> 'h \<Rightarrow> 'b list" where
  "stream_outputs content push pull avail [] h = []"
| "stream_outputs content push pull avail (Inl p # os) h =
     stream_outputs content push pull avail os (push p h)"
| "stream_outputs content push pull avail (Inr n # os) h =
     take (min n (avail h)) (content h) @
     stream_outputs content push pull avail os (pull (min n (avail h)) h)"

fun stream_inputs :: "('p \<Rightarrow> 'b list) \<Rightarrow> ('p + nat) list \<Rightarrow> 'b list" where
  "stream_inputs bytes_of [] = []"
| "stream_inputs bytes_of (Inl p # os) = bytes_of p @ stream_inputs bytes_of os"
| "stream_inputs bytes_of (Inr n # os) = stream_inputs bytes_of os"

text \<open>The abstract stream: bytes go in at the end and come out at the front.\<close>

locale byte_stream =
  fixes content :: "'h \<Rightarrow> 'b list" and ok :: "'h \<Rightarrow> bool"
    and push :: "'p \<Rightarrow> 'h \<Rightarrow> 'h" and bytes_of :: "'p \<Rightarrow> 'b list"
    and pull :: "nat \<Rightarrow> 'h \<Rightarrow> 'h" and avail :: "'h \<Rightarrow> nat"
  assumes push_ok: "ok h \<Longrightarrow> ok (push p h)"
    and push_content: "ok h \<Longrightarrow> content (push p h) = content h @ bytes_of p"
    and pull_ok: "ok h \<Longrightarrow> n \<le> avail h \<Longrightarrow> ok (pull n h)"
    and pull_content: "ok h \<Longrightarrow> n \<le> avail h \<Longrightarrow> content (pull n h) = drop n (content h)"
begin

lemma fifo:
  "ok h \<Longrightarrow> stream_outputs content push pull avail os h @ content (stream_run push pull avail os h) =
    content h @ stream_inputs bytes_of os"
proof (induction os arbitrary: h)
  case Nil
  then show ?case by simp
next
  case (Cons a os)
  then show ?case
    by (cases a) (simp_all add: push_ok push_content pull_ok pull_content)
qed

end

text \<open>What \<open>fdhandler_enqueue\<close> and the output part of \<open>fdhandler_event\<close> do to a handler.\<close>

definition push_packet :: "packet \<Rightarrow> fdhandler \<Rightarrow> fdhandler" where
  "push_packet p h =
     (if fh_out h = [] then h\<lparr>fh_out := fh_out h @ [p], fh_out_pos := 0\<rparr> else h\<lparr>fh_out := fh_out h @ [p]\<rparr>)"

definition pull_bytes :: "nat \<Rightarrow> fdhandler \<Rightarrow> fdhandler" where
  "pull_bytes n h =
     (case fh_out h of
        [] \<Rightarrow> h
      | p # rest \<Rightarrow>
          if fh_out_pos h + n \<ge> pk_len p then h\<lparr>fh_out_pos := 0, fh_out := rest\<rparr>
          else h\<lparr>fh_out_pos := fh_out_pos h + n\<rparr>)"

definition first_bytes :: "fdhandler \<Rightarrow> nat" where
  "first_bytes h = (case fh_out h of [] \<Rightarrow> 0 | p # _ \<Rightarrow> pk_len p - fh_out_pos h)"

interpretation out_queue: byte_stream pending_bytes out_ok push_packet pk_data pull_bytes first_bytes
proof
  fix h :: fdhandler and p :: packet and n :: nat
  assume ok: "out_ok h"
  show "out_ok (push_packet p h)"
    using ok by (cases "fh_out h") (auto simp: out_ok_def push_packet_def)
  show "pending_bytes (push_packet p h) = pending_bytes h @ pk_data p"
    using ok by (cases "fh_out h") (auto simp: out_ok_def push_packet_def pending_bytes_def pk_len_def)
  assume n: "n \<le> first_bytes h"
  show "out_ok (pull_bytes n h)"
    using ok n by (cases "fh_out h") (auto simp: out_ok_def pull_bytes_def split: list.split)
  show "pending_bytes (pull_bytes n h) = drop n (pending_bytes h)"
    using ok n by (cases "fh_out h")
      (auto simp: out_ok_def pull_bytes_def pending_bytes_def first_bytes_def pk_len_def add.commute)
qed

text \<open>The daemon's operations are these, with the bytes taken off written to the descriptor.\<close>

lemma enqueue_push:
  assumes "q_handlers q f = Some h"
  shows "\<exists>q'. fdhandler_enqueue f p q = Inr q' \<and> q_handlers q' = (q_handlers q)(f \<mapsto> push_packet p h) \<and>
    q_effects q' = q_effects q"
  using assms
  by (auto simp: fdhandler_enqueue_def get_handler_def put_handler_def Let_def push_packet_def)

lemma write_pull:
  assumes "q_handlers q f = Some h" "fh_out h \<noteq> []" "io_write io = Some n" "n \<le> first_bytes h"
  shows "\<exists>q'. handler_write f io q = Inr q' \<and> q_handlers q' = (q_handlers q)(f \<mapsto> pull_bytes n h) \<and>
    q_effects q' = q_effects q @ [Wrote (fh_fd h) (take n (pending_bytes h))]"
  using assms
  by (cases "fh_out h")
    (auto simp: handler_write_def get_handler_def put_handler_def Let_def pull_bytes_def add_effect_def
      packet_free_def pending_bytes_def first_bytes_def pk_len_def)



text \<open>One \<open>EPOLLOUT\<close> callback on a handler with queued packets, when the kernel takes \<open>n\<close>
  bytes of the first packet, writes exactly the next \<open>n\<close> pending bytes to the
  handler's descriptor and leaves the rest pending; enqueueing appends.\<close>

theorem handler_output_refines:
  assumes "q_handlers q f = Some h" "out_ok h" "fh_out h \<noteq> []"
    and "io_write io = Some n" "n \<le> first_bytes h"
  shows "(\<exists>q'. handler_write f io q = Inr q' \<and> out_ok (handler_of f q') \<and>
      q_effects q' = q_effects q @ [Wrote (fh_fd h) (take n (pending_bytes h))] \<and>
      pending_bytes (handler_of f q') = drop n (pending_bytes h)) \<and>
    (\<exists>q'. fdhandler_enqueue f p q = Inr q' \<and> out_ok (handler_of f q') \<and>
      pending_bytes (handler_of f q') = pending_bytes h @ pk_data p)"
  using write_pull [OF assms(1,3,4,5)] enqueue_push [OF assms(1), of p] assms
  by (auto simp: handler_of_def out_queue.pull_ok out_queue.pull_content out_queue.push_ok
      out_queue.push_content)

theorem handler_output_refines_witness:
  "let h = \<lparr>fh_fd = 5, fh_is_closing = False, fh_receiver = client_recv 0, fh_out_pos = 1,
            fh_out = [\<lparr>pk_data = ''abc'', pk_channel = 1\<rparr>]\<rparr>;
       q = empty_qemud\<lparr>q_handlers := [7 \<mapsto> h]\<rparr>;
       io = no_io\<lparr>io_write := Some 2\<rparr>;
       p = new_packet\<lparr>pk_data := ''x''\<rparr>
   in (\<exists>q'. handler_write 7 io q = Inr q' \<and> out_ok (handler_of 7 q') \<and>
      q_effects q' = q_effects q @ [Wrote (fh_fd h) (take 2 (pending_bytes h))] \<and>
      pending_bytes (handler_of 7 q') = drop 2 (pending_bytes h)) \<and>
    (\<exists>q'. fdhandler_enqueue 7 p q = Inr q' \<and> out_ok (handler_of 7 q') \<and>
      pending_bytes (handler_of 7 q') = pending_bytes h @ pk_data p)"
  unfolding Let_def
  by (rule handler_output_refines) (simp_all add: out_ok_def pk_len_def first_bytes_def no_io_def)

section \<open>Channels\<close>

text \<open>The low byte of \<open>last_channel\<close>: the next channel to be tried is the one after it.\<close>

definition low_byte :: "32 word \<Rightarrow> int" where
  "low_byte w = uint (w AND 0xff)"

lemma low_byte_mod: "low_byte w = uint w mod 256"
proof -
  have "low_byte w = uint w AND 255"
    by (simp add: low_byte_def uint_and)
  then show ?thesis
    using and_15_mod take_bit_eq_mask [of 8 "uint w"] by (simp add: take_bit_eq_mod mask_eq_exp_minus_1)
qed

lemma low_byte_inc: "low_byte (w + 1) = (low_byte w + 1) mod 256"
proof -
  have "uint (w + 1) mod 256 = (uint w + 1) mod 256"
    by (simp add: uint_word_ariths mod_mod_cancel)
  then show ?thesis
    by (simp add: low_byte_mod mod_simps)
qed

lemma low_byte_step: "(low_byte (lc + 1) + 1 + int k) mod 256 = (low_byte lc + 1 + int (Suc k)) mod 256"
proof -
  have "(low_byte (lc + 1) + 1 + int k) mod 256 = ((low_byte lc + 1) mod 256 + (1 + int k)) mod 256"
    by (simp add: low_byte_inc add.assoc)
  also have "\<dots> = (low_byte lc + 1 + (1 + int k)) mod 256"
    by (rule mod_add_left_eq)
  finally show ?thesis
    by (simp add: add.assoc)
qed

text \<open>The loop gives the first channel after \<open>last_channel\<close>, cyclically, that is free.\<close>

lemma try_channels_first:
  "try_channels n used lc = Inr (ch, lc') \<longleftrightarrow>
   (\<exists>k < n. ch = (low_byte lc + 1 + int k) mod 256 \<and> lc' = lc + 1 + of_nat k \<and> ch \<notin> set used \<and>
      (\<forall>j < k. (low_byte lc + 1 + int j) mod 256 \<in> set used))"
proof (induction n arbitrary: lc)
  case 0
  then show ?case by simp
next
  case (Suc n)
  note step = low_byte_step [of lc]
  have first: "uint ((lc + 1) AND 0xff) = (low_byte lc + 1) mod 256"
    using low_byte_inc [of lc] by (simp add: low_byte_def)
  show ?case
  proof (cases "(low_byte lc + 1) mod 256 \<in> set used")
    case True
    have "try_channels (Suc n) used lc = Inr (ch, lc') \<longleftrightarrow>
        (\<exists>k < n. ch = (low_byte lc + 1 + int (Suc k)) mod 256 \<and> lc' = lc + 1 + of_nat (Suc k) \<and>
          ch \<notin> set used \<and> (\<forall>j < k. (low_byte lc + 1 + int (Suc j)) mod 256 \<in> set used))"
    proof -
      have "try_channels (Suc n) used lc = try_channels n used (lc + 1)"
        using True by (simp add: first Let_def)
      moreover have "lc + 1 + 1 + of_nat k = lc + 1 + of_nat (Suc k)" for k
        by simp
      ultimately show ?thesis
        using Suc.IH [of "lc + 1"] by (simp only: step)
    qed
    also have "\<dots> \<longleftrightarrow> (\<exists>k < Suc n. ch = (low_byte lc + 1 + int k) mod 256 \<and> lc' = lc + 1 + of_nat k \<and>
          ch \<notin> set used \<and> (\<forall>j < k. (low_byte lc + 1 + int j) mod 256 \<in> set used))"
      using True by (auto simp: Ex_less_Suc2 All_less_Suc2)
    finally show ?thesis .
  next
    case False
    have "(\<forall>j < k. (low_byte lc + 1 + int j) mod 256 \<in> set used) \<longleftrightarrow> k = 0" for k
      using False by (cases k) auto
    then show ?thesis
      using False by (auto simp: first Let_def)
  qed
qed

lemma try_channels_Hang:
  "try_channels n used lc = Inl e \<longleftrightarrow>
   e = Hang \<and> (\<forall>k < n. (low_byte lc + 1 + int k) mod 256 \<in> set used)"
proof (induction n arbitrary: lc)
  case 0
  then show ?case by auto
next
  case (Suc n)
  note step = low_byte_step [of lc]
  have first: "uint ((lc + 1) AND 0xff) = (low_byte lc + 1) mod 256"
    using low_byte_inc [of lc] by (simp add: low_byte_def)
  show ?case
    using Suc.IH [of "lc + 1"] step by (auto simp: first Let_def All_less_Suc2)
qed

lemma cycle_256: "(\<forall>k < 256. (b + 1 + int k) mod 256 \<in> A) \<longleftrightarrow> {0..<256} \<subseteq> A"
proof
  assume a: "\<forall>k < 256. (b + 1 + int k) mod 256 \<in> A"
  show "{0..<256} \<subseteq> A"
  proof
    fix x :: int assume x: "x \<in> {0..<256}"
    let ?k = "nat ((x - b - 1) mod 256)"
    have "(b + 1 + int ?k) mod 256 = x"
      using x by (simp add: mod_simps)
    moreover have "?k < 256"
      by (simp add: nat_less_iff)
    ultimately show "x \<in> A"
      using a by metis
  qed
next
  assume "{0..<256} \<subseteq> A"
  then show "\<forall>k < 256. (b + 1 + int k) mod 256 \<in> A"
    by (auto simp: subset_iff)
qed

definition used_channels :: "qemud \<Rightarrow> int set" where
  "used_channels q = {cl_channel k |c k. c \<in> set (q_client_list q) \<and> q_clients q c = Some k}"

lemma used_channels_eq:
  assumes "set (q_client_list q) \<subseteq> dom (q_clients q)"
  shows "used_channels q = set (map (\<lambda>c. cl_channel (the (q_clients q c))) (q_client_list q))"
  using assms by (force simp: used_channels_def)

lemma open_channel_eq:
  assumes "set (q_client_list q) \<subseteq> dom (q_clients q)"
  shows "multiplexer_open_channel p q = bindE
    (try_channels 256 (map (\<lambda>c. cl_channel (the (q_clients q c))) (q_client_list q)) (q_last_channel q))
    (\<lambda>(channel, lc). let r = snd (packet_alloc q)\<lparr>q_last_channel := lc\<rparr>;
          (out, len) = snprintf MAX_PAYLOAD (connect_message (pk_data p) (nat channel))
      in if len \<ge> MAX_PAYLOAD then Inr (- 1, packet_free r)
         else bindE (serial_send (fst (packet_alloc q)\<lparr>pk_data := out, pk_channel := CHANNEL_CONTROL\<rparr>) r) (\<lambda>r.
                Inr (channel, r)))"
proof -
  have eq: "q_clients (snd (packet_alloc q)) = q_clients q" "q_client_list (snd (packet_alloc q)) = q_client_list q"
    "q_last_channel (snd (packet_alloc q)) = q_last_channel q"
    by (simp_all add: packet_alloc_def)
  show ?thesis
    using assms
    by (simp add: multiplexer_open_channel_def Let_def case_prod_beta eq client_channels_eq)
qed

lemma enqueue_not_Hang: "fdhandler_enqueue f p q \<noteq> Inl Hang"
  by (auto simp: fdhandler_enqueue_def get_handler_def deref_def Let_def split: option.split)

lemma serial_send_not_Hang: "serial_send p q \<noteq> Inl Hang"
  using enqueue_not_Hang by (auto simp: serial_send_def Let_def case_prod_beta bindE_eq_Inl)

text \<open>C34: Opening a channel loops forever exactly when every one of the 256 channel numbers is
  some client's: the loop \<open>TRY_AGAIN\<close> of \<open>multiplexer_open_channel\<close> has no other end.\<close>

theorem open_channel_terminates_iff:
  assumes "set (q_client_list q) \<subseteq> dom (q_clients q)"
  shows "multiplexer_open_channel p q = Inl Hang \<longleftrightarrow> {0..<256} \<subseteq> used_channels q"
proof -
  let ?used = "map (\<lambda>c. cl_channel (the (q_clients q c))) (q_client_list q)"
  have "multiplexer_open_channel p q = Inl Hang \<longleftrightarrow> try_channels 256 ?used (q_last_channel q) = Inl Hang"
    unfolding open_channel_eq [OF assms]
    using serial_send_not_Hang
    by (auto simp: bindE_eq_Inl Let_def case_prod_beta split: if_splits)
  also have "\<dots> \<longleftrightarrow> (\<forall>k < 256. (low_byte (q_last_channel q) + 1 + int k) mod 256 \<in> used_channels q)"
    by (simp add: try_channels_Hang used_channels_eq [OF assms])
  finally show ?thesis
    by (simp only: cycle_256)
qed

theorem open_channel_terminates_iff_witness:
  "multiplexer_open_channel new_packet (multiplexer_init 3 4) = Inl Hang \<longleftrightarrow>
     {0..<256} \<subseteq> used_channels (multiplexer_init 3 4)"
  by (rule open_channel_terminates_iff) (simp add: multiplexer_init_fields)

text \<open>The channel a client is given is the first one after \<open>last_channel\<close>, counting modulo
  256, that no client has; so channel 0, which is the control channel, is given out
  once the counter wraps.\<close>

theorem open_channel_first_free:
  assumes "set (q_client_list q) \<subseteq> dom (q_clients q)"
    and "multiplexer_open_channel p q = Inr (ch, q')" "0 \<le> ch"
  shows "\<exists>k < 256. ch = (low_byte (q_last_channel q) + 1 + int k) mod 256 \<and> ch \<notin> used_channels q \<and>
    set (map (\<lambda>j. (low_byte (q_last_channel q) + 1 + int j) mod 256) [0..<k]) \<subseteq> used_channels q"
proof -
  let ?used = "map (\<lambda>c. cl_channel (the (q_clients q c))) (q_client_list q)"
  obtain lc where "try_channels 256 ?used (q_last_channel q) = Inr (ch, lc)"
    using assms(2,3) unfolding open_channel_eq [OF assms(1)]
    by (auto simp: bindE_eq_Inr Let_def case_prod_beta split: if_splits)
  then show ?thesis
    unfolding try_channels_first used_channels_eq [OF assms(1)] by auto
qed

definition wrapped_qemud :: qemud where
  "wrapped_qemud = (multiplexer_init 3 4)\<lparr>q_last_channel := 255\<rparr>"

lemma wrapped_open:
  "map_sum id fst (multiplexer_open_channel new_packet wrapped_qemud) = Inr 0"
  by code_simp

theorem open_channel_first_free_witness:
  "\<exists>k < 256. 0 = (low_byte (q_last_channel wrapped_qemud) + 1 + int k) mod 256 \<and>
     0 \<notin> used_channels wrapped_qemud \<and>
     set (map (\<lambda>j. (low_byte (q_last_channel wrapped_qemud) + 1 + int j) mod 256) [0..<k])
       \<subseteq> used_channels wrapped_qemud"
proof -
  obtain q' where "multiplexer_open_channel new_packet wrapped_qemud = Inr (0, q')"
    using wrapped_open by (cases "multiplexer_open_channel new_packet wrapped_qemud") auto
  from open_channel_first_free [OF _ this] show ?thesis
    by (simp add: wrapped_qemud_def multiplexer_init_fields)
qed

end
