(* ===== verification/Interfaces.thy ===== *)
theory Interfaces
  imports Prelude
begin

text \<open>
  The interfaces that several components of the development provide or use: stores
  of values by key.
\<close>

section \<open>Stores\<close>

text \<open>What a client of a store relies on: a lookup after an update.\<close>

locale map_store =
  fixes lookup :: "'s \<Rightarrow> 'k \<Rightarrow> 'v option" and update :: "'k \<Rightarrow> 'v \<Rightarrow> 's \<Rightarrow> 's" and inv :: "'s \<Rightarrow> bool"
  assumes inv_update: "inv s \<Longrightarrow> inv (update k v s)"
    and lookup_update: "inv s \<Longrightarrow> lookup (update k v s) = (lookup s)(k \<mapsto> v)"
begin

lemma inv_updates: "inv s \<Longrightarrow> inv (fold (\<lambda>(k, v). update k v) kvs s)"
  by (induction kvs arbitrary: s) (auto simp: inv_update)

text \<open>A list of updates is the map that the reversed list describes: the last one wins.\<close>

lemma lookup_updates:
  "inv s \<Longrightarrow> lookup (fold (\<lambda>(k, v). update k v) kvs s) = lookup s ++ map_of (rev kvs)"
proof (induction kvs arbitrary: s)
  case Nil
  then show ?case by simp
next
  case (Cons kv kvs)
  obtain k v where kv: "kv = (k, v)" by (cases kv)
  have "lookup (fold (\<lambda>(k, v). update k v) (kv # kvs) s) = lookup (update k v s) ++ map_of (rev kvs)"
    using Cons by (simp add: kv inv_update)
  also have "\<dots> = lookup s ++ map_of (rev (kv # kvs))"
    using Cons.prems by (simp add: kv lookup_update map_add_assoc [symmetric] map_add_upd_left)
  finally show ?case .
qed

lemma update_shadow: "inv s \<Longrightarrow> lookup (update k w (update k v s)) = lookup (update k w s)"
  by (simp add: lookup_update inv_update)

lemma update_commute:
  "inv s \<Longrightarrow> j \<noteq> k \<Longrightarrow> lookup (update j w (update k v s)) = lookup (update k v (update j w s))"
  by (simp add: lookup_update inv_update fun_upd_twist)

end

text \<open>A store from which a key can be removed.\<close>

locale map_store_del = map_store lookup update inv
  for lookup :: "'s \<Rightarrow> 'k \<Rightarrow> 'v option" and update :: "'k \<Rightarrow> 'v \<Rightarrow> 's \<Rightarrow> 's" and inv :: "'s \<Rightarrow> bool" +
  fixes delete :: "'k \<Rightarrow> 's \<Rightarrow> 's"
  assumes inv_delete: "inv s \<Longrightarrow> inv (delete k s)"
    and lookup_delete: "inv s \<Longrightarrow> lookup (delete k s) = (lookup s)(k := None)"
begin

lemma delete_update: "inv s \<Longrightarrow> lookup (delete k (update k v s)) = lookup (delete k s)"
  by (simp add: lookup_delete lookup_update inv_update)

lemma delete_absent: "inv s \<Longrightarrow> lookup s k = None \<Longrightarrow> lookup (delete k s) = lookup s"
  by (simp add: lookup_delete fun_upd_idem)

end

section \<open>Tables\<close>

text \<open>What a reader of a finished table relies on: for the keys that may be asked for, a
  lookup gives what the table stands for.\<close>

locale lookup_table =
  fixes lookup :: "'m \<Rightarrow> 'k \<Rightarrow> 'v option" and abs :: "'m \<Rightarrow> 'k \<rightharpoonup> 'v"
    and ok :: "'m \<Rightarrow> bool" and legal :: "'k \<Rightarrow> bool"
  assumes lookup_abs: "ok m \<Longrightarrow> legal k \<Longrightarrow> lookup m k = abs m k"
begin

lemma same_table: "ok m \<Longrightarrow> ok m' \<Longrightarrow> abs m = abs m' \<Longrightarrow> legal k \<Longrightarrow> lookup m k = lookup m' k"
  by (simp add: lookup_abs)

lemma found: "ok m \<Longrightarrow> legal k \<Longrightarrow> abs m k = Some v \<Longrightarrow> lookup m k = Some v"
  by (simp add: lookup_abs)

end

end
