(* ===== verification/Log_Filter.thy ===== *)
theory Log_Filter
  imports Interfaces
begin

text \<open>
  The filters of \<open>logprint.c\<close>: priorities, the list of rules of an
  \<open>AndroidLogFormat\<close>, the parser of filter expressions, and the decision whether a
  line is printed.

  A C string is the list of its bytes before the NUL; \<open>c_char\<close> reads the NUL too.
\<close>

section \<open>C strings\<close>

definition c_char :: "bytes \<Rightarrow> nat \<Rightarrow> char" where
  "c_char s i = (if i < length s then s ! i else NUL)"

definition strcspn :: "bytes \<Rightarrow> bytes \<Rightarrow> nat" where
  "strcspn s reject = length (takeWhile (\<lambda>c. c \<notin> set reject) s)"

text \<open>\<open>strncmp(s, t, n) == 0\<close>\<close>

definition strncmp_eq :: "bytes \<Rightarrow> bytes \<Rightarrow> nat \<Rightarrow> bool" where
  "strncmp_eq s t n \<longleftrightarrow> take n (s @ [NUL]) = take n (t @ [NUL])"

text \<open>The tokens that repeated calls of \<open>strsep\<close> return: the fields between delimiters.\<close>

fun strsep_tokens :: "bytes \<Rightarrow> bytes \<Rightarrow> bytes list" where
  "strsep_tokens delim [] = [[]]"
| "strsep_tokens delim (c # s) =
     (if c \<in> set delim then [] # strsep_tokens delim s
      else case strsep_tokens delim s of [] \<Rightarrow> [[c]] | t # ts \<Rightarrow> (c # t) # ts)"

definition tolower_char :: "char \<Rightarrow> char" where
  "tolower_char c =
     (if byte_val CHR ''A'' \<le> byte_val c \<and> byte_val c \<le> byte_val CHR ''Z''
      then byte_of (byte_val c + 32) else c)"

section \<open>Priorities\<close>

datatype log_priority =
    LOG_UNKNOWN | LOG_DEFAULT | LOG_VERBOSE | LOG_DEBUG | LOG_INFO | LOG_WARN | LOG_ERROR
  | LOG_FATAL | LOG_SILENT

fun pri_val :: "log_priority \<Rightarrow> int" where
  "pri_val LOG_UNKNOWN = 0"
| "pri_val LOG_DEFAULT = 1"
| "pri_val LOG_VERBOSE = 2"
| "pri_val LOG_DEBUG = 3"
| "pri_val LOG_INFO = 4"
| "pri_val LOG_WARN = 5"
| "pri_val LOG_ERROR = 6"
| "pri_val LOG_FATAL = 7"
| "pri_val LOG_SILENT = 8"

text \<open>The enumeration is ordered by its values.\<close>

instantiation log_priority :: linorder
begin

definition less_eq_log_priority :: "log_priority \<Rightarrow> log_priority \<Rightarrow> bool" where
  "less_eq_log_priority p q \<longleftrightarrow> pri_val p \<le> pri_val q"

definition less_log_priority :: "log_priority \<Rightarrow> log_priority \<Rightarrow> bool" where
  "less_log_priority p q \<longleftrightarrow> pri_val p < pri_val q"

instance
proof
  fix p q r :: log_priority
  show "p < q \<longleftrightarrow> p \<le> q \<and> \<not> q \<le> p" "p \<le> p" "p \<le> q \<or> q \<le> p"
    by (auto simp: less_eq_log_priority_def less_log_priority_def)
  show "p \<le> q \<Longrightarrow> q \<le> r \<Longrightarrow> p \<le> r"
    by (simp add: less_eq_log_priority_def)
  show "p \<le> q \<Longrightarrow> q \<le> p \<Longrightarrow> p = q"
    by (cases p; cases q) (simp_all add: less_eq_log_priority_def)
qed

end

text \<open>The conversion \<open>(android_LogPriority)(c - '0')\<close>.\<close>

definition pri_of_digit :: "int \<Rightarrow> log_priority" where
  "pri_of_digit d =
     (if d = 0 then LOG_UNKNOWN else if d = 1 then LOG_DEFAULT else if d = 2 then LOG_VERBOSE
      else if d = 3 then LOG_DEBUG else if d = 4 then LOG_INFO else if d = 5 then LOG_WARN
      else if d = 6 then LOG_ERROR else LOG_FATAL)"

definition filterCharToPri :: "char \<Rightarrow> log_priority" where
  "filterCharToPri c0 =
     (let c = tolower_char c0 in
      if byte_val CHR ''0'' \<le> byte_val c \<and> byte_val c \<le> byte_val CHR ''9''
      then if byte_val c \<ge> byte_val CHR ''0'' + pri_val LOG_SILENT then LOG_VERBOSE
           else pri_of_digit (byte_val c - byte_val CHR ''0'')
      else if c = CHR ''v'' then LOG_VERBOSE
      else if c = CHR ''d'' then LOG_DEBUG
      else if c = CHR ''i'' then LOG_INFO
      else if c = CHR ''w'' then LOG_WARN
      else if c = CHR ''e'' then LOG_ERROR
      else if c = CHR ''f'' then LOG_FATAL
      else if c = CHR ''s'' then LOG_SILENT
      else if c = CHR ''*'' then LOG_DEFAULT
      else LOG_UNKNOWN)"

text \<open>The priority of an entry is the byte of the wire format, so any number.\<close>

definition filterPriToChar :: "int \<Rightarrow> char" where
  "filterPriToChar pri =
     (if pri = pri_val LOG_VERBOSE then CHR ''V''
      else if pri = pri_val LOG_DEBUG then CHR ''D''
      else if pri = pri_val LOG_INFO then CHR ''I''
      else if pri = pri_val LOG_WARN then CHR ''W''
      else if pri = pri_val LOG_ERROR then CHR ''E''
      else if pri = pri_val LOG_FATAL then CHR ''F''
      else if pri = pri_val LOG_SILENT then CHR ''S''
      else CHR ''?'')"

section \<open>The format and its rules\<close>

datatype print_format =
    FORMAT_OFF | FORMAT_BRIEF | FORMAT_PROCESS | FORMAT_TAG | FORMAT_THREAD | FORMAT_RAW
  | FORMAT_TIME | FORMAT_THREADTIME | FORMAT_LONG

record log_format =
  lf_global_pri :: log_priority
  lf_filters :: "(bytes \<times> log_priority) list"
  lf_format :: print_format

definition android_log_format_new :: log_format where
  "android_log_format_new =
     \<lparr>lf_global_pri = LOG_VERBOSE, lf_filters = [], lf_format = FORMAT_BRIEF\<rparr>"

definition android_log_setPrintFormat :: "log_format \<Rightarrow> print_format \<Rightarrow> log_format" where
  "android_log_setPrintFormat fmt f = fmt\<lparr>lf_format := f\<rparr>"

definition android_log_formatFromString :: "bytes \<Rightarrow> print_format" where
  "android_log_formatFromString s =
     (if s = ''brief'' then FORMAT_BRIEF
      else if s = ''process'' then FORMAT_PROCESS
      else if s = ''tag'' then FORMAT_TAG
      else if s = ''thread'' then FORMAT_THREAD
      else if s = ''raw'' then FORMAT_RAW
      else if s = ''time'' then FORMAT_TIME
      else if s = ''threadtime'' then FORMAT_THREADTIME
      else if s = ''long'' then FORMAT_LONG
      else FORMAT_OFF)"

fun filter_loop :: "log_priority \<Rightarrow> (bytes \<times> log_priority) list \<Rightarrow> bytes \<Rightarrow> log_priority" where
  "filter_loop global [] tag = global"
| "filter_loop global ((t, p) # fs) tag =
     (if tag = t then (if p = LOG_DEFAULT then global else p) else filter_loop global fs tag)"

definition filterPriForTag :: "log_format \<Rightarrow> bytes \<Rightarrow> log_priority" where
  "filterPriForTag fmt tag = filter_loop (lf_global_pri fmt) (lf_filters fmt) tag"

definition android_log_shouldPrintLine :: "log_format \<Rightarrow> bytes \<Rightarrow> int \<Rightarrow> bool" where
  "android_log_shouldPrintLine fmt tag pri \<longleftrightarrow> pri \<ge> pri_val (filterPriForTag fmt tag)"

definition filterinfo_new :: "bytes \<Rightarrow> log_priority \<Rightarrow> bytes \<times> log_priority" where
  "filterinfo_new tag pri = (tag, pri)"

text \<open>None is the result -1; the format is then unchanged.\<close>

definition android_log_addFilterRule :: "log_format \<Rightarrow> bytes \<Rightarrow> log_format option" where
  "android_log_addFilterRule fmt expr =
     (let n = strcspn expr '':'';
          pri = (if c_char expr n = CHR '':'' then filterCharToPri (c_char expr (n + 1)) else LOG_DEFAULT)
      in if n = 0 then None
         else if c_char expr n = CHR '':'' \<and> pri = LOG_UNKNOWN then None
         else if strncmp_eq ''*'' expr n
         then Some (fmt\<lparr>lf_global_pri := (if pri = LOG_DEFAULT then LOG_DEBUG else pri)\<rparr>)
         else Some (fmt\<lparr>lf_filters :=
                filterinfo_new (take n expr) (if pri = LOG_DEFAULT then LOG_VERBOSE else pri) # lf_filters fmt\<rparr>))"

text \<open>The rules before a bad one stay; False is the result -1.\<close>

fun add_filter_tokens :: "log_format \<Rightarrow> bytes list \<Rightarrow> bool \<times> log_format" where
  "add_filter_tokens fmt [] = (True, fmt)"
| "add_filter_tokens fmt (t # ts) =
     (if c_char t 0 \<noteq> NUL
      then case android_log_addFilterRule fmt t of
             None \<Rightarrow> (False, fmt)
           | Some fmt' \<Rightarrow> add_filter_tokens fmt' ts
      else add_filter_tokens fmt ts)"

definition android_log_addFilterString :: "log_format \<Rightarrow> bytes \<Rightarrow> bool \<times> log_format" where
  "android_log_addFilterString fmt s = add_filter_tokens fmt (strsep_tokens [SPC, TAB, CHR '',''] s)"

section \<open>The tests of the source\<close>

text \<open>\<open>logprint_run_tests\<close>: the rules it adds and the assertions it makes, in order.\<close>

definition add_rule :: "bytes \<Rightarrow> log_format \<Rightarrow> log_format" where
  "add_rule expr fmt = (case android_log_addFilterRule fmt expr of None \<Rightarrow> fmt | Some f \<Rightarrow> f)"

definition logprint_run_tests :: bool where
  "logprint_run_tests \<longleftrightarrow>
    (let tag = ''random''; prints = (\<lambda>f t p. android_log_shouldPrintLine f t (pri_val p));
         f1 = add_rule ''*:i'' android_log_format_new; f2 = add_rule ''*'' f1;
         f3 = add_rule ''*:v'' f2; f4 = add_rule ''*:i'' f3; f5 = add_rule ''random'' f4;
         f6 = add_rule ''random:v'' f5; f7 = add_rule ''random:d'' f6; f8 = add_rule ''random:w'' f7;
         f9 = add_rule ''crap:*'' f8; f10 = add_rule ''random:z'' f9;
         (ok1, f11) = android_log_addFilterString f10 '' '';
         (ok2, f12) = android_log_addFilterString f11 ''*:s random:d '';
         (ok3, f13) = android_log_addFilterString f12 ''*:s random:z''
     in filterPriForTag f1 tag = LOG_INFO \<and> \<not> prints f1 tag LOG_DEBUG \<and>
        filterPriForTag f2 tag = LOG_DEBUG \<and> prints f2 tag LOG_DEBUG \<and>
        filterPriForTag f3 tag = LOG_VERBOSE \<and> prints f3 tag LOG_DEBUG \<and>
        filterPriForTag f4 tag = LOG_INFO \<and> \<not> prints f4 tag LOG_DEBUG \<and>
        filterPriForTag f5 tag = LOG_VERBOSE \<and> prints f5 tag LOG_DEBUG \<and>
        filterPriForTag f6 tag = LOG_VERBOSE \<and> prints f6 tag LOG_DEBUG \<and>
        filterPriForTag f7 tag = LOG_DEBUG \<and> prints f7 tag LOG_DEBUG \<and>
        filterPriForTag f8 tag = LOG_WARN \<and> \<not> prints f8 tag LOG_DEBUG \<and>
        filterPriForTag f9 ''crap'' = LOG_VERBOSE \<and> prints f9 ''crap'' LOG_VERBOSE \<and>
        android_log_addFilterRule f9 ''random:z'' = None \<and>
        filterPriForTag f10 tag = LOG_WARN \<and> \<not> prints f10 tag LOG_DEBUG \<and>
        ok1 \<and> filterPriForTag f11 tag = LOG_WARN \<and>
        ok2 \<and> filterPriForTag f12 tag = LOG_DEBUG \<and>
        \<not> ok3)"

text \<open>Every assertion of the source's own \<open>logprint_run_tests\<close> holds of the model.\<close>

theorem logprint_tests_pass: "logprint_run_tests"
  by code_simp

section \<open>What a list of rules means\<close>

text \<open>The abstract state of the filters: a default, and a priority for some tags.\<close>

definition filter_abs :: "log_format \<Rightarrow> log_priority \<times> (bytes \<rightharpoonup> log_priority)" where
  "filter_abs fmt = (lf_global_pri fmt, map_of (lf_filters fmt))"

definition rule_pri :: "log_priority \<Rightarrow> char \<Rightarrow> log_priority" where
  "rule_pri d c = (if filterCharToPri c = LOG_DEFAULT then d else filterCharToPri c)"

definition spec_rule ::
  "bytes \<times> char \<Rightarrow> log_priority \<times> (bytes \<rightharpoonup> log_priority) \<Rightarrow> log_priority \<times> (bytes \<rightharpoonup> log_priority)" where
  "spec_rule = (\<lambda>(tag, c) (g, m).
     if tag = ''*'' then (rule_pri LOG_DEBUG c, m) else (g, m(tag \<mapsto> rule_pri LOG_VERBOSE c)))"

definition spec_pri :: "log_priority \<times> (bytes \<rightharpoonup> log_priority) \<Rightarrow> bytes \<Rightarrow> log_priority" where
  "spec_pri = (\<lambda>(g, m) tag. case m tag of None \<Rightarrow> g | Some p \<Rightarrow> if p = LOG_DEFAULT then g else p)"

definition rule_text :: "bytes \<times> char \<Rightarrow> bytes" where
  "rule_text = (\<lambda>(tag, c). tag @ [CHR '':'', c])"

definition rules_text :: "(bytes \<times> char) list \<Rightarrow> bytes" where
  "rules_text rules = concat (map (\<lambda>r. rule_text r @ [SPC]) rules)"

definition rule_ok :: "bytes \<times> char \<Rightarrow> bool" where
  "rule_ok = (\<lambda>(tag, c). tag \<noteq> [] \<and> set tag \<inter> {CHR '':'', NUL, SPC, TAB, CHR '',''} = {} \<and>
     filterCharToPri c \<noteq> LOG_UNKNOWN)"

lemma filterPriForTag_abs: "filterPriForTag fmt tag = spec_pri (filter_abs fmt) tag"
proof -
  have "filter_loop g fs tag = spec_pri (g, map_of fs) tag" for g fs
    by (induction g fs tag rule: filter_loop.induct) (auto simp: spec_pri_def)
  then show ?thesis
    by (simp add: filterPriForTag_def filter_abs_def)
qed

text \<open>Adding a rule to the list is an update of the map it stands for.\<close>

definition set_tag_pri :: "bytes \<Rightarrow> log_priority \<Rightarrow> log_format \<Rightarrow> log_format" where
  "set_tag_pri tag p fmt = fmt\<lparr>lf_filters := filterinfo_new tag p # lf_filters fmt\<rparr>"

interpretation log_filters: map_store "\<lambda>fmt. map_of (lf_filters fmt)" set_tag_pri "\<lambda>_. True"
  by unfold_locales (simp_all add: set_tag_pri_def filterinfo_new_def fun_eq_iff)

lemma strncmp_star:
  assumes "tag \<noteq> []" "NUL \<notin> set tag"
  shows "strncmp_eq ''*'' (tag @ s) (length tag) \<longleftrightarrow> tag = ''*''"
proof (cases tag)
  case Nil
  with assms show ?thesis by simp
next
  case (Cons c cs)
  with assms show ?thesis
    by (cases cs) (auto simp: strncmp_eq_def)
qed

lemma strcspn_tag: "CHR '':'' \<notin> set tag \<Longrightarrow> strcspn (tag @ CHR '':'' # s) '':'' = length tag"
proof -
  assume "CHR '':'' \<notin> set tag"
  then have "takeWhile (\<lambda>c. c \<notin> set '':'') (tag @ CHR '':'' # s) = tag"
    by (induction tag) auto
  then show ?thesis by (simp add: strcspn_def)
qed

lemma addFilterRule_text:
  assumes "rule_ok (tag, c)"
  shows "\<exists>f. android_log_addFilterRule fmt (rule_text (tag, c)) = Some f \<and>
    filter_abs f = spec_rule (tag, c) (filter_abs fmt)"
proof -
  have n: "strcspn (rule_text (tag, c)) '':'' = length tag"
    using assms by (auto simp: rule_ok_def rule_text_def intro: strcspn_tag)
  have star: "strncmp_eq ''*'' (rule_text (tag, c)) (length tag) \<longleftrightarrow> tag = ''*''"
    unfolding rule_text_def prod.case by (rule strncmp_star) (use assms in \<open>auto simp: rule_ok_def\<close>)
  have ch: "c_char (rule_text (tag, c)) (length tag) = CHR '':''"
    "c_char (rule_text (tag, c)) (length tag + 1) = c"
    by (simp_all add: c_char_def rule_text_def nth_append)
  have tk: "take (length tag) (rule_text (tag, c)) = tag"
    by (simp add: rule_text_def)
  show ?thesis
    using assms unfolding android_log_addFilterRule_def n Let_def star ch tk
    by (auto simp: rule_ok_def filter_abs_def spec_rule_def rule_pri_def filterinfo_new_def)
qed

lemma strsep_plain: "set s \<inter> set delim = {} \<Longrightarrow> strsep_tokens delim s = [s]"
  by (induction delim s rule: strsep_tokens.induct) auto

lemma strsep_nonempty [simp]: "strsep_tokens delim s \<noteq> []"
  by (induction delim s rule: strsep_tokens.induct) (auto split: list.split)

lemma strsep_append:
  "d \<in> set delim \<Longrightarrow> strsep_tokens delim (s @ d # r) = strsep_tokens delim s @ strsep_tokens delim r"
proof (induction s)
  case Nil
  then show ?case by simp
next
  case (Cons c s)
  then show ?case
    by (cases "strsep_tokens delim s") auto
qed

lemma rule_char_no_delim: "filterCharToPri c \<noteq> LOG_UNKNOWN \<Longrightarrow> c \<notin> {SPC, TAB, CHR '',''}"
  by (auto simp: filterCharToPri_def tolower_char_def Let_def pri_of_digit_def)

lemma add_rules:
  "list_all rule_ok rules \<Longrightarrow>
   \<exists>f. android_log_addFilterString fmt (rules_text rules) = (True, f) \<and>
       filter_abs f = fold spec_rule rules (filter_abs fmt)"
proof (induction rules arbitrary: fmt)
  case Nil
  then show ?case
    by (simp add: rules_text_def android_log_addFilterString_def c_char_def)
next
  case (Cons r rules)
  obtain tag c where r: "r = (tag, c)" by (cases r)
  have ok: "rule_ok (tag, c)" using Cons.prems r by simp
  have plain: "strsep_tokens [SPC, TAB, CHR '',''] (rule_text (tag, c)) = [rule_text (tag, c)]"
    using ok rule_char_no_delim [of c]
    by (intro strsep_plain) (auto simp: rule_ok_def rule_text_def)
  have "strsep_tokens [SPC, TAB, CHR '',''] (rules_text (r # rules)) =
      rule_text (tag, c) # strsep_tokens [SPC, TAB, CHR '',''] (rules_text rules)"
    using strsep_append [of SPC "[SPC, TAB, CHR '','']" "rule_text (tag, c)" "rules_text rules"] plain
    by (simp add: rules_text_def r)
  moreover have "c_char (rule_text (tag, c)) 0 \<noteq> NUL"
    using ok by (cases tag) (auto simp: rule_ok_def rule_text_def c_char_def)
  moreover obtain f where f: "android_log_addFilterRule fmt (rule_text (tag, c)) = Some f"
      "filter_abs f = spec_rule (tag, c) (filter_abs fmt)"
    using addFilterRule_text [OF ok] by blast
  moreover obtain g where "android_log_addFilterString f (rules_text rules) = (True, g)"
      "filter_abs g = fold spec_rule rules (filter_abs f)"
    using Cons by auto
  ultimately show ?case
    by (simp add: android_log_addFilterString_def r)
qed

text \<open>C27: A string of rules \<open>tag:p\<close> is accepted and means what it says: a line is printed iff
  its priority reaches that of the last rule for its tag, of the last rule for \<open>*\<close>
  when its tag has none, with \<open>*\<close> as a priority standing for DEBUG in the rule
  for \<open>*\<close> and for VERBOSE in the others.\<close>

theorem filter_string_meaning:
  assumes "list_all rule_ok rules"
  shows "\<exists>f. android_log_addFilterString fmt (rules_text rules) = (True, f) \<and>
    android_log_shouldPrintLine f tag pri =
      (pri_val (spec_pri (fold spec_rule rules (filter_abs fmt)) tag) \<le> pri)"
  using add_rules [OF assms, of fmt]
  by (auto simp: android_log_shouldPrintLine_def filterPriForTag_abs)

theorem filter_string_meaning_witness:
  "\<exists>f. android_log_addFilterString android_log_format_new
       (rules_text [(''*'', CHR ''s''), (''gps'', CHR ''D''), (''gps'', CHR ''*'')]) = (True, f) \<and>
    android_log_shouldPrintLine f ''gps'' 2 =
      (pri_val (spec_pri (fold spec_rule [(''*'', CHR ''s''), (''gps'', CHR ''D''), (''gps'', CHR ''*'')]
         (filter_abs android_log_format_new)) ''gps'') \<le> 2)"
  by (rule filter_string_meaning) code_simp

end
