(* ===== verification/Log_Entry.thy ===== *)
theory Log_Entry
  imports Log_Filter C_Format
begin

text \<open>
  Text log entries in \<open>logprint.c\<close>: from the wire format of the kernel driver to an
  \<open>AndroidLogEntry\<close> (\<open>android_log_processLogBuffer\<close>), and from an entry to the
  lines that are printed (\<open>android_log_formatLogLine\<close>, \<open>android_log_printLogLine\<close>).

  \<open>size_t\<close> has 64 bits; \<open>char\<close> is unsigned, as on ARM. The pointer \<open>message\<close> is
  the list of the bytes from it to the end of the object it points into.
\<close>

section \<open>Entries\<close>

record logger_entry =
  le_pid :: int
  le_tid :: int
  le_sec :: int
  le_nsec :: int
  le_msg :: bytes

record log_entry =
  en_tv_sec :: int
  en_tv_nsec :: int
  en_priority :: int
  en_pid :: int
  en_tid :: int
  en_tag :: bytes
  en_messageLen :: nat
  en_message :: bytes

definition size_t_of :: "int \<Rightarrow> nat" where
  "size_t_of i = nat (i mod 2 ^ 64)"

definition c_string :: "bytes \<Rightarrow> bytes" where
  "c_string bs = takeWhile (\<lambda>c. c \<noteq> NUL) bs"

text \<open>The \<open>for\<close> loop over \<open>buf->msg[i]\<close>: \<open>msgStart\<close> and \<open>msgEnd\<close>, -1 when not found.\<close>

fun scan_loop :: "int \<Rightarrow> bytes \<Rightarrow> int \<Rightarrow> int \<times> int" where
  "scan_loop i [] start = (start, - 1)"
| "scan_loop i (c # cs) start =
     (if c = NUL
      then if start = - 1 then scan_loop (i + 1) cs (i + 1) else (start, i)
      else scan_loop (i + 1) cs start)"

text \<open>None is the result -1. The payload may be changed, so it is returned too.\<close>

definition android_log_processLogBuffer :: "logger_entry \<Rightarrow> (logger_entry \<times> log_entry) option" where
  "android_log_processLogBuffer buf =
     (let len = length (le_msg buf) in
      if len < 3 then None
      else let (msgStart, msgEnd0) = scan_loop 1 (drop 1 (le_msg buf)) (- 1) in
        if msgStart = - 1 then None
        else let msgEnd = (if msgEnd0 = - 1 then int len - 1 else msgEnd0);
                 msg = (if msgEnd0 = - 1 then (le_msg buf)[len - 1 := NUL] else le_msg buf)
             in Some (buf\<lparr>le_msg := msg\<rparr>,
                 \<lparr>en_tv_sec = le_sec buf, en_tv_nsec = le_nsec buf, en_priority = byte_val (msg ! 0),
                  en_pid = le_pid buf, en_tid = le_tid buf, en_tag = c_string (drop 1 msg),
                  en_messageLen = size_t_of (msgEnd - msgStart), en_message = drop (nat msgStart) msg\<rparr>))"

section \<open>From the wire\<close>

lemma scan_loop_none: "NUL \<notin> set cs \<Longrightarrow> scan_loop i cs start = (start, - 1)"
  by (induction i cs start rule: scan_loop.induct) auto

lemma scan_loop_skip: "NUL \<notin> set cs \<Longrightarrow> scan_loop i (cs @ ds) start = scan_loop (i + int (length cs)) ds start"
  by (induction i cs start rule: scan_loop.induct) (auto simp: algebra_simps)

lemma c_string_append: "NUL \<notin> set s \<Longrightarrow> c_string (s @ NUL # r) = s"
  by (induction s) (auto simp: c_string_def)

lemma c_string_plain: "NUL \<notin> set s \<Longrightarrow> c_string s = s"
  by (simp add: c_string_def takeWhile_eq_all_conv) blast

text \<open>The wire format of a writer: priority, tag and message, each string with its NUL, of
  which the kernel keeps the first \<open>n\<close> bytes.\<close>

definition wire_text :: "char \<Rightarrow> bytes \<Rightarrow> bytes \<Rightarrow> bytes" where
  "wire_text pri tag msg = pri # tag @ NUL # msg @ [NUL]"

lemma wire_entry:
  assumes "le_msg buf = wire_text pri tag msg @ rest" "NUL \<notin> set tag" "NUL \<notin> set msg"
  shows "android_log_processLogBuffer buf = Some (buf,
    \<lparr>en_tv_sec = le_sec buf, en_tv_nsec = le_nsec buf, en_priority = byte_val pri,
     en_pid = le_pid buf, en_tid = le_tid buf, en_tag = tag, en_messageLen = length msg mod 2 ^ 64,
     en_message = msg @ NUL # rest\<rparr>)"
proof -
  have "scan_loop 1 (drop 1 (le_msg buf)) (- 1) =
      (2 + int (length tag), 2 + int (length tag) + int (length msg))"
    using assms by (simp add: wire_text_def scan_loop_skip)
  moreover have "drop (nat (2 + int (length tag))) (le_msg buf) = msg @ NUL # rest"
    using assms(1) by (simp add: wire_text_def nat_add_distrib)
  moreover have "c_string (drop 1 (le_msg buf)) = tag"
    using assms by (simp add: wire_text_def c_string_append)
  ultimately show ?thesis
    using assms(1)
    by (simp add: android_log_processLogBuffer_def Let_def wire_text_def size_t_of_def)
      (simp add: nat_mod_distrib)
qed

text \<open>An entry on the wire is split into the priority, tag and message it was made of,
  whatever follows the second NUL.\<close>

theorem processLogBuffer_wire:
  assumes "le_msg buf = wire_text pri tag msg @ rest" "NUL \<notin> set tag" "NUL \<notin> set msg"
  shows "\<exists>e. android_log_processLogBuffer buf = Some (buf, e) \<and> en_priority e = byte_val pri \<and>
    en_tag e = tag \<and> en_messageLen e = length msg mod 2 ^ 64 \<and>
    take (length msg) (en_message e) = msg \<and> en_pid e = le_pid buf \<and> en_tv_sec e = le_sec buf"
  by (simp add: wire_entry [OF assms])

theorem processLogBuffer_wire_witness:
  "let buf = \<lparr>le_pid = 7, le_tid = 8, le_sec = 9, le_nsec = 0, le_msg = wire_text CHR 0x04 ''gps'' ''fix'' @ ''?''\<rparr>
   in \<exists>e. android_log_processLogBuffer buf = Some (buf, e) \<and> en_priority e = byte_val CHR 0x04 \<and>
    en_tag e = ''gps'' \<and> en_messageLen e = length ''fix'' mod 2 ^ 64 \<and>
    take (length ''fix'') (en_message e) = ''fix'' \<and> en_pid e = le_pid buf \<and> en_tv_sec e = le_sec buf"
  unfolding Let_def by (rule processLogBuffer_wire) simp_all

text \<open>A message the kernel cut off before its NUL loses its last byte to the NUL the parser
  writes; when the cut comes right after the tag's NUL there is no byte to take, and
  \<open>messageLen\<close> becomes the largest \<open>size_t\<close>.\<close>

theorem processLogBuffer_truncated:
  assumes "le_msg buf = pri # tag @ NUL # msg" "NUL \<notin> set tag" "NUL \<notin> set msg" "3 \<le> length (le_msg buf)"
  shows "\<exists>buf' e. android_log_processLogBuffer buf = Some (buf', e) \<and> en_tag e = tag \<and>
    (if msg = [] then en_messageLen e = 2 ^ 64 - 1 \<and> en_message e = []
     else en_messageLen e = (length msg - 1) mod 2 ^ 64 \<and> en_message e = butlast msg @ [NUL])"
proof -
  let ?n = "length (le_msg buf)"
  have scan: "scan_loop 1 (drop 1 (le_msg buf)) (- 1) = (2 + int (length tag), - 1)"
    using assms(1-3) by (simp add: scan_loop_skip scan_loop_none)
  have n: "?n = 2 + length tag + length msg"
    using assms(1) by simp
  show ?thesis
  proof (cases "msg = []")
    case True
    then have "(le_msg buf)[?n - 1 := NUL] = le_msg buf"
      using assms(1) by (intro list_update_same_conv [THEN iffD2]) (auto simp: nth_append)
    with True show ?thesis
      using scan assms n
      by (auto simp: android_log_processLogBuffer_def Let_def size_t_of_def nat_add_distrib c_string_append)
  next
    case False
    then have "(le_msg buf)[?n - 1 := NUL] = pri # tag @ NUL # butlast msg @ [NUL]"
      using assms(1) n by (cases msg rule: rev_cases) (auto simp: list_update_append split: nat.split)
    with False show ?thesis
      using scan assms n
      by (simp add: android_log_processLogBuffer_def Let_def size_t_of_def nat_add_distrib c_string_append)
        (simp add: nat_mod_distrib nat_diff_distrib Suc_le_eq)
  qed
qed

theorem processLogBuffer_truncated_witness:
  "let buf = \<lparr>le_pid = 7, le_tid = 8, le_sec = 9, le_nsec = 0, le_msg = [CHR 0x04, CHR ''t'', NUL]\<rparr>
   in \<exists>buf' e. android_log_processLogBuffer buf = Some (buf', e) \<and> en_tag e = ''t'' \<and>
    (if ([] :: bytes) = [] then en_messageLen e = 2 ^ 64 - 1 \<and> en_message e = []
     else en_messageLen e = (length ([] :: bytes) - 1) mod 2 ^ 64 \<and> en_message e = butlast [] @ [NUL])"
  unfolding Let_def by (rule processLogBuffer_truncated [where pri = "CHR 0x04"]) simp_all

section \<open>Formatting\<close>

definition c_div :: "int \<Rightarrow> int \<Rightarrow> int" where
  "c_div a b = (if a < 0 then - (- a div b) else a div b)"

text \<open>\<open>%5d\<close>, \<open>%-8s\<close> and \<open>%03ld\<close>\<close>

definition fmt_5d :: "int \<Rightarrow> bytes" where
  "fmt_5d i = pad_left SPC 5 (fmt_d i)"

definition fmt_8s :: "bytes \<Rightarrow> bytes" where
  "fmt_8s s = pad_right 8 s"

definition fmt_03ld :: "int \<Rightarrow> bytes" where
  "fmt_03ld i = (if i < 0 then CHR ''-'' # pad_left CHR ''0'' 2 (fmt_u (nat (- i)))
     else pad_left CHR ''0'' 3 (fmt_u (nat i)))"

text \<open>The texts handed to \<open>snprintf\<close> for \<open>prefixBuf\<close> and \<open>suffixBuf\<close>, and
  \<open>prefixSuffixIsHeaderFooter\<close>. \<open>time\<close> is \<open>timeBuf\<close>, made by \<open>localtime\<close> and
  \<open>strftime\<close> from the local time zone.\<close>

definition log_prefix_suffix :: "log_format \<Rightarrow> bytes \<Rightarrow> log_entry \<Rightarrow> bytes \<times> bytes \<times> bool" where
  "log_prefix_suffix fmt time e =
     (let pri = [filterPriToChar (en_priority e)]; tag = en_tag e;
          pid = fmt_5d (en_pid e); tid = fmt_5d (en_tid e);
          ms = fmt_03ld (c_div (en_tv_nsec e) 1000000)
      in case lf_format fmt of
           FORMAT_TAG \<Rightarrow> (pri @ ''/'' @ fmt_8s tag @ '': '', [LF], False)
         | FORMAT_PROCESS \<Rightarrow> (pri @ ''('' @ pid @ '') '', ''  ('' @ tag @ '')'' @ [LF], False)
         | FORMAT_THREAD \<Rightarrow> (pri @ ''('' @ pid @ '':'' @ tid @ '') '', [LF], False)
         | FORMAT_RAW \<Rightarrow> ([], [LF], False)
         | FORMAT_TIME \<Rightarrow>
             (time @ ''.'' @ ms @ '' '' @ pri @ ''/'' @ fmt_8s tag @ ''('' @ pid @ ''): '', [LF], False)
         | FORMAT_THREADTIME \<Rightarrow>
             (time @ ''.'' @ ms @ '' '' @ pid @ '' '' @ tid @ '' '' @ pri @ '' '' @ fmt_8s tag @ '': '', [LF], False)
         | FORMAT_LONG \<Rightarrow>
             (''[ '' @ time @ ''.'' @ ms @ '' '' @ pid @ '':'' @ tid @ '' '' @ pri @ ''/'' @ fmt_8s tag @ '' ]'' @ [LF],
              [LF, LF], True)
         | _ \<Rightarrow> (pri @ ''/'' @ fmt_8s tag @ ''('' @ pid @ ''): '', [LF], False))"

text \<open>\<open>snprintf\<close> into a buffer of 128 bytes and the correction of its result: the bytes in
  the buffer, and the length that is used.\<close>

definition fit_128 :: "bytes \<Rightarrow> bytes \<times> nat" where
  "fit_128 text = (let (buf, len) = snprintf 128 text in (buf, if len \<ge> 128 then 127 else len))"

text \<open>The \<open>while\<close> loop that counts line ends, and the line without one.\<close>

definition count_lines :: "bytes \<Rightarrow> nat" where
  "count_lines m = length (filter (\<lambda>c. c = LF) m) + (if m \<noteq> [] \<and> last m \<noteq> LF then 1 else 0)"

text \<open>
  The second loop. \<open>p\<close> moves by \<open>lineLen\<close> although \<open>strncat\<close> stops at a NUL, so
  with a NUL in the line the next \<open>strcat\<close> starts in bytes never written.
\<close>

fun copy_lines :: "nat \<Rightarrow> bytes \<Rightarrow> bytes \<Rightarrow> bytes \<Rightarrow> fault + bytes" where
  "copy_lines 0 prefix suffix m = (if m = [] then Inr [] else Inl Hang)"
| "copy_lines (Suc fuel) prefix suffix m =
     (if m = [] then Inr []
      else let line = takeWhile (\<lambda>c. c \<noteq> LF) m;
               rest = drop (length line) m;
               rest = (if rest \<noteq> [] \<and> hd rest = LF then tl rest else rest)
           in if NUL \<in> set line then Inl Uninitialised
              else bindE (copy_lines fuel prefix suffix rest) (\<lambda>out. Inr (prefix @ line @ suffix @ out)))"

text \<open>
  Result: \<open>None\<close> for a NULL of \<open>malloc\<close>, else the bytes before the final NUL and
  \<open>*p_outLength\<close>. A length of \<open>2^63\<close> or more makes \<open>message + messageLen\<close> wrap
  to an address before \<open>message\<close>, so the loops over the lines do nothing.
\<close>

definition android_log_formatLogLine ::
  "log_format \<Rightarrow> bytes \<Rightarrow> nat \<Rightarrow> bool \<Rightarrow> log_entry \<Rightarrow> fault + (bytes \<times> nat) option" where
  "android_log_formatLogLine fmt time defaultBufferSize malloc_ok e =
     (let (ptext, stext, hf) = log_prefix_suffix fmt time e;
          (prefix, prefixLen) = fit_128 ptext;
          (suffix, suffixLen) = fit_128 stext;
          wraps = (en_messageLen e \<ge> 2 ^ 63);
          msg = (if wraps then [] else take (en_messageLen e) (en_message e));
          numLines = (if hf then 1 else count_lines msg);
          bufferSize = (numLines * (prefixLen + suffixLen) + en_messageLen e + 1) mod 2 ^ 64;
          capacity = (if defaultBufferSize \<ge> bufferSize then defaultBufferSize else bufferSize)
      in if \<not> wraps \<and> length msg < en_messageLen e then Inl Uninitialised
         else if defaultBufferSize < bufferSize \<and> \<not> malloc_ok then Inr None
         else bindE (if hf then if wraps \<or> NUL \<in> set msg then Inl Uninitialised
                                else Inr (prefix @ msg @ suffix)
                     else copy_lines (length msg) prefix suffix msg) (\<lambda>out.
              if length out + 1 > capacity then Inl BufferOverflow
              else Inr (Some (out, length out))))"

text \<open>\<open>written\<close> is what \<open>write\<close> returned after the loop around \<open>EINTR\<close>, None for -1.\<close>

definition android_log_printLogLine ::
  "log_format \<Rightarrow> bytes \<Rightarrow> bool \<Rightarrow> (bytes \<Rightarrow> nat option) \<Rightarrow> log_entry \<Rightarrow> fault + int" where
  "android_log_printLogLine fmt time malloc_ok written e =
     bindE (android_log_formatLogLine fmt time 512 malloc_ok e) (\<lambda>r.
     case r of
       None \<Rightarrow> Inr (- 1)
     | Some (out, totalLen) \<Rightarrow>
         (case written (take totalLen out) of None \<Rightarrow> Inr 0 | Some n \<Rightarrow> Inr (int n)))"

section \<open>What is printed\<close>

text \<open>The lines of a message: the pieces between newlines, without an empty last one.\<close>

function msg_lines :: "bytes \<Rightarrow> bytes list" where
  "msg_lines m =
     (if m = [] then []
      else takeWhile (\<lambda>c. c \<noteq> LF) m # msg_lines (drop 1 (dropWhile (\<lambda>c. c \<noteq> LF) m)))"
  by pat_completeness auto
termination
proof (relation "measure length")
  fix m :: bytes assume "m \<noteq> []"
  then show "(drop 1 (dropWhile (\<lambda>c. c \<noteq> LF) m), m) \<in> measure length"
    using length_dropWhile_le [of "\<lambda>c. c \<noteq> LF" m] by (cases m) auto
qed simp

declare msg_lines.simps [simp del]

definition wrap_lines :: "bytes \<Rightarrow> bytes \<Rightarrow> bytes list \<Rightarrow> bytes" where
  "wrap_lines prefix suffix ls = concat (map (\<lambda>l. prefix @ l @ suffix) ls)"

text \<open>A message is one line, or a line, a newline and the other lines.\<close>

lemma line_split [simp]:
  "LF \<notin> set line \<Longrightarrow> takeWhile (\<lambda>c. c \<noteq> LF) line = line"
  "LF \<notin> set line \<Longrightarrow> dropWhile (\<lambda>c. c \<noteq> LF) line = []"
  "LF \<notin> set line \<Longrightarrow> takeWhile (\<lambda>c. c \<noteq> LF) (line @ LF # rest) = line"
  "LF \<notin> set line \<Longrightarrow> dropWhile (\<lambda>c. c \<noteq> LF) (line @ LF # rest) = LF # rest"
  by (induction line) auto

lemma line_cases:
  obtains "LF \<notin> set m" | line rest where "m = line @ LF # rest" "LF \<notin> set line"
  using split_list_first [of LF m] by (cases "LF \<in> set m") auto

lemma msg_lines_Nil [simp]: "msg_lines [] = []"
  by (simp add: msg_lines.simps)

lemma msg_lines_last: "LF \<notin> set m \<Longrightarrow> m \<noteq> [] \<Longrightarrow> msg_lines m = [m]"
  by (subst msg_lines.simps) simp

lemma msg_lines_line: "LF \<notin> set line \<Longrightarrow> msg_lines (line @ LF # rest) = line # msg_lines rest"
  by (subst msg_lines.simps) simp

lemma count_lines_Nil [simp]: "count_lines [] = 0"
  by (simp add: count_lines_def)

lemma count_lines_line: "LF \<notin> set line \<Longrightarrow> count_lines (line @ LF # rest) = Suc (count_lines rest)"
  by (auto simp: count_lines_def filter_empty_conv)

lemma count_lines_last: "LF \<notin> set m \<Longrightarrow> m \<noteq> [] \<Longrightarrow> count_lines m = 1"
  by (auto simp: count_lines_def filter_empty_conv dest: last_in_set)

lemma length_msg_lines: "length (msg_lines m) = count_lines m"
proof (induction "length m" arbitrary: m rule: less_induct)
  case less
  show ?case
  proof (cases m rule: line_cases)
    case 1
    then show ?thesis
      by (cases "m = []") (simp_all add: msg_lines_last count_lines_last)
  next
    case (2 line rest)
    with less show ?thesis
      by (simp add: msg_lines_line count_lines_line)
  qed
qed

lemma copy_lines_spec:
  "NUL \<notin> set m \<Longrightarrow> length m \<le> n \<Longrightarrow>
   copy_lines n prefix suffix m = Inr (wrap_lines prefix suffix (msg_lines m))"
proof (induction n arbitrary: m)
  case 0
  then show ?case by (simp add: wrap_lines_def)
next
  case (Suc n)
  have Nil: "copy_lines n prefix suffix [] = Inr []"
    by (cases n) simp_all
  show ?case
  proof (cases m rule: line_cases)
    case 1
    with Suc.prems Nil show ?thesis
      by (cases "m = []") (simp_all add: wrap_lines_def msg_lines_last Let_def)
  next
    case (2 line rest)
    then have "copy_lines n prefix suffix rest = Inr (wrap_lines prefix suffix (msg_lines rest))"
      using Suc by simp
    with 2 Suc.prems show ?thesis
      by (simp add: wrap_lines_def msg_lines_line Let_def)
  qed
qed

lemma fit_128_eq: "fit_128 text = (take 127 text, length (take 127 text))"
  by (simp add: fit_128_def snprintf_def)

lemma sum_msg_lines: "sum_list (map length (msg_lines m)) \<le> length m"
proof (induction "length m" arbitrary: m rule: less_induct)
  case less
  show ?case
  proof (cases m rule: line_cases)
    case 1
    then show ?thesis
      by (cases "m = []") (simp_all add: msg_lines_last)
  next
    case (2 line rest)
    with less [of rest] show ?thesis
      by (simp add: msg_lines_line)
  qed
qed

lemma length_wrap_lines:
  "length (wrap_lines prefix suffix ls) = length ls * (length prefix + length suffix) + sum_list (map length ls)"
  by (induction ls) (auto simp: wrap_lines_def algebra_simps)

text \<open>The text a format gives to an entry: every line of the message between the prefix and
  the suffix, or the whole message between header and footer.\<close>

definition log_text :: "log_format \<Rightarrow> bytes \<Rightarrow> log_entry \<Rightarrow> bytes" where
  "log_text fmt time e =
     (let (ptext, stext, hf) = log_prefix_suffix fmt time e;
          prefix = take 127 ptext; suffix = take 127 stext;
          msg = take (en_messageLen e) (en_message e)
      in if hf then prefix @ msg @ suffix else wrap_lines prefix suffix (msg_lines msg))"

lemma count_lines_le: "count_lines m \<le> length m"
proof (induction "length m" arbitrary: m rule: less_induct)
  case less
  show ?case
  proof (cases m rule: line_cases)
    case 1
    then show ?thesis
      by (cases "m = []") (simp_all add: count_lines_last Suc_le_eq)
  next
    case (2 line rest)
    with less [of rest] show ?thesis
      by (simp add: count_lines_line)
  qed
qed

lemma format_line:
  assumes "en_messageLen e \<le> length (en_message e)" "en_messageLen e < 2 ^ 48"
    and "NUL \<notin> set (take (en_messageLen e) (en_message e))"
  shows "android_log_formatLogLine fmt time defaultBufferSize True e =
    Inr (Some (log_text fmt time e, length (log_text fmt time e)))"
proof -
  obtain ptext stext hf where parts: "log_prefix_suffix fmt time e = (ptext, stext, hf)"
    by (cases "log_prefix_suffix fmt time e")
  let ?n = "en_messageLen e" and ?msg = "take (en_messageLen e) (en_message e)"
  let ?p = "take 127 ptext" and ?s = "take 127 stext"
  let ?lines = "if hf then 1 else count_lines ?msg"
  let ?size = "?lines * (length ?p + length ?s) + ?n + 1"
  have len: "length ?msg = ?n"
    using assms(1) by simp
  have "?lines \<le> ?n + 1"
    using count_lines_le [of ?msg] len by simp
  then have "?lines * (length ?p + length ?s) \<le> (?n + 1) * 254"
    by (intro mult_le_mono) auto
  then have "?size < 2 ^ 64"
    using assms(2) by simp
  then have size: "?size mod 2 ^ 64 = ?size"
    by (rule mod_less)
  have body: "(if hf then if NUL \<in> set ?msg then Inl Uninitialised else Inr (?p @ ?msg @ ?s)
      else copy_lines ?n ?p ?s ?msg) = Inr (log_text fmt time e)"
    using assms(3) copy_lines_spec [of ?msg ?n] len by (simp add: log_text_def parts)
  have "length (log_text fmt time e) + 1 \<le> ?size"
  proof (cases hf)
    case True
    then show ?thesis
      using len by (simp add: log_text_def parts)
  next
    case False
    have "length (wrap_lines ?p ?s (msg_lines ?msg)) \<le> count_lines ?msg * (length ?p + length ?s) + ?n"
      using sum_msg_lines [of ?msg] len unfolding length_wrap_lines length_msg_lines by simp
    with False show ?thesis
      by (simp only: log_text_def parts Let_def prod.case if_False)
  qed
  then have fits: "(length (log_text fmt time e) + 1 > (if ?size \<le> defaultBufferSize then defaultBufferSize else ?size)) = False"
    by simp
  have wraps: "(2 ^ 63 \<le> ?n) = False"
    using assms(2) by simp
  show ?thesis
    unfolding android_log_formatLogLine_def parts Let_def prod.case fit_128_eq wraps if_False
    by (simp only: len size body fits bindE_simps less_irrefl simp_thms if_False)
qed

text \<open>A message without NUL is printed as \<open>log_text\<close> says, in every format, and the buffer
  is large enough: the size computed before copying bounds what is copied, also when
  the prefix was cut to 127 bytes.\<close>

theorem format_log_line_spec:
  assumes "en_messageLen e \<le> length (en_message e)" "en_messageLen e < 2 ^ 48"
    and "NUL \<notin> set (take (en_messageLen e) (en_message e))"
  shows "android_log_formatLogLine fmt time defaultBufferSize True e =
    Inr (Some (log_text fmt time e, length (log_text fmt time e)))"
  by (rule format_line [OF assms])

theorem format_log_line_spec_witness:
  "let e = \<lparr>en_tv_sec = 0, en_tv_nsec = 0, en_priority = 4, en_pid = 7, en_tid = 7, en_tag = ''gps'',
            en_messageLen = 5, en_message = ''a'' @ LF # ''bc'' @ [LF, NUL]\<rparr>
   in android_log_formatLogLine android_log_format_new ''01-01 00:00:00'' 512 True e =
      Inr (Some (log_text android_log_format_new ''01-01 00:00:00'' e,
        length (log_text android_log_format_new ''01-01 00:00:00'' e)))"
  unfolding Let_def by (rule format_log_line_spec) simp_all

text \<open>Once a line of the message holds a NUL, which strings of binary events may, the output
  pointer runs ahead of the text and the next \<open>strcat\<close> reads bytes never written.\<close>

theorem format_log_line_embedded_nul:
  assumes "NUL \<in> set line" "LF \<notin> set line" "snd (snd (log_prefix_suffix fmt time e)) = False"
    and "en_message e = line @ rest" "en_messageLen e = length line" "length line < 2 ^ 63"
  shows "android_log_formatLogLine fmt time defaultBufferSize True e = Inl Uninitialised"
proof -
  obtain ptext stext where parts: "log_prefix_suffix fmt time e = (ptext, stext, False)"
    using assms(3) by (cases "log_prefix_suffix fmt time e") auto
  obtain n where n: "length line = Suc n"
    using assms(1) by (cases line) auto
  have "copy_lines (length line) p s line = Inl Uninitialised" for p s
    using assms(1,2) n by (auto simp: Let_def)
  then show ?thesis
    using assms(4-6) unfolding android_log_formatLogLine_def parts Let_def prod.case fit_128_eq
    by simp
qed

theorem format_log_line_embedded_nul_witness:
  "android_log_formatLogLine android_log_format_new ''01-01 00:00:00'' 512 True
     \<lparr>en_tv_sec = 0, en_tv_nsec = 0, en_priority = 4, en_pid = 7, en_tid = 7, en_tag = ''gps'',
      en_messageLen = 3, en_message = [CHR ''a'', NUL, CHR ''b''] @ [NUL]\<rparr> = Inl Uninitialised"
  by (rule format_log_line_embedded_nul [where line = "[CHR ''a'', NUL, CHR ''b'']" and rest = "[NUL]"]) (simp_all add: log_prefix_suffix_def android_log_format_new_def Let_def)

end
