(* ===== verification/Byte_Words.thy ===== *)
theory Byte_Words
  imports Prelude
begin

text \<open>
  Little-endian numbers in a sequence of bytes: the readers of \<open>logprint.c\<close>, which are also what a load of
  an integer of the packets of the renderer does on its hosts, and the writers they are inverse to.
\<close>

section \<open>Little-endian numbers\<close>

definition byte_word :: "char \<Rightarrow> 32 word" where
  "byte_word c = word_of_int (byte_val c)"

definition get4LE :: "bytes \<Rightarrow> 32 word" where
  "get4LE src = byte_word (src ! 0) OR push_bit 8 (byte_word (src ! 1)) OR
     push_bit 16 (byte_word (src ! 2)) OR push_bit 24 (byte_word (src ! 3))"

definition get8LE :: "bytes \<Rightarrow> 64 word" where
  "get8LE src =
     (let low = get4LE src; high = get4LE (drop 4 src)
      in push_bit 32 (ucast high) OR ucast low)"

definition byte_at :: "nat \<Rightarrow> 32 word \<Rightarrow> char" where
  "byte_at k w = byte_of (uint (drop_bit (8 * k) w AND 0xff))"

definition put4LE :: "32 word \<Rightarrow> bytes" where
  "put4LE w = [byte_at 0 w, byte_at 1 w, byte_at 2 w, byte_at 3 w]"

definition put8LE :: "64 word \<Rightarrow> bytes" where
  "put8LE w = put4LE (ucast w) @ put4LE (ucast (drop_bit 32 w))"

lemma byte_word_at: "byte_word (byte_at k w) = take_bit 8 (drop_bit (8 * k) w)"
proof -
  have "drop_bit (8 * k) w AND 0xff = take_bit 8 (drop_bit (8 * k) w)"
    by (simp add: take_bit_eq_mask mask_eq_exp_minus_1)
  moreover
  have "uint (drop_bit (8 * k) w AND 0xff) < 256"
    using AND_upper2 [of "0xff :: int" "uint (drop_bit (8 * k) w)"] by (simp add: uint_and)
  ultimately show ?thesis
    by (simp add: byte_word_def byte_at_def)
qed

lemma get4LE_put4LE [simp]: "get4LE (put4LE w @ rest) = w"
proof -
  have "bit (get4LE (put4LE w @ rest)) n \<longleftrightarrow> bit w n" if "n < 32" for n
  proof -
    have shift: "8 \<le> n \<Longrightarrow> 8 + (n - 8) = n" "16 \<le> n \<Longrightarrow> 16 + (n - 16) = n" "24 \<le> n \<Longrightarrow> 24 + (n - 24) = n"
      by simp_all
    from that consider "n < 8" | "8 \<le> n" "n < 16" | "16 \<le> n" "n < 24" | "24 \<le> n" "n < 32"
      by linarith
    then show ?thesis
    proof cases
    qed (use shift in \<open>auto simp: get4LE_def put4LE_def byte_word_at bit_simps less_diff_conv2\<close>)
  qed
  then show ?thesis
    by (intro bit_word_eqI) simp
qed

lemma length_put4LE [simp]: "length (put4LE w) = 4"
  by (simp add: put4LE_def)

lemma length_put8LE [simp]: "length (put8LE w) = 8"
  by (simp add: put8LE_def)

lemma get8LE_put8LE [simp]: "get8LE (put8LE w @ rest) = w"
proof -
  have "get8LE (put8LE w @ rest) = push_bit 32 (ucast (ucast (drop_bit 32 w) :: 32 word)) OR ucast (ucast w :: 32 word)"
    by (simp add: get8LE_def put8LE_def Let_def)
  also have "\<dots> = w"
    by (rule bit_word_eqI) (auto simp: bit_simps)
  finally show ?thesis .
qed

text \<open>A number below 2^31 is the same signed and unsigned.\<close>

lemma sint_small: "uint (w :: 32 word) < 2 ^ 31 \<Longrightarrow> sint w = uint w"
proof -
  assume "uint w < 2 ^ 31"
  moreover from uint_ge_0 [of w] have "- (2 ^ 31) \<le> uint w" by (rule order_trans [rotated]) simp
  ultimately show "sint w = uint w" by (simp add: sint_uint signed_take_bit_int_eq_self)
qed

end
