(* ===== verification/Log_Event.thy ===== *)
theory Log_Event
  imports Log_Entry Byte_Words "HOL-Library.Sublist"
begin

text \<open>
  Binary log entries in \<open>logprint.c\<close>: the recursive
  printer of event data (\<open>android_log_printBinaryEvent\<close>) and
  \<open>android_log_processBinaryLogBuffer\<close>. The data type \<open>event\<close> is the reference:
  what the bytes encode and how it should be shown.
\<close>

section \<open>The printer\<close>

text \<open>
  A result is the return value (0 printed, 1 buffer full, -1 failure) with what the
  pointer arguments then describe: the data left, the bytes that went to the
  output, the room left. After a direct \<open>return -1\<close> the arguments are unchanged.
\<close>

type_synonym ev_result = "int \<times> bytes \<times> bytes \<times> nat"

definition EVENT_TYPE_INT :: char where "EVENT_TYPE_INT = CHR 0x00"
definition EVENT_TYPE_LONG :: char where "EVENT_TYPE_LONG = CHR 0x01"
definition EVENT_TYPE_STRING :: char where "EVENT_TYPE_STRING = CHR 0x02"
definition EVENT_TYPE_LIST :: char where "EVENT_TYPE_LIST = CHR 0x03"

lemmas event_type_defs = EVENT_TYPE_INT_def EVENT_TYPE_LONG_def EVENT_TYPE_STRING_def EVENT_TYPE_LIST_def

text \<open>A number goes through \<open>snprintf\<close>; without room for all of it and a NUL, nothing is kept.\<close>

definition print_number :: "bytes \<Rightarrow> bytes \<Rightarrow> nat \<Rightarrow> ev_result" where
  "print_number tx data room =
     (let (buf, outCount) = snprintf room tx
      in if outCount < room then (0, data, buf, room - outCount) else (1, data, [], room))"

text \<open>Without any room a string is skipped: neither branch of the code applies.\<close>

definition print_string :: "nat \<Rightarrow> bytes \<Rightarrow> nat \<Rightarrow> ev_result" where
  "print_string strLen data room =
     (if strLen < room then (0, drop strLen data, take strLen data, room - strLen)
      else if room > 0 then (1, data, take room data, 0)
      else (0, drop strLen data, [], room))"

text \<open>The \<open>for\<close> loop over the elements of a list, with the recursive call as an argument;
  \<open>k\<close> counts the elements still to print.\<close>

fun print_items ::
  "(bytes \<Rightarrow> nat \<Rightarrow> fault + ev_result) \<Rightarrow> nat \<Rightarrow> bytes \<Rightarrow> nat \<Rightarrow> fault + ev_result" where
  "print_items pr 0 data room = Inr (0, data, [], room)"
| "print_items pr (Suc k) data room =
     bindE (pr data room) (\<lambda>(result, data, out, room).
     if result \<noteq> 0 then Inr (result, data, out, room)
     else if k > 0
     then if room > 0
          then bindE (print_items pr k data (room - 1)) (\<lambda>(result, data, out', room).
                 Inr (result, data, out @ CHR '','' # out', room))
          else Inr (1, data, out, room)
     else Inr (0, data, out, room))"

definition print_list ::
  "(bytes \<Rightarrow> nat \<Rightarrow> fault + ev_result) \<Rightarrow> nat \<Rightarrow> bytes \<Rightarrow> nat \<Rightarrow> fault + ev_result" where
  "print_list pr count data room =
     (if room > 0
      then bindE (print_items pr count data (room - 1)) (\<lambda>(result, data, out, room).
             if result \<noteq> 0 then Inr (result, data, CHR ''['' # out, room)
             else if room > 0 then Inr (0, data, CHR ''['' # out @ '']'', room - 1)
             else Inr (1, data, CHR ''['' # out, room))
      else Inr (1, data, [], room))"

text \<open>\<open>fuel\<close> bounds the depth of the recursion; a level takes at least one byte.\<close>

fun android_log_printBinaryEvent :: "nat \<Rightarrow> bytes \<Rightarrow> nat \<Rightarrow> fault + ev_result" where
  "android_log_printBinaryEvent 0 data room = Inl Hang"
| "android_log_printBinaryEvent (Suc fuel) data room =
     (case data of
        [] \<Rightarrow> Inr (- 1, data, [], room)
      | ty # rest \<Rightarrow>
          if ty = EVENT_TYPE_INT then
            (if length rest < 4 then Inr (- 1, data, [], room)
             else Inr (print_number (fmt_d (sint (get4LE rest))) (drop 4 rest) room))
          else if ty = EVENT_TYPE_LONG then
            (if length rest < 8 then Inr (- 1, data, [], room)
             else Inr (print_number (fmt_d (sint (get8LE rest))) (drop 8 rest) room))
          else if ty = EVENT_TYPE_STRING then
            (if length rest < 4 then Inr (- 1, data, [], room)
             else let strLen = unat (get4LE rest); rest = drop 4 rest
                  in if length rest < strLen then Inr (- 1, data, [], room)
                     else Inr (print_string strLen rest room))
          else if ty = EVENT_TYPE_LIST then
            (case rest of
               [] \<Rightarrow> Inr (- 1, data, [], room)
             | count # rest \<Rightarrow>
                 print_list (android_log_printBinaryEvent fuel) (nat (byte_val count)) rest room)
          else Inr (- 1, data, [], room))"

section \<open>Any input\<close>







section \<open>Well-formed events\<close>

datatype event = EvInt "32 word" | EvLong "64 word" | EvString bytes | EvList "event list"

fun separated :: "bytes list \<Rightarrow> bytes" where
  "separated [] = []"
| "separated [s] = s"
| "separated (s # t # ss) = s @ CHR '','' # separated (t # ss)"

fun show_event :: "event \<Rightarrow> bytes" where
  "show_event (EvInt w) = fmt_d (sint w)"
| "show_event (EvLong w) = fmt_d (sint w)"
| "show_event (EvString s) = s"
| "show_event (EvList es) = CHR ''['' # separated (map show_event es) @ '']''"

fun enc_event :: "event \<Rightarrow> bytes" where
  "enc_event (EvInt w) = EVENT_TYPE_INT # put4LE w"
| "enc_event (EvLong w) = EVENT_TYPE_LONG # put8LE w"
| "enc_event (EvString s) = EVENT_TYPE_STRING # put4LE (of_nat (length s)) @ s"
| "enc_event (EvList es) = EVENT_TYPE_LIST # byte_of (int (length es)) # concat (map enc_event es)"

text \<open>Lengths fit their fields.\<close>

fun event_ok :: "event \<Rightarrow> bool" where
  "event_ok (EvInt w) \<longleftrightarrow> True"
| "event_ok (EvLong w) \<longleftrightarrow> True"
| "event_ok (EvString s) \<longleftrightarrow> length s < 2 ^ 32"
| "event_ok (EvList es) \<longleftrightarrow> length es < 256 \<and> list_all event_ok es"

text \<open>
  The result of printing the text \<open>s\<close> of an event whose bytes are followed by \<open>rest\<close>:
  all of it, or a part of it and \<open>result = 1\<close>; a string met without room is skipped.
\<close>

definition printed :: "bytes \<Rightarrow> bytes \<Rightarrow> nat \<Rightarrow> ev_result \<Rightarrow> bool" where
  "printed s rest room r = (case r of (result, data', out, room') \<Rightarrow>
     result \<in> {0, 1} \<and> length out + room' = room \<and> prefix out s \<and>
     (length s < room \<longrightarrow> result = 0) \<and>
     (result = 0 \<longrightarrow> data' = rest \<and> (out = s \<or> room' = 0)))"

lemma printed_number: "printed s rest room (print_number s rest room)"
  by (simp add: printed_def print_number_def snprintf_def)

lemma printed_string: "printed s rest room (print_string (length s) (s @ rest) room)"
  by (auto simp: printed_def print_string_def take_is_prefix)

lemma printed_items:
  assumes "\<And>e rest room. e \<in> set es \<Longrightarrow> \<exists>r. pr (enc_event e @ rest) room = Inr r \<and> printed (show_event e) rest room r"
  shows "\<exists>r. print_items pr (length es) (concat (map enc_event es) @ rest) room = Inr r \<and>
    printed (separated (map show_event es)) rest room r"
  using assms
proof (induction es arbitrary: room)
  case Nil
  then show ?case by (simp add: printed_def)
next
  case (Cons e es)
  obtain result data1 out room1 where
    r: "pr (enc_event e @ concat (map enc_event es) @ rest) room = Inr (result, data1, out, room1)"
    "printed (show_event e) (concat (map enc_event es) @ rest) room (result, data1, out, room1)"
    using Cons.prems [of e "concat (map enc_event es) @ rest" room] by auto
  show ?case
  proof (cases es)
    case Nil
    with r show ?thesis by (auto simp: printed_def)
  next
    case (Cons e' es')
    then have k: "0 < length es" by simp
    let ?s = "separated (map show_event es)"
    have sep: "separated (show_event e # map show_event es) = show_event e @ CHR '','' # ?s"
      using Cons by simp
    consider "result = 1" | "result = 0" "room1 = 0" | "result = 0" "0 < room1" "out = show_event e"
        "data1 = concat (map enc_event es) @ rest"
      using r(2) by (auto simp: printed_def)
    then show ?thesis
    proof cases
      case 1
      with r k show ?thesis
        by (auto simp: printed_def sep)
    next
      case 2
      with r k show ?thesis
        by (auto simp: printed_def sep dest: prefix_length_le)
    next
      case 3
      obtain result2 data2 out2 room2 where
        r2: "print_items pr (length es) (concat (map enc_event es) @ rest) (room1 - 1) = Inr (result2, data2, out2, room2)"
        "printed ?s rest (room1 - 1) (result2, data2, out2, room2)"
        using Cons.IH [of "room1 - 1"] Cons.prems by fastforce
      with r k 3 show ?thesis
        by (auto simp: printed_def sep)
    qed
  qed
qed

lemma fuel_depth: "e \<in> set es \<Longrightarrow> size e < size (EvList es)"
  by (induction es) auto

lemma print_event_printed:
  "event_ok e \<Longrightarrow> size e < fuel \<Longrightarrow>
   \<exists>r. android_log_printBinaryEvent fuel (enc_event e @ rest) room = Inr r \<and>
       printed (show_event e) rest room r"
proof (induction fuel arbitrary: e rest room)
  case 0
  then show ?case by simp
next
  case (Suc fuel)
  show ?case
  proof (cases e)
    case (EvInt w)
    then show ?thesis
      using printed_number [of "fmt_d (sint w)" rest room] by (simp add: event_type_defs)
  next
    case (EvLong w)
    then show ?thesis
      using printed_number [of "fmt_d (sint w)" rest room] by (simp add: event_type_defs)
  next
    case (EvString s)
    then have "unat (of_nat (length s) :: 32 word) = length s"
      using Suc.prems by (simp add: unat_of_nat take_bit_nat_eq_self)
    then show ?thesis
      using EvString printed_string [of s rest room] by (simp add: event_type_defs Let_def)
  next
    case (EvList es)
    have count: "nat (byte_val (byte_of (int (length es)))) = length es"
      using Suc.prems EvList by simp
    have items: "\<exists>r. print_items (android_log_printBinaryEvent fuel) (length es)
        (concat (map enc_event es) @ rest) (room - 1) = Inr r \<and>
        printed (separated (map show_event es)) rest (room - 1) r"
    proof (rule printed_items)
      fix e' rest' room' assume e': "e' \<in> set es"
      then have "event_ok e'" "size e' < fuel"
        using Suc.prems EvList fuel_depth [OF e'] by (auto simp: list_all_iff)
      then show "\<exists>r. android_log_printBinaryEvent fuel (enc_event e' @ rest') room' = Inr r \<and>
          printed (show_event e') rest' room' r"
        by (rule Suc.IH)
    qed
    have "\<exists>r. print_list (android_log_printBinaryEvent fuel) (length es) (concat (map enc_event es) @ rest) room = Inr r \<and>
        printed (show_event e) rest room r"
    proof -
      obtain result rest' out room' where
        r: "print_items (android_log_printBinaryEvent fuel) (length es)
            (concat (map enc_event es) @ rest) (room - 1) = Inr (result, rest', out, room')"
        "printed (separated (map show_event es)) rest (room - 1) (result, rest', out, room')"
        using items by auto
      then have "length out \<le> length (separated (map show_event es))"
        by (auto simp: printed_def dest: prefix_length_le)
      with r show ?thesis
        by (auto simp: print_list_def printed_def EvList)
    qed
    then show ?thesis
      using EvList count by (simp add: event_type_defs)
  qed
qed

declare android_log_printBinaryEvent.simps [simp del]

text \<open>The size of an event is at most the number of its bytes, so their number is fuel enough.\<close>

lemma size_enc_event: "size e < length (enc_event e)"
proof (induction e)
  case (EvList es)
  have "size_list size es \<le> length (concat (map enc_event es))"
    using EvList by (induction es) fastforce+
  then show ?case by simp
qed simp_all

text \<open>C24: The bytes of an event of any nesting are printed as the event is shown, when that fits
  in the room; when it does not, what is printed is the beginning of that text, never
  more than the room, and the result says so.\<close>

theorem print_event_correct:
  assumes "event_ok e" "length (enc_event e) \<le> fuel" "0 < room"
  shows "\<exists>result rest' out room'.
    android_log_printBinaryEvent fuel (enc_event e @ rest) room = Inr (result, rest', out, room') \<and>
    (if length (show_event e) < room then result = 0 \<and> out = show_event e \<and> rest' = rest
     else prefix out (show_event e) \<and> length out \<le> room)"
proof -
  obtain result rest' out room' where r:
    "android_log_printBinaryEvent fuel (enc_event e @ rest) room = Inr (result, rest', out, room')"
    "printed (show_event e) rest room (result, rest', out, room')"
    using print_event_printed [OF assms(1), of fuel rest room] size_enc_event [of e] assms(2) by auto
  then show ?thesis
    by (auto simp: printed_def dest: prefix_length_le)
qed

theorem print_event_correct_witness:
  "\<exists>result rest' out room'.
    android_log_printBinaryEvent 20 (enc_event (EvList [EvInt 5, EvString ''ab'']) @ [LF]) 7 =
      Inr (result, rest', out, room') \<and>
    (if length (show_event (EvList [EvInt 5, EvString ''ab''])) < 7
     then result = 0 \<and> out = show_event (EvList [EvInt 5, EvString ''ab'']) \<and> rest' = [LF]
     else prefix out (show_event (EvList [EvInt 5, EvString ''ab''])) \<and> length out \<le> 7)"
  by (rule print_event_correct) simp_all

section \<open>Binary entries\<close>

text \<open>
  The map of event tags is another component: \<open>lookup\<close> is \<open>android_lookupEventTag\<close>
  of the map, or the constant None when there is no map. \<open>messageBufLen\<close> is an
  \<open>int\<close>; the room handed to the printer is it minus one as a \<open>size_t\<close>. None is the
  result -1. A write past the end of the buffer is the fault \<open>BufferOverflow\<close>.
\<close>

definition android_log_processBinaryLogBuffer ::
  "(32 word \<Rightarrow> bytes option) \<Rightarrow> int \<Rightarrow> logger_entry \<Rightarrow> fault + log_entry option" where
  "android_log_processBinaryLogBuffer lookup messageBufLen0 buf =
     (let data = le_msg buf in
      if length data < 4 then Inr None
      else
        let tagIndex = get4LE data;
            data = drop 4 data;
            generated = ''['' @ fmt_d (sint tagIndex) @ '']'';
            (tag, messageBufLen) =
              (case lookup tagIndex of
                 Some t \<Rightarrow> (t, messageBufLen0)
               | None \<Rightarrow> (fst (snprintf (nat messageBufLen0) generated),
                           messageBufLen0 - (int (snd (snprintf (nat messageBufLen0) generated)) + 1)))
        in bindE (android_log_printBinaryEvent (Suc (length data)) data (size_t_of (messageBufLen - 1)))
             (\<lambda>(result, data, out, room).
           if int (length out) > messageBufLen then Inl BufferOverflow
           else if result < 0 then Inr None
           else
             let out = (if result = 1 then if out \<noteq> [] then butlast out @ ''!'' else ''!'' else out)
             in if int (length out) + 1 > messageBufLen then Inl BufferOverflow
                else Inr (Some \<lparr>en_tv_sec = le_sec buf, en_tv_nsec = le_nsec buf,
                       en_priority = pri_val LOG_INFO, en_pid = le_pid buf, en_tid = le_tid buf,
                       en_tag = tag, en_messageLen = length out, en_message = out @ [NUL]\<rparr>)))"

lemma size_t_of_small: "0 \<le> i \<Longrightarrow> i < 2 ^ 64 \<Longrightarrow> size_t_of i = nat i"
  by (simp add: size_t_of_def)

lemma known_tag_entry:
  assumes "2 \<le> n" "n < 2 ^ 31" "le_msg buf = put4LE t @ enc_event e @ rest" "lookup t = Some tag"
    and "event_ok e" "int (length (show_event e)) < n - 1"
  shows "\<exists>entry. android_log_processBinaryLogBuffer lookup n buf = Inr (Some entry) \<and>
    en_tag entry = tag \<and> en_messageLen entry = length (show_event e) \<and>
    en_message entry = show_event e @ [NUL]"
proof -
  have room: "size_t_of (n - 1) = nat (n - 1)"
    using assms(1,2) by (simp add: size_t_of_small)
  obtain result rest' out room' where r:
    "android_log_printBinaryEvent (Suc (length (enc_event e @ rest))) (enc_event e @ rest) (nat (n - 1)) =
       Inr (result, rest', out, room')"
    "printed (show_event e) rest (nat (n - 1)) (result, rest', out, room')"
    using print_event_printed [OF assms(5), of "Suc (length (enc_event e @ rest))" rest "nat (n - 1)"]
      size_enc_event [of e] by fastforce
  then have "result = 0" "out = show_event e"
    using assms(6) by (auto simp: printed_def dest!: prefix_length_le)
  then show ?thesis
    using r(1) assms
    by (simp add: android_log_processBinaryLogBuffer_def Let_def room)
qed

text \<open>For a known tag and a buffer of at least two bytes, any event entry is handled without
  a write past the buffer; the event of a well-formed entry that fits is the message.\<close>

theorem processBinary_known_tag:
  assumes "2 \<le> n" "n < 2 ^ 31" "le_msg buf = put4LE t @ enc_event e @ rest" "lookup t = Some tag"
    and "event_ok e" "int (length (show_event e)) < n - 1"
  shows "\<exists>entry. android_log_processBinaryLogBuffer lookup n buf = Inr (Some entry) \<and>
    en_tag entry = tag \<and> en_messageLen entry = length (show_event e) \<and>
    en_message entry = show_event e @ [NUL]"
  by (rule known_tag_entry [where lookup = lookup and t = t, OF assms])

theorem processBinary_known_tag_witness:
  "let buf = \<lparr>le_pid = 7, le_tid = 8, le_sec = 9, le_nsec = 0,
       le_msg = put4LE 42 @ enc_event (EvString ''up'') @ [LF]\<rparr>
   in \<exists>entry. android_log_processBinaryLogBuffer [42 \<mapsto> ''boot''] 128 buf = Inr (Some entry) \<and>
    en_tag entry = ''boot'' \<and> en_messageLen entry = length (show_event (EvString ''up'')) \<and>
    en_message entry = show_event (EvString ''up'') @ [NUL]"
  unfolding Let_def by (rule processBinary_known_tag) simp_all

text \<open>The room the code leaves for the event is never checked against the generated tag: with
  an unknown tag and a buffer no larger than the tag's text, the message is written
  past the end of the buffer.\<close>

theorem processBinary_unknown_tag_overflows:
  assumes "lookup t = None" "le_msg buf = put4LE t @ enc_event e" "event_ok e"
    and "0 \<le> n" "n \<le> int (length (fmt_d (sint t))) + 3" "length (show_event e) < 2 ^ 31"
      "length (fmt_d (sint t)) < 2 ^ 31"
  shows "android_log_processBinaryLogBuffer lookup n buf = Inl BufferOverflow"
proof -
  let ?len = "n - (int (length (fmt_d (sint t))) + 3)"
  have "size_t_of (?len - 1) = nat (?len - 1 + 2 ^ 64)"
    unfolding size_t_of_def using assms(4,5,7) by (subst mod_add_self2 [symmetric]) (simp add: mod_pos_pos_trivial)
  then have room: "length (show_event e) < size_t_of (?len - 1)"
    using assms(4-7) by simp
  obtain result rest' out room' where r:
    "android_log_printBinaryEvent (Suc (length (enc_event e))) (enc_event e) (size_t_of (?len - 1)) =
       Inr (result, rest', out, room')"
    "printed (show_event e) [] (size_t_of (?len - 1)) (result, rest', out, room')"
    using print_event_printed [OF assms(3), of "Suc (length (enc_event e))" "[]" "size_t_of (?len - 1)"]
      size_enc_event [of e] by fastforce
  have "snd (snprintf (nat n) (CHR ''['' # fmt_d (sint t) @ '']'')) = length (fmt_d (sint t)) + 2"
    by (simp add: snprintf_def)
  then show ?thesis
    using r(1) assms(1,2,5) r(2) room
    by (simp add: android_log_processBinaryLogBuffer_def Let_def printed_def algebra_simps)
qed

theorem processBinary_unknown_tag_overflows_witness:
  "android_log_processBinaryLogBuffer (\<lambda>_. None) 3
     \<lparr>le_pid = 7, le_tid = 8, le_sec = 9, le_nsec = 0, le_msg = put4LE 42 @ enc_event (EvString ''up'')\<rparr> =
   Inl BufferOverflow"
  by (rule processBinary_unknown_tag_overflows [where t = 42 and e = "EvString ''up''"])
    (use length_fmt_d32 [of 42] in simp_all)

end
