(* ===== verification/Event_Tags.thy ===== *)
theory Event_Tags
  imports Log_Filter C_Format "HOL-Library.Multiset"
begin

text \<open>
  The map from event numbers to tags of \<open>event_tag_map.c\<close>: the two passes over the
  file, the sort, the check for duplicates and the binary search.

  The file is mapped privately and the code writes NULs into it behind its read
  pointer; as no byte is read after it was overwritten, the model reads a list
  from left to right and keeps each tag as the string up to its NUL. A read past
  the end of the mapping is the fault \<open>Uninitialised\<close>.
\<close>

section \<open>Definitions\<close>

record event_tag =
  et_index :: "32 word"
  et_str :: bytes

definition isCharWhitespace :: "char \<Rightarrow> bool" where
  "isCharWhitespace c \<longleftrightarrow> c = SPC \<or> c = LF \<or> c = CR \<or> c = TAB"

definition char_between :: "char \<Rightarrow> char \<Rightarrow> char \<Rightarrow> bool" where
  "char_between a c b \<longleftrightarrow> byte_val a \<le> byte_val c \<and> byte_val c \<le> byte_val b"

definition isCharValidTag :: "char \<Rightarrow> bool" where
  "isCharValidTag c \<longleftrightarrow>
     char_between CHR ''A'' c CHR ''Z'' \<or> char_between CHR ''a'' c CHR ''z'' \<or>
     char_between CHR ''0'' c CHR ''9'' \<or> c = CHR ''_''"

definition isCharDigit :: "char \<Rightarrow> bool" where
  "isCharDigit c \<longleftrightarrow> char_between CHR ''0'' c CHR ''9''"

text \<open>\<open>strtoul(s, &endp, 10)\<close> on digits, with a 64-bit \<open>unsigned long\<close>, stored in 32 bits.\<close>

definition digits_val :: "bytes \<Rightarrow> int" where
  "digits_val ds = foldl (\<lambda>r c. 10 * r + (byte_val c - byte_val CHR ''0'')) 0 ds"

definition strtoul10 :: "bytes \<Rightarrow> int" where
  "strtoul10 ds = min (digits_val ds) (2 ^ 64 - 1)"

text \<open>The first pass; \<open>unknown\<close> says that the line may still turn out to hold a tag.\<close>

fun count_loop :: "nat \<Rightarrow> bool \<Rightarrow> bytes \<Rightarrow> nat" where
  "count_loop numTags unknown [] = numTags"
| "count_loop numTags unknown (c # cs) =
     (if c = LF then count_loop numTags True cs
      else if unknown
      then if isCharDigit c then count_loop (numTags + 1) False cs
           else if isCharWhitespace c then count_loop numTags unknown cs
           else count_loop numTags False cs
      else count_loop numTags unknown cs)"

definition countMapLines :: "bytes \<Rightarrow> nat" where
  "countMapLines data = count_loop 0 True data"

text \<open>
  The second half of \<open>scanTagLine\<close>, from the place where the name should start: the
  name and the bytes after the line. None is the nonzero result.
\<close>

definition scan_name :: "bytes \<Rightarrow> fault + (bytes \<times> bytes) option" where
  "scan_name s =
     (case s of
        [] \<Rightarrow> Inl Uninitialised
      | c # cs \<Rightarrow>
          if c = LF then Inr None
          else let name = c # takeWhile isCharValidTag cs
               in case dropWhile isCharValidTag cs of
                    [] \<Rightarrow> Inl Uninitialised
                  | e # r \<Rightarrow>
                      if e = LF then Inr (Some (name, r))
                      else if isCharWhitespace e
                      then case dropWhile (\<lambda>c. c \<noteq> LF) r of
                             [] \<Rightarrow> Inl Uninitialised
                           | _ # r \<Rightarrow> Inr (Some (name, r))
                      else Inr None)"

text \<open>The argument starts at the first digit. The byte after the digits is overwritten by a
  NUL before it is looked at, and the name is searched after it.\<close>

definition scanTagLine :: "bytes \<Rightarrow> fault + (event_tag \<times> bytes) option" where
  "scanTagLine s =
     (case s of
        [] \<Rightarrow> Inl Uninitialised
      | c # cs \<Rightarrow>
          (case dropWhile isCharDigit cs of
             [] \<Rightarrow> Inl Uninitialised
           | _ # r \<Rightarrow>
               bindE (scan_name (dropWhile (\<lambda>c. c \<noteq> LF \<and> isCharWhitespace c) r)) (\<lambda>res.
               Inr (map_option (\<lambda>(name, r).
                 (\<lparr>et_index = word_of_int (strtoul10 (c # takeWhile isCharDigit cs)),
                   et_str = takeWhile (\<lambda>c. c \<noteq> NUL) name\<rparr>, r)) res))))"

declare dropWhile_eq_Nil_conv [simp del]

lemma scan_name_shorter: "scan_name s = Inr (Some (name, r)) \<Longrightarrow> length r < length s"
proof -
  assume a: "scan_name s = Inr (Some (name, r))"
  obtain c cs where s: "s = c # cs"
    using a by (cases s) (auto simp: scan_name_def)
  obtain e u where u: "dropWhile isCharValidTag cs = e # u"
    using a by (cases "dropWhile isCharValidTag cs") (auto simp: scan_name_def s Let_def split: if_splits)
  have "length r \<le> length u"
  proof (cases "dropWhile (\<lambda>c. c \<noteq> LF) u")
    case Nil
    with a show ?thesis by (auto simp: scan_name_def s u Let_def split: if_splits)
  next
    case (Cons x xs)
    with a dropWhile_shorter [OF Cons] show ?thesis
      by (auto simp: scan_name_def s u Let_def split: if_splits)
  qed
  with dropWhile_shorter [OF u] show ?thesis
    by (simp add: s)
qed

lemma scanTagLine_shorter:
  assumes "scanTagLine s = Inr (Some (tag, r))"
  shows "length r < length s"
proof -
  obtain c cs where s: "s = c # cs"
    using assms by (cases s) (auto simp: scanTagLine_def)
  obtain d r1 where r1: "dropWhile isCharDigit cs = d # r1"
    using assms by (cases "dropWhile isCharDigit cs") (auto simp: scanTagLine_def s)
  let ?r3 = "dropWhile (\<lambda>c. c \<noteq> LF \<and> isCharWhitespace c) r1"
  obtain name where "scan_name ?r3 = Inr (Some (name, r))"
    using assms by (auto simp: scanTagLine_def s r1 bindE_eq_Inr)
  then have "length r < length ?r3"
    by (rule scan_name_shorter)
  moreover have "length ?r3 \<le> length r1"
    by (rule length_dropWhile_le)
  moreover have "length r1 < length cs"
    using dropWhile_shorter [OF r1] .
  ultimately show ?thesis
    by (simp add: s)
qed

function parse_loop :: "nat \<Rightarrow> event_tag list \<Rightarrow> bool \<Rightarrow> bytes \<Rightarrow> fault + event_tag list option" where
  "parse_loop numTags tags lineStart s =
     (case s of
        [] \<Rightarrow> Inr (if length tags \<noteq> numTags then None else Some tags)
      | c # cs \<Rightarrow>
          if c = LF then parse_loop numTags tags True cs
          else if lineStart
          then if c = CHR ''#'' then parse_loop numTags tags False cs
               else if isCharDigit c
               then if length tags \<ge> numTags then Inr None
                    else (case scanTagLine s of
                            Inl e \<Rightarrow> Inl e
                          | Inr None \<Rightarrow> Inr None
                          | Inr (Some (tag, rest)) \<Rightarrow> parse_loop numTags (tags @ [tag]) True rest)
               else if isCharWhitespace c then parse_loop numTags tags lineStart cs
               else Inr None
          else parse_loop numTags tags lineStart cs)"
  by pat_completeness auto
termination
  by (relation "measure (\<lambda>(numTags, tags, lineStart, s). length s)") (auto dest: scanTagLine_shorter)

declare parse_loop.simps [simp del]

definition parseMapLines :: "nat \<Rightarrow> bytes \<Rightarrow> fault + event_tag list option" where
  "parseMapLines numTags data =
     (if data = [] then Inl Uninitialised
      else if last data \<noteq> LF then Inr None
      else parse_loop numTags [] True data)"

text \<open>The difference of two \<open>unsigned int\<close> as an \<open>int\<close>.\<close>

definition compareEventTags :: "event_tag \<Rightarrow> event_tag \<Rightarrow> int" where
  "compareEventTags t1 t2 = sint (et_index t1 - et_index t2)"

text \<open>
  \<open>qsort\<close>: the library promises a sorted permutation for a comparison that is an
  order; the insertion sort here stands for any such function.
\<close>

fun qsort_insert :: "('a \<Rightarrow> 'a \<Rightarrow> int) \<Rightarrow> 'a \<Rightarrow> 'a list \<Rightarrow> 'a list" where
  "qsort_insert cmp x [] = [x]"
| "qsort_insert cmp x (y # ys) = (if cmp x y \<le> 0 then x # y # ys else y # qsort_insert cmp x ys)"

definition qsort :: "('a \<Rightarrow> 'a \<Rightarrow> int) \<Rightarrow> 'a list \<Rightarrow> 'a list" where
  "qsort cmp xs = foldr (qsort_insert cmp) xs []"

fun has_adjacent_dup :: "event_tag list \<Rightarrow> bool" where
  "has_adjacent_dup (a # b # ts) \<longleftrightarrow> et_index b = et_index a \<or> has_adjacent_dup (b # ts)"
| "has_adjacent_dup ts \<longleftrightarrow> False"

definition sortTags :: "event_tag list \<Rightarrow> event_tag list option" where
  "sortTags tags =
     (let tags = qsort compareEventTags tags in if has_adjacent_dup tags then None else Some tags)"

definition processFile :: "bytes \<Rightarrow> fault + event_tag list option" where
  "processFile data =
     bindE (parseMapLines (countMapLines data) data) (\<lambda>r.
       Inr (case r of None \<Rightarrow> None | Some tags \<Rightarrow> sortTags tags))"

text \<open>\<open>android_openEventTagMap\<close>: \<open>mmap\<close> refuses an empty file; None is a NULL result.\<close>

definition android_openEventTagMap :: "bytes option \<Rightarrow> fault + event_tag list option" where
  "android_openEventTagMap file =
     (case file of
        None \<Rightarrow> Inr None
      | Some data \<Rightarrow> if data = [] then Inr None else processFile data)"

function lookup_loop :: "event_tag list \<Rightarrow> 32 word \<Rightarrow> int \<Rightarrow> int \<Rightarrow> bytes option" where
  "lookup_loop tags tag lo hi =
     (if lo \<le> hi
      then let mid = (lo + hi) div 2;
               cmp = sint (et_index (tags ! nat mid) - tag)
           in if cmp < 0 then lookup_loop tags tag (mid + 1) hi
              else if cmp > 0 then lookup_loop tags tag lo (mid - 1)
              else Some (et_str (tags ! nat mid))
      else None)"
  by pat_completeness auto
termination
  by (relation "measure (\<lambda>(tags, tag, lo, hi). nat (hi - lo + 1))") auto

declare lookup_loop.simps [simp del]

definition android_lookupEventTag :: "event_tag list \<Rightarrow> 32 word \<Rightarrow> bytes option" where
  "android_lookupEventTag tags tag = lookup_loop tags tag 0 (int (length tags) - 1)"

section \<open>The binary search\<close>

text \<open>Below \<open>2^31\<close> the difference of two indices as an \<open>int\<close> is the difference of the numbers.\<close>

definition small :: "32 word \<Rightarrow> bool" where
  "small w \<longleftrightarrow> uint w < 2 ^ 31"

definition tags_sorted :: "event_tag list \<Rightarrow> bool" where
  "tags_sorted tags \<longleftrightarrow> sorted_wrt (\<lambda>a b. uint (et_index a) < uint (et_index b)) tags"

definition tag_map :: "event_tag list \<Rightarrow> 32 word \<rightharpoonup> bytes" where
  "tag_map tags = map_of (map (\<lambda>t. (et_index t, et_str t)) tags)"

lemma small_sint: "small w \<Longrightarrow> sint w = uint w"
proof -
  assume "small w"
  then have "- (2 ^ 31) \<le> uint w" "uint w < 2 ^ 31"
    using uint_ge_0 [of w] unfolding small_def by linarith+
  then show "sint w = uint w"
    by (simp add: sint_uint signed_take_bit_int_eq_self)
qed

lemma small_diff:
  assumes "small a" "small b"
  shows "sint (a - b) = uint a - uint b"
proof -
  have "sint a = uint a" "sint b = uint b"
    using small_sint assms by simp_all
  moreover have "- (2 ^ 31) \<le> uint a - uint b" "uint a - uint b < 2 ^ 31"
    using assms uint_ge_0 [of a] uint_ge_0 [of b] unfolding small_def by linarith+
  ultimately show ?thesis
    by (simp add: sint_word_ariths signed_take_bit_int_eq_self)
qed

lemma tag_map_Some:
  "tags_sorted tags \<Longrightarrow> i < length tags \<Longrightarrow> tag_map tags (et_index (tags ! i)) = Some (et_str (tags ! i))"
proof (induction tags arbitrary: i)
  case Nil
  then show ?case by simp
next
  case (Cons t ts)
  show ?case
  proof (cases i)
    case 0
    then show ?thesis by (simp add: tag_map_def)
  next
    case (Suc j)
    then have "j < length ts" "uint (et_index t) < uint (et_index (ts ! j))"
      using Cons.prems by (auto simp: tags_sorted_def)
    moreover have "tags_sorted ts"
      using Cons.prems by (simp add: tags_sorted_def)
    ultimately show ?thesis
      using Cons.IH [of j] Suc by (auto simp: tag_map_def)
  qed
qed

lemma tag_map_None: "(\<And>i. i < length tags \<Longrightarrow> et_index (tags ! i) \<noteq> t) \<Longrightarrow> tag_map tags t = None"
  unfolding tag_map_def map_of_eq_None_iff by (fastforce simp: in_set_conv_nth)

lemma tags_sorted_nth:
  "tags_sorted tags \<Longrightarrow> i < j \<Longrightarrow> j < length tags \<Longrightarrow> uint (et_index (tags ! i)) < uint (et_index (tags ! j))"
  by (simp add: tags_sorted_def sorted_wrt_iff_nth_less)

lemma lookup_loop_correct:
  assumes s: "tags_sorted tags" and sm: "\<forall>t \<in> set tags. small (et_index t)" "small tag"
  shows "0 \<le> lo \<Longrightarrow> hi < int (length tags) \<Longrightarrow>
    (\<And>i. i < length tags \<Longrightarrow> int i < lo \<Longrightarrow> uint (et_index (tags ! i)) < uint tag) \<Longrightarrow>
    (\<And>i. i < length tags \<Longrightarrow> hi < int i \<Longrightarrow> uint tag < uint (et_index (tags ! i))) \<Longrightarrow>
    lookup_loop tags tag lo hi = tag_map tags tag"
proof (induction "nat (hi - lo + 1)" arbitrary: lo hi rule: less_induct)
  case less
  show ?case
  proof (cases "lo \<le> hi")
    case False
    have "et_index (tags ! i) \<noteq> tag" if i: "i < length tags" for i
    proof (cases "int i < lo")
      case True
      with less.prems(3) [OF i] show ?thesis by auto
    next
      case f: False
      then have "hi < int i" using False by simp
      with less.prems(4) [OF i] show ?thesis by auto
    qed
    then have "tag_map tags tag = None"
      by (rule tag_map_None)
    with False show ?thesis
      by (simp add: lookup_loop.simps [of tags tag lo hi])
  next
    case True
    let ?mid = "(lo + hi) div 2"
    let ?m = "nat ?mid"
    have mid: "lo \<le> ?mid" "?mid \<le> hi" "?m < length tags" "int ?m = ?mid"
      using True less.prems(1,2) by auto
    have cmp: "sint (et_index (tags ! ?m) - tag) = uint (et_index (tags ! ?m)) - uint tag"
      using sm mid(3) by (intro small_diff) auto
    have unfold: "lookup_loop tags tag lo hi =
        (if uint (et_index (tags ! ?m)) < uint tag then lookup_loop tags tag (?mid + 1) hi
         else if uint tag < uint (et_index (tags ! ?m)) then lookup_loop tags tag lo (?mid - 1)
         else Some (et_str (tags ! ?m)))"
      using True by (simp add: lookup_loop.simps [of tags tag lo hi] Let_def cmp)
    consider "uint (et_index (tags ! ?m)) < uint tag" | "uint tag < uint (et_index (tags ! ?m))"
      | "et_index (tags ! ?m) = tag"
      by (metis linorder_neqE word_uint_eqI)
    then show ?thesis
    proof cases
      case 1
      have "lookup_loop tags tag (?mid + 1) hi = tag_map tags tag"
      proof (rule less.hyps)
        show "nat (hi - (?mid + 1) + 1) < nat (hi - lo + 1)" using mid True by simp
        show "0 \<le> ?mid + 1" using mid less.prems(1) by simp
        show "hi < int (length tags)" by (rule less.prems(2))
        show "uint tag < uint (et_index (tags ! i))" if "i < length tags" "hi < int i" for i
          using that by (rule less.prems(4))
        show "uint (et_index (tags ! i)) < uint tag" if "i < length tags" "int i < ?mid + 1" for i
        proof (cases "i = ?m")
          case True
          with 1 show ?thesis by simp
        next
          case False
          then have "i < ?m" using that mid(4) by linarith
          from tags_sorted_nth [OF s this mid(3)] 1 show ?thesis by simp
        qed
      qed
      with 1 show ?thesis by (simp only: unfold if_True)
    next
      case 2
      have "lookup_loop tags tag lo (?mid - 1) = tag_map tags tag"
      proof (rule less.hyps)
        show "nat (?mid - 1 - lo + 1) < nat (hi - lo + 1)" using mid True by simp
        show "0 \<le> lo" by (rule less.prems(1))
        show "?mid - 1 < int (length tags)" using mid less.prems(2) by simp
        show "uint (et_index (tags ! i)) < uint tag" if "i < length tags" "int i < lo" for i
          using that by (rule less.prems(3))
        show "uint tag < uint (et_index (tags ! i))" if "i < length tags" "?mid - 1 < int i" for i
        proof (cases "i = ?m")
          case True
          with 2 show ?thesis by simp
        next
          case False
          then have "?m < i" using that mid(4) by linarith
          from tags_sorted_nth [OF s this that(1)] 2 show ?thesis by simp
        qed
      qed
      with 2 show ?thesis by (simp add: unfold)
    next
      case 3
      then show ?thesis
        using tag_map_Some [OF s mid(3)] by (simp add: unfold)
    qed
  qed
qed

lemma lookup_correct:
  assumes "tags_sorted tags" "\<forall>t \<in> set tags. small (et_index t)" "small tag"
  shows "android_lookupEventTag tags tag = tag_map tags tag"
  unfolding android_lookupEventTag_def by (rule lookup_loop_correct [OF assms]) auto

section \<open>Sorting\<close>

lemma mset_qsort_insert [simp]: "mset (qsort_insert cmp x ys) = add_mset x (mset ys)"
  by (induction cmp x ys rule: qsort_insert.induct) auto

lemma mset_qsort [simp]: "mset (qsort cmp xs) = mset xs"
  by (induction xs) (simp_all add: qsort_def)

lemma set_qsort_insert [simp]: "set (qsort_insert cmp x ys) = insert x (set ys)"
  by (induction cmp x ys rule: qsort_insert.induct) auto

lemma set_qsort [simp]: "set (qsort cmp xs) = set xs"
  by (induction xs) (simp_all add: qsort_def)

lemma sorted_wrt_strict:
  fixes key :: "'a \<Rightarrow> int"
  shows "sorted_wrt (\<lambda>a b. key a \<le> key b) xs \<Longrightarrow> distinct (map key xs) \<Longrightarrow>
    sorted_wrt (\<lambda>a b. key a < key b) xs"
  by (induction xs) (auto simp: order_less_le)

text \<open>What the library promises of \<open>qsort\<close>, for a comparison that orders by a key.\<close>

locale sort_by_key =
  fixes sort_fun :: "('a \<Rightarrow> 'a \<Rightarrow> int) \<Rightarrow> 'a list \<Rightarrow> 'a list"
  assumes perm: "mset (sort_fun cmp xs) = mset xs"
    and sorted: "(\<And>a b. a \<in> set xs \<Longrightarrow> b \<in> set xs \<Longrightarrow> cmp a b \<le> 0 \<longleftrightarrow> key a \<le> (key b :: int)) \<Longrightarrow>
      sorted_wrt (\<lambda>a b. key a \<le> key b) (sort_fun cmp xs)"
begin

lemma set_eq: "set (sort_fun cmp xs) = set xs"
  using arg_cong [OF perm, of set_mset] by simp

lemma strictly_sorted:
  assumes "\<And>a b. a \<in> set xs \<Longrightarrow> b \<in> set xs \<Longrightarrow> cmp a b \<le> 0 \<longleftrightarrow> key a \<le> (key b :: int)"
    and "distinct (map key xs)"
  shows "sorted_wrt (\<lambda>a b. key a < key b) (sort_fun cmp xs)"
proof -
  have "mset (map key (sort_fun cmp xs)) = mset (map key xs)"
    by (simp add: perm)
  then have "distinct (map key (sort_fun cmp xs))"
    using assms(2) mset_eq_imp_distinct_iff by blast
  with sorted [OF assms(1)] show ?thesis
    by (rule sorted_wrt_strict)
qed

end

lemma qsort_insert_sorted:
  "(\<And>a. a \<in> set ys \<Longrightarrow> cmp x a \<le> 0 \<longleftrightarrow> key x \<le> (key a :: int)) \<Longrightarrow>
   sorted_wrt (\<lambda>a b. key a \<le> key b) ys \<Longrightarrow> sorted_wrt (\<lambda>a b. key a \<le> key b) (qsort_insert cmp x ys)"
proof (induction ys)
  case Nil
  then show ?case by simp
next
  case (Cons y ys)
  then show ?case by fastforce
qed

lemma qsort_sorted:
  "(\<And>a b. a \<in> set xs \<Longrightarrow> b \<in> set xs \<Longrightarrow> cmp a b \<le> 0 \<longleftrightarrow> key a \<le> (key b :: int)) \<Longrightarrow>
   sorted_wrt (\<lambda>a b. key a \<le> key b) (qsort cmp xs)"
proof (induction xs)
  case Nil
  then show ?case by (simp add: qsort_def)
next
  case (Cons x xs)
  have set: "set (foldr (qsort_insert cmp) xs []) = set xs"
    using set_qsort [of cmp xs] by (simp add: qsort_def)
  have "sorted_wrt (\<lambda>a b. key a \<le> key b) (qsort cmp xs)"
    using Cons by simp
  then show ?case
    using Cons.prems unfolding qsort_def foldr.simps comp_def
    by (intro qsort_insert_sorted) (auto simp: set)
qed

interpretation lib_qsort: sort_by_key qsort
  by unfold_locales (simp_all add: qsort_sorted)

lemma no_adjacent_dup: "tags_sorted tags \<Longrightarrow> \<not> has_adjacent_dup tags"
  by (induction tags rule: has_adjacent_dup.induct) (auto simp: tags_sorted_def)

lemma tag_map_perm:
  assumes "distinct (map et_index tags)" "mset tags' = mset tags"
  shows "tag_map tags' = tag_map tags"
proof -
  let ?f = "\<lambda>t. (et_index t, et_str t)"
  have "mset (map et_index tags') = mset (map et_index tags)"
    using assms(2) by simp
  then have "distinct (map et_index tags')"
    using assms(1) mset_eq_imp_distinct_iff by blast
  then have "distinct (map fst (map ?f tags'))" "distinct (map fst (map ?f tags))"
    using assms(1) by (simp_all add: comp_def)
  moreover have "set (map ?f tags') = set (map ?f tags)"
    using arg_cong [OF assms(2), of set_mset] by simp
  ultimately show ?thesis
    unfolding tag_map_def by (simp only: map_of_inject_set)
qed

lemma sortTags_distinct:
  assumes "distinct (map et_index tags)" "\<forall>t \<in> set tags. small (et_index t)"
  shows "\<exists>tags'. sortTags tags = Some tags' \<and> tags_sorted tags' \<and> mset tags' = mset tags"
proof -
  let ?s = "qsort compareEventTags tags"
  have "compareEventTags a b \<le> 0 \<longleftrightarrow> uint (et_index a) \<le> uint (et_index b)"
    if "a \<in> set tags" "b \<in> set tags" for a b
    using that assms(2) by (simp add: compareEventTags_def small_diff)
  moreover have "distinct (map (\<lambda>t. uint (et_index t)) tags)"
    using assms(1) by (auto simp: distinct_map inj_on_def dest: word_uint_eqI)
  ultimately have "tags_sorted ?s"
    unfolding tags_sorted_def by (rule lib_qsort.strictly_sorted)
  then show ?thesis
    by (simp add: sortTags_def Let_def no_adjacent_dup)
qed

section \<open>Parsing a printed map\<close>

text \<open>A line of a map file, and the entries that can be written as one.\<close>

definition tag_line :: "event_tag \<Rightarrow> bytes" where
  "tag_line t = fmt_u (unat (et_index t)) @ SPC # et_str t @ [LF]"

definition name_ok :: "bytes \<Rightarrow> bool" where
  "name_ok s \<longleftrightarrow> s \<noteq> [] \<and> list_all isCharValidTag s"

lemma isCharDigit_decimal: "isCharDigit c \<longleftrightarrow> decimal_char c"
  by (simp add: isCharDigit_def char_between_def decimal_char_def)

lemma fmt_u_digits: "list_all isCharDigit (fmt_u n)"
  using fmt_u_decimal [of n] by (simp add: list_all_iff isCharDigit_decimal)

lemma digits_val_fmt_u: "digits_val (fmt_u n) = int n"
  using fmt_u_value [of n] by (simp add: digits_val_def mult.commute)

lemma takeWhile_stop: "list_all P xs \<Longrightarrow> \<not> P y \<Longrightarrow> takeWhile P (xs @ y # ys) = xs"
  by (induction xs) auto

lemma dropWhile_stop: "list_all P xs \<Longrightarrow> \<not> P y \<Longrightarrow> dropWhile P (xs @ y # ys) = y # ys"
  by (induction xs) auto

lemma valid_tag_plain:
  "isCharValidTag c \<Longrightarrow> c \<noteq> LF \<and> c \<noteq> NUL \<and> \<not> isCharWhitespace c"
  by (auto simp: isCharValidTag_def char_between_def isCharWhitespace_def)

lemma strtoul10_word: "word_of_int (strtoul10 (fmt_u (unat w))) = (w :: 32 word)"
proof -
  have "int (unat w) < 2 ^ 32"
    using uint_bounded [of w] by simp
  then have "strtoul10 (fmt_u (unat w)) = uint w"
    by (simp add: strtoul10_def digits_val_fmt_u)
  then show ?thesis by simp
qed

lemma not_special: "\<not> isCharDigit SPC" "\<not> isCharValidTag LF" "isCharWhitespace SPC"
  by (auto simp: isCharDigit_def isCharValidTag_def char_between_def isCharWhitespace_def)

lemma scanTagLine_line:
  assumes "name_ok (et_str t)"
  shows "scanTagLine (tag_line t @ rest) = Inr (Some (t, rest))"
proof -
  obtain d ds where ds: "fmt_u (unat (et_index t)) = d # ds"
    by (cases "fmt_u (unat (et_index t))") auto
  have digits: "list_all isCharDigit ds"
    using fmt_u_digits [of "unat (et_index t)"] ds by simp
  obtain n ns where ns: "et_str t = n # ns" "isCharValidTag n" "list_all isCharValidTag ns"
    using assms by (cases "et_str t") (auto simp: name_ok_def)
  have name: "scan_name (n # ns @ LF # rest) = Inr (Some (et_str t, rest))"
    using ns valid_tag_plain [OF ns(2)]
    by (simp add: scan_name_def takeWhile_stop dropWhile_stop not_special Let_def)
  have nul: "takeWhile (\<lambda>c. c \<noteq> NUL) (et_str t) = et_str t"
    using assms valid_tag_plain by (auto simp: name_ok_def list_all_iff takeWhile_eq_all_conv)
  have skip: "dropWhile (\<lambda>c. c \<noteq> LF \<and> isCharWhitespace c) (n # ns @ LF # rest) = n # ns @ LF # rest"
    using valid_tag_plain [OF ns(2)] by simp
  have line: "tag_line t @ rest = d # ds @ SPC # n # ns @ LF # rest"
    by (simp add: tag_line_def ds ns)
  have "word_of_int (strtoul10 (d # ds)) = et_index t"
    using strtoul10_word [of "et_index t"] ds by simp
  then show ?thesis
    unfolding line scanTagLine_def
    using digits name nul skip
    by (simp add: takeWhile_stop dropWhile_stop not_special)
qed

lemma tag_line_first:
  obtains d s where "tag_line t = d # s" "isCharDigit d"
proof (cases "fmt_u (unat (et_index t))")
  case (Cons d s)
  with fmt_u_digits [of "unat (et_index t)"] show ?thesis
    by (intro that [of d]) (auto simp: tag_line_def)
qed simp

lemma digit_plain: "isCharDigit c \<Longrightarrow> c \<noteq> LF \<and> c \<noteq> CHR ''#''"
  by (auto simp: isCharDigit_def char_between_def)

lemma count_loop_skip:
  "LF \<notin> set s \<Longrightarrow> count_loop n False (s @ LF # rest) = count_loop n True rest"
  by (induction s) auto

lemma count_loop_lines:
  "\<forall>t \<in> set ts. name_ok (et_str t) \<Longrightarrow> count_loop n True (concat (map tag_line ts)) = n + length ts"
proof (induction ts arbitrary: n)
  case Nil
  then show ?case by simp
next
  case (Cons t ts)
  obtain d s where d: "fmt_u (unat (et_index t)) = d # s" "isCharDigit d"
    using fmt_u_digits [of "unat (et_index t)"] by (cases "fmt_u (unat (et_index t))") auto
  have "list_all isCharDigit s"
    using fmt_u_digits [of "unat (et_index t)"] d by simp
  then have "LF \<notin> set (s @ SPC # et_str t)"
    using Cons.prems digit_plain valid_tag_plain by (fastforce simp: name_ok_def list_all_iff)
  from count_loop_skip [OF this, of "n + 1" "concat (map tag_line ts)"] Cons
  have "count_loop (n + 1) False (s @ SPC # et_str t @ LF # concat (map tag_line ts)) = n + length (t # ts)"
    by simp
  moreover have "concat (map tag_line (t # ts)) = d # s @ SPC # et_str t @ LF # concat (map tag_line ts)"
    by (simp add: tag_line_def d)
  ultimately show ?case
    using d(2) digit_plain [OF d(2)] by simp
qed

lemma parse_loop_lines:
  "\<forall>t \<in> set ts. name_ok (et_str t) \<Longrightarrow> n = length acc + length ts \<Longrightarrow>
   parse_loop n acc True (concat (map tag_line ts)) = Inr (Some (acc @ ts))"
proof (induction ts arbitrary: acc)
  case Nil
  then show ?case by (simp add: parse_loop.simps)
next
  case (Cons t ts)
  obtain d s where d: "tag_line t = d # s" "isCharDigit d"
    by (rule tag_line_first)
  have scan: "scanTagLine (d # s @ concat (map tag_line ts)) = Inr (Some (t, concat (map tag_line ts)))"
    using scanTagLine_line [of t "concat (map tag_line ts)"] Cons.prems d by simp
  have "parse_loop n (acc @ [t]) True (concat (map tag_line ts)) = Inr (Some ((acc @ [t]) @ ts))"
    using Cons by simp
  then show ?case
    using scan d digit_plain [OF d(2)] Cons.prems
    by (simp add: parse_loop.simps [of _ acc])
qed

lemma open_tag_file:
  assumes "ts \<noteq> []" "list_all (\<lambda>t. name_ok (et_str t) \<and> small (et_index t)) ts" "distinct (map et_index ts)"
  shows "\<exists>tags. android_openEventTagMap (Some (concat (map tag_line ts))) = Inr (Some tags) \<and>
    tags_sorted tags \<and> (\<forall>t \<in> set tags. small (et_index t)) \<and> tag_map tags = tag_map ts"
proof -
  let ?data = "concat (map tag_line ts)"
  have ok: "\<forall>t \<in> set ts. name_ok (et_str t)" "\<forall>t \<in> set ts. small (et_index t)"
    using assms(2) by (auto simp: list_all_iff)
  obtain u us where "ts = us @ [u]"
    using assms(1) by (cases ts rule: rev_cases) auto
  then have data: "?data \<noteq> []" "last ?data = LF"
    by (simp_all add: tag_line_def)
  obtain tags where tags: "sortTags ts = Some tags" "tags_sorted tags" "mset tags = mset ts"
    using sortTags_distinct [OF assms(3) ok(2)] by blast
  have "parseMapLines (countMapLines ?data) ?data = Inr (Some ts)"
    using data parse_loop_lines [OF ok(1), of "length ts" "[]"] count_loop_lines [OF ok(1), of 0]
    by (simp add: parseMapLines_def countMapLines_def)
  then have "android_openEventTagMap (Some ?data) = Inr (Some tags)"
    using data(1) tags(1) by (simp add: android_openEventTagMap_def processFile_def)
  moreover have "set tags = set ts"
    using arg_cong [OF tags(3), of set_mset] by simp
  moreover have "tag_map tags = tag_map ts"
    by (rule tag_map_perm [OF assms(3) tags(3)])
  ultimately show ?thesis
    using tags(2) ok(2) by auto
qed

text \<open>C25: A file of lines \<open>number name\<close> with different numbers below \<open>2^31\<close> is read into a table
  in which looking up any such number finds the name on its line, or nothing when no
  line has it, whatever the order of the lines.\<close>

theorem tag_file_roundtrip:
  assumes "ts \<noteq> []" "list_all (\<lambda>t. name_ok (et_str t) \<and> small (et_index t)) ts" "distinct (map et_index ts)"
    and "small n"
  shows "\<exists>tags. android_openEventTagMap (Some (concat (map tag_line ts))) = Inr (Some tags) \<and>
    android_lookupEventTag tags n = tag_map ts n"
  using open_tag_file [OF assms(1-3)] lookup_correct [OF _ _ assms(4)] by fastforce

theorem tag_file_roundtrip_witness:
  "\<exists>tags. android_openEventTagMap (Some (concat (map tag_line
        [\<lparr>et_index = 42, et_str = ''answer''\<rparr>, \<lparr>et_index = 7, et_str = ''boot''\<rparr>]))) = Inr (Some tags) \<and>
    android_lookupEventTag tags 7 =
      tag_map [\<lparr>et_index = 42, et_str = ''answer''\<rparr>, \<lparr>et_index = 7, et_str = ''boot''\<rparr>] 7"
  by (rule tag_file_roundtrip)
    (simp_all add: name_ok_def small_def isCharValidTag_def char_between_def)

text \<open>A line with a number and nothing else is not reported: the newline is overwritten by
  the NUL that ends the digits, and the next line is taken as the name.\<close>

theorem missing_name_takes_next_line:
  assumes "isCharDigit d" "list_all isCharDigit ds" "name_ok name"
  shows "scanTagLine (d # ds @ LF # name @ LF # rest) =
    Inr (Some (\<lparr>et_index = word_of_int (strtoul10 (d # ds)), et_str = name\<rparr>, rest))"
proof -
  obtain n ns where ns: "name = n # ns" "isCharValidTag n" "list_all isCharValidTag ns"
    using assms(3) by (cases name) (auto simp: name_ok_def)
  have "scan_name (n # ns @ LF # rest) = Inr (Some (name, rest))"
    using ns valid_tag_plain [OF ns(2)]
    by (simp add: scan_name_def takeWhile_stop dropWhile_stop not_special Let_def)
  moreover have "takeWhile (\<lambda>c. c \<noteq> NUL) name = name"
    using assms(3) valid_tag_plain by (auto simp: name_ok_def list_all_iff takeWhile_eq_all_conv)
  moreover have "\<not> isCharDigit LF"
    by (simp add: isCharDigit_def char_between_def)
  ultimately show ?thesis
    using assms(2) ns valid_tag_plain [OF ns(2)]
    by (simp add: scanTagLine_def takeWhile_stop dropWhile_stop)
qed

theorem missing_name_takes_next_line_witness:
  "scanTagLine (CHR ''4'' # ''2'' @ LF # ''boot'' @ LF # []) =
    Inr (Some (\<lparr>et_index = word_of_int (strtoul10 ''42''), et_str = ''boot''\<rparr>, []))"
  by (rule missing_name_takes_next_line)
    (simp_all add: isCharDigit_def name_ok_def isCharValidTag_def char_between_def)

section \<open>The contract of the table\<close>

interpretation event_tags: lookup_table android_lookupEventTag tag_map
    "\<lambda>tags. tags_sorted tags \<and> (\<forall>t \<in> set tags. small (et_index t))" small
  by unfold_locales (simp add: lookup_correct)

end
