(* ===== verification/Log_Pipeline.thy ===== *)
theory Log_Pipeline
  imports Log_Event Event_Tags
begin

text \<open>
  The components of liblog together: a log entry from the kernel driver to the line
  that is printed, and a binary entry with a file of tags.
\<close>

section \<open>Binary entries and the table of tags\<close>

text \<open>The part of a table of tags that the log printer uses.\<close>

locale tag_names = lookup_table lookup abs ok legal
  for lookup :: "'m \<Rightarrow> 32 word \<Rightarrow> bytes option" and abs :: "'m \<Rightarrow> 32 word \<rightharpoonup> bytes"
    and ok :: "'m \<Rightarrow> bool" and legal :: "32 word \<Rightarrow> bool"
begin

lemma binary_entry:
  assumes "ok m" "legal t" "abs m t = Some tag"
    and "2 \<le> n" "n < 2 ^ 31" "le_msg buf = put4LE t @ enc_event e @ rest"
    and "event_ok e" "int (length (show_event e)) < n - 1"
  shows "\<exists>entry. android_log_processBinaryLogBuffer (lookup m) n buf = Inr (Some entry) \<and>
    en_tag entry = tag \<and> en_messageLen entry = length (show_event e) \<and>
    en_message entry = show_event e @ [NUL]"
  by (rule known_tag_entry [where lookup = "lookup m" and t = t, OF assms(4-6) found [OF assms(1-3)] assms(7,8)])

end

interpretation tag_file: tag_names android_lookupEventTag tag_map
    "\<lambda>tags. tags_sorted tags \<and> (\<forall>t \<in> set tags. small (et_index t))" small
  by unfold_locales

section \<open>A text entry from the writer to the reader\<close>

text \<open>The calls a reader of the log makes for one entry: take the entry apart, ask the filters,
  print. The result is what the reader hands to \<open>write\<close>.\<close>

definition read_entry :: "log_format \<Rightarrow> bytes \<Rightarrow> logger_entry \<Rightarrow> fault + bytes" where
  "read_entry fmt time buf =
     (case android_log_processLogBuffer buf of
        None \<Rightarrow> Inr []
      | Some (buf', e) \<Rightarrow>
          if android_log_shouldPrintLine fmt (en_tag e) (en_priority e)
          then bindE (android_log_formatLogLine fmt time 512 True e) (\<lambda>r.
                 Inr (case r of None \<Rightarrow> [] | Some (out, len) \<Rightarrow> take len out))
          else Inr [])"

text \<open>C11: From writer to reader, with the filters given as text: an entry whose priority reaches
  that of the rules for its tag is printed with every line of its message in the chosen
  format, any other entry is not printed, and no step faults.\<close>

theorem read_entry_correct:
  assumes "list_all rule_ok rules" "le_msg buf = wire_text pri tag msg"
    and "NUL \<notin> set tag" "NUL \<notin> set msg" "length msg < 2 ^ 48"
  shows "\<exists>f. android_log_addFilterString fmt (rules_text rules) = (True, f) \<and>
    read_entry f time buf =
      Inr (if pri_val (spec_pri (fold spec_rule rules (filter_abs fmt)) tag) \<le> byte_val pri
           then log_text f time \<lparr>en_tv_sec = le_sec buf, en_tv_nsec = le_nsec buf, en_priority = byte_val pri,
             en_pid = le_pid buf, en_tid = le_tid buf, en_tag = tag, en_messageLen = length msg,
             en_message = msg @ [NUL]\<rparr>
           else [])"
proof -
  let ?e = "\<lparr>en_tv_sec = le_sec buf, en_tv_nsec = le_nsec buf, en_priority = byte_val pri,
             en_pid = le_pid buf, en_tid = le_tid buf, en_tag = tag, en_messageLen = length msg,
             en_message = msg @ [NUL]\<rparr>"
  obtain f where f: "android_log_addFilterString fmt (rules_text rules) = (True, f)"
      "filter_abs f = fold spec_rule rules (filter_abs fmt)"
    using add_rules [OF assms(1), of fmt] by blast
  have "android_log_processLogBuffer buf = Some (buf, ?e)"
    using wire_entry [of buf pri tag msg "[]"] assms by simp
  moreover have "android_log_formatLogLine f time 512 True ?e =
      Inr (Some (log_text f time ?e, length (log_text f time ?e)))"
    using assms by (intro format_line) simp_all
  ultimately have "read_entry f time buf =
      Inr (if pri_val (spec_pri (filter_abs f) tag) \<le> byte_val pri then log_text f time ?e else [])"
    by (simp add: read_entry_def android_log_shouldPrintLine_def filterPriForTag_abs)
  with f show ?thesis
    by (intro exI [of _ f]) simp
qed

theorem read_entry_correct_witness:
  "let buf = \<lparr>le_pid = 7, le_tid = 8, le_sec = 9, le_nsec = 0, le_msg = wire_text CHR 0x04 ''gps'' (''on'' @ LF # ''off'')\<rparr>
   in \<exists>f. android_log_addFilterString android_log_format_new (rules_text [(''gps'', CHR ''i'')]) = (True, f) \<and>
    read_entry f ''01-01 00:00:00'' buf =
      Inr (if pri_val (spec_pri (fold spec_rule [(''gps'', CHR ''i'')] (filter_abs android_log_format_new)) ''gps'')
              \<le> byte_val CHR 0x04
           then log_text f ''01-01 00:00:00'' \<lparr>en_tv_sec = le_sec buf, en_tv_nsec = le_nsec buf,
             en_priority = byte_val CHR 0x04, en_pid = le_pid buf, en_tid = le_tid buf, en_tag = ''gps'',
             en_messageLen = length (''on'' @ LF # ''off''), en_message = (''on'' @ LF # ''off'') @ [NUL]\<rparr>
           else [])"
  unfolding Let_def
  by (rule read_entry_correct) (simp_all add: rule_ok_def filterCharToPri_def tolower_char_def Let_def)

section \<open>A binary entry and the file of tags\<close>

text \<open>C26: With a file of tags \<open>number name\<close>, a binary entry whose tag is in the file gets the
  name of its line, and the event printed as text, with its length, as message.\<close>

theorem binary_entry_named_by_file:
  assumes "ts \<noteq> []" "list_all (\<lambda>t. name_ok (et_str t) \<and> small (et_index t)) ts" "distinct (map et_index ts)"
    and "small t" "tag_map ts t = Some tag" "2 \<le> n" "n < 2 ^ 31"
    and "le_msg buf = put4LE t @ enc_event e @ rest" "event_ok e" "int (length (show_event e)) < n - 1"
  shows "\<exists>tags entry. android_openEventTagMap (Some (concat (map tag_line ts))) = Inr (Some tags) \<and>
    android_log_processBinaryLogBuffer (android_lookupEventTag tags) n buf = Inr (Some entry) \<and>
    en_tag entry = tag \<and> en_messageLen entry = length (show_event e) \<and>
    en_message entry = show_event e @ [NUL]"
proof -
  obtain tags where tags: "android_openEventTagMap (Some (concat (map tag_line ts))) = Inr (Some tags)"
      "tags_sorted tags" "\<forall>t \<in> set tags. small (et_index t)" "tag_map tags = tag_map ts"
    using open_tag_file [OF assms(1-3)] by blast
  then show ?thesis
    using tag_file.binary_entry [of tags t tag n buf e rest] assms(4-10) by simp
qed

theorem binary_entry_named_by_file_witness:
  "\<exists>tags entry. android_openEventTagMap (Some (concat (map tag_line
        [\<lparr>et_index = 42, et_str = ''boot''\<rparr>]))) = Inr (Some tags) \<and>
    android_log_processBinaryLogBuffer (android_lookupEventTag tags) 128
      \<lparr>le_pid = 7, le_tid = 8, le_sec = 9, le_nsec = 0, le_msg = put4LE 42 @ enc_event (EvString ''up'') @ []\<rparr> =
      Inr (Some entry) \<and>
    en_tag entry = ''boot'' \<and> en_messageLen entry = length (show_event (EvString ''up'')) \<and>
    en_message entry = show_event (EvString ''up'') @ [NUL]"
  by (rule binary_entry_named_by_file [where t = 42])
    (simp_all add: name_ok_def small_def isCharValidTag_def char_between_def tag_map_def)

end
