(* ===== verification/Hashmap.thy ===== *)
theory Hashmap
  imports Interfaces "HOL-Library.Multiset"
begin

text \<open>
  The hash table of \<open>libs/libcutils/hashmap.c\<close>: buckets of chained entries, doubled when the
  load exceeds 3/4. The functions the table is created with, \<open>map->hash\<close> and
  \<open>map->equals\<close>, read the memory behind a key, so they are arguments of the operations that
  may fault. A key is the pointer the client gives. The result of each allocation is an
  argument; \<open>errno\<close> is passed through.
\<close>

section \<open>The table\<close>

record ('k, 'v) hm_entry =
  he_key :: 'k
  he_hash :: "32 word"
  he_value :: 'v

text \<open>A chain is the list of its entries; \<open>bucketCount\<close> is the length of the array.\<close>

record ('k, 'v) hashmap =
  hm_buckets :: "('k, 'v) hm_entry list list"
  hm_size :: nat

definition ENOMEM :: int where "ENOMEM = 12"

text \<open>The \<open>while\<close> loop that makes the number of buckets a power of two, in \<open>size_t\<close>.\<close>

partial_function (option) bucket_count_loop :: "nat \<Rightarrow> nat \<Rightarrow> nat option" where
  "bucket_count_loop minimum n =
     (if n \<le> minimum then bucket_count_loop minimum (n * 2 mod 2 ^ 64) else Some n)"

definition new_hashmap :: "nat \<Rightarrow> ('k, 'v) hashmap" where
  "new_hashmap n = \<lparr>hm_buckets = replicate n [], hm_size = 0\<rparr>"

text \<open>The outer option is None when the loop does not end, the inner one for the result \<open>NULL\<close>.\<close>

definition hashmapCreate :: "nat \<Rightarrow> bool \<Rightarrow> bool \<Rightarrow> ('k, 'v) hashmap option option" where
  "hashmapCreate initialCapacity malloc_ok calloc_ok =
     (if \<not> malloc_ok then Some None
      else case bucket_count_loop (initialCapacity * 4 mod 2 ^ 64 div 3) 1 of
             None \<Rightarrow> None
           | Some n \<Rightarrow> if calloc_ok \<and> n * 8 < 2 ^ 64 then Some (Some (new_hashmap n)) else Some None)"

text \<open>The secondary hash, on 32-bit integers that wrap; the right shifts are unsigned.\<close>

definition mix_hash :: "32 word \<Rightarrow> 32 word" where
  "mix_hash h =
     (let h = h + NOT (push_bit 9 h);
          h = h XOR drop_bit 14 h;
          h = h + push_bit 4 h;
          h = h XOR drop_bit 10 h
      in h)"

definition hashKey :: "('k \<Rightarrow> fault + 32 word) \<Rightarrow> 'k \<Rightarrow> fault + 32 word" where
  "hashKey hash key = bindE (hash key) (\<lambda>h. Inr (mix_hash h))"

definition hashmapSize :: "('k, 'v) hashmap \<Rightarrow> nat" where
  "hashmapSize m = hm_size m"

text \<open>The hash is sign-extended to \<open>size_t\<close>.\<close>

definition calculateIndex :: "nat \<Rightarrow> 32 word \<Rightarrow> nat" where
  "calculateIndex bucketCount h = unat ((scast h :: 64 word) AND (of_nat bucketCount - 1))"

text \<open>The loops of \<open>expandIfNecessary\<close>: every entry goes to the front of its new bucket.\<close>

fun move_chain ::
  "nat \<Rightarrow> ('k, 'v) hm_entry list \<Rightarrow> ('k, 'v) hm_entry list list \<Rightarrow> ('k, 'v) hm_entry list list" where
  "move_chain n [] nb = nb"
| "move_chain n (e # es) nb =
     (let i = calculateIndex n (he_hash e) in move_chain n es (nb[i := e # nb ! i]))"

text \<open>\<open>calloc\<close> fails, and sets \<open>errno\<close>, without memory or when the number of bytes is too big.\<close>

definition expandIfNecessary :: "bool \<Rightarrow> int \<Rightarrow> ('k, 'v) hashmap \<Rightarrow> int \<times> ('k, 'v) hashmap" where
  "expandIfNecessary calloc_ok errno m =
     (let bucketCount = length (hm_buckets m)
      in if hm_size m > bucketCount * 3 div 4 then
           (let n = bucketCount * 2 in
            if \<not> calloc_ok \<or> n * 8 \<ge> 2 ^ 64 then (ENOMEM, m)
            else (errno, m\<lparr>hm_buckets := fold (move_chain n) (hm_buckets m) (replicate n [])\<rparr>))
         else (errno, m))"

text \<open>The hash of a block of memory, with \<open>char\<close> signed as on x86.\<close>

definition char_word :: "char \<Rightarrow> 32 word" where
  "char_word c = scast (word_of_int (byte_val c) :: 8 word)"

definition hashmapHash :: "bytes \<Rightarrow> 32 word" where
  "hashmapHash data = foldl (\<lambda>h c. h * 31 + char_word c) (of_nat (length data)) data"

definition createEntry :: "'k \<Rightarrow> 32 word \<Rightarrow> 'v \<Rightarrow> ('k, 'v) hm_entry" where
  "createEntry key hash value = \<lparr>he_key = key, he_hash = hash, he_value = value\<rparr>"

text \<open>Equal pointers are equal keys without a look at the memory.\<close>

definition equalKeys ::
  "('k \<Rightarrow> 'k \<Rightarrow> fault + bool) \<Rightarrow> 'k \<Rightarrow> 32 word \<Rightarrow> 'k \<Rightarrow> 32 word \<Rightarrow> fault + bool" where
  "equalKeys equals keyA hashA keyB hashB =
     (if keyA = keyB then Inr True
      else if hashA \<noteq> hashB then Inr False
      else equals keyA keyB)"

text \<open>The walk along a chain: the value of the entry found and the chain afterwards. For
  \<open>hashmapPut\<close> the entry found gets the new value, at the end a new entry is linked.\<close>

fun chain_put ::
  "('k \<Rightarrow> 'k \<Rightarrow> fault + bool) \<Rightarrow> bool \<Rightarrow> 'k \<Rightarrow> 32 word \<Rightarrow> 'v \<Rightarrow> ('k, 'v) hm_entry list \<Rightarrow>
   fault + 'v option \<times> ('k, 'v) hm_entry list" where
  "chain_put equals malloc_ok key hash value [] =
     Inr (None, if malloc_ok then [createEntry key hash value] else [])"
| "chain_put equals malloc_ok key hash value (e # es) =
     bindE (equalKeys equals (he_key e) (he_hash e) key hash) (\<lambda>same.
     if same then Inr (Some (he_value e), e\<lparr>he_value := value\<rparr> # es)
     else bindE (chain_put equals malloc_ok key hash value es) (\<lambda>(old, es'). Inr (old, e # es')))"

fun chain_get ::
  "('k \<Rightarrow> 'k \<Rightarrow> fault + bool) \<Rightarrow> 'k \<Rightarrow> 32 word \<Rightarrow> ('k, 'v) hm_entry list \<Rightarrow> fault + 'v option" where
  "chain_get equals key hash [] = Inr None"
| "chain_get equals key hash (e # es) =
     bindE (equalKeys equals (he_key e) (he_hash e) key hash) (\<lambda>same.
     if same then Inr (Some (he_value e)) else chain_get equals key hash es)"

fun chain_remove ::
  "('k \<Rightarrow> 'k \<Rightarrow> fault + bool) \<Rightarrow> 'k \<Rightarrow> 32 word \<Rightarrow> ('k, 'v) hm_entry list \<Rightarrow>
   fault + 'v option \<times> ('k, 'v) hm_entry list" where
  "chain_remove equals key hash [] = Inr (None, [])"
| "chain_remove equals key hash (e # es) =
     bindE (equalKeys equals (he_key e) (he_hash e) key hash) (\<lambda>same.
     if same then Inr (Some (he_value e), es)
     else bindE (chain_remove equals key hash es) (\<lambda>(old, es'). Inr (old, e # es')))"

text \<open>The operations. None is the result \<open>NULL\<close>.\<close>

definition hashmapPut ::
  "('k \<Rightarrow> fault + 32 word) \<Rightarrow> ('k \<Rightarrow> 'k \<Rightarrow> fault + bool) \<Rightarrow> bool \<Rightarrow> bool \<Rightarrow> int \<Rightarrow>
   ('k, 'v) hashmap \<Rightarrow> 'k \<Rightarrow> 'v \<Rightarrow> fault + 'v option \<times> int \<times> ('k, 'v) hashmap" where
  "hashmapPut hash equals malloc_ok calloc_ok errno m key value =
     bindE (hashKey hash key) (\<lambda>h.
     let index = calculateIndex (length (hm_buckets m)) h in
     bindE (chain_put equals malloc_ok key h value (hm_buckets m ! index)) (\<lambda>(old, chain).
     let m = m\<lparr>hm_buckets := (hm_buckets m)[index := chain]\<rparr> in
     case old of
       Some oldValue \<Rightarrow> Inr (Some oldValue, errno, m)
     | None \<Rightarrow>
         if \<not> malloc_ok then Inr (None, ENOMEM, m)
         else Inr (None, expandIfNecessary calloc_ok errno (m\<lparr>hm_size := hm_size m + 1\<rparr>))))"

definition hashmapGet ::
  "('k \<Rightarrow> fault + 32 word) \<Rightarrow> ('k \<Rightarrow> 'k \<Rightarrow> fault + bool) \<Rightarrow> ('k, 'v) hashmap \<Rightarrow> 'k \<Rightarrow> fault + 'v option" where
  "hashmapGet hash equals m key =
     bindE (hashKey hash key) (\<lambda>h.
     chain_get equals key h (hm_buckets m ! calculateIndex (length (hm_buckets m)) h))"

text \<open>The same walk, with the answer whether there is an entry.\<close>

definition hashmapContainsKey ::
  "('k \<Rightarrow> fault + 32 word) \<Rightarrow> ('k \<Rightarrow> 'k \<Rightarrow> fault + bool) \<Rightarrow> ('k, 'v) hashmap \<Rightarrow> 'k \<Rightarrow> fault + bool" where
  "hashmapContainsKey hash equals m key =
     bindE (hashKey hash key) (\<lambda>h.
     bindE (chain_get equals key h (hm_buckets m ! calculateIndex (length (hm_buckets m)) h)) (\<lambda>v.
     Inr (v \<noteq> None)))"

text \<open>\<open>initialValue\<close> runs while the entry is linked with the value \<open>NULL\<close>; it is a function of
  the key here, so it does not use the table.\<close>

definition hashmapMemoize ::
  "('k \<Rightarrow> fault + 32 word) \<Rightarrow> ('k \<Rightarrow> 'k \<Rightarrow> fault + bool) \<Rightarrow> bool \<Rightarrow> bool \<Rightarrow> int \<Rightarrow>
   ('k, 'v) hashmap \<Rightarrow> 'k \<Rightarrow> ('k \<Rightarrow> 'v) \<Rightarrow> fault + 'v option \<times> int \<times> ('k, 'v) hashmap" where
  "hashmapMemoize hash equals malloc_ok calloc_ok errno m key initialValue =
     bindE (hashKey hash key) (\<lambda>h.
     let index = calculateIndex (length (hm_buckets m)) h in
     bindE (chain_get equals key h (hm_buckets m ! index)) (\<lambda>found.
     case found of
       Some value \<Rightarrow> Inr (Some value, errno, m)
     | None \<Rightarrow>
         if \<not> malloc_ok then Inr (None, ENOMEM, m)
         else let value = initialValue key;
                  chain = hm_buckets m ! index @ [createEntry key h value];
                  m = m\<lparr>hm_buckets := (hm_buckets m)[index := chain], hm_size := hm_size m + 1\<rparr>
              in Inr (Some value, expandIfNecessary calloc_ok errno m)))"

definition hashmapRemove ::
  "('k \<Rightarrow> fault + 32 word) \<Rightarrow> ('k \<Rightarrow> 'k \<Rightarrow> fault + bool) \<Rightarrow> ('k, 'v) hashmap \<Rightarrow> 'k \<Rightarrow>
   fault + 'v option \<times> ('k, 'v) hashmap" where
  "hashmapRemove hash equals m key =
     bindE (hashKey hash key) (\<lambda>h.
     let index = calculateIndex (length (hm_buckets m)) h in
     bindE (chain_remove equals key h (hm_buckets m ! index)) (\<lambda>(old, chain).
     let m = m\<lparr>hm_buckets := (hm_buckets m)[index := chain]\<rparr> in
     case old of
       Some value \<Rightarrow> Inr (Some value, m\<lparr>hm_size := hm_size m - 1\<rparr>)
     | None \<Rightarrow> Inr (None, m)))"

text \<open>\<open>hashmapForEach\<close>: \<open>next\<close> is read before the callback, which may remove the entry it is
  called with, and nothing else, from the table. \<open>get\<close> is the table in the state of the
  callback.\<close>

fun for_each_chain ::
  "('k \<Rightarrow> 'v \<Rightarrow> 's \<Rightarrow> fault + bool \<times> 's) \<Rightarrow> ('k, 'v) hm_entry list \<Rightarrow> 's \<Rightarrow> fault + bool \<times> 's" where
  "for_each_chain callback [] s = Inr (True, s)"
| "for_each_chain callback (e # es) s =
     bindE (callback (he_key e) (he_value e) s) (\<lambda>(go_on, s).
     if go_on then for_each_chain callback es s else Inr (False, s))"

function for_each_bucket ::
  "('s \<Rightarrow> ('k, 'v) hashmap) \<Rightarrow> ('k \<Rightarrow> 'v \<Rightarrow> 's \<Rightarrow> fault + bool \<times> 's) \<Rightarrow> nat \<Rightarrow> nat \<Rightarrow> 's \<Rightarrow> fault + 's" where
  "for_each_bucket get callback n i s =
     (if i < n
      then bindE (for_each_chain callback (hm_buckets (get s) ! i) s) (\<lambda>(go_on, s).
           if go_on then for_each_bucket get callback n (Suc i) s else Inr s)
      else Inr s)"
  by pat_completeness auto
termination by (relation "measure (\<lambda>(get, callback, n, i, s). n - i)") auto

declare for_each_bucket.simps [simp del]

definition hashmapForEach ::
  "('s \<Rightarrow> ('k, 'v) hashmap) \<Rightarrow> ('k \<Rightarrow> 'v \<Rightarrow> 's \<Rightarrow> fault + bool \<times> 's) \<Rightarrow> 's \<Rightarrow> fault + 's" where
  "hashmapForEach get callback s = for_each_bucket get callback (length (hm_buckets (get s))) 0 s"

definition hashmapCurrentCapacity :: "('k, 'v) hashmap \<Rightarrow> nat" where
  "hashmapCurrentCapacity m = length (hm_buckets m) * 3 div 4"

fun chain_collisions :: "('k, 'v) hm_entry list \<Rightarrow> nat" where
  "chain_collisions [] = 0"
| "chain_collisions (e # es) = (if es \<noteq> [] then 1 else 0) + chain_collisions es"

definition hashmapCountCollisions :: "('k, 'v) hashmap \<Rightarrow> nat" where
  "hashmapCountCollisions m = sum_list (map chain_collisions (hm_buckets m))"

text \<open>The functions for keys that point to integers; \<open>mem\<close> reads the memory.\<close>

definition hashmapIntHash :: "('k \<Rightarrow> fault + 32 word) \<Rightarrow> 'k \<Rightarrow> fault + 32 word" where
  "hashmapIntHash mem key = mem key"

definition hashmapIntEquals :: "('k \<Rightarrow> fault + 32 word) \<Rightarrow> 'k \<Rightarrow> 'k \<Rightarrow> fault + bool" where
  "hashmapIntEquals mem keyA keyB = bindE (mem keyA) (\<lambda>a. bindE (mem keyB) (\<lambda>b. Inr (a = b)))"

end
