(* ===== verification/Hashmap_Map.thy ===== *)
theory Hashmap_Map
  imports Hashmap
begin

text \<open>
  The hash table is a map: what it holds, its invariant, and the lemmas that every operation
  keeps the invariant and acts on the map. The memory behind the keys is abstract here: a
  locale states what \<open>map->hash\<close> and \<open>map->equals\<close> have to promise for the keys that are in use.
\<close>

section \<open>Contents and invariant\<close>

definition hm_entries :: "('k, 'v) hashmap \<Rightarrow> ('k, 'v) hm_entry list" where
  "hm_entries m = concat (hm_buckets m)"

text \<open>\<open>content\<close> gives what a key points to.\<close>

definition entry_pair :: "('k \<Rightarrow> 'c) \<Rightarrow> ('k, 'v) hm_entry \<Rightarrow> 'c \<times> 'v" where
  "entry_pair content e = (content (he_key e), he_value e)"

definition hm_abs :: "('k \<Rightarrow> 'c) \<Rightarrow> ('k, 'v) hashmap \<Rightarrow> 'c \<rightharpoonup> 'v" where
  "hm_abs content m = map_of (map (entry_pair content) (hm_entries m))"

definition entry_ok :: "('k \<Rightarrow> 'c) \<Rightarrow> ('k \<Rightarrow> bool) \<Rightarrow> ('c \<Rightarrow> 32 word) \<Rightarrow> ('k, 'v) hm_entry \<Rightarrow> bool" where
  "entry_ok content valid h e \<longleftrightarrow> valid (he_key e) \<and> he_hash e = mix_hash (h (content (he_key e)))"

definition placed :: "('k, 'v) hm_entry list list \<Rightarrow> bool" where
  "placed bs \<longleftrightarrow> (\<forall>i < length bs. \<forall>e \<in> set (bs ! i). calculateIndex (length bs) (he_hash e) = i)"

definition hm_inv :: "('k \<Rightarrow> 'c) \<Rightarrow> ('k \<Rightarrow> bool) \<Rightarrow> ('c \<Rightarrow> 32 word) \<Rightarrow> ('k, 'v) hashmap \<Rightarrow> bool" where
  "hm_inv content valid h m \<longleftrightarrow>
     0 < length (hm_buckets m) \<and> length (hm_buckets m) < 2 ^ 64 \<and> placed (hm_buckets m) \<and>
     (\<forall>e \<in> set (hm_entries m). entry_ok content valid h e) \<and>
     distinct (map (content \<circ> he_key) (hm_entries m)) \<and> hm_size m = length (hm_entries m)"

section \<open>Buckets\<close>

lemma in_concat_nth: "e \<in> set (concat bs) \<longleftrightarrow> (\<exists>k < length bs. e \<in> set (bs ! k))"
proof -
  have "e \<in> set (concat bs) \<longleftrightarrow> (\<exists>b. b \<in> set bs \<and> e \<in> set b)"
    by auto
  also have "\<dots> \<longleftrightarrow> (\<exists>k < length bs. e \<in> set (bs ! k))"
    unfolding in_set_conv_nth [of _ bs] by blast
  finally show ?thesis .
qed

lemma calculateIndex_bound: "0 < n \<Longrightarrow> n < 2 ^ 64 \<Longrightarrow> calculateIndex n h < n"
proof -
  assume n: "0 < n" "n < 2 ^ 64"
  let ?w = "of_nat n - 1 :: 64 word"
  have "?w = of_nat (n - 1)"
    using n(1) by (simp add: of_nat_diff)
  moreover have "unat (of_nat (n - 1) :: 64 word) = n - 1"
    by (subst unat_of_nat) (use n in simp)
  ultimately have w: "unat ?w = n - 1"
    by (simp only:)
  have "((scast h :: 64 word) AND ?w) \<le> ?w"
    by (rule word_and_le1)
  then have "calculateIndex n h \<le> n - 1"
    unfolding calculateIndex_def by (simp add: word_le_nat_alt w)
  with n(1) show ?thesis by simp
qed

lemma concat_update:
  assumes "i < length bs"
  shows "mset (concat (bs[i := c])) + mset (bs ! i) = mset (concat bs) + mset c"
proof -
  have "concat (bs[i := c]) = concat (take i bs) @ c @ concat (drop (Suc i) bs)"
    using assms by (simp add: upd_conv_take_nth_drop)
  moreover have "concat bs = concat (take i bs) @ bs ! i @ concat (drop (Suc i) bs)"
    by (metis assms concat.simps(2) concat_append id_take_nth_drop)
  ultimately show ?thesis
    by simp
qed

lemma set_bucket: "i < length bs \<Longrightarrow> set (bs ! i) \<subseteq> set (concat bs)"
  by (metis mem_simps(9) nth_mem set_concat UN_upper)

lemma mset_distinct_map:
  assumes "mset xs = mset ys"
  shows "distinct (map f xs) \<longleftrightarrow> distinct (map f ys)"
  using assms by (metis mset_eq_imp_distinct_iff mset_map)

text \<open>Two tables with the same entries, in whatever order, are the same map.\<close>

lemma map_of_entries:
  fixes es :: "('k, 'v) hm_entry list"
  assumes "mset es = mset es'" "distinct (map (content \<circ> he_key) es)"
  shows "map_of (map (entry_pair content) es) = map_of (map (entry_pair content) es')"
proof -
  have fst: "map fst (map (entry_pair content) xs) = map (content \<circ> he_key) xs" for xs :: "('k, 'v) hm_entry list"
    by (simp add: entry_pair_def)
  have "distinct (map (content \<circ> he_key) es')"
    using assms(2) mset_distinct_map [OF assms(1), of "content \<circ> he_key"] by simp
  moreover have "set (map (entry_pair content) es) = set (map (entry_pair content) es')"
    using arg_cong [OF assms(1), of set_mset] by simp
  ultimately show ?thesis
    using assms(2) by (intro map_of_inject_set [THEN iffD2]) (simp_all only: fst)
qed

lemma hm_abs_in_bucket:
  assumes "placed (hm_buckets m)" "distinct (map (content \<circ> he_key) (hm_entries m))"
    and "\<forall>e \<in> set (hm_entries m). entry_ok content valid h e"
    and "i = calculateIndex (length (hm_buckets m)) (mix_hash (h c))" "i < length (hm_buckets m)"
  shows "hm_abs content m c = map_of (map (entry_pair content) (hm_buckets m ! i)) c"
proof -
  let ?bs = "hm_buckets m"
  have split: "concat ?bs = concat (take i ?bs) @ ?bs ! i @ concat (drop (Suc i) ?bs)"
    by (metis assms(5) concat.simps(2) concat_append id_take_nth_drop)
  have other: "map_of (map (entry_pair content) (concat xs)) c = None"
    if elsewhere: "\<forall>e \<in> set (concat xs). \<exists>j < length ?bs. j \<noteq> i \<and> e \<in> set (?bs ! j)" for xs
  proof -
    have "content (he_key e) \<noteq> c" if e: "e \<in> set (concat xs)" for e
    proof -
      obtain j where j: "j < length ?bs" "j \<noteq> i" "e \<in> set (?bs ! j)"
        using elsewhere e by blast
      then have "calculateIndex (length ?bs) (he_hash e) = j" "he_hash e = mix_hash (h (content (he_key e)))"
        using assms(1,3) set_bucket [OF j(1)] by (auto simp: placed_def entry_ok_def hm_entries_def)
      then show ?thesis
        using assms(4) j(2) by auto
    qed
    then show ?thesis
      by (force simp: map_of_eq_None_iff entry_pair_def)
  qed
  have "\<exists>j < length ?bs. j \<noteq> i \<and> e \<in> set (?bs ! j)" if e: "e \<in> set (concat (take i ?bs))" for e
  proof -
    obtain k where "k < length (take i ?bs)" "e \<in> set (take i ?bs ! k)"
      using e unfolding in_concat_nth by blast
    then show ?thesis
      by (intro exI [of _ k]) auto
  qed
  moreover have "\<exists>j < length ?bs. j \<noteq> i \<and> e \<in> set (?bs ! j)" if e: "e \<in> set (concat (drop (Suc i) ?bs))" for e
  proof -
    obtain k where "k < length (drop (Suc i) ?bs)" "e \<in> set (drop (Suc i) ?bs ! k)"
      using e unfolding in_concat_nth by blast
    then show ?thesis
      by (intro exI [of _ "Suc i + k"]) auto
  qed
  ultimately show ?thesis
    unfolding hm_abs_def hm_entries_def split
    using other [of "take i ?bs"] other [of "drop (Suc i) ?bs"]
    by (simp add: map_add_def split: option.split)
qed

section \<open>Doubling the buckets\<close>

lemma move_chain_spec:
  assumes "length nb = n" "0 < n" "n < 2 ^ 64" "placed nb"
  shows "length (move_chain n es nb) = n \<and> placed (move_chain n es nb) \<and>
    mset (concat (move_chain n es nb)) = mset (concat nb) + mset es"
  using assms
proof (induction es arbitrary: nb)
  case Nil
  then show ?case by simp
next
  case (Cons e es)
  let ?i = "calculateIndex n (he_hash e)"
  let ?nb = "nb[?i := e # nb ! ?i]"
  have i: "?i < length nb"
    using Cons.prems calculateIndex_bound by simp
  have "placed ?nb"
    using Cons.prems i by (auto simp: placed_def nth_list_update)
  then have "length (move_chain n es ?nb) = n \<and> placed (move_chain n es ?nb) \<and>
    mset (concat (move_chain n es ?nb)) = mset (concat ?nb) + mset es"
    using Cons by simp
  moreover have "mset (concat ?nb) = mset (concat nb) + {#e#}"
    using concat_update [OF i, of "e # nb ! ?i"] by simp
  ultimately show ?case
    by (simp add: Let_def)
qed

lemma move_chains_spec:
  assumes "length nb = n" "0 < n" "n < 2 ^ 64" "placed nb"
  shows "length (fold (move_chain n) bs nb) = n \<and> placed (fold (move_chain n) bs nb) \<and>
    mset (concat (fold (move_chain n) bs nb)) = mset (concat nb) + mset (concat bs)"
  using assms
proof (induction bs arbitrary: nb)
  case Nil
  then show ?case by simp
next
  case (Cons b bs)
  from move_chain_spec [OF Cons.prems, of b] Cons.IH [of "move_chain n b nb"] Cons.prems
  show ?case by simp
qed

lemma placed_empty: "placed (replicate n [])"
  by (simp add: placed_def)

text \<open>Whether or not there is memory, the expanded table has the same entries.\<close>

lemma expand_ok:
  assumes "hm_inv content valid h m" "expandIfNecessary calloc_ok errno m = (errno', m')"
  shows "hm_inv content valid h m' \<and> mset (hm_entries m') = mset (hm_entries m)"
proof (cases "hm_size m > length (hm_buckets m) * 3 div 4 \<and> calloc_ok \<and> length (hm_buckets m) * 2 * 8 < 2 ^ 64")
  case False
  then have "m' = m"
    using assms(2) by (auto simp: expandIfNecessary_def Let_def split: if_splits)
  with assms(1) show ?thesis by simp
next
  case True
  let ?n = "length (hm_buckets m) * 2"
  let ?bs = "fold (move_chain ?n) (hm_buckets m) (replicate ?n [])"
  have m': "m' = m\<lparr>hm_buckets := ?bs\<rparr>"
    using True assms(2) by (auto simp: expandIfNecessary_def Let_def)
  have "length ?bs = ?n \<and> placed ?bs \<and> mset (concat ?bs) = mset (concat (replicate ?n [])) + mset (concat (hm_buckets m))"
    using True assms(1) by (intro move_chains_spec) (auto simp: hm_inv_def placed_empty)
  then have bs: "length ?bs = ?n" "placed ?bs" "mset (concat ?bs) = mset (concat (hm_buckets m))"
    by simp_all
  have "set (concat ?bs) = set (concat (hm_buckets m))" "length (concat ?bs) = length (concat (hm_buckets m))"
    using bs(3) mset_eq_setD mset_eq_length by blast+
  moreover have "distinct (map (content \<circ> he_key) (concat ?bs))"
    using assms(1) mset_distinct_map [OF bs(3), of "content \<circ> he_key"] by (simp add: hm_inv_def hm_entries_def)
  ultimately show ?thesis
    using assms(1) bs True by (simp add: m' hm_inv_def hm_entries_def)
qed

section \<open>Replacing one bucket\<close>

lemma placed_update:
  assumes "placed bs" "\<And>e. e \<in> set c \<Longrightarrow> calculateIndex (length bs) (he_hash e) = i"
  shows "placed (bs[i := c])"
  unfolding placed_def
proof (intro allI impI ballI)
  fix j e
  assume "j < length (bs[i := c])" "e \<in> set (bs[i := c] ! j)"
  then show "calculateIndex (length (bs[i := c])) (he_hash e) = j"
    using assms by (cases "j = i") (auto simp: placed_def)
qed

text \<open>The new bucket may hold what the old one held, in any order, or less, or one new entry
  with a key the table does not have; values do not matter.\<close>

lemma bucket_update_ok:
  assumes "hm_inv content valid h m" "i < length (hm_buckets m)"
    and "\<And>e. e \<in> set c \<Longrightarrow> entry_ok content valid h e \<and> calculateIndex (length (hm_buckets m)) (he_hash e) = i"
    and "mset (hm_entries (m\<lparr>hm_buckets := (hm_buckets m)[i := c]\<rparr>)) = M"
    and "distinct (map (content \<circ> he_key) (hm_entries (m\<lparr>hm_buckets := (hm_buckets m)[i := c]\<rparr>)))"
  shows "hm_inv content valid h (m\<lparr>hm_buckets := (hm_buckets m)[i := c], hm_size := size M\<rparr>)"
proof -
  let ?bs = "(hm_buckets m)[i := c]"
  have "entry_ok content valid h e" if "e \<in> set (concat ?bs)" for e
  proof -
    obtain j where "j < length ?bs" "e \<in> set (?bs ! j)"
      using \<open>e \<in> set (concat ?bs)\<close> unfolding in_concat_nth by blast
    then show ?thesis
      using assms(1-3) set_bucket [of j "hm_buckets m"]
      by (cases "j = i") (auto simp: hm_inv_def hm_entries_def)
  qed
  moreover have "length (concat ?bs) = size M"
    using arg_cong [OF assms(4), of size] by (simp add: hm_entries_def)
  moreover have "placed ?bs"
    using assms(1,3) by (intro placed_update) (auto simp: hm_inv_def)
  ultimately show ?thesis
    using assms(1,5) by (simp add: hm_inv_def hm_entries_def)
qed

section \<open>What the keys promise\<close>

locale hash_keys =
  fixes hash :: "'k \<Rightarrow> fault + 32 word" and equals :: "'k \<Rightarrow> 'k \<Rightarrow> fault + bool"
    and content :: "'k \<Rightarrow> 'c" and valid :: "'k \<Rightarrow> bool" and h :: "'c \<Rightarrow> 32 word"
  assumes hash_valid: "valid k \<Longrightarrow> hash k = Inr (h (content k))"
    and equals_valid: "valid j \<Longrightarrow> valid k \<Longrightarrow> equals j k = Inr (content j = content k)"
begin

lemma hashKey_valid: "valid k \<Longrightarrow> hashKey hash k = Inr (mix_hash (h (content k)))"
  by (simp add: hashKey_def hash_valid)

lemma equalKeys_entry:
  assumes "entry_ok content valid h e" "valid k"
  shows "equalKeys equals (he_key e) (he_hash e) k (mix_hash (h (content k))) =
    Inr (content (he_key e) = content k)"
  using assms by (auto simp: equalKeys_def entry_ok_def equals_valid)

lemma chain_get_map:
  "\<forall>e \<in> set es. entry_ok content valid h e \<Longrightarrow> valid k \<Longrightarrow>
   chain_get equals k (mix_hash (h (content k))) es = Inr (map_of (map (entry_pair content) es) (content k))"
  by (induction es) (auto simp: equalKeys_entry entry_pair_def)

lemma chain_put_spec:
  assumes "\<forall>e \<in> set es. entry_ok content valid h e" "valid k"
  shows "\<exists>old es'. chain_put equals malloc_ok k (mix_hash (h (content k))) v es = Inr (old, es') \<and>
    (case old of
       Some w \<Rightarrow> \<exists>xs e ys. es = xs @ e # ys \<and> content (he_key e) = content k \<and> w = he_value e \<and>
         es' = xs @ e\<lparr>he_value := v\<rparr> # ys
     | None \<Rightarrow> content k \<notin> (content \<circ> he_key) ` set es \<and>
         es' = es @ (if malloc_ok then [createEntry k (mix_hash (h (content k))) v] else []))"
  using assms(1)
proof (induction es)
  case Nil
  then show ?case by simp
next
  case (Cons e es)
  show ?case
  proof (cases "content (he_key e) = content k")
    case True
    then show ?thesis
      using Cons.prems assms(2) by (auto simp: equalKeys_entry intro!: exI [of _ "[]"])
  next
    case False
    obtain old es' where ih:
      "chain_put equals malloc_ok k (mix_hash (h (content k))) v es = Inr (old, es')"
      "case old of
         Some w \<Rightarrow> \<exists>xs e ys. es = xs @ e # ys \<and> content (he_key e) = content k \<and> w = he_value e \<and>
           es' = xs @ e\<lparr>he_value := v\<rparr> # ys
       | None \<Rightarrow> content k \<notin> (content \<circ> he_key) ` set es \<and>
           es' = es @ (if malloc_ok then [createEntry k (mix_hash (h (content k))) v] else [])"
      using Cons by auto
    have "chain_put equals malloc_ok k (mix_hash (h (content k))) v (e # es) = Inr (old, e # es')"
      using False Cons.prems assms(2) ih(1) by (simp add: equalKeys_entry)
    then show ?thesis
      using ih(2) False by (cases old) (force intro: exI [of _ "e # _"])+
  qed
qed

lemma chain_remove_spec:
  assumes "\<forall>e \<in> set es. entry_ok content valid h e" "valid k"
  shows "\<exists>old es'. chain_remove equals k (mix_hash (h (content k))) es = Inr (old, es') \<and>
    (case old of
       Some w \<Rightarrow> \<exists>xs e ys. es = xs @ e # ys \<and> content (he_key e) = content k \<and> w = he_value e \<and> es' = xs @ ys
     | None \<Rightarrow> content k \<notin> (content \<circ> he_key) ` set es \<and> es' = es)"
  using assms(1)
proof (induction es)
  case Nil
  then show ?case by simp
next
  case (Cons e es)
  show ?case
  proof (cases "content (he_key e) = content k")
    case True
    then show ?thesis
      using Cons.prems assms(2) by (auto simp: equalKeys_entry intro!: exI [of _ "[]"])
  next
    case False
    obtain old es' where ih:
      "chain_remove equals k (mix_hash (h (content k))) es = Inr (old, es')"
      "case old of
         Some w \<Rightarrow> \<exists>xs e ys. es = xs @ e # ys \<and> content (he_key e) = content k \<and> w = he_value e \<and> es' = xs @ ys
       | None \<Rightarrow> content k \<notin> (content \<circ> he_key) ` set es \<and> es' = es"
      using Cons by auto
    have "chain_remove equals k (mix_hash (h (content k))) (e # es) = Inr (old, e # es')"
      using False Cons.prems assms(2) ih(1) by (simp add: equalKeys_entry)
    then show ?thesis
      using ih(2) False by (cases old) (force intro: exI [of _ "e # _"])+
  qed
qed

text \<open>The bucket of a key, and what is known of it.\<close>

lemma bucket_facts:
  assumes "hm_inv content valid h m" "valid k"
    and "i = calculateIndex (length (hm_buckets m)) (mix_hash (h (content k)))"
  shows "i < length (hm_buckets m)" "\<forall>e \<in> set (hm_buckets m ! i). entry_ok content valid h e"
    "\<And>e. e \<in> set (hm_buckets m ! i) \<Longrightarrow> calculateIndex (length (hm_buckets m)) (he_hash e) = i"
    "hm_abs content m (content k) = map_of (map (entry_pair content) (hm_buckets m ! i)) (content k)"
proof -
  show i: "i < length (hm_buckets m)"
    using assms by (auto simp: hm_inv_def intro: calculateIndex_bound)
  then show "\<forall>e \<in> set (hm_buckets m ! i). entry_ok content valid h e"
    using assms(1) set_bucket [OF i] by (auto simp: hm_inv_def hm_entries_def)
  show "\<And>e. e \<in> set (hm_buckets m ! i) \<Longrightarrow> calculateIndex (length (hm_buckets m)) (he_hash e) = i"
    using assms(1) i by (simp add: hm_inv_def placed_def)
  show "hm_abs content m (content k) = map_of (map (entry_pair content) (hm_buckets m ! i)) (content k)"
    using hm_abs_in_bucket [where h = h and c = "content k" and m = m and valid = valid, OF _ _ _ assms(3) i] assms(1)
    by (simp add: hm_inv_def)
qed

lemma get_ok:
  assumes "hm_inv content valid h m" "valid k"
  shows "hashmapGet hash equals m k = Inr (hm_abs content m (content k))"
  using bucket_facts [OF assms refl] assms(2) by (simp add: hashmapGet_def hashKey_valid chain_get_map)

lemma contains_ok:
  assumes "hm_inv content valid h m" "valid k"
  shows "hashmapContainsKey hash equals m k = Inr (content k \<in> dom (hm_abs content m))"
  using bucket_facts [OF assms refl] assms(2)
  by (simp add: hashmapContainsKey_def hashKey_valid chain_get_map domIff)

text \<open>What a successful step does to the entries.\<close>

lemma absent_entry:
  assumes "hm_inv content valid h m" "valid k"
    and "content k \<notin> (content \<circ> he_key) ` set (hm_buckets m ! calculateIndex (length (hm_buckets m)) (mix_hash (h (content k))))"
  shows "hm_abs content m (content k) = None" "content k \<notin> (content \<circ> he_key) ` set (hm_entries m)"
proof -
  show none: "hm_abs content m (content k) = None"
    unfolding bucket_facts(4) [OF assms(1,2) refl] using assms(3)
    by (auto simp: map_of_eq_None_iff entry_pair_def)
  then show "content k \<notin> (content \<circ> he_key) ` set (hm_entries m)"
    by (force simp: hm_abs_def map_of_eq_None_iff entry_pair_def)
qed

lemma put_entries:
  assumes inv: "hm_inv content valid h m" and k: "valid k"
  shows "\<exists>old errno' m'. hashmapPut hash equals malloc_ok calloc_ok errno m k v = Inr (old, errno', m') \<and>
    hm_inv content valid h m' \<and>
    (case old of
       Some w \<Rightarrow> errno' = errno \<and> (\<exists>e M. content (he_key e) = content k \<and> w = he_value e \<and>
         mset (hm_entries m) = add_mset e M \<and> mset (hm_entries m') = add_mset (e\<lparr>he_value := v\<rparr>) M)
     | None \<Rightarrow> content k \<notin> (content \<circ> he_key) ` set (hm_entries m) \<and>
         (if malloc_ok then errno' \<in> {errno, ENOMEM} \<and>
            mset (hm_entries m') = add_mset (createEntry k (mix_hash (h (content k))) v) (mset (hm_entries m))
          else errno' = ENOMEM \<and> m' = m))"
proof -
  let ?bs = "hm_buckets m" and ?hash = "mix_hash (h (content k))"
  let ?i = "calculateIndex (length ?bs) ?hash"
  note b = bucket_facts [OF inv k refl]
  obtain old chain where put: "chain_put equals malloc_ok k ?hash v (?bs ! ?i) = Inr (old, chain)"
    and cases: "case old of
       Some w \<Rightarrow> \<exists>xs e ys. ?bs ! ?i = xs @ e # ys \<and> content (he_key e) = content k \<and> w = he_value e \<and>
         chain = xs @ e\<lparr>he_value := v\<rparr> # ys
     | None \<Rightarrow> content k \<notin> (content \<circ> he_key) ` set (?bs ! ?i) \<and>
         chain = ?bs ! ?i @ (if malloc_ok then [createEntry k ?hash v] else [])"
    using chain_put_spec [OF b(2) k] by blast
  let ?m = "m\<lparr>hm_buckets := ?bs[?i := chain]\<rparr>"
  note upd = concat_update [OF b(1), of chain, folded hm_entries_def]
  show ?thesis
  proof (cases old)
    case (Some w)
    then obtain xs e ys where e: "?bs ! ?i = xs @ e # ys" "content (he_key e) = content k" "w = he_value e"
        "chain = xs @ e\<lparr>he_value := v\<rparr> # ys"
      using cases by auto
    obtain M where M: "mset (hm_entries m) = add_mset e M"
      using b(1) e(1) set_bucket [OF b(1)] by (metis hm_entries_def in_set_conv_decomp multi_member_split set_mset_mset subsetD)
    have M': "mset (hm_entries ?m) = add_mset (e\<lparr>he_value := v\<rparr>) M"
      using concat_update [OF b(1), of chain] M by (simp add: hm_entries_def e(1,4))
    have "mset (map (content \<circ> he_key) (hm_entries ?m)) = mset (map (content \<circ> he_key) (hm_entries m))"
      using M M' by simp
    then have "distinct (map (content \<circ> he_key) (hm_entries ?m))"
      using inv by (metis hm_inv_def mset_eq_imp_distinct_iff)
    moreover have "entry_ok content valid h x \<and> calculateIndex (length ?bs) (he_hash x) = ?i" if "x \<in> set chain" for x
      using that b(2) b(3) [of e] b(3) [of x] e(1,2,4) by (auto simp: entry_ok_def)
    ultimately have "hm_inv content valid h (?m\<lparr>hm_size := size (add_mset (e\<lparr>he_value := v\<rparr>) M)\<rparr>)"
      using bucket_update_ok [OF inv b(1) _ M'] by simp
    moreover have "?m\<lparr>hm_size := size (add_mset (e\<lparr>he_value := v\<rparr>) M)\<rparr> = ?m"
      using inv arg_cong [OF M, of size] by (simp add: hm_inv_def)
    ultimately show ?thesis
      using put k Some e M M' by (auto simp: hashmapPut_def hashKey_valid Let_def intro!: exI [of _ e] exI [of _ M])
  next
    case None
    then have none: "content k \<notin> (content \<circ> he_key) ` set (?bs ! ?i)"
        and chain: "chain = ?bs ! ?i @ (if malloc_ok then [createEntry k ?hash v] else [])"
      using cases by auto
    note absent = absent_entry [OF inv k none]
    show ?thesis
    proof (cases malloc_ok)
      case False
      then have "?m = m"
        using chain b(1) by simp
      with False None put k inv absent show ?thesis
        by (auto simp: hashmapPut_def hashKey_valid Let_def)
    next
      case True
      let ?e = "createEntry k ?hash v"
      have M': "mset (hm_entries ?m) = add_mset ?e (mset (hm_entries m))"
        using concat_update [OF b(1), of chain] True chain by (simp add: hm_entries_def)
      have "mset (map (content \<circ> he_key) (hm_entries ?m)) = mset (map (content \<circ> he_key) (?e # hm_entries m))"
        using M' by simp
      moreover have "distinct (map (content \<circ> he_key) (?e # hm_entries m))"
        using inv absent(2) by (simp add: hm_inv_def createEntry_def)
      ultimately have "distinct (map (content \<circ> he_key) (hm_entries ?m))"
        using mset_eq_imp_distinct_iff by blast
      moreover have "entry_ok content valid h x \<and> calculateIndex (length ?bs) (he_hash x) = ?i" if "x \<in> set chain" for x
        using that b(2,3) chain k True by (auto simp: entry_ok_def createEntry_def)
      ultimately have "hm_inv content valid h (?m\<lparr>hm_size := size (add_mset ?e (mset (hm_entries m)))\<rparr>)"
        using bucket_update_ok [OF inv b(1) _ M'] by simp
      moreover have "size (add_mset ?e (mset (hm_entries m))) = hm_size m + 1"
        using inv by (simp add: hm_inv_def)
      ultimately have ok: "hm_inv content valid h (?m\<lparr>hm_size := hm_size m + 1\<rparr>)"
        by simp
      obtain errno' m' where ex: "expandIfNecessary calloc_ok errno (?m\<lparr>hm_size := hm_size m + 1\<rparr>) = (errno', m')"
        by (cases "expandIfNecessary calloc_ok errno (?m\<lparr>hm_size := hm_size m + 1\<rparr>)")
      have "errno' \<in> {errno, ENOMEM}"
        using ex by (auto simp: expandIfNecessary_def Let_def split: if_splits)
      moreover have "mset (hm_entries (?m\<lparr>hm_size := hm_size m + 1\<rparr>)) = mset (hm_entries ?m)"
        by (simp add: hm_entries_def)
      ultimately show ?thesis
        using expand_ok [OF ok ex] put k None True absent M' ex
        by (auto simp: hashmapPut_def hashKey_valid Let_def)
    qed
  qed
qed

lemma remove_entries:
  assumes inv: "hm_inv content valid h m" and k: "valid k"
  shows "\<exists>old m'. hashmapRemove hash equals m k = Inr (old, m') \<and> hm_inv content valid h m' \<and>
    length (hm_buckets m') = length (hm_buckets m) \<and>
    (case old of
       Some w \<Rightarrow> \<exists>e M. content (he_key e) = content k \<and> w = he_value e \<and>
         mset (hm_entries m) = add_mset e M \<and> mset (hm_entries m') = M
     | None \<Rightarrow> content k \<notin> (content \<circ> he_key) ` set (hm_entries m) \<and> m' = m)"
proof -
  let ?bs = "hm_buckets m" and ?hash = "mix_hash (h (content k))"
  let ?i = "calculateIndex (length ?bs) ?hash"
  note b = bucket_facts [OF inv k refl]
  obtain old chain where rem: "chain_remove equals k ?hash (?bs ! ?i) = Inr (old, chain)"
    and cases: "case old of
       Some w \<Rightarrow> \<exists>xs e ys. ?bs ! ?i = xs @ e # ys \<and> content (he_key e) = content k \<and> w = he_value e \<and> chain = xs @ ys
     | None \<Rightarrow> content k \<notin> (content \<circ> he_key) ` set (?bs ! ?i) \<and> chain = ?bs ! ?i"
    using chain_remove_spec [OF b(2) k] by blast
  let ?m = "m\<lparr>hm_buckets := ?bs[?i := chain]\<rparr>"
  show ?thesis
  proof (cases old)
    case (Some w)
    then obtain xs e ys where e: "?bs ! ?i = xs @ e # ys" "content (he_key e) = content k" "w = he_value e"
        "chain = xs @ ys"
      using cases by auto
    obtain M where M: "mset (hm_entries m) = add_mset e M"
      using b(1) e(1) set_bucket [OF b(1)] by (metis hm_entries_def in_set_conv_decomp multi_member_split set_mset_mset subsetD)
    have M': "mset (hm_entries ?m) = M"
      using concat_update [OF b(1), of chain] M by (simp add: hm_entries_def e(1,4))
    have "mset (map (content \<circ> he_key) (hm_entries m)) = mset (content k # map (content \<circ> he_key) (hm_entries ?m))"
      using M M' e(2) by simp
    then have "distinct (content k # map (content \<circ> he_key) (hm_entries ?m))"
      using inv by (metis hm_inv_def mset_eq_imp_distinct_iff)
    then have "distinct (map (content \<circ> he_key) (hm_entries ?m))"
      by simp
    moreover have "entry_ok content valid h x \<and> calculateIndex (length ?bs) (he_hash x) = ?i" if "x \<in> set chain" for x
      using that b(2,3) e(1,4) by auto
    ultimately have "hm_inv content valid h (?m\<lparr>hm_size := size M\<rparr>)"
      using bucket_update_ok [OF inv b(1) _ M'] by simp
    moreover have "?m\<lparr>hm_size := size M\<rparr> = ?m\<lparr>hm_size := hm_size m - 1\<rparr>"
      using inv arg_cong [OF M, of size] by (simp add: hm_inv_def)
    ultimately show ?thesis
      using rem k Some e M M' by (auto simp: hashmapRemove_def hashKey_valid Let_def hm_entries_def intro!: exI [of _ e] exI [of _ M])
  next
    case None
    then have "content k \<notin> (content \<circ> he_key) ` set (?bs ! ?i)" "chain = ?bs ! ?i"
      using cases by auto
    then show ?thesis
      using None rem k inv b(1) absent_entry [OF inv k] by (simp add: hashmapRemove_def hashKey_valid Let_def)
  qed
qed

text \<open>The same in terms of the map.\<close>

lemma abs_entry:
  assumes "hm_inv content valid h m"
  shows "hm_abs content m c = Some v \<longleftrightarrow> (\<exists>e \<in># mset (hm_entries m). content (he_key e) = c \<and> he_value e = v)"
proof -
  have "map fst (map (entry_pair content) (hm_entries m)) = map (content \<circ> he_key) (hm_entries m)"
    by (simp add: entry_pair_def)
  then have "distinct (map fst (map (entry_pair content) (hm_entries m)))"
    using assms by (simp only: hm_inv_def)
  then show ?thesis
    unfolding hm_abs_def by (subst map_of_eq_Some_iff) (auto simp: entry_pair_def)
qed

lemma entry_unique:
  assumes "hm_inv content valid h m" "mset (hm_entries m) = add_mset e M"
  shows "content (he_key e) \<notin> (content \<circ> he_key) ` set_mset M"
proof -
  have "mset (map (content \<circ> he_key) (hm_entries m)) = add_mset (content (he_key e)) (image_mset (content \<circ> he_key) M)"
    using assms(2) by simp
  moreover obtain xs where "mset xs = image_mset (content \<circ> he_key) M"
    using ex_mset by blast
  ultimately have "mset (map (content \<circ> he_key) (hm_entries m)) = mset (content (he_key e) # xs)"
    by simp
  then have "distinct (content (he_key e) # xs)"
    using assms(1) by (metis hm_inv_def mset_eq_imp_distinct_iff)
  then show ?thesis
    using \<open>mset xs = _\<close> by (metis distinct.simps(2) set_image_mset set_mset_mset)
qed

lemma put_ok:
  assumes "hm_inv content valid h m" "valid k"
  shows "\<exists>errno' m'. hashmapPut hash equals malloc_ok calloc_ok errno m k v =
      Inr (hm_abs content m (content k), errno', m') \<and> hm_inv content valid h m' \<and>
    hm_abs content m' = (if hm_abs content m (content k) \<noteq> None \<or> malloc_ok
      then (hm_abs content m)(content k \<mapsto> v) else hm_abs content m)"
proof -
  obtain old errno' m' where put: "hashmapPut hash equals malloc_ok calloc_ok errno m k v = Inr (old, errno', m')"
      "hm_inv content valid h m'"
      "case old of
         Some w \<Rightarrow> errno' = errno \<and> (\<exists>e M. content (he_key e) = content k \<and> w = he_value e \<and>
           mset (hm_entries m) = add_mset e M \<and> mset (hm_entries m') = add_mset (e\<lparr>he_value := v\<rparr>) M)
       | None \<Rightarrow> content k \<notin> (content \<circ> he_key) ` set (hm_entries m) \<and>
           (if malloc_ok then errno' \<in> {errno, ENOMEM} \<and>
              mset (hm_entries m') = add_mset (createEntry k (mix_hash (h (content k))) v) (mset (hm_entries m))
            else errno' = ENOMEM \<and> m' = m)"
    using put_entries [OF assms] by blast
  note abs = abs_entry [OF assms(1)] abs_entry [OF put(2)]
  show ?thesis
  proof (cases old)
    case (Some w)
    then obtain e M where e: "content (he_key e) = content k" "w = he_value e"
        "mset (hm_entries m) = add_mset e M" "mset (hm_entries m') = add_mset (e\<lparr>he_value := v\<rparr>) M"
      using put(3) by auto
    have "hm_abs content m (content k) = Some w"
      using e abs(1) by auto
    moreover have "hm_abs content m' = (hm_abs content m)(content k \<mapsto> v)"
      using entry_unique [OF assms(1) e(3)] e by (intro map_eqI) (force simp: abs)
    ultimately show ?thesis
      using put(1,2) Some by auto
  next
    case None
    then have "hm_abs content m (content k) = None"
      using put(3) by (auto simp: hm_abs_def map_of_eq_None_iff entry_pair_def image_iff)
    moreover have "hm_abs content m' = (hm_abs content m)(content k \<mapsto> v)" if malloc_ok
      using put(3) None that by (intro map_eqI) (force simp: abs createEntry_def)
    ultimately show ?thesis
      using put None by (cases malloc_ok) auto
  qed
qed

lemma remove_ok:
  assumes "hm_inv content valid h m" "valid k"
  shows "\<exists>m'. hashmapRemove hash equals m k = Inr (hm_abs content m (content k), m') \<and>
    hm_inv content valid h m' \<and> hm_abs content m' = (hm_abs content m)(content k := None)"
proof -
  obtain old m' where rem: "hashmapRemove hash equals m k = Inr (old, m')" "hm_inv content valid h m'"
      "case old of
         Some w \<Rightarrow> \<exists>e M. content (he_key e) = content k \<and> w = he_value e \<and>
           mset (hm_entries m) = add_mset e M \<and> mset (hm_entries m') = M
       | None \<Rightarrow> content k \<notin> (content \<circ> he_key) ` set (hm_entries m) \<and> m' = m"
    using remove_entries [OF assms] by blast
  note abs = abs_entry [OF assms(1)] abs_entry [OF rem(2)]
  show ?thesis
  proof (cases old)
    case (Some w)
    then obtain e where e: "content (he_key e) = content k" "w = he_value e"
        "mset (hm_entries m) = add_mset e (mset (hm_entries m'))"
      using rem(3) by auto
    have "hm_abs content m (content k) = Some w"
      using e abs(1) by auto
    moreover have "hm_abs content m' = (hm_abs content m)(content k := None)"
      using entry_unique [OF assms(1) e(3)] e by (intro map_eqI) (force simp: abs)
    ultimately show ?thesis
      using rem(1,2) Some by auto
  next
    case None
    then have "hm_abs content m (content k) = None"
      using rem(3) by (auto simp: hm_abs_def map_of_eq_None_iff entry_pair_def image_iff)
    with None rem show ?thesis
      by (auto simp: fun_upd_idem)
  qed
qed

end

end
