(* ===== verification/Hashmap_Ops.thy ===== *)
theory Hashmap_Ops
  imports Hashmap_Map
begin

text \<open>
  Histories of the hash table: creation, any sequence of operations and what the
  client sees, against a map. The tables keyed by integers, whose functions are in
  \<open>hashmap.c\<close>, are the instance proved here; tables keyed by strings are in
  \<open>Str_Parms\<close>.
\<close>

section \<open>Creation\<close>

lemma bucket_count_loop_power:
  assumes "minimum < 2 ^ 63" "k \<le> 63"
  shows "\<exists>j. bucket_count_loop minimum (2 ^ k) = Some (2 ^ j) \<and> minimum < 2 ^ j \<and> j \<le> 63 \<and>
    2 ^ j \<le> max (2 ^ k) (2 * minimum)"
  using assms(2)
proof (induction "63 - k" arbitrary: k)
  case 0
  then have "k = 63" by simp
  with assms(1) show ?case
    by (intro exI [of _ 63]) (simp add: bucket_count_loop.simps)
next
  case (Suc d)
  show ?case
  proof (cases "2 ^ k \<le> minimum")
    case True
    have "(2 :: nat) ^ (k + 1) < 2 ^ 64"
      using Suc.hyps(2) by (intro power_strict_increasing) auto
    then have "(2 :: nat) ^ k * 2 mod 2 ^ 64 = 2 ^ (k + 1)"
      by simp
    moreover obtain j where "bucket_count_loop minimum (2 ^ (k + 1)) = Some (2 ^ j)" "minimum < 2 ^ j" "j \<le> 63"
        "2 ^ j \<le> max (2 ^ (k + 1)) (2 * minimum)"
      using Suc.hyps(1) [of "k + 1"] Suc.hyps(2) by fastforce
    ultimately show ?thesis
      using True by (intro exI [of _ j]) (simp add: bucket_count_loop.simps [of _ "2 ^ k"])
  next
    case False
    with Suc.prems show ?thesis
      by (intro exI [of _ k]) (simp add: bucket_count_loop.simps)
  qed
qed

lemma create_table:
  "\<exists>j. initialCapacity * 4 mod 2 ^ 64 div 3 < 2 ^ j \<and>
    2 ^ j \<le> max 1 (2 * (initialCapacity * 4 mod 2 ^ 64 div 3)) \<and>
    hashmapCreate initialCapacity malloc_ok calloc_ok =
      Some (if malloc_ok \<and> calloc_ok \<and> j < 61 then Some (new_hashmap (2 ^ j)) else None)"
proof -
  let ?min = "initialCapacity * 4 mod 2 ^ 64 div 3"
  have "?min \<le> (2 ^ 64 - 1 :: nat) div 3"
    by (intro div_le_mono) (use mod_less_divisor [of "2 ^ 64 :: nat" "initialCapacity * 4"] in simp)
  then have "?min < 2 ^ 63"
    by simp
  then obtain j where j: "bucket_count_loop ?min 1 = Some (2 ^ j)" "?min < 2 ^ j" "2 ^ j \<le> max 1 (2 * ?min)"
    using bucket_count_loop_power [of ?min 0] by auto
  have "(2 :: nat) ^ j * 8 = 2 ^ (j + 3)"
    by (simp add: power_add)
  then have "(2 :: nat) ^ j * 8 < 2 ^ 64 \<longleftrightarrow> j < 61"
    using power_strict_increasing_iff [of "2 :: nat" "j + 3" 64] by simp
  with j show ?thesis
    by (intro exI [of _ j]) (auto simp: hashmapCreate_def)
qed

lemma new_hashmap_ok: "0 < n \<Longrightarrow> n < 2 ^ 64 \<Longrightarrow> hm_inv content valid h (new_hashmap n)"
  by (simp add: hm_inv_def new_hashmap_def placed_empty hm_entries_def)

lemma new_hashmap_abs: "hm_abs content (new_hashmap n) = Map.empty"
  by (simp add: hm_abs_def new_hashmap_def hm_entries_def)

lemma created_ok:
  fixes m :: "('k, 'v) hashmap"
  assumes "hashmapCreate initialCapacity malloc_ok calloc_ok = Some (Some m)"
  shows "hm_inv content valid h m" "hm_abs content m = Map.empty"
proof -
  obtain j :: nat where c: "hashmapCreate initialCapacity malloc_ok calloc_ok =
      Some (if malloc_ok \<and> calloc_ok \<and> j < 61 then Some (new_hashmap (2 ^ j) :: ('k, 'v) hashmap) else None)"
    using create_table by blast
  then have j: "j < 61" "m = new_hashmap (2 ^ j)"
    using assms by (auto split: if_splits)
  moreover have "(2 :: nat) ^ j < 2 ^ 64"
    using j(1) by (intro power_strict_increasing) auto
  ultimately show "hm_inv content valid h m" "hm_abs content m = Map.empty"
    by (simp_all add: new_hashmap_ok new_hashmap_abs)
qed

text \<open>For up to \<open>2^59\<close> entries, creation returns (also without memory), with a power of two of
  buckets that is at most twice the number needed, and a table made for \<open>n\<close> entries has
  room for \<open>n\<close> entries before the load makes it grow.\<close>

theorem create_capacity:
  assumes "n < 2 ^ 59"
  shows "\<exists>k. hashmapCreate n malloc_ok calloc_ok =
      Some (if malloc_ok \<and> calloc_ok then Some (new_hashmap (2 ^ k) :: ('k, 'v) hashmap) else None) \<and>
    n \<le> hashmapCurrentCapacity (new_hashmap (2 ^ k) :: ('k, 'v) hashmap) \<and> 2 ^ k \<le> max 1 (2 * (n * 4 div 3))"
proof -
  have n: "n * 4 mod 2 ^ 64 = n * 4"
    using assms by simp
  obtain j where j: "n * 4 div 3 < 2 ^ j" "2 ^ j \<le> max 1 (2 * (n * 4 div 3))"
      "hashmapCreate n malloc_ok calloc_ok =
        Some (if malloc_ok \<and> calloc_ok \<and> j < 61 then Some (new_hashmap (2 ^ j) :: ('k, 'v) hashmap) else None)"
    using create_table [of n malloc_ok calloc_ok] unfolding n by blast
  have "(2 :: nat) ^ j < 2 ^ 61"
    using j(2) assms by simp
  then have "j < 61"
    by (rule power_less_imp_less_exp [rotated]) simp
  moreover have "n \<le> 2 ^ j * 3 div 4"
    using j(1) by linarith
  ultimately show ?thesis
    unfolding hashmapCurrentCapacity_def new_hashmap_def using j(2,3)
    by (intro exI [of _ j]) (auto simp: new_hashmap_def)
qed

theorem create_capacity_witness:
  "\<exists>k. hashmapCreate 5 True True =
      Some (if True \<and> True then Some (new_hashmap (2 ^ k) :: (nat, nat) hashmap) else None) \<and>
    5 \<le> hashmapCurrentCapacity (new_hashmap (2 ^ k) :: (nat, nat) hashmap) \<and> 2 ^ k \<le> max (1 :: nat) (2 * (5 * 4 div 3))"
  by (rule create_capacity) simp

section \<open>Memoizing is a lookup and an insertion\<close>

lemma chain_put_absent:
  "chain_get equals key hash es = Inr None \<Longrightarrow>
   chain_put equals malloc_ok key hash v es = Inr (None, es @ (if malloc_ok then [createEntry key hash v] else []))"
proof (induction es)
  case Nil
  then show ?case by simp
next
  case (Cons e es)
  then show ?case
    by (cases "equalKeys equals (he_key e) (he_hash e) key hash") (simp_all split: if_splits)
qed

lemma memoize_eq:
  "hashmapMemoize hash equals malloc_ok calloc_ok errno m key initialValue =
     bindE (hashmapGet hash equals m key) (\<lambda>found.
     case found of
       Some v \<Rightarrow> Inr (Some v, errno, m)
     | None \<Rightarrow> bindE (hashmapPut hash equals malloc_ok calloc_ok errno m key (initialValue key)) (\<lambda>(old, errno, m).
           Inr (if malloc_ok then Some (initialValue key) else None, errno, m)))"
proof (cases "hashKey hash key")
  case (Inl f)
  then show ?thesis
    by (simp add: hashmapMemoize_def hashmapGet_def)
next
  case (Inr h)
  let ?i = "calculateIndex (length (hm_buckets m)) h"
  show ?thesis
  proof (cases "chain_get equals key h (hm_buckets m ! ?i)")
    case (Inr found)
    then show ?thesis
      using \<open>hashKey hash key = Inr h\<close> chain_put_absent [of equals key h "hm_buckets m ! ?i" malloc_ok "initialValue key"]
      by (cases found)
        (auto simp: hashmapMemoize_def hashmapGet_def hashmapPut_def Let_def split_beta)
  qed (simp add: hashmapMemoize_def hashmapGet_def Inr)
qed

text \<open>Memoizing a value does what a lookup followed, when nothing was found, by an insertion of
  the initial value does, also when an allocation fails.\<close>

theorem memoize_is_get_or_put:
  "hashmapMemoize hash equals malloc_ok calloc_ok errno m key initialValue =
     bindE (hashmapGet hash equals m key) (\<lambda>found.
     case found of
       Some v \<Rightarrow> Inr (Some v, errno, m)
     | None \<Rightarrow> bindE (hashmapPut hash equals malloc_ok calloc_ok errno m key (initialValue key)) (\<lambda>(old, errno, m).
           Inr (if malloc_ok then Some (initialValue key) else None, errno, m)))"
  by (rule memoize_eq)

section \<open>Histories\<close>

text \<open>A call by the client, with the results of the allocations it makes.\<close>

datatype ('k, 'v) hm_op =
    HmPut 'k 'v bool bool
  | HmGet 'k
  | HmContains 'k
  | HmMemoize 'k "'k \<Rightarrow> 'v" bool bool
  | HmRemove 'k

datatype 'v hm_answer = AnsValue "'v option" | AnsBool bool

fun hm_key :: "('k, 'v) hm_op \<Rightarrow> 'k" where
  "hm_key (HmPut k v mo co) = k"
| "hm_key (HmGet k) = k"
| "hm_key (HmContains k) = k"
| "hm_key (HmMemoize k f mo co) = k"
| "hm_key (HmRemove k) = k"

fun hm_step ::
  "('k \<Rightarrow> fault + 32 word) \<Rightarrow> ('k \<Rightarrow> 'k \<Rightarrow> fault + bool) \<Rightarrow> ('k, 'v) hm_op \<Rightarrow> int \<times> ('k, 'v) hashmap \<Rightarrow>
   fault + 'v hm_answer \<times> int \<times> ('k, 'v) hashmap" where
  "hm_step hash equals (HmPut k v mo co) (errno, m) =
     bindE (hashmapPut hash equals mo co errno m k v) (\<lambda>(old, s). Inr (AnsValue old, s))"
| "hm_step hash equals (HmGet k) (errno, m) =
     bindE (hashmapGet hash equals m k) (\<lambda>v. Inr (AnsValue v, errno, m))"
| "hm_step hash equals (HmContains k) (errno, m) =
     bindE (hashmapContainsKey hash equals m k) (\<lambda>b. Inr (AnsBool b, errno, m))"
| "hm_step hash equals (HmMemoize k f mo co) (errno, m) =
     bindE (hashmapMemoize hash equals mo co errno m k f) (\<lambda>(v, s). Inr (AnsValue v, s))"
| "hm_step hash equals (HmRemove k) (errno, m) =
     bindE (hashmapRemove hash equals m k) (\<lambda>(old, m). Inr (AnsValue old, errno, m))"

fun hm_run ::
  "('k \<Rightarrow> fault + 32 word) \<Rightarrow> ('k \<Rightarrow> 'k \<Rightarrow> fault + bool) \<Rightarrow> ('k, 'v) hm_op list \<Rightarrow> int \<times> ('k, 'v) hashmap \<Rightarrow>
   fault + 'v hm_answer list \<times> int \<times> ('k, 'v) hashmap" where
  "hm_run hash equals [] s = Inr ([], s)"
| "hm_run hash equals (c # cs) s =
     bindE (hm_step hash equals c s) (\<lambda>(a, s).
     bindE (hm_run hash equals cs s) (\<lambda>(as, s). Inr (a # as, s)))"

text \<open>The same calls on a map: an insertion of a new key needs memory for the entry.\<close>

fun spec_step :: "('k \<Rightarrow> 'c) \<Rightarrow> ('k, 'v) hm_op \<Rightarrow> ('c \<rightharpoonup> 'v) \<Rightarrow> 'v hm_answer \<times> ('c \<rightharpoonup> 'v)" where
  "spec_step content (HmPut k v mo co) f =
     (AnsValue (f (content k)), if f (content k) \<noteq> None \<or> mo then f(content k \<mapsto> v) else f)"
| "spec_step content (HmGet k) f = (AnsValue (f (content k)), f)"
| "spec_step content (HmContains k) f = (AnsBool (content k \<in> dom f), f)"
| "spec_step content (HmMemoize k g mo co) f =
     (case f (content k) of
        Some v \<Rightarrow> (AnsValue (Some v), f)
      | None \<Rightarrow> if mo then (AnsValue (Some (g k)), f(content k \<mapsto> g k)) else (AnsValue None, f))"
| "spec_step content (HmRemove k) f = (AnsValue (f (content k)), f(content k := None))"

fun spec_run :: "('k \<Rightarrow> 'c) \<Rightarrow> ('k, 'v) hm_op list \<Rightarrow> ('c \<rightharpoonup> 'v) \<Rightarrow> 'v hm_answer list \<times> ('c \<rightharpoonup> 'v)" where
  "spec_run content [] f = ([], f)"
| "spec_run content (c # cs) f =
     (let (a, f) = spec_step content c f; (as, f) = spec_run content cs f in (a # as, f))"

text \<open>The number of entries the table counts is the size of the map's domain.\<close>

lemma size_card:
  assumes "hm_inv content valid h m"
  shows "hashmapSize m = card (dom (hm_abs content m))"
proof -
  have "dom (hm_abs content m) = set (map (content \<circ> he_key) (hm_entries m))"
    by (simp add: hm_abs_def dom_map_of_conv_image_fst entry_pair_def image_image)
  then show ?thesis
    using assms distinct_card [of "map (content \<circ> he_key) (hm_entries m)"]
    by (simp only: hashmapSize_def hm_inv_def length_map)
qed

context hash_keys
begin

lemma memoize_ok:
  assumes "hm_inv content valid h m" "valid k"
  shows "\<exists>errno' m'. hashmapMemoize hash equals mo co errno m k f =
      Inr (case hm_abs content m (content k) of Some v \<Rightarrow> Some v | None \<Rightarrow> if mo then Some (f k) else None, errno', m') \<and>
    hm_inv content valid h m' \<and>
    hm_abs content m' = (if hm_abs content m (content k) = None \<and> mo
      then (hm_abs content m)(content k \<mapsto> f k) else hm_abs content m)"
  using put_ok [OF assms, of mo co errno "f k"] assms
  by (cases "hm_abs content m (content k)") (auto simp: memoize_eq get_ok)

lemma step_ok:
  assumes "hm_inv content valid h m" "valid (hm_key c)"
  shows "\<exists>a errno' m'. hm_step hash equals c (errno, m) = Inr (a, errno', m') \<and> hm_inv content valid h m' \<and>
    spec_step content c (hm_abs content m) = (a, hm_abs content m')"
proof (cases c)
  case (HmPut k v mo co)
  then show ?thesis
    using put_ok [of m k mo co errno v] assms by auto
next
  case (HmMemoize k f mo co)
  then show ?thesis
    using memoize_ok [of m k mo co errno f] assms by (auto split: option.splits)
next
  case (HmRemove k)
  then show ?thesis
    using remove_ok [of m k] assms by auto
qed (use assms in \<open>simp_all add: get_ok contains_ok\<close>)

lemma run_ok:
  assumes "hm_inv content valid h m" "\<And>c. c \<in> set cs \<Longrightarrow> valid (hm_key c)"
  shows "\<exists>as errno' m'. hm_run hash equals cs (errno, m) = Inr (as, errno', m') \<and> hm_inv content valid h m' \<and>
    spec_run content cs (hm_abs content m) = (as, hm_abs content m')"
  using assms
proof (induction cs arbitrary: errno m)
  case Nil
  then show ?case by simp
next
  case (Cons c cs)
  obtain a errno' m' where step: "hm_step hash equals c (errno, m) = Inr (a, errno', m')" "hm_inv content valid h m'"
      "spec_step content c (hm_abs content m) = (a, hm_abs content m')"
    using step_ok [of m c errno] Cons.prems by auto
  moreover obtain as errno'' m'' where "hm_run hash equals cs (errno', m') = Inr (as, errno'', m'')"
      "hm_inv content valid h m''" "spec_run content cs (hm_abs content m') = (as, hm_abs content m'')"
    using Cons.IH [of m' errno'] Cons.prems(2) step(2) by auto
  ultimately show ?case
    by simp
qed

end

text \<open>With a key for every value, the table is a store that can be used through the general
  interface, as long as there is memory.\<close>

locale boxed_keys = hash_keys hash equals content valid h
  for hash :: "'k \<Rightarrow> fault + 32 word" and equals :: "'k \<Rightarrow> 'k \<Rightarrow> fault + bool"
    and content :: "'k \<Rightarrow> 'c" and valid :: "'k \<Rightarrow> bool" and h :: "'c \<Rightarrow> 32 word" +
  fixes box :: "'c \<Rightarrow> 'k"
  assumes box: "valid (box c)" "content (box c) = c"

definition table_put ::
  "('k \<Rightarrow> fault + 32 word) \<Rightarrow> ('k \<Rightarrow> 'k \<Rightarrow> fault + bool) \<Rightarrow> 'k \<Rightarrow> 'v \<Rightarrow> ('k, 'v) hashmap \<Rightarrow> ('k, 'v) hashmap" where
  "table_put hash equals k v m = (case hashmapPut hash equals True True 0 m k v of Inr (_, _, m') \<Rightarrow> m' | Inl _ \<Rightarrow> m)"

definition table_remove ::
  "('k \<Rightarrow> fault + 32 word) \<Rightarrow> ('k \<Rightarrow> 'k \<Rightarrow> fault + bool) \<Rightarrow> 'k \<Rightarrow> ('k, 'v) hashmap \<Rightarrow> ('k, 'v) hashmap" where
  "table_remove hash equals k m = (case hashmapRemove hash equals m k of Inr (_, m') \<Rightarrow> m' | Inl _ \<Rightarrow> m)"

sublocale boxed_keys \<subseteq> map_store_del "hm_abs content" "\<lambda>c. table_put hash equals (box c)" "hm_inv content valid h"
    "\<lambda>c. table_remove hash equals (box c)"
proof unfold_locales
  fix s :: "('k, 'v) hashmap" and c v
  assume inv: "hm_inv content valid h s"
  show "hm_inv content valid h (table_put hash equals (box c) v s)"
      "hm_abs content (table_put hash equals (box c) v s) = (hm_abs content s)(c \<mapsto> v)"
    using put_ok [OF inv box(1), of True True 0 c v] by (auto simp: table_put_def box(2))
  show "hm_inv content valid h (table_remove hash equals (box c) s)"
      "hm_abs content (table_remove hash equals (box c) s) = (hm_abs content s)(c := None)"
    using remove_ok [OF inv box(1), of c] by (auto simp: table_remove_def box(2))
qed

section \<open>Tables with integer keys\<close>

text \<open>A key is a pointer to an integer that can be read.\<close>

definition int_valid :: "('k \<Rightarrow> fault + 32 word) \<Rightarrow> 'k \<Rightarrow> bool" where
  "int_valid mem k = (case mem k of Inr _ \<Rightarrow> True | Inl _ \<Rightarrow> False)"

definition int_content :: "('k \<Rightarrow> fault + 32 word) \<Rightarrow> 'k \<Rightarrow> 32 word" where
  "int_content mem k = (case mem k of Inr w \<Rightarrow> w | Inl _ \<Rightarrow> 0)"

interpretation int_table: hash_keys "hashmapIntHash mem" "hashmapIntEquals mem" "int_content mem" "int_valid mem" "\<lambda>w. w"
  for mem
  by unfold_locales (auto simp: hashmapIntHash_def hashmapIntEquals_def int_valid_def int_content_def split: sum.splits)

interpretation int_store: boxed_keys "hashmapIntHash Inr" "hashmapIntEquals Inr" "int_content Inr" "int_valid Inr"
    "\<lambda>w. w" "\<lambda>w. w"
  by unfold_locales (simp_all add: int_valid_def int_content_def)

text \<open>C15: A table of integer keys is a map: any sequence of insertions, lookups, memoizations and
  removals, through any pointers to the keys, with any allocation failing, gives the
  answers a map gives, never faults, and counts the entries of the map.\<close>

theorem hashmap_refines_map:
  assumes "hashmapCreate n True True = Some (Some m)" "list_all (int_valid mem \<circ> hm_key) cs"
  shows "\<exists>as errno' m'. hm_run (hashmapIntHash mem) (hashmapIntEquals mem) cs (0, m) = Inr (as, errno', m') \<and>
    spec_run (int_content mem) cs Map.empty = (as, hm_abs (int_content mem) m') \<and>
    hashmapSize m' = card (dom (hm_abs (int_content mem) m'))"
proof -
  have "hm_inv (int_content mem) (int_valid mem) (\<lambda>w. w) m" "hm_abs (int_content mem) m = Map.empty"
    by (rule created_ok [OF assms(1)])+
  then obtain as errno' m' where
    "hm_run (hashmapIntHash mem) (hashmapIntEquals mem) cs (0, m) = Inr (as, errno', m')"
    "hm_inv (int_content mem) (int_valid mem) (\<lambda>w. w) m'"
    "spec_run (int_content mem) cs Map.empty = (as, hm_abs (int_content mem) m')"
    using int_table.run_ok [of mem m cs 0] assms(2) by (auto simp: list_all_iff)
  then show ?thesis
    using size_card by blast
qed

theorem hashmap_refines_map_witness:
  "\<exists>as errno' m'. hm_run (hashmapIntHash (Inr \<circ> of_nat)) (hashmapIntEquals (Inr \<circ> of_nat))
      [HmPut (5 :: nat) ''a'' True False, HmPut 6 ''b'' False True, HmMemoize 6 (\<lambda>k. ''m'') True True, HmRemove 5, HmGet 6]
      (0, new_hashmap 8) = Inr (as, errno', m') \<and>
    spec_run (int_content (Inr \<circ> of_nat))
      [HmPut (5 :: nat) ''a'' True False, HmPut 6 ''b'' False True, HmMemoize 6 (\<lambda>k. ''m'') True True, HmRemove 5, HmGet 6]
      Map.empty = (as, hm_abs (int_content (Inr \<circ> of_nat)) m') \<and>
    hashmapSize m' = card (dom (hm_abs (int_content (Inr \<circ> of_nat)) m'))"
  by (rule hashmap_refines_map [of 5])
    (simp_all add: hashmapCreate_def bucket_count_loop.simps int_valid_def)

end
