(* ===== verification/Str_Parms.thy ===== *)
theory Str_Parms
  imports Hashmap_Ops C_Format
begin

text \<open>
  The string parameters of \<open>libs/libcutils/str_parms.c\<close>: a hash table whose keys and values are
  heap strings the table owns. The heap is explicit, so that every read of a key by the table,
  every \<open>strdup\<close> and every \<open>free\<close> is a step that can fault. \<open>strdup\<close> and \<open>asprintf\<close> are taken to
  succeed; the allocations inside \<open>hashmapPut\<close> may fail.
\<close>

section \<open>Strings in memory\<close>

text \<open>A pointer to a string of the heap, or to one the caller holds during the call.\<close>

datatype cstr = Own nat | Lit bytes

type_synonym string_heap = "nat \<rightharpoonup> bytes"

definition read_str :: "string_heap \<Rightarrow> cstr \<Rightarrow> fault + bytes" where
  "read_str H p = (case p of Own a \<Rightarrow> deref H a | Lit s \<Rightarrow> Inr s)"

text \<open>\<open>free\<close>; a second one is the fault.\<close>

definition free_str :: "string_heap \<Rightarrow> nat \<Rightarrow> fault + string_heap" where
  "free_str H a = bindE (deref H a) (\<lambda>_. Inr (H(a := None)))"

record str_parms =
  sp_map :: "(cstr, nat) hashmap"
  sp_heap :: string_heap
  sp_next :: nat
  sp_errno :: int

definition strdup :: "bytes \<Rightarrow> str_parms \<Rightarrow> nat \<times> str_parms" where
  "strdup s p = (sp_next p, p\<lparr>sp_heap := (sp_heap p)(sp_next p \<mapsto> s), sp_next := sp_next p + 1\<rparr>)"

definition free_in :: "nat \<Rightarrow> str_parms \<Rightarrow> fault + str_parms" where
  "free_in a p = bindE (free_str (sp_heap p) a) (\<lambda>H. Inr (p\<lparr>sp_heap := H\<rparr>))"

section \<open>The operations\<close>

definition str_eq :: "string_heap \<Rightarrow> cstr \<Rightarrow> cstr \<Rightarrow> fault + bool" where
  "str_eq H key_a key_b = bindE (read_str H key_a) (\<lambda>a. bindE (read_str H key_b) (\<lambda>b. Inr (a = b)))"

definition djb_hash :: "bytes \<Rightarrow> 32 word" where
  "djb_hash s = foldl (\<lambda>h c. (push_bit 5 h + h) + char_word c) 5381 s"

definition str_hash_fn :: "string_heap \<Rightarrow> cstr \<Rightarrow> fault + 32 word" where
  "str_hash_fn H p = bindE (read_str H p) (\<lambda>s. Inr (djb_hash s))"

text \<open>An empty parameter set over a heap without strings of its own; None is \<open>NULL\<close>.\<close>

definition str_parms_create :: "bool \<Rightarrow> bool \<Rightarrow> bool \<Rightarrow> int \<Rightarrow> str_parms option" where
  "str_parms_create parms_ok malloc_ok calloc_ok errno =
     (if \<not> parms_ok then None
      else case hashmapCreate 5 malloc_ok calloc_ok of
             Some (Some m) \<Rightarrow> Some \<lparr>sp_map = m, sp_heap = Map.empty, sp_next = 0, sp_errno = errno\<rparr>
           | _ \<Rightarrow> None)"

text \<open>\<open>hashmapPut\<close> on the table of the parameters.\<close>

definition put_strings :: "bool \<Rightarrow> bool \<Rightarrow> nat \<Rightarrow> nat \<Rightarrow> str_parms \<Rightarrow> fault + nat option \<times> str_parms" where
  "put_strings malloc_ok calloc_ok key value p =
     bindE (hashmapPut (str_hash_fn (sp_heap p)) (str_eq (sp_heap p)) malloc_ok calloc_ok (sp_errno p)
       (sp_map p) (Own key) value) (\<lambda>(old_val, errno, m).
     Inr (old_val, p\<lparr>sp_map := m, sp_errno := errno\<rparr>))"

text \<open>\<open>remove_pair\<close>: the context holds the key to remove, or none to remove every pair.\<close>

definition remove_pair :: "bytes option \<Rightarrow> cstr \<Rightarrow> nat \<Rightarrow> str_parms \<Rightarrow> fault + bool \<times> str_parms" where
  "remove_pair ctxt_key key value p =
     (let do_remove = (\<lambda>should_continue.
            bindE (hashmapRemove (str_hash_fn (sp_heap p)) (str_eq (sp_heap p)) (sp_map p) key) (\<lambda>(old, m).
            bindE (case key of Own a \<Rightarrow> free_in a (p\<lparr>sp_map := m\<rparr>) | Lit s \<Rightarrow> Inr (p\<lparr>sp_map := m\<rparr>)) (\<lambda>p.
            bindE (free_in value p) (\<lambda>p. Inr (should_continue, p)))))
      in case ctxt_key of
           None \<Rightarrow> do_remove True
         | Some s \<Rightarrow> bindE (read_str (sp_heap p) key) (\<lambda>k. if s = k then do_remove False else Inr (True, p)))"

definition str_parms_del :: "bytes \<Rightarrow> str_parms \<Rightarrow> fault + str_parms" where
  "str_parms_del key p = hashmapForEach sp_map (remove_pair (Some key)) p"

text \<open>The table and the structure are freed after the loop; what is left is the heap.\<close>

definition str_parms_destroy :: "str_parms \<Rightarrow> fault + string_heap" where
  "str_parms_destroy p = bindE (hashmapForEach sp_map (remove_pair None) p) (\<lambda>p. Inr (sp_heap p))"

text \<open>\<open>strtok_r\<close>: the runs of bytes that are no delimiter.\<close>

fun strtok_tokens :: "char \<Rightarrow> bytes \<Rightarrow> bytes list" where
  "strtok_tokens d [] = []"
| "strtok_tokens d (c # s) =
     (if c = d then strtok_tokens d s
      else case s of
             [] \<Rightarrow> [[c]]
           | c' # s' \<Rightarrow> if c' = d then [c] # strtok_tokens d s
                       else (case strtok_tokens d s of t # ts \<Rightarrow> (c # t) # ts | [] \<Rightarrow> [[c]]))"

text \<open>One round of the loop of \<open>str_parms_create_str\<close>. A pair that could not be entered is
  left on the heap.\<close>

definition add_pair :: "bool \<Rightarrow> bool \<Rightarrow> bytes \<Rightarrow> str_parms \<Rightarrow> fault + str_parms" where
  "add_pair malloc_ok calloc_ok kvpair p =
     (let name = takeWhile (\<lambda>c. c \<noteq> CHR ''='') kvpair; rest = dropWhile (\<lambda>c. c \<noteq> CHR ''='') kvpair in
      if rest \<noteq> [] \<and> name = [] then Inr p
      else let (key, p) = strdup name p;
               (value, p) = strdup (drop 1 rest) p
           in bindE (put_strings malloc_ok calloc_ok key value p) (\<lambda>(old_val, p).
              case old_val of
                Some old \<Rightarrow> bindE (free_in old p) (\<lambda>p. free_in key p)
              | None \<Rightarrow> Inr p))"

text \<open>\<open>memory i\<close> tells which allocations succeed for the \<open>i\<close>-th pair.\<close>

fun add_pairs :: "(nat \<Rightarrow> bool \<times> bool) \<Rightarrow> nat \<Rightarrow> bytes list \<Rightarrow> str_parms \<Rightarrow> fault + str_parms" where
  "add_pairs memory i [] p = Inr p"
| "add_pairs memory i (t # ts) p =
     bindE (add_pair (fst (memory i)) (snd (memory i)) t p) (add_pairs memory (Suc i) ts)"

definition str_parms_create_str ::
  "bool \<Rightarrow> bool \<Rightarrow> bool \<Rightarrow> (nat \<Rightarrow> bool \<times> bool) \<Rightarrow> int \<Rightarrow> bytes \<Rightarrow> fault + str_parms option" where
  "str_parms_create_str parms_ok malloc_ok calloc_ok memory errno str =
     (case str_parms_create parms_ok malloc_ok calloc_ok errno of
        None \<Rightarrow> Inr None
      | Some p \<Rightarrow> bindE (add_pairs memory 0 (strtok_tokens CHR '';'' str) p) (\<lambda>p. Inr (Some p)))"

text \<open>The error code is that of \<open>errno\<close>, which nothing resets before.\<close>

definition str_parms_add_str ::
  "bool \<Rightarrow> bool \<Rightarrow> bytes \<Rightarrow> bytes \<Rightarrow> str_parms \<Rightarrow> fault + int \<times> str_parms" where
  "str_parms_add_str malloc_ok calloc_ok key value p =
     (let (tmp_key, p) = strdup key p;
          (tmp_val, p) = strdup value p
      in bindE (put_strings malloc_ok calloc_ok tmp_key tmp_val p) (\<lambda>(old_val, p).
         case old_val of
           Some old \<Rightarrow> bindE (free_in old p) (\<lambda>p. bindE (free_in tmp_key p) (\<lambda>p. Inr (0, p)))
         | None \<Rightarrow>
             if sp_errno p = ENOMEM
             then bindE (free_in tmp_key p) (\<lambda>p. bindE (free_in tmp_val p) (\<lambda>p. Inr (- ENOMEM, p)))
             else Inr (0, p)))"

definition str_parms_add_int ::
  "bool \<Rightarrow> bool \<Rightarrow> bytes \<Rightarrow> int \<Rightarrow> str_parms \<Rightarrow> fault + int \<times> str_parms" where
  "str_parms_add_int malloc_ok calloc_ok key value p =
     str_parms_add_str malloc_ok calloc_ok key (fst (snprintf 12 (fmt_d value))) p"

text \<open>\<open>digits\<close> is the number printed with \<open>%.10f\<close>.\<close>

definition str_parms_add_float ::
  "bool \<Rightarrow> bool \<Rightarrow> bytes \<Rightarrow> bytes \<Rightarrow> str_parms \<Rightarrow> fault + int \<times> str_parms" where
  "str_parms_add_float malloc_ok calloc_ok key digits p =
     str_parms_add_str malloc_ok calloc_ok key (fst (snprintf 23 digits)) p"

definition ENOENT :: int where "ENOENT = 2"
definition EINVAL :: int where "EINVAL = 22"

definition get_value :: "bytes \<Rightarrow> str_parms \<Rightarrow> fault + bytes option" where
  "get_value key p =
     bindE (hashmapGet (str_hash_fn (sp_heap p)) (str_eq (sp_heap p)) (sp_map p) (Lit key)) (\<lambda>value.
     case value of
       None \<Rightarrow> Inr None
     | Some a \<Rightarrow> bindE (deref (sp_heap p) a) (\<lambda>s. Inr (Some s)))"

text \<open>The result and the string \<open>strlcpy\<close> leaves in a buffer of \<open>len\<close> bytes.\<close>

definition str_parms_get_str :: "bytes \<Rightarrow> nat \<Rightarrow> str_parms \<Rightarrow> fault + int \<times> bytes option" where
  "str_parms_get_str key len p =
     bindE (get_value key p) (\<lambda>value.
     case value of
       None \<Rightarrow> Inr (- ENOENT, None)
     | Some s \<Rightarrow> Inr (int (length s), if len = 0 then None else Some (take (len - 1) s)))"

text \<open>\<open>strtol\<close> with base 0, on a \<open>long\<close> of 64 bits: the number and the bytes after it.\<close>

definition digit_val :: "char \<Rightarrow> int" where
  "digit_val c =
     (let v = byte_val c in
      if 48 \<le> v \<and> v \<le> 57 then v - 48
      else if 97 \<le> v \<and> v \<le> 122 then v - 87
      else if 65 \<le> v \<and> v \<le> 90 then v - 55
      else 99)"

definition clamp_long :: "int \<Rightarrow> int" where
  "clamp_long n = (if n > 2 ^ 63 - 1 then 2 ^ 63 - 1 else if n < - (2 ^ 63) then - (2 ^ 63) else n)"

definition strtol_base :: "bytes \<Rightarrow> int" where
  "strtol_base s =
     (if length s \<ge> 3 \<and> s ! 0 = CHR ''0'' \<and> s ! 1 \<in> set ''xX'' \<and> digit_val (s ! 2) < 16 then 16
      else if s \<noteq> [] \<and> hd s = CHR ''0'' then 8
      else 10)"

definition strtol_digits :: "bool \<Rightarrow> bytes \<Rightarrow> bytes \<Rightarrow> int \<times> bytes" where
  "strtol_digits neg str s =
     (let base = strtol_base s;
          s = (if base = 16 then drop 2 s else s);
          ds = takeWhile (\<lambda>c. digit_val c < base) s;
          n = foldl (\<lambda>n c. n * base + digit_val c) 0 ds
      in if ds = [] then (0, str)
         else (clamp_long (if neg then - n else n), drop (length ds) s))"

definition strtol0 :: "bytes \<Rightarrow> int \<times> bytes" where
  "strtol0 str =
     (case dropWhile isspace str of
        [] \<Rightarrow> (0, str)
      | c # s \<Rightarrow> if c = CHR ''-'' then strtol_digits True str s
                else if c = CHR ''+'' then strtol_digits False str s
                else strtol_digits False str (c # s))"

text \<open>The result and what is stored in \<open>*val\<close>, a 32-bit \<open>int\<close>.\<close>

definition str_parms_get_int :: "bytes \<Rightarrow> str_parms \<Rightarrow> fault + int \<times> 32 word option" where
  "str_parms_get_int key p =
     bindE (get_value key p) (\<lambda>value.
     case value of
       None \<Rightarrow> Inr (- ENOENT, None)
     | Some s \<Rightarrow>
         (let (n, end) = strtol0 s
          in Inr (if s \<noteq> [] \<and> end = [] then 0 else - EINVAL, Some (word_of_int n))))"

text \<open>\<open>strtof\<close> gives the bytes after the number it reads; the number itself is not stored in
  \<open>*val\<close>, which stays as it was.\<close>

definition str_parms_get_float :: "(bytes \<Rightarrow> bytes) \<Rightarrow> bytes \<Rightarrow> str_parms \<Rightarrow> fault + int" where
  "str_parms_get_float strtof_end key p =
     bindE (get_value key p) (\<lambda>value.
     case value of
       None \<Rightarrow> Inr (- ENOENT)
     | Some s \<Rightarrow> Inr (if s \<noteq> [] \<and> strtof_end s = [] then 0 else - EINVAL))"

text \<open>\<open>combine_strings\<close> adds \<open>key=value\<close> to the string so far.\<close>

definition combine_strings ::
  "cstr \<Rightarrow> nat \<Rightarrow> bytes option \<times> str_parms \<Rightarrow> fault + bool \<times> bytes option \<times> str_parms" where
  "combine_strings key value = (\<lambda>(old_str, p).
     bindE (read_str (sp_heap p) key) (\<lambda>k.
     bindE (deref (sp_heap p) value) (\<lambda>v.
     Inr (True, Some ((case old_str of None \<Rightarrow> [] | Some s \<Rightarrow> s @ '';'') @ k @ ''='' @ v), p))))"

definition str_parms_to_str :: "str_parms \<Rightarrow> fault + bytes option" where
  "str_parms_to_str p =
     (if hashmapSize (sp_map p) > 0
      then bindE (hashmapForEach (sp_map \<circ> snd) combine_strings (None, p)) (\<lambda>(str, p). Inr str)
      else Inr (Some []))"

text \<open>\<open>str_parms_dump\<close> logs every pair; the log is the list of them.\<close>

definition dump_entry ::
  "cstr \<Rightarrow> nat \<Rightarrow> (bytes \<times> bytes) list \<times> str_parms \<Rightarrow> fault + bool \<times> (bytes \<times> bytes) list \<times> str_parms" where
  "dump_entry key value = (\<lambda>(log, p).
     bindE (read_str (sp_heap p) key) (\<lambda>k.
     bindE (deref (sp_heap p) value) (\<lambda>v. Inr (True, log @ [(k, v)], p))))"

definition str_parms_dump :: "str_parms \<Rightarrow> fault + (bytes \<times> bytes) list" where
  "str_parms_dump p = bindE (hashmapForEach (sp_map \<circ> snd) dump_entry ([], p)) (\<lambda>(log, p). Inr log)"

end
