(* ===== verification/Str_Parms_Inv.thy ===== *)
theory Str_Parms_Inv
  imports Str_Parms
begin

text \<open>
  What the string parameters own: every string of the heap is the key or the value of
  exactly one pair, so that nothing leaks and nothing is freed twice; and the map
  from names to texts they stand for.
\<close>

section \<open>The keys of the table\<close>

definition str_content :: "string_heap \<Rightarrow> cstr \<Rightarrow> bytes" where
  "str_content H k = (case k of Own a \<Rightarrow> the (H a) | Lit s \<Rightarrow> s)"

definition str_valid :: "string_heap \<Rightarrow> cstr \<Rightarrow> bool" where
  "str_valid H k = (case k of Own a \<Rightarrow> a \<in> dom H | Lit s \<Rightarrow> True)"

lemma read_str_valid: "str_valid H k \<Longrightarrow> read_str H k = Inr (str_content H k)"
  by (auto simp: str_valid_def str_content_def read_str_def split: cstr.splits)

interpretation str_keys: hash_keys "str_hash_fn H" "str_eq H" "str_content H" "str_valid H" djb_hash for H
  by unfold_locales (simp_all add: str_hash_fn_def str_eq_def read_str_valid)

abbreviation sp_table_ok :: "string_heap \<Rightarrow> (cstr, nat) hashmap \<Rightarrow> bool" where
  "sp_table_ok H \<equiv> hm_inv (str_content H) (str_valid H) djb_hash"

text \<open>The invariant of a table only looks at the strings of its keys.\<close>

lemma hm_inv_cong:
  assumes "hm_inv content valid h m"
    and "\<And>e. e \<in> set (hm_entries m) \<Longrightarrow> content' (he_key e) = content (he_key e) \<and> valid' (he_key e)"
  shows "hm_inv content' valid' h m"
proof -
  have "map (content' \<circ> he_key) (hm_entries m) = map (content \<circ> he_key) (hm_entries m)"
    using assms(2) by simp
  moreover have "\<forall>e \<in> set (hm_entries m). entry_ok content' valid' h e"
    using assms by (auto simp: hm_inv_def entry_ok_def)
  ultimately show ?thesis
    using assms(1) by (simp only: hm_inv_def)
qed

section \<open>Ownership\<close>

definition own_addr :: "cstr \<Rightarrow> nat" where
  "own_addr k = (case k of Own a \<Rightarrow> a | Lit s \<Rightarrow> 0)"

definition owned :: "(cstr, nat) hm_entry multiset \<Rightarrow> nat multiset" where
  "owned M = image_mset (own_addr \<circ> he_key) M + image_mset he_value M"

text \<open>The strings of the heap are the owned ones, each owned once.\<close>

definition owns :: "string_heap \<Rightarrow> (cstr, nat) hm_entry multiset \<Rightarrow> bool" where
  "owns H M \<longleftrightarrow> finite (dom H) \<and> owned M = mset_set (dom H) \<and> (\<forall>e \<in># M. he_key e = Own (own_addr (he_key e)))"

definition parms_inv :: "str_parms \<Rightarrow> bool" where
  "parms_inv p \<longleftrightarrow>
     sp_table_ok (sp_heap p) (sp_map p) \<and> owns (sp_heap p) (mset (hm_entries (sp_map p))) \<and>
     (\<forall>a \<in> dom (sp_heap p). a < sp_next p)"

text \<open>What the parameters stand for.\<close>

definition parms_abs :: "str_parms \<Rightarrow> bytes \<rightharpoonup> bytes" where
  "parms_abs p k = map_option (the \<circ> sp_heap p) (hm_abs (str_content (sp_heap p)) (sp_map p) k)"

lemma owned_simps [simp]:
  "owned {#} = {#}"
  "owned (add_mset e M) = add_mset (own_addr (he_key e)) (add_mset (he_value e) (owned M))"
  by (simp_all add: owned_def)

lemma owned_in: "e \<in># M \<Longrightarrow> own_addr (he_key e) \<in># owned M \<and> he_value e \<in># owned M"
  by (auto simp: owned_def)

lemma owns_in:
  assumes "owns H M" "e \<in># M"
  shows "own_addr (he_key e) \<in> dom H" "he_value e \<in> dom H" "str_valid H (he_key e)"
    "str_content H (he_key e) = the (H (own_addr (he_key e)))"
proof -
  show "own_addr (he_key e) \<in> dom H" "he_value e \<in> dom H"
    using owned_in [OF assms(2)] assms(1) by (auto simp: owns_def)
  moreover have "he_key e = Own (own_addr (he_key e))"
    using assms by (auto simp: owns_def)
  ultimately show "str_valid H (he_key e)" "str_content H (he_key e) = the (H (own_addr (he_key e)))"
    by (metis cstr.simps(5) str_valid_def, metis cstr.simps(5) str_content_def)
qed

text \<open>The two strings of a pair are nobody else's.\<close>

lemma owns_split:
  assumes "owns H (add_mset e M)"
  shows "own_addr (he_key e) \<noteq> he_value e" "own_addr (he_key e) \<notin># owned M" "he_value e \<notin># owned M"
proof -
  have "mset_set (dom H) = add_mset (own_addr (he_key e)) (add_mset (he_value e) (owned M))"
    using assms by (simp add: owns_def)
  then have "count (add_mset (own_addr (he_key e)) (add_mset (he_value e) (owned M))) a \<le> 1" for a
    by (metis count_mset_set(1) count_mset_set(3) finite.emptyI less_one nat_le_linear not_le zero_le count_mset_set(2))
  from this [of "own_addr (he_key e)"] this [of "he_value e"]
  show "own_addr (he_key e) \<noteq> he_value e" "own_addr (he_key e) \<notin># owned M" "he_value e \<notin># owned M"
    by (auto simp: not_in_iff split: if_splits)
qed

lemma mset_set_dom_upd:
  assumes "finite (dom H)" "a \<notin> dom H"
  shows "mset_set (dom (H(a \<mapsto> s))) = add_mset a (mset_set (dom H))"
  using assms by simp

lemma mset_set_dom_free:
  assumes "finite (dom H)" "mset_set (dom H) = add_mset a A"
  shows "mset_set (dom (H(a := None))) = A"
proof -
  have "a \<in># mset_set (dom H)"
    by (simp add: assms(2))
  then have "a \<in> dom H"
    using assms(1) by simp
  then have "mset_set (dom H - {a}) = A"
    using mset_set.remove [OF assms(1), of a] assms(2) by (metis add_mset_add_mset_same_iff)
  moreover have "dom (H(a := None)) = dom H - {a}"
    by auto
  ultimately show ?thesis by simp
qed

lemma owns_insert:
  assumes "owns H M" "k \<notin> dom H" "v \<notin> dom H" "k \<noteq> v" "he_key e = Own k" "he_value e = v"
  shows "owns (H(k \<mapsto> s, v \<mapsto> t)) (add_mset e M)"
proof -
  have "mset_set (dom (H(k \<mapsto> s, v \<mapsto> t))) = add_mset v (add_mset k (mset_set (dom H)))"
    using assms by (subst mset_set_dom_upd) (simp_all add: owns_def)
  then show ?thesis
    using assms by (auto simp: owns_def own_addr_def add_mset_commute)
qed

lemma owns_remove:
  assumes "owns H (add_mset e M)"
  shows "owns (H(own_addr (he_key e) := None, he_value e := None)) M"
proof -
  have "mset_set (dom (H(own_addr (he_key e) := None))) = add_mset (he_value e) (owned M)"
    using assms by (intro mset_set_dom_free) (auto simp: owns_def)
  then have "mset_set (dom (H(own_addr (he_key e) := None, he_value e := None))) = owned M"
    using assms by (intro mset_set_dom_free) (auto simp: owns_def intro: finite_subset)
  then show ?thesis
    using assms by (auto simp: owns_def)
qed

lemma owns_replace:
  assumes "owns H (add_mset e M)" "v \<notin> dom H"
  shows "owns (H(v \<mapsto> t, he_value e := None)) (add_mset (e\<lparr>he_value := v\<rparr>) M)"
proof -
  have "he_value e \<noteq> v"
    using owns_in(2) [OF assms(1), of e] assms(2) by auto
  have "mset_set (dom (H(v \<mapsto> t))) = add_mset v (mset_set (dom H))"
    using assms by (intro mset_set_dom_upd) (simp_all add: owns_def)
  also have "\<dots> = add_mset (he_value e) (owned (add_mset (e\<lparr>he_value := v\<rparr>) M))"
    using assms(1) by (simp add: owns_def)
  finally have "mset_set (dom (H(v \<mapsto> t, he_value e := None))) = owned (add_mset (e\<lparr>he_value := v\<rparr>) M)"
    using assms(1) by (intro mset_set_dom_free) (auto simp: owns_def)
  then show ?thesis
    using assms(1) by (auto simp: owns_def)
qed

section \<open>The map by its pairs\<close>

lemma parms_abs_entry:
  assumes "sp_table_ok (sp_heap p) (sp_map p)"
  shows "parms_abs p k = Some s \<longleftrightarrow>
    (\<exists>e \<in># mset (hm_entries (sp_map p)). str_content (sp_heap p) (he_key e) = k \<and> the (sp_heap p (he_value e)) = s)"
proof -
  have "parms_abs p k = Some s \<longleftrightarrow> (\<exists>v. hm_abs (str_content (sp_heap p)) (sp_map p) k = Some v \<and> the (sp_heap p v) = s)"
    by (auto simp: parms_abs_def)
  then show ?thesis
    unfolding str_keys.abs_entry [OF assms] by blast
qed

lemma parms_abs_None:
  "parms_abs p k = None \<longleftrightarrow> k \<notin> (str_content (sp_heap p) \<circ> he_key) ` set (hm_entries (sp_map p))"
  by (auto simp: parms_abs_def hm_abs_def map_of_eq_None_iff entry_pair_def image_iff)

text \<open>The contents of owned strings survive any change of the heap elsewhere.\<close>

lemma str_content_frame:
  assumes "owns H M" "e \<in># M" "H' (own_addr (he_key e)) = H (own_addr (he_key e))"
  shows "str_content H' (he_key e) = str_content H (he_key e)" "str_valid H' (he_key e)"
proof -
  obtain a where a: "he_key e = Own a"
    using assms(1,2) by (auto simp: owns_def)
  then show "str_content H' (he_key e) = str_content H (he_key e)" "str_valid H' (he_key e)"
    using assms(3) owns_in(1) [OF assms(1,2)] by (auto simp: str_content_def str_valid_def own_addr_def)
qed

lemma table_frame:
  assumes "sp_table_ok H m" "owns H (mset (hm_entries m))"
    and "\<And>e. e \<in># mset (hm_entries m) \<Longrightarrow> H' (own_addr (he_key e)) = H (own_addr (he_key e))"
  shows "sp_table_ok H' m"
  using assms(1)
proof (rule hm_inv_cong)
  fix e :: "(cstr, nat) hm_entry"
  assume "e \<in> set (hm_entries m)"
  then have "e \<in># mset (hm_entries m)" by simp
  with str_content_frame [OF assms(2) this] assms(3)
  show "str_content H' (he_key e) = str_content H (he_key e) \<and> str_valid H' (he_key e)"
    by blast
qed

section \<open>Entering a pair\<close>

lemma put_pair:
  fixes p :: str_parms and s t :: bytes
  assumes "parms_inv p"
  defines "H1 \<equiv> (sp_heap p)(sp_next p \<mapsto> s, sp_next p + 1 \<mapsto> t)"
  shows "\<exists>old errno m. put_strings malloc_ok calloc_ok (sp_next p) (sp_next p + 1)
      (p\<lparr>sp_heap := H1, sp_next := sp_next p + 2\<rparr>) =
        Inr (old, p\<lparr>sp_heap := H1, sp_next := sp_next p + 2, sp_map := m, sp_errno := errno\<rparr>) \<and>
    sp_table_ok H1 m \<and>
    (case old of
       Some w \<Rightarrow> errno = sp_errno p \<and> (\<exists>e M. str_content (sp_heap p) (he_key e) = s \<and> w = he_value e \<and>
         mset (hm_entries (sp_map p)) = add_mset e M \<and>
         mset (hm_entries m) = add_mset (e\<lparr>he_value := sp_next p + 1\<rparr>) M)
     | None \<Rightarrow> parms_abs p s = None \<and>
         (if malloc_ok then errno \<in> {sp_errno p, ENOMEM} \<and>
            mset (hm_entries m) = add_mset (createEntry (Own (sp_next p)) (mix_hash (djb_hash s)) (sp_next p + 1))
              (mset (hm_entries (sp_map p)))
          else errno = ENOMEM \<and> m = sp_map p))"
proof -
  have fresh: "H1 a = sp_heap p a" if "a \<in> dom (sp_heap p)" for a
  proof -
    have "a < sp_next p"
      using that assms(1) by (simp add: parms_inv_def)
    then show ?thesis
      by (simp add: H1_def)
  qed
  have own: "owns (sp_heap p) (mset (hm_entries (sp_map p)))"
    using assms(1) by (simp add: parms_inv_def)
  have table: "sp_table_ok (sp_heap p) (sp_map p)"
    using assms(1) by (simp add: parms_inv_def)
  have ok: "sp_table_ok H1 (sp_map p)"
    by (rule table_frame [OF table own]) (rule fresh [OF owns_in(1) [OF own]])
  have same: "str_content H1 (he_key e) = str_content (sp_heap p) (he_key e)" if "e \<in> set (hm_entries (sp_map p))" for e
    using str_content_frame(1) [OF own, of e H1] that fresh owns_in(1) [OF own, of e] by simp
  have key: "str_valid H1 (Own (sp_next p))" "str_content H1 (Own (sp_next p)) = s"
    by (simp_all add: str_valid_def str_content_def H1_def)
  obtain old errno m where put:
    "hashmapPut (str_hash_fn H1) (str_eq H1) malloc_ok calloc_ok (sp_errno p) (sp_map p) (Own (sp_next p)) (sp_next p + 1) =
       Inr (old, errno, m)" "sp_table_ok H1 m"
    "case old of
       Some w \<Rightarrow> errno = sp_errno p \<and> (\<exists>e M. str_content H1 (he_key e) = str_content H1 (Own (sp_next p)) \<and> w = he_value e \<and>
         mset (hm_entries (sp_map p)) = add_mset e M \<and> mset (hm_entries m) = add_mset (e\<lparr>he_value := sp_next p + 1\<rparr>) M)
     | None \<Rightarrow> str_content H1 (Own (sp_next p)) \<notin> (str_content H1 \<circ> he_key) ` set (hm_entries (sp_map p)) \<and>
         (if malloc_ok then errno \<in> {sp_errno p, ENOMEM} \<and>
            mset (hm_entries m) = add_mset (createEntry (Own (sp_next p))
              (mix_hash (djb_hash (str_content H1 (Own (sp_next p))))) (sp_next p + 1)) (mset (hm_entries (sp_map p)))
          else errno = ENOMEM \<and> m = sp_map p)"
    using str_keys.put_entries [OF ok key(1)] by blast
  have none: "parms_abs p s = None \<longleftrightarrow> s \<notin> (str_content H1 \<circ> he_key) ` set (hm_entries (sp_map p))"
    unfolding parms_abs_None using same by (auto simp: image_iff)
  have some: "str_content (sp_heap p) (he_key e) = str_content H1 (he_key e)"
    if "mset (hm_entries (sp_map p)) = add_mset e M" for e M
    using same [of e] that by (metis set_mset_mset union_single_eq_member)
  have "put_strings malloc_ok calloc_ok (sp_next p) (sp_next p + 1) (p\<lparr>sp_heap := H1, sp_next := sp_next p + 2\<rparr>) =
        Inr (old, p\<lparr>sp_heap := H1, sp_next := sp_next p + 2, sp_map := m, sp_errno := errno\<rparr>)"
    using put(1) by (simp add: put_strings_def)
  moreover have "case old of
       Some w \<Rightarrow> errno = sp_errno p \<and> (\<exists>e M. str_content (sp_heap p) (he_key e) = s \<and> w = he_value e \<and>
         mset (hm_entries (sp_map p)) = add_mset e M \<and>
         mset (hm_entries m) = add_mset (e\<lparr>he_value := sp_next p + 1\<rparr>) M)
     | None \<Rightarrow> parms_abs p s = None \<and>
         (if malloc_ok then errno \<in> {sp_errno p, ENOMEM} \<and>
            mset (hm_entries m) = add_mset (createEntry (Own (sp_next p)) (mix_hash (djb_hash s)) (sp_next p + 1))
              (mset (hm_entries (sp_map p)))
          else errno = ENOMEM \<and> m = sp_map p)"
  proof (cases old)
    case (Some w)
    then obtain e M where e: "str_content H1 (he_key e) = s" "w = he_value e"
        "mset (hm_entries (sp_map p)) = add_mset e M" "mset (hm_entries m) = add_mset (e\<lparr>he_value := sp_next p + 1\<rparr>) M"
      using put(3) key(2) by auto
    then have "str_content (sp_heap p) (he_key e) = s"
      using some by simp
    with Some e put(3) show ?thesis
      by auto
  next
    case None
    with put(3) show ?thesis
      unfolding none by (auto simp: key(2) split: if_splits)
  qed
  ultimately show ?thesis
    using put(2) by blast
qed

end
