(* ===== verification/Str_Parms_Ops.thy ===== *)
theory Str_Parms_Ops
  imports Str_Parms_Inv
begin

text \<open>
  Every operation of the string parameters acts on the map they stand for and keeps the
  ownership of the strings: adding, removing, destroying, parsing and printing.
\<close>

section \<open>Adding a pair\<close>

text \<open>The steps after \<open>hashmapPut\<close> that free what the pair replaced.\<close>

lemma free_in_own: "a \<in> dom (sp_heap p) \<Longrightarrow> free_in a p = Inr (p\<lparr>sp_heap := (sp_heap p)(a := None)\<rparr>)"
  by (auto simp: free_in_def free_str_def)

lemma addr_below: "parms_inv p \<Longrightarrow> sp_heap p a = Some s \<Longrightarrow> a < sp_next p + 2"
  unfolding parms_inv_def by (meson domI trans_less_add1)

lemma fresh_addr: "parms_inv p \<Longrightarrow> sp_next p \<le> a \<Longrightarrow> a \<notin> dom (sp_heap p)"
  unfolding parms_inv_def by (meson leD)

text \<open>A replaced value: the pair keeps its key, the new key and the old value go.\<close>

lemma replace_pair:
  fixes p :: str_parms and s t :: bytes
  assumes inv: "parms_inv p"
    and e: "mset (hm_entries (sp_map p)) = add_mset e M" "str_content (sp_heap p) (he_key e) = s"
    and m: "mset (hm_entries m) = add_mset (e\<lparr>he_value := sp_next p + 1\<rparr>) M"
      "sp_table_ok ((sp_heap p)(sp_next p \<mapsto> s, sp_next p + 1 \<mapsto> t)) m"
  defines "p' \<equiv> p\<lparr>sp_heap := (sp_heap p)(sp_next p + 1 \<mapsto> t, he_value e := None), sp_next := sp_next p + 2, sp_map := m\<rparr>"
  shows "parms_inv p'" "parms_abs p' = (parms_abs p)(s \<mapsto> t)"
    "bindE (free_in (he_value e) (p\<lparr>sp_heap := (sp_heap p)(sp_next p \<mapsto> s, sp_next p + 1 \<mapsto> t), sp_next := sp_next p + 2, sp_map := m\<rparr>))
       (free_in (sp_next p)) = Inr p'"
proof -
  let ?H = "sp_heap p" and ?k = "sp_next p" and ?v = "sp_next p + 1"
  note below = addr_below [OF inv]
  have fresh: "?k \<notin> dom ?H" "?v \<notin> dom ?H"
    using fresh_addr [OF inv] by simp_all
  have own: "owns ?H (add_mset e M)"
    using inv e(1) by (simp add: parms_inv_def)
  note split = owns_split [OF own]
  have old: "he_value e \<in> dom ?H" "he_value e \<noteq> ?k" "he_value e \<noteq> ?v"
    using owns_in(2) [OF own, of e] fresh by auto
  have keys: "he_value e \<noteq> own_addr (he_key x)" "own_addr (he_key x) \<in> dom ?H" if "x \<in># add_mset e M" for x
    using that split owned_in [of x M] owns_in(1) [OF own that] by auto
  let ?H' = "?H(?v \<mapsto> t, he_value e := None)"
  have own': "owns ?H' (mset (hm_entries m))"
    unfolding m(1) by (rule owns_replace [OF own fresh(2)])
  have heap: "?H' (own_addr (he_key x)) = (?H(?k \<mapsto> s, ?v \<mapsto> t)) (own_addr (he_key x))"
    "?H' (own_addr (he_key x)) = ?H (own_addr (he_key x))" if "x \<in># add_mset e M" for x
    using keys [OF that] fresh by auto
  have "sp_table_ok ?H' m"
  proof (rule hm_inv_cong [OF m(2)])
    fix x :: "(cstr, nat) hm_entry"
    assume "x \<in> set (hm_entries m)"
    then have "x \<in># add_mset (e\<lparr>he_value := ?v\<rparr>) M"
      using m(1) by (metis set_mset_mset)
    then have "\<exists>y. y \<in># add_mset e M \<and> he_key x = he_key y"
      by (cases "x \<in># M") (auto intro: exI [of _ x] exI [of _ e])
    then obtain y where y: "y \<in># add_mset e M" "he_key x = he_key y"
      by blast
    then obtain a where "he_key y = Own a"
      using own by (auto simp: owns_def)
    then show "str_content ?H' (he_key x) = str_content (?H(?k \<mapsto> s, ?v \<mapsto> t)) (he_key x) \<and> str_valid ?H' (he_key x)"
      using y heap(1) [OF y(1)] keys [OF y(1)] by (auto simp: str_content_def str_valid_def own_addr_def)
  qed
  moreover have "\<forall>a \<in> dom ?H'. a < ?k + 2"
    using below by auto
  ultimately show inv': "parms_inv p'"
    using own' by (simp add: parms_inv_def p'_def)
  have content: "str_content ?H' (he_key x) = str_content ?H (he_key x)" if "x \<in># add_mset e M" for x
    by (rule str_content_frame(1) [OF own that]) (rule heap(2) [OF that])
  have other: "str_content ?H (he_key x) \<noteq> s" "the (?H' (he_value x)) = the (?H (he_value x))" if "x \<in># M" for x
  proof -
    show "str_content ?H (he_key x) \<noteq> s"
    proof
      assume "str_content ?H (he_key x) = s"
      moreover have "s \<notin> (str_content ?H \<circ> he_key) ` set_mset M"
        using str_keys.entry_unique [of ?H, OF _ e(1)] inv unfolding parms_inv_def e(2) by blast
      ultimately show False
        using that by (metis comp_apply image_eqI)
    qed
    have "he_value x \<noteq> he_value e" "he_value x \<in> dom ?H"
      using split(3) owned_in [OF that] owns_in(2) [OF own, of x] that by auto
    then show "the (?H' (he_value x)) = the (?H (he_value x))"
      using fresh by auto
  qed
  have table: "sp_table_ok (sp_heap p) (sp_map p)" "sp_table_ok (sp_heap p') (sp_map p')"
    using inv inv' by (simp_all add: parms_inv_def)
  show "parms_abs p' = (parms_abs p)(s \<mapsto> t)"
  proof (rule map_eqI)
    fix k w
    have "parms_abs p' k = Some w \<longleftrightarrow>
        s = k \<and> t = w \<or> (\<exists>x \<in># M. str_content ?H (he_key x) = k \<and> the (?H (he_value x)) = w)"
      unfolding parms_abs_entry [OF table(2)] using m(1) content other(2) e(2) old(3) by (simp add: p'_def)
    also have "\<dots> \<longleftrightarrow> ((parms_abs p)(s \<mapsto> t)) k = Some w"
      using parms_abs_entry [OF table(1), of k w] e other(1) by auto
    finally show "parms_abs p' k = Some w \<longleftrightarrow> ((parms_abs p)(s \<mapsto> t)) k = Some w" .
  qed
  have "(?H(?k \<mapsto> s, ?v \<mapsto> t))(he_value e := None, ?k := None) = ?H'"
    using fresh old by (auto simp: fun_eq_iff)
  then show "bindE (free_in (he_value e) (p\<lparr>sp_heap := ?H(?k \<mapsto> s, ?v \<mapsto> t), sp_next := ?k + 2, sp_map := m\<rparr>))
       (free_in ?k) = Inr p'"
    using old by (simp add: free_in_own p'_def domIff [symmetric])
qed

text \<open>A new pair.\<close>

lemma new_pair:
  fixes p :: str_parms and s t :: bytes and errno :: int
  assumes inv: "parms_inv p" and none: "parms_abs p s = None"
    and m: "mset (hm_entries m) = add_mset (createEntry (Own (sp_next p)) h (sp_next p + 1)) (mset (hm_entries (sp_map p)))"
      "sp_table_ok ((sp_heap p)(sp_next p \<mapsto> s, sp_next p + 1 \<mapsto> t)) m"
  defines "p' \<equiv> p\<lparr>sp_heap := (sp_heap p)(sp_next p \<mapsto> s, sp_next p + 1 \<mapsto> t), sp_next := sp_next p + 2, sp_map := m,
      sp_errno := errno\<rparr>"
  shows "parms_inv p'" "parms_abs p' = (parms_abs p)(s \<mapsto> t)"
proof -
  let ?H = "sp_heap p" and ?k = "sp_next p" and ?v = "sp_next p + 1"
  let ?H' = "?H(?k \<mapsto> s, ?v \<mapsto> t)"
  note below = addr_below [OF inv]
  have fresh: "?k \<notin> dom ?H" "?v \<notin> dom ?H"
    using fresh_addr [OF inv] by simp_all
  have own: "owns ?H (mset (hm_entries (sp_map p)))"
    using inv by (simp add: parms_inv_def)
  have "owns ?H' (mset (hm_entries m))"
    unfolding m(1) by (rule owns_insert [OF own fresh]) (simp_all add: createEntry_def)
  moreover have "\<forall>a \<in> dom ?H'. a < ?k + 2"
    using below by auto
  ultimately show inv': "parms_inv p'"
    using m(2) by (simp add: parms_inv_def p'_def)
  have same: "str_content ?H' (he_key x) = str_content ?H (he_key x)" "the (?H' (he_value x)) = the (?H (he_value x))"
    if "x \<in> set (hm_entries (sp_map p))" for x
  proof -
    have x: "x \<in># mset (hm_entries (sp_map p))" using that by simp
    show "str_content ?H' (he_key x) = str_content ?H (he_key x)"
      using owns_in(1) [OF own x] fresh by (intro str_content_frame(1) [OF own x]) auto
    show "the (?H' (he_value x)) = the (?H (he_value x))"
      using owns_in(2) [OF own x] fresh by auto
  qed
  have table: "sp_table_ok (sp_heap p) (sp_map p)" "sp_table_ok (sp_heap p') (sp_map p')"
    using inv inv' by (simp_all add: parms_inv_def)
  show "parms_abs p' = (parms_abs p)(s \<mapsto> t)"
  proof (rule map_eqI)
    fix k w
    have "parms_abs p' k = Some w \<longleftrightarrow> s = k \<and> t = w \<or>
        (\<exists>x \<in># mset (hm_entries (sp_map p)). str_content ?H' (he_key x) = k \<and> the (?H' (he_value x)) = w)"
      unfolding parms_abs_entry [OF table(2)] using m(1) by (simp add: p'_def createEntry_def str_content_def)
    also have "\<dots> \<longleftrightarrow> s = k \<and> t = w \<or> parms_abs p k = Some w"
      unfolding parms_abs_entry [OF table(1)] using same by auto
    also have "\<dots> \<longleftrightarrow> ((parms_abs p)(s \<mapsto> t)) k = Some w"
      using none by auto
    finally show "parms_abs p' k = Some w \<longleftrightarrow> ((parms_abs p)(s \<mapsto> t)) k = Some w" .
  qed
qed

section \<open>Removing pairs\<close>

lemma drop_pair:
  assumes inv: "parms_inv p" and e: "mset (hm_entries (sp_map p)) = add_mset e (mset (hm_entries m))"
    and m: "sp_table_ok (sp_heap p) m"
  defines "p' \<equiv> p\<lparr>sp_heap := (sp_heap p)(own_addr (he_key e) := None, he_value e := None), sp_map := m\<rparr>"
  shows "parms_inv p'" "parms_abs p' = (parms_abs p)(str_content (sp_heap p) (he_key e) := None)"
proof -
  let ?H = "sp_heap p" and ?M = "mset (hm_entries m)"
  let ?H' = "?H(own_addr (he_key e) := None, he_value e := None)"
  have own: "owns ?H (add_mset e ?M)"
    using inv e by (simp add: parms_inv_def)
  note split = owns_split [OF own]
  have own_m: "owns ?H' ?M"
    by (rule owns_remove [OF own])
  have keep: "?H' (own_addr (he_key x)) = ?H (own_addr (he_key x))" "?H' (he_value x) = ?H (he_value x)" if "x \<in># ?M" for x
    using owned_in [OF that] split by auto
  have content: "str_content ?H' (he_key x) = str_content ?H (he_key x)" "str_valid ?H' (he_key x)" if "x \<in># ?M" for x
    using str_content_frame [where H' = ?H', OF own, of x] keep(1) [OF that] that by simp_all
  have "sp_table_ok ?H' m"
    by (rule hm_inv_cong [OF m]) (use content in simp)
  then show inv': "parms_inv p'"
    using inv own_m by (auto simp: parms_inv_def p'_def)
  have table: "sp_table_ok (sp_heap p) (sp_map p)" "sp_table_ok (sp_heap p') (sp_map p')"
    using inv inv' by (simp_all add: parms_inv_def)
  have unique: "str_content ?H (he_key x) \<noteq> str_content ?H (he_key e)" if "x \<in># ?M" for x
    using str_keys.entry_unique [OF table(1) e] that by (metis comp_apply image_eqI)
  show "parms_abs p' = (parms_abs p)(str_content ?H (he_key e) := None)"
  proof (rule map_eqI)
    fix k w
    have "parms_abs p' k = Some w \<longleftrightarrow> (\<exists>x \<in># ?M. str_content ?H' (he_key x) = k \<and> the (?H' (he_value x)) = w)"
      unfolding parms_abs_entry [OF table(2)] by (simp add: p'_def)
    also have "\<dots> \<longleftrightarrow> (\<exists>x \<in># ?M. str_content ?H (he_key x) = k \<and> the (?H (he_value x)) = w)"
      using content keep by auto
    also have "\<dots> \<longleftrightarrow> ((parms_abs p)(str_content ?H (he_key e) := None)) k = Some w"
      using parms_abs_entry [OF table(1), of k w] e unique by auto
    finally show "parms_abs p' k = Some w \<longleftrightarrow> ((parms_abs p)(str_content ?H (he_key e) := None)) k = Some w" .
  qed
qed

text \<open>Removals do not grow the table and leave \<open>errno\<close> alone.\<close>

definition shrinks :: "str_parms \<Rightarrow> str_parms \<Rightarrow> bool" where
  "shrinks p p' \<longleftrightarrow> length (hm_buckets (sp_map p')) = length (hm_buckets (sp_map p)) \<and>
     hm_size (sp_map p') \<le> hm_size (sp_map p) \<and> sp_errno p' = sp_errno p"

text \<open>The removal of a pair of the table: what \<open>remove_pair\<close> does below its label.\<close>

lemma remove_known_pair:
  assumes inv: "parms_inv p" and e: "e \<in># mset (hm_entries (sp_map p))"
    and ctxt: "ctxt_key = None \<or> ctxt_key = Some (str_content (sp_heap p) (he_key e))"
  shows "\<exists>p'. remove_pair ctxt_key (he_key e) (he_value e) p = Inr (ctxt_key = None, p') \<and> parms_inv p' \<and>
    parms_abs p' = (parms_abs p)(str_content (sp_heap p) (he_key e) := None) \<and>
    mset (hm_entries (sp_map p)) = add_mset e (mset (hm_entries (sp_map p'))) \<and>
    shrinks p p'"
proof -
  let ?H = "sp_heap p" and ?E = "mset (hm_entries (sp_map p))"
  have table: "sp_table_ok ?H (sp_map p)" and own: "owns ?H ?E"
    using inv by (simp_all add: parms_inv_def)
  note e_own = owns_in [OF own e]
  obtain old m where rem: "hashmapRemove (str_hash_fn ?H) (str_eq ?H) (sp_map p) (he_key e) = Inr (old, m)"
      "sp_table_ok ?H m" "length (hm_buckets m) = length (hm_buckets (sp_map p))"
      "case old of
         Some w \<Rightarrow> \<exists>x M. str_content ?H (he_key x) = str_content ?H (he_key e) \<and> w = he_value x \<and>
           ?E = add_mset x M \<and> mset (hm_entries m) = M
       | None \<Rightarrow> str_content ?H (he_key e) \<notin> (str_content ?H \<circ> he_key) ` set (hm_entries (sp_map p)) \<and> m = sp_map p"
    using str_keys.remove_entries [OF table e_own(3)] by blast
  have "old \<noteq> None"
  proof
    assume "old = None"
    with rem(4) have "str_content ?H (he_key e) \<notin> (str_content ?H \<circ> he_key) ` set (hm_entries (sp_map p))"
      by simp
    with e show False
      by (metis comp_apply image_eqI set_mset_mset)
  qed
  then obtain x where x: "str_content ?H (he_key x) = str_content ?H (he_key e)" "?E = add_mset x (mset (hm_entries m))"
    using rem(4) by auto
  have "x = e"
  proof (rule ccontr)
    assume "x \<noteq> e"
    then have "e \<in> set_mset (mset (hm_entries m))"
      using e unfolding x(2) by simp
    then have "str_content ?H (he_key e) \<in> (str_content ?H \<circ> he_key) ` set_mset (mset (hm_entries m))"
      by (metis comp_apply image_eqI)
    with str_keys.entry_unique [OF table x(2)] x(1) show False
      by metis
  qed
  then have M: "?E = add_mset e (mset (hm_entries m))"
    using x(2) by simp
  let ?p = "p\<lparr>sp_heap := ?H(own_addr (he_key e) := None, he_value e := None), sp_map := m\<rparr>"
  note drop = drop_pair [OF inv M rem(2)]
  have "he_key e = Own (own_addr (he_key e))" "own_addr (he_key e) \<noteq> he_value e"
    using own e owns_split(1) [of ?H e "mset (hm_entries m)"] M by (auto simp: owns_def)
  then have "bindE (case he_key e of Own a \<Rightarrow> free_in a (p\<lparr>sp_map := m\<rparr>) | Lit s \<Rightarrow> Inr (p\<lparr>sp_map := m\<rparr>)) (free_in (he_value e)) =
      Inr ?p"
    using e_own(1,2) by (cases "he_key e") (auto simp: free_in_own own_addr_def)
  then have free: "bindE (case he_key e of Own a \<Rightarrow> free_in a (p\<lparr>sp_map := m\<rparr>) | Lit s \<Rightarrow> Inr (p\<lparr>sp_map := m\<rparr>))
      (\<lambda>p. bindE (free_in (he_value e) p) (\<lambda>p. Inr (c, p))) = Inr (c, ?p)" for c :: bool
    by (simp add: bindE_assoc [symmetric])
  have "remove_pair ctxt_key (he_key e) (he_value e) p = Inr (ctxt_key = None, ?p)"
    using ctxt by (auto simp: remove_pair_def Let_def rem(1) free read_str_valid [OF e_own(3)])
  moreover have "hm_size m \<le> hm_size (sp_map p)"
    using table rem(2) arg_cong [OF M, of size] by (simp add: hm_inv_def)
  ultimately show ?thesis
    using drop M rem(3) by (intro exI [of _ ?p]) (simp add: shrinks_def)
qed

lemma skip_pair:
  assumes "parms_inv p" "e \<in># mset (hm_entries (sp_map p))" "str_content (sp_heap p) (he_key e) \<noteq> s"
  shows "remove_pair (Some s) (he_key e) (he_value e) p = Inr (True, p)"
proof -
  have "owns (sp_heap p) (mset (hm_entries (sp_map p)))"
    using assms(1) by (simp add: parms_inv_def)
  then have "str_valid (sp_heap p) (he_key e)"
    using assms(2) by (rule owns_in(3))
  with assms(3) show ?thesis
    by (simp add: remove_pair_def Let_def read_str_valid)
qed

lemma del_chain:
  assumes "parms_inv p" "set es \<subseteq> set (hm_entries (sp_map p))"
  shows "\<exists>p'. for_each_chain (remove_pair (Some s)) es p =
      Inr (s \<notin> (str_content (sp_heap p) \<circ> he_key) ` set es, p') \<and>
    (if s \<in> (str_content (sp_heap p) \<circ> he_key) ` set es
     then parms_inv p' \<and> parms_abs p' = (parms_abs p)(s := None) \<and> shrinks p p'
     else p' = p)"
  using assms(2)
proof (induction es)
  case Nil
  then show ?case by simp
next
  case (Cons e es)
  show ?case
  proof (cases "str_content (sp_heap p) (he_key e) = s")
    case True
    then show ?thesis
      using remove_known_pair [OF assms(1), of e "Some s"] Cons.prems by auto
  next
    case False
    then show ?thesis
      using skip_pair [OF assms(1), of e s] Cons by auto
  qed
qed

lemma set_entries: "i < length (hm_buckets m) \<Longrightarrow> set (hm_buckets m ! i) \<subseteq> set (hm_entries m)"
  using set_bucket by (simp add: hm_entries_def)

lemma del_buckets:
  assumes "parms_inv p" "n = length (hm_buckets (sp_map p))" "i \<le> n"
  shows "\<exists>p'. for_each_bucket sp_map (remove_pair (Some s)) n i p = Inr p' \<and>
    (p' = p \<and> s \<notin> (str_content (sp_heap p) \<circ> he_key) ` set (concat (drop i (hm_buckets (sp_map p)))) \<or>
     parms_inv p' \<and> parms_abs p' = (parms_abs p)(s := None) \<and> shrinks p p')"
  using assms(3)
proof (induction "n - i" arbitrary: i)
  case 0
  with assms(2) show ?case
    by (simp add: for_each_bucket.simps)
next
  case (Suc d)
  then have i: "i < length (hm_buckets (sp_map p))" "i < n"
    using assms(2) by simp_all
  let ?c = "hm_buckets (sp_map p) ! i"
  have drop: "drop i (hm_buckets (sp_map p)) = ?c # drop (Suc i) (hm_buckets (sp_map p))"
    by (rule Cons_nth_drop_Suc [symmetric, OF i(1)])
  obtain p' where c: "for_each_chain (remove_pair (Some s)) ?c p = Inr (s \<notin> (str_content (sp_heap p) \<circ> he_key) ` set ?c, p')"
      "if s \<in> (str_content (sp_heap p) \<circ> he_key) ` set ?c
       then parms_inv p' \<and> parms_abs p' = (parms_abs p)(s := None) \<and> shrinks p p' else p' = p"
    using del_chain [OF assms(1) set_entries [OF i(1)]] by blast
  show ?case
  proof (cases "s \<in> (str_content (sp_heap p) \<circ> he_key) ` set ?c")
    case True
    then show ?thesis
      using c i(2) by (subst for_each_bucket.simps) simp
  next
    case False
    then have "for_each_bucket sp_map (remove_pair (Some s)) n i p = for_each_bucket sp_map (remove_pair (Some s)) n (Suc i) p"
      using c i(2) by (subst for_each_bucket.simps) simp
    moreover have "s \<notin> (str_content (sp_heap p) \<circ> he_key) ` set (concat (drop i (hm_buckets (sp_map p)))) \<longleftrightarrow>
        s \<notin> (str_content (sp_heap p) \<circ> he_key) ` set (concat (drop (Suc i) (hm_buckets (sp_map p))))"
      using False unfolding drop by (simp add: image_Un)
    ultimately show ?thesis
      using Suc.hyps(1) [of "Suc i"] Suc.hyps(2) Suc.prems i(2) by (simp add: Suc_leI)
  qed
qed

lemma del_ok:
  assumes "parms_inv p"
  shows "\<exists>p'. str_parms_del s p = Inr p' \<and> parms_inv p' \<and> parms_abs p' = (parms_abs p)(s := None) \<and> shrinks p p'"
proof -
  have "(parms_abs p)(s := None) = parms_abs p"
    if "s \<notin> (str_content (sp_heap p) \<circ> he_key) ` set (hm_entries (sp_map p))"
    using that parms_abs_None [of p s] by (simp add: fun_upd_idem)
  then show ?thesis
    using del_buckets [OF assms refl, of 0 s] assms
    by (auto simp: str_parms_del_def hashmapForEach_def hm_entries_def shrinks_def)
qed

end
