(* ===== verification/Str_Parms_Props.thy ===== *)
theory Str_Parms_Props
  imports Str_Parms_Ops
begin

text \<open>
  What the string parameters promise: the parameters are a map from names to texts, printing
  and parsing are inverse, everything is freed once, and where a stale error
  code breaks this.
\<close>

section \<open>Growth of the table\<close>

lemma expand_growth:
  assumes "expandIfNecessary calloc_ok errno m = (errno', m')"
  shows "length (hm_buckets m') \<le> max (length (hm_buckets m)) (3 * hm_size m)" "hm_size m' = hm_size m"
    "calloc_ok \<Longrightarrow> length (hm_buckets m) < 2 ^ 59 \<Longrightarrow> errno' = errno"
proof -
  let ?bs = "hm_buckets m"
  have len: "length (fold (move_chain n) bs nb) = length nb" for n bs and nb :: "('a, 'b) hm_entry list list"
  proof (induction bs arbitrary: nb)
    case (Cons b bs)
    have "length (move_chain n b nb) = length nb"
      by (induction b arbitrary: nb) (simp_all add: Let_def)
    with Cons show ?case by simp
  qed simp
  show "hm_size m' = hm_size m" "calloc_ok \<Longrightarrow> length ?bs < 2 ^ 59 \<Longrightarrow> errno' = errno"
    using assms by (auto simp: expandIfNecessary_def Let_def split: if_splits)
  show "length (hm_buckets m') \<le> max (length ?bs) (3 * hm_size m)"
  proof (cases "length ?bs * 3 div 4 < hm_size m")
    case True
    then have "length ?bs * 2 \<le> 3 * hm_size m"
      by linarith
    then show ?thesis
      using assms by (auto simp: expandIfNecessary_def Let_def len split: if_splits)
  next
    case False
    then show ?thesis
      using assms by (auto simp: expandIfNecessary_def Let_def)
  qed
qed

lemma put_growth:
  assumes "hashmapPut hash equals malloc_ok calloc_ok errno m k v = Inr (old, errno', m')"
  shows "length (hm_buckets m') \<le> max (length (hm_buckets m)) (3 * (hm_size m + 1))" "hm_size m' \<le> hm_size m + 1"
    "malloc_ok \<Longrightarrow> calloc_ok \<Longrightarrow> length (hm_buckets m) < 2 ^ 59 \<Longrightarrow> errno' = errno"
proof -
  obtain h chain where put:
    "(case old of Some w \<Rightarrow> errno' = errno \<and> m' = m\<lparr>hm_buckets := (hm_buckets m)[calculateIndex (length (hm_buckets m)) h := chain]\<rparr>
      | None \<Rightarrow> if malloc_ok then expandIfNecessary calloc_ok errno
            (m\<lparr>hm_buckets := (hm_buckets m)[calculateIndex (length (hm_buckets m)) h := chain], hm_size := hm_size m + 1\<rparr>) = (errno', m')
          else m' = m\<lparr>hm_buckets := (hm_buckets m)[calculateIndex (length (hm_buckets m)) h := chain]\<rparr>)"
    using assms by (auto simp: hashmapPut_def Let_def bindE_eq_Inr split: option.splits if_splits)
  show "length (hm_buckets m') \<le> max (length (hm_buckets m)) (3 * (hm_size m + 1))" "hm_size m' \<le> hm_size m + 1"
    "malloc_ok \<Longrightarrow> calloc_ok \<Longrightarrow> length (hm_buckets m) < 2 ^ 59 \<Longrightarrow> errno' = errno"
    using put by (auto split: option.splits if_splits dest: expand_growth)
qed

text \<open>A bound on the table after \<open>n\<close> pairs were entered.\<close>

definition parms_small :: "nat \<Rightarrow> str_parms \<Rightarrow> bool" where
  "parms_small n p \<longleftrightarrow> hm_size (sp_map p) \<le> n \<and> length (hm_buckets (sp_map p)) \<le> 8 + 3 * n"

section \<open>Adding\<close>

abbreviation with_strings :: "str_parms \<Rightarrow> bytes \<Rightarrow> bytes \<Rightarrow> str_parms" where
  "with_strings p s t \<equiv> p\<lparr>sp_heap := (sp_heap p)(sp_next p \<mapsto> s, sp_next p + 1 \<mapsto> t), sp_next := sp_next p + 2\<rparr>"

lemma add_str_unfold:
  "str_parms_add_str malloc_ok calloc_ok s t p =
     bindE (put_strings malloc_ok calloc_ok (sp_next p) (sp_next p + 1) (with_strings p s t)) (\<lambda>(old_val, q).
       case old_val of
         Some old \<Rightarrow> bindE (bindE (free_in old q) (free_in (sp_next p))) (\<lambda>q. Inr (0, q))
       | None \<Rightarrow>
           if sp_errno q = ENOMEM
           then bindE (free_in (sp_next p) q) (\<lambda>q. bindE (free_in (sp_next p + 1) q) (\<lambda>q. Inr (- ENOMEM, q)))
           else Inr (0, q))"
  by (simp add: str_parms_add_str_def strdup_def bindE_assoc cong: option.case_cong if_cong)

lemma add_pair_unfold:
  "add_pair malloc_ok calloc_ok kvpair p =
     (let name = takeWhile (\<lambda>c. c \<noteq> CHR ''='') kvpair; rest = dropWhile (\<lambda>c. c \<noteq> CHR ''='') kvpair in
      if rest \<noteq> [] \<and> name = [] then Inr p
      else bindE (put_strings malloc_ok calloc_ok (sp_next p) (sp_next p + 1) (with_strings p name (drop 1 rest)))
        (\<lambda>(old_val, q). case old_val of Some old \<Rightarrow> bindE (free_in old q) (free_in (sp_next p)) | None \<Rightarrow> Inr q))"
  by (simp add: add_pair_def strdup_def Let_def cong: option.case_cong if_cong)

lemma put_strings_hashmap:
  "put_strings malloc_ok calloc_ok k v p = Inr (old, q) \<Longrightarrow>
   \<exists>hash equals. hashmapPut hash equals malloc_ok calloc_ok (sp_errno p) (sp_map p) (Own k) v = Inr (old, sp_errno q, sp_map q)"
  by (intro exI [of _ "str_hash_fn (sp_heap p)"] exI [of _ "str_eq (sp_heap p)"])
    (auto simp: put_strings_def bindE_eq_Inr)

lemma enter_pair_ok:
  assumes "parms_inv p" "parms_small n p" "n < 2 ^ 57"
  shows "\<exists>old q p'. put_strings True True (sp_next p) (sp_next p + 1) (with_strings p s t) = Inr (old, q) \<and>
    sp_errno q = sp_errno p \<and>
    (case old of Some w \<Rightarrow> bindE (free_in w q) (free_in (sp_next p)) = Inr p' | None \<Rightarrow> q = p') \<and>
    parms_inv p' \<and> parms_abs p' = (parms_abs p)(s \<mapsto> t) \<and> sp_errno p' = sp_errno p \<and> parms_small (n + 1) p'"
proof -
  let ?H = "(sp_heap p)(sp_next p \<mapsto> s, sp_next p + 1 \<mapsto> t)"
  let ?p = "with_strings p s t"
  obtain old errno m where put:
    "put_strings True True (sp_next p) (sp_next p + 1) ?p = Inr (old, ?p\<lparr>sp_map := m, sp_errno := errno\<rparr>)"
    "sp_table_ok ?H m"
    "case old of
       Some w \<Rightarrow> errno = sp_errno p \<and> (\<exists>e M. str_content (sp_heap p) (he_key e) = s \<and> w = he_value e \<and>
         mset (hm_entries (sp_map p)) = add_mset e M \<and> mset (hm_entries m) = add_mset (e\<lparr>he_value := sp_next p + 1\<rparr>) M)
     | None \<Rightarrow> parms_abs p s = None \<and>
         (if True then errno \<in> {sp_errno p, ENOMEM} \<and>
            mset (hm_entries m) = add_mset (createEntry (Own (sp_next p)) (mix_hash (djb_hash s)) (sp_next p + 1))
              (mset (hm_entries (sp_map p)))
          else errno = ENOMEM \<and> m = sp_map p)"
    using put_pair [OF assms(1), of True True s t] by blast
  obtain hash equals where "hashmapPut hash equals True True (sp_errno p) (sp_map p) (Own (sp_next p)) (sp_next p + 1) = Inr (old, errno, m)"
    using put_strings_hashmap [OF put(1)] by auto
  note growth = put_growth [OF this]
  have small: "parms_small (n + 1) (p\<lparr>sp_heap := H, sp_next := k, sp_map := m, sp_errno := c\<rparr>)" for H k c
    using growth(1,2) assms(2) by (auto simp: parms_small_def)
  have errno: "errno = sp_errno p"
    using growth(3) assms(2,3) by (simp add: parms_small_def)
  have self: "?p\<lparr>sp_map := m, sp_errno := errno\<rparr> = p\<lparr>sp_heap := ?H, sp_next := sp_next p + 2, sp_map := m\<rparr>"
    by (simp add: errno)
  show ?thesis
  proof (cases old)
    case (Some w)
    then obtain e M where e: "str_content (sp_heap p) (he_key e) = s" "w = he_value e"
        "mset (hm_entries (sp_map p)) = add_mset e M" "mset (hm_entries m) = add_mset (e\<lparr>he_value := sp_next p + 1\<rparr>) M"
      using put(3) by auto
    note r = replace_pair [OF assms(1) e(3,1,4) put(2)]
    show ?thesis
      using r put(1) small [where H = "(sp_heap p)(sp_next p + 1 \<mapsto> t, he_value e := None)" and k = "sp_next p + 2" and c = "sp_errno p"]
      unfolding Some self e(2) by simp
  next
    case None
    then show ?thesis
      using new_pair [OF assms(1) _ _ put(2), of "mix_hash (djb_hash s)" errno] put errno
        small [where H = ?H and k = "sp_next p + 2" and c = errno] by simp
  qed
qed

lemma add_str_ok:
  assumes "parms_inv p" "sp_errno p \<noteq> ENOMEM" "parms_small n p" "n < 2 ^ 57"
  shows "\<exists>p'. str_parms_add_str True True s t p = Inr (0, p') \<and> parms_inv p' \<and>
    parms_abs p' = (parms_abs p)(s \<mapsto> t) \<and> sp_errno p' = sp_errno p \<and> parms_small (n + 1) p'"
  using enter_pair_ok [OF assms(1,3,4), of s t] assms(2)
  by (auto simp: add_str_unfold split: option.splits)

text \<open>Parsing does not look at \<open>errno\<close>.\<close>

lemma add_pair_ok:
  assumes "parms_inv p" "parms_small n p" "n < 2 ^ 57" "s \<noteq> []" "CHR ''='' \<notin> set s"
  shows "\<exists>p'. add_pair True True (s @ CHR ''='' # t) p = Inr p' \<and> parms_inv p' \<and>
    parms_abs p' = (parms_abs p)(s \<mapsto> t) \<and> sp_errno p' = sp_errno p \<and> parms_small (n + 1) p'"
proof -
  have "takeWhile (\<lambda>c. c \<noteq> CHR ''='') (s @ CHR ''='' # t) = s" "dropWhile (\<lambda>c. c \<noteq> CHR ''='') (s @ CHR ''='' # t) = CHR ''='' # t"
    using assms(5) by (induction s) auto
  then show ?thesis
    using enter_pair_ok [OF assms(1-3), of s t] assms(4)
    by (auto simp: add_pair_unfold Let_def split: option.splits)
qed

section \<open>Looking up\<close>

lemma get_value_ok:
  assumes "parms_inv p"
  shows "get_value k p = Inr (parms_abs p k)"
proof -
  have table: "sp_table_ok (sp_heap p) (sp_map p)" and own: "owns (sp_heap p) (mset (hm_entries (sp_map p)))"
    using assms by (simp_all add: parms_inv_def)
  have key: "str_valid (sp_heap p) (Lit k)" "str_content (sp_heap p) (Lit k) = k"
    by (simp_all add: str_valid_def str_content_def)
  have get: "hashmapGet (str_hash_fn (sp_heap p)) (str_eq (sp_heap p)) (sp_map p) (Lit k) =
      Inr (hm_abs (str_content (sp_heap p)) (sp_map p) k)"
    using str_keys.get_ok [OF table key(1)] by (simp add: key(2))
  show ?thesis
  proof (cases "hm_abs (str_content (sp_heap p)) (sp_map p) k")
    case None
    with get show ?thesis
      by (simp add: get_value_def parms_abs_def)
  next
    case (Some a)
    then obtain e where "e \<in># mset (hm_entries (sp_map p))" "he_value e = a"
      unfolding str_keys.abs_entry [OF table] by blast
    then have "a \<in> dom (sp_heap p)"
      using owns_in(2) [OF own] by blast
    with get Some show ?thesis
      by (auto simp: get_value_def parms_abs_def)
  qed
qed

section \<open>Destroying\<close>

text \<open>A bucket holds the entries of its index.\<close>

lemma bucket_filter:
  assumes "placed bs" "i < length bs"
  shows "mset (bs ! i) = filter_mset (\<lambda>e. calculateIndex (length bs) (he_hash e) = i) (mset (concat bs))"
proof -
  let ?P = "\<lambda>e. calculateIndex (length bs) (he_hash e) = i"
  have split: "concat bs = concat (take i bs) @ bs ! i @ concat (drop (Suc i) bs)"
    by (metis assms(2) concat.simps(2) concat_append id_take_nth_drop)
  have "\<not> ?P e" if e: "e \<in> set (concat (take i bs)) \<or> e \<in> set (concat (drop (Suc i) bs))" for e
  proof -
    obtain k where k: "k < length bs" "k \<noteq> i" "e \<in> set (bs ! k)"
      using e
    proof
      assume "e \<in> set (concat (take i bs))"
      then obtain k where "k < length (take i bs)" "e \<in> set (take i bs ! k)"
        unfolding in_concat_nth by blast
      then show ?thesis using that [of k] by simp
    next
      assume "e \<in> set (concat (drop (Suc i) bs))"
      then obtain k where "k < length (drop (Suc i) bs)" "e \<in> set (drop (Suc i) bs ! k)"
        unfolding in_concat_nth by blast
      then show ?thesis using that [of "Suc i + k"] by simp
    qed
    then show ?thesis
      using assms(1) by (simp add: placed_def)
  qed
  then have "filter_mset ?P (mset (concat (take i bs))) = {#}" "filter_mset ?P (mset (concat (drop (Suc i) bs))) = {#}"
    by (auto simp: filter_mset_eq_mempty_iff)
  moreover have "filter_mset ?P (mset (bs ! i)) = mset (bs ! i)"
    using assms by (simp add: placed_def filter_mset_eq_conv)
  ultimately show ?thesis
    unfolding split by simp
qed

lemma clear_chain:
  assumes "parms_inv p" "mset es \<subseteq># mset (hm_entries (sp_map p))"
  shows "\<exists>p'. for_each_chain (remove_pair None) es p = Inr (True, p') \<and> parms_inv p' \<and>
    mset (hm_entries (sp_map p')) = mset (hm_entries (sp_map p)) - mset es \<and>
    length (hm_buckets (sp_map p')) = length (hm_buckets (sp_map p))"
  using assms
proof (induction es arbitrary: p)
  case Nil
  then show ?case by simp
next
  case (Cons e es)
  have "e \<in># mset (hm_entries (sp_map p))"
    using Cons.prems(2) by (meson mset_subset_eqD list.set_intros(1) set_mset_mset in_multiset_in_set)
  then obtain p' where p': "remove_pair None (he_key e) (he_value e) p = Inr (True, p')" "parms_inv p'"
      "mset (hm_entries (sp_map p)) = add_mset e (mset (hm_entries (sp_map p')))"
      "length (hm_buckets (sp_map p')) = length (hm_buckets (sp_map p))"
    using remove_known_pair [OF Cons.prems(1), of e None] by (auto simp: shrinks_def)
  then have "mset es \<subseteq># mset (hm_entries (sp_map p'))"
    using Cons.prems(2) by simp
  then obtain p'' where "for_each_chain (remove_pair None) es p' = Inr (True, p'')" "parms_inv p''"
      "mset (hm_entries (sp_map p'')) = mset (hm_entries (sp_map p')) - mset es"
      "length (hm_buckets (sp_map p'')) = length (hm_buckets (sp_map p'))"
    using Cons.IH [OF p'(2)] by auto
  with p' show ?case
    by simp
qed

lemma clear_buckets:
  assumes "parms_inv p" "n = length (hm_buckets (sp_map p))" "i \<le> n"
    and "\<forall>e \<in># mset (hm_entries (sp_map p)). i \<le> calculateIndex n (he_hash e)"
  shows "\<exists>p'. for_each_bucket sp_map (remove_pair None) n i p = Inr p' \<and> parms_inv p' \<and> hm_entries (sp_map p') = []"
  using assms
proof (induction "n - i" arbitrary: i p)
  case 0
  have "0 < n" "n < 2 ^ 64"
    using 0 by (auto simp: parms_inv_def hm_inv_def)
  then have "calculateIndex n (he_hash e) < i" for e :: "(cstr, nat) hm_entry"
    using calculateIndex_bound [of n] 0 by simp
  then have "set (hm_entries (sp_map p)) = {}"
    using "0.prems"(4) by (force simp: not_le [symmetric])
  then show ?case
    using 0 by (simp add: for_each_bucket.simps)
next
  case (Suc d)
  have i: "i < length (hm_buckets (sp_map p))" "i < n"
    using Suc by simp_all
  have d: "d = n - Suc i"
    using Suc.hyps(2) by simp
  have table: "placed (hm_buckets (sp_map p))"
    using Suc.prems(1) by (simp add: parms_inv_def hm_inv_def)
  let ?c = "hm_buckets (sp_map p) ! i" and ?E = "mset (hm_entries (sp_map p))"
  have c: "mset ?c = filter_mset (\<lambda>e. calculateIndex n (he_hash e) = i) ?E"
    using bucket_filter [OF table i(1)] Suc.prems(2) by (simp add: hm_entries_def)
  then obtain p' where p': "for_each_chain (remove_pair None) ?c p = Inr (True, p')" "parms_inv p'"
      "mset (hm_entries (sp_map p')) = ?E - mset ?c" "length (hm_buckets (sp_map p')) = length (hm_buckets (sp_map p))"
    using clear_chain [OF Suc.prems(1), of ?c] by auto
  have "mset (hm_entries (sp_map p')) = filter_mset (\<lambda>e. calculateIndex n (he_hash e) \<noteq> i) ?E"
    unfolding p'(3) c by (rule multiset_eqI) simp
  then have "\<forall>e \<in># mset (hm_entries (sp_map p')). Suc i \<le> calculateIndex n (he_hash e)"
    using Suc.prems(4) by (auto simp: Suc_le_eq le_neq_trans)
  then obtain p'' where "for_each_bucket sp_map (remove_pair None) n (Suc i) p' = Inr p''" "parms_inv p''"
      "hm_entries (sp_map p'') = []"
    using Suc.hyps(1) [of "Suc i" p'] d Suc.prems(2) p'(2,4) i(2) by auto
  then show ?case
    using p'(1) i(2) by (subst for_each_bucket.simps) simp
qed

lemma destroy_ok:
  assumes "parms_inv p"
  shows "str_parms_destroy p = Inr Map.empty"
proof -
  obtain p' where p': "hashmapForEach sp_map (remove_pair None) p = Inr p'" "parms_inv p'" "hm_entries (sp_map p') = []"
    using clear_buckets [OF assms refl, of 0] by (auto simp: hashmapForEach_def)
  then have "finite (dom (sp_heap p'))" "mset_set (dom (sp_heap p')) = {#}"
    by (simp_all add: parms_inv_def owns_def)
  then have "sp_heap p' = Map.empty"
    by (simp add: mset_set_empty_iff)
  with p'(1) show ?thesis
    by (simp add: str_parms_destroy_def)
qed

end
