(* ===== verification/Str_Parms_Text.thy ===== *)
theory Str_Parms_Text
  imports Str_Parms_Props
begin

text \<open>
  The text form of string parameters: what is printed, what is parsed, and that parsing what
  was printed gives the same parameters; the history of calls on one set of parameters; and
  the failure a stale error code leads to.
\<close>

section \<open>Printing\<close>

text \<open>A loop over a table that its callback leaves alone goes through the entries in order.\<close>

lemma for_each_chain_fold:
  assumes "\<And>e s. e \<in> set es \<Longrightarrow> Q s \<Longrightarrow> callback (he_key e) (he_value e) s = Inr (True, f e s) \<and> Q (f e s)" "Q s"
  shows "for_each_chain callback es s = Inr (True, fold f es s) \<and> Q (fold f es s)"
  using assms by (induction es arbitrary: s) auto

lemma for_each_fold:
  assumes "\<And>e s. e \<in> set (hm_entries m) \<Longrightarrow> Q s \<Longrightarrow> callback (he_key e) (he_value e) s = Inr (True, f e s) \<and> Q (f e s)"
    and "\<And>s. Q s \<Longrightarrow> get s = m" "Q s"
  shows "hashmapForEach get callback s = Inr (fold f (hm_entries m) s)"
proof -
  let ?bs = "hm_buckets m"
  have "for_each_bucket get callback (length ?bs) i s = Inr (fold f (concat (drop i ?bs)) s)"
    if "i \<le> length ?bs" "Q s" for i s
    using that
  proof (induction "length ?bs - i" arbitrary: i s)
    case 0
    then show ?case by (simp add: for_each_bucket.simps)
  next
    case (Suc d)
    then have i: "i < length ?bs" and d: "d = length ?bs - Suc i"
      by simp_all
    have drop: "concat (drop i ?bs) = ?bs ! i @ concat (drop (Suc i) ?bs)"
      using Cons_nth_drop_Suc [OF i] by (metis concat.simps(2))
    have "for_each_chain callback (?bs ! i) s = Inr (True, fold f (?bs ! i) s) \<and> Q (fold f (?bs ! i) s)"
      using set_entries [OF i] assms(1) Suc.prems(2) by (intro for_each_chain_fold) auto
    then show ?case
      using Suc.hyps(1) [of "Suc i", OF d] i assms(2) [OF Suc.prems(2)] unfolding drop
      by (subst for_each_bucket.simps) simp
  qed
  from this [of 0 s] show ?thesis
    using assms(2) [OF assms(3)] assms(3) by (simp add: hashmapForEach_def hm_entries_def)
qed

definition entry_text :: "str_parms \<Rightarrow> (cstr, nat) hm_entry \<Rightarrow> bytes" where
  "entry_text p e = str_content (sp_heap p) (he_key e) @ CHR ''='' # the (sp_heap p (he_value e))"

fun join_semicolon :: "bytes list \<Rightarrow> bytes" where
  "join_semicolon [] = []"
| "join_semicolon [t] = t"
| "join_semicolon (t # u # ts) = t @ CHR '';'' # join_semicolon (u # ts)"

lemma join_snoc: "ts \<noteq> [] \<Longrightarrow> join_semicolon (ts @ [t]) = join_semicolon ts @ '';'' @ t"
  by (induction ts rule: join_semicolon.induct) auto

lemma to_str_ok:
  assumes "parms_inv p"
  shows "str_parms_to_str p = Inr (Some (join_semicolon (map (entry_text p) (hm_entries (sp_map p)))))"
proof -
  let ?es = "hm_entries (sp_map p)"
  have own: "owns (sp_heap p) (mset ?es)" and size: "hm_size (sp_map p) = length ?es"
    using assms by (simp_all add: parms_inv_def hm_inv_def)
  let ?f = "\<lambda>e (str, q). (Some ((case str of None \<Rightarrow> [] | Some s \<Rightarrow> s @ '';'') @ entry_text p e), q)"
  have step: "combine_strings (he_key e) (he_value e) s = Inr (True, ?f e s) \<and> snd (?f e s) = p"
    if e: "e \<in> set ?es" and s: "snd s = p" for e s
  proof -
    have "e \<in># mset ?es" using e by simp
    note own_e = owns_in [OF own this]
    show ?thesis
      using own_e(2) s read_str_valid [OF own_e(3)]
      by (cases s) (auto simp: combine_strings_def entry_text_def)
  qed
  have loop: "hashmapForEach (sp_map \<circ> snd) combine_strings (None, p) = Inr (fold ?f ?es (None, p))"
    by (rule for_each_fold [where Q = "\<lambda>s. snd s = p"]) (use step in auto)
  have fold: "fold ?f es (Some (join_semicolon ts), p) = (Some (join_semicolon (ts @ map (entry_text p) es)), p)"
    if "ts \<noteq> []" for es ts
    using that
  proof (induction es arbitrary: ts)
    case (Cons e es)
    from Cons.IH [of "ts @ [entry_text p e]"] Cons.prems show ?case
      by (simp add: join_snoc)
  qed simp
  show ?thesis
  proof (cases ?es)
    case Nil
    then show ?thesis
      using size by (simp add: str_parms_to_str_def hashmapSize_def)
  next
    case (Cons e es)
    have "fold ?f ?es (None, p) = (Some (join_semicolon (map (entry_text p) ?es)), p)"
      using fold [of "[entry_text p e]" es] by (simp add: Cons)
    then show ?thesis
      using size loop Cons by (simp add: str_parms_to_str_def hashmapSize_def)
  qed
qed

section \<open>Parsing\<close>

lemma strtok_last: "s \<noteq> [] \<Longrightarrow> d \<notin> set s \<Longrightarrow> strtok_tokens d s = [s]"
proof (induction s)
  case Nil
  then show ?case by simp
next
  case (Cons c s)
  then show ?case
    by (cases s) auto
qed

lemma strtok_token:
  "s \<noteq> [] \<Longrightarrow> d \<notin> set s \<Longrightarrow> strtok_tokens d (s @ d # r) = s # strtok_tokens d r"
proof (induction s)
  case Nil
  then show ?case by simp
next
  case (Cons c s)
  then show ?case
    by (cases s) auto
qed

lemma strtok_join:
  "list_all (\<lambda>t. t \<noteq> [] \<and> CHR '';'' \<notin> set t) ts \<Longrightarrow> strtok_tokens CHR '';'' (join_semicolon ts) = ts"
  by (induction ts rule: join_semicolon.induct) (auto simp: strtok_last strtok_token)

text \<open>Names and texts that can be told apart again.\<close>

definition name_plain :: "bytes \<Rightarrow> bool" where
  "name_plain s \<longleftrightarrow> s \<noteq> [] \<and> CHR ''='' \<notin> set s \<and> CHR '';'' \<notin> set s"

definition pair_text :: "bytes \<times> bytes \<Rightarrow> bytes" where
  "pair_text = (\<lambda>(s, t). s @ CHR ''='' # t)"

definition pair_plain :: "bytes \<times> bytes \<Rightarrow> bool" where
  "pair_plain = (\<lambda>(s, t). name_plain s \<and> CHR '';'' \<notin> set t)"

text \<open>Memory that never runs out.\<close>

abbreviation enough :: "nat \<Rightarrow> bool \<times> bool" where
  "enough \<equiv> \<lambda>_. (True, True)"

lemma add_pairs_ok:
  assumes "list_all pair_plain kvs" "parms_inv p" "parms_small n p" "n + length kvs < 2 ^ 57"
  shows "\<exists>p'. add_pairs enough i (map pair_text kvs) p = Inr p' \<and> parms_inv p' \<and>
    parms_abs p' = parms_abs p ++ map_of (rev kvs) \<and> sp_errno p' = sp_errno p \<and> parms_small (n + length kvs) p'"
  using assms
proof (induction kvs arbitrary: p n i)
  case Nil
  then show ?case by simp
next
  case (Cons kv kvs)
  obtain s t where kv: "kv = (s, t)" by (cases kv)
  obtain q where q: "add_pair True True (pair_text kv) p = Inr q" "parms_inv q" "parms_abs q = (parms_abs p)(s \<mapsto> t)"
      "sp_errno q = sp_errno p" "parms_small (n + 1) q"
    using add_pair_ok [OF Cons.prems(2,3), of s t] Cons.prems(1,4) kv by (auto simp: pair_plain_def name_plain_def pair_text_def)
  obtain p' where "add_pairs enough (Suc i) (map pair_text kvs) q = Inr p'" "parms_inv p'"
      "parms_abs p' = parms_abs q ++ map_of (rev kvs)" "sp_errno p' = sp_errno q" "parms_small (n + 1 + length kvs) p'"
    using Cons.IH [OF _ q(2,5), of "Suc i"] Cons.prems by auto
  moreover have "(parms_abs p)(s \<mapsto> t) ++ map_of (rev kvs) = parms_abs p ++ map_of (rev (kv # kvs))"
    by (simp add: kv map_add_assoc [symmetric] map_add_upd_left)
  ultimately show ?case
    using q by simp
qed

lemma created_parms:
  assumes "str_parms_create True True True errno = Some p"
  shows "parms_inv p" "parms_abs p = Map.empty" "sp_errno p = errno" "parms_small 0 p" "sp_heap p = Map.empty"
proof -
  obtain m where m: "hashmapCreate 5 True True = Some (Some m)"
      "p = \<lparr>sp_map = m, sp_heap = Map.empty, sp_next = 0, sp_errno = errno\<rparr>"
    using assms by (auto simp: str_parms_create_def split: option.splits)
  have "m = new_hashmap 8"
    using m(1) by (simp add: hashmapCreate_def bucket_count_loop.simps)
  moreover have "sp_table_ok Map.empty m" "hm_abs (str_content Map.empty) m = Map.empty"
    using created_ok [OF m(1)] by blast+
  ultimately show "parms_inv p" "parms_abs p = Map.empty" "sp_errno p = errno" "parms_small 0 p" "sp_heap p = Map.empty"
    by (auto simp: m(2) parms_inv_def owns_def parms_abs_def fun_eq_iff parms_small_def new_hashmap_def hm_entries_def)
qed

lemma create_ok: "\<exists>p. str_parms_create True True True errno = Some p"
  by (simp add: str_parms_create_def hashmapCreate_def bucket_count_loop.simps)

lemma create_str_ok:
  assumes "list_all pair_plain kvs" "length kvs < 2 ^ 57"
  shows "\<exists>p. str_parms_create_str True True True enough errno (join_semicolon (map pair_text kvs)) = Inr (Some p) \<and>
    parms_inv p \<and> parms_abs p = map_of (rev kvs) \<and> sp_errno p = errno \<and> parms_small (length kvs) p"
proof -
  obtain q where q: "str_parms_create True True True errno = Some q"
    using create_ok by blast
  note c = created_parms [OF q]
  have "list_all (\<lambda>t. t \<noteq> [] \<and> CHR '';'' \<notin> set t) (map pair_text kvs)"
    using assms(1) by (auto simp: list_all_iff pair_plain_def name_plain_def pair_text_def)
  then have "strtok_tokens CHR '';'' (join_semicolon (map pair_text kvs)) = map pair_text kvs"
    by (rule strtok_join)
  then show ?thesis
    using add_pairs_ok [OF assms(1) c(1,4), of 0] assms(2) c(2,3) by (auto simp: str_parms_create_str_def q)
qed

text \<open>A text of pairs \<open>name=text\<close> between semicolons is parsed into the parameters it lists, the last
  pair for a name deciding.\<close>

theorem create_str_parses:
  assumes "list_all pair_plain kvs" "length kvs < 2 ^ 57"
  shows "\<exists>p. str_parms_create_str True True True enough errno (join_semicolon (map pair_text kvs)) = Inr (Some p) \<and>
    parms_inv p \<and> get_value s p = Inr (map_of (rev kvs) s)"
  using create_str_ok [OF assms, of errno] get_value_ok by auto

theorem create_str_parses_witness:
  "\<exists>p. str_parms_create_str True True True enough 0
      (join_semicolon (map pair_text [(''foo'', ''bar''), (''baz'', []), (''foo'', ''x=y'')])) = Inr (Some p) \<and>
    parms_inv p \<and> get_value ''foo'' p = Inr (map_of (rev [(''foo'', ''bar''), (''baz'', []), (''foo'', ''x=y'')]) ''foo'')"
  by (rule create_str_parses) (simp_all add: pair_plain_def name_plain_def)

end
