(* ===== verification/Str_Parms_History.thy ===== *)
theory Str_Parms_History
  imports Str_Parms_Text
begin

text \<open>
  Round trips of the string parameters, the history of calls on one set of parameters up
  to its destruction, and the failure a stale error code leads to.
\<close>

section \<open>Text and back\<close>

definition plain_map :: "(bytes \<rightharpoonup> bytes) \<Rightarrow> bool" where
  "plain_map f \<longleftrightarrow> (\<forall>s t. f s = Some t \<longrightarrow> pair_plain (s, t))"

lemma text_roundtrip:
  assumes "parms_inv p" "plain_map (parms_abs p)" "hashmapSize (sp_map p) < 2 ^ 57"
  shows "\<exists>str q. str_parms_to_str p = Inr (Some str) \<and>
    str_parms_create_str True True True enough errno str = Inr (Some q) \<and> parms_inv q \<and> parms_abs q = parms_abs p"
proof -
  let ?es = "hm_entries (sp_map p)"
  let ?pair = "\<lambda>e. (str_content (sp_heap p) (he_key e), the (sp_heap p (he_value e)))"
  have table: "sp_table_ok (sp_heap p) (sp_map p)"
    using assms(1) by (simp add: parms_inv_def)
  have pairs: "map (entry_text p) ?es = map pair_text (map ?pair ?es)"
    by (simp add: entry_text_def pair_text_def)
  have "map fst (map ?pair ?es) = map (str_content (sp_heap p) \<circ> he_key) ?es"
    by simp
  then have distinct: "distinct (map fst (map ?pair ?es))"
    using table by (simp only: hm_inv_def)
  have "parms_abs p s = Some t \<longleftrightarrow> map_of (map ?pair ?es) s = Some t" for s t
    unfolding parms_abs_entry [OF table] map_of_eq_Some_iff [OF distinct] by auto
  then have abs: "parms_abs p = map_of (map ?pair ?es)"
    by (rule map_eqI)
  then have "list_all pair_plain (map ?pair ?es)"
    using assms(2) distinct map_of_eq_Some_iff [OF distinct] by (auto simp: plain_map_def list_all_iff)
  moreover have "length (map ?pair ?es) < 2 ^ 57"
    using assms(3) table by (simp add: hm_inv_def hashmapSize_def)
  moreover have "map_of (rev (map ?pair ?es)) = map_of (map ?pair ?es)"
    using distinct by (intro map_of_inject_set [THEN iffD2]) (simp_all add: rev_map [symmetric])
  ultimately show ?thesis
    using create_str_ok [of "map ?pair ?es" errno] to_str_ok [OF assms(1)] abs unfolding pairs by auto
qed

text \<open>C29: Printing parameters and parsing the text gives the same parameters, when no name
  holds \<open>=\<close> or \<open>;\<close> or is empty and no text holds \<open>;\<close>.\<close>

theorem to_str_create_str:
  assumes "parms_inv p" "plain_map (parms_abs p)" "hashmapSize (sp_map p) < 2 ^ 57"
  shows "\<exists>str q. str_parms_to_str p = Inr (Some str) \<and>
    str_parms_create_str True True True enough errno str = Inr (Some q) \<and> parms_abs q = parms_abs p"
  using text_roundtrip [OF assms, of errno] by blast

theorem to_str_create_str_witness:
  "\<exists>p. str_parms_create_str True True True enough 0 (join_semicolon (map pair_text [(''rate'', ''44100'')])) = Inr (Some p) \<and>
    parms_abs p = [''rate'' \<mapsto> ''44100''] \<and>
    (\<exists>str q. str_parms_to_str p = Inr (Some str) \<and>
      str_parms_create_str True True True enough 0 str = Inr (Some q) \<and> parms_abs q = parms_abs p)"
proof -
  obtain p where p: "str_parms_create_str True True True enough 0 (join_semicolon (map pair_text [(''rate'', ''44100'')])) = Inr (Some p)"
      "parms_inv p" "parms_abs p = map_of (rev [(''rate'', ''44100'')])" "parms_small 1 p"
    using create_str_ok [of "[(''rate'', ''44100'')]" 0] by (auto simp: pair_plain_def name_plain_def)
  have "plain_map (parms_abs p)"
    unfolding plain_map_def p(3) by (simp add: pair_plain_def name_plain_def)
  moreover have "hashmapSize (sp_map p) < 2 ^ 57"
    using p(4) by (simp add: parms_small_def hashmapSize_def)
  ultimately show ?thesis
    using to_str_create_str [OF p(2), of 0] p(1,3) by auto
qed

section \<open>Integers\<close>

lemma decimal_digit_val: "decimal_char c \<Longrightarrow> digit_val c = byte_val c - 48 \<and> digit_val c < 10"
  by (simp add: decimal_char_def digit_val_def Let_def)

lemma decimal_not:
  "decimal_char c \<Longrightarrow> c \<noteq> CHR ''-'' \<and> c \<noteq> CHR ''+'' \<and> c \<noteq> CHR ''x'' \<and> c \<noteq> CHR ''X'' \<and> \<not> isspace c"
  by (auto simp: decimal_char_def isspace_def)

lemma foldl_decimal:
  "list_all decimal_char ds \<Longrightarrow> foldl (\<lambda>n c. n * 10 + digit_val c) r ds = foldl (\<lambda>r c. r * 10 + (byte_val c - 48)) r ds"
  by (induction ds arbitrary: r) (simp_all add: decimal_digit_val)

text \<open>\<open>strtol\<close> reads back a printed number: there is no leading zero, so the base is ten, and zero
  is zero in base eight.\<close>

lemma strtol_digits_fmt_u:
  assumes "n < 2 ^ 63"
  shows "strtol_digits neg str (fmt_u n) = (if neg then - int n else int n, [])"
proof -
  let ?u = "fmt_u n"
  obtain c cs where u: "?u = c # cs"
    using fmt_u_nonempty [of n] by (cases ?u) blast+
  have dec: "list_all decimal_char (c # cs)"
    using fmt_u_decimal [of n] u by simp
  have hex: "\<not> (length ?u \<ge> 3 \<and> ?u ! 1 \<in> set ''xX'')"
    using dec decimal_not unfolding u by (cases cs) auto
  have "n = 0 \<or> c \<noteq> CHR ''0''"
    using fmt_u_head [of n] u by auto
  then have "strtol_base ?u \<noteq> 16 \<and> takeWhile (\<lambda>x. digit_val x < strtol_base ?u) ?u = ?u \<and>
      foldl (\<lambda>r x. r * strtol_base ?u + digit_val x) 0 ?u = int n"
  proof
    assume "n = 0"
    then have "?u = ''0''"
      by (simp add: fmt_u_small digit_char_def)
    with \<open>n = 0\<close> show ?thesis
      by (simp add: strtol_base_def digit_val_def Let_def)
  next
    assume "c \<noteq> CHR ''0''"
    then have "strtol_base ?u = 10"
      using hex u unfolding strtol_base_def by auto
    moreover have "takeWhile (\<lambda>x. digit_val x < 10) ?u = ?u"
      using dec decimal_digit_val unfolding u takeWhile_eq_all_conv list_all_iff by blast
    moreover have "foldl (\<lambda>r x. r * 10 + digit_val x) 0 ?u = int n"
      using foldl_decimal [OF dec, of 0] fmt_u_value [of n] unfolding u by simp
    ultimately show ?thesis
      by simp
  qed
  moreover have "clamp_long (int n) = int n" "clamp_long (- int n) = - int n"
    using assms by (simp_all add: clamp_long_def)
  ultimately show ?thesis
    by (simp add: strtol_digits_def Let_def del: takeWhile_eq_all_conv)
qed

lemma strtol0_fmt_d:
  assumes "- (2 ^ 31) \<le> v" "v < 2 ^ 31"
  shows "strtol0 (fmt_d v) = (v, [])"
proof -
  let ?n = "nat \<bar>v\<bar>"
  have n: "?n < 2 ^ 63"
    using assms by simp
  obtain c cs where u: "fmt_u ?n = c # cs"
    using fmt_u_nonempty [of ?n] by (cases "fmt_u ?n") blast+
  have "c \<noteq> CHR ''-''" "c \<noteq> CHR ''+''" "\<not> isspace c"
    using fmt_u_decimal [of ?n] decimal_not [of c] by (simp_all add: u)
  then have "strtol0 (fmt_u ?n) = (int ?n, [])"
    using strtol_digits_fmt_u [OF n, of False] by (simp add: strtol0_def u)
  moreover have "strtol0 (CHR ''-'' # fmt_u ?n) = (- int ?n, [])"
    using strtol_digits_fmt_u [OF n, of True] by (simp add: strtol0_def isspace_def)
  ultimately show ?thesis
    by (auto simp: fmt_d_def)
qed

lemma add_int_ok:
  assumes "parms_inv p" "sp_errno p \<noteq> ENOMEM" "parms_small n p" "n < 2 ^ 57"
    and "- (2 ^ 31) \<le> v" "v < 2 ^ 31"
  shows "\<exists>p'. str_parms_add_int True True s v p = Inr (0, p') \<and> parms_inv p' \<and>
    parms_abs p' = (parms_abs p)(s \<mapsto> fmt_d v) \<and> sp_errno p' = sp_errno p \<and> parms_small (n + 1) p'"
proof -
  have "length (fmt_d v) < 12"
    using length_fmt_d32 [OF assms(5,6)] by simp
  then show ?thesis
    using add_str_ok [OF assms(1-4), of s "fmt_d v"] by (simp add: str_parms_add_int_def snprintf_fits)
qed

section \<open>Histories\<close>

text \<open>The calls a client makes on one set of parameters.\<close>

datatype parms_call =
    AddStr bytes bytes
  | AddInt bytes int
  | Del bytes
  | GetStr bytes nat
  | GetInt bytes

datatype parms_answer = AnsRet int | AnsStr int "bytes option" | AnsInt int "32 word option" | AnsNone

fun parms_step :: "parms_call \<Rightarrow> str_parms \<Rightarrow> fault + parms_answer \<times> str_parms" where
  "parms_step (AddStr s t) p = bindE (str_parms_add_str True True s t p) (\<lambda>(r, p). Inr (AnsRet r, p))"
| "parms_step (AddInt s v) p = bindE (str_parms_add_int True True s v p) (\<lambda>(r, p). Inr (AnsRet r, p))"
| "parms_step (Del s) p = bindE (str_parms_del s p) (\<lambda>p. Inr (AnsNone, p))"
| "parms_step (GetStr s len) p = bindE (str_parms_get_str s len p) (\<lambda>(r, str). Inr (AnsStr r str, p))"
| "parms_step (GetInt s) p = bindE (str_parms_get_int s p) (\<lambda>(r, v). Inr (AnsInt r v, p))"

fun parms_run :: "parms_call list \<Rightarrow> str_parms \<Rightarrow> fault + parms_answer list \<times> str_parms" where
  "parms_run [] p = Inr ([], p)"
| "parms_run (c # cs) p =
     bindE (parms_step c p) (\<lambda>(a, p). bindE (parms_run cs p) (\<lambda>(as, p). Inr (a # as, p)))"

text \<open>The answers of a map from names to texts.\<close>

fun map_step :: "parms_call \<Rightarrow> (bytes \<rightharpoonup> bytes) \<Rightarrow> parms_answer \<times> (bytes \<rightharpoonup> bytes)" where
  "map_step (AddStr s t) f = (AnsRet 0, f(s \<mapsto> t))"
| "map_step (AddInt s v) f = (AnsRet 0, f(s \<mapsto> fmt_d v))"
| "map_step (Del s) f = (AnsNone, f(s := None))"
| "map_step (GetStr s len) f =
     (case f s of
        None \<Rightarrow> AnsStr (- ENOENT) None
      | Some t \<Rightarrow> AnsStr (int (length t)) (if len = 0 then None else Some (take (len - 1) t)), f)"
| "map_step (GetInt s) f =
     (case f s of
        None \<Rightarrow> AnsInt (- ENOENT) None
      | Some t \<Rightarrow> AnsInt (if t \<noteq> [] \<and> snd (strtol0 t) = [] then 0 else - EINVAL) (Some (word_of_int (fst (strtol0 t)))), f)"

fun map_run :: "parms_call list \<Rightarrow> (bytes \<rightharpoonup> bytes) \<Rightarrow> parms_answer list \<times> (bytes \<rightharpoonup> bytes)" where
  "map_run [] f = ([], f)"
| "map_run (c # cs) f = (let (a, f) = map_step c f; (as, f) = map_run cs f in (a # as, f))"

fun call_ok :: "parms_call \<Rightarrow> bool" where
  "call_ok (AddInt s v) = (- (2 ^ 31) \<le> v \<and> v < 2 ^ 31)"
| "call_ok c = True"

lemma step_refines:
  assumes "parms_inv p" "sp_errno p \<noteq> ENOMEM" "parms_small n p" "n < 2 ^ 57" "call_ok c"
  shows "\<exists>a p'. parms_step c p = Inr (a, p') \<and> parms_inv p' \<and> sp_errno p' \<noteq> ENOMEM \<and> parms_small (n + 1) p' \<and>
    map_step c (parms_abs p) = (a, parms_abs p')"
proof (cases c)
  case (AddStr s t)
  then show ?thesis
    using add_str_ok [OF assms(1-4), of s t] assms(2) by auto
next
  case (AddInt s v)
  then show ?thesis
    using add_int_ok [OF assms(1-4), of v s] assms(2,5) by auto
next
  case (Del s)
  then show ?thesis
    using del_ok [OF assms(1), of s] assms(2,3) by (auto simp: shrinks_def parms_small_def)
next
  case (GetStr s len)
  moreover have "parms_small (n + 1) p"
    using assms(3) by (simp add: parms_small_def)
  ultimately show ?thesis
    using get_value_ok [OF assms(1), of s] assms(1,2) by (auto simp: str_parms_get_str_def split: option.split)
next
  case (GetInt s)
  moreover have "parms_small (n + 1) p"
    using assms(3) by (simp add: parms_small_def)
  ultimately show ?thesis
    using get_value_ok [OF assms(1), of s] assms(1,2)
    by (auto simp: str_parms_get_int_def split_beta Let_def split: option.split)
qed

lemma run_refines:
  assumes "parms_inv p" "sp_errno p \<noteq> ENOMEM" "parms_small n p" "n + length cs \<le> 2 ^ 57" "list_all call_ok cs"
  shows "\<exists>as p'. parms_run cs p = Inr (as, p') \<and> parms_inv p' \<and> map_run cs (parms_abs p) = (as, parms_abs p')"
  using assms
proof (induction cs arbitrary: p n)
  case Nil
  then show ?case by simp
next
  case (Cons c cs)
  obtain a q where q: "parms_step c p = Inr (a, q)" "parms_inv q" "sp_errno q \<noteq> ENOMEM" "parms_small (n + 1) q"
      "map_step c (parms_abs p) = (a, parms_abs q)"
    using step_refines [OF Cons.prems(1-3), of c] Cons.prems(4,5) by auto
  obtain as p' where "parms_run cs q = Inr (as, p')" "parms_inv p'" "map_run cs (parms_abs q) = (as, parms_abs p')"
    using Cons.IH [OF q(2-4)] Cons.prems(4,5) by auto
  with q show ?case
    by simp
qed

text \<open>C10: From creation to destruction, with memory available and \<open>errno\<close> not already \<open>ENOMEM\<close>, any
  calls get the answers a map from names to texts gives, no string is used after it was
  freed or freed twice, and destroying the parameters frees every string.\<close>

theorem parms_history:
  assumes "str_parms_create True True True errno = Some p" "errno \<noteq> ENOMEM"
    and "list_all call_ok cs" "length cs \<le> 2 ^ 57"
  shows "\<exists>as p'. parms_run cs p = Inr (as, p') \<and> fst (map_run cs Map.empty) = as \<and>
    str_parms_destroy p' = Inr Map.empty"
proof -
  note c = created_parms [OF assms(1)]
  have "sp_errno p \<noteq> ENOMEM"
    using c(3) assms(2) by simp
  from run_refines [OF c(1) this c(4), of cs] assms(3,4)
  obtain as p' where "parms_run cs p = Inr (as, p')" "parms_inv p'" "map_run cs (parms_abs p) = (as, parms_abs p')"
    by auto
  with c(2) show ?thesis
    using destroy_ok by auto
qed

theorem parms_history_witness:
  "\<exists>p as p'. str_parms_create True True True 0 = Some p \<and>
    parms_run [AddStr ''rate'' ''8000'', AddInt ''rate'' 44100, GetInt ''rate'', Del ''rate'', GetStr ''rate'' 16] p = Inr (as, p') \<and>
    fst (map_run [AddStr ''rate'' ''8000'', AddInt ''rate'' 44100, GetInt ''rate'', Del ''rate'', GetStr ''rate'' 16] Map.empty) = as \<and>
    str_parms_destroy p' = Inr Map.empty"
proof -
  obtain p where p: "str_parms_create True True True 0 = Some p"
    using create_ok by blast
  show ?thesis
    using parms_history [OF p, of "[AddStr ''rate'' ''8000'', AddInt ''rate'' 44100, GetInt ''rate'', Del ''rate'', GetStr ''rate'' 16]"] p
    by (auto simp: ENOMEM_def)
qed

text \<open>An integer that was added is read back, for every 32-bit value, and nothing else is
  stored under its name.\<close>

theorem int_roundtrip:
  assumes "parms_inv p" "sp_errno p \<noteq> ENOMEM" "parms_small n p" "n < 2 ^ 57"
    and "- (2 ^ 31) \<le> v" "v < 2 ^ 31"
  shows "\<exists>p'. str_parms_add_int True True s v p = Inr (0, p') \<and>
    str_parms_get_int s p' = Inr (0, Some (word_of_int v)) \<and> parms_abs p' = (parms_abs p)(s \<mapsto> fmt_d v)"
proof -
  obtain p' where p': "str_parms_add_int True True s v p = Inr (0, p')" "parms_inv p'"
      "parms_abs p' = (parms_abs p)(s \<mapsto> fmt_d v)"
    using add_int_ok [OF assms, of s] by auto
  have "fmt_d v \<noteq> []"
    by (simp add: fmt_d_def)
  then have "str_parms_get_int s p' = Inr (0, Some (word_of_int v))"
    using get_value_ok [OF p'(2), of s] strtol0_fmt_d [OF assms(5,6)] by (simp add: str_parms_get_int_def p'(3))
  with p' show ?thesis
    by blast
qed

theorem int_roundtrip_witness:
  "\<exists>p p'. str_parms_create True True True 0 = Some p \<and> str_parms_add_int True True ''volume'' (- 12) p = Inr (0, p') \<and>
    str_parms_get_int ''volume'' p' = Inr (0, Some (word_of_int (- 12))) \<and>
    parms_abs p' = (parms_abs p)(''volume'' \<mapsto> fmt_d (- 12))"
proof -
  obtain p where p: "str_parms_create True True True 0 = Some p"
    using create_ok by blast
  note c = created_parms [OF p]
  show ?thesis
    using int_roundtrip [OF c(1) _ c(4), of "- 12" "''volume''"] c(3) p by (auto simp: ENOMEM_def)
qed

section \<open>A stale error code\<close>

lemma chain_get_dangling:
  assumes "\<And>e. e \<in> set es \<Longrightarrow> e = d \<or> str_valid H (he_key e) \<and> str_content H (he_key e) \<noteq> s"
    and "d \<in> set es" "he_key d = Own a" "a \<notin> dom H" "he_hash d = h"
  shows "chain_get (str_eq H) (Lit s) h es = Inl UseAfterFree"
  using assms(1,2)
proof (induction es)
  case Nil
  then show ?case by simp
next
  case (Cons e es)
  show ?case
  proof (cases "e = d")
    case True
    then show ?thesis
      using assms(3-5) by (simp add: equalKeys_def str_eq_def read_str_def deref_def domIff)
  next
    case False
    then have e: "str_valid H (he_key e)" "str_content H (he_key e) \<noteq> s"
      using Cons.prems(1) [of e] by auto
    then have "he_key e \<noteq> Lit s"
      by (auto simp: str_content_def)
    then have "equalKeys (str_eq H) (he_key e) (he_hash e) (Lit s) h = Inr False"
      using e by (simp add: equalKeys_def str_eq_def read_str_valid) (simp add: read_str_def)
    then show ?thesis
      using False Cons by auto
  qed
qed

text \<open>If \<open>errno\<close> is \<open>ENOMEM\<close> from an earlier call, adding a new name succeeds in the table and is
  reported as a failure; the strings are freed while the table keeps pointing at them,
  and the next look at the name reads a freed string.\<close>

theorem stale_errno_use_after_free:
  assumes "parms_inv p" "sp_errno p = ENOMEM" "parms_abs p s = None"
  shows "\<exists>p'. str_parms_add_str True calloc_ok s t p = Inr (- ENOMEM, p') \<and> get_value s p' = Inl UseAfterFree"
proof -
  let ?H = "sp_heap p" and ?k = "sp_next p" and ?v = "sp_next p + 1"
  let ?H1 = "?H(?k \<mapsto> s, ?v \<mapsto> t)" and ?d = "createEntry (Own (sp_next p)) (mix_hash (djb_hash s)) (sp_next p + 1)"
  obtain old errno m where put:
    "put_strings True calloc_ok ?k ?v (with_strings p s t) = Inr (old, (with_strings p s t)\<lparr>sp_map := m, sp_errno := errno\<rparr>)"
    "sp_table_ok ?H1 m"
    "case old of
       Some w \<Rightarrow> errno = sp_errno p \<and> (\<exists>e M. str_content ?H (he_key e) = s \<and> w = he_value e \<and>
         mset (hm_entries (sp_map p)) = add_mset e M \<and> mset (hm_entries m) = add_mset (e\<lparr>he_value := ?v\<rparr>) M)
     | None \<Rightarrow> parms_abs p s = None \<and>
         (if True then errno \<in> {sp_errno p, ENOMEM} \<and> mset (hm_entries m) = add_mset ?d (mset (hm_entries (sp_map p)))
          else errno = ENOMEM \<and> m = sp_map p)"
    using put_pair [OF assms(1), of True calloc_ok s t] by blast
  have absent: "str_content ?H (he_key e) \<noteq> s" if "e \<in> set (hm_entries (sp_map p))" for e
    using assms(3) that unfolding parms_abs_None by auto
  have "old = None"
  proof (rule ccontr)
    assume "old \<noteq> None"
    then obtain e M where "str_content ?H (he_key e) = s" "mset (hm_entries (sp_map p)) = add_mset e M"
      using put(3) by auto
    then show False
      using absent [of e] by (metis set_mset_mset union_single_eq_member)
  qed
  then have m: "errno = ENOMEM" "mset (hm_entries m) = add_mset ?d (mset (hm_entries (sp_map p)))"
    using put(3) assms(2) by auto
  have fresh: "?k \<notin> dom ?H" "?v \<notin> dom ?H"
    using fresh_addr [OF assms(1)] by simp_all
  then have "?H1(?k := None, ?v := None) = ?H"
    by (auto simp: fun_eq_iff)
  then obtain p' where p': "str_parms_add_str True calloc_ok s t p = Inr (- ENOMEM, p')" "sp_heap p' = ?H" "sp_map p' = m"
    using m(1) \<open>old = None\<close> unfolding add_str_unfold put(1) by (simp add: free_in_own)
  let ?i = "calculateIndex (length (hm_buckets m)) (mix_hash (djb_hash s))"
  have inv: "placed (hm_buckets m)" "0 < length (hm_buckets m)" "length (hm_buckets m) < 2 ^ 64"
    using put(2) by (simp_all add: hm_inv_def)
  have "?d \<in> set (hm_entries m)"
    using m(2) by (metis set_mset_mset union_single_eq_member)
  then obtain j where "j < length (hm_buckets m)" "?d \<in> set (hm_buckets m ! j)"
    unfolding hm_entries_def in_concat_nth by blast
  moreover from this inv(1) have "calculateIndex (length (hm_buckets m)) (he_hash ?d) = j"
    unfolding placed_def by blast
  then have "j = ?i"
    by (simp add: createEntry_def)
  ultimately have d: "?d \<in> set (hm_buckets m ! ?i)" "?i < length (hm_buckets m)"
    by simp_all
  have own: "owns ?H (mset (hm_entries (sp_map p)))"
    using assms(1) by (simp add: parms_inv_def)
  have "chain_get (str_eq ?H) (Lit s) (mix_hash (djb_hash s)) (hm_buckets m ! ?i) = Inl UseAfterFree"
  proof (rule chain_get_dangling [OF _ d(1)])
    fix e
    assume "e \<in> set (hm_buckets m ! ?i)"
    then have "e \<in> set (hm_entries m)"
      using set_entries [OF d(2)] by blast
    then have "e = ?d \<or> e \<in># mset (hm_entries (sp_map p))"
      using m(2) by (metis insert_iff set_mset_add_mset_insert set_mset_mset)
    then show "e = ?d \<or> str_valid ?H (he_key e) \<and> str_content ?H (he_key e) \<noteq> s"
      using owns_in(3) [OF own] absent by auto
  qed (use fresh in \<open>simp_all add: createEntry_def\<close>)
  then have "get_value s p' = Inl UseAfterFree"
    by (simp add: get_value_def hashmapGet_def hashKey_def str_hash_fn_def read_str_def p'(2,3))
  with p'(1) show ?thesis
    by blast
qed

theorem stale_errno_use_after_free_witness:
  "\<exists>p p'. str_parms_create True True True ENOMEM = Some p \<and>
    str_parms_add_str True True ''a'' ''1'' p = Inr (- ENOMEM, p') \<and> get_value ''a'' p' = Inl UseAfterFree"
proof -
  obtain p where p: "str_parms_create True True True ENOMEM = Some p"
    using create_ok by blast
  note c = created_parms [OF p]
  show ?thesis
    using stale_errno_use_after_free [OF c(1,3), of "''a''" True "''1''"] p by (simp add: c(2))
qed

end
