(* ===== verification/Byte_Source.thy ===== *)
theory Byte_Source
  imports Prelude
begin

text \<open>
  Descriptors that are read and written in pieces: what the readers of a stream rely on, and the
  pipes that give it. A reader gets at most the bytes it asks for, in order, and nothing only at
  the end.
\<close>

locale byte_source =
  fixes rd :: "nat \<Rightarrow> 's \<Rightarrow> bytes option \<times> 's" and left :: "'s \<Rightarrow> bytes"
  assumes piece: "0 < n \<Longrightarrow> \<exists>bs s'. rd n s = (Some bs, s') \<and> left s = bs @ left s' \<and> length bs \<le> n \<and>
    (left s \<noteq> [] \<longrightarrow> bs \<noteq> [])"
begin

lemma read_end:
  assumes "0 < n" "left s = []"
  obtains s' where "rd n s = (Some [], s')" "left s' = []"
  using piece [OF assms(1), of s] assms(2) by auto

lemma read_some:
  assumes "0 < n" "left s \<noteq> []"
  obtains bs s' where "rd n s = (Some bs, s')" "left s = bs @ left s'" "length bs \<le> n" "bs \<noteq> []"
    "length (left s') < length (left s)"
  using piece [OF assms(1), of s] assms(2) by (metis length_append length_greater_0_conv less_add_same_cancel2)

end

text \<open>A pipe: the bytes still to come, and how many more than one are there at each of the next reads.\<close>

type_synonym pipe = "bytes \<times> nat list"

fun pipe_read :: "nat \<Rightarrow> pipe \<Rightarrow> bytes option \<times> pipe" where
  "pipe_read n (S, []) = (Some (take n S), drop n S, [])"
| "pipe_read n (S, k # ks) = (Some (take (min n (Suc k)) S), drop (min n (Suc k)) S, ks)"

lemma pipe_piece:
  "0 < n \<Longrightarrow> \<exists>bs p'. pipe_read n p = (Some bs, p') \<and> fst p = bs @ fst p' \<and> length bs \<le> n \<and> (fst p \<noteq> [] \<longrightarrow> bs \<noteq> [])"
  by (cases "(n, p)" rule: pipe_read.cases) auto

interpretation pipe: byte_source pipe_read fst
  by unfold_locales (rule pipe_piece)

text \<open>What the writers rely on: a write that offers bytes takes some of them, from the front.\<close>

locale byte_sink =
  fixes wr :: "bytes \<Rightarrow> 't \<Rightarrow> nat option \<times> 't" and written :: "'t \<Rightarrow> bytes"
  assumes takes: "bs \<noteq> [] \<Longrightarrow> \<exists>n t'. wr bs t = (Some n, t') \<and> 0 < n \<and> n \<le> length bs \<and> written t' = written t @ take n bs"
begin

lemma write_some:
  assumes "bs \<noteq> []"
  obtains n t' where "wr bs t = (Some n, t')" "0 < n" "n \<le> length bs" "written t' = written t @ take n bs"
  using takes [OF assms, of t] by metis

end

text \<open>A sink takes at least one byte of what it is offered: how many more is its state.\<close>

fun sink_write :: "bytes \<Rightarrow> bytes \<times> nat list \<Rightarrow> nat option \<times> bytes \<times> nat list" where
  "sink_write bs (out, []) = (Some (length bs), out @ bs, [])"
| "sink_write bs (out, k # ks) = (Some (min (Suc k) (length bs)), out @ take (Suc k) bs, ks)"

lemma sink_takes:
  "bs \<noteq> [] \<Longrightarrow> \<exists>n t'. sink_write bs t = (Some n, t') \<and> 0 < n \<and> n \<le> length bs \<and> fst t' = fst t @ take n bs"
  by (cases "(bs, t)" rule: sink_write.cases) (auto simp: min_def)

interpretation sink: byte_sink sink_write fst
  by unfold_locales (rule sink_takes)

end
