(* ===== verification/Record_Stream.thy ===== *)
theory Record_Stream
  imports Byte_Source
begin

text \<open>
  The record reader of \<open>libs/libcutils/record_stream.c\<close>: records with a length of four bytes in
  front are taken out of a byte stream that arrives in pieces. The descriptor is
  an argument: a function that reads at most so many bytes from its own state.
\<close>

section \<open>The reader\<close>

definition HEADER_LEN :: nat where "HEADER_LEN = 4"

text \<open>The pointers into \<open>buffer\<close> are indices; \<open>buffer_end\<close> is its length.\<close>

record record_stream =
  rs_maxRecordLen :: nat
  rs_buffer :: bytes
  rs_unconsumed :: nat
  rs_read_end :: nat

text \<open>\<open>memory\<close> is what \<open>malloc\<close> finds in the new buffer.\<close>

definition record_stream_new :: "nat \<Rightarrow> (nat \<Rightarrow> char) \<Rightarrow> fault + record_stream" where
  "record_stream_new maxRecordLen memory =
     (if maxRecordLen \<le> 0xffff
      then Inr \<lparr>rs_maxRecordLen = maxRecordLen, rs_buffer = map memory [0..<maxRecordLen + HEADER_LEN],
             rs_unconsumed = 0, rs_read_end = 0\<rparr>
      else Inl Panic)"

definition ntohl :: "bytes \<Rightarrow> nat" where
  "ntohl bs = foldl (\<lambda>n c. n * 256 + nat (byte_val c)) 0 (take 4 bs)"

definition getEndOfRecord :: "bytes \<Rightarrow> nat \<Rightarrow> nat \<Rightarrow> nat option" where
  "getEndOfRecord buffer p_begin p_end =
     (if p_end < p_begin + HEADER_LEN then None
      else let p_ret = p_begin + HEADER_LEN + ntohl (drop p_begin buffer)
           in if p_end < p_ret then None else Some p_ret)"

text \<open>The record is a slice of the buffer.\<close>

definition getNextRecord :: "record_stream \<Rightarrow> (bytes \<times> record_stream) option" where
  "getNextRecord rs =
     (case getEndOfRecord (rs_buffer rs) (rs_unconsumed rs) (rs_read_end rs) of
        None \<Rightarrow> None
      | Some record_end \<Rightarrow>
          let record_start = rs_unconsumed rs + HEADER_LEN
          in Some (take (record_end - record_start) (drop record_start (rs_buffer rs)),
                   rs\<lparr>rs_unconsumed := record_end\<rparr>))"

text \<open>The results: a record, the end of the stream, -1 with \<open>EAGAIN\<close>, -1 from \<open>read\<close>.\<close>

datatype rs_result = Rec bytes | EndOfStream | Again | ReadError

definition compact :: "record_stream \<Rightarrow> record_stream" where
  "compact rs =
     (if rs_unconsumed rs \<noteq> 0 then
        let toMove = rs_read_end rs - rs_unconsumed rs
        in rs\<lparr>rs_buffer := take toMove (drop (rs_unconsumed rs) (rs_buffer rs)) @ drop toMove (rs_buffer rs),
              rs_read_end := toMove, rs_unconsumed := 0\<rparr>
      else rs)"

text \<open>\<open>rd\<close> is \<open>read\<close>: None for -1, else the bytes it stored. A kernel that stored more than asked
  for would be the overflow.\<close>

definition record_stream_get_next ::
  "(nat \<Rightarrow> 's \<Rightarrow> bytes option \<times> 's) \<Rightarrow> record_stream \<Rightarrow> 's \<Rightarrow> fault + rs_result \<times> record_stream \<times> 's" where
  "record_stream_get_next rd rs s =
     (case getNextRecord rs of
        Some (r, rs) \<Rightarrow> Inr (Rec r, rs, s)
      | None \<Rightarrow>
          if rs_unconsumed rs = 0 \<and> rs_read_end rs = length (rs_buffer rs) then Inl Panic
          else
            let rs = compact rs; room = length (rs_buffer rs) - rs_read_end rs; (got, s) = rd room s
            in case got of
                 None \<Rightarrow> Inr (ReadError, rs, s)
               | Some bs \<Rightarrow>
                   if bs = [] then Inr (EndOfStream, rs, s)
                   else if room < length bs then Inl BufferOverflow
                   else
                     let e = rs_read_end rs;
                         rs = rs\<lparr>rs_buffer := take e (rs_buffer rs) @ bs @ drop (e + length bs) (rs_buffer rs),
                                 rs_read_end := e + length bs\<rparr>
                     in case getNextRecord rs of
                          None \<Rightarrow> Inr (Again, rs, s)
                        | Some (r, rs) \<Rightarrow> Inr (Rec r, rs, s))"

section \<open>The bytes in the buffer\<close>

definition rs_content :: "record_stream \<Rightarrow> bytes" where
  "rs_content rs = take (rs_read_end rs - rs_unconsumed rs) (drop (rs_unconsumed rs) (rs_buffer rs))"

definition rs_ok :: "record_stream \<Rightarrow> bool" where
  "rs_ok rs \<longleftrightarrow> rs_unconsumed rs \<le> rs_read_end rs \<and> rs_read_end rs \<le> length (rs_buffer rs) \<and>
     length (rs_buffer rs) = rs_maxRecordLen rs + HEADER_LEN"

text \<open>A record on the wire, and the first record of some bytes.\<close>

definition htonl :: "nat \<Rightarrow> bytes" where
  "htonl n = map (\<lambda>i. byte_of (int (n div 256 ^ i mod 256))) [3, 2, 1, 0]"

definition record_frame :: "bytes \<Rightarrow> bytes" where
  "record_frame r = htonl (length r) @ r"

definition first_record :: "bytes \<Rightarrow> (bytes \<times> bytes) option" where
  "first_record bs =
     (if length bs < 4 \<or> length bs < 4 + ntohl bs then None
      else Some (take (ntohl bs) (drop 4 bs), drop (4 + ntohl bs) bs))"

lemma length_htonl [simp]: "length (htonl n) = 4"
  by (simp add: htonl_def)

lemma ntohl_htonl:
  assumes "n < 2 ^ 32"
  shows "ntohl (htonl n @ bs) = n"
proof -
  have "ntohl (htonl n @ bs) = ((n div 256 ^ 3 mod 256 * 256 + n div 256 ^ 2 mod 256) * 256 + n div 256 mod 256) * 256 + n mod 256"
    by (simp add: ntohl_def htonl_def nat_mod_distrib nat_int_add flip: of_nat_mod)
  also have "\<dots> = n"
  proof -
    have "n div 256 = n div 256 div 256 * 256 + n div 256 mod 256"
      "n div 256 div 256 = n div 256 div 256 div 256 * 256 + n div 256 div 256 mod 256"
      "n = n div 256 * 256 + n mod 256" "n div 256 div 256 div 256 < 256"
      using assms by simp_all
    moreover have "n div 256 ^ 2 = n div 256 div 256" "n div 256 ^ 3 = n div 256 div 256 div 256"
      by (simp_all add: power2_eq_square power3_eq_cube div_mult2_eq)
    ultimately show ?thesis
      by simp
  qed
  finally show ?thesis .
qed

lemma ntohl_take: "4 \<le> n \<Longrightarrow> ntohl (take n bs) = ntohl bs"
  by (simp add: ntohl_def min_def)

lemma length_content: "rs_ok rs \<Longrightarrow> length (rs_content rs) = rs_read_end rs - rs_unconsumed rs"
  by (auto simp: rs_content_def rs_ok_def min_def)

lemma next_record_content:
  assumes "rs_ok rs"
  shows "case getNextRecord rs of
      None \<Rightarrow> first_record (rs_content rs) = None
    | Some (r, rs') \<Rightarrow> first_record (rs_content rs) = Some (r, rs_content rs') \<and> rs_ok rs' \<and>
        rs_maxRecordLen rs' = rs_maxRecordLen rs"
proof -
  let ?u = "rs_unconsumed rs" and ?e = "rs_read_end rs"
  have len: "length (rs_content rs) = ?e - ?u"
    by (rule length_content [OF assms])
  show ?thesis
  proof (cases "?e < ?u + 4")
    case True
    then show ?thesis
      using len assms by (auto simp: rs_ok_def getNextRecord_def getEndOfRecord_def HEADER_LEN_def first_record_def)
  next
    case False
    then have n: "ntohl (rs_content rs) = ntohl (drop ?u (rs_buffer rs))"
      by (simp add: rs_content_def ntohl_take)
    show ?thesis
      using False len n assms
      by (auto simp: getNextRecord_def getEndOfRecord_def HEADER_LEN_def first_record_def Let_def rs_ok_def rs_content_def
          drop_take min_def algebra_simps split: option.split)
  qed
qed

lemma compact_content:
  assumes "rs_ok rs"
  shows "rs_ok (compact rs)" "rs_content (compact rs) = rs_content rs" "rs_unconsumed (compact rs) = 0"
    "rs_maxRecordLen (compact rs) = rs_maxRecordLen rs" "length (rs_buffer (compact rs)) = length (rs_buffer rs)"
    "rs_read_end (compact rs) = length (rs_content rs)"
  using assms by (auto simp: compact_def rs_ok_def rs_content_def Let_def)

lemma append_content:
  assumes "rs_ok rs" "rs_unconsumed rs = 0" "length bs \<le> length (rs_buffer rs) - rs_read_end rs"
  shows "rs_ok (rs\<lparr>rs_buffer := take (rs_read_end rs) (rs_buffer rs) @ bs @ drop (rs_read_end rs + length bs) (rs_buffer rs),
      rs_read_end := rs_read_end rs + length bs\<rparr>)"
    "rs_content (rs\<lparr>rs_buffer := take (rs_read_end rs) (rs_buffer rs) @ bs @ drop (rs_read_end rs + length bs) (rs_buffer rs),
      rs_read_end := rs_read_end rs + length bs\<rparr>) = rs_content rs @ bs"
  using assms by (auto simp: rs_ok_def rs_content_def)

lemma first_record_frame:
  assumes "length r \<le> 0xffff"
  shows "first_record (record_frame r @ bs) = Some (r, bs)"
  using ntohl_htonl [of "length r" "r @ bs"] assms by (simp add: first_record_def record_frame_def)

lemma first_record_append:
  assumes "first_record a = Some (r, rest)"
  shows "first_record (a @ b) = Some (r, rest @ b)"
proof -
  have "4 \<le> length a" "4 + ntohl a \<le> length a"
    using assms by (auto simp: first_record_def split: if_splits)
  moreover from this have "ntohl (a @ b) = ntohl a"
    using ntohl_take [of "length a" "a @ b"] by simp
  ultimately show ?thesis
    using assms by (auto simp: first_record_def drop_eq_Nil2)
qed

text \<open>What is taken off the front is at least a header.\<close>

lemma first_record_length: "first_record a = Some (r, rest) \<Longrightarrow> length a = 4 + length r + length rest"
  by (auto simp: first_record_def split: if_splits)

section \<open>One call\<close>

lemma get_next_buffered:
  assumes "rs_ok rs" "first_record (rs_content rs) = Some (r, rest)"
  obtains rs' where "record_stream_get_next rd rs s = Inr (Rec r, rs', s)" "rs_ok rs'" "rs_content rs' = rest"
    "rs_maxRecordLen rs' = rs_maxRecordLen rs"
  using next_record_content [OF assms(1)] assms(2)
  by (auto simp: record_stream_get_next_def split: option.splits prod.splits)

lemma get_next_full:
  assumes "rs_ok rs" "first_record (rs_content rs) = None" "length (rs_content rs) = rs_maxRecordLen rs + HEADER_LEN"
  shows "record_stream_get_next rd rs s = Inl Panic"
  using next_record_content [OF assms(1)] assms length_content [OF assms(1)]
  by (auto simp: record_stream_get_next_def rs_ok_def split: option.splits)

text \<open>The state in which the call reads: all the bytes at the start of the buffer.\<close>

lemma get_next_reads:
  assumes "rs_ok rs" "first_record (rs_content rs) = None" "length (rs_content rs) < rs_maxRecordLen rs + HEADER_LEN"
    and "rd (rs_maxRecordLen rs + HEADER_LEN - length (rs_content rs)) s = (Some bs, s')"
    and "bs \<noteq> []" "length bs \<le> rs_maxRecordLen rs + HEADER_LEN - length (rs_content rs)"
  obtains rs' where "rs_ok rs'" "rs_maxRecordLen rs' = rs_maxRecordLen rs"
    "record_stream_get_next rd rs s = (case first_record (rs_content rs @ bs) of
        None \<Rightarrow> Inr (Again, rs', s') | Some (r, rest) \<Rightarrow> Inr (Rec r, rs', s'))"
    "rs_content rs' = (case first_record (rs_content rs @ bs) of None \<Rightarrow> rs_content rs @ bs | Some (r, rest) \<Rightarrow> rest)"
proof -
  note c = compact_content [OF assms(1)]
  let ?c = "compact rs"
  let ?a = "?c\<lparr>rs_buffer := take (rs_read_end ?c) (rs_buffer ?c) @ bs @ drop (rs_read_end ?c + length bs) (rs_buffer ?c),
      rs_read_end := rs_read_end ?c + length bs\<rparr>"
  have len: "length (rs_buffer ?c) = rs_maxRecordLen rs + HEADER_LEN"
    using assms(1) c by (simp add: rs_ok_def)
  have a: "rs_ok ?a" "rs_content ?a = rs_content rs @ bs"
    using append_content [of ?c bs] c assms(6) len by auto
  have none: "getNextRecord rs = None"
    using next_record_content [OF assms(1)] assms(2) by (auto split: option.splits)
  have "\<not> (rs_unconsumed rs = 0 \<and> rs_read_end rs = length (rs_buffer rs))"
    using assms(1,3) length_content [OF assms(1)] by (auto simp: rs_ok_def)
  then have step: "record_stream_get_next rd rs s =
      (case getNextRecord ?a of None \<Rightarrow> Inr (Again, ?a, s') | Some (r, rs') \<Rightarrow> Inr (Rec r, rs', s'))"
    using none assms(4-6) c len by (auto simp: record_stream_get_next_def Let_def split: option.split prod.split)
  show ?thesis
  proof (cases "getNextRecord ?a")
    case None
    then show ?thesis
      using that [of ?a] next_record_content [OF a(1)] a step c by simp
  next
    case (Some x)
    then show ?thesis
      using that [of "snd x"] next_record_content [OF a(1)] a step c by (auto split: prod.splits)
  qed
qed

lemma get_next_end:
  assumes "rs_ok rs" "first_record (rs_content rs) = None" "length (rs_content rs) < rs_maxRecordLen rs + HEADER_LEN"
    and "rd (rs_maxRecordLen rs + HEADER_LEN - length (rs_content rs)) s = (Some [], s')"
  shows "record_stream_get_next rd rs s = Inr (EndOfStream, compact rs, s')"
proof -
  note c = compact_content [OF assms(1)]
  have "length (rs_buffer (compact rs)) = rs_maxRecordLen rs + HEADER_LEN"
    using assms(1) c by (simp add: rs_ok_def)
  moreover have "getNextRecord rs = None"
    using next_record_content [OF assms(1)] assms(2) by (auto split: option.splits)
  moreover have "\<not> (rs_unconsumed rs = 0 \<and> rs_read_end rs = length (rs_buffer rs))"
    using assms(1,3) length_content [OF assms(1)] by (auto simp: rs_ok_def)
  ultimately show ?thesis
    using assms(4) c by (simp add: record_stream_get_next_def Let_def)
qed

section \<open>A client that reads a stream to its end\<close>

text \<open>At most \<open>n\<close> calls: the records, and whether the end of the stream was seen.\<close>

fun read_records ::
  "(nat \<Rightarrow> 's \<Rightarrow> bytes option \<times> 's) \<Rightarrow> nat \<Rightarrow> record_stream \<Rightarrow> 's \<Rightarrow> fault + bytes list \<times> bool" where
  "read_records rd 0 rs s = Inr ([], False)"
| "read_records rd (Suc n) rs s =
     (case record_stream_get_next rd rs s of
        Inl f \<Rightarrow> Inl f
      | Inr (Rec r, rs, s) \<Rightarrow>
          (case read_records rd n rs s of Inl f \<Rightarrow> Inl f | Inr (rl, e) \<Rightarrow> Inr (r # rl, e))
      | Inr (Again, rs, s) \<Rightarrow> read_records rd n rs s
      | Inr (EndOfStream, rs, s) \<Rightarrow> Inr ([], True)
      | Inr (ReadError, rs, s) \<Rightarrow> Inr ([], False))"

definition rs_stream :: "bytes list \<Rightarrow> bytes \<Rightarrow> bytes" where
  "rs_stream rl t = concat (map record_frame rl) @ t"

lemma rs_stream_simps [simp]:
  "rs_stream [] t = t"
  "rs_stream (r # rl) t = record_frame r @ rs_stream rl t"
  by (simp_all add: rs_stream_def)

text \<open>The first record of a prefix of the stream is the first one sent.\<close>

lemma rs_stream_first:
  assumes "rs_stream rl t = a @ b" "first_record a = Some (r, rest)" "first_record t = None"
    and "list_all (\<lambda>r. length r \<le> 0xffff) rl"
  obtains l where "rl = r # l" "rs_stream l t = rest @ b"
proof -
  have f: "first_record (rs_stream rl t) = Some (r, rest @ b)"
    using first_record_append [OF assms(2)] assms(1) by simp
  then show ?thesis
    using that assms(3,4) first_record_frame by (cases rl) auto
qed

text \<open>Bytes that do not hold a whole record end before the frame of the next one.\<close>

lemma stream_blocked:
  assumes "a @ b = rs_stream rl t" "first_record a = None" "list_all (\<lambda>r. length r \<le> 0xffff) rl"
  shows "case rl of [] \<Rightarrow> length a + length b = length t | r # l \<Rightarrow> length a < HEADER_LEN + length r \<and> b \<noteq> []"
proof (cases rl)
  case Nil
  then show ?thesis
    using arg_cong [OF assms(1), of length] by simp
next
  case (Cons r l)
  have "\<not> HEADER_LEN + length r \<le> length a"
  proof
    assume "HEADER_LEN + length r \<le> length a"
    then have "take (length (record_frame r)) (a @ b) = take (length (record_frame r)) a"
      by (simp add: record_frame_def HEADER_LEN_def)
    moreover have "take (length (record_frame r)) (a @ b) = record_frame r"
      unfolding assms(1) Cons rs_stream_simps by simp
    ultimately have "a = record_frame r @ drop (length (record_frame r)) a"
      by (metis append_take_drop_id)
    then show False
      using assms(2,3) Cons first_record_frame [of r] by (metis list.pred_inject(2) option.distinct(1))
  qed
  moreover from this have "b \<noteq> []"
    using arg_cong [OF assms(1), of length] Cons by (auto simp: record_frame_def HEADER_LEN_def)
  ultimately show ?thesis
    using Cons by simp
qed

text \<open>Every call takes a byte from the pipe or a record from the buffer, so the measure of the calls
  is twice the bytes to come and the bytes in the buffer.\<close>

context byte_source
begin

lemma read_records_stream:
  assumes "rs_ok rs" "rs_content rs @ left s = rs_stream rl t" "first_record t = None"
    and "list_all (\<lambda>r. length r \<le> rs_maxRecordLen rs) rl" "rs_maxRecordLen rs \<le> 0xffff"
    and "2 * length (left s) + length (rs_content rs) < n"
  shows "read_records rd n rs s =
    (if length t < rs_maxRecordLen rs + HEADER_LEN then Inr (rl, True) else Inl Panic)"
  using assms
proof (induction n arbitrary: rs s rl)
  case (Suc n)
  let ?c = "rs_content rs" and ?g = "record_stream_get_next rd rs s"
  have small: "list_all (\<lambda>r. length r \<le> 0xffff) rl"
    using Suc.prems(4,5) by (auto simp: list_all_iff)
  show ?case
  proof (cases "first_record ?c")
    case (Some x)
    then obtain r rest where x: "first_record ?c = Some (r, rest)"
      by (cases x) auto
    obtain l where l: "rl = r # l" "rs_stream l t = rest @ left s"
      by (rule rs_stream_first [OF Suc.prems(2) [symmetric] x Suc.prems(3) small])
    obtain rs' where rs': "?g = Inr (Rec r, rs', s)" "rs_ok rs'" "rs_content rs' = rest"
      "rs_maxRecordLen rs' = rs_maxRecordLen rs"
      by (rule get_next_buffered [OF Suc.prems(1) x])
    show ?thesis
      using Suc.IH [of rs' s l] Suc.prems rs' l first_record_length [OF x] by (simp split: if_splits)
  next
    case None
    note none = this
    show ?thesis
    proof (cases "length ?c < rs_maxRecordLen rs + HEADER_LEN")
      case False
      then have full: "length ?c = rs_maxRecordLen rs + HEADER_LEN"
        using length_content [OF Suc.prems(1)] Suc.prems(1) unfolding rs_ok_def by linarith
      have "rl = [] \<and> \<not> length t < rs_maxRecordLen rs + HEADER_LEN"
        using stream_blocked [OF Suc.prems(2) none small] full Suc.prems(4)
        by (cases rl) (auto simp: HEADER_LEN_def)
      then show ?thesis
        using get_next_full [OF Suc.prems(1) none full, of rd s] by simp
    next
      case True
      let ?n = "rs_maxRecordLen rs + HEADER_LEN - length ?c"
      have "0 < ?n"
        using True by simp
      show ?thesis
      proof (cases "left s = []")
        case e: True
        then obtain s' where s': "rd ?n s = (Some [], s')"
          using read_end [OF \<open>0 < ?n\<close>] by metis
        have "length t < rs_maxRecordLen rs + HEADER_LEN \<and> rl = []"
          using stream_blocked [OF Suc.prems(2) none small] e True by (cases rl) auto
        then show ?thesis
          using get_next_end [where rd = rd and s = s, OF Suc.prems(1) none True s'] by simp
      next
        case False
        then obtain bs s' where p: "rd ?n s = (Some bs, s')" "left s = bs @ left s'" "length bs \<le> ?n" "bs \<noteq> []"
          using read_some [OF \<open>0 < ?n\<close>] by metis
        from get_next_reads [where rd = rd and s = s, OF Suc.prems(1) none True p(1,4,3)] obtain rs' where rs': "rs_ok rs'"
          "rs_maxRecordLen rs' = rs_maxRecordLen rs"
          "?g = (case first_record (?c @ bs) of
              None \<Rightarrow> Inr (Again, rs', s') | Some (r, rest) \<Rightarrow> Inr (Rec r, rs', s'))"
          "rs_content rs' = (case first_record (?c @ bs) of None \<Rightarrow> ?c @ bs | Some (r, rest) \<Rightarrow> rest)"
          by blast
        have all: "(?c @ bs) @ left s' = rs_stream rl t"
          using Suc.prems(2) p(2) by simp
        have less: "2 * length (left s') + length (?c @ bs) < n"
          using Suc.prems(6) p(2,4) by (cases bs) auto
        show ?thesis
        proof (cases "first_record (?c @ bs)")
          case None
          then show ?thesis
            using Suc.IH [of rs' s' rl] Suc.prems rs' all less by simp
        next
          case (Some x)
          then obtain r rest where x: "first_record (?c @ bs) = Some (r, rest)"
            by (cases x) auto
          obtain l where l: "rl = r # l" "rs_stream l t = rest @ left s'"
            by (rule rs_stream_first [OF all [symmetric] x Suc.prems(3) small])
          show ?thesis
            using Suc.IH [of rs' s' l] Suc.prems rs' l less x first_record_length [OF x]
            by (simp split: if_splits)
        qed
      qed
    qed
  qed
qed simp

end

lemma record_stream_new_ok:
  assumes "record_stream_new m memory = Inr rs"
  shows "rs_ok rs" "rs_content rs = []" "rs_maxRecordLen rs = m" "m \<le> 0xffff"
  using assms by (auto simp: record_stream_new_def rs_ok_def rs_content_def split: if_splits)

text \<open>C18: Records come out of a stream as they were sent, whatever the pieces in which the bytes
  arrive: the records of at most \<open>maxRecordLen\<close> bytes are delivered in order, none twice, and
  the end is reached in a bounded number of calls. A last record that was cut off is dropped there.\<close>

theorem records_delivered:
  assumes "record_stream_new m memory = Inr rs" "list_all (\<lambda>r. length r \<le> m) rl"
    and "first_record t = None" "length t < m + HEADER_LEN"
  shows "read_records pipe_read (2 * length (rs_stream rl t) + 1) rs (rs_stream rl t, ks) = Inr (rl, True)"
  using record_stream_new_ok [OF assms(1)] assms(2-4) by (simp add: pipe.read_records_stream del: read_records.simps)

lemma records_delivered_witness:
  "read_records pipe_read (2 * length (rs_stream [''ab'', [], ''xyz''] ''qq'') + 1)
     \<lparr>rs_maxRecordLen = 3, rs_buffer = map (\<lambda>i. CHR ''-'') [0..<7], rs_unconsumed = 0, rs_read_end = 0\<rparr>
     (rs_stream [''ab'', [], ''xyz''] ''qq'', [0, 4, 1, 0, 0]) = Inr ([''ab'', [], ''xyz''], True)"
  by (rule records_delivered [where memory = "\<lambda>i. CHR ''-''" and m = 3])
    (simp_all add: record_stream_new_def HEADER_LEN_def first_record_def)

text \<open>A record that announces more than \<open>maxRecordLen\<close> bytes ends in the assertion of
  \<open>record_stream_get_next\<close> (``this should never happen'') as soon as the buffer is full, so
  the sender chooses when the reader stops: for any earlier records and any pieces.\<close>

theorem long_record_panics:
  assumes "record_stream_new m memory = Inr rs" "list_all (\<lambda>r. length r \<le> m) rl"
    and "m < n" "n < 2 ^ 32" "m \<le> length body" "length body < n"
  shows "read_records pipe_read (2 * length (rs_stream rl (htonl n @ body)) + 1) rs
    (rs_stream rl (htonl n @ body), ks) = Inl Panic"
proof -
  have "first_record (htonl n @ body) = None"
    using assms(4,6) ntohl_htonl [of n body] by (simp add: first_record_def)
  then show ?thesis
    using record_stream_new_ok [OF assms(1)] assms(2-)
    by (simp add: pipe.read_records_stream HEADER_LEN_def del: read_records.simps)
qed

lemma long_record_panics_witness:
  "read_records pipe_read (2 * length (rs_stream [''ab''] (htonl 4 @ ''wxy'')) + 1)
     \<lparr>rs_maxRecordLen = 3, rs_buffer = map (\<lambda>i. CHR ''-'') [0..<7], rs_unconsumed = 0, rs_read_end = 0\<rparr>
     (rs_stream [''ab''] (htonl 4 @ ''wxy''), [9, 1]) = Inl Panic"
  by (rule long_record_panics [where memory = "\<lambda>i. CHR ''-''" and m = 3]) (simp_all add: record_stream_new_def HEADER_LEN_def)

end
