(* ===== verification/Byte_Buffer.thy ===== *)
theory Byte_Buffer
  imports Byte_Source
begin

text \<open>
  The byte buffer of \<open>libs/libcutils/buffer.c\<close>, which is filled from one descriptor until the
  expected bytes are there and then written to another. \<open>expected\<close> and \<open>remaining\<close> are the two names
  of a union. The answers of the allocator are arguments, as in the pointer array.
\<close>

section \<open>The operations\<close>

record buffer =
  buf_data :: bytes
  buf_expected :: nat
  buf_size :: nat
  buf_capacity :: nat

text \<open>\<open>bufferCreate\<close> does not set \<open>size\<close>: the argument \<open>junk\<close> is what it finds there.\<close>

definition bufferCreate :: "(nat \<Rightarrow> char) option \<Rightarrow> nat \<Rightarrow> nat \<Rightarrow> buffer option" where
  "bufferCreate mem junk capacity =
     (case mem of
        None \<Rightarrow> None
      | Some m \<Rightarrow> Some \<lparr>buf_data = map m [0..<capacity], buf_expected = 0, buf_size = junk, buf_capacity = capacity\<rparr>)"

definition bufferWrap :: "bytes \<Rightarrow> nat \<Rightarrow> nat \<Rightarrow> buffer" where
  "bufferWrap data capacity s = \<lparr>buf_data = data, buf_expected = 0, buf_size = s, buf_capacity = capacity\<rparr>"

definition bufferPrepareForRead :: "(nat \<Rightarrow> char) option \<Rightarrow> buffer \<Rightarrow> nat \<Rightarrow> int \<times> buffer" where
  "bufferPrepareForRead mem buffer expected =
     (if expected > buf_capacity buffer \<and> mem = None then (-1, buffer)
      else
        let buffer = (if expected > buf_capacity buffer
                      then buffer\<lparr>buf_capacity := expected,
                        buf_data := buf_data buffer @ map (the mem) [length (buf_data buffer)..<expected]\<rparr>
                      else buffer)
        in (0, buffer\<lparr>buf_size := 0, buf_expected := expected\<rparr>))"

text \<open>\<open>read\<close> and \<open>write\<close> answer None for -1.\<close>

definition bufferRead ::
  "(nat \<Rightarrow> 's \<Rightarrow> bytes option \<times> 's) \<Rightarrow> buffer \<Rightarrow> 's \<Rightarrow> fault + int \<times> buffer \<times> 's" where
  "bufferRead rd buffer s =
     (if \<not> buf_size buffer < buf_expected buffer then Inl Panic
      else
        let (got, s) = rd (buf_expected buffer - buf_size buffer) s; e = buf_size buffer
        in case got of
             None \<Rightarrow> Inr (-1, buffer, s)
           | Some bs \<Rightarrow>
               if bs = [] then Inr (0, buffer, s)
               else if length (buf_data buffer) < e + length bs then Inl BufferOverflow
               else Inr (int (e + length bs),
                 buffer\<lparr>buf_data := take e (buf_data buffer) @ bs @ drop (e + length bs) (buf_data buffer),
                   buf_size := e + length bs\<rparr>, s))"

definition bufferPrepareForWrite :: "buffer \<Rightarrow> buffer" where
  "bufferPrepareForWrite buffer = buffer\<lparr>buf_expected := buf_size buffer\<rparr>"

definition bufferWrite :: "(bytes \<Rightarrow> 't \<Rightarrow> nat option \<times> 't) \<Rightarrow> buffer \<Rightarrow> 't \<Rightarrow> fault + int \<times> buffer \<times> 't" where
  "bufferWrite wr buffer t =
     (let remaining = buf_expected buffer
      in if \<not> (remaining > 0 \<and> remaining \<le> buf_size buffer) then Inl Panic
         else if length (buf_data buffer) < buf_size buffer then Inl Uninitialised
         else
           let (taken, t) = wr (take remaining (drop (buf_size buffer - remaining) (buf_data buffer))) t
           in case taken of
                None \<Rightarrow> Inr (-1, buffer, t)
              | Some n \<Rightarrow> Inr (int (remaining - n), buffer\<lparr>buf_expected := remaining - n\<rparr>, t))"

definition bufferReadComplete :: "buffer \<Rightarrow> bool" where
  "bufferReadComplete buffer \<longleftrightarrow> buf_expected buffer = buf_size buffer"

definition bufferWriteComplete :: "buffer \<Rightarrow> bool" where
  "bufferWriteComplete buffer \<longleftrightarrow> buf_expected buffer = 0"

section \<open>Filling and draining\<close>

text \<open>The loops of a user: at most \<open>n\<close> calls, until the buffer is complete or a call does not advance.\<close>

fun fill :: "(nat \<Rightarrow> 's \<Rightarrow> bytes option \<times> 's) \<Rightarrow> nat \<Rightarrow> buffer \<Rightarrow> 's \<Rightarrow> fault + buffer \<times> 's" where
  "fill rd 0 buffer s = Inr (buffer, s)"
| "fill rd (Suc n) buffer s =
     (if bufferReadComplete buffer then Inr (buffer, s)
      else bindE (bufferRead rd buffer s) (\<lambda>(r, buffer, s). if r \<le> 0 then Inr (buffer, s) else fill rd n buffer s))"

fun drain :: "(bytes \<Rightarrow> 't \<Rightarrow> nat option \<times> 't) \<Rightarrow> nat \<Rightarrow> buffer \<Rightarrow> 't \<Rightarrow> fault + buffer \<times> 't" where
  "drain wr 0 buffer t = Inr (buffer, t)"
| "drain wr (Suc n) buffer t =
     (if bufferWriteComplete buffer then Inr (buffer, t)
      else bindE (bufferWrite wr buffer t) (\<lambda>(r, buffer, t). if r < 0 then Inr (buffer, t) else drain wr n buffer t))"

context byte_source
begin

lemma fill_complete:
  assumes "buf_size b \<le> buf_expected b" "buf_expected b \<le> length (buf_data b)"
    and "buf_expected b - buf_size b \<le> length (left s)" "buf_expected b - buf_size b \<le> n"
  shows "\<exists>s'. fill rd n b s =
      Inr (b\<lparr>buf_data := take (buf_size b) (buf_data b) @ take (buf_expected b - buf_size b) (left s) @ drop (buf_expected b) (buf_data b),
             buf_size := buf_expected b\<rparr>, s') \<and> left s' = drop (buf_expected b - buf_size b) (left s)"
  using assms
proof (induction n arbitrary: b s)
  case 0
  then show ?case
    by simp
next
  case (Suc n)
  show ?case
  proof (cases "buf_size b = buf_expected b")
    case True
    then show ?thesis
      by (simp add: bufferReadComplete_def flip: True)
  next
    case False
    let ?n = "buf_expected b - buf_size b" and ?e = "buf_size b"
    have "0 < ?n" "left s \<noteq> []"
      using False Suc.prems by auto
    then obtain bs s' where p: "rd ?n s = (Some bs, s')" "left s = bs @ left s'" "length bs \<le> ?n" "bs \<noteq> []"
      using read_some by metis
    let ?b = "b\<lparr>buf_data := take ?e (buf_data b) @ bs @ drop (?e + length bs) (buf_data b), buf_size := ?e + length bs\<rparr>"
    have "bufferRead rd b s = Inr (int (?e + length bs), ?b, s')"
      using p(1,3,4) Suc.prems(1,2) False by (simp add: bufferRead_def Let_def)
    moreover have pos: "0 < length bs" "int (?e + length bs) > 0"
      using p(4) by (cases bs; simp)+
    ultimately have "fill rd (Suc n) b s = fill rd n ?b s'"
      using False by (simp add: bufferReadComplete_def)
    moreover have "buf_size ?b \<le> buf_expected ?b" "buf_expected ?b \<le> length (buf_data ?b)"
        "buf_expected ?b - buf_size ?b \<le> length (left s')" "buf_expected ?b - buf_size ?b \<le> n"
      using Suc.prems p(3) pos(1) arg_cong [OF p(2), of length]
      by (simp_all add: le_diff_conv del: length_greater_0_conv)
    moreover from Suc.IH [OF this] obtain s'' where "fill rd n ?b s' =
        Inr (?b\<lparr>buf_data := take (buf_size ?b) (buf_data ?b) @ take (buf_expected ?b - buf_size ?b) (left s') @ drop (buf_expected ?b) (buf_data ?b),
             buf_size := buf_expected ?b\<rparr>, s'')" "left s'' = drop (buf_expected ?b - buf_size ?b) (left s')"
      by blast
    moreover have "take ?n (left s) = bs @ take (?n - length bs) (left s')" "drop ?n (left s) = drop (?n - length bs) (left s')"
      unfolding p(2) using p(3) by simp_all
    ultimately show ?thesis
      using Suc.prems(1,2) p(3) by simp
  qed
qed

end

context byte_sink
begin

lemma drain_complete:
  assumes "buf_expected b \<le> buf_size b" "buf_size b \<le> length (buf_data b)" "buf_expected b \<le> n"
  shows "\<exists>t'. drain wr n b t = Inr (b\<lparr>buf_expected := 0\<rparr>, t') \<and>
    written t' = written t @ take (buf_expected b) (drop (buf_size b - buf_expected b) (buf_data b))"
  using assms
proof (induction n arbitrary: b t)
  case 0
  then show ?case
    by simp
next
  case (Suc n)
  let ?r = "buf_expected b" and ?rest = "take (buf_expected b) (drop (buf_size b - buf_expected b) (buf_data b))"
  show ?case
  proof (cases "?r = 0")
    case True
    then show ?thesis
      by (simp add: bufferWriteComplete_def flip: True)
  next
    case False
    have len: "length ?rest = ?r"
      using Suc.prems by simp
    then have "?rest \<noteq> []"
      using False by force
    then obtain k t' where w: "wr ?rest t = (Some k, t')" "0 < k" "k \<le> ?r" "written t' = written t @ take k ?rest"
      using write_some [of ?rest t] len by metis
    let ?b = "b\<lparr>buf_expected := ?r - k\<rparr>"
    have "bufferWrite wr b t = Inr (int (?r - k), ?b, t')"
      using w(1) Suc.prems False by (simp add: bufferWrite_def Let_def)
    then have "drain wr (Suc n) b t = drain wr n ?b t'"
      using False by (simp add: bufferWriteComplete_def)
    moreover have "buf_expected ?b \<le> buf_size ?b" "buf_size ?b \<le> length (buf_data ?b)" "buf_expected ?b \<le> n"
      using Suc.prems w(2) by auto
    moreover from Suc.IH [OF this, of t'] obtain t'' where "drain wr n ?b t' = Inr (b\<lparr>buf_expected := 0\<rparr>, t'')"
      "written t'' = written t' @ take (?r - k) (drop (buf_size b - (?r - k)) (buf_data b))"
      by auto
    moreover have "take (?r - k) (drop (buf_size b - (?r - k)) (buf_data b)) = drop k ?rest"
      using w(3) Suc.prems(1) by (simp add: drop_take add.commute)
    moreover have "take k ?rest @ drop k ?rest = ?rest"
      by (rule append_take_drop_id)
    ultimately show ?thesis
      using w(4) by (metis append.assoc)
  qed
qed

end

section \<open>A transfer\<close>

definition buffer_transfer where
  "buffer_transfer rd wr mem buffer n s t =
     (let (r, buffer) = bufferPrepareForRead mem buffer n
      in if r < 0 then Inr None
         else bindE (fill rd n buffer s) (\<lambda>(buffer, s).
           bindE (drain wr n (bufferPrepareForWrite buffer) t) (\<lambda>(buffer, t). Inr (Some (s, t)))))"

text \<open>A buffer carries the bytes it is told to expect from one descriptor to another, exactly and
  once, whatever its capacity was and however the reads and the writes are cut into pieces.\<close>

theorem buffer_carries:
  assumes "bufferCreate (Some m) junk capacity = Some b" "n \<le> length S"
  shows "\<exists>ks' ls'. buffer_transfer pipe_read sink_write (Some m) b n (S, ks) (out, ls) =
    Inr (Some ((drop n S, ks'), (out @ take n S, ls')))"
proof -
  obtain c where c: "bufferPrepareForRead (Some m) b n = (0, c)" "buf_size c = 0" "buf_expected c = n" "n \<le> length (buf_data c)"
    using assms(1) by (auto simp: bufferCreate_def bufferPrepareForRead_def split: if_splits)
  let ?d = "c\<lparr>buf_data := take n S @ drop n (buf_data c), buf_size := n\<rparr>"
  obtain s' where s': "fill pipe_read n c (S, ks) = Inr (?d, s')" "fst s' = drop n S"
    using pipe.fill_complete [of c "(S, ks)" n] c assms(2) by auto
  obtain t' where t': "drain sink_write n (bufferPrepareForWrite ?d) (out, ls) =
      Inr ((bufferPrepareForWrite ?d)\<lparr>buf_expected := 0\<rparr>, t')" "fst t' = out @ take n S"
    using sink.drain_complete [of "bufferPrepareForWrite ?d" n "(out, ls)"] c assms(2)
    by (auto simp: bufferPrepareForWrite_def)
  show ?thesis
    using c(1) s' t' by (cases s'; cases t') (simp add: buffer_transfer_def)
qed

lemma buffer_carries_witness:
  "\<exists>ks' ls'. buffer_transfer pipe_read sink_write (Some (\<lambda>i. CHR ''-''))
     \<lparr>buf_data = map (\<lambda>i. CHR ''-'') [0..<2], buf_expected = 0, buf_size = 9, buf_capacity = 2\<rparr> 4 (''abcdef'', [0, 7]) (''z'', [1]) =
    Inr (Some ((''ef'', ks'), (''zabcd'', ls')))"
  using buffer_carries [of "\<lambda>i. CHR ''-''" 9 2 _ 4 "''abcdef''" "[0, 7]" "''z''" "[1]"]
  by (simp add: bufferCreate_def)

end
