(* ===== verification/Pointer_Array.thy ===== *)
theory Pointer_Array
  imports Interfaces
begin

text \<open>
  The growing array of pointers of \<open>libs/libcutils/array.c\<close>. A pointer is its address, 0 is
  NULL, the \<open>int\<close> fields are integers (the bounds below show that none leaves 32 bits), and a
  pointer has eight bytes. What the allocator does is an argument of the operations that call it:
  None when it returns NULL, else what it left in the new cells.
\<close>

section \<open>The operations\<close>

type_synonym pointer = nat

definition INITIAL_CAPACITY :: int where "INITIAL_CAPACITY = 4"

definition MAX_CAPACITY :: int where "MAX_CAPACITY = (2 ^ 32 - 1) div 8"

record array =
  arr_contents :: "pointer list option"
  arr_size :: int
  arr_capacity :: int

definition arrayCreate :: array where
  "arrayCreate = \<lparr>arr_contents = None, arr_size = 0, arr_capacity = 0\<rparr>"

text \<open>The loop of \<open>ensureCapacity\<close>. It stays at a fixed point for ever, which is \<open>Hang\<close>.\<close>

function grow_capacity :: "int \<Rightarrow> int \<Rightarrow> fault + int" where
  "grow_capacity newCapacity capacity =
     (if newCapacity < capacity then
        let newCap = newCapacity * 2;
            newCap = (if newCap < newCapacity \<or> newCap > MAX_CAPACITY then MAX_CAPACITY else newCap)
        in if newCap = newCapacity then Inl Hang else grow_capacity newCap capacity
      else Inr newCapacity)"
  by auto
termination
  by (relation "measure (\<lambda>(n, c). if MAX_CAPACITY < n then nat (c - MAX_CAPACITY) + 1 else nat (c - n))")
    (auto simp: MAX_CAPACITY_def split: if_splits)

declare grow_capacity.simps [simp del]

text \<open>The result is \<open>0\<close> or \<open>-1\<close>.\<close>

definition ensureCapacity :: "(nat \<Rightarrow> pointer) option \<Rightarrow> array \<Rightarrow> int \<Rightarrow> fault + int \<times> array" where
  "ensureCapacity mem array capacity =
     (let oldCapacity = arr_capacity array
      in if capacity > oldCapacity then
           if capacity > MAX_CAPACITY then Inr (-1, array)
           else bindE (grow_capacity (if oldCapacity = 0 then INITIAL_CAPACITY else oldCapacity) capacity) (\<lambda>newCapacity.
             if newCapacity < 0 \<or> newCapacity > MAX_CAPACITY then Inr (-1, array)
             else case mem of
                 None \<Rightarrow> Inr (-1, array)
               | Some m \<Rightarrow>
                   let old = (case arr_contents array of None \<Rightarrow> [] | Some c \<Rightarrow> c);
                       new = take (nat newCapacity) (old @ map m [length old..<nat newCapacity])
                   in Inr (0, array\<lparr>arr_capacity := newCapacity, arr_contents := Some new\<rparr>))
         else Inr (0, array))"

text \<open>A cell of the array: outside it lies other memory.\<close>

definition get_cell :: "array \<Rightarrow> int \<Rightarrow> fault + pointer" where
  "get_cell array i =
     (case arr_contents array of
        None \<Rightarrow> Inl Uninitialised
      | Some c \<Rightarrow> if 0 \<le> i \<and> nat i < length c then Inr (c ! nat i) else Inl Uninitialised)"

definition set_cell :: "array \<Rightarrow> int \<Rightarrow> pointer \<Rightarrow> fault + array" where
  "set_cell array i p =
     (case arr_contents array of
        None \<Rightarrow> Inl BufferOverflow
      | Some c \<Rightarrow> if 0 \<le> i \<and> nat i < length c then Inr (array\<lparr>arr_contents := Some (c[nat i := p])\<rparr>) else Inl BufferOverflow)"

definition arrayAdd :: "(nat \<Rightarrow> pointer) option \<Rightarrow> array \<Rightarrow> pointer \<Rightarrow> fault + int \<times> array" where
  "arrayAdd mem array pointer =
     (let s = arr_size array
      in bindE (ensureCapacity mem array (s + 1)) (\<lambda>(result, array).
           if result < 0 then Inr (result, array)
           else bindE (set_cell array s pointer) (\<lambda>array. Inr (0, array\<lparr>arr_size := arr_size array + 1\<rparr>))))"

definition checkBounds :: "array \<Rightarrow> int \<Rightarrow> fault + unit" where
  "checkBounds array index = (if index < arr_size array \<and> index \<ge> 0 then Inr () else Inl Panic)"

definition arrayGet :: "array \<Rightarrow> int \<Rightarrow> fault + pointer" where
  "arrayGet array index = bindE (checkBounds array index) (\<lambda>_. get_cell array index)"

definition move_left :: "pointer list \<Rightarrow> nat \<Rightarrow> nat \<Rightarrow> pointer list" where
  "move_left c index count = take index c @ take count (drop (index + 1) c) @ drop (index + count) c"

definition arrayRemove :: "array \<Rightarrow> int \<Rightarrow> fault + pointer \<times> array" where
  "arrayRemove array index =
     bindE (checkBounds array index) (\<lambda>_. bindE (get_cell array index) (\<lambda>pointer.
       let newSize = arr_size array - 1;
           array = (if index \<noteq> newSize
                    then array\<lparr>arr_contents := map_option (\<lambda>c. move_left c (nat index) (nat (newSize - index))) (arr_contents array)\<rparr>
                    else array)
       in Inr (pointer, array\<lparr>arr_size := newSize\<rparr>)))"

definition arraySet :: "array \<Rightarrow> int \<Rightarrow> pointer \<Rightarrow> fault + pointer \<times> array" where
  "arraySet array index pointer =
     bindE (checkBounds array index) (\<lambda>_. bindE (get_cell array index) (\<lambda>old.
       bindE (set_cell array index pointer) (\<lambda>array. Inr (old, array))))"

text \<open>\<open>memset (array->contents + first, 0, count * sizeof(void*))\<close>.\<close>

definition zero_cells :: "array \<Rightarrow> int \<Rightarrow> int \<Rightarrow> fault + array" where
  "zero_cells array first count =
     (case arr_contents array of
        None \<Rightarrow> Inl BufferOverflow
      | Some c \<Rightarrow>
          if nat (first + count) \<le> length c
          then Inr (array\<lparr>arr_contents := Some (take (nat first) c @ replicate (nat count) 0 @ drop (nat (first + count)) c)\<rparr>)
          else Inl BufferOverflow)"

text \<open>The offset of the \<open>memset\<close> is scaled twice: by \<open>sizeof(void*)\<close> and as a \<open>void**\<close>.\<close>

definition arraySetSize :: "(nat \<Rightarrow> pointer) option \<Rightarrow> array \<Rightarrow> int \<Rightarrow> fault + int \<times> array" where
  "arraySetSize mem array newSize =
     (if newSize < 0 then Inl Panic
      else
        let oldSize = arr_size array
        in if newSize > oldSize then
             bindE (ensureCapacity mem array newSize) (\<lambda>(result, array).
               if result < 0 then Inr (result, array)
               else bindE (zero_cells array (8 * oldSize) (newSize - oldSize)) (\<lambda>array. Inr (0, array\<lparr>arr_size := newSize\<rparr>)))
           else Inr (0, array\<lparr>arr_size := newSize\<rparr>))"

definition arraySize :: "array \<Rightarrow> int" where
  "arraySize array = arr_size array"

definition arrayUnwrap :: "array \<Rightarrow> pointer list option" where
  "arrayUnwrap array = arr_contents array"

section \<open>The invariant and growth\<close>

definition arr_cells :: "array \<Rightarrow> pointer list" where
  "arr_cells array = (case arr_contents array of None \<Rightarrow> [] | Some c \<Rightarrow> c)"

definition array_ok :: "array \<Rightarrow> bool" where
  "array_ok array \<longleftrightarrow> 0 \<le> arr_size array \<and> arr_size array \<le> arr_capacity array \<and>
     arr_capacity array \<le> MAX_CAPACITY \<and> int (length (arr_cells array)) = arr_capacity array"

definition arr_list :: "array \<Rightarrow> pointer list" where
  "arr_list array = take (nat (arr_size array)) (arr_cells array)"

lemma max_capacity: "MAX_CAPACITY = 536870911"
  by (simp add: MAX_CAPACITY_def)

lemma length_arr_list: "array_ok a \<Longrightarrow> int (length (arr_list a)) = arr_size a"
  by (auto simp: array_ok_def arr_list_def)

text \<open>Doubling ends at a capacity that suffices, and no product leaves 32 bits.\<close>

lemma grow_capacity_result:
  assumes "0 < n" "n \<le> MAX_CAPACITY" "c \<le> MAX_CAPACITY"
  shows "\<exists>m. grow_capacity n c = Inr m \<and> n \<le> m \<and> c \<le> m \<and> m \<le> MAX_CAPACITY"
  using assms
proof (induction n c rule: grow_capacity.induct)
  case (1 n c)
  then show ?case
    by (subst grow_capacity.simps) (fastforce simp: Let_def max_capacity)
qed

lemma ensure_capacity_result:
  assumes "array_ok a"
  obtains "ensureCapacity mem a c = Inr (-1, a)" "mem = None \<or> MAX_CAPACITY < c" "arr_capacity a < c"
    | a' where "ensureCapacity mem a c = Inr (0, a')" "array_ok a'" "c \<le> arr_capacity a'"
        "arr_size a' = arr_size a" "arr_list a' = arr_list a" "arr_capacity a \<le> arr_capacity a'"
        "arr_capacity a < c \<longrightarrow> mem \<noteq> None \<and> arr_cells a' = arr_cells a @ map (the mem) [length (arr_cells a)..<nat (arr_capacity a')]"
        "c \<le> arr_capacity a \<longrightarrow> a' = a"
proof (cases "arr_capacity a < c")
  case False
  then show ?thesis
    using that(2) [of a] assms by (simp add: ensureCapacity_def)
next
  case True
  let ?n = "if arr_capacity a = 0 then INITIAL_CAPACITY else arr_capacity a"
  have n: "0 < ?n" "?n \<le> MAX_CAPACITY"
    using assms by (auto simp: array_ok_def INITIAL_CAPACITY_def max_capacity)
  show ?thesis
  proof (cases "MAX_CAPACITY < c \<or> mem = None")
    case refuse: True
    have "MAX_CAPACITY < c \<or> (\<exists>m. grow_capacity ?n c = Inr m)"
      using grow_capacity_result [of ?n c] n not_le by blast
    then have "ensureCapacity mem a c = Inr (-1, a)"
      using refuse True by (auto simp: ensureCapacity_def Let_def)
    then show ?thesis
      using that(1) refuse True by blast
  next
    case False
    then obtain f where f: "mem = Some f" "c \<le> MAX_CAPACITY"
      by auto
    obtain m where m: "grow_capacity ?n c = Inr m" "?n \<le> m" "c \<le> m" "m \<le> MAX_CAPACITY"
      using grow_capacity_result [of ?n c] n f by blast
    have pos: "0 \<le> arr_capacity a"
      using assms by (auto simp: array_ok_def)
    let ?new = "arr_cells a @ map f [length (arr_cells a)..<nat m]"
    let ?a = "a\<lparr>arr_capacity := m, arr_contents := Some ?new\<rparr>"
    have len: "length (arr_cells a) \<le> nat m"
      using assms m(2) pos by (auto simp: array_ok_def INITIAL_CAPACITY_def split: if_splits)
    have "ensureCapacity mem a c = Inr (0, ?a)"
      using True f m pos len by (auto simp: ensureCapacity_def Let_def arr_cells_def split: option.splits)
    moreover have "array_ok ?a" "arr_list ?a = arr_list a"
      using assms m len pos by (auto simp: array_ok_def arr_list_def arr_cells_def INITIAL_CAPACITY_def split: if_splits)
    ultimately show ?thesis
      using that(2) [of ?a] m True f pos by (auto simp: arr_cells_def INITIAL_CAPACITY_def split: if_splits)
  qed
qed

section \<open>The operations on the list\<close>

text \<open>Below its size an array that is well formed has its cells, and they are those of the list.\<close>

lemma array_cell:
  assumes "array_ok a" "0 \<le> i" "i < arr_size a"
  obtains c where "arr_contents a = Some c" "nat i < length c" "int (length c) = arr_capacity a" "c ! nat i = arr_list a ! nat i"
proof (cases "arr_contents a")
  case None
  then show ?thesis
    using assms by (simp add: array_ok_def arr_cells_def)
next
  case (Some c)
  then show ?thesis
    using that [of c] assms by (auto simp: array_ok_def arr_cells_def arr_list_def)
qed

lemma arrayGet_list:
  assumes "array_ok a"
  shows "arrayGet a i = (if 0 \<le> i \<and> i < int (length (arr_list a)) then Inr (arr_list a ! nat i) else Inl Panic)"
proof (cases "0 \<le> i \<and> i < arr_size a")
  case True
  then obtain c where "arr_contents a = Some c" "nat i < length c" "c ! nat i = arr_list a ! nat i"
    using array_cell [OF assms] by metis
  then show ?thesis
    using True length_arr_list [OF assms] by (simp add: arrayGet_def checkBounds_def get_cell_def)
next
  case False
  then show ?thesis
    using length_arr_list [OF assms] by (auto simp: arrayGet_def checkBounds_def)
qed

lemma arraySet_list:
  assumes "array_ok a" "0 \<le> i" "i < arr_size a"
  obtains a' where "arraySet a i p = Inr (arr_list a ! nat i, a')" "array_ok a'"
    "arr_list a' = (arr_list a)[nat i := p]" "arr_size a' = arr_size a" "arr_capacity a' = arr_capacity a"
proof -
  obtain c where c: "arr_contents a = Some c" "nat i < length c" "int (length c) = arr_capacity a"
    "c ! nat i = arr_list a ! nat i"
    using array_cell [OF assms] .
  let ?a = "a\<lparr>arr_contents := Some (c[nat i := p])\<rparr>"
  have "arraySet a i p = Inr (arr_list a ! nat i, ?a)"
    using c assms(2,3) by (simp add: arraySet_def checkBounds_def get_cell_def set_cell_def)
  moreover have "array_ok ?a" "arr_list ?a = (arr_list a)[nat i := p]"
    using c(1) assms(1) by (simp_all add: array_ok_def arr_list_def arr_cells_def take_update_swap)
  ultimately show ?thesis
    using that [of ?a] by simp
qed

lemma move_left_remove:
  assumes "n < length c" "i < Suc n"
  shows "take n (move_left c i (n - i)) = take i c @ drop (Suc i) (take (Suc n) c)"
    "length (move_left c i (n - i)) = length c"
proof -
  have "n = i + (n - i)" "i < length c"
    using assms by simp_all
  moreover have "take (n - i) (drop (Suc i) c) = drop (Suc i) (take (Suc n) c)"
    using assms by (simp add: take_drop)
  ultimately show "take n (move_left c i (n - i)) = take i c @ drop (Suc i) (take (Suc n) c)"
    using assms by (simp add: move_left_def)
  show "length (move_left c i (n - i)) = length c"
    using assms by (simp add: move_left_def)
qed

lemma arrayRemove_list:
  assumes "array_ok a" "0 \<le> i" "i < arr_size a"
  obtains a' where "arrayRemove a i = Inr (arr_list a ! nat i, a')" "array_ok a'"
    "arr_list a' = take (nat i) (arr_list a) @ drop (Suc (nat i)) (arr_list a)"
    "arr_size a' = arr_size a - 1" "arr_capacity a' = arr_capacity a"
proof -
  obtain c where c: "arr_contents a = Some c" "nat i < length c" "int (length c) = arr_capacity a"
    "c ! nat i = arr_list a ! nat i"
    using array_cell [OF assms] .
  define n where "n = nat (arr_size a - 1)"
  have n: "arr_size a = int (Suc n)" "nat i < Suc n" "nat (arr_size a - 1 - i) = n - nat i" "n < length c"
    using assms c by (auto simp: n_def array_ok_def)
  have m: "length (move_left c (nat i) (n - nat i)) = length c"
    "take n (move_left c (nat i) (n - nat i)) = take (nat i) c @ drop (Suc (nat i)) (take (Suc n) c)"
    by (rule move_left_remove [OF n(4,2)])+
  let ?a = "if i \<noteq> arr_size a - 1 then a\<lparr>arr_contents := Some (move_left c (nat i) (n - nat i)), arr_size := arr_size a - 1\<rparr>
    else a\<lparr>arr_size := arr_size a - 1\<rparr>"
  have "arrayRemove a i = Inr (arr_list a ! nat i, ?a)"
    using assms c n by (auto simp: arrayRemove_def checkBounds_def get_cell_def Let_def)
  moreover have "array_ok ?a" "arr_size ?a = arr_size a - 1" "arr_capacity ?a = arr_capacity a"
    using assms c n m by (auto simp: array_ok_def arr_cells_def)
  moreover have "arr_list ?a = take (nat i) (arr_list a) @ drop (Suc (nat i)) (arr_list a)"
  proof (cases "i = arr_size a - 1")
    case True
    then show ?thesis
      using c n by (simp add: arr_list_def arr_cells_def nat_add_distrib)
  next
    case False
    then show ?thesis
      using c(1) n m(2) by (simp add: arr_list_def arr_cells_def nat_add_distrib min_absorb1)
  qed
  ultimately show ?thesis
    using that [of ?a] by blast
qed

lemma arrayAdd_list:
  assumes "array_ok a"
  obtains "arrayAdd mem a p = Inr (-1, a)" "mem = None \<or> arr_size a = MAX_CAPACITY"
    | a' where "arrayAdd mem a p = Inr (0, a')" "array_ok a'" "arr_list a' = arr_list a @ [p]" "arr_size a' = arr_size a + 1"
proof (cases rule: ensure_capacity_result [OF assms, of mem "arr_size a + 1"])
  case 1
  then show ?thesis
    using that(1) assms by (auto simp: arrayAdd_def array_ok_def Let_def)
next
  case (2 b)
  then obtain c where c: "arr_contents b = Some c" "int (length c) = arr_capacity b"
    using assms by (cases "arr_contents b") (auto simp: array_ok_def arr_cells_def)
  let ?n = "nat (arr_size a)"
  let ?a = "b\<lparr>arr_contents := Some (c[?n := p]), arr_size := arr_size a + 1\<rparr>"
  have n: "?n < length c" "0 \<le> arr_size a"
    using 2 c assms by (auto simp: array_ok_def)
  have "arrayAdd mem a p = Inr (0, ?a)"
    using 2 c n by (simp add: arrayAdd_def set_cell_def Let_def)
  moreover have "array_ok ?a"
    using 2 c n by (auto simp: array_ok_def arr_cells_def)
  moreover have "arr_list ?a = take ?n c @ [p]"
    using n by (simp add: arr_list_def arr_cells_def nat_add_distrib take_Suc_conv_app_nth)
  moreover have "take ?n c = arr_list a"
    using 2 c by (simp add: arr_list_def arr_cells_def)
  ultimately show ?thesis
    using that(2) [of ?a] by simp
qed

lemma array_create_ok: "array_ok arrayCreate" "arr_list arrayCreate = []"
  by (simp_all add: array_ok_def arrayCreate_def arr_list_def arr_cells_def max_capacity)

section \<open>A history of operations\<close>

datatype array_op = Add pointer | Get int | Set int pointer | Remove int

datatype array_out = Status int | Pointer pointer

definition array_step :: "(nat \<Rightarrow> pointer) option \<Rightarrow> array_op \<Rightarrow> array \<Rightarrow> fault + array_out \<times> array" where
  "array_step mem op a =
     (case op of
        Add p \<Rightarrow> bindE (arrayAdd mem a p) (\<lambda>(r, a). Inr (Status r, a))
      | Get i \<Rightarrow> bindE (arrayGet a i) (\<lambda>p. Inr (Pointer p, a))
      | Set i p \<Rightarrow> bindE (arraySet a i p) (\<lambda>(old, a). Inr (Pointer old, a))
      | Remove i \<Rightarrow> bindE (arrayRemove a i) (\<lambda>(old, a). Inr (Pointer old, a)))"

text \<open>The same operation on a list.\<close>

definition list_step :: "array_op \<Rightarrow> pointer list \<Rightarrow> fault + array_out \<times> pointer list" where
  "list_step op xs =
     (let legal = (\<lambda>i. 0 \<le> i \<and> i < int (length xs))
      in case op of
           Add p \<Rightarrow> Inr (Status 0, xs @ [p])
         | Get i \<Rightarrow> if legal i then Inr (Pointer (xs ! nat i), xs) else Inl Panic
         | Set i p \<Rightarrow> if legal i then Inr (Pointer (xs ! nat i), xs[nat i := p]) else Inl Panic
         | Remove i \<Rightarrow> if legal i then Inr (Pointer (xs ! nat i), take (nat i) xs @ drop (Suc (nat i)) xs) else Inl Panic)"

fun run_ops :: "('op \<Rightarrow> 's \<Rightarrow> fault + 'out \<times> 's) \<Rightarrow> 'op list \<Rightarrow> 's \<Rightarrow> fault + 'out list \<times> 's" where
  "run_ops step [] s = Inr ([], s)"
| "run_ops step (op # ops) s =
     bindE (step op s) (\<lambda>(out, s). bindE (run_ops step ops s) (\<lambda>(outs, s). Inr (out # outs, s)))"

section \<open>Properties\<close>

lemma array_step_list:
  assumes "array_ok a" "arr_size a < MAX_CAPACITY"
  shows "case list_step op (arr_list a) of
      Inl f \<Rightarrow> array_step (Some m) op a = Inl f
    | Inr (out, xs) \<Rightarrow> \<exists>a'. array_step (Some m) op a = Inr (out, a') \<and> array_ok a' \<and> arr_list a' = xs \<and>
        arr_size a' \<le> arr_size a + 1"
proof (cases op)
  case (Add p)
  then show ?thesis
    using assms(2) by (cases rule: arrayAdd_list [OF assms(1), of "Some m" p]) (auto simp: list_step_def array_step_def)
next
  case (Get i)
  then show ?thesis
    using assms(1) by (auto simp: list_step_def array_step_def arrayGet_list)
next
  case (Set i p)
  show ?thesis
  proof (cases "0 \<le> i \<and> i < arr_size a")
    case True
    then obtain a' where "arraySet a i p = Inr (arr_list a ! nat i, a')" "array_ok a'"
      "arr_list a' = (arr_list a)[nat i := p]" "arr_size a' = arr_size a"
      using arraySet_list [OF assms(1)] by metis
    then show ?thesis
      using True Set length_arr_list [OF assms(1)] by (simp add: list_step_def array_step_def)
  next
    case False
    then show ?thesis
      using Set length_arr_list [OF assms(1)] by (auto simp: list_step_def array_step_def arraySet_def checkBounds_def)
  qed
next
  case (Remove i)
  show ?thesis
  proof (cases "0 \<le> i \<and> i < arr_size a")
    case True
    then obtain a' where "arrayRemove a i = Inr (arr_list a ! nat i, a')" "array_ok a'"
      "arr_list a' = take (nat i) (arr_list a) @ drop (Suc (nat i)) (arr_list a)" "arr_size a' = arr_size a - 1"
      using arrayRemove_list [OF assms(1)] by metis
    then show ?thesis
      using True Remove length_arr_list [OF assms(1)] by (simp add: list_step_def array_step_def)
  next
    case False
    then show ?thesis
      using Remove length_arr_list [OF assms(1)] by (auto simp: list_step_def array_step_def arrayRemove_def checkBounds_def)
  qed
qed

lemma array_run_list:
  assumes "array_ok a" "arr_size a + int (length ops) \<le> MAX_CAPACITY"
  shows "map_sum id fst (run_ops (array_step (Some m)) ops a) = map_sum id fst (run_ops list_step ops (arr_list a))"
  using assms
proof (induction ops arbitrary: a)
  case (Cons op ops)
  have "arr_size a < MAX_CAPACITY"
    using Cons.prems by simp
  note step = array_step_list [OF Cons.prems(1) this, where op = op and m = m]
  show ?case
  proof (cases "list_step op (arr_list a)")
    case (Inl f)
    then show ?thesis
      using step by simp
  next
    case (Inr x)
    then obtain out a' where a': "list_step op (arr_list a) = Inr (out, arr_list a')"
      "array_step (Some m) op a = Inr (out, a')" "array_ok a'" "arr_size a' \<le> arr_size a + 1"
      using step by (cases x) auto
    have "map_sum id fst (run_ops (array_step (Some m)) ops a') = map_sum id fst (run_ops list_step ops (arr_list a'))"
      by (rule Cons.IH) (use Cons.prems a' in auto)
    then show ?thesis
      using a' by (cases "run_ops (array_step (Some m)) ops a'"; cases "run_ops list_step ops (arr_list a')") auto
  qed
qed simp

text \<open>C28: As long as the allocator answers, an array is a list: whatever is added, read, set and
  removed, in any order, every result is that of the list, an index out of bounds stops both, and the
  capacity loop ends. The bound on the history is the one at which \<open>arrayAdd\<close> starts to refuse.\<close>

theorem array_refines_list:
  assumes "length ops \<le> nat MAX_CAPACITY"
  shows "map_sum id fst (run_ops (array_step (Some m)) ops arrayCreate) = map_sum id fst (run_ops list_step ops [])"
  using array_run_list [of arrayCreate ops m] assms array_create_ok by (simp add: arrayCreate_def max_capacity)

lemma array_refines_list_witness:
  "map_sum id fst (run_ops (array_step (Some id)) [Add 7, Add 8, Add 9, Add 5, Add 6, Remove 1, Get 1, Set 3 4, Get 3] arrayCreate) =
    Inr [Status 0, Status 0, Status 0, Status 0, Status 0, Pointer 8, Pointer 9, Pointer 6, Pointer 4]"
  by (subst array_refines_list) (simp_all add: list_step_def max_capacity)

text \<open>\<open>arraySetSize\<close> says that it sets new pointers to NULL. It clears the cells from eight times
  the old size on: growing an array that is not empty leaves the new entries as the allocator left them,
  unless the new size is beyond that offset, and when the offset and the count pass the capacity it
  writes zeros behind the array. Growing an empty array and shrinking are right.\<close>

theorem array_set_size_spec:
  assumes "array_ok a" "arr_size a < newSize" "newSize \<le> MAX_CAPACITY"
  shows "arraySetSize (Some m) a newSize =
      (case ensureCapacity (Some m) a newSize of
         Inl f \<Rightarrow> Inl f
       | Inr (r, b) \<Rightarrow>
           if arr_capacity b < 7 * arr_size a + newSize then Inl BufferOverflow
           else Inr (0, b\<lparr>arr_size := newSize,
             arr_contents := Some (take (nat (8 * arr_size a)) (arr_cells b) @ replicate (nat (newSize - arr_size a)) 0 @
               drop (nat (7 * arr_size a + newSize)) (arr_cells b))\<rparr>))"
proof (cases rule: ensure_capacity_result [OF assms(1), of "Some m" newSize])
  case 1
  then show ?thesis
    using assms(3) by simp
next
  case (2 b)
  then obtain c where c: "arr_contents b = Some c" "int (length c) = arr_capacity b"
    using assms by (cases "arr_contents b") (auto simp: array_ok_def arr_cells_def)
  have "0 \<le> arr_size a" "8 * arr_size a + (newSize - arr_size a) = 7 * arr_size a + newSize"
    using assms(1) by (simp_all add: array_ok_def)
  then show ?thesis
    using 2(1) c assms(2) by (auto simp: arraySetSize_def zero_cells_def Let_def arr_cells_def)
qed

lemma array_set_size_spec_witness:
  "arraySetSize (Some id) \<lparr>arr_contents = Some [5, 0, 0, 0], arr_size = 1, arr_capacity = 4\<rparr> 2 = Inl BufferOverflow"
  by (subst array_set_size_spec) (simp_all add: array_ok_def arr_cells_def max_capacity ensureCapacity_def)

end
