(* ===== verification/Utf_Convert.thy ===== *)
theory Utf_Convert
  imports Prelude
begin

text \<open>
  The conversions between UTF-16 and Java's modified UTF-8 of \<open>libs/libcutils/strdup8to16.c\<close> and
  \<open>strdup16to8.c\<close>. A string is read from the memory behind its pointer: a list of bytes, in which a C
  string ends at its NUL; reading past the list is a fault. A destination has room for so many elements;
  writing more is a fault. A \<open>char16_t\<close> is a word of 16 bits, \<open>size_t\<close> has 64.
\<close>

section \<open>Bits as arithmetic\<close>

lemma and_field: "(x::int) AND (2 ^ k * (2 ^ w - 1)) = 2 ^ k * (x div 2 ^ k mod 2 ^ w)"
proof -
  have "x AND push_bit k (mask w) = push_bit k (take_bit w (drop_bit k x))"
    by (auto intro!: bit_eqI simp: bit_simps)
  then show ?thesis
    by (simp add: push_bit_eq_mult take_bit_eq_mod drop_bit_eq_div mask_eq_exp_minus_1 mult.commute)
qed

lemma or_field:
  assumes "0 \<le> (x::int)" "x < 2 ^ k"
  shows "x OR (2 ^ k * m) = x + 2 ^ k * m"
proof -
  have "take_bit k x AND push_bit k m = 0"
    by (rule bit_eqI) (simp add: bit_simps)
  then have "take_bit k x OR push_bit k m = take_bit k x + push_bit k m"
    by (rule disjunctive_add_eq_or [symmetric])
  moreover have "take_bit k x = x"
    using assms by (simp add: take_bit_eq_mod)
  ultimately show ?thesis
    by (simp add: push_bit_eq_mult mult.commute)
qed

lemmas byte_fields = and_field [of _ 6 2, simplified] and_field [of _ 0 6, simplified]
  and_field [of _ 0 5, simplified] and_field [of _ 0 4, simplified] and_field [of _ 0 3, simplified]
  and_field [of _ 0 8, simplified]
  or_field [of _ 7 1, simplified] or_field [of _ 6 3, simplified] or_field [of _ 5 7, simplified]

section \<open>UTF-8 to UTF-16\<close>

definition UTF16_REPLACEMENT_CHAR :: int where "UTF16_REPLACEMENT_CHAR = 0xfffd"

definition UNICODE_UPPER_LIMIT :: int where "UNICODE_UPPER_LIMIT = 0x10fffd"

definition UTF8_SEQ_LENGTH :: "int \<Rightarrow> int" where
  "UTF8_SEQ_LENGTH ch = (drop_bit (nat (drop_bit 3 ch AND 0x1e)) 0xe5000000 AND 3) + 1"

definition is_extension :: "char \<Rightarrow> bool" where
  "is_extension c \<longleftrightarrow> byte_val c AND 0xc0 = 0x80"

fun strlen8to16_loop :: "int \<Rightarrow> nat \<Rightarrow> bytes \<Rightarrow> fault + nat" where
  "strlen8to16_loop expected len [] = Inl Uninitialised"
| "strlen8to16_loop expected len (ic # utf8Str) =
     (if ic = NUL then Inr len
      else if is_extension ic then
        let expected = expected - 1
        in strlen8to16_loop expected (if expected < 0 then len + 1 else len) utf8Str
      else
        let expected = UTF8_SEQ_LENGTH (byte_val ic) - 1
        in strlen8to16_loop expected (if expected = 3 then len + 2 else len + 1) utf8Str)"

definition strlen8to16 :: "bytes \<Rightarrow> fault + nat" where
  "strlen8to16 utf8Str = strlen8to16_loop 0 0 utf8Str"

text \<open>The extension bytes of one character: the loop over \<open>i\<close>.\<close>

fun getUtf32_rest :: "nat \<Rightarrow> int \<Rightarrow> bytes \<Rightarrow> fault + int \<times> bytes" where
  "getUtf32_rest 0 ret p = Inr (ret, p)"
| "getUtf32_rest (Suc n) ret [] = Inl Uninitialised"
| "getUtf32_rest (Suc n) ret (c # p) =
     (if c = NUL then Inr (UTF16_REPLACEMENT_CHAR, c # p)
      else if \<not> is_extension c then Inr (UTF16_REPLACEMENT_CHAR, c # p)
      else getUtf32_rest n (ret * 64 OR (0x3f AND byte_val c)) p)"

definition leaderMask :: "int list" where "leaderMask = [0xff, 0x1f, 0x0f, 0x07]"

text \<open>The result is the character and where the next one starts.\<close>

fun getUtf32FromUtf8 :: "bytes \<Rightarrow> fault + int \<times> bytes" where
  "getUtf32FromUtf8 [] = Inl Uninitialised"
| "getUtf32FromUtf8 (c # p) =
     (if is_extension c then Inr (UTF16_REPLACEMENT_CHAR, p)
      else
        let seq_len = UTF8_SEQ_LENGTH (byte_val c); ret = byte_val c AND leaderMask ! nat (seq_len - 1)
        in if c = NUL then Inr (ret, c # p)
           else getUtf32_rest (nat (seq_len - 1)) ret p)"

type_synonym char16 = "16 word"

definition utf16_units :: "int \<Rightarrow> char16 list" where
  "utf16_units ret =
     (if ret \<le> 0xffff then [word_of_int ret]
      else if ret \<le> UNICODE_UPPER_LIMIT then
        [word_of_int (0xd800 OR drop_bit 10 (ret - 0x10000)), word_of_int (0xdc00 OR ((ret - 0x10000) AND 0x3ff))]
      else [word_of_int UTF16_REPLACEMENT_CHAR])"

lemma getUtf32_rest_shorter: "getUtf32_rest n ret p = Inr (r, q) \<Longrightarrow> length q \<le> length p"
  by (induction n ret p rule: getUtf32_rest.induct) (auto split: if_splits)

lemma getUtf32_shorter:
  assumes "getUtf32FromUtf8 (c # p) = Inr (r, q)" "c \<noteq> NUL"
  shows "length q \<le> length p"
  using assms by (auto simp: Let_def split: if_splits dest: getUtf32_rest_shorter)

text \<open>\<open>room\<close> is what is left of the destination; the units come with their number in \<open>*out_len\<close>.\<close>

function strcpy8to16 :: "nat \<Rightarrow> bytes \<Rightarrow> fault + char16 list" where
  "strcpy8to16 room utf8Str =
     (case utf8Str of
        [] \<Rightarrow> Inl Uninitialised
      | c # p \<Rightarrow>
          if c = NUL then Inr []
          else bindE (getUtf32FromUtf8 utf8Str) (\<lambda>(ret, next_char).
            let us = utf16_units ret
            in if room < length us then Inl BufferOverflow
               else bindE (strcpy8to16 (room - length us) next_char) (\<lambda>vs. Inr (us @ vs))))"
  by auto
termination
  by (relation "measure (\<lambda>(room, s). length s)") (auto dest!: getUtf32_shorter simp del: getUtf32FromUtf8.simps)

declare strcpy8to16.simps [simp del]

text \<open>Here the end is given by the length, and an inner NUL does not stop the loop; every turn of it
  writes, so it ends at the latest when the destination is full.\<close>

lemma utf16_units_room: "length (utf16_units ret) \<le> room \<Longrightarrow> room - length (utf16_units ret) < room"
  by (auto simp: utf16_units_def split: if_splits)

function strcpylen8to16 :: "nat \<Rightarrow> bytes \<Rightarrow> int \<Rightarrow> fault + char16 list" where
  "strcpylen8to16 room utf8Str length8 =
     (if 0 < length8
      then bindE (getUtf32FromUtf8 utf8Str) (\<lambda>(ret, next_char).
             let us = utf16_units ret
             in if room < length us then Inl BufferOverflow
                else bindE (strcpylen8to16 (room - length us) next_char
                  (length8 - (int (length utf8Str) - int (length next_char)))) (\<lambda>vs. Inr (us @ vs)))
      else Inr [])"
  by auto
termination
  by (relation "measure (\<lambda>(room, s, l). room)") (auto simp: not_less utf16_units_room)

declare strcpylen8to16.simps [simp del]

definition strdup8to16 :: "bool \<Rightarrow> bytes option \<Rightarrow> fault + char16 list option" where
  "strdup8to16 alloc s =
     (case s of
        None \<Rightarrow> Inr None
      | Some s \<Rightarrow> bindE (strlen8to16 s) (\<lambda>len.
          if len \<noteq> 0 \<and> (2 ^ 64 - 1) div len < 2 then Inr None
          else bindE (strcpy8to16 (if alloc then len else 0) s) (\<lambda>us. Inr (if alloc then Some us else None))))"

section \<open>UTF-16 to UTF-8\<close>

definition SIZE_MAX :: nat where "SIZE_MAX = 2 ^ 64 - 1"

definition utf8_width :: "char16 \<Rightarrow> nat" where
  "utf8_width u = (let uic = uint u in if uic > 0x07ff then 3 else if uic > 0x7f \<or> uic = 0 then 2 else 1)"

text \<open>The second loop detects that the sum of \<open>size_t\<close> wraps.\<close>

fun strnlen16to8_paranoid :: "nat \<Rightarrow> char16 list \<Rightarrow> nat" where
  "strnlen16to8_paranoid utf8Len [] = (if utf8Len = SIZE_MAX then SIZE_MAX - 1 else utf8Len)"
| "strnlen16to8_paranoid utf8Len (u # utf16Str) =
     (let utf8Cur = utf8Len; utf8Len = (utf8Len + utf8_width u) mod 2 ^ 64
      in if utf8Len < utf8Cur then SIZE_MAX - 1 else strnlen16to8_paranoid utf8Len utf16Str)"

definition strnlen16to8 :: "char16 list \<Rightarrow> nat" where
  "strnlen16to8 utf16Str =
     (if length utf16Str < (SIZE_MAX - 1) div 3 then fold (\<lambda>u n. n + utf8_width u) utf16Str 0
      else strnlen16to8_paranoid 0 utf16Str)"

text \<open>The bytes of one unit; the inner test for 0 is that of the source.\<close>

definition utf8_bytes :: "char16 \<Rightarrow> bytes" where
  "utf8_bytes u =
     (let uic = uint u
      in if uic > 0x07ff then
           [byte_of (drop_bit 12 uic OR 0xe0), byte_of ((drop_bit 6 uic AND 0x3f) OR 0x80), byte_of ((uic AND 0x3f) OR 0x80)]
         else if uic > 0x7f \<or> uic = 0 then [byte_of (drop_bit 6 uic OR 0xc0), byte_of ((uic AND 0x3f) OR 0x80)]
         else [byte_of uic])"

fun strncpy16to8 :: "nat \<Rightarrow> char16 list \<Rightarrow> fault + bytes" where
  "strncpy16to8 room [] = (if room < 1 then Inl BufferOverflow else Inr [NUL])"
| "strncpy16to8 room (u # utf16Str) =
     (if room < length (utf8_bytes u) then Inl BufferOverflow
      else bindE (strncpy16to8 (room - length (utf8_bytes u)) utf16Str) (\<lambda>bs. Inr (utf8_bytes u @ bs)))"

definition strndup16to8 :: "bool \<Rightarrow> char16 list option \<Rightarrow> fault + bytes option" where
  "strndup16to8 alloc s =
     (case s of
        None \<Rightarrow> Inr None
      | Some s \<Rightarrow>
          let len = strnlen16to8 s
          in if len \<ge> SIZE_MAX - 1 \<or> \<not> alloc then Inr None
             else bindE (strncpy16to8 (len + 1) s) (\<lambda>bs. Inr (Some bs)))"

section \<open>One character\<close>

declare strlen8to16_loop.simps [simp del] getUtf32FromUtf8.simps [simp del] getUtf32_rest.simps(2, 3) [simp del]

lemma is_extension_range: "is_extension c \<longleftrightarrow> 0x80 \<le> byte_val c \<and> byte_val c < 0xc0"
proof -
  define b where "b = byte_val c"
  have "0 \<le> b" "b < 256"
    by (simp_all add: b_def)
  then have "64 * (b div 64 mod 4) = 128 \<longleftrightarrow> 0x80 \<le> b \<and> b < 0xc0"
    by auto
  then show ?thesis
    by (simp add: is_extension_def byte_fields flip: b_def)
qed

lemma seq_length_range:
  assumes "0 \<le> b" "b < 256"
  shows "UTF8_SEQ_LENGTH b = (if b < 0xc0 then 1 else if b < 0xe0 then 2 else if b < 0xf0 then 3 else 4)"
proof -
  define h where "h = b div 16"
  have "drop_bit 3 b AND 0x1e = 2 * (b div 8 div 2 mod 16)"
    using and_field [of "drop_bit 3 b" 1 4] by (simp add: drop_bit_eq_div)
  also have "b div 8 div 2 mod 16 = h"
    using assms by (simp add: h_def flip: zdiv_zmult2_eq)
  finally have e: "drop_bit 3 b AND 0x1e = 2 * h" .
  have "(drop_bit (nat (2 * h)) 0xe5000000 AND 3) + 1 =
      (if h < 12 then 1 else if h < 14 then 2 else if h < 15 then 3 else (4 :: int))"
    if "h \<in> set [0..15]" for h :: int
  proof -
    have "\<forall>h\<in>set [0..15]. (drop_bit (nat (2 * h)) 0xe5000000 AND 3) + 1 =
      (if h < 12 then 1 else if h < 14 then 2 else if h < 15 then 3 else (4 :: int))"
      by code_simp
    then show ?thesis
      using that by blast
  qed
  moreover have "h \<in> set [0..15]" "b < 0xc0 \<longleftrightarrow> h < 12" "b < 0xe0 \<longleftrightarrow> h < 14" "b < 0xf0 \<longleftrightarrow> h < 15"
    using assms by (auto simp: h_def)
  ultimately show ?thesis
    unfolding UTF8_SEQ_LENGTH_def e by presburger
qed

lemma seq_length_byte [simp]:
  "UTF8_SEQ_LENGTH (byte_val c) =
    (if byte_val c < 0xc0 then 1 else if byte_val c < 0xe0 then 2 else if byte_val c < 0xf0 then 3 else 4)"
  by (rule seq_length_range) simp_all

lemma leader_mask_simps:
  "leaderMask ! 0 = 0xff" "leaderMask ! Suc 0 = 0x1f" "leaderMask ! 2 = 0x0f" "leaderMask ! 3 = 0x07"
  by (simp_all add: leaderMask_def)

lemma uint16_range: "0 \<le> uint u \<and> uint (u :: char16) < 65536"
  using uint_bounded [of u] by simp

lemma utf8_bytes_arith:
  "utf8_bytes u = (let v = uint u in
     if v > 0x07ff then [byte_of (0xe0 + v div 4096), byte_of (0x80 + v div 64 mod 64), byte_of (0x80 + v mod 64)]
     else if v > 0x7f \<or> v = 0 then [byte_of (0xc0 + v div 64), byte_of (0x80 + v mod 64)]
     else [byte_of v])"
proof -
  define v where "v = uint u"
  have v: "0 \<le> v" "v < 65536"
    using uint16_range by (auto simp: v_def)
  have "drop_bit 12 v OR 0xe0 = 0xe0 + v div 4096"
    using v byte_fields(9) [of "v div 4096"] by (simp add: drop_bit_eq_div pos_imp_zdiv_nonneg_iff)
  moreover have "(drop_bit 6 v AND 0x3f) OR 0x80 = 0x80 + v div 64 mod 64" "(v AND 0x3f) OR 0x80 = 0x80 + v mod 64"
    using byte_fields(7) [of "v div 64 mod 64"] byte_fields(7) [of "v mod 64"] pos_mod_bound [of 64 "v div 64"]
      pos_mod_bound [of 64 v] by (simp_all add: drop_bit_eq_div byte_fields(2))
  moreover have "drop_bit 6 v OR 0xc0 = 0xc0 + v div 64" if "\<not> 0x07ff < v"
    using v that byte_fields(8) [of "v div 64"] by (simp add: drop_bit_eq_div pos_imp_zdiv_nonneg_iff)
  ultimately show ?thesis
    unfolding utf8_bytes_def Let_def v_def [symmetric] by simp
qed

lemma length_utf8_bytes: "length (utf8_bytes u) = utf8_width u"
  by (simp add: utf8_bytes_def utf8_width_def Let_def)

lemma byte_val_of: "0 \<le> n \<Longrightarrow> n < 256 \<Longrightarrow> byte_val (byte_of n) = n"
  by (rule byte_of_val)

lemma byte_of_NUL: "0 \<le> n \<Longrightarrow> n < 256 \<Longrightarrow> byte_of n = NUL \<longleftrightarrow> n = 0"
proof -
  assume n: "0 \<le> n" "n < 256"
  have "byte_val NUL = 0"
    by simp
  then show ?thesis
    using byte_val_of [OF n] by (metis char_of_char)
qed

text \<open>An extension byte contributes its six bits.\<close>

lemma getUtf32_rest_extension:
  assumes "0 \<le> x" "x < 64" "0 \<le> ret"
  shows "getUtf32_rest (Suc n) ret (byte_of (0x80 + x) # p) = getUtf32_rest n (ret * 64 + x) p"
proof -
  have b: "byte_val (byte_of (0x80 + x)) = 0x80 + x"
    by (rule byte_val_of) (use assms in auto)
  have "0x3f AND (0x80 + x) = x"
    using assms by (simp add: and.commute [of 63] byte_fields mod_add_eq [of 128 64 x, symmetric])
  moreover have "ret * 64 OR x = ret * 64 + x"
    using or_field [of x 6 ret] assms by (simp add: or.commute [of "ret * 64"] mult.commute add.commute)
  moreover have "byte_of (0x80 + x) \<noteq> NUL"
    using byte_of_NUL [of "0x80 + x"] assms by simp
  ultimately show ?thesis
    using assms b by (simp add: getUtf32_rest.simps(3) is_extension_range)
qed

text \<open>Decoding the bytes of a unit gives the unit, whatever follows.\<close>

lemma getUtf32_leader:
  assumes "0xc0 \<le> b" "b < 256"
  shows "getUtf32FromUtf8 (byte_of b # p) =
    getUtf32_rest (if b < 0xe0 then 1 else if b < 0xf0 then 2 else 3)
      (if b < 0xe0 then b mod 32 else if b < 0xf0 then b mod 16 else b mod 8) p"
proof -
  have "byte_val (byte_of b) = b" "byte_of b \<noteq> NUL"
    using byte_val_of [of b] byte_of_NUL [of b] assms by simp_all
  then show ?thesis
    using assms by (simp add: getUtf32FromUtf8.simps is_extension_range leader_mask_simps byte_fields seq_length_range Let_def)
qed

lemma getUtf32_encoded: "getUtf32FromUtf8 (utf8_bytes u @ p) = Inr (uint u, p)"
proof -
  define v where "v = uint u"
  have v: "0 \<le> v" "v < 65536"
    using uint16_range by (auto simp: v_def)
  consider "0x07ff < v" | "v \<le> 0x07ff" "0x7f < v \<or> v = 0" | "0 < v" "v \<le> 0x7f"
    using v by linarith
  then show ?thesis
  proof cases
    case 1
    define a b c where "a = v div 4096" and "b = v div 64 mod 64" and "c = v mod 64"
    have r: "0 \<le> a" "a < 16" "0 \<le> b" "b < 64" "0 \<le> c" "c < 64"
      using v by (auto simp: a_def b_def c_def pos_imp_zdiv_nonneg_iff)
    have "v = (a * 64 + b) * 64 + c"
    proof -
      have "v div 64 div 64 = v div 4096"
        by (simp flip: zdiv_zmult2_eq)
      then have "v div 64 = v div 4096 * 64 + v div 64 mod 64"
        using div_mult_mod_eq [of "v div 64" 64] by metis
      then show ?thesis
        using div_mult_mod_eq [of v 64] unfolding a_def b_def c_def by metis
    qed
    moreover have "utf8_bytes u = [byte_of (0xe0 + a), byte_of (0x80 + b), byte_of (0x80 + c)]"
      using 1 by (simp add: utf8_bytes_arith a_def b_def c_def flip: v_def)
    moreover have "(0xe0 + a) mod 16 = a"
      using r by (simp add: mod_add_eq [of 224 16 a, symmetric])
    ultimately show ?thesis
      using r by (simp add: getUtf32_leader getUtf32_rest_extension numeral_2_eq_2 flip: v_def)
  next
    case 2
    define a c where "a = v div 64" and "c = v mod 64"
    have r: "0 \<le> a" "a < 32" "0 \<le> c" "c < 64"
      using v 2 by (auto simp: a_def c_def pos_imp_zdiv_nonneg_iff)
    have "v = a * 64 + c"
      unfolding a_def c_def by presburger
    moreover have "utf8_bytes u = [byte_of (0xc0 + a), byte_of (0x80 + c)]"
      using 2 by (auto simp: utf8_bytes_arith a_def c_def simp flip: v_def)
    moreover have "(0xc0 + a) mod 32 = a"
      using r by (simp add: mod_add_eq [of 192 32 a, symmetric])
    ultimately show ?thesis
      using r by (simp add: getUtf32_leader getUtf32_rest_extension flip: v_def)
  next
    case 3
    have "byte_val (byte_of v) = v" "byte_of v \<noteq> NUL"
      using byte_val_of [of v] byte_of_NUL [of v] 3 by simp_all
    moreover have "utf8_bytes u = [byte_of v]"
      using 3 by (auto simp: utf8_bytes_arith simp flip: v_def)
    ultimately show ?thesis
      using 3 by (simp add: getUtf32FromUtf8.simps is_extension_range leader_mask_simps byte_fields seq_length_range Let_def
          flip: v_def)
  qed
qed

section \<open>Strings\<close>

lemma utf8_bytes_no_NUL: "NUL \<notin> set (utf8_bytes u)"
proof -
  have nz: "NUL \<noteq> byte_of n" if "0 < n" "n < 256" for n
    using byte_of_NUL [of n] that by auto
  have "uint u = 0 \<or> 0 < uint u" "uint u < 65536"
    using uint16_range [of u] by linarith+
  moreover have "0 \<le> uint u div 64 mod 64" "uint u div 64 mod 64 < 64" "0 \<le> uint u mod 64" "uint u mod 64 < 64"
    "0 \<le> uint u div 4096" "uint u div 4096 < 16" "0 \<le> uint u div 64"
    using uint16_range [of u] by (auto simp: pos_imp_zdiv_nonneg_iff)
  moreover have "uint u div 64 < 32" if "\<not> 0x07ff < uint u"
    using that by auto
  ultimately show ?thesis
    unfolding utf8_bytes_arith Let_def by (auto simp: nz)
qed

lemma strncpy16to8_bytes:
  "strncpy16to8 room us =
    (if length (concat (map utf8_bytes us)) < room then Inr (concat (map utf8_bytes us) @ [NUL]) else Inl BufferOverflow)"
  by (induction room us rule: strncpy16to8.induct) (auto simp: not_less)

lemma strlen8to16_lead:
  assumes "\<not> is_extension c" "c \<noteq> NUL"
  shows "strlen8to16_loop e len (c # p) = strlen8to16_loop (UTF8_SEQ_LENGTH (byte_val c) - 1)
    (if UTF8_SEQ_LENGTH (byte_val c) = 4 then len + 2 else len + 1) p"
  using assms by (simp add: strlen8to16_loop.simps Let_def)

lemma strlen8to16_encoded:
  "strlen8to16_loop e len (utf8_bytes u @ p) = strlen8to16_loop 0 (Suc len) p"
proof -
  define v where "v = uint u"
  have v: "0 \<le> v" "v < 65536"
    using uint16_range by (auto simp: v_def)
  have ext: "strlen8to16_loop (1 + e) n (byte_of (0x80 + x) # p) = strlen8to16_loop e n p"
    if "0 \<le> x" "x < 64" "0 \<le> e" for x e n p
  proof -
    have "byte_val (byte_of (0x80 + x)) = 0x80 + x" "byte_of (0x80 + x) \<noteq> NUL"
      using byte_val_of [of "0x80 + x"] byte_of_NUL [of "0x80 + x"] that by simp_all
    then show ?thesis
      using that by (simp add: strlen8to16_loop.simps is_extension_range)
  qed
  have lead: "strlen8to16_loop e n (byte_of b # p) = strlen8to16_loop (UTF8_SEQ_LENGTH b - 1) (n + 1) p"
    if "0 < b" "b < 0x80 \<or> 0xc0 \<le> b" "b < 0xf0" for b e n p
  proof -
    have "byte_val (byte_of b) = b" "byte_of b \<noteq> NUL"
      using byte_val_of [of b] byte_of_NUL [of b] that by simp_all
    then show ?thesis
      using that by (subst strlen8to16_lead) (auto simp: is_extension_range seq_length_range)
  qed
  have m: "0 \<le> v div 64 mod 64" "v div 64 mod 64 < 64" "0 \<le> v mod 64" "v mod 64 < 64" "0 \<le> v div 4096" "v div 4096 < 16"
    using v by (auto simp: pos_imp_zdiv_nonneg_iff)
  consider "0x07ff < v" | "v \<le> 0x07ff" "0x7f < v \<or> v = 0" | "0 < v" "v \<le> 0x7f"
    using v by linarith
  then show ?thesis
  proof cases
    case 1
    then show ?thesis
      using m ext [of "v div 64 mod 64" 1] ext [of "v mod 64" 0]
      by (simp add: utf8_bytes_arith lead seq_length_range flip: v_def)
  next
    case 2
    then have "0 \<le> v div 64" "v div 64 < 32" "\<not> 0x07ff < v"
      using v by auto
    then show ?thesis
      using 2 m ext [of "v mod 64" 0]
      by (auto simp: utf8_bytes_arith lead seq_length_range simp flip: v_def)
  next
    case 3
    then have "\<not> 0x07ff < v" "\<not> (0x7f < v \<or> v = 0)"
      by auto
    then show ?thesis
      using 3 lead by (simp add: utf8_bytes_arith seq_length_range flip: v_def)
  qed
qed

lemma strlen8to16_strncpy: "strlen8to16_loop e len (concat (map utf8_bytes us) @ [NUL]) = Inr (len + length us)"
  by (induction us arbitrary: e len) (simp_all add: strlen8to16_encoded strlen8to16_loop.simps)

lemma utf16_units_uint: "utf16_units (uint u) = [u]"
  using uint16_range [of u] by (simp add: utf16_units_def)

lemma utf8_bytes_Cons: "\<exists>c p. utf8_bytes u = c # p \<and> c \<noteq> NUL"
  using utf8_bytes_no_NUL [of u] by (cases "utf8_bytes u") (auto simp: utf8_bytes_def Let_def split: if_splits)

lemma strcpy8to16_strncpy:
  "length us \<le> room \<Longrightarrow> strcpy8to16 room (concat (map utf8_bytes us) @ [NUL]) = Inr us"
proof (induction us arbitrary: room)
  case Nil
  then show ?case
    by (simp add: strcpy8to16.simps)
next
  case (Cons u us)
  obtain c p where c: "utf8_bytes u = c # p" "c \<noteq> NUL"
    using utf8_bytes_Cons by blast
  have "getUtf32FromUtf8 (c # p @ concat (map utf8_bytes us) @ [NUL]) = Inr (uint u, concat (map utf8_bytes us) @ [NUL])"
    using getUtf32_encoded [of u "concat (map utf8_bytes us) @ [NUL]"] c by simp
  then show ?case
    using Cons.IH [of "room - 1"] Cons.prems c
    by (subst strcpy8to16.simps) (simp add: utf16_units_uint Let_def)
qed

lemma length_utf8: "length (concat (map utf8_bytes us)) = fold (\<lambda>u n. n + utf8_width u) us 0"
proof -
  have "fold (\<lambda>u n. n + utf8_width u) us k = k + length (concat (map utf8_bytes us))" for k
    by (induction us arbitrary: k) (simp_all add: length_utf8_bytes)
  then show ?thesis
    by simp
qed

lemma length_utf8_le: "length (concat (map utf8_bytes us)) \<le> 3 * length us"
  by (induction us) (auto simp: length_utf8_bytes utf8_width_def Let_def)

section \<open>Any bytes\<close>

text \<open>Where \<open>strlen8to16\<close> stands between two characters: it expects no more extension bytes, or none follows.\<close>

definition at_boundary :: "int \<Rightarrow> bytes \<Rightarrow> bool" where
  "at_boundary e s \<longleftrightarrow> e \<le> 0 \<or> (case s of [] \<Rightarrow> True | c # _ \<Rightarrow> \<not> is_extension c)"

lemma six_bits: "ret * 64 OR (0x3f AND byte_val c) = ret * 64 + byte_val c mod 64"
  using or_field [of "byte_val c mod 64" 6 ret] pos_mod_bound [of 64 "byte_val c"]
  by (simp add: and.commute [of 63] byte_fields or.commute [of "ret * 64"] mult.commute add.commute)

lemma getUtf32_rest_terminated:
  assumes "NUL \<notin> set s" "0 \<le> ret"
  shows "\<exists>r s' e. getUtf32_rest k ret (s @ NUL # t) = Inr (r, s' @ NUL # t) \<and> NUL \<notin> set s' \<and> length s' \<le> length s \<and>
    (\<forall>len. strlen8to16_loop (int k) len (s @ NUL # t) = strlen8to16_loop e len (s' @ NUL # t)) \<and> at_boundary e s' \<and>
    (r < (ret + 1) * 64 ^ k \<or> r = UTF16_REPLACEMENT_CHAR)"
  using assms
proof (induction k arbitrary: ret s)
  case 0
  then show ?case
    by (intro exI [of _ ret] exI [of _ s] exI [of _ 0]) (simp add: at_boundary_def)
next
  case (Suc k)
  show ?case
  proof (cases "\<exists>c s0. s = c # s0 \<and> is_extension c")
    case False
    then have "getUtf32_rest (Suc k) ret (s @ NUL # t) = Inr (UTF16_REPLACEMENT_CHAR, s @ NUL # t)" "at_boundary (int (Suc k)) s"
      by (cases s; simp add: getUtf32_rest.simps at_boundary_def)+
    then show ?thesis
      using Suc.prems by blast
  next
    case True
    then obtain c s0 where s: "s = c # s0" "is_extension c"
      by blast
    let ?ret = "ret * 64 + byte_val c mod 64"
    have c: "c \<noteq> NUL" "NUL \<notin> set s0" "0 \<le> ?ret" "?ret + 1 \<le> (ret + 1) * 64"
      using Suc.prems s pos_mod_bound [of 64 "byte_val c"] by auto
    obtain r s' e where ih: "getUtf32_rest k ?ret (s0 @ NUL # t) = Inr (r, s' @ NUL # t)" "NUL \<notin> set s'"
      "length s' \<le> length s0" "\<And>len. strlen8to16_loop (int k) len (s0 @ NUL # t) = strlen8to16_loop e len (s' @ NUL # t)"
      "at_boundary e s'" "r < (?ret + 1) * 64 ^ k \<or> r = UTF16_REPLACEMENT_CHAR"
      using Suc.IH [OF c(2,3)] by blast
    have "(?ret + 1) * 64 ^ k \<le> (ret + 1) * 64 ^ Suc k"
      using mult_right_mono [OF c(4), of "64 ^ k"] by (simp add: mult.assoc)
    then have "r < (ret + 1) * 64 ^ Suc k \<or> r = UTF16_REPLACEMENT_CHAR"
      using ih(6) by linarith
    moreover have "getUtf32_rest (Suc k) ret (s @ NUL # t) = Inr (r, s' @ NUL # t)"
      using s c(1) ih(1) by (simp add: getUtf32_rest.simps six_bits)
    moreover have "strlen8to16_loop (int (Suc k)) len (s @ NUL # t) = strlen8to16_loop e len (s' @ NUL # t)" for len
      using s c(1) ih(4) by (simp add: strlen8to16_loop.simps)
    ultimately show ?thesis
      using ih(2,3,5) s by (intro exI [of _ r] exI [of _ s'] exI [of _ e]) auto
  qed
qed

lemma utf16_units_small: "r < 65536 \<Longrightarrow> length (utf16_units r) = 1" "length (utf16_units r) \<le> 2"
  by (auto simp: utf16_units_def)

text \<open>One character: \<open>strlen8to16\<close> counts at least the units it becomes.\<close>

lemma getUtf32_terminated:
  assumes "NUL \<notin> set (c # s)" "at_boundary e0 (c # s)"
  obtains r s' e m where "getUtf32FromUtf8 (c # s @ NUL # t) = Inr (r, s' @ NUL # t)" "NUL \<notin> set s'" "length s' \<le> length s"
    "\<And>len. strlen8to16_loop e0 len (c # s @ NUL # t) = strlen8to16_loop e (len + m) (s' @ NUL # t)"
    "at_boundary e s'" "length (utf16_units r) \<le> m"
proof (cases "is_extension c")
  case True
  then have "getUtf32FromUtf8 (c # s @ NUL # t) = Inr (UTF16_REPLACEMENT_CHAR, s @ NUL # t)" "e0 \<le> 0" "c \<noteq> NUL"
    using assms by (auto simp: getUtf32FromUtf8.simps at_boundary_def)
  then show ?thesis
    using that [of UTF16_REPLACEMENT_CHAR s "e0 - 1" 1] assms True
    by (simp add: strlen8to16_loop.simps at_boundary_def utf16_units_def UTF16_REPLACEMENT_CHAR_def)
next
  case False
  define b where "b = byte_val c"
  define k where "k = (if b < 0xc0 then 0 else if b < 0xe0 then 1 else if b < 0xf0 then 2 else (3 :: nat))"
  define ret where "ret = (if b < 0xc0 then b else if b < 0xe0 then b mod 32 else if b < 0xf0 then b mod 16 else b mod 8)"
  have b: "0 \<le> b" "b < 256" "b < 0x80 \<or> 0xc0 \<le> b" "c \<noteq> NUL"
    using False assms(1) byte_val_range [of c] by (auto simp: is_extension_range b_def)
  have ret: "0 \<le> ret" "(ret + 1) * 64 ^ k \<le> (if k = 3 then 8 * 64 ^ 3 else 65536)"
    using b by (auto simp: ret_def k_def)
  have seq: "UTF8_SEQ_LENGTH b = int k + 1"
    using b by (simp add: seq_length_range k_def)
  have get: "getUtf32FromUtf8 (c # s @ NUL # t) = getUtf32_rest k ret (s @ NUL # t)"
    using False b seq_length_range [OF b(1,2)]
    by (simp add: getUtf32FromUtf8.simps leader_mask_simps byte_fields Let_def k_def ret_def flip: b_def)
  obtain r s' e where r: "getUtf32_rest k ret (s @ NUL # t) = Inr (r, s' @ NUL # t)" "NUL \<notin> set s'" "length s' \<le> length s"
    "\<And>len. strlen8to16_loop (int k) len (s @ NUL # t) = strlen8to16_loop e len (s' @ NUL # t)" "at_boundary e s'"
    "r < (ret + 1) * 64 ^ k \<or> r = UTF16_REPLACEMENT_CHAR"
    using getUtf32_rest_terminated [of s ret k t] assms(1) ret(1) by auto
  define m :: nat where "m = (if k = 3 then 2 else 1)"
  have "length (utf16_units r) \<le> m"
  proof (cases "k = 3")
    case True
    then show ?thesis
      using utf16_units_small(2) by (simp add: m_def)
  next
    case False
    then have "r < 65536"
      using r(6) ret(2) by (auto simp: UTF16_REPLACEMENT_CHAR_def)
    then show ?thesis
      using utf16_units_small(1) by (simp add: m_def)
  qed
  moreover have "strlen8to16_loop e0 len (c # s @ NUL # t) = strlen8to16_loop e (len + m) (s' @ NUL # t)" for len
    using strlen8to16_lead [OF False b(4), of e0 len "s @ NUL # t"] seq r(4) by (simp add: m_def flip: b_def)
  ultimately show ?thesis
    using that [of r s' e m] get r by simp
qed

text \<open>A whole string: what \<open>strcpy8to16\<close> needs is at most what \<open>strlen8to16\<close> announced, and
  \<open>strcpylen8to16\<close> does the same up to the first NUL.\<close>

lemma strcpylen8to16_stuck: "0 < l \<Longrightarrow> strcpylen8to16 room (NUL # t) l = Inl BufferOverflow"
proof (induction room)
  case 0
  then show ?case
    by (subst strcpylen8to16.simps) (simp add: getUtf32FromUtf8.simps is_extension_range leader_mask_simps byte_fields utf16_units_def Let_def)
next
  case (Suc room)
  then show ?case
    by (subst strcpylen8to16.simps) (simp add: getUtf32FromUtf8.simps is_extension_range leader_mask_simps byte_fields utf16_units_def Let_def)
qed

lemma strcpy8to16_terminated:
  assumes "NUL \<notin> set s" "at_boundary e s"
  shows "\<exists>us n. (\<forall>len. strlen8to16_loop e len (s @ NUL # t) = Inr (len + n)) \<and> length us \<le> n \<and>
    (\<forall>room. strcpy8to16 room (s @ NUL # t) = (if length us \<le> room then Inr us else Inl BufferOverflow) \<and>
      (\<forall>l. strcpylen8to16 room (s @ NUL # t) (int (length s + l)) =
        (if l = 0 then strcpy8to16 room (s @ NUL # t) else Inl BufferOverflow)))"
  using assms
proof (induction "length s" arbitrary: s e rule: less_induct)
  case less
  show ?case
  proof (cases s)
    case Nil
    have "strcpylen8to16 room (NUL # t) 0 = Inr []" for room
      by (simp add: strcpylen8to16.simps)
    then show ?thesis
      using Nil by (intro exI [of _ "[]"] exI [of _ 0])
        (simp add: strlen8to16_loop.simps strcpy8to16.simps strcpylen8to16_stuck)
  next
    case (Cons c s0)
    obtain r s' e' m where r: "getUtf32FromUtf8 (c # s0 @ NUL # t) = Inr (r, s' @ NUL # t)" "NUL \<notin> set s'" "length s' \<le> length s0"
      "\<And>len. strlen8to16_loop e len (c # s0 @ NUL # t) = strlen8to16_loop e' (len + m) (s' @ NUL # t)"
      "at_boundary e' s'" "length (utf16_units r) \<le> m"
      using getUtf32_terminated [of c s0 e t] less.prems Cons by metis
    have "length s' < length s"
      using r(3) Cons by simp
    from less.hyps [OF this r(2,5)] obtain us n where ih:
      "\<And>len. strlen8to16_loop e' len (s' @ NUL # t) = Inr (len + n)" "length us \<le> n"
      "\<And>room. strcpy8to16 room (s' @ NUL # t) = (if length us \<le> room then Inr us else Inl BufferOverflow)"
      "\<And>room l. strcpylen8to16 room (s' @ NUL # t) (int (length s' + l)) =
        (if l = 0 then strcpy8to16 room (s' @ NUL # t) else Inl BufferOverflow)"
      by metis
    have c: "c \<noteq> NUL"
      using less.prems Cons by auto
    let ?u = "utf16_units r"
    have cpy: "strcpy8to16 room (s @ NUL # t) = (if length (?u @ us) \<le> room then Inr (?u @ us) else Inl BufferOverflow)" for room
      using r(1) c ih(3) Cons by (subst strcpy8to16.simps) (auto simp: Let_def)
    have "int (length s + l) - (int (length (s @ NUL # t)) - int (length (s' @ NUL # t))) = int (length s' + l)" for l
      by simp
    then have "strcpylen8to16 room (s @ NUL # t) (int (length s + l)) = (if room < length ?u then Inl BufferOverflow else
        bindE (strcpylen8to16 (room - length ?u) (s' @ NUL # t) (int (length s' + l))) (\<lambda>vs. Inr (?u @ vs)))" for room l
      using r(1) Cons by (subst strcpylen8to16.simps) (simp add: Let_def add.commute)
    then have "strcpylen8to16 room (s @ NUL # t) (int (length s + l)) =
        (if l = 0 then strcpy8to16 room (s @ NUL # t) else Inl BufferOverflow)" for room l
      unfolding cpy ih(4) ih(3) by auto
    then show ?thesis
      using r(4,6) ih(1,2) cpy Cons by (intro exI [of _ "?u @ us"] exI [of _ "m + n"]) (auto simp: add.assoc)
  qed
qed

section \<open>Properties\<close>

text \<open>C20: A UTF-16 string survives the way to modified UTF-8 and back, whatever its units are: embedded
  zeros and unpaired surrogates included. Nothing is written outside the two buffers on the way.\<close>

theorem utf_roundtrip:
  assumes "length us < (SIZE_MAX - 1) div 3"
  shows "bindE (strndup16to8 True (Some us)) (strdup8to16 True) = Inr (Some us)"
proof -
  let ?bs = "concat (map utf8_bytes us)"
  have len: "strnlen16to8 us = length ?bs"
    using assms by (simp add: strnlen16to8_def length_utf8)
  moreover have "\<not> SIZE_MAX - 1 \<le> length ?bs"
    using length_utf8_le [of us] assms by (simp add: SIZE_MAX_def)
  ultimately have "strndup16to8 True (Some us) = Inr (Some (?bs @ [NUL]))"
    by (simp add: strndup16to8_def strncpy16to8_bytes)
  moreover have "strlen8to16 (?bs @ [NUL]) = Inr (length us)"
    by (simp add: strlen8to16_def strlen8to16_strncpy)
  moreover have "\<not> (2 ^ 64 - 1) div length us < 2" if "us \<noteq> []"
  proof -
    have "0 < length us" "2 * length us \<le> 2 ^ 64 - 1"
      using that assms by (auto simp: SIZE_MAX_def)
    then show ?thesis
      by (simp add: not_less less_eq_div_iff_mult_less_eq)
  qed
  moreover have "strcpy8to16 (length us) (?bs @ [NUL]) = Inr us"
    by (rule strcpy8to16_strncpy) simp
  ultimately show ?thesis
    by (cases "us = []") (simp_all add: strdup8to16_def)
qed

lemma utf_roundtrip_witness:
  "bindE (strndup16to8 True (Some [0x41, 0, 0xd800, 0x7ff, 0xffff])) (strdup8to16 True) = Inr (Some [0x41, 0, 0xd800, 0x7ff, 0xffff])"
  by (rule utf_roundtrip) (simp add: SIZE_MAX_def)

text \<open>\<open>strdup8to16\<close> never writes outside the buffer it allocates, whatever bytes the string has:
  \<open>strcpy8to16\<close> needs at most the number of units \<open>strlen8to16\<close> announces, also for sequences that are
  cut off, that have too many extension bytes or that are out of range.\<close>

theorem strdup8to16_fits:
  assumes "NUL \<notin> set s"
  shows "\<exists>us n. strlen8to16 (s @ [NUL]) = Inr n \<and> length us \<le> n \<and>
    (if n \<noteq> 0 \<and> (2 ^ 64 - 1) div n < 2 then strdup8to16 True (Some (s @ [NUL])) = Inr None
     else strdup8to16 True (Some (s @ [NUL])) = Inr (Some us))"
proof -
  obtain us n where u: "strlen8to16_loop 0 0 (s @ [NUL]) = Inr n" "length us \<le> n"
    "strcpy8to16 n (s @ [NUL]) = Inr us"
    using strcpy8to16_terminated [of s 0 "[]"] assms by (auto simp: at_boundary_def)
  then show ?thesis
    by (intro exI [of _ us] exI [of _ n]) (auto simp: strlen8to16_def strdup8to16_def)
qed

lemma strdup8to16_fits_witness:
  "\<exists>us n. strlen8to16 ([CHR 0xF0, CHR 0x80, CHR ''a'', CHR 0x80, CHR 0xE1] @ [NUL]) = Inr n \<and> length us \<le> n \<and>
    (if n \<noteq> 0 \<and> (2 ^ 64 - 1) div n < 2 then strdup8to16 True (Some ([CHR 0xF0, CHR 0x80, CHR ''a'', CHR 0x80, CHR 0xE1] @ [NUL])) = Inr None
     else strdup8to16 True (Some ([CHR 0xF0, CHR 0x80, CHR ''a'', CHR 0x80, CHR 0xE1] @ [NUL])) = Inr (Some us))"
  by (rule strdup8to16_fits) simp

text \<open>\<open>strcpylen8to16\<close> with a length that ends at the NUL is \<open>strcpy8to16\<close>. With a longer one, for a
  string that ``may contain embedded NULs'', it never gets past the first NUL and fills memory with
  zeros: whatever room there is, it overflows.\<close>

theorem strcpylen8to16_is_strcpy8to16:
  assumes "NUL \<notin> set s"
  shows "strcpylen8to16 room (s @ NUL # t) (int (length s + l)) =
    (if l = 0 then strcpy8to16 room (s @ NUL # t) else Inl BufferOverflow)"
proof -
  have "at_boundary 0 s"
    by (simp add: at_boundary_def)
  then show ?thesis
    using strcpy8to16_terminated [OF assms, of 0 t] by blast
qed

lemma strcpylen8to16_is_strcpy8to16_witness:
  "strcpylen8to16 1000 (''ab'' @ NUL # ''cd'') (int (length ''ab'' + 3)) = Inl BufferOverflow"
  by (subst strcpylen8to16_is_strcpy8to16) simp_all

end
