(* ===== verification/Sdcard_Image.thy ===== *)
theory Sdcard_Image
  imports C_Format "HOL-Library.Signed_Division"
begin

text \<open>
  \<open>emulator/mksdcard/mksdcard.c\<close>, which writes an empty FAT32 image. A sector is the list of its 512
  bytes; \<open>Wide\<close> and \<open>int\<close> are integers, with the products of the size argument wrapped to 64 bits. The
  file is what was written to it so far and how many bytes the device still takes.
\<close>

section \<open>Sizes\<close>

definition BYTES_PER_SECTOR :: int where "BYTES_PER_SECTOR = 512"
definition RESERVED_SECTORS :: int where "RESERVED_SECTORS = 32"
definition BACKUP_BOOT_SECTOR :: int where "BACKUP_BOOT_SECTOR = 6"
definition NUM_FATS :: int where "NUM_FATS = 2"
definition MAX_SECTORS_PER_DISK :: int where "MAX_SECTORS_PER_DISK = 0x7FFFFFFF"
definition MAX_DISK_SIZE :: int where "MAX_DISK_SIZE = MAX_SECTORS_PER_DISK * BYTES_PER_SECTOR"

definition get_sectors_per_cluster :: "int \<Rightarrow> int" where
  "get_sectors_per_cluster disk_size =
     (let disk_MB = disk_size sdiv (1024 * 1024)
      in if disk_MB < 260 then 1
         else if disk_MB < 8192 then 4
         else if disk_MB < 16384 then 8
         else if disk_MB < 32768 then 16
         else 32)"

definition get_sectors_per_fat :: "int \<Rightarrow> int \<Rightarrow> int" where
  "get_sectors_per_fat disk_size sectors_per_cluster =
     (let disk_size = disk_size - RESERVED_SECTORS * BYTES_PER_SECTOR;
          disk_size = disk_size sdiv BYTES_PER_SECTOR;
          divider = (256 * sectors_per_cluster + NUM_FATS) sdiv 2
      in (disk_size + (divider - 1)) sdiv divider)"

section \<open>The sectors\<close>

text \<open>Bytes that are stored at an offset of a sector.\<close>

definition poke :: "nat \<Rightarrow> bytes \<Rightarrow> bytes \<Rightarrow> bytes" where
  "poke p bs sector = take p sector @ bs @ drop (p + length bs) sector"

definition POKEB :: "nat \<Rightarrow> int \<Rightarrow> bytes \<Rightarrow> bytes" where
  "POKEB p v = poke p [byte_of v]"

definition POKES :: "nat \<Rightarrow> int \<Rightarrow> bytes \<Rightarrow> bytes" where
  "POKES p v = poke p [byte_of v, byte_of (drop_bit 8 v)]"

definition POKEW :: "nat \<Rightarrow> int \<Rightarrow> bytes \<Rightarrow> bytes" where
  "POKEW p v = poke p [byte_of v, byte_of (drop_bit 8 v), byte_of (drop_bit 16 v), byte_of (drop_bit 24 v)]"

text \<open>\<open>strcpy\<close> with its NUL, and \<open>strncpy\<close>, which pads with NULs and leaves out the one that does not fit.\<close>

definition poke_str :: "nat \<Rightarrow> bytes \<Rightarrow> bytes \<Rightarrow> bytes" where
  "poke_str p s = poke p (s @ [NUL])"

definition poke_strn :: "nat \<Rightarrow> bytes \<Rightarrow> nat \<Rightarrow> bytes \<Rightarrow> bytes" where
  "poke_strn p s n = poke p (take n s @ replicate (n - length s) NUL)"

definition zero_sector :: bytes where
  "zero_sector = replicate (nat BYTES_PER_SECTOR) NUL"

text \<open>The broken-down time is an argument: day of the month, month, year, hour, minute, second, as in
  \<open>struct tm\<close>. The three parts are \<open>unsigned short\<close>; the sum is an \<open>int\<close>.\<close>

record time =
  tm_mday :: int
  tm_mon :: int
  tm_year :: int
  tm_hour :: int
  tm_min :: int
  tm_sec :: int

definition get_serial_id :: "time \<Rightarrow> int" where
  "get_serial_id tm =
     (let lo = (tm_mday tm + push_bit 8 (tm_mon tm + 1) + push_bit 8 (tm_sec tm)) mod 2 ^ 16;
          hi = (tm_min tm + push_bit 8 (tm_hour tm) + (tm_year tm + 1900)) mod 2 ^ 16
      in signed_take_bit 31 (lo + push_bit 16 hi))"

text \<open>The boot sector and the FSInfo sector; the label is NULL or a string.\<close>

definition boot_sector_init :: "time \<Rightarrow> int \<Rightarrow> bytes option \<Rightarrow> bytes \<times> bytes \<Rightarrow> bytes \<times> bytes" where
  "boot_sector_init now disk_size label = (\<lambda>(boot, info).
     (let sectors_per_cluster = get_sectors_per_cluster disk_size;
          sectors_per_fat = get_sectors_per_fat disk_size sectors_per_cluster;
          sectors_per_disk = disk_size sdiv BYTES_PER_SECTOR;
          serial_id = get_serial_id now;
          label = (case label of None \<Rightarrow> ''SDCARD'' | Some l \<Rightarrow> l);
          boot = POKEB 0 0xeb boot;
          boot = POKEB 1 0x5a boot;
          boot = POKEB 2 0x90 boot;
          boot = poke_str 3 ''MSWIN4.1'' boot;
          boot = POKES 0x0b BYTES_PER_SECTOR boot;
          boot = POKEB 0xd sectors_per_cluster boot;
          boot = POKES 0xe RESERVED_SECTORS boot;
          boot = POKEB 0x10 NUM_FATS boot;
          boot = POKES 0x11 0 boot;
          boot = POKES 0x13 0 boot;
          boot = POKEB 0x15 0xF8 boot;
          boot = POKES 0x16 0 boot;
          boot = POKES 0x18 9 boot;
          boot = POKES 0x1a 2 boot;
          boot = POKEW 0x1c 0 boot;
          boot = POKEW 0x20 sectors_per_disk boot;
          boot = POKEW 0x24 sectors_per_fat boot;
          boot = POKES 0x28 0 boot;
          boot = POKES 0x2a 0 boot;
          boot = POKEW 0x2c 2 boot;
          boot = POKES 0x30 1 boot;
          boot = POKES 0x32 BACKUP_BOOT_SECTOR boot;
          boot = POKEB 0x40 0x80 boot;
          boot = POKEB 0x42 0x29 boot;
          boot = POKEW 0x43 serial_id boot;
          boot = poke_strn 0x47 label 11 boot;
          boot = poke 0x52 ''FAT32   '' boot;
          boot = POKEB (nat BYTES_PER_SECTOR - 2) 0x55 boot;
          boot = POKEB (nat BYTES_PER_SECTOR - 1) 0xAA boot;
          free_count = sectors_per_disk - 32 - 2 * sectors_per_fat;
          info = POKEW 0 0x41615252 info;
          info = POKEW 484 0x61417272 info;
          info = POKEW 488 free_count info;
          info = POKEW 492 3 info;
          info = POKEW 508 0xAA550000 info
      in (boot, info)))"

definition fat_init :: "bytes \<Rightarrow> bytes" where
  "fat_init fat = POKEW 8 0x0fffffff (POKEW 4 0x0fffffff (POKEW 0 0x0ffffff8 fat))"

section \<open>The file\<close>

record out_file =
  f_data :: bytes
  f_room :: nat

definition fwrite :: "bytes \<Rightarrow> out_file \<Rightarrow> nat \<times> out_file" where
  "fwrite bs f =
     (let n = min (length bs) (f_room f) in (n, f\<lparr>f_data := f_data f @ take n bs, f_room := f_room f - n\<rparr>))"

text \<open>True is the failure.\<close>

definition write_sector :: "out_file \<Rightarrow> bytes \<Rightarrow> bool \<times> out_file" where
  "write_sector f sector = (let (n, f) = fwrite (take (nat BYTES_PER_SECTOR) sector) f in (n \<noteq> nat BYTES_PER_SECTOR, f))"

definition EMPTY_SIZE :: int where "EMPTY_SIZE = 256 * 1024"

function write_empty_loop :: "out_file \<Rightarrow> int \<Rightarrow> bool \<times> out_file" where
  "write_empty_loop f count =
     (if count > 0 then
        let len = (if EMPTY_SIZE > count then count else EMPTY_SIZE);
            (n, f) = fwrite (replicate (nat len) NUL) f
        in if n \<noteq> nat len then (True, f) else write_empty_loop f (count - len)
      else (False, f))"
  by auto
termination
  by (relation "measure (\<lambda>(f, count). nat count)") (auto simp: EMPTY_SIZE_def)

declare write_empty_loop.simps [simp del]

definition write_empty :: "out_file \<Rightarrow> int \<Rightarrow> bool \<times> out_file" where
  "write_empty f count = write_empty_loop f (count * BYTES_PER_SECTOR)"

text \<open>The writes of \<open>main\<close> in their order; the first failure jumps to \<open>FailWrite\<close>.\<close>

datatype disk_write = Sector bytes | Empty int

fun write_all :: "disk_write list \<Rightarrow> out_file \<Rightarrow> bool \<times> out_file" where
  "write_all [] f = (False, f)"
| "write_all (w # ws) f =
     (let (failed, f) = (case w of Sector s \<Rightarrow> write_sector f s | Empty n \<Rightarrow> write_empty f n)
      in if failed then (True, f) else write_all ws f)"

definition image_writes :: "bytes \<Rightarrow> bytes \<Rightarrow> bytes \<Rightarrow> int \<Rightarrow> int \<Rightarrow> disk_write list" where
  "image_writes boot info fat sectors_per_fat sectors_per_disk =
     [Sector boot, Sector info] @
     (if BACKUP_BOOT_SECTOR > 0
      then [Empty (BACKUP_BOOT_SECTOR - 2), Sector boot, Sector info, Empty (RESERVED_SECTORS - 2 - BACKUP_BOOT_SECTOR)]
      else [Empty (RESERVED_SECTORS - 2)]) @
     [Sector fat, Empty (sectors_per_fat - 1), Sector fat, Empty (sectors_per_fat - 1),
      Empty (sectors_per_disk - RESERVED_SECTORS - 2 * sectors_per_fat)]"

section \<open>The program\<close>

text \<open>The options; None is \<open>usage\<close>, which exits.\<close>

fun parse_options :: "bytes list \<Rightarrow> bytes option \<Rightarrow> (bytes option \<times> bytes list) option" where
  "parse_options [] label = Some (label, [])"
| "parse_options (a # args) label =
     (if a \<noteq> [] \<and> hd a = CHR ''-'' then
        let arg = tl a
        in if arg \<noteq> [] \<and> hd arg = CHR ''l'' then
             if tl arg \<noteq> [] then parse_options args (Some (drop 2 arg))
             else (case args of [] \<Rightarrow> None | b # rest \<Rightarrow> parse_options rest (Some b))
           else None
      else Some (label, a # args))"

definition size_of_arg :: "bytes \<Rightarrow> int option" where
  "size_of_arg arg =
     (let (disk_size, end_ptr, erange) = strtoll10 arg;
          unit_char = (case end_ptr of [] \<Rightarrow> NUL | c # _ \<Rightarrow> c)
      in if disk_size \<le> 0 \<or> erange then None
         else
           let disk_size = signed_take_bit 63
                 (if unit_char = CHR ''K'' then disk_size * 1024
                  else if unit_char = CHR ''M'' then disk_size * (1024 * 1024)
                  else if unit_char = CHR ''G'' then disk_size * (1024 * 1024 * 1024)
                  else disk_size)
           in if disk_size < 9 * 1024 * 1024 then None
              else if disk_size > MAX_DISK_SIZE then None
              else Some disk_size)"

text \<open>The exit status and the file that is there at the end. \<open>fopen\<close> gives None, or an empty file on a
  device with some room.\<close>

definition mksdcard_main :: "time \<Rightarrow> nat option \<Rightarrow> bytes list \<Rightarrow> int \<times> bytes option" where
  "mksdcard_main now device args =
     (case parse_options args None of
        None \<Rightarrow> (1, None)
      | Some (label, args) \<Rightarrow>
          if length args \<noteq> 2 then (1, None)
          else case size_of_arg (args ! 0) of
              None \<Rightarrow> (1, None)
            | Some disk_size \<Rightarrow>
                let sectors_per_disk = disk_size sdiv BYTES_PER_SECTOR;
                    sectors_per_fat = get_sectors_per_fat disk_size (get_sectors_per_cluster disk_size);
                    (boot, info) = boot_sector_init now disk_size None (zero_sector, zero_sector);
                    fat = fat_init zero_sector
                in case device of
                     None \<Rightarrow> (1, None)
                   | Some room \<Rightarrow>
                       let (failed, f) = write_all (image_writes boot info fat sectors_per_fat sectors_per_disk)
                                           \<lparr>f_data = [], f_room = room\<rparr>
                       in if failed then (1, None) else (0, Some (f_data f)))"

section \<open>Writing\<close>

lemma fwrite_all: "length bs \<le> f_room f \<Longrightarrow> fwrite bs f = (length bs, f\<lparr>f_data := f_data f @ bs, f_room := f_room f - length bs\<rparr>)"
  by (simp add: fwrite_def Let_def)

lemma write_empty_loop_result:
  "if nat count \<le> f_room f
   then write_empty_loop f count = (False, f\<lparr>f_data := f_data f @ replicate (nat count) NUL, f_room := f_room f - nat count\<rparr>)
   else fst (write_empty_loop f count)"
proof (induction f count rule: write_empty_loop.induct)
  case (1 f count)
  define len where "len = (if EMPTY_SIZE > count then count else EMPTY_SIZE)"
  show ?case
  proof (cases "0 < count")
    case False
    then show ?thesis
      by (simp add: write_empty_loop.simps)
  next
    case True
    then have len: "0 < len" "len \<le> count"
      by (auto simp: len_def EMPTY_SIZE_def)
    obtain n g where w: "fwrite (replicate (nat len) NUL) f = (n, g)"
      by fastforce
    then have step: "write_empty_loop f count = (if n \<noteq> nat len then (True, g) else write_empty_loop g (count - len))"
      using True by (subst write_empty_loop.simps) (simp add: Let_def flip: len_def)
    show ?thesis
    proof (cases "nat len \<le> f_room f")
      case False
      then have "n \<noteq> nat len"
        using w by (auto simp: fwrite_def Let_def)
      then show ?thesis
        using step False len by (simp add: nat_le_iff)
    next
      case room: True
      then have "n = nat len" "g = f\<lparr>f_data := f_data f @ replicate (nat len) NUL, f_room := f_room f - nat len\<rparr>"
        using w fwrite_all [of "replicate (nat len) NUL" f] by auto
      moreover have "nat count = nat len + nat (count - len)"
        using len by simp
      ultimately show ?thesis
        using "1.IH" [OF True len_def w [symmetric] refl] room step
        by (auto simp: replicate_add le_diff_conv2 add.commute split: if_splits)
    qed
  qed
qed

text \<open>What a list of writes puts on the device.\<close>

fun write_bytes :: "disk_write \<Rightarrow> bytes" where
  "write_bytes (Sector s) = s"
| "write_bytes (Empty n) = replicate (nat (n * BYTES_PER_SECTOR)) NUL"

lemma write_all_result:
  assumes "list_all (\<lambda>w. case w of Sector s \<Rightarrow> length s = nat BYTES_PER_SECTOR | Empty n \<Rightarrow> True) ws"
  shows "if length (concat (map write_bytes ws)) \<le> f_room f
    then write_all ws f = (False, f\<lparr>f_data := f_data f @ concat (map write_bytes ws), f_room := f_room f - length (concat (map write_bytes ws))\<rparr>)
    else fst (write_all ws f)"
  using assms
proof (induction ws arbitrary: f)
  case Nil
  then show ?case
    by simp
next
  case (Cons w ws)
  define step where "step = (case w of Sector s \<Rightarrow> write_sector f s | Empty n \<Rightarrow> write_empty f n)"
  have step: "if length (write_bytes w) \<le> f_room f
      then step = (False, f\<lparr>f_data := f_data f @ write_bytes w, f_room := f_room f - length (write_bytes w)\<rparr>) else fst step"
    using Cons.prems write_empty_loop_result [where f = f]
    by (cases w) (auto simp: step_def write_sector_def fwrite_def write_empty_def Let_def)
  show ?case
  proof (cases "length (write_bytes w) \<le> f_room f")
    case False
    then obtain g where "step = (True, g)"
      using step by (cases step) auto
    then have "fst (write_all (w # ws) f)"
      by (simp add: step_def [symmetric])
    then show ?thesis
      using False by auto
  next
    case True
    let ?f = "f\<lparr>f_data := f_data f @ write_bytes w, f_room := f_room f - length (write_bytes w)\<rparr>"
    have "write_all (w # ws) f = write_all ws ?f"
      using step True by (simp add: step_def [symmetric])
    then show ?thesis
      using Cons.IH [of ?f] Cons.prems True by (auto split: if_splits)
  qed
qed

section \<open>Geometry\<close>

lemma sdiv_pos: "0 \<le> a \<Longrightarrow> 0 < b \<Longrightarrow> (a :: int) sdiv b = a div b"
  by (simp add: signed_divide_int_def sgn_if)

definition disk_size_ok :: "int \<Rightarrow> bool" where
  "disk_size_ok d \<longleftrightarrow> 9 * 1024 * 1024 \<le> d \<and> d \<le> MAX_DISK_SIZE"

lemma cluster_sizes: "get_sectors_per_cluster d \<in> {1, 4, 8, 16, 32}"
  by (simp add: get_sectors_per_cluster_def Let_def)

lemma cluster_sizes_small: "0 \<le> d \<Longrightarrow> d < 260 * 1024 * 1024 \<longleftrightarrow> get_sectors_per_cluster d = 1"
  by (auto simp: get_sectors_per_cluster_def sdiv_pos Let_def)

lemma sectors_per_fat_div:
  assumes "disk_size_ok d"
  shows "get_sectors_per_fat d c = (d div 512 - 32 + ((256 * c + 2) sdiv 2 - 1)) sdiv ((256 * c + 2) sdiv 2)"
proof -
  have "(d - 16384) sdiv 512 = d div 512 - 32"
    using assms by (simp add: disk_size_ok_def sdiv_pos)
  then show ?thesis
    by (simp add: get_sectors_per_fat_def RESERVED_SECTORS_def BYTES_PER_SECTOR_def NUM_FATS_def Let_def)
qed

text \<open>The number of sectors of the FAT is the rounded quotient, and both FATs fit.\<close>

lemma sectors_per_fat_bounds:
  assumes "disk_size_ok d"
  defines "c \<equiv> get_sectors_per_cluster d" and "n \<equiv> d div 512 - 32"
  defines "s \<equiv> get_sectors_per_fat d c"
  shows "n \<le> s * (128 * c + 1)" "2 * c \<le> s" "2 * s \<le> n" "0 < s" "18400 \<le> n" "n < 2 ^ 31"
proof -
  have n: "18400 \<le> n" "n < 2 ^ 31"
    using assms(1) by (auto simp: n_def disk_size_ok_def MAX_DISK_SIZE_def MAX_SECTORS_PER_DISK_def BYTES_PER_SECTOR_def)
  have big: "c = 1 \<or> 532448 \<le> n"
    using assms(1) cluster_sizes_small [of d] by (auto simp: c_def n_def disk_size_ok_def)
  have c: "c = 1 \<or> c = 4 \<or> c = 8 \<or> c = 16 \<or> c = 32"
    using cluster_sizes [of d] by (simp add: c_def)
  have s: "s = (n + 128 * c) div (128 * c + 1)"
    using sectors_per_fat_div [OF assms(1), of c] c n by (elim disjE) (simp_all add: s_def n_def sdiv_pos)
  show "n \<le> s * (128 * c + 1)" "2 * c \<le> s" "2 * s \<le> n" "0 < s"
    using c n big unfolding s by (elim disjE; simp; linarith)+
qed (use assms in \<open>auto simp: n_def disk_size_ok_def MAX_DISK_SIZE_def MAX_SECTORS_PER_DISK_def BYTES_PER_SECTOR_def\<close>)

section \<open>The image\<close>

lemma nth_poke:
  "p + length bs \<le> length s \<Longrightarrow> i < length s \<Longrightarrow>
    poke p bs s ! i = (if p \<le> i \<and> i < p + length bs then bs ! (i - p) else s ! i)"
  by (auto simp: poke_def nth_append)

lemma length_poke: "length s = n \<Longrightarrow> p + length bs \<le> n \<Longrightarrow> length (poke p bs s) = n"
  by (auto simp: poke_def)

lemmas pokes = POKEB_def POKES_def POKEW_def poke_str_def poke_strn_def

lemma length_pokes:
  "length s = 512 \<Longrightarrow> p + 1 \<le> 512 \<Longrightarrow> length (POKEB p v s) = 512"
  "length s = 512 \<Longrightarrow> p + 2 \<le> 512 \<Longrightarrow> length (POKES p v s) = 512"
  "length s = 512 \<Longrightarrow> p + 4 \<le> 512 \<Longrightarrow> length (POKEW p v s) = 512"
  "length s = 512 \<Longrightarrow> p + length l + 1 \<le> 512 \<Longrightarrow> length (poke_str p l s) = 512"
  "length s = 512 \<Longrightarrow> p + n \<le> 512 \<Longrightarrow> length (poke_strn p l n s) = 512"
  "length s = 512 \<Longrightarrow> p + length bs \<le> 512 \<Longrightarrow> length (poke p bs s) = 512"
  by (simp_all add: pokes length_poke)

lemma length_zero_sector [simp]: "length zero_sector = 512"
  by (simp add: zero_sector_def BYTES_PER_SECTOR_def)

lemma length_fat_init: "length (fat_init zero_sector) = 512"
  by (simp add: fat_init_def length_pokes)

lemma length_boot:
  assumes "boot_sector_init now d label (zero_sector, zero_sector) = (boot, info)"
  shows "length boot = 512" "length info = 512"
proof -
  show "length boot = 512"
    using assms unfolding boot_sector_init_def BYTES_PER_SECTOR_def Let_def prod.case prod.inject
    by (elim conjE) (hypsubst, (rule length_pokes length_zero_sector | simp)+)
  show "length info = 512"
    using assms unfolding boot_sector_init_def BYTES_PER_SECTOR_def Let_def prod.case prod.inject
    by (elim conjE) (hypsubst, (rule length_pokes length_zero_sector | simp)+)
qed

text \<open>A word of a sector in little-endian order, and a half of one.\<close>

definition peekW :: "nat \<Rightarrow> bytes \<Rightarrow> int" where
  "peekW p s = byte_val (s ! p) + 2 ^ 8 * byte_val (s ! (p + 1)) + 2 ^ 16 * byte_val (s ! (p + 2)) + 2 ^ 24 * byte_val (s ! (p + 3))"

definition peekS :: "nat \<Rightarrow> bytes \<Rightarrow> int" where
  "peekS p s = byte_val (s ! p) + 2 ^ 8 * byte_val (s ! (p + 1))"

lemma nth_pokes:
  "length s = 512 \<Longrightarrow> p + 1 \<le> 512 \<Longrightarrow> i < 512 \<Longrightarrow> POKEB p v s ! i = (if i = p then byte_of v else s ! i)"
  "length s = 512 \<Longrightarrow> p + 2 \<le> 512 \<Longrightarrow> i < 512 \<Longrightarrow>
    POKES p v s ! i = (if p \<le> i \<and> i < p + 2 then [byte_of v, byte_of (drop_bit 8 v)] ! (i - p) else s ! i)"
  "length s = 512 \<Longrightarrow> p + 4 \<le> 512 \<Longrightarrow> i < 512 \<Longrightarrow>
    POKEW p v s ! i = (if p \<le> i \<and> i < p + 4
      then [byte_of v, byte_of (drop_bit 8 v), byte_of (drop_bit 16 v), byte_of (drop_bit 24 v)] ! (i - p) else s ! i)"
  "length s = 512 \<Longrightarrow> p + length l + 1 \<le> 512 \<Longrightarrow> i < 512 \<Longrightarrow>
    poke_str p l s ! i = (if p \<le> i \<and> i < p + length l + 1 then (l @ [NUL]) ! (i - p) else s ! i)"
  "length s = 512 \<Longrightarrow> p + n \<le> 512 \<Longrightarrow> i < 512 \<Longrightarrow>
    poke_strn p l n s ! i = (if p \<le> i \<and> i < p + n then (take n l @ replicate (n - length l) NUL) ! (i - p) else s ! i)"
  "length s = 512 \<Longrightarrow> p + length bs \<le> 512 \<Longrightarrow> i < 512 \<Longrightarrow>
    poke p bs s ! i = (if p \<le> i \<and> i < p + length bs then bs ! (i - p) else s ! i)"
  by (auto simp: pokes nth_poke)

lemma byte_val_mod: "byte_val (byte_of v) = v mod 256"
  by simp

lemma word_bytes:
  "(v :: int) mod 256 + 256 * (drop_bit 8 v mod 256) + 65536 * (drop_bit 16 v mod 256) + 16777216 * (drop_bit 24 v mod 256) =
    v mod 4294967296"
proof -
  have sum: "m0 + 256 * m1 + 65536 * m2 + 16777216 * c = w"
    if "w = 256 * a + m0" "a = 256 * b + m1" "b = 256 * c + m2" for w a b c m0 m1 m2 :: int
    using that by simp
  have eight: "(0 :: int) \<le> 2 ^ 24" "(0 :: int) \<le> 2 ^ 16" "(0 :: int) \<le> 2 ^ 8" "(256 :: int) * 2 ^ 24 = 4294967296"
    "(256 :: int) * 2 ^ 16 = 16777216" "(256 :: int) * 2 ^ 8 = 65536" "(2 :: int) ^ 24 = 16777216" "(2 :: int) ^ 16 = 65536"
    "(2 :: int) ^ 8 = 256"
    by simp_all
  have "drop_bit 8 v = v div 256" "drop_bit 16 v = v div 256 div 256" "drop_bit 24 v = v div 256 div 256 div 256"
    by (simp_all add: drop_bit_eq_div flip: zdiv_zmult2_eq)
  then show ?thesis
    using sum [of "v mod 4294967296" "v div 256 mod 16777216" "v mod 256" "v div 256 div 256 mod 65536" "v div 256 mod 256"
        "v div 256 div 256 div 256 mod 256" "v div 256 div 256 mod 256"]
      zmod_zmult2_eq [of "2 ^ 24" v 256] zmod_zmult2_eq [of "2 ^ 16" "v div 256" 256]
      zmod_zmult2_eq [of "2 ^ 8" "v div 256 div 256" 256] by (metis eight)
qed

text \<open>The fields of the boot sector that describe the volume.\<close>

lemma boot_fields:
  assumes "boot_sector_init now d label (zero_sector, zero_sector) = (boot, info)"
  defines "c \<equiv> get_sectors_per_cluster d"
  shows "peekS 0x0b boot = 512" "byte_val (boot ! 0xd) = c mod 256" "peekS 0xe boot = 32" "byte_val (boot ! 0x10) = 2"
    "peekW 0x20 boot = (d sdiv 512) mod 2 ^ 32" "peekW 0x24 boot = get_sectors_per_fat d c mod 2 ^ 32"
    "peekW 0x2c boot = 2" "peekS 0x30 boot = 1" "peekS 0x32 boot = 6"
    "byte_val (boot ! 510) = 0x55" "byte_val (boot ! 511) = 0xAA"
    "peekW 488 info = (d sdiv 512 - 32 - 2 * get_sectors_per_fat d c) mod 2 ^ 32"
proof -
  have boot: "boot = fst (boot_sector_init now d label (zero_sector, zero_sector))"
    "info = snd (boot_sector_init now d label (zero_sector, zero_sector))"
    using assms(1) by simp_all
  note boot_simps = boot boot_sector_init_def BYTES_PER_SECTOR_def RESERVED_SECTORS_def NUM_FATS_def BACKUP_BOOT_SECTOR_def
    Let_def prod.case fst_conv snd_conv peekS_def peekW_def
  show "peekS 0x0b boot = 512" "byte_val (boot ! 0xd) = c mod 256" "peekS 0xe boot = 32" "byte_val (boot ! 0x10) = 2"
    unfolding boot_simps c_def by (simp_all add: nth_pokes length_pokes)
  show "peekW 0x20 boot = (d sdiv 512) mod 2 ^ 32" "peekW 0x24 boot = get_sectors_per_fat d c mod 2 ^ 32"
    unfolding boot_simps c_def by (simp_all add: nth_pokes length_pokes word_bytes)
  show "peekW 0x2c boot = 2" "peekS 0x30 boot = 1" "peekS 0x32 boot = 6" "byte_val (boot ! 510) = 0x55" "byte_val (boot ! 511) = 0xAA"
    unfolding boot_simps by (simp_all add: nth_pokes length_pokes)
  show "peekW 488 info = (d sdiv 512 - 32 - 2 * get_sectors_per_fat d c) mod 2 ^ 32"
    unfolding boot_simps c_def by (simp add: nth_pokes length_pokes word_bytes)
qed

text \<open>The sectors of an image, and which one stands where.\<close>

definition sector :: "bytes \<Rightarrow> nat \<Rightarrow> bytes" where
  "sector img k = take 512 (drop (512 * k) img)"

definition image_sector :: "bytes \<Rightarrow> bytes \<Rightarrow> nat \<Rightarrow> nat \<Rightarrow> bytes" where
  "image_sector boot info s k =
     (if k = 0 \<or> k = 6 then boot
      else if k = 1 \<or> k = 7 then info
      else if k = 32 \<or> k = 32 + s then fat_init zero_sector
      else zero_sector)"

lemma sector_concat:
  "list_all (\<lambda>s. length s = 512) ss \<Longrightarrow> k < length ss \<Longrightarrow> sector (concat ss) k = ss ! k"
proof (induction ss arbitrary: k)
  case (Cons s ss)
  then show ?case
    by (cases k) (simp_all add: sector_def)
qed simp

lemma length_concat_sectors: "list_all (\<lambda>s. length s = 512) ss \<Longrightarrow> length (concat ss) = 512 * length ss"
  by (induction ss) simp_all

lemma zeros_sectors: "replicate (nat (int k * BYTES_PER_SECTOR)) NUL = concat (replicate k zero_sector)"
proof (induction k)
  case (Suc k)
  have "nat (int (Suc k) * BYTES_PER_SECTOR) = 512 + nat (int k * BYTES_PER_SECTOR)"
    by (simp add: BYTES_PER_SECTOR_def)
  then show ?case
    using Suc by (simp add: replicate_add zero_sector_def BYTES_PER_SECTOR_def)
qed simp

text \<open>The writes as sectors: \<open>s\<close> is the size of a FAT and \<open>n\<close> the number of sectors of the disk.\<close>

lemma image_sectors:
  assumes "0 < s" "32 + 2 * s \<le> n" "length boot = 512" "length info = 512"
  obtains ss where "concat (map write_bytes (image_writes boot info (fat_init zero_sector) (int s) (int n))) = concat ss"
    "list_all (\<lambda>s. length s = 512) ss" "length ss = n" "\<And>k. k < n \<Longrightarrow> ss ! k = image_sector boot info s k"
proof -
  let ?z = "\<lambda>k. replicate k zero_sector" and ?f = "fat_init zero_sector"
  let ?ss = "[boot, info] @ ?z 4 @ [boot, info] @ ?z 24 @ [?f] @ ?z (s - 1) @ [?f] @ ?z (s - 1) @ ?z (n - 32 - 2 * s)"
  have i: "int s - 1 = int (s - 1)" "int n - 32 - 2 * int s = int (n - 32 - 2 * s)" "(4 :: int) = int 4" "(24 :: int) = int 24"
    using assms by simp_all
  have "concat (map write_bytes (image_writes boot info ?f (int s) (int n))) = concat ?ss"
    using zeros_sectors [of 4] zeros_sectors [of 24] zeros_sectors [of "s - 1"] zeros_sectors [of "n - 32 - 2 * s"]
    unfolding image_writes_def BACKUP_BOOT_SECTOR_def RESERVED_SECTORS_def i(1,2) by simp
  moreover have "list_all (\<lambda>s. length s = 512) ?ss"
    using assms length_fat_init by (auto simp: list_all_iff)
  moreover have "length ?ss = n"
    using assms by simp
  moreover have "?ss ! k = image_sector boot info s k" if "k < n" for k
    using assms that by (auto simp: image_sector_def nth_append nth_Cons')
  ultimately show ?thesis
    using that by blast
qed

section \<open>Arguments\<close>

lemma parse_options_label:
  "rel_option (\<lambda>x y. snd x = snd y) (parse_options args l) (parse_options args l')"
proof (induction args l arbitrary: l' rule: parse_options.induct)
  case (1 l)
  then show ?case
    by simp
next
  case (2 a args l)
  show ?case
  proof (cases "a \<noteq> [] \<and> hd a = CHR ''-'' \<and> tl a \<noteq> [] \<and> hd (tl a) = CHR ''l''")
    case False
    then show ?thesis
      by (auto simp: Let_def)
  next
    case True
    show ?thesis
    proof (cases "tl (tl a) = []")
      case False
      then show ?thesis
        using True option.rel_refl [of "\<lambda>x y. snd x = snd y" "parse_options args (Some (drop 2 (tl a)))"]
        by (simp add: Let_def)
    next
      case True
      then show ?thesis
        using \<open>a \<noteq> [] \<and> _\<close> option.rel_refl [of "\<lambda>x y. snd x = snd y"] by (auto simp: Let_def split: list.split)
    qed
  qed
qed

lemma size_of_arg_ok: "size_of_arg arg = Some d \<Longrightarrow> disk_size_ok d"
  by (auto simp: size_of_arg_def disk_size_ok_def Let_def split: prod.splits if_splits)

text \<open>A printed number of megabytes is read as that many.\<close>

lemma size_of_arg_M:
  assumes "9 \<le> n" "n < 2 ^ 20"
  shows "size_of_arg (fmt_u n @ ''M'') = Some (int n * 1024 * 1024)"
proof -
  have all: "list_all decimal_char (fmt_u n)"
    by (rule fmt_u_decimal)
  then have h: "decimal_char (hd (fmt_u n))"
    using fmt_u_nonempty [of n] by (cases "fmt_u n") simp_all
  have "takeWhile decimal_char (fmt_u n @ ''M'') = fmt_u n" "dropWhile decimal_char (fmt_u n @ ''M'') = ''M''"
    using all by (simp_all add: takeWhile_append2 dropWhile_append2 list_all_iff decimal_char_def)
  moreover have "hd (fmt_u n) \<notin> {SPC, TAB, LF, CR, CHR 0x0B, CHR 0x0C, CHR ''-'', CHR ''+''}"
    using h by (auto simp: decimal_char_def)
  ultimately have "strtoll10 (fmt_u n @ ''M'') = (int n, ''M'', False)"
    using assms fmt_u_value [of n] fmt_u_nonempty [of n]
    by (cases "fmt_u n") (auto simp: strtoll10_def isspace_def Let_def)
  moreover have "signed_take_bit 63 (int n * 1048576) = int n * 1048576"
    using assms by (intro signed_take_bit_int_eq_self) auto
  ultimately show ?thesis
    using assms by (simp add: size_of_arg_def MAX_DISK_SIZE_def MAX_SECTORS_PER_DISK_def BYTES_PER_SECTOR_def)
qed

text \<open>The product is not checked: a size of more than \<open>2^64\<close> bytes passes as one gigabyte.\<close>

lemma huge_size_accepted: "size_of_arg ''17179869185G'' = Some (2 ^ 30)"
  by code_simp

section \<open>Properties\<close>

definition FAT_SECTORS :: "int \<Rightarrow> int" where
  "FAT_SECTORS d = get_sectors_per_fat d (get_sectors_per_cluster d)"

definition disk_sectors :: "time \<Rightarrow> int \<Rightarrow> nat \<Rightarrow> bytes" where
  "disk_sectors now d =
     (let (boot, info) = boot_sector_init now d None (zero_sector, zero_sector)
      in image_sector boot info (nat (FAT_SECTORS d)))"

lemma main_image:
  assumes "parse_options args None = Some (label, [arg, file])" "size_of_arg arg = Some d"
  obtains img where "length img = 512 * nat (d div 512)" "\<And>k. k < nat (d div 512) \<Longrightarrow> sector img k = disk_sectors now d k"
    "mksdcard_main now (Some room) args = (if 512 * nat (d div 512) \<le> room then (0, Some img) else (1, None))"
proof -
  note ok = size_of_arg_ok [OF assms(2)]
  obtain boot info where b: "boot_sector_init now d None (zero_sector, zero_sector) = (boot, info)"
    by fastforce
  note len = length_boot [OF b]
  define s n where "s = nat (FAT_SECTORS d)" and "n = nat (d div 512)"
  have sn: "FAT_SECTORS d = int s" "d sdiv 512 = int n" "0 < s" "32 + 2 * s \<le> n"
    using sectors_per_fat_bounds [OF ok] by (auto simp: s_def n_def FAT_SECTORS_def sdiv_pos)
  obtain ss where ss: "concat (map write_bytes (image_writes boot info (fat_init zero_sector) (int s) (int n))) = concat ss"
    "list_all (\<lambda>s. length s = 512) ss" "length ss = n" "\<And>k. k < n \<Longrightarrow> ss ! k = image_sector boot info s k"
    using image_sectors [OF sn(3,4) len] by blast
  let ?f = "\<lparr>f_data = [], f_room = room\<rparr>"
  have ws: "list_all (\<lambda>w. case w of Sector s \<Rightarrow> length s = nat BYTES_PER_SECTOR | Empty n \<Rightarrow> True)
      (image_writes boot info (fat_init zero_sector) (int s) (int n))"
    using len length_fat_init by (simp add: image_writes_def BACKUP_BOOT_SECTOR_def BYTES_PER_SECTOR_def)
  have "mksdcard_main now (Some room) args =
      (let (failed, f) = write_all (image_writes boot info (fat_init zero_sector) (int s) (int n)) ?f
       in if failed then (1, None) else (0, Some (f_data f)))"
    using assms b sn(1,2) by (simp add: mksdcard_main_def FAT_SECTORS_def BYTES_PER_SECTOR_def)
  also have "\<dots> = (if 512 * n \<le> room then (0, Some (concat ss)) else (1, None))"
    using write_all_result [OF ws, of ?f] length_concat_sectors [OF ss(2)] unfolding ss(1)
    by (auto simp: ss(3) split: if_splits prod.splits)
  finally show ?thesis
    using that [of "concat ss"] length_concat_sectors [OF ss(2)] sector_concat [OF ss(2)] ss(3,4) b
    by (simp add: disk_sectors_def s_def n_def)
qed


lemma arg_9M: "size_of_arg ''9M'' = Some (9 * 1024 * 1024)"
  by code_simp


text \<open>C38: The volume the boot sector describes is the image, and its FAT has an entry for each of its
  clusters, for every size the program accepts: the count of clusters is what a FAT32 driver computes
  from the fields. The FSInfo sector however counts the free sectors, not the free clusters: it
  announces the number of clusters times the sectors of one.\<close>

theorem image_geometry:
  assumes "parse_options args None = Some (label, [arg, file])" "size_of_arg arg = Some d"
    and "mksdcard_main now (Some room) args = (0, Some img)"
  defines "boot \<equiv> sector img 0" and "info \<equiv> sector img 1"
  shows "peekW 0x20 boot = int (length img) div 512 \<and> peekW 0x24 boot = FAT_SECTORS d \<and>
    (peekW 0x20 boot - (peekS 0xe boot + byte_val (boot ! 0x10) * peekW 0x24 boot)) div byte_val (boot ! 0xd) + 2
      \<le> peekW 0x24 boot * peekS 0xb boot div 4 \<and>
    peekW 488 info = peekW 0x20 boot - (32 + 2 * peekW 0x24 boot)"
proof -
  let ?c = "get_sectors_per_cluster d" and ?n = "d div 512"
  note ok = size_of_arg_ok [OF assms(2)]
  note b = sectors_per_fat_bounds [OF ok, folded FAT_SECTORS_def]
  obtain bt nf where bi: "boot_sector_init now d None (zero_sector, zero_sector) = (bt, nf)"
    by fastforce
  obtain im where im: "length im = 512 * nat ?n" "\<And>k. k < nat ?n \<Longrightarrow> sector im k = disk_sectors now d k"
    "mksdcard_main now (Some room) args = (if 512 * nat ?n \<le> room then (0, Some im) else (1, None))"
    using main_image [OF assms(1,2), of now room] by metis
  have img: "img = im"
    using im(3) assms(3) by (simp split: if_splits)
  have sec: "boot = bt" "info = nf"
    using im(2) [of 0] im(2) [of 1] b(5) bi by (simp_all add: boot_def info_def img disk_sectors_def image_sector_def)
  note f = boot_fields [OF bi, folded FAT_SECTORS_def]
  have c: "?c mod 256 = ?c" "0 < ?c"
    using cluster_sizes [of d] by auto
  have n: "d sdiv 512 = ?n" "?n mod 2 ^ 32 = ?n"
    using b(5,6) by (simp_all add: sdiv_pos)
  have s: "FAT_SECTORS d mod 2 ^ 32 = FAT_SECTORS d" "(?n - 32 - 2 * FAT_SECTORS d) mod 2 ^ 32 = ?n - 32 - 2 * FAT_SECTORS d"
    using b by simp_all
  have "(?n - (32 + 2 * FAT_SECTORS d)) div ?c + 2 \<le> FAT_SECTORS d * 512 div 4"
  proof -
    have "?n - (32 + 2 * FAT_SECTORS d) + 2 * ?c \<le> FAT_SECTORS d * 128 * ?c"
      using b(1,2) by (simp add: algebra_simps)
    then have "(?n - (32 + 2 * FAT_SECTORS d) + 2 * ?c) div ?c \<le> FAT_SECTORS d * 128 * ?c div ?c"
      by (rule zdiv_mono1) (use c in simp)
    then show ?thesis
      using c(2) by simp
  qed
  then show ?thesis
    using f c n s b(5) unfolding sec img im(1) by simp
qed

lemma image_geometry_witness:
  "\<exists>img. mksdcard_main \<lparr>tm_mday = 1, tm_mon = 0, tm_year = 112, tm_hour = 12, tm_min = 30, tm_sec = 0\<rparr> (Some 10000000) [''9M'', ''sdcard''] = (0, Some img) \<and>
    peekW 0x20 (sector img 0) = 18432 \<and> peekW 0x24 (sector img 0) = 143 \<and> peekW 488 (sector img 1) = 18114"
proof -
  have args: "parse_options [''9M'', ''sdcard''] None = Some (None, [''9M'', ''sdcard''])"
    by simp
  obtain img where img: "length img = 9437184" "mksdcard_main \<lparr>tm_mday = 1, tm_mon = 0, tm_year = 112, tm_hour = 12, tm_min = 30, tm_sec = 0\<rparr> (Some 10000000) [''9M'', ''sdcard''] = (0, Some img)"
    using main_image [OF args arg_9M, of "\<lparr>tm_mday = 1, tm_mon = 0, tm_year = 112, tm_hour = 12, tm_min = 30, tm_sec = 0\<rparr>" 10000000] by auto
  have "FAT_SECTORS (9 * 1024 * 1024) = 143"
    by code_simp
  then show ?thesis
    using image_geometry [OF args arg_9M img(2)] img by auto
qed

text \<open>The option \<open>-l\<close> has no effect: the label is parsed and then NULL is passed on, so every image is
  called SDCARD.\<close>

theorem label_ignored:
  "mksdcard_main now device (''-l'' # label # args) = mksdcard_main now device args"
  using parse_options_label [of args "Some label" None]
  by (cases "parse_options args (Some label)"; cases "parse_options args None") (auto simp: mksdcard_main_def)

end
