(* ===== verification/Config_Utils.thy ===== *)
theory Config_Utils
  imports Interfaces
begin

text \<open>
  The configuration trees of \<open>libs/libcutils/config_utils.c\<close>. A node is a tree: the children hang in the
  order of the list that \<open>first_child\<close>, \<open>next\<close> and \<open>last_child\<close> make. The text is the list of bytes before
  its NUL; the lexer ends its tokens by overwriting the byte behind them, which it has read and does not
  read again, so that a token is a list of its own. Allocations succeed.
\<close>

section \<open>Nodes\<close>

datatype cnode = CNode (cn_name: bytes) (cn_value: bytes) (cn_children: "cnode list")

definition config_node :: "bytes option \<Rightarrow> bytes option \<Rightarrow> cnode" where
  "config_node name value = CNode (case name of None \<Rightarrow> [] | Some n \<Rightarrow> n) (case value of None \<Rightarrow> [] | Some v \<Rightarrow> v) []"

text \<open>The index of the last child with the name: the walk goes through the whole list.\<close>

fun find_child :: "cnode list \<Rightarrow> bytes \<Rightarrow> nat \<Rightarrow> nat option \<Rightarrow> nat option" where
  "find_child [] name i match = match"
| "find_child (n # ns) name i match = find_child ns name (i + 1) (if cn_name n = name then Some i else match)"

definition config_find :: "cnode \<Rightarrow> bytes \<Rightarrow> nat option" where
  "config_find root name = find_child (cn_children root) name 0 None"

definition set_value :: "cnode \<Rightarrow> bytes \<Rightarrow> cnode" where
  "set_value node v = CNode (cn_name node) v (cn_children node)"

definition add_child :: "cnode \<Rightarrow> cnode \<Rightarrow> cnode" where
  "add_child root node = CNode (cn_name root) (cn_value root) (cn_children root @ [node])"

definition put_child :: "cnode \<Rightarrow> nat \<Rightarrow> cnode \<Rightarrow> cnode" where
  "put_child root i node = CNode (cn_name root) (cn_value root) ((cn_children root)[i := node])"

definition config_bool :: "cnode \<Rightarrow> bytes \<Rightarrow> int \<Rightarrow> int" where
  "config_bool root name deflt =
     (case config_find root name of
        None \<Rightarrow> deflt
      | Some i \<Rightarrow>
          let v = cn_value (cn_children root ! i)
          in if v \<noteq> [] \<and> hd v \<in> {CHR ''y'', CHR ''Y'', CHR ''1''} then 1 else 0)"

definition config_str :: "cnode \<Rightarrow> bytes \<Rightarrow> bytes \<Rightarrow> bytes" where
  "config_str root name deflt =
     (case config_find root name of None \<Rightarrow> deflt | Some i \<Rightarrow> cn_value (cn_children root ! i))"

definition config_set :: "cnode \<Rightarrow> bytes \<Rightarrow> bytes \<Rightarrow> cnode" where
  "config_set root name value =
     (case config_find root name of
        Some i \<Rightarrow> put_child root i (set_value (cn_children root ! i) value)
      | None \<Rightarrow> add_child root (set_value (config_node (Some name) None) value))"

section \<open>The lexer\<close>

datatype token = T_EOF | T_TEXT | T_DOT | T_OBRACE | T_CBRACE

text \<open>\<open>cs_next\<close> is NUL when there is none.\<close>

record cstate =
  cs_data :: bytes
  cs_text :: bytes
  cs_next :: char

text \<open>A value ends at the newline; the white space before the newline is cut, the white space before
  the end of the text is not.\<close>

definition strip_end :: "bytes \<Rightarrow> bytes" where
  "strip_end s = rev (dropWhile isspace (rev s))"

definition lex_value :: "bytes \<Rightarrow> cstate \<Rightarrow> token \<times> cstate" where
  "lex_value s cs =
     (let t = takeWhile (\<lambda>c. c \<noteq> LF) s; rest = dropWhile (\<lambda>c. c \<noteq> LF) s
      in if rest = [] then (T_TEXT, cs\<lparr>cs_text := t, cs_data := []\<rparr>)
         else (T_TEXT, cs\<lparr>cs_text := take 1 t @ strip_end (drop 1 t), cs_data := tl rest\<rparr>))"

definition name_ends :: "char \<Rightarrow> bool" where
  "name_ends c \<longleftrightarrow> isspace c \<or> c \<in> {CHR ''.'', CHR ''{'', CHR ''}''}"

text \<open>\<open>s\<close> starts with the first byte of the name, which is not looked at again.\<close>

definition lex_name :: "bytes \<Rightarrow> cstate \<Rightarrow> token \<times> cstate" where
  "lex_name s cs =
     (let t = take 1 s @ takeWhile (\<lambda>c. \<not> name_ends c) (drop 1 s); rest = dropWhile (\<lambda>c. \<not> name_ends c) (drop 1 s)
      in case rest of
           [] \<Rightarrow> (T_TEXT, cs\<lparr>cs_text := t, cs_data := []\<rparr>)
         | c # rest \<Rightarrow> (T_TEXT, cs\<lparr>cs_text := t, cs_data := rest, cs_next := (if isspace c then cs_next cs else c)\<rparr>))"

text \<open>The loop from \<open>restart\<close> on, over the bytes at \<open>data\<close>. A comment is skipped up to its newline.\<close>

function lex_loop :: "bool \<Rightarrow> bytes \<Rightarrow> cstate \<Rightarrow> token \<times> cstate" where
  "lex_loop value data cs =
     (case data of
        [] \<Rightarrow> (T_EOF, cs)
      | c # data' \<Rightarrow>
          if isspace c then lex_loop value data' cs
          else if c = CHR ''#'' then
            (case dropWhile (\<lambda>c. c \<noteq> LF) data' of
               [] \<Rightarrow> (T_EOF, cs\<lparr>cs_data := []\<rparr>)
             | nl # rest \<Rightarrow> lex_loop value (nl # rest) (cs\<lparr>cs_data := rest\<rparr>))
          else if c = CHR ''.'' then (T_DOT, cs\<lparr>cs_data := data'\<rparr>)
          else if c = CHR ''{'' then (T_OBRACE, cs\<lparr>cs_data := data'\<rparr>)
          else if c = CHR ''}'' then (T_CBRACE, cs\<lparr>cs_data := data'\<rparr>)
          else if value then lex_value data cs else lex_name data cs)"
  by auto
termination
  by (relation "measure (\<lambda>(v, d, cs). length d)") (auto dest: dropWhile_shorter)

declare lex_loop.simps [simp del]

text \<open>The byte kept in \<open>next\<close> comes first.\<close>

definition lex :: "cstate \<Rightarrow> bool \<Rightarrow> token \<times> cstate" where
  "lex cs value =
     (if cs_next cs \<noteq> NUL then lex_loop value (cs_next cs # cs_data cs) (cs\<lparr>cs_next := NUL\<rparr>)
      else lex_loop value (cs_data cs) cs)"

section \<open>The parser\<close>

text \<open>Each function returns 0 or -1, the state of the lexer and the node with what was added to it. A
  fuel bounds the calls and the turns of the loops; \<open>parse_rest\<close> is the loop of \<open>parse_expr\<close>.\<close>

fun parse_block :: "nat \<Rightarrow> cstate \<Rightarrow> cnode \<Rightarrow> fault + int \<times> cstate \<times> cnode"
  and parse_expr :: "nat \<Rightarrow> cstate \<Rightarrow> cnode \<Rightarrow> fault + int \<times> cstate \<times> cnode"
  and parse_rest :: "nat \<Rightarrow> cstate \<Rightarrow> cnode \<Rightarrow> fault + int \<times> cstate \<times> cnode" where
  "parse_block 0 cs node = Inl Hang"
| "parse_block (Suc n) cs node =
     (let (tok, cs) = lex cs False
      in if tok = T_TEXT then
           bindE (parse_expr n cs node) (\<lambda>(r, cs, node). if r \<noteq> 0 then Inr (-1, cs, node) else parse_block n cs node)
         else if tok = T_CBRACE then Inr (0, cs, node)
         else Inr (-1, cs, node))"
| "parse_expr 0 cs root = Inl Hang"
| "parse_expr (Suc n) cs root =
     (case config_find root (cs_text cs) of
        Some i \<Rightarrow>
          if cn_value (cn_children root ! i) \<noteq> [] then
            bindE (parse_rest n cs (config_node (Some (cs_text cs)) None)) (\<lambda>(r, cs, node). Inr (r, cs, add_child root node))
          else bindE (parse_rest n cs (cn_children root ! i)) (\<lambda>(r, cs, node). Inr (r, cs, put_child root i node))
      | None \<Rightarrow>
          bindE (parse_rest n cs (config_node (Some (cs_text cs)) None)) (\<lambda>(r, cs, node). Inr (r, cs, add_child root node)))"
| "parse_rest 0 cs node = Inl Hang"
| "parse_rest (Suc n) cs node =
     (let (tok, cs) = lex cs True
      in if tok = T_DOT then
           (let (tok, cs) = lex cs False
            in if tok \<noteq> T_TEXT then Inr (-1, cs, node)
               else bindE (parse_rest n cs (config_node (Some (cs_text cs)) None)) (\<lambda>(r, cs, child). Inr (r, cs, add_child node child)))
         else if tok = T_TEXT then Inr (0, cs, set_value node (cs_text cs))
         else if tok = T_OBRACE then parse_block n cs node
         else Inr (-1, cs, node))"

fun config_load_loop :: "nat \<Rightarrow> cstate \<Rightarrow> cnode \<Rightarrow> fault + cnode" where
  "config_load_loop 0 cs root = Inl Hang"
| "config_load_loop (Suc n) cs root =
     (let (tok, cs) = lex cs False
      in if tok = T_TEXT then
           bindE (parse_expr n cs root) (\<lambda>(r, cs, root). if r \<noteq> 0 then Inr root else config_load_loop n cs root)
         else Inr root)"

text \<open>Every call and every turn reads a byte, or is the \<open>parse_rest\<close> after a name.\<close>

definition config_load :: "cnode \<Rightarrow> bytes option \<Rightarrow> fault + cnode" where
  "config_load root data =
     (case data of
        None \<Rightarrow> Inr root
      | Some data \<Rightarrow> config_load_loop (3 * length data + 3) \<lparr>cs_data = data, cs_text = [], cs_next = NUL\<rparr> root)"

definition config_load_file :: "(bytes \<Rightarrow> bytes option) \<Rightarrow> cnode \<Rightarrow> bytes \<Rightarrow> fault + cnode" where
  "config_load_file load_file root fn = config_load root (load_file fn)"

section \<open>Lookups\<close>

lemma find_child_snoc: "find_child (ns @ [x]) name i m = (if cn_name x = name then Some (i + length ns) else find_child ns name i m)"
  by (induction ns arbitrary: i m) simp_all

lemma find_child_Some:
  "find_child ns name 0 None = Some j \<Longrightarrow> j < length ns \<and> cn_name (ns ! j) = name"
  by (induction ns rule: rev_induct) (auto simp: find_child_snoc nth_append split: if_splits)

lemma find_child_names: "map cn_name ns = map cn_name ns' \<Longrightarrow> find_child ns name i m = find_child ns' name i m"
proof (induction ns arbitrary: ns' i m)
  case (Cons n ns)
  then obtain n' l where ns': "ns' = n' # l" "cn_name n = cn_name n'" "map cn_name ns = map cn_name l"
    by auto
  show ?case
    unfolding ns'(1) using ns'(2) Cons.IH [OF ns'(3)] by simp
qed simp

definition config_lookup :: "cnode \<Rightarrow> bytes \<Rightarrow> bytes option" where
  "config_lookup root name = map_option (\<lambda>i. cn_value (cn_children root ! i)) (config_find root name)"

lemma config_lookup_set: "config_lookup (config_set root name v) = (config_lookup root)(name \<mapsto> v)"
proof
  fix k
  show "config_lookup (config_set root name v) k = ((config_lookup root)(name \<mapsto> v)) k"
  proof (cases "config_find root name")
    case None
    have find: "config_find (config_set root name v) k = (if name = k then Some (length (cn_children root)) else config_find root k)"
      using None by (simp add: config_find_def config_set_def add_child_def set_value_def config_node_def find_child_snoc)
    show ?thesis
    proof (cases "config_find root k")
      case (Some i)
      then have "i < length (cn_children root)"
        using find_child_Some by (auto simp: config_find_def)
      then show ?thesis
        using None Some find by (simp add: config_lookup_def config_set_def add_child_def set_value_def config_node_def nth_append)
    qed (use None find in \<open>simp add: config_lookup_def config_set_def add_child_def set_value_def config_node_def\<close>)
  next
    case (Some j)
    then have j: "j < length (cn_children root)" "cn_name (cn_children root ! j) = name"
      using find_child_Some by (auto simp: config_find_def)
    have "map cn_name ((cn_children root)[j := set_value (cn_children root ! j) v]) = map cn_name (cn_children root)"
      using j by (intro nth_equalityI) (auto simp: nth_list_update set_value_def)
    from find_child_names [OF this] have find: "config_find (config_set root name v) k = config_find root k" for k
      using Some by (simp add: config_find_def config_set_def put_child_def)
    show ?thesis
    proof (cases "config_find root k")
      case None
      then show ?thesis
        using Some find by (auto simp: config_lookup_def)
    next
      case (Some i)
      then have "i < length (cn_children root)" "cn_name (cn_children root ! i) = k"
        using find_child_Some by (auto simp: config_find_def)
      then show ?thesis
        using \<open>config_find root name = Some j\<close> Some find [of k] j
        by (cases "i = j") (auto simp: config_lookup_def config_set_def put_child_def set_value_def nth_list_update)
    qed
  qed
qed

interpretation config_store: map_store config_lookup "\<lambda>k v root. config_set root k v" "\<lambda>_. True"
  by unfold_locales (simp_all add: config_lookup_set)

lemma config_str_lookup: "config_str root name deflt = (case config_lookup root name of None \<Rightarrow> deflt | Some v \<Rightarrow> v)"
  by (simp add: config_str_def config_lookup_def split: option.split)

section \<open>Termination\<close>

definition cs_left :: "cstate \<Rightarrow> nat" where
  "cs_left cs = length (cs_data cs) + (if cs_next cs = NUL then 0 else 1)"

lemma lex_value_left:
  assumes "lex_value d cs = (tok, cs')" "d \<noteq> []" "cs_next cs = NUL"
  shows "cs_left cs' < length d"
proof (cases "dropWhile (\<lambda>c. c \<noteq> LF) d")
  case Nil
  then have "cs' = cs\<lparr>cs_text := takeWhile (\<lambda>c. c \<noteq> LF) d, cs_data := []\<rparr>"
    using assms(1) unfolding lex_value_def Let_def Nil by simp
  then show ?thesis
    using assms(2,3) by (simp add: cs_left_def)
next
  case (Cons nl rest)
  then have "cs_data cs' = rest" "cs_next cs' = NUL"
    using assms(1,3) unfolding lex_value_def Let_def Cons by auto
  then show ?thesis
    using dropWhile_shorter [OF Cons] by (simp add: cs_left_def)
qed

lemma lex_name_left:
  assumes "lex_name (c # d) cs = (tok, cs')" "cs_next cs = NUL"
  shows "cs_left cs' < length (c # d)"
proof (cases "dropWhile (\<lambda>c. \<not> name_ends c) d")
  case Nil
  then have "cs_data cs' = [] \<and> cs_next cs' = NUL"
    using assms unfolding lex_name_def Let_def drop_Suc_Cons drop_0 One_nat_def Nil by auto
  then show ?thesis
    by (simp add: cs_left_def)
next
  case (Cons e rest)
  then have "cs_data cs' = rest"
    using assms(1) unfolding lex_name_def Let_def drop_Suc_Cons drop_0 One_nat_def Cons by auto
  then show ?thesis
    using dropWhile_shorter [OF Cons] by (simp add: cs_left_def)
qed

lemma lex_loop_left:
  assumes "lex_loop v d cs = (tok, cs')" "tok \<noteq> T_EOF" "cs_next cs = NUL"
  shows "cs_left cs' < length d"
  using assms
proof (induction v d cs rule: lex_loop.induct)
  case (1 v d cs)
  show ?case
  proof (cases d)
    case Nil
    then show ?thesis
      using 1(3,4) by (simp add: lex_loop.simps)
  next
    case (Cons c d')
    consider "isspace c" | "\<not> isspace c" "c = CHR ''#''" | "\<not> isspace c" "c \<noteq> CHR ''#''" "c \<in> {CHR ''.'', CHR ''{'', CHR ''}''}"
      | "\<not> isspace c" "c \<noteq> CHR ''#''" "c \<notin> {CHR ''.'', CHR ''{'', CHR ''}''}" "v"
      | "\<not> isspace c" "c \<noteq> CHR ''#''" "c \<notin> {CHR ''.'', CHR ''{'', CHR ''}''}" "\<not> v"
      by blast
    then show ?thesis
    proof cases
      case 1
      then have "lex_loop v d' cs = (tok, cs')"
        using "1.prems"(1) Cons by (simp add: lex_loop.simps)
      then show ?thesis
        using "1.IH"(1) [OF Cons 1] "1.prems" Cons by simp
    next
      case 2
      then show ?thesis
      proof (cases "dropWhile (\<lambda>c. c \<noteq> LF) d'")
        case Nil
        then show ?thesis
          using 2 "1.prems" Cons by (simp add: lex_loop.simps del: dropWhile_eq_Nil_conv)
      next
        case c2: (Cons nl rest)
        then have "lex_loop v (nl # rest) (cs\<lparr>cs_data := rest\<rparr>) = (tok, cs')"
          using 2 "1.prems"(1) Cons by (subst (asm) lex_loop.simps) simp
        then show ?thesis
          using "1.IH"(2) [OF Cons 2 c2] "1.prems" Cons dropWhile_shorter [OF c2] by simp
      qed
    next
      case 3
      then show ?thesis
        using "1.prems" Cons by (subst (asm) lex_loop.simps) (auto simp: cs_left_def)
    next
      case 4
      then have "lex_value d cs = (tok, cs')"
        using "1.prems"(1) Cons by (subst (asm) lex_loop.simps) simp
      then show ?thesis
        using lex_value_left [of d cs tok cs'] "1.prems"(3) Cons by simp
    next
      case 5
      then have "lex_name d cs = (tok, cs')"
        using "1.prems"(1) Cons by (subst (asm) lex_loop.simps) simp
      then show ?thesis
        using lex_name_left [of c d' cs tok cs'] "1.prems"(3) Cons by simp
    qed
  qed
qed

lemma lex_left:
  assumes "lex cs v = (tok, cs')" "tok \<noteq> T_EOF"
  shows "cs_left cs' < cs_left cs"
proof (cases "cs_next cs = NUL")
  case True
  then show ?thesis
    using lex_loop_left [of v "cs_data cs" cs tok cs'] assms by (simp add: lex_def cs_left_def)
next
  case False
  then show ?thesis
    using lex_loop_left [of v "cs_next cs # cs_data cs" "cs\<lparr>cs_next := NUL\<rparr>" tok cs'] assms
    by (simp add: lex_def cs_left_def)
qed

text \<open>The fuel that suffices, for each of the functions.\<close>

abbreviation parsed :: "cstate \<Rightarrow> fault + int \<times> cstate \<times> cnode \<Rightarrow> bool" where
  "parsed cs res \<equiv> \<exists>r cs' node. res = Inr (r, cs', node) \<and> (r = 0 \<longrightarrow> cs_left cs' \<le> cs_left cs)"

lemma bindE_parsed: "parsed cs m \<Longrightarrow> (\<And>r cs' node. r = 0 \<longrightarrow> cs_left cs' \<le> cs_left cs \<Longrightarrow> k (r, cs', node) = Inr (r, cs', f node)) \<Longrightarrow> parsed cs (bindE m k)"
  by auto

lemma parsed_mono: "parsed cs' m \<Longrightarrow> cs_left cs' \<le> cs_left cs \<Longrightarrow> parsed cs m"
  by fastforce

lemma parser_fuel:
  "(3 * cs_left cs + 1 \<le> n \<longrightarrow> parsed cs (parse_block n cs node)) \<and>
   (3 * cs_left cs + 2 \<le> n \<longrightarrow> parsed cs (parse_expr n cs node)) \<and>
   (3 * cs_left cs + 1 \<le> n \<longrightarrow> parsed cs (parse_rest n cs node))"
proof (induction n arbitrary: cs node)
  case 0
  then show ?case
    by simp
next
  case (Suc n)
  have ihs: "3 * cs_left cs + 1 \<le> n \<Longrightarrow> parsed cs (parse_block n cs node)"
    "3 * cs_left cs + 2 \<le> n \<Longrightarrow> parsed cs (parse_expr n cs node)"
    "3 * cs_left cs + 1 \<le> n \<Longrightarrow> parsed cs (parse_rest n cs node)" for cs node
    using Suc.IH [of cs node] by blast+
  have block: "parsed cs (parse_block (Suc n) cs node)" if "3 * cs_left cs + 1 \<le> Suc n" for cs node
  proof -
    obtain tok cs1 where l: "lex cs False = (tok, cs1)"
      by fastforce
    show ?thesis
    proof (cases "tok = T_TEXT")
      case True
      then have "cs_left cs1 < cs_left cs"
        using lex_left [OF l] by simp
      moreover from this have "3 * cs_left cs1 + 2 \<le> n"
        using that by linarith
      ultimately obtain r cs2 node2 where e: "parse_expr n cs1 node = Inr (r, cs2, node2)" "r = 0 \<longrightarrow> cs_left cs2 \<le> cs_left cs1"
        using ihs(2) by blast
      show ?thesis
      proof (cases "r = 0")
        case False
        then show ?thesis
          using l True e by simp
      next
        case r0: True
        then have "3 * cs_left cs2 + 1 \<le> n" "cs_left cs2 \<le> cs_left cs"
          using e that \<open>cs_left cs1 < cs_left cs\<close> by auto
        then have "parsed cs2 (parse_block n cs2 node2)" "cs_left cs2 \<le> cs_left cs"
          using ihs(1) by blast+
        then show ?thesis
          using l True e r0 parsed_mono by simp
      qed
    next
      case False
      then show ?thesis
        using l lex_left [OF l] by auto
    qed
  qed
  have rest: "parsed cs (parse_rest (Suc n) cs node)" if "3 * cs_left cs + 1 \<le> Suc n" for cs node
  proof -
    obtain tok cs1 where l: "lex cs True = (tok, cs1)"
      by fastforce
    obtain tok2 cs2 where l2: "lex cs1 False = (tok2, cs2)"
      by fastforce
    have left: "tok \<noteq> T_EOF \<longrightarrow> cs_left cs1 < cs_left cs" "tok2 \<noteq> T_EOF \<longrightarrow> cs_left cs2 < cs_left cs1"
      using lex_left [OF l] lex_left [OF l2] by simp_all
    show ?thesis
    proof (cases tok)
      case T_DOT
      show ?thesis
      proof (cases "tok2 = T_TEXT")
        case True
        then have "3 * cs_left cs2 + 1 \<le> n"
          using left T_DOT that by auto
        then obtain r cs3 node3 where "parse_rest n cs2 (config_node (Some (cs_text cs2)) None) = Inr (r, cs3, node3)"
          "r = 0 \<longrightarrow> cs_left cs3 \<le> cs_left cs2"
          using ihs(3) by blast
        then show ?thesis
          using l l2 T_DOT True left by auto
      qed (use l l2 T_DOT in simp)
    next
      case T_OBRACE
      then have "3 * cs_left cs1 + 1 \<le> n"
        using left that by auto
      then have "parsed cs1 (parse_block n cs1 node)"
        by (rule ihs(1))
      then show ?thesis
        using parsed_mono left l T_OBRACE by simp
    qed (use l left in auto)
  qed
  have expr: "parsed cs (parse_expr (Suc n) cs node)" if "3 * cs_left cs + 2 \<le> Suc n"
  proof -
    have r: "parsed cs (parse_rest n cs node)" for node
      by (rule ihs(3)) (use that in simp)
    show ?thesis
    proof (cases "config_find node (cs_text cs)")
      case None
      then show ?thesis
        using r [of "config_node (Some (cs_text cs)) None"] by auto
    next
      case (Some i)
      then show ?thesis
        using r [of "config_node (Some (cs_text cs)) None"] r [of "cn_children node ! i"] by auto
    qed
  qed
  show ?case
    using block rest expr by blast
qed

lemma config_load_fuel: "3 * cs_left cs + 1 \<le> n \<Longrightarrow> \<exists>root'. config_load_loop n cs root = Inr root'"
proof (induction n arbitrary: cs root)
  case (Suc n)
  obtain tok cs1 where l: "lex cs False = (tok, cs1)"
    by fastforce
  show ?case
  proof (cases "tok = T_TEXT")
    case True
    then have "cs_left cs1 < cs_left cs"
      using lex_left [OF l] by simp
    then obtain r cs2 root2 where e: "parse_expr n cs1 root = Inr (r, cs2, root2)" "r = 0 \<longrightarrow> cs_left cs2 \<le> cs_left cs1"
      using parser_fuel [of cs1 n root] Suc.prems by auto
    then show ?thesis
      using l True Suc.IH [of cs2 root2] Suc.prems \<open>cs_left cs1 < cs_left cs\<close> by auto
  qed (use l in simp)
qed simp

text \<open>More fuel does not change a result.\<close>

lemma parser_more_fuel:
  "(parse_block n cs node = Inr x \<longrightarrow> parse_block (Suc n) cs node = Inr x) \<and>
   (parse_expr n cs node = Inr x \<longrightarrow> parse_expr (Suc n) cs node = Inr x) \<and>
   (parse_rest n cs node = Inr x \<longrightarrow> parse_rest (Suc n) cs node = Inr x)"
proof (induction n arbitrary: cs node x)
  case 0
  then show ?case
    by simp
next
  case (Suc n)
  have ihs: "parse_block n cs node = Inr y \<Longrightarrow> parse_block (Suc n) cs node = Inr y"
    "parse_expr n cs node = Inr y \<Longrightarrow> parse_expr (Suc n) cs node = Inr y"
    "parse_rest n cs node = Inr y \<Longrightarrow> parse_rest (Suc n) cs node = Inr y" for cs node y
    using Suc.IH by blast+
  have rest_bind: "bindE (parse_rest (Suc n) cs node) k = Inr y" if "bindE (parse_rest n cs node) k = Inr y"
    for cs node y and k :: "int \<times> cstate \<times> cnode \<Rightarrow> fault + int \<times> cstate \<times> cnode"
    using that ihs(3) by (auto simp only: bindE_eq_Inr)
  have "parse_block (Suc (Suc n)) cs node = Inr x" if b: "parse_block (Suc n) cs node = Inr x"
  proof -
    obtain tok cs1 where l: "lex cs False = (tok, cs1)"
      by fastforce
    show ?thesis
    proof (cases "tok = T_TEXT")
      case True
      then obtain r cs2 node2 where e: "parse_expr n cs1 node = Inr (r, cs2, node2)"
        "(if r \<noteq> 0 then Inr (-1, cs2, node2) else parse_block n cs2 node2) = Inr x"
        using b l by (auto simp: bindE_eq_Inr)
      then have "(if r \<noteq> 0 then Inr (-1, cs2, node2) else parse_block (Suc n) cs2 node2) = Inr x"
        using ihs(1) [of cs2 node2 x] by (simp del: parse_block.simps split: if_splits)
      then show ?thesis
        using True l ihs(2) [OF e(1)] by (subst parse_block.simps(2)) (simp del: parse_block.simps parse_expr.simps)
    qed (use b l in \<open>subst parse_block.simps(2), simp\<close>)
  qed
  moreover have "parse_expr (Suc (Suc n)) cs node = Inr x" if e: "parse_expr (Suc n) cs node = Inr x"
    using e rest_bind unfolding parse_expr.simps(2) [of "Suc n"] parse_expr.simps(2) [of n]
    by (auto simp del: parse_rest.simps split: option.split_asm option.split if_splits)
  moreover have "parse_rest (Suc (Suc n)) cs node = Inr x" if e: "parse_rest (Suc n) cs node = Inr x"
  proof -
    obtain tok cs1 where l: "lex cs True = (tok, cs1)"
      by fastforce
    obtain tok2 cs2 where l2: "lex cs1 False = (tok2, cs2)"
      by fastforce
    let ?k = "\<lambda>(r, cs, child). Inr (r, cs, add_child node child)"
    have eq: "parse_rest (Suc m) cs node = (case tok of
        T_DOT \<Rightarrow> if tok2 \<noteq> T_TEXT then Inr (-1, cs2, node) else bindE (parse_rest m cs2 (config_node (Some (cs_text cs2)) None)) ?k
      | T_TEXT \<Rightarrow> Inr (0, cs1, set_value node (cs_text cs1))
      | T_OBRACE \<Rightarrow> parse_block m cs1 node
      | _ \<Rightarrow> Inr (-1, cs1, node))" for m
      using l l2 by (simp split: token.split)
    show ?thesis
      using e rest_bind [of cs2 "config_node (Some (cs_text cs2)) None" ?k x] ihs(1) [of cs1 node x]
      unfolding eq [of "Suc n"] eq [of n] by (cases tok) (simp_all split: if_splits del: parse_rest.simps parse_block.simps)
  qed
  ultimately show ?case
    by blast
qed

lemma parser_fuel_le:
  assumes "n \<le> m"
  shows "parse_block n cs node = Inr x \<Longrightarrow> parse_block m cs node = Inr x"
    and "parse_expr n cs node = Inr x \<Longrightarrow> parse_expr m cs node = Inr x"
    and "parse_rest n cs node = Inr x \<Longrightarrow> parse_rest m cs node = Inr x"
  using assms by (induction m rule: dec_induct) (use parser_more_fuel in blast)+

lemma config_load_fuel_le:
  "config_load_loop n cs root = Inr x \<Longrightarrow> n \<le> m \<Longrightarrow> config_load_loop m cs root = Inr x"
proof (induction n arbitrary: m cs root)
  case (Suc n)
  obtain k where m: "m = Suc k" "n \<le> k"
    using Suc.prems(2) by (cases m) auto
  obtain tok cs1 where l: "lex cs False = (tok, cs1)"
    by fastforce
  show ?case
  proof (cases "tok = T_TEXT")
    case True
    then obtain r cs2 root2 where e: "parse_expr n cs1 root = Inr (r, cs2, root2)"
      "(if r \<noteq> 0 then Inr root2 else config_load_loop n cs2 root2) = Inr x"
      using Suc.prems(1) l by (auto simp: bindE_eq_Inr)
    then have "(if r \<noteq> 0 then Inr root2 else config_load_loop k cs2 root2) = Inr x"
      using Suc.IH m(2) by auto
    then show ?thesis
      using True l parser_fuel_le(2) [OF m(2) e(1)] m(1) by simp
  qed (use Suc.prems(1) l m(1) in simp)
qed simp

section \<open>Trees as text\<close>

text \<open>A node with children, or without a value, is a section; a node with a value is a line.\<close>

fun show_node :: "cnode \<Rightarrow> bytes" where
  "show_node (CNode name v ns) =
     (if ns \<noteq> [] \<or> v = [] then name @ '' {'' @ [LF] @ concat (map show_node ns) @ ''}'' @ [LF] else []) @
     (if v \<noteq> [] then name @ '' '' @ v @ [LF] else [])"

text \<open>The names and values that a file can hold.\<close>

definition cname_ok :: "bytes \<Rightarrow> bool" where
  "cname_ok n \<longleftrightarrow> n \<noteq> [] \<and> \<not> name_ends (hd n) \<and> hd n \<noteq> CHR ''#'' \<and> list_all (\<lambda>c. \<not> name_ends c) (tl n)"

definition value_ok :: "bytes \<Rightarrow> bool" where
  "value_ok v \<longleftrightarrow> v \<noteq> [] \<and> \<not> name_ends (hd v) \<and> hd v \<noteq> CHR ''#'' \<and> LF \<notin> set v \<and> \<not> isspace (last v)"

text \<open>A sibling of the same name that has no value would be continued instead.\<close>

definition can_follow :: "cnode list \<Rightarrow> bytes \<Rightarrow> bool" where
  "can_follow ps name \<longleftrightarrow> (case find_child ps name 0 None of None \<Rightarrow> True | Some i \<Rightarrow> cn_value (ps ! i) \<noteq> [])"

fun siblings_ok :: "cnode list \<Rightarrow> cnode list \<Rightarrow> bool" where
  "siblings_ok ps [] \<longleftrightarrow> True"
| "siblings_ok ps (n # ns) \<longleftrightarrow> can_follow ps (cn_name n) \<and> siblings_ok (ps @ [n]) ns"

fun tree_ok :: "cnode \<Rightarrow> bool" where
  "tree_ok (CNode name v ns) \<longleftrightarrow> cname_ok name \<and> (v = [] \<or> value_ok v) \<and> siblings_ok [] ns \<and> list_all tree_ok ns"

section \<open>Reading tokens\<close>

text \<open>The lexer is about to read \<open>d\<close>, perhaps after white space.\<close>

definition about_to_read :: "bytes \<Rightarrow> cstate \<Rightarrow> bool" where
  "about_to_read d cs \<longleftrightarrow> cs_next cs = NUL \<and> (\<exists>w. list_all isspace w \<and> cs_data cs = w @ d)"

lemma lex_spaces: "list_all isspace w \<Longrightarrow> lex_loop v (w @ d) cs = lex_loop v d cs"
proof (induction w)
  case (Cons c w)
  then show ?case
    by (subst lex_loop.simps) simp
qed simp

lemma lex_about: "about_to_read d cs \<Longrightarrow> lex cs v = lex_loop v d cs"
  by (auto simp: about_to_read_def lex_def lex_spaces)

lemma about_to_read_space:
  assumes "about_to_read (c # d) cs" "isspace c"
  shows "about_to_read d cs"
proof -
  obtain w where "cs_next cs = NUL" "list_all isspace w" "cs_data cs = w @ c # d"
    using assms(1) by (auto simp: about_to_read_def)
  then show ?thesis
    unfolding about_to_read_def using assms(2) by (intro conjI exI [of _ "w @ [c]"]) simp_all
qed

lemma about_to_readI: "cs_next cs = NUL \<Longrightarrow> cs_data cs = d \<Longrightarrow> about_to_read d cs"
  by (auto simp: about_to_read_def intro: exI [of _ "[]"])

lemma lex_brace:
  assumes "about_to_read (c # d) cs" "c = CHR ''{'' \<or> c = CHR ''}''"
  obtains cs' where "lex cs v = (if c = CHR ''{'' then T_OBRACE else T_CBRACE, cs')" "about_to_read d cs'"
proof -
  have "lex cs v = (if c = CHR ''{'' then T_OBRACE else T_CBRACE, cs\<lparr>cs_data := d\<rparr>)"
    unfolding lex_about [OF assms(1)] using assms(2) by (subst lex_loop.simps) (auto simp: isspace_def)
  then show ?thesis
    using that assms(1) about_to_readI by (auto simp: about_to_read_def)
qed

lemma lex_name_token:
  assumes "about_to_read (n @ SPC # d) cs" "cname_ok n"
  obtains cs' where "lex cs False = (T_TEXT, cs')" "cs_text cs' = n" "about_to_read d cs'"
proof -
  obtain c t where n: "n = c # t" "\<not> name_ends c" "c \<noteq> CHR ''#''" "list_all (\<lambda>c. \<not> name_ends c) t"
    using assms(2) by (cases n) (auto simp: cname_ok_def)
  have space: "name_ends SPC" "isspace SPC"
    by (auto simp: name_ends_def isspace_def)
  have "lex cs False = lex_name (n @ SPC # d) cs"
    unfolding lex_about [OF assms(1)] using n(1-3) by (subst lex_loop.simps) (simp add: name_ends_def)
  moreover have "takeWhile (\<lambda>c. \<not> name_ends c) (t @ SPC # d) = t" "dropWhile (\<lambda>c. \<not> name_ends c) (t @ SPC # d) = SPC # d"
    using n(4) space by (simp_all add: takeWhile_append2 dropWhile_append2 list_all_iff)
  ultimately have "lex cs False = (T_TEXT, cs\<lparr>cs_text := n, cs_data := d\<rparr>)"
    using n(1) space by (simp add: lex_name_def)
  then show ?thesis
    using that assms(1) about_to_readI by (auto simp: about_to_read_def)
qed

lemma strip_end_id: "s = [] \<or> \<not> isspace (last s) \<Longrightarrow> strip_end s = s"
  by (cases s rule: rev_cases) (auto simp: strip_end_def)

lemma value_line_split:
  "LF \<notin> set v \<Longrightarrow> takeWhile (\<lambda>c. c \<noteq> LF) (v @ LF # d) = v"
  "LF \<notin> set v \<Longrightarrow> dropWhile (\<lambda>c. c \<noteq> LF) (v @ LF # d) = LF # d"
  by (induction v) auto

lemma lex_value_token:
  assumes "about_to_read (v @ LF # d) cs" "value_ok v"
  obtains cs' where "lex cs True = (T_TEXT, cs')" "cs_text cs' = v" "about_to_read d cs'"
proof -
  obtain c t where v: "v = c # t" "\<not> name_ends c" "c \<noteq> CHR ''#''" "LF \<notin> set v" "t = [] \<or> \<not> isspace (last t)"
    using assms(2) by (cases v) (auto simp: value_ok_def split: if_splits)
  have "lex cs True = lex_value (v @ LF # d) cs"
    unfolding lex_about [OF assms(1)] using v(1-3) by (subst lex_loop.simps) (simp add: name_ends_def)
  moreover have "takeWhile (\<lambda>c. c \<noteq> LF) (v @ LF # d) = v" "dropWhile (\<lambda>c. c \<noteq> LF) (v @ LF # d) = LF # d"
    using value_line_split [OF v(4)] by simp_all
  ultimately have "lex cs True = (T_TEXT, cs\<lparr>cs_text := v, cs_data := d\<rparr>)"
    using v(1) strip_end_id [OF v(5)] by (simp add: lex_value_def)
  then show ?thesis
    using that assms(1) about_to_readI by (auto simp: about_to_read_def)
qed

section \<open>Reading a tree\<close>

text \<open>Turns of the loop of \<open>parse_block\<close> or of \<open>config_load\<close> that succeed.\<close>

inductive config_steps :: "cstate \<Rightarrow> cnode \<Rightarrow> cstate \<Rightarrow> cnode \<Rightarrow> bool" where
  steps_none: "config_steps cs root cs root"
| steps_one: "lex cs False = (T_TEXT, cs1) \<Longrightarrow> parse_expr n cs1 root = Inr (0, cs2, root2) \<Longrightarrow>
    config_steps cs2 root2 cs3 root3 \<Longrightarrow> config_steps cs root cs3 root3"

lemma steps_trans: "config_steps cs root cs2 root2 \<Longrightarrow> config_steps cs2 root2 cs3 root3 \<Longrightarrow> config_steps cs root cs3 root3"
  by (induction rule: config_steps.induct) (auto intro: config_steps.intros)

lemma steps_block:
  "config_steps cs root cs' root' \<Longrightarrow> parse_block m cs' root' = Inr x \<Longrightarrow> \<exists>n. parse_block n cs root = Inr x"
proof (induction rule: config_steps.induct)
  case (steps_one cs cs1 n root cs2 root2 cs3 root3)
  then obtain k where "parse_block k cs2 root2 = Inr x"
    by blast
  then have "parse_block (Suc (max n k)) cs root = Inr x"
    using steps_one.hyps(1) parser_fuel_le(2) [OF _ steps_one.hyps(2), of "max n k"] parser_fuel_le(1) [of k "max n k"] by simp
  then show ?case
    by blast
qed blast

lemma steps_load:
  "config_steps cs root cs' root' \<Longrightarrow> config_load_loop m cs' root' = Inr x \<Longrightarrow> \<exists>n. config_load_loop n cs root = Inr x"
proof (induction rule: config_steps.induct)
  case (steps_one cs cs1 n root cs2 root2 cs3 root3)
  then obtain k where "config_load_loop k cs2 root2 = Inr x"
    by blast
  then have "config_load_loop (Suc (max n k)) cs root = Inr x"
    using steps_one.hyps(1) parser_fuel_le(2) [OF _ steps_one.hyps(2), of "max n k"] config_load_fuel_le [of k _ _ _ "max n k"] by simp
  then show ?case
    by blast
qed blast

text \<open>A new child, and the last one that has no value yet.\<close>

lemma parse_expr_new:
  assumes "parse_rest n cs (CNode (cs_text cs) [] []) = Inr (0, cs', node)" "can_follow (cn_children root) (cs_text cs)"
  shows "parse_expr (Suc n) cs root = Inr (0, cs', add_child root node)"
  using assms by (auto simp: config_node_def can_follow_def config_find_def simp del: parse_rest.simps split: option.splits)

lemma parse_expr_old:
  assumes "parse_rest n cs node = Inr (0, cs', node')" "cn_name node = cs_text cs" "cn_value node = []"
  shows "parse_expr (Suc n) cs (add_child root node) = Inr (0, cs', add_child root node')"
  using assms by (simp add: config_find_def add_child_def find_child_snoc put_child_def del: parse_rest.simps)

text \<open>One node is one turn of the loop or two.\<close>

lemma steps_node:
  assumes "tree_ok x" "can_follow (cn_children root) (cn_name x)" "about_to_read (show_node x @ d) cs"
  shows "\<exists>cs'. config_steps cs root cs' (add_child root x) \<and> about_to_read d cs'"
  using assms
proof (induction x arbitrary: root d cs)
  case (CNode name v ns)
  have ok: "cname_ok name" "v = [] \<or> value_ok v" "siblings_ok [] ns" "list_all tree_ok ns"
    using CNode.prems(1) by simp_all
  have children: "\<exists>cs'. config_steps cs root cs' (CNode (cn_name root) (cn_value root) (cn_children root @ l)) \<and> about_to_read d cs'"
    if "set l \<subseteq> set ns" "siblings_ok (cn_children root) l" "about_to_read (concat (map show_node l) @ d) cs" for l root d cs
    using that
  proof (induction l arbitrary: root cs)
    case Nil
    then show ?case
      by (cases root) (auto intro: steps_none)
  next
    case (Cons x l)
    have "about_to_read (show_node x @ concat (map show_node l) @ d) cs"
      using Cons.prems(3) by simp
    then obtain cs1 where s1: "config_steps cs root cs1 (add_child root x)" "about_to_read (concat (map show_node l) @ d) cs1"
      using CNode.IH [of x root "concat (map show_node l) @ d" cs] Cons.prems(1,2) ok(4) by (auto simp: list_all_iff)
    then obtain cs2 where "config_steps cs1 (add_child root x) cs2 (CNode (cn_name root) (cn_value root) (cn_children root @ x # l))"
      "about_to_read d cs2"
      using Cons.IH [of "add_child root x" cs1] Cons.prems(1,2) by (auto simp: add_child_def)
    then show ?case
      using steps_trans [OF s1(1)] by blast
  qed
  have line: "\<exists>cs1 cs2. lex cs False = (T_TEXT, cs1) \<and> cs_text cs1 = name \<and>
      parse_rest (Suc 0) cs1 (CNode name [] l) = Inr (0, cs2, CNode name v l) \<and> about_to_read d cs2"
    if v: "v \<noteq> []" and about: "about_to_read (name @ '' '' @ v @ [LF] @ d) cs" for cs d l
  proof -
    obtain cs1 where c1: "lex cs False = (T_TEXT, cs1)" "cs_text cs1 = name" "about_to_read (v @ LF # d) cs1"
      using lex_name_token [of name "v @ LF # d" cs] about ok(1) by auto
    obtain cs2 where "lex cs1 True = (T_TEXT, cs2)" "cs_text cs2 = v" "about_to_read d cs2"
      using lex_value_token [OF c1(3)] v ok(2) by auto
    then show ?thesis
      using c1 by (intro exI [of _ cs1] exI [of _ cs2]) (simp add: set_value_def)
  qed
  have block: "\<exists>cs1 n cs2. lex cs False = (T_TEXT, cs1) \<and> cs_text cs1 = name \<and>
      parse_rest n cs1 (CNode name [] []) = Inr (0, cs2, CNode name [] ns) \<and> about_to_read d cs2"
    if about: "about_to_read (name @ '' {'' @ [LF] @ concat (map show_node ns) @ ''}'' @ [LF] @ d) cs" for cs d
  proof -
    have space: "isspace LF"
      by (simp add: isspace_def)
    let ?b = "concat (map show_node ns) @ CHR ''}'' # LF # d"
    obtain cs1 where c1: "lex cs False = (T_TEXT, cs1)" "cs_text cs1 = name" "about_to_read (CHR ''{'' # LF # ?b) cs1"
      using lex_name_token [of name "CHR ''{'' # LF # ?b" cs] about ok(1) by auto
    obtain cs2 where c2: "lex cs1 True = (T_OBRACE, cs2)" "about_to_read (LF # ?b) cs2"
      using lex_brace [OF c1(3), of True] by auto
    obtain cs3 where c3: "config_steps cs2 (CNode name [] []) cs3 (CNode name [] ns)" "about_to_read (CHR ''}'' # LF # d) cs3"
      using children [of ns "CNode name [] []"] about_to_read_space [OF c2(2) space] ok(3) by auto
    obtain cs4 where c4: "lex cs3 False = (T_CBRACE, cs4)" "about_to_read (LF # d) cs4"
      using lex_brace [OF c3(2), of False] by auto
    have "parse_block (Suc 0) cs3 (CNode name [] ns) = Inr (0, cs4, CNode name [] ns)"
      using c4 by simp
    then obtain n where "parse_block n cs2 (CNode name [] []) = Inr (0, cs4, CNode name [] ns)"
      using steps_block [OF c3(1)] by blast
    then have "parse_rest (Suc n) cs1 (CNode name [] []) = Inr (0, cs4, CNode name [] ns)"
      using c2(1) by simp
    then show ?thesis
      using c1 about_to_read_space [OF c4(2) space] by blast
  qed
  have first: "config_steps cs root cs2 (add_child root y)"
    if "lex cs False = (T_TEXT, cs1)" "cs_text cs1 = name" "parse_rest n cs1 (CNode name [] []) = Inr (0, cs2, y)" for cs cs1 cs2 n y
    using steps_one [OF that(1) parse_expr_new steps_none] that(2,3) CNode.prems(2) by simp
  show ?case
  proof (cases "ns \<noteq> [] \<or> v = []")
    case False
    then have "about_to_read (name @ '' '' @ v @ [LF] @ d) cs" "v \<noteq> []" "ns = []"
      using CNode.prems(3) by simp_all
    then show ?thesis
      using line [of d cs "[]"] first by metis
  next
    case True
    define d' where "d' = (if v \<noteq> [] then name @ '' '' @ v @ [LF] else []) @ d"
    have "about_to_read (name @ '' {'' @ [LF] @ concat (map show_node ns) @ ''}'' @ [LF] @ d') cs"
      using CNode.prems(3) True by (simp add: d'_def)
    then obtain cs2 where s: "config_steps cs root cs2 (add_child root (CNode name [] ns))" "about_to_read d' cs2"
      using block [of d' cs] first by metis
    show ?thesis
    proof (cases "v = []")
      case True
      then show ?thesis
        using s by (auto simp: d'_def)
    next
      case False
      then obtain cs3 cs4 where l: "lex cs2 False = (T_TEXT, cs3)" "cs_text cs3 = name"
        "parse_rest (Suc 0) cs3 (CNode name [] ns) = Inr (0, cs4, CNode name v ns)" "about_to_read d cs4"
        using line [of d cs2 ns] s(2) by (auto simp: d'_def simp del: parse_rest.simps)
      have "config_steps cs2 (add_child root (CNode name [] ns)) cs4 (add_child root (CNode name v ns))"
        by (rule steps_one [OF l(1) parse_expr_old [OF l(3)] steps_none]) (simp_all add: l(2))
      then show ?thesis
        using steps_trans [OF s(1)] l(4) by blast
    qed
  qed
qed

lemma steps_nodes:
  assumes "list_all tree_ok l" "siblings_ok (cn_children root) l" "about_to_read (concat (map show_node l)) cs"
  shows "\<exists>cs'. config_steps cs root cs' (CNode (cn_name root) (cn_value root) (cn_children root @ l)) \<and> about_to_read [] cs'"
  using assms
proof (induction l arbitrary: root cs)
  case Nil
  then show ?case
    by (cases root) (auto intro: steps_none)
next
  case (Cons x l)
  then obtain cs1 where s1: "config_steps cs root cs1 (add_child root x)" "about_to_read (concat (map show_node l)) cs1"
    using steps_node [of x root "concat (map show_node l)" cs] by auto
  then show ?case
    using Cons.IH [of "add_child root x" cs1] Cons.prems(1,2) steps_trans [OF s1(1)] by (auto simp: add_child_def)
qed

section \<open>Properties\<close>

text \<open>Loading a configuration always returns, whatever the bytes of the file are and however deep
  its blocks are nested: every call of the lexer that is not at the end takes a byte.\<close>

theorem config_load_returns: "\<exists>root'. config_load root data = Inr root'"
proof (cases data)
  case (Some d)
  then show ?thesis
    using config_load_fuel [of "\<lparr>cs_data = d, cs_text = [], cs_next = NUL\<rparr>" "3 * length d + 3" root]
    by (simp add: config_load_def cs_left_def del: config_load_loop.simps)
qed (simp add: config_load_def)

text \<open>C16: A tree that is written out, sections as blocks and values as lines, is loaded again as it was:
  the same nodes in the same order, with their names, their values and their children.\<close>

theorem config_roundtrip:
  assumes "list_all tree_ok ns" "siblings_ok [] ns"
  shows "config_load (CNode name v []) (Some (concat (map show_node ns))) = Inr (CNode name v ns)"
proof -
  let ?d = "concat (map show_node ns)" and ?root = "CNode name v []"
  let ?cs = "\<lparr>cs_data = ?d, cs_text = [], cs_next = NUL\<rparr>"
  have "about_to_read ?d ?cs"
    by (rule about_to_readI) simp_all
  then obtain cs' where s: "config_steps ?cs ?root cs' (CNode name v ns)" "about_to_read [] cs'"
    using steps_nodes [of ns ?root ?cs] assms by auto
  have "lex cs' False = (T_EOF, cs')"
    unfolding lex_about [OF s(2)] by (simp add: lex_loop.simps)
  then have "config_load_loop (Suc 0) cs' (CNode name v ns) = Inr (CNode name v ns)"
    by simp
  then obtain n where n: "config_load_loop n ?cs ?root = Inr (CNode name v ns)"
    using steps_load [OF s(1)] by blast
  obtain m root' where m: "config_load_loop m ?cs ?root = Inr root'" "m = 3 * length ?d + 3"
    using config_load_fuel [of ?cs "3 * length ?d + 3" ?root] by (auto simp: cs_left_def simp del: config_load_loop.simps)
  have "root' = CNode name v ns"
    using config_load_fuel_le [OF n, of "max n m"] config_load_fuel_le [OF m(1), of "max n m"] by simp
  then show ?thesis
    using m by (simp add: config_load_def del: config_load_loop.simps)
qed

lemma config_roundtrip_witness:
  "config_load (CNode [] [] []) (Some (concat (map show_node
      [CNode ''audio'' ''on'' [CNode ''rate'' ''44100'' [], CNode ''rate'' ''8000'' []], CNode ''empty'' [] []]))) =
    Inr (CNode [] [] [CNode ''audio'' ''on'' [CNode ''rate'' ''44100'' [], CNode ''rate'' ''8000'' []], CNode ''empty'' [] []])"
  by (rule config_roundtrip) (simp_all add: cname_ok_def value_ok_def name_ends_def isspace_def can_follow_def)

text \<open>After any sequence of \<open>config_set\<close>, a lookup gives the last value set for the name, or what it
  gave before: the other names are untouched.\<close>

theorem config_sets:
  "config_str (fold (\<lambda>(k, v) root. config_set root k v) kvs root) name deflt =
    (case map_of (rev kvs) name of Some v \<Rightarrow> v | None \<Rightarrow> config_str root name deflt)"
  by (simp add: config_str_lookup config_store.lookup_updates map_add_def split: option.split)

text \<open>The white space at the end of a value is cut before a newline but not before the end of the file.\<close>

lemma trailing_blank_kept:
  "config_load (CNode [] [] []) (Some (''a b'' @ [SPC])) = Inr (CNode [] [] [CNode ''a'' (''b'' @ [SPC]) []])"
  "config_load (CNode [] [] []) (Some (''a b'' @ [SPC, LF])) = Inr (CNode [] [] [CNode ''a'' ''b'' []])"
  by code_simp+

end
