(* ===== verification/Fake_Log.thy ===== *)
theory Fake_Log
  imports Log_Entry
begin

text \<open>
  The fake log device of \<open>liblog/fake_log_device.c\<close>: a table of open logs with their configuration from the
  environment, and the text that goes to stderr. The lock serialises the operations and has no state.
  The priorities are the numbers of \<open>android/log.h\<close>, the formats those of the enum \<open>LogFormat\<close>. The time
  (as \<open>strftime\<close> prints it), the process id and the kernel calls are arguments.
\<close>

section \<open>State\<close>

definition kMaxTagLen :: nat where "kMaxTagLen = 16"
definition kTagSetSize :: nat where "kTagSetSize = 16"
definition FAKE_FD_BASE :: int where "FAKE_FD_BASE = 10000"
definition MAX_OPEN_LOGS :: nat where "MAX_OPEN_LOGS = 16"

definition FAKE_FORMAT_BRIEF :: int where "FAKE_FORMAT_BRIEF = 1"
definition FAKE_FORMAT_PROCESS :: int where "FAKE_FORMAT_PROCESS = 2"
definition FAKE_FORMAT_TAG :: int where "FAKE_FORMAT_TAG = 3"
definition FAKE_FORMAT_THREAD :: int where "FAKE_FORMAT_THREAD = 4"
definition FAKE_FORMAT_RAW :: int where "FAKE_FORMAT_RAW = 5"
definition FAKE_FORMAT_TIME :: int where "FAKE_FORMAT_TIME = 6"
definition FAKE_FORMAT_THREADTIME :: int where "FAKE_FORMAT_THREADTIME = 7"
definition FAKE_FORMAT_LONG :: int where "FAKE_FORMAT_LONG = 8"

record log_state =
  ls_fakeFd :: int
  ls_debugName :: bytes
  ls_isBinary :: bool
  ls_globalMinPriority :: int
  ls_outputFormat :: int
  ls_tagSet :: "(bytes \<times> int) list"

text \<open>What \<open>calloc\<close> gives: sixteen entries without a tag, of priority \<open>ANDROID_LOG_UNKNOWN\<close>.\<close>

definition new_log_state :: "int \<Rightarrow> log_state" where
  "new_log_state fd = \<lparr>ls_fakeFd = fd, ls_debugName = [], ls_isBinary = False, ls_globalMinPriority = 0,
     ls_outputFormat = 0, ls_tagSet = replicate kTagSetSize ([], 0)\<rparr>"

record log_env =
  env_tags :: "bytes option"
  env_printf :: "bytes option"
  env_wrapsim :: "bytes option"

text \<open>The redirection is None before the first open, then whether the calls go to the kernel.\<close>

record fake_dev =
  fd_table :: "log_state option list"
  fd_stderr :: bytes
  fd_redirect :: "bool option"

definition fake_dev_start :: fake_dev where
  "fake_dev_start = \<lparr>fd_table = replicate MAX_OPEN_LOGS None, fd_stderr = [], fd_redirect = None\<rparr>"

section \<open>The table of open logs\<close>

fun free_slot :: "log_state option list \<Rightarrow> nat \<Rightarrow> nat option" where
  "free_slot [] i = None"
| "free_slot (l # ls) i = (if l = None then Some i else free_slot ls (i + 1))"

text \<open>The loop runs to the size of the table in bytes: when every slot is taken it reads behind it.\<close>

definition createLogState :: "fake_dev \<Rightarrow> fault + log_state \<times> fake_dev" where
  "createLogState dev =
     (case free_slot (fd_table dev) 0 of
        None \<Rightarrow> Inl Uninitialised
      | Some i \<Rightarrow>
          let ls = new_log_state (FAKE_FD_BASE + int i)
          in Inr (ls, dev\<lparr>fd_table := (fd_table dev)[i := Some ls]\<rparr>))"

definition fdToLogState :: "fake_dev \<Rightarrow> int \<Rightarrow> log_state option" where
  "fdToLogState dev fd =
     (if fd \<ge> FAKE_FD_BASE \<and> fd < FAKE_FD_BASE + int MAX_OPEN_LOGS then fd_table dev ! nat (fd - FAKE_FD_BASE)
      else None)"

definition deleteFakeFd :: "fake_dev \<Rightarrow> int \<Rightarrow> fake_dev" where
  "deleteFakeFd dev fd =
     (case fdToLogState dev fd of
        None \<Rightarrow> dev
      | Some ls \<Rightarrow> dev\<lparr>fd_table := (fd_table dev)[nat (fd - FAKE_FD_BASE) := None]\<rparr>)"

section \<open>The configuration\<close>

definition tag_priority :: "char \<Rightarrow> int" where
  "tag_priority c =
     (if 48 \<le> byte_val c \<and> byte_val c \<le> 57 then
        if byte_val c \<ge> 48 + 8 then 2 else byte_val c - 0
      else if c = CHR ''v'' then 2
      else if c = CHR ''d'' then 3
      else if c = CHR ''i'' then 4
      else if c = CHR ''w'' then 5
      else if c = CHR ''e'' then 6
      else if c = CHR ''f'' then 7
      else if c = CHR ''s'' then 8
      else 1)"

text \<open>The name of the next tag, at most sixteen bytes of it, and what follows.\<close>

definition scan_tag :: "bytes \<Rightarrow> bytes \<times> bytes" where
  "scan_tag tags =
     (let t = dropWhile isspace tags; name = take kMaxTagLen (takeWhile (\<lambda>c. \<not> isspace c \<and> c \<noteq> CHR '':'') t)
      in (name, drop (length name) t))"

text \<open>The empty name stands for all tags; the entries go into the array of the log state.\<close>

definition store_tag :: "nat \<Rightarrow> bytes \<Rightarrow> int \<Rightarrow> log_state \<Rightarrow> fault + nat \<times> log_state" where
  "store_tag entry tagName minPrio ls =
     (if tagName = [] then Inr (entry, ls\<lparr>ls_globalMinPriority := minPrio\<rparr>)
      else if kTagSetSize \<le> entry then Inl BufferOverflow
      else Inr (entry + 1, ls\<lparr>ls_tagSet := (ls_tagSet ls)[entry := (tagName, minPrio)]\<rparr>))"

text \<open>Every turn takes white space, a byte of a tag, or the colon.\<close>

lemma scan_tag_shorter:
  assumes "tags \<noteq> []" "scan_tag tags = (name, rest)"
  shows "length (tl (tl rest)) < length tags" "\<not> (rest \<noteq> [] \<and> hd rest = CHR '':'') \<Longrightarrow> length rest < length tags"
proof -
  define t where "t = dropWhile isspace tags"
  have t: "length t \<le> length tags" "rest = drop (length name) t"
    "name = take kMaxTagLen (takeWhile (\<lambda>c. \<not> isspace c \<and> c \<noteq> CHR '':'') t)"
    using assms(2) by (auto simp: t_def scan_tag_def length_dropWhile_le Let_def)
  show "length (tl (tl rest)) < length tags"
  proof -
    have "length (tl (tl rest)) = length rest - 2" "length rest \<le> length t" "0 < length tags"
      using t(2) assms(1) by simp_all
    then show ?thesis
      using t(1) by linarith
  qed
  show "length rest < length tags" if n: "\<not> (rest \<noteq> [] \<and> hd rest = CHR '':'')"
  proof (cases t)
    case Nil
    then show ?thesis
      using assms(1) t(2) by simp
  next
    case (Cons c u)
    have c: "\<not> isspace c"
      using Cons t_def by (metis dropWhile_eq_Cons_conv)
    then have "c \<noteq> CHR '':''"
      using n t(2,3) Cons by auto
    then have "name \<noteq> []"
      using t(3) Cons c by (simp add: kMaxTagLen_def)
    then have "length rest < length t"
      using t(2) Cons by simp
    then show ?thesis
      using t(1) by simp
  qed
qed

text \<open>The loop over \<open>ANDROID_LOG_TAGS\<close>. The flag is false when the function returned from within it.\<close>

function parse_tags :: "nat \<Rightarrow> bytes \<Rightarrow> log_state \<Rightarrow> fault + bool \<times> log_state" where
  "parse_tags entry tags ls =
     (if tags = [] then Inr (True, ls)
      else
        case scan_tag tags of (name, rest) \<Rightarrow>
          if length name = kMaxTagLen then Inr (False, ls)
          else
            let star = (name = ''*'');
                minPrio = (if star then 3 else 2);
                tagName = (if star then [] else name)
            in if rest \<noteq> [] \<and> hd rest = CHR '':'' then
                 if tl rest = [] then Inl Uninitialised
                 else if tl (tl rest) \<noteq> [] \<and> \<not> isspace (hd (tl (tl rest))) then Inr (False, ls)
                 else bindE (store_tag entry tagName (tag_priority (hd (tl rest))) ls) (\<lambda>(entry, ls). parse_tags entry (tl (tl rest)) ls)
               else bindE (store_tag entry tagName minPrio ls) (\<lambda>(entry, ls). parse_tags entry rest ls))"
  by auto
termination
  by (relation "measure (\<lambda>(entry, tags, ls). length tags)")
    (auto dest: scan_tag_shorter(1) [OF _ sym] scan_tag_shorter(2) [OF _ sym] simp del: length_tl)

declare parse_tags.simps [simp del]

definition format_of_name :: "bytes \<Rightarrow> int" where
  "format_of_name fstr =
     (if fstr = ''brief'' then FAKE_FORMAT_BRIEF
      else if fstr = ''process'' then FAKE_FORMAT_PROCESS
      else if fstr = ''tag'' then FAKE_FORMAT_PROCESS
      else if fstr = ''thread'' then FAKE_FORMAT_PROCESS
      else if fstr = ''raw'' then FAKE_FORMAT_PROCESS
      else if fstr = ''time'' then FAKE_FORMAT_PROCESS
      else if fstr = ''long'' then FAKE_FORMAT_PROCESS
      else atoi fstr)"

text \<open>The name of the device is expected to start with \<open>/dev/log/\<close>.\<close>

definition configureInitialState :: "log_env \<Rightarrow> bytes \<Rightarrow> log_state \<Rightarrow> fault + log_state" where
  "configureInitialState env pathName ls =
     (if length pathName < 9 then Inl Uninitialised
      else
        let ls = ls\<lparr>ls_debugName := pathName, ls_isBinary := (drop 9 pathName = ''events''), ls_globalMinPriority := 4\<rparr>
        in bindE (case env_tags env of None \<Rightarrow> Inr (True, ls) | Some tags \<Rightarrow> parse_tags 0 tags ls) (\<lambda>(go_on, ls).
             if go_on
             then Inr (ls\<lparr>ls_outputFormat := (case env_printf env of None \<Rightarrow> FAKE_FORMAT_BRIEF | Some fstr \<Rightarrow> format_of_name fstr)\<rparr>)
             else Inr ls))"

section \<open>Writing\<close>

definition getPriorityString :: "int \<Rightarrow> bytes" where
  "getPriorityString priority =
     (let idx = priority - 2
      in if idx < 0 \<or> idx \<ge> 6 then ''?unknown?''
         else [''Verbose'', ''Debug'', ''Info'', ''Warn'', ''Error'', ''Assert''] ! nat idx)"

text \<open>The prefix and the suffix, before they are cut to the 128 bytes of their buffers.\<close>

definition fake_prefix_suffix :: "int \<Rightarrow> bytes \<Rightarrow> int \<Rightarrow> int \<Rightarrow> bytes \<Rightarrow> bytes \<times> bytes" where
  "fake_prefix_suffix format timeBuf pid logPrio tag =
     (let priChar = hd (getPriorityString logPrio);
          tag8 = pad_right 8 tag; pid5 = pad_left SPC 5 (fmt_d pid); tid5 = pid5
      in if format = FAKE_FORMAT_TAG then ([priChar] @ ''/'' @ tag8 @ '': '', [LF])
         else if format = FAKE_FORMAT_PROCESS then ([priChar] @ ''('' @ pid5 @ '') '', ''  ('' @ tag @ '')'' @ [LF])
         else if format = FAKE_FORMAT_THREAD then ([priChar] @ ''('' @ pid5 @ '':'' @ tid5 @ '') '', [LF])
         else if format = FAKE_FORMAT_RAW then ([], [LF])
         else if format = FAKE_FORMAT_TIME then (timeBuf @ '' '' @ tag8 @ [LF, TAB], [LF])
         else if format = FAKE_FORMAT_THREADTIME then
           (timeBuf @ '' '' @ pid5 @ '' '' @ tid5 @ '' '' @ [priChar] @ '' '' @ tag8 @ '' '' @ [LF, TAB], [LF])
         else if format = FAKE_FORMAT_LONG then
           (''[ '' @ timeBuf @ '' '' @ pid5 @ '':'' @ tid5 @ '' '' @ [priChar] @ ''/'' @ tag8 @ '' ]'' @ [LF], [LF, LF])
         else ([priChar] @ ''/'' @ tag8 @ ''('' @ pid5 @ ''): '', [LF]))"

text \<open>The bytes an iovec takes from a buffer of 128: as many as \<open>snprintf\<close> returned, which are more than
  it stored when the text did not fit.\<close>

definition iov_text :: "bytes \<Rightarrow> fault + bytes" where
  "iov_text text =
     (let (stored, n) = snprintf 128 text
      in if n \<le> 127 then Inr stored else if n = 128 then Inr (stored @ [NUL]) else Inl Uninitialised)"

text \<open>\<open>numLines\<close>.\<close>

fun line_count :: "bytes \<Rightarrow> nat" where
  "line_count [] = 0"
| "line_count (c # m) = (if c = LF \<or> m = [] then 1 else 0) + line_count m"

text \<open>The loop that fills the iovecs, as the bytes they name.\<close>

fun fill_vecs :: "nat \<Rightarrow> bytes \<Rightarrow> bytes \<Rightarrow> bytes \<Rightarrow> bytes" where
  "fill_vecs 0 prefix suffix p = []"
| "fill_vecs (Suc numLines) prefix suffix p =
     (if p = [] then []
      else
        let line = takeWhile (\<lambda>c. c \<noteq> LF) p; rest = dropWhile (\<lambda>c. c \<noteq> LF) p
        in prefix @ line @ suffix @ fill_vecs numLines prefix suffix (tl rest))"

text \<open>The text that goes to stderr in one \<open>writev\<close>. \<open>mem\<close> tells whether there is memory for more than six
  iovecs: if not, the message is replaced, but \<open>end\<close> still points into the old one.\<close>

definition showLog :: "bool \<Rightarrow> bytes \<Rightarrow> int \<Rightarrow> log_state \<Rightarrow> int \<Rightarrow> bytes \<Rightarrow> bytes \<Rightarrow> fault + bytes" where
  "showLog mem timeBuf pid state logPrio tag msg =
     (let (prefix, suffix) = fake_prefix_suffix (ls_outputFormat state) timeBuf pid logPrio tag;
          numLines = line_count msg
      in if numLines * 3 > 6 \<and> \<not> mem then Inl Uninitialised
         else if msg = [] then Inr []
         else bindE (iov_text prefix) (\<lambda>prefix. bindE (iov_text suffix) (\<lambda>suffix.
           Inr (fill_vecs numLines prefix suffix msg))))"

text \<open>An iovec: the memory from its base on, and its length.\<close>

record iovec =
  iov_base :: bytes
  iov_len :: int

text \<open>The C string at a base.\<close>

definition c_string_at :: "bytes \<Rightarrow> fault + bytes" where
  "c_string_at m = (if NUL \<in> set m then Inr (takeWhile (\<lambda>c. c \<noteq> NUL) m) else Inl Uninitialised)"

fun min_priority :: "(bytes \<times> int) list \<Rightarrow> bytes \<Rightarrow> int \<Rightarrow> int" where
  "min_priority [] tag minPrio = minPrio"
| "min_priority ((t, p) # ts) tag minPrio =
     (if p = 0 then minPrio else if t = tag then p else min_priority ts tag minPrio)"

definition three_lens :: "iovec list \<Rightarrow> fault + int" where
  "three_lens vector =
     (if length vector < 3 then Inl Uninitialised
      else Inr (iov_len (vector ! 0) + iov_len (vector ! 1) + iov_len (vector ! 2)))"

definition logWritev :: "bool \<Rightarrow> bytes \<Rightarrow> int \<Rightarrow> fake_dev \<Rightarrow> int \<Rightarrow> iovec list \<Rightarrow> fault + int \<times> fake_dev" where
  "logWritev mem timeBuf pid dev fd vector =
     (case fdToLogState dev fd of
        None \<Rightarrow> Inr (-1, dev)
      | Some state \<Rightarrow>
          if ls_isBinary state then bindE (three_lens vector) (\<lambda>n. Inr (n, dev))
          else if length vector \<noteq> 3 then Inr (-1, dev)
          else if iov_base (vector ! 0) = [] then Inl Uninitialised
          else
            let logPrio = byte_val (hd (iov_base (vector ! 0)))
            in bindE (c_string_at (iov_base (vector ! 1))) (\<lambda>tag. bindE (c_string_at (iov_base (vector ! 2))) (\<lambda>msg.
                 bindE (if logPrio \<ge> min_priority (ls_tagSet state) tag (ls_globalMinPriority state)
                        then showLog mem timeBuf pid state logPrio tag msg else Inr []) (\<lambda>text.
                 bindE (three_lens vector) (\<lambda>n. Inr (n, dev\<lparr>fd_stderr := fd_stderr dev @ text\<rparr>))))))"

definition logClose :: "fake_dev \<Rightarrow> int \<Rightarrow> int \<times> fake_dev" where
  "logClose dev fd = (0, deleteFakeFd dev fd)"

definition logOpen :: "log_env \<Rightarrow> fake_dev \<Rightarrow> bytes \<Rightarrow> fault + int \<times> fake_dev" where
  "logOpen env dev pathName =
     bindE (createLogState dev) (\<lambda>(ls, dev).
       bindE (configureInitialState env pathName ls) (\<lambda>ls.
         Inr (ls_fakeFd ls, dev\<lparr>fd_table := (fd_table dev)[nat (ls_fakeFd ls - FAKE_FD_BASE) := Some ls]\<rparr>)))"

section \<open>The entry points\<close>

definition setRedirects :: "log_env \<Rightarrow> fake_dev \<Rightarrow> fake_dev" where
  "setRedirects env dev = dev\<lparr>fd_redirect := Some (env_wrapsim env = Some ''1'')\<rparr>"

definition fakeLogOpen :: "(bytes \<Rightarrow> int) \<Rightarrow> log_env \<Rightarrow> fake_dev \<Rightarrow> bytes \<Rightarrow> fault + int \<times> fake_dev" where
  "fakeLogOpen kernel_open env dev pathName =
     (let dev = (if fd_redirect dev = None then setRedirects env dev else dev)
      in if fd_redirect dev = Some True then Inr (kernel_open pathName, dev) else logOpen env dev pathName)"

text \<open>The other two call through the pointers, which are null before the first open.\<close>

definition fakeLogClose :: "(int \<Rightarrow> int) \<Rightarrow> fake_dev \<Rightarrow> int \<Rightarrow> fault + int \<times> fake_dev" where
  "fakeLogClose kernel_close dev fd =
     (case fd_redirect dev of
        None \<Rightarrow> Inl UseAfterFree
      | Some True \<Rightarrow> Inr (kernel_close fd, dev)
      | Some False \<Rightarrow> Inr (logClose dev fd))"

definition fakeLogWritev ::
  "(int \<Rightarrow> iovec list \<Rightarrow> int) \<Rightarrow> bool \<Rightarrow> bytes \<Rightarrow> int \<Rightarrow> fake_dev \<Rightarrow> int \<Rightarrow> iovec list \<Rightarrow> fault + int \<times> fake_dev" where
  "fakeLogWritev kernel_writev mem timeBuf pid dev fd vector =
     (case fd_redirect dev of
        None \<Rightarrow> Inl UseAfterFree
      | Some True \<Rightarrow> Inr (kernel_writev fd vector, dev)
      | Some False \<Rightarrow> logWritev mem timeBuf pid dev fd vector)"

section \<open>The lines that are written\<close>

lemma line_count_line: "LF \<notin> set line \<Longrightarrow> line_count (line @ LF # rest) = Suc (line_count rest)"
  by (induction line) auto

lemma line_count_last: "LF \<notin> set m \<Longrightarrow> m \<noteq> [] \<Longrightarrow> line_count m = 1"
proof (induction m)
  case (Cons c m)
  then show ?case
    by (cases "m = []") auto
qed simp

text \<open>The same lines as those of \<open>logprint.c\<close>.\<close>

lemma fill_vecs_lines: "fill_vecs (line_count m) prefix suffix m = wrap_lines prefix suffix (msg_lines m)"
proof (induction "length m" arbitrary: m rule: less_induct)
  case less
  show ?case
  proof (cases m rule: line_cases)
    case 1
    then show ?thesis
      by (cases "m = []") (simp_all add: msg_lines_last line_count_last wrap_lines_def)
  next
    case (2 line rest)
    then have "fill_vecs (line_count rest) prefix suffix rest = wrap_lines prefix suffix (msg_lines rest)"
      using less [of rest] by simp
    then show ?thesis
      using 2 by (simp add: msg_lines_line line_count_line wrap_lines_def)
  qed
qed

text \<open>What the client hands over: the priority, the tag and the message, each string with its NUL.\<close>

definition log_vector :: "char \<Rightarrow> bytes \<Rightarrow> bytes \<Rightarrow> iovec list" where
  "log_vector prio tag msg =
     [\<lparr>iov_base = [prio], iov_len = 1\<rparr>, \<lparr>iov_base = tag @ [NUL], iov_len = int (length tag) + 1\<rparr>,
      \<lparr>iov_base = msg @ [NUL], iov_len = int (length msg) + 1\<rparr>]"

lemma c_string_at_NUL: "NUL \<notin> set s \<Longrightarrow> c_string_at (s @ [NUL]) = Inr s"
proof -
  assume "NUL \<notin> set s"
  then have "takeWhile (\<lambda>c. c \<noteq> NUL) (s @ [NUL]) = s"
    by (induction s) auto
  then show ?thesis
    by (simp add: c_string_at_def)
qed

lemma iov_text_fits: "length text \<le> 127 \<Longrightarrow> iov_text text = Inr text"
  by (simp add: iov_text_def snprintf_def)

section \<open>The tags of the environment\<close>

definition env_name_ok :: "bytes \<Rightarrow> bool" where
  "env_name_ok t \<longleftrightarrow> t \<noteq> [] \<and> length t < kMaxTagLen \<and> list_all (\<lambda>c. \<not> isspace c \<and> c \<noteq> CHR '':'') t"

text \<open>Tags with the letter of their level, between blanks.\<close>

fun env_text :: "(bytes \<times> char) list \<Rightarrow> bytes" where
  "env_text [] = []"
| "env_text ((t, c) # es) = t @ '':'' @ [c] @ (if es = [] then [] else SPC # env_text es)"

definition tag_entries :: "(bytes \<times> char) list \<Rightarrow> (bytes \<times> int) list" where
  "tag_entries es = map (\<lambda>(t, c). (t, tag_priority c)) (filter (\<lambda>(t, c). t \<noteq> ''*'') es)"

definition global_priority :: "(bytes \<times> char) list \<Rightarrow> int \<Rightarrow> int" where
  "global_priority es g = foldl (\<lambda>g (t, c). if t = ''*'' then tag_priority c else g) g es"

lemma isspace_SPC [simp]: "isspace SPC"
  by (simp add: isspace_def)

lemma scan_tag_space: "scan_tag (SPC # x) = scan_tag x"
  by (simp add: scan_tag_def)

lemma parse_tags_space: "x \<noteq> [] \<Longrightarrow> parse_tags entry (SPC # x) ls = parse_tags entry x ls"
  by (subst (1 2) parse_tags.simps) (simp add: scan_tag_space)

lemma scan_tag_name:
  assumes "env_name_ok t"
  shows "scan_tag (t @ CHR '':'' # x) = (t, CHR '':'' # x)"
proof -
  have "dropWhile isspace (t @ CHR '':'' # x) = t @ CHR '':'' # x"
    using assms by (cases t) (auto simp: env_name_ok_def)
  moreover have "takeWhile (\<lambda>c. \<not> isspace c \<and> c \<noteq> CHR '':'') (t @ CHR '':'' # x) = t"
    using assms by (simp add: env_name_ok_def takeWhile_append2 list_all_iff)
  ultimately show ?thesis
    using assms by (simp add: scan_tag_def env_name_ok_def Let_def)
qed

text \<open>The first entry, and the others after it.\<close>

lemma parse_tags_entry:
  assumes "env_name_ok t" "x = [] \<or> isspace (hd x)"
  shows "parse_tags entry (t @ CHR '':'' # c # x) ls =
    bindE (store_tag entry (if t = ''*'' then [] else t) (tag_priority c) ls) (\<lambda>(entry, ls). parse_tags entry x ls)"
  using assms by (subst parse_tags.simps) (auto simp: scan_tag_name env_name_ok_def)

lemma parse_env_text:
  assumes "list_all (\<lambda>(t, c). env_name_ok t) es" "entry + length (tag_entries es) \<le> kTagSetSize"
    and "length (ls_tagSet ls) = kTagSetSize"
  shows "parse_tags entry (env_text es) ls = Inr (True, ls\<lparr>ls_globalMinPriority := global_priority es (ls_globalMinPriority ls),
    ls_tagSet := take entry (ls_tagSet ls) @ tag_entries es @ drop (entry + length (tag_entries es)) (ls_tagSet ls)\<rparr>)"
  using assms
proof (induction es arbitrary: entry ls)
  case Nil
  then show ?case
    by (simp add: parse_tags.simps tag_entries_def global_priority_def)
next
  case (Cons e es)
  obtain t c where e: "e = (t, c)"
    by fastforce
  define entry' ls' where "entry' = (if t = ''*'' then entry else entry + 1)"
    and "ls' = (if t = ''*'' then ls\<lparr>ls_globalMinPriority := tag_priority c\<rparr>
      else ls\<lparr>ls_tagSet := (ls_tagSet ls)[entry := (t, tag_priority c)]\<rparr>)"
  have ok: "env_name_ok t" "t \<noteq> []"
    using Cons.prems(1) e by (auto simp: env_name_ok_def)
  have store: "store_tag entry (if t = ''*'' then [] else t) (tag_priority c) ls = Inr (entry', ls')"
    using Cons.prems(2) ok by (auto simp: store_tag_def entry'_def ls'_def e tag_entries_def)
  have len: "entry' + length (tag_entries es) \<le> kTagSetSize" "length (ls_tagSet ls') = kTagSetSize"
    using Cons.prems(2,3) by (auto simp: entry'_def ls'_def e tag_entries_def)
  have "parse_tags entry' (env_text es) ls' = Inr (True, ls'\<lparr>ls_globalMinPriority := global_priority es (ls_globalMinPriority ls'),
      ls_tagSet := take entry' (ls_tagSet ls') @ tag_entries es @ drop (entry' + length (tag_entries es)) (ls_tagSet ls')\<rparr>)"
    using Cons.IH [OF _ len] Cons.prems(1) by simp
  moreover have "parse_tags entry (env_text (e # es)) ls = parse_tags entry' (env_text es) ls'"
  proof (cases "es = []")
    case True
    then show ?thesis
      using parse_tags_entry [OF ok(1), of "[]" entry c ls] store e by simp
  next
    case False
    then have "env_text es \<noteq> []"
      by (cases es) auto
    then show ?thesis
      using parse_tags_entry [OF ok(1), of "SPC # env_text es" entry c ls] store e False by (simp add: parse_tags_space)
  qed
  ultimately show ?case
    using Cons.prems(2,3) e
    by (auto simp: entry'_def ls'_def tag_entries_def global_priority_def take_Suc_conv_app_nth)
qed

lemma min_priority_entries:
  "list_all (\<lambda>(t, p). p \<noteq> 0) es \<Longrightarrow>
    min_priority (es @ replicate n ([], 0)) tag g = (case map_of es tag of None \<Rightarrow> g | Some p \<Rightarrow> p)"
proof (induction es)
  case Nil
  then show ?case
    by (cases n) simp_all
next
  case (Cons e es)
  then show ?case
    by (cases e) auto
qed

lemma tag_priority_pos: "tag_priority c \<noteq> 0"
  by (simp add: tag_priority_def)

text \<open>A blank behind the text is behind the rest of it.\<close>

lemma scan_tag_snoc:
  assumes "dropWhile isspace tags \<noteq> []"
  shows "scan_tag (tags @ [SPC]) = (fst (scan_tag tags), snd (scan_tag tags) @ [SPC])"
proof -
  have "dropWhile isspace (tags @ [SPC]) = dropWhile isspace tags @ [SPC]"
    using assms by (induction tags) auto
  moreover have "takeWhile (\<lambda>c. \<not> isspace c \<and> c \<noteq> CHR '':'') (t @ [SPC]) = takeWhile (\<lambda>c. \<not> isspace c \<and> c \<noteq> CHR '':'') t" for t
    by (induction t) auto
  moreover have "length (take kMaxTagLen (takeWhile (\<lambda>c. \<not> isspace c \<and> c \<noteq> CHR '':'') t)) \<le> length t" for t
    using length_takeWhile_le [of "\<lambda>c. \<not> isspace c \<and> c \<noteq> CHR '':''" t] by simp
  ultimately show ?thesis
    by (simp add: scan_tag_def Let_def drop_append)
qed

section \<open>Properties\<close>

text \<open>C39: A message on a text log is written when its priority is at least the one configured for its tag,
  each of its lines between the prefix and the suffix of the format (the same lines that logprint
  writes), and dropped otherwise; in both cases the call answers with the length of the three parts.
  The prefix and the suffix are assumed to fit their buffers.\<close>

theorem logWritev_filters:
  assumes "fdToLogState dev fd = Some state" "\<not> ls_isBinary state" "NUL \<notin> set tag" "NUL \<notin> set msg"
    and "fake_prefix_suffix (ls_outputFormat state) timeBuf pid (byte_val prio) tag = (prefix, suffix)"
    and "length prefix \<le> 127" "length suffix \<le> 127"
  shows "logWritev True timeBuf pid dev fd (log_vector prio tag msg) =
    Inr (int (length tag) + int (length msg) + 3,
      if byte_val prio \<ge> min_priority (ls_tagSet state) tag (ls_globalMinPriority state)
      then dev\<lparr>fd_stderr := fd_stderr dev @ wrap_lines prefix suffix (msg_lines msg)\<rparr> else dev)"
  using assms
  by (simp add: logWritev_def log_vector_def c_string_at_NUL three_lens_def showLog_def iov_text_fits fill_vecs_lines wrap_lines_def)

lemma logWritev_filters_witness:
  "logWritev True [] 7 (fake_dev_start\<lparr>fd_table := [Some (new_log_state 10000)]\<rparr>) 10000 (log_vector (CHR 0x04) ''ab'' (''x'' @ [LF] @ ''y'')) =
    Inr (8, fake_dev_start\<lparr>fd_table := [Some (new_log_state 10000)],
      fd_stderr := ''I/ab      (    7): x'' @ [LF] @ ''I/ab      (    7): y'' @ [LF]\<rparr>)"
proof -
  let ?s = "new_log_state 10000" and ?d = "fake_dev_start\<lparr>fd_table := [Some (new_log_state 10000)]\<rparr>"
  have "fdToLogState ?d 10000 = Some ?s" "\<not> ls_isBinary ?s" "min_priority (ls_tagSet ?s) ''ab'' (ls_globalMinPriority ?s) = 0"
    "fake_prefix_suffix (ls_outputFormat ?s) [] 7 (byte_val (CHR 0x04)) ''ab'' = (''I/ab      (    7): '', [LF])"
    "wrap_lines ''I/ab      (    7): '' [LF] (msg_lines (''x'' @ [LF] @ ''y'')) = ''I/ab      (    7): x'' @ [LF] @ ''I/ab      (    7): y'' @ [LF]"
    by code_simp+
  then show ?thesis
    using logWritev_filters [of ?d 10000 ?s "''ab''" "''x'' @ [LF] @ ''y''" "[]" 7 "CHR 0x04" "''I/ab      (    7): ''" "[LF]"]
    by (simp add: fake_dev_start_def)
qed

text \<open>The tags of the environment select what is written: a log that was opened with a list of at most
  sixteen tags, each with its level, lets a message of a tag pass from the level of the first entry of
  that tag on, or from the last level given for the star, or from Info.\<close>

theorem env_tags_select:
  assumes "list_all (\<lambda>(t, c). env_name_ok t) es" "length (tag_entries es) \<le> kTagSetSize"
    and "env_tags env = Some (env_text es)" "9 \<le> length path"
  shows "\<exists>ls. configureInitialState env path (new_log_state fd) = Inr ls \<and> ls_fakeFd ls = fd \<and>
    min_priority (ls_tagSet ls) tag (ls_globalMinPriority ls) =
      (case map_of (tag_entries es) tag of None \<Rightarrow> global_priority es 4 | Some p \<Rightarrow> p)"
proof -
  let ?ls = "(new_log_state fd)\<lparr>ls_debugName := path, ls_isBinary := (drop 9 path = ''events''), ls_globalMinPriority := 4\<rparr>"
  have "length (ls_tagSet ?ls) = kTagSetSize"
    by (simp add: new_log_state_def)
  from parse_env_text [OF assms(1) _ this, of 0] have p: "parse_tags 0 (env_text es) ?ls =
      Inr (True, ?ls\<lparr>ls_globalMinPriority := global_priority es 4,
        ls_tagSet := tag_entries es @ replicate (kTagSetSize - length (tag_entries es)) ([], 0)\<rparr>)"
    using assms(2) by (simp add: new_log_state_def)
  have "list_all (\<lambda>(t, p). p \<noteq> 0) (tag_entries es)"
    by (auto simp: tag_entries_def list_all_iff tag_priority_pos)
  from min_priority_entries [OF this, of _ tag "global_priority es 4"] show ?thesis
    using p assms(3,4) by (auto simp: configureInitialState_def Let_def new_log_state_def)
qed

lemma env_tags_select_witness:
  "\<exists>ls. configureInitialState \<lparr>env_tags = Some ''*:w jdwp:d'', env_printf = None, env_wrapsim = None\<rparr> ''/dev/log/main'' (new_log_state 10000) = Inr ls \<and>
    ls_fakeFd ls = 10000 \<and> min_priority (ls_tagSet ls) ''jdwp'' (ls_globalMinPriority ls) = 3"
  using env_tags_select [of "[(''*'', CHR ''w''), (''jdwp'', CHR ''d'')]"
      "\<lparr>env_tags = Some ''*:w jdwp:d'', env_printf = None, env_wrapsim = None\<rparr>" "''/dev/log/main''" 10000 "''jdwp''"]
  by (simp add: env_name_ok_def kMaxTagLen_def kTagSetSize_def tag_entries_def global_priority_def isspace_def tag_priority_def)

text \<open>A blank at the end of the list of tags undoes its global level: the loop takes the empty text
  behind the blank for an entry without a name, and sets the level for all tags to Verbose.\<close>

theorem trailing_blank_is_verbose:
  assumes "parse_tags entry tags ls = Inr (True, ls')"
  shows "parse_tags entry (tags @ [SPC]) ls = Inr (True, ls'\<lparr>ls_globalMinPriority := 2\<rparr>)"
  using assms
proof (induction entry tags ls rule: parse_tags.induct)
  case (1 entry tags ls)
  have last: "parse_tags e [SPC] ls = Inr (True, ls\<lparr>ls_globalMinPriority := 2\<rparr>)" for e ls
    by (simp add: parse_tags.simps [of _ "[SPC]"] parse_tags.simps [of _ "[]"] scan_tag_def store_tag_def kMaxTagLen_def)
  show ?case
  proof (cases "dropWhile isspace tags = []")
    case True
    then have "dropWhile isspace (tags @ [SPC]) = []"
      by simp
    then have blank: "parse_tags e (tags @ [SPC]) ls = Inr (True, ls\<lparr>ls_globalMinPriority := 2\<rparr>)" for e
      by (simp add: parse_tags.simps [of _ "tags @ [SPC]"] parse_tags.simps [of _ "[]"] scan_tag_def store_tag_def kMaxTagLen_def
          del: dropWhile_eq_Nil_conv)
    have "ls'\<lparr>ls_globalMinPriority := 2\<rparr> = ls\<lparr>ls_globalMinPriority := 2\<rparr>"
      using 1(3) True
      by (auto simp: parse_tags.simps [of _ tags] parse_tags.simps [of _ "[]"] scan_tag_def store_tag_def kMaxTagLen_def
          simp del: dropWhile_eq_Nil_conv split: if_splits)
    then show ?thesis
      using blank by simp
  next
    case False
    then have ne: "tags \<noteq> []"
      by auto
    obtain name rest where scan: "scan_tag tags = (name, rest)"
      by fastforce
    have scan': "scan_tag (tags @ [SPC]) = (name, rest @ [SPC])"
      using scan scan_tag_snoc [OF False] by simp
    have len: "length name \<noteq> kMaxTagLen"
      using 1(3) [unfolded parse_tags.simps [of entry tags ls]] ne scan by auto
    let ?n = "if name = ''*'' then [] else name" and ?p = "if name = ''*'' then 3 else 2 :: int"
    show ?thesis
    proof (cases "rest \<noteq> [] \<and> hd rest = CHR '':''")
      case True
      then obtain e2 ls2 where step: "tl rest \<noteq> []" "tl (tl rest) = [] \<or> isspace (hd (tl (tl rest)))"
        "store_tag entry ?n (tag_priority (hd (tl rest))) ls = Inr (e2, ls2)" "parse_tags e2 (tl (tl rest)) ls2 = Inr (True, ls')"
        using 1(3) [unfolded parse_tags.simps [of entry tags ls]] ne scan len True by (auto simp: bindE_eq_Inr Let_def split: if_splits)
      have "parse_tags e2 (tl (tl rest) @ [SPC]) ls2 = Inr (True, ls'\<lparr>ls_globalMinPriority := 2\<rparr>)"
        using 1(1) [OF ne scan [symmetric] len refl refl refl True step(1) _ step(3) refl step(4)] step(2) by auto
      then show ?thesis
        using True step(1-3) scan' len by (subst parse_tags.simps) (auto simp: hd_append)
    next
      case colon: False
      then obtain e2 ls2 where step: "store_tag entry ?n ?p ls = Inr (e2, ls2)" "parse_tags e2 rest ls2 = Inr (True, ls')"
        using 1(3) [unfolded parse_tags.simps [of entry tags ls]] ne scan len colon by (auto simp: bindE_eq_Inr Let_def split: if_splits)
      have "parse_tags e2 (rest @ [SPC]) ls2 = Inr (True, ls'\<lparr>ls_globalMinPriority := 2\<rparr>)"
        by (rule 1(2) [OF ne scan [symmetric] len refl refl refl colon step(1) refl step(2)])
      moreover have "\<not> (rest @ [SPC] \<noteq> [] \<and> hd (rest @ [SPC]) = CHR '':'')"
        using colon by (auto simp: hd_append)
      ultimately show ?thesis
        using step(1) scan' len by (subst parse_tags.simps) auto
    qed
  qed
qed

lemma trailing_blank_is_verbose_witness:
  "parse_tags 0 (''*:e'' @ [SPC]) (new_log_state 1) = Inr (True, (new_log_state 1)\<lparr>ls_globalMinPriority := 2\<rparr>)"
  using trailing_blank_is_verbose [of 0 "''*:e''" "new_log_state 1" "(new_log_state 1)\<lparr>ls_globalMinPriority := 6\<rparr>"]
    parse_env_text [of "[(''*'', CHR ''e'')]" 0 "new_log_state 1"]
  by (simp add: env_name_ok_def kMaxTagLen_def kTagSetSize_def tag_entries_def global_priority_def isspace_def tag_priority_def
      new_log_state_def)

text \<open>All names of formats but the first choose the same format, and a digit chooses the byte it is.\<close>

lemma format_names: "map format_of_name [''process'', ''tag'', ''thread'', ''raw'', ''time'', ''long''] = replicate 6 FAKE_FORMAT_PROCESS"
  by (simp add: format_of_name_def numeral_eq_Suc)

lemma digit_levels: "map tag_priority ''0123456789'' = [48, 49, 50, 51, 52, 53, 54, 55, 2, 2]"
  by (simp add: tag_priority_def)

lemma seventeenth_open:
  "free_slot (fd_table dev) 0 = None \<Longrightarrow> logOpen env dev path = Inl Uninitialised"
  by (simp add: logOpen_def createLogState_def)

end
