(* ===== verification/Render_Heap.thy ===== *)
theory Render_Heap
  imports Prelude
begin

text \<open>
  The reference counted objects of the renderer: \<open>SmartPtr.h\<close> of
  \<open>emulator/opengl/shared/OpenglCodecCommon\<close>.

  A heap maps the address of an object to the object and its counter (\<open>m_pRefCount\<close>). A pointer
  is None for \<open>NULL\<close>. Addresses are never used twice, so a pointer to an object that was
  deleted is recognised as such. The lemmas count the references a table of objects holds
  and show that the counters follow them.
\<close>

section \<open>Definitions\<close>

type_synonym addr = nat

type_synonym 'o ref_heap = "addr \<rightharpoonup> 'o \<times> nat"

text \<open>The constructor from a fresh object, \<open>use\<close>, \<open>release\<close> (which hands out the object
  whose destructor has to run) and \<open>operator->\<close>.\<close>

definition sp_new :: "addr \<Rightarrow> 'o \<Rightarrow> 'o ref_heap \<Rightarrow> 'o ref_heap" where
  "sp_new a x H = H(a \<mapsto> (x, 1))"

definition sp_use :: "addr option \<Rightarrow> 'o ref_heap \<Rightarrow> fault + 'o ref_heap" where
  "sp_use p H =
     (case p of
        None \<Rightarrow> Inr H
      | Some a \<Rightarrow> (case H a of None \<Rightarrow> Inl UseAfterFree | Some (x, n) \<Rightarrow> Inr (H(a \<mapsto> (x, n + 1)))))"

definition sp_release :: "addr option \<Rightarrow> 'o ref_heap \<Rightarrow> fault + 'o option \<times> 'o ref_heap" where
  "sp_release p H =
     (case p of
        None \<Rightarrow> Inr (None, H)
      | Some a \<Rightarrow>
          (case H a of
             None \<Rightarrow> Inl UseAfterFree
           | Some (x, n) \<Rightarrow> if n > 1 then Inr (None, H(a \<mapsto> (x, n - 1))) else Inr (Some x, H(a := None))))"

definition sp_get :: "addr option \<Rightarrow> 'o ref_heap \<Rightarrow> fault + 'o" where
  "sp_get p H =
     (case p of
        None \<Rightarrow> Inl NullPointer
      | Some a \<Rightarrow> (case H a of None \<Rightarrow> Inl UseAfterFree | Some (x, n) \<Rightarrow> Inr x))"

definition sp_set :: "addr option \<Rightarrow> ('o \<Rightarrow> 'o) \<Rightarrow> 'o ref_heap \<Rightarrow> fault + 'o ref_heap" where
  "sp_set p f H =
     (case p of
        None \<Rightarrow> Inl NullPointer
      | Some a \<Rightarrow> (case H a of None \<Rightarrow> Inl UseAfterFree | Some (x, n) \<Rightarrow> Inr (H(a \<mapsto> (f x, n)))))"

section \<open>Counting references\<close>

text \<open>The entries of a table whose pointer \<open>g\<close> leads to \<open>a\<close>.\<close>

definition refs :: "('v \<Rightarrow> addr option) \<Rightarrow> ('k \<rightharpoonup> 'v) \<Rightarrow> addr \<Rightarrow> nat" where
  "refs g m a = card {k. \<exists>v. m k = Some v \<and> g v = Some a}"

definition points :: "('v \<Rightarrow> addr option) \<Rightarrow> 'v option \<Rightarrow> addr \<Rightarrow> nat" where
  "points g ov a = (case ov of None \<Rightarrow> 0 | Some v \<Rightarrow> of_bool (g v = Some a))"

lemma points_simps [simp]:
  "points g None a = 0"
  "points g (Some v) a = of_bool (g v = Some a)"
  by (simp_all add: points_def)

lemma refs_empty [simp]: "refs g Map.empty a = 0"
  by (simp add: refs_def)

lemma refs_remove:
  assumes "finite (dom m)"
  shows "refs g m a = refs g (m(k := None)) a + points g (m k) a"
proof -
  let ?A = "\<lambda>m. {k. \<exists>v. m k = Some v \<and> g v = Some a}"
  have fin: "finite (?A (m(k := None)))"
    by (rule finite_subset [OF _ assms]) (auto split: if_splits)
  show ?thesis
  proof (cases "\<exists>v. m k = Some v \<and> g v = Some a")
    case True
    then have "?A m = insert k (?A (m(k := None)))" and "k \<notin> ?A (m(k := None))"
      by auto
    with fin have "card (?A m) = Suc (card (?A (m(k := None))))"
      by simp
    with True show ?thesis by (auto simp: refs_def)
  next
    case False
    then have "?A m = ?A (m(k := None))" by auto
    moreover from False have "points g (m k) a = 0" by (cases "m k") auto
    ultimately show ?thesis by (simp add: refs_def)
  qed
qed

lemma refs_upd:
  assumes "finite (dom m)"
  shows "refs g (m(k := ov)) a + points g (m k) a = refs g m a + points g ov a"
  using refs_remove [OF assms, of g a k] refs_remove [of "m(k := ov)" g a k] assms by simp

lemma refs_ge_points: "finite (dom m) \<Longrightarrow> points g (m k) a \<le> refs g m a"
  using refs_remove [of m g a k] by simp

lemma refs_same:
  assumes "\<And>v. m k = Some v \<Longrightarrow> \<exists>v'. ov = Some v' \<and> g v' = g v" "m k \<noteq> None"
  shows "refs g (m(k := ov)) a = refs g m a"
proof -
  from assms obtain v v' where "m k = Some v" "ov = Some v'" "g v' = g v" by auto
  then have "{j. \<exists>v. (m(k := ov)) j = Some v \<and> g v = Some a} = {j. \<exists>v. m j = Some v \<and> g v = Some a}"
    by auto
  then show ?thesis by (simp add: refs_def)
qed

lemma refs_cong: "(\<And>k v. m k = Some v \<Longrightarrow> g v = g' v) \<Longrightarrow> refs g m a = refs g' m a"
  unfolding refs_def by (metis (mono_tags, lifting))

lemma refs_pos: "finite (dom m) \<Longrightarrow> m k = Some v \<Longrightarrow> g v = Some a \<Longrightarrow> 0 < refs g m a"
  using refs_ge_points [of m g k a] by simp

lemma refs_zero: "finite (dom m) \<Longrightarrow> refs g m a = 0 \<longleftrightarrow> (\<forall>k v. m k = Some v \<longrightarrow> g v \<noteq> Some a)"
proof -
  assume "finite (dom m)"
  then have "finite {k. \<exists>v. m k = Some v \<and> g v = Some a}"
    by (rule finite_subset [rotated]) auto
  then show ?thesis by (auto simp: refs_def)
qed

section \<open>Exact counters\<close>

definition ref_count :: "'o ref_heap \<Rightarrow> addr \<Rightarrow> nat" where
  "ref_count H a = (case H a of None \<Rightarrow> 0 | Some (x, n) \<Rightarrow> n)"

text \<open>Every counter is the number of references, and an object without any is gone.\<close>

definition heap_ok :: "(addr \<Rightarrow> nat) \<Rightarrow> 'o ref_heap \<Rightarrow> bool" where
  "heap_ok r H \<longleftrightarrow> (\<forall>a. ref_count H a = r a \<and> (H a \<noteq> None \<longrightarrow> 0 < r a))"

lemma heap_okD: "heap_ok r H \<Longrightarrow> 0 < r a \<Longrightarrow> \<exists>x. H a = Some (x, r a)"
  by (auto simp: heap_ok_def ref_count_def split: option.splits dest!: spec [of _ a])

lemma heap_ok_none: "heap_ok r H \<Longrightarrow> H a = None \<longleftrightarrow> r a = 0"
  by (cases "H a") (auto simp: heap_ok_def ref_count_def dest!: spec [of _ a])

lemma heap_ok_upd:
  assumes "heap_ok r H" "\<And>b. b \<noteq> a \<Longrightarrow> r' b = r b" "r' a = ref_count (H(a := c)) a" "c \<noteq> None \<longrightarrow> 0 < r' a"
  shows "heap_ok r' (H(a := c))"
  using assms by (auto simp: heap_ok_def ref_count_def)

lemma heap_ok_new: "heap_ok r H \<Longrightarrow> H a = None \<Longrightarrow> heap_ok (r(a := 1)) (sp_new a x H)"
  unfolding sp_new_def by (rule heap_ok_upd [of r]) (auto simp: ref_count_def)

lemma sp_use_ok:
  assumes "heap_ok r H" "0 < r a"
  obtains x where "H a = Some (x, r a)" "sp_use (Some a) H = Inr (H(a \<mapsto> (x, r a + 1)))"
    "heap_ok (r(a := r a + 1)) (H(a \<mapsto> (x, r a + 1)))"
proof -
  from heap_okD [OF assms] obtain x where x: "H a = Some (x, r a)" by blast
  then show thesis
    by (intro that [of x] heap_ok_upd [OF assms(1)]) (auto simp: sp_use_def ref_count_def)
qed

lemma sp_release_ok:
  assumes "heap_ok r H" "0 < r a"
  obtains x where "H a = Some (x, r a)"
    "sp_release (Some a) H =
       (if r a > 1 then Inr (None, H(a \<mapsto> (x, r a - 1))) else Inr (Some x, H(a := None)))"
    "r a > 1 \<Longrightarrow> heap_ok (r(a := r a - 1)) (H(a \<mapsto> (x, r a - 1)))"
    "r a = 1 \<Longrightarrow> heap_ok (r(a := 0)) (H(a := None))"
proof -
  from heap_okD [OF assms] obtain x where x: "H a = Some (x, r a)" by blast
  have "r a > 1 \<Longrightarrow> heap_ok (r(a := r a - 1)) (H(a \<mapsto> (x, r a - 1)))"
    by (rule heap_ok_upd [OF assms(1)]) (auto simp: ref_count_def)
  moreover have "r a = 1 \<Longrightarrow> heap_ok (r(a := 0)) (H(a := None))"
    by (rule heap_ok_upd [OF assms(1)]) (auto simp: ref_count_def)
  ultimately show thesis
    using x by (intro that [of x]) (auto simp: sp_release_def)
qed

lemma sp_get_ok:
  assumes "heap_ok r H" "0 < r a"
  obtains x where "H a = Some (x, r a)" "sp_get (Some a) H = Inr x"
  using heap_okD [OF assms] by (auto simp: sp_get_def)

lemma sp_set_ok:
  assumes "heap_ok r H" "0 < r a"
  obtains x where "H a = Some (x, r a)" "sp_set (Some a) f H = Inr (H(a \<mapsto> (f x, r a)))"
    "heap_ok r (H(a \<mapsto> (f x, r a)))"
proof -
  from heap_okD [OF assms] obtain x where x: "H a = Some (x, r a)" by blast
  then show thesis
    using assms by (intro that [of x] heap_ok_upd [OF assms(1)]) (auto simp: sp_set_def ref_count_def)
qed

lemma sp_null [simp]:
  "sp_use None H = Inr H" "sp_release None H = Inr (None, H)"
  "sp_get None H = Inl NullPointer" "sp_set None f H = Inl NullPointer"
  by (simp_all add: sp_use_def sp_release_def sp_get_def sp_set_def)

end
