(* ===== verification/Render_State.thy ===== *)
theory Render_State
  imports Render_Heap
begin

text \<open>
  The state of the renderer (\<open>emulator/opengl/host/libs/libOpenglRender\<close>): the objects, the tables of
  \<open>FrameBuffer\<close>, the information of the render threads, and what the host's EGL and OpenGL
  libraries keep. Those libraries are loaded at run time; a call to them is a value of the type
  \<open>host_call\<close> with the name of the function, and the parameter \<open>h\<close> of every definition answers it.
  Every operation runs in a thread \<open>t\<close>, whose current context the host may depend on.
\<close>

section \<open>The host\<close>

datatype host_call =
  Egl string "int list"
| Gl string "int list"
| Gl2 string "int list"
| Native string "int list"

type_synonym 'e host = "nat \<Rightarrow> host_call \<Rightarrow> 'e \<Rightarrow> int list \<times> 'e"

definition ret :: "int list \<Rightarrow> int" where
  "ret r = (case r of [] \<Rightarrow> 0 | x # xs \<Rightarrow> x)"

definition GL_RGB :: "32 word" where "GL_RGB = 0x1907"
definition GL_RGBA :: "32 word" where "GL_RGBA = 0x1908"
definition GL_RGB565_OES :: "32 word" where "GL_RGB565_OES = 0x8D62"
definition GL_RGB5_A1_OES :: "32 word" where "GL_RGB5_A1_OES = 0x8057"
definition GL_RGBA4_OES :: "32 word" where "GL_RGBA4_OES = 0x8056"
definition GL_TEXTURE_2D :: int where "GL_TEXTURE_2D = 0x0DE1"
definition GL_FRAMEBUFFER_OES :: int where "GL_FRAMEBUFFER_OES = 0x8D40"
definition GL_FRAMEBUFFER_COMPLETE_OES :: int where "GL_FRAMEBUFFER_COMPLETE_OES = 0x8CD5"
definition GL_RENDERBUFFER_OES :: int where "GL_RENDERBUFFER_OES = 0x8D41"
definition GL_VIEWPORT :: int where "GL_VIEWPORT = 0x0BA2"
definition GL_TEXTURE_BINDING_2D :: int where "GL_TEXTURE_BINDING_2D = 0x8069"
definition GL_UNSIGNED_BYTE :: int where "GL_UNSIGNED_BYTE = 0x1401"
definition GL_COLOR_BUFFER_BIT :: int where "GL_COLOR_BUFFER_BIT = 0x4000"
definition EGL_DRAW :: int where "EGL_DRAW = 0x3059"
definition EGL_READ :: int where "EGL_READ = 0x305A"

section \<open>The objects\<close>

record render_context =
  m_ctx :: int
  m_config :: "32 word"
  m_isGL2 :: bool

record color_buffer =
  m_tex :: int
  m_blitTex :: int
  m_eglImage :: int
  m_blitEGLImage :: int
  m_cbWidth :: "32 word"
  m_cbHeight :: "32 word"
  m_fbo :: int
  m_internalFormat :: "32 word"

record window_surface =
  m_wsSurface :: int
  m_attachedColorBuffer :: "addr option"
  m_readContext :: "addr option"
  m_drawContext :: "addr option"
  m_wsWidth :: "32 word"
  m_wsHeight :: "32 word"
  m_pbufWidth :: "32 word"
  m_pbufHeight :: "32 word"
  m_fbconf :: int

datatype SurfaceBindType = SURFACE_BIND_READ | SURFACE_BIND_DRAW | SURFACE_BIND_READDRAW

text \<open>The counter of a colour buffer's handle is the number of its clients, not of its pointers.\<close>

record color_buffer_ref =
  cb :: addr
  refcount :: "32 word"

record thread_info =
  currContext :: "addr option"
  currDrawSurf :: "addr option"
  currReadSurf :: "addr option"

type_synonym HandleType = "32 word"

section \<open>The state\<close>

text \<open>
  The fields of the one \<open>FrameBuffer\<close> are in the state; \<open>fb_live\<close> says that \<open>s_theFrameBuffer\<close>
  points to it. A configuration is the EGL configuration of the host and its identifier.
  The rotation is kept as a number that is 0 for \<open>0.0f\<close>; the statistics that are printed are left out.
\<close>

record 'e renderer =
  o_ctx :: "render_context ref_heap"
  o_surf :: "window_surface ref_heap"
  o_cb :: "color_buffer ref_heap"
  o_next :: addr
  r_threads :: "nat \<rightharpoonup> thread_info"
  m_contexts :: "HandleType \<rightharpoonup> addr"
  m_windows :: "HandleType \<rightharpoonup> addr"
  m_colorbuffers :: "HandleType \<rightharpoonup> color_buffer_ref"
  fb_live :: bool
  s_nextHandle :: HandleType
  s_fbConfigs :: "int list"
  m_fbWidth :: int
  m_fbHeight :: int
  m_eglDisplay :: int
  m_eglSurface :: int
  m_eglConfig :: int
  m_eglContext :: int
  m_pbufSurface :: int
  m_prevContext :: int
  m_prevReadSurf :: int
  m_prevDrawSurf :: int
  m_subWin :: int
  m_lastPostedColorBuffer :: HandleType
  m_zRot :: int
  m_eglContextInitialized :: bool
  m_onPost :: bool
  has_eglimage_texture_2d :: bool
  r_env :: 'e

definition do_call :: "'e host \<Rightarrow> nat \<Rightarrow> host_call \<Rightarrow> 'e renderer \<Rightarrow> int list \<times> 'e renderer" where
  "do_call h t c s = (let (r, e) = h t c (r_env s) in (r, s\<lparr>r_env := e\<rparr>))"

fun do_calls :: "'e host \<Rightarrow> nat \<Rightarrow> host_call list \<Rightarrow> 'e renderer \<Rightarrow> 'e renderer" where
  "do_calls h t [] s = s"
| "do_calls h t (c # cs) s = do_calls h t cs (snd (do_call h t c s))"

definition getFB :: "'e renderer \<Rightarrow> fault + unit" where
  "getFB s = (if fb_live s then Inr () else Inl NullPointer)"

definition no_info :: thread_info where
  "no_info = \<lparr>currContext = None, currDrawSurf = None, currReadSurf = None\<rparr>"

definition getRenderThreadInfo :: "nat \<Rightarrow> 'e renderer \<Rightarrow> thread_info" where
  "getRenderThreadInfo t s = (case r_threads s t of None \<Rightarrow> no_info | Some ti \<Rightarrow> ti)"

definition set_info :: "nat \<Rightarrow> thread_info \<Rightarrow> 'e renderer \<Rightarrow> 'e renderer" where
  "set_info t ti s = s\<lparr>r_threads := (r_threads s)(t \<mapsto> ti)\<rparr>"

text \<open>\<open>FBConfig::get\<close>: the number of a configuration is signed.\<close>

definition FBConfig_get :: "32 word \<Rightarrow> 'e renderer \<Rightarrow> int option" where
  "FBConfig_get p_config s =
     (if 0 \<le> sint p_config \<and> sint p_config < int (length (s_fbConfigs s))
      then Some (s_fbConfigs s ! nat (sint p_config)) else None)"

section \<open>Binding the context of the frame buffer\<close>

definition MakeCurrent :: "'e host \<Rightarrow> nat \<Rightarrow> int \<Rightarrow> int \<Rightarrow> int \<Rightarrow> 'e renderer \<Rightarrow> bool \<times> 'e renderer" where
  "MakeCurrent h t draw read ctx s =
     (let (r, s) = do_call h t (Egl ''eglMakeCurrent'' [m_eglDisplay s, draw, read, ctx]) s in (ret r \<noteq> 0, s))"

definition current_binding :: "'e host \<Rightarrow> nat \<Rightarrow> 'e renderer \<Rightarrow> (int \<times> int \<times> int) \<times> 'e renderer" where
  "current_binding h t s =
     (let (c, s) = do_call h t (Egl ''eglGetCurrentContext'' []) s;
          (r, s) = do_call h t (Egl ''eglGetCurrentSurface'' [EGL_READ]) s;
          (d, s) = do_call h t (Egl ''eglGetCurrentSurface'' [EGL_DRAW]) s
      in ((ret c, ret r, ret d), s))"

definition save_binding :: "int \<times> int \<times> int \<Rightarrow> 'e renderer \<Rightarrow> 'e renderer" where
  "save_binding prev s =
     s\<lparr>m_prevContext := fst prev, m_prevReadSurf := fst (snd prev), m_prevDrawSurf := snd (snd prev)\<rparr>"

definition bind_locked :: "'e host \<Rightarrow> nat \<Rightarrow> 'e renderer \<Rightarrow> bool \<times> 'e renderer" where
  "bind_locked h t s =
     (let (prev, s) = current_binding h t s;
          (ok, s) = MakeCurrent h t (m_pbufSurface s) (m_pbufSurface s) (m_eglContext s) s
      in if \<not> ok then (False, s) else (True, save_binding prev s))"

definition initGLState :: "'e host \<Rightarrow> nat \<Rightarrow> 'e renderer \<Rightarrow> 'e renderer" where
  "initGLState h t s =
     do_calls h t [Gl ''glMatrixMode'' [0x1701], Gl ''glLoadIdentity'' [], Gl ''glOrthof'' [-1, 1, -1, 1, -1, 1],
       Gl ''glMatrixMode'' [0x1700], Gl ''glLoadIdentity'' []] s"

definition bindSubwin_locked :: "'e host \<Rightarrow> nat \<Rightarrow> 'e renderer \<Rightarrow> bool \<times> 'e renderer" where
  "bindSubwin_locked h t s =
     (let (prev, s) = current_binding h t s;
          (ok, s) = MakeCurrent h t (m_eglSurface s) (m_eglSurface s) (m_eglContext s) s
      in if \<not> ok then (False, s)
         else let s = (if m_eglContextInitialized s then s
                       else (initGLState h t s)\<lparr>m_eglContextInitialized := True\<rparr>)
              in (True, save_binding prev s))"

definition unbind_locked :: "'e host \<Rightarrow> nat \<Rightarrow> 'e renderer \<Rightarrow> bool \<times> 'e renderer" where
  "unbind_locked h t s =
     (let (ok, s) = MakeCurrent h t (m_prevDrawSurf s) (m_prevReadSurf s) (m_prevContext s) s
      in if \<not> ok then (False, s) else (True, save_binding (0, 0, 0) s))"

section \<open>Frames\<close>

text \<open>What the counters depend on.\<close>

definition objs where
  "objs (s :: 'e renderer) = (o_ctx s, o_surf s, o_cb s, o_next s, r_threads s, m_contexts s, m_windows s, m_colorbuffers s, fb_live s, s_nextHandle s)"

lemma objs_eqD:
  assumes "objs s = objs s'"
  shows "o_ctx s = o_ctx s'" "o_surf s = o_surf s'" "o_cb s = o_cb s'" "o_next s = o_next s'" "r_threads s = r_threads s'"
    "m_contexts s = m_contexts s'" "m_windows s = m_windows s'" "m_colorbuffers s = m_colorbuffers s'"
    "fb_live s = fb_live s'" "s_nextHandle s = s_nextHandle s'"
  using assms by (simp_all add: objs_def)

named_theorems frame "operations that leave the objects alone"

lemma do_call_frame [frame]: "do_call h t c s = (r, s') \<Longrightarrow> objs s' = objs s"
  by (auto simp: do_call_def objs_def split: prod.splits)

lemma snd_do_call_frame [simp]: "objs (snd (do_call h t c s)) = objs s"
  by (simp add: do_call_frame [OF prod.collapse [symmetric]])

lemma do_calls_frame [simp]: "objs (do_calls h t cs s) = objs s"
  by (induction cs arbitrary: s) simp_all

lemma save_binding_frame [simp]: "objs (save_binding prev s) = objs s"
  by (simp add: save_binding_def objs_def)

lemma MakeCurrent_frame [frame]: "MakeCurrent h t d r c s = (ok, s') \<Longrightarrow> objs s' = objs s"
  by (auto simp: MakeCurrent_def split: prod.splits dest: frame)

lemma current_binding_frame [frame]: "current_binding h t s = (p, s') \<Longrightarrow> objs s' = objs s"
  by (auto simp: current_binding_def split: prod.splits dest!: frame)

lemma bind_locked_frame [frame]: "bind_locked h t s = (ok, s') \<Longrightarrow> objs s' = objs s"
  by (auto simp: bind_locked_def split: prod.splits if_splits dest!: frame)

lemma initGLState_frame [simp]: "objs (initGLState h t s) = objs s"
  by (simp add: initGLState_def)

lemma initialized_frame [simp]: "objs (s\<lparr>m_eglContextInitialized := b\<rparr>) = objs s"
  by (simp add: objs_def)

lemma bindSubwin_locked_frame [frame]: "bindSubwin_locked h t s = (ok, s') \<Longrightarrow> objs s' = objs s"
  by (auto simp: bindSubwin_locked_def Let_def split: prod.splits if_splits dest!: frame)

lemma unbind_locked_frame [frame]: "unbind_locked h t s = (ok, s') \<Longrightarrow> objs s' = objs s"
  by (auto simp: unbind_locked_def split: prod.splits if_splits dest!: frame)

lemma snd_frames [simp]:
  "objs (snd (MakeCurrent h t d r c s)) = objs s"
  "objs (snd (current_binding h t s)) = objs s"
  "objs (snd (bind_locked h t s)) = objs s"
  "objs (snd (bindSubwin_locked h t s)) = objs s"
  "objs (snd (unbind_locked h t s)) = objs s"
  by (rule frame, rule prod.collapse [symmetric])+

lemma getFB_objs: "objs s' = objs s \<Longrightarrow> fb_live s \<Longrightarrow> getFB s' = Inr ()"
  by (simp add: getFB_def objs_eqD [of s' s])

end
