(* ===== verification/Render_Objects.thy ===== *)
theory Render_Objects
  imports Render_State
begin

text \<open>
  The objects of the renderer: \<open>ColorBuffer.cpp\<close>, \<open>RenderContext.cpp\<close> and \<open>WindowSurface.cpp\<close>.

  An object that is still being built is a value; it gets its address when the smart pointer
  is made. The order of the calls to the host is the order of the sources.
\<close>

section \<open>Colour buffers\<close>

definition glx :: "bool \<Rightarrow> string \<Rightarrow> int list \<Rightarrow> host_call" where
  "glx gl2 f args = (if gl2 then Gl2 f args else Gl f args)"

definition texture_params :: "host_call list" where
  "texture_params =
     [Gl ''glTexParameteri'' [GL_TEXTURE_2D, 0x2800, 0x2600], Gl ''glTexParameteri'' [GL_TEXTURE_2D, 0x2801, 0x2600],
      Gl ''glTexParameteri'' [GL_TEXTURE_2D, 0x2802, 0x2901], Gl ''glTexParameteri'' [GL_TEXTURE_2D, 0x2803, 0x2901],
      Gl ''glTexEnvi'' [0x2300, 0x2200, 0x1E01]]"

definition tex_image :: "32 word \<Rightarrow> 32 word \<Rightarrow> 32 word \<Rightarrow> host_call" where
  "tex_image format w ht =
     Gl ''glTexImage2D'' [GL_TEXTURE_2D, 0, uint format, sint w, sint ht, 0, uint format, GL_UNSIGNED_BYTE]"

text \<open>The format of the texture; None is \<open>return NULL\<close>.\<close>

definition texture_format :: "32 word \<Rightarrow> 32 word option" where
  "texture_format p_internalFormat =
     (if p_internalFormat = GL_RGB \<or> p_internalFormat = GL_RGB565_OES then Some GL_RGB
      else if p_internalFormat = GL_RGBA \<or> p_internalFormat = GL_RGB5_A1_OES \<or> p_internalFormat = GL_RGBA4_OES
      then Some GL_RGBA else None)"

text \<open>The number of bytes of the zeroes a new buffer is filled with is an \<open>int\<close>; \<open>new\<close> throws for a negative
  number, and nothing catches it.\<close>

definition zero_pixels :: "32 word \<Rightarrow> 32 word \<Rightarrow> 32 word \<Rightarrow> 32 word" where
  "zero_pixels format w ht = (if format = GL_RGB then 3 else 4) * w * ht"

definition make_image :: "'e host \<Rightarrow> nat \<Rightarrow> int \<Rightarrow> 'e renderer \<Rightarrow> int \<times> 'e renderer" where
  "make_image h t tex s =
     (let (c, s) = do_call h t (Egl ''eglGetCurrentContext'' []) s;
          (r, s) = do_call h t (Egl ''eglCreateImageKHR'' [m_eglDisplay s, ret c, 0x30B1, tex]) s
      in (ret r, s))"

definition ColorBuffer_create ::
  "'e host \<Rightarrow> nat \<Rightarrow> 32 word \<Rightarrow> 32 word \<Rightarrow> 32 word \<Rightarrow> 'e renderer \<Rightarrow> fault + color_buffer option \<times> 'e renderer" where
  "ColorBuffer_create h t p_width p_height p_internalFormat s =
     (case texture_format p_internalFormat of
        None \<Rightarrow> Inr (None, s)
      | Some format \<Rightarrow>
          bindE (getFB s) (\<lambda>_.
            let (ok, s) = bind_locked h t s
            in if \<not> ok then Inr (None, s)
               else
                 let (r, s) = do_call h t (Gl ''glGenTextures'' [1]) s; tex = ret r;
                     s = do_calls h t [Gl ''glBindTexture'' [GL_TEXTURE_2D, tex]] s
                 in if sint (zero_pixels format p_width p_height) < 0 then Inl Panic
                    else
                      let s = do_calls h t (tex_image format p_width p_height # texture_params) s;
                          (r, s) = do_call h t (Gl ''glGenTextures'' [1]) s; blitTex = ret r;
                          s = do_calls h t (Gl ''glBindTexture'' [GL_TEXTURE_2D, blitTex] #
                                tex_image format p_width p_height # texture_params) s;
                          (img, s) = (if has_eglimage_texture_2d s then make_image h t tex s else (0, s));
                          (blit, s) = (if has_eglimage_texture_2d s then make_image h t blitTex s else (0, s));
                          (_, s) = unbind_locked h t s
                      in Inr (Some \<lparr>m_tex = tex, m_blitTex = blitTex, m_eglImage = img, m_blitEGLImage = blit,
                           m_cbWidth = p_width, m_cbHeight = p_height, m_fbo = 0, m_internalFormat = format\<rparr>, s)))"

definition ColorBuffer_destroy :: "'e host \<Rightarrow> nat \<Rightarrow> color_buffer \<Rightarrow> 'e renderer \<Rightarrow> fault + 'e renderer" where
  "ColorBuffer_destroy h t b s =
     bindE (getFB s) (\<lambda>_.
       let (_, s) = bind_locked h t s;
           s = do_calls h t (Gl ''glDeleteTextures'' [1, m_tex b] #
             (if m_eglImage b \<noteq> 0 then [Egl ''eglDestroyImageKHR'' [m_eglDisplay s, m_eglImage b]] else []) @
             (if m_fbo b \<noteq> 0 then [Gl ''glDeleteFramebuffersOES'' [1, m_fbo b]] else [])) s;
           (_, s) = unbind_locked h t s
       in Inr s)"

definition subUpdate ::
  "'e host \<Rightarrow> nat \<Rightarrow> addr \<Rightarrow> int list \<Rightarrow> 'e renderer \<Rightarrow> fault + 'e renderer" where
  "subUpdate h t a args s =
     bindE (sp_get (Some a) (o_cb s)) (\<lambda>b. bindE (getFB s) (\<lambda>_.
       let (ok, s) = bind_locked h t s
       in if \<not> ok then Inr s
          else let s = do_calls h t [Gl ''glBindTexture'' [GL_TEXTURE_2D, m_tex b], Gl ''glPixelStorei'' [0x0CF5, 1],
                     Gl ''glTexSubImage2D'' ([GL_TEXTURE_2D, 0] @ args)] s
               in Inr (snd (unbind_locked h t s))))"

definition drawTexQuad :: "'e host \<Rightarrow> nat \<Rightarrow> bool \<Rightarrow> 'e renderer \<Rightarrow> 'e renderer" where
  "drawTexQuad h t flipy s =
     do_calls h t [Gl ''glClientActiveTexture'' [0x84C0], Gl ''glEnableClientState'' [0x8078],
       Gl ''glTexCoordPointer'' (if flipy then [0, 1, 0, 0, 1, 1, 1, 0] else [0, 0, 0, 1, 1, 0, 1, 1]),
       Gl ''glEnableClientState'' [0x8074],
       Gl ''glVertexPointer'' [-1, -1, 0, -1, 1, 0, 1, -1, 0, 1, 1, 0],
       Gl ''glDrawArrays'' [0x0005, 0, 4]] s"

definition ColorBuffer_post :: "'e host \<Rightarrow> nat \<Rightarrow> addr \<Rightarrow> 'e renderer \<Rightarrow> fault + bool \<times> 'e renderer" where
  "ColorBuffer_post h t a s =
     bindE (sp_get (Some a) (o_cb s)) (\<lambda>b.
       Inr (True, drawTexQuad h t True (do_calls h t [Gl ''glBindTexture'' [GL_TEXTURE_2D, m_tex b],
         Gl ''glEnable'' [GL_TEXTURE_2D], Gl ''glTexEnvi'' [0x2300, 0x2200, 0x1E01]] s)))"

definition bind_fbo :: "'e host \<Rightarrow> nat \<Rightarrow> addr \<Rightarrow> 'e renderer \<Rightarrow> fault + bool \<times> 'e renderer" where
  "bind_fbo h t a s =
     bindE (sp_get (Some a) (o_cb s)) (\<lambda>b.
       if m_fbo b \<noteq> 0 then Inr (True, do_calls h t [Gl ''glBindFramebufferOES'' [GL_FRAMEBUFFER_OES, m_fbo b]] s)
       else
         let (r, s) = do_call h t (Gl ''glGenFramebuffersOES'' [1]) s; fbo = ret r;
             s = do_calls h t [Gl ''glBindFramebufferOES'' [GL_FRAMEBUFFER_OES, fbo],
               Gl ''glFramebufferTexture2DOES'' [GL_FRAMEBUFFER_OES, 0x8CE0, GL_TEXTURE_2D, m_tex b, 0]] s;
             (status, s) = do_call h t (Gl ''glCheckFramebufferStatusOES'' [GL_FRAMEBUFFER_OES]) s
         in if ret status \<noteq> GL_FRAMEBUFFER_COMPLETE_OES
            then bindE (sp_set (Some a) (\<lambda>b. b\<lparr>m_fbo := 0\<rparr>) (o_cb s)) (\<lambda>H.
              Inr (False, do_calls h t [Gl ''glBindFramebufferOES'' [GL_FRAMEBUFFER_OES, 0],
                Gl ''glDeleteFramebuffersOES'' [1, fbo]] (s\<lparr>o_cb := H\<rparr>)))
            else bindE (sp_set (Some a) (\<lambda>b. b\<lparr>m_fbo := fbo\<rparr>) (o_cb s)) (\<lambda>H. Inr (True, s\<lparr>o_cb := H\<rparr>)))"

text \<open>The part of the blit between binding and unbinding the frame buffer's context.\<close>

definition blit_quad :: "'e host \<Rightarrow> nat \<Rightarrow> addr \<Rightarrow> 'e renderer \<Rightarrow> fault + 'e renderer" where
  "blit_quad h t a s =
     bindE (bind_fbo h t a s) (\<lambda>(ok, s).
       if \<not> ok then Inr s
       else bindE (sp_get (Some a) (o_cb s)) (\<lambda>b.
         let (vport, s) = do_call h t (Gl ''glGetIntegerv'' [GL_VIEWPORT]) s;
             s = do_calls h t [Gl ''glViewport'' [0, 0, uint (m_cbWidth b), uint (m_cbHeight b)],
               Gl ''glBindTexture'' [GL_TEXTURE_2D, m_blitTex b], Gl ''glEnable'' [GL_TEXTURE_2D],
               Gl ''glTexEnvi'' [0x2300, 0x2200, 0x1E01]] s;
             s = drawTexQuad h t True s
         in Inr (do_calls h t [Gl ''glBindFramebufferOES'' [GL_FRAMEBUFFER_OES, 0], Gl ''glViewport'' vport] s)))"

definition blitFromCurrentReadBuffer :: "'e host \<Rightarrow> nat \<Rightarrow> addr \<Rightarrow> 'e renderer \<Rightarrow> fault + bool \<times> 'e renderer" where
  "blitFromCurrentReadBuffer h t a s =
     (case currContext (getRenderThreadInfo t s) of
        None \<Rightarrow> Inr (False, s)
      | Some c \<Rightarrow>
          bindE (sp_get (Some c) (o_ctx s)) (\<lambda>ctx. bindE (sp_get (Some a) (o_cb s)) (\<lambda>b.
            let gl = glx (m_isGL2 ctx);
                (r, s) = do_call h t (gl ''glGetIntegerv'' [GL_TEXTURE_BINDING_2D]) s; currTexBind = ret r;
                (r, s) = do_call h t (gl ''glGenTextures'' [1]) s; tmpTex = ret r;
                s = do_calls h t [gl ''glBindTexture'' [GL_TEXTURE_2D, tmpTex],
                  gl ''glEGLImageTargetTexture2DOES'' [GL_TEXTURE_2D, m_blitEGLImage b],
                  gl ''glCopyTexImage2D'' [GL_TEXTURE_2D, 0, uint (m_internalFormat b), 0, 0, uint (m_cbWidth b),
                    uint (m_cbHeight b), 0]] s
            in bindE (getFB s) (\<lambda>_.
                 let (ok, s) = bind_locked h t s
                 in bindE (if ok then bindE (blit_quad h t a s) (\<lambda>s. Inr (snd (unbind_locked h t s))) else Inr s) (\<lambda>s.
                   Inr (True, do_calls h t [gl ''glDeleteTextures'' [1, tmpTex],
                     gl ''glBindTexture'' [GL_TEXTURE_2D, currTexBind]] s))))))"

text \<open>\<open>bindToTexture\<close> and \<open>bindToRenderbuffer\<close>, which differ in the function of the host.\<close>

definition bind_image :: "string \<Rightarrow> int \<Rightarrow> 'e host \<Rightarrow> nat \<Rightarrow> addr \<Rightarrow> 'e renderer \<Rightarrow> fault + bool \<times> 'e renderer" where
  "bind_image f target h t a s =
     bindE (sp_get (Some a) (o_cb s)) (\<lambda>b.
       if m_eglImage b = 0 then Inr (False, s)
       else case currContext (getRenderThreadInfo t s) of
              None \<Rightarrow> Inr (False, s)
            | Some c \<Rightarrow> bindE (sp_get (Some c) (o_ctx s)) (\<lambda>ctx.
                Inr (True, do_calls h t [glx (m_isGL2 ctx) f [target, m_eglImage b]] s)))"

definition bindToTexture :: "'e host \<Rightarrow> nat \<Rightarrow> addr \<Rightarrow> 'e renderer \<Rightarrow> fault + bool \<times> 'e renderer" where
  "bindToTexture = bind_image ''glEGLImageTargetTexture2DOES'' GL_TEXTURE_2D"

definition bindToRenderbuffer :: "'e host \<Rightarrow> nat \<Rightarrow> addr \<Rightarrow> 'e renderer \<Rightarrow> fault + bool \<times> 'e renderer" where
  "bindToRenderbuffer = bind_image ''glEGLImageTargetRenderbufferStorageOES'' GL_RENDERBUFFER_OES"

section \<open>Contexts\<close>

definition RenderContext_create ::
  "'e host \<Rightarrow> nat \<Rightarrow> 32 word \<Rightarrow> addr option \<Rightarrow> bool \<Rightarrow> 'e renderer \<Rightarrow> fault + render_context option \<times> 'e renderer" where
  "RenderContext_create h t p_config p_shareContext p_isGL2 s =
     (case FBConfig_get p_config s of
        None \<Rightarrow> Inr (None, s)
      | Some fbconf \<Rightarrow>
          bindE (if p_shareContext \<noteq> None then bindE (sp_get p_shareContext (o_ctx s)) (\<lambda>c. Inr (m_ctx c)) else Inr 0) (\<lambda>share.
          bindE (getFB s) (\<lambda>_.
            let (r, s) = do_call h t (Egl ''eglCreateContext'' [m_eglDisplay s, fbconf, share, 0x3098,
                  if p_isGL2 then 2 else 1, 0x3038]) s
            in if ret r = 0 then Inr (None, s)
               else Inr (Some \<lparr>m_ctx = ret r, m_config = p_config, m_isGL2 = p_isGL2\<rparr>, s))))"

definition RenderContext_destroy :: "'e host \<Rightarrow> nat \<Rightarrow> render_context \<Rightarrow> 'e renderer \<Rightarrow> fault + 'e renderer" where
  "RenderContext_destroy h t c s =
     (if m_ctx c \<noteq> 0
      then bindE (getFB s) (\<lambda>_. Inr (do_calls h t [Egl ''eglDestroyContext'' [m_eglDisplay s, m_ctx c]] s))
      else Inr s)"

section \<open>Smart pointers to the objects\<close>

definition use_ctx :: "addr option \<Rightarrow> 'e renderer \<Rightarrow> fault + 'e renderer" where
  "use_ctx p s = bindE (sp_use p (o_ctx s)) (\<lambda>H. Inr (s\<lparr>o_ctx := H\<rparr>))"

definition use_cb :: "addr option \<Rightarrow> 'e renderer \<Rightarrow> fault + 'e renderer" where
  "use_cb p s = bindE (sp_use p (o_cb s)) (\<lambda>H. Inr (s\<lparr>o_cb := H\<rparr>))"

definition use_surf :: "addr option \<Rightarrow> 'e renderer \<Rightarrow> fault + 'e renderer" where
  "use_surf p s = bindE (sp_use p (o_surf s)) (\<lambda>H. Inr (s\<lparr>o_surf := H\<rparr>))"

definition release_ctx :: "'e host \<Rightarrow> nat \<Rightarrow> addr option \<Rightarrow> 'e renderer \<Rightarrow> fault + 'e renderer" where
  "release_ctx h t p s =
     bindE (sp_release p (o_ctx s)) (\<lambda>(dead, H).
       case dead of
         None \<Rightarrow> Inr (s\<lparr>o_ctx := H\<rparr>)
       | Some c \<Rightarrow> RenderContext_destroy h t c (s\<lparr>o_ctx := H\<rparr>))"

definition release_cb :: "'e host \<Rightarrow> nat \<Rightarrow> addr option \<Rightarrow> 'e renderer \<Rightarrow> fault + 'e renderer" where
  "release_cb h t p s =
     bindE (sp_release p (o_cb s)) (\<lambda>(dead, H).
       case dead of
         None \<Rightarrow> Inr (s\<lparr>o_cb := H\<rparr>)
       | Some b \<Rightarrow> ColorBuffer_destroy h t b (s\<lparr>o_cb := H\<rparr>))"

text \<open>The destructor of a surface, and then those of its pointers, the last declared first.\<close>

definition WindowSurface_destroy :: "'e host \<Rightarrow> nat \<Rightarrow> window_surface \<Rightarrow> 'e renderer \<Rightarrow> fault + 'e renderer" where
  "WindowSurface_destroy h t w s =
     bindE (getFB s) (\<lambda>_.
       let s = do_calls h t [Egl ''eglDestroySurface'' [m_eglDisplay s, m_wsSurface w]] s
       in bindE (release_ctx h t (m_drawContext w) s) (\<lambda>s.
          bindE (release_ctx h t (m_readContext w) s) (\<lambda>s.
          release_cb h t (m_attachedColorBuffer w) s)))"

definition release_surf :: "'e host \<Rightarrow> nat \<Rightarrow> addr option \<Rightarrow> 'e renderer \<Rightarrow> fault + 'e renderer" where
  "release_surf h t p s =
     bindE (sp_release p (o_surf s)) (\<lambda>(dead, H).
       case dead of
         None \<Rightarrow> Inr (s\<lparr>o_surf := H\<rparr>)
       | Some w \<Rightarrow> WindowSurface_destroy h t w (s\<lparr>o_surf := H\<rparr>))"

text \<open>\<open>operator=\<close>: nothing happens when both pointers lead to the same object. What it does is \<open>change\<close>,
  which stores the new pointer.\<close>

definition reassign ::
  "('e renderer \<Rightarrow> fault + 'e renderer) \<Rightarrow> ('e renderer \<Rightarrow> fault + 'e renderer) \<Rightarrow> ('e renderer \<Rightarrow> fault + 'e renderer) \<Rightarrow>
   addr option \<Rightarrow> addr option \<Rightarrow> 'e renderer \<Rightarrow> fault + 'e renderer" where
  "reassign release_old use_new store old new s =
     (if old = new then Inr s
      else bindE (release_old s) (\<lambda>s. bindE (use_new s) store))"

section \<open>Surfaces\<close>

definition set_surf :: "addr \<Rightarrow> (window_surface \<Rightarrow> window_surface) \<Rightarrow> 'e renderer \<Rightarrow> fault + 'e renderer" where
  "set_surf a f s = bindE (sp_set (Some a) f (o_surf s)) (\<lambda>H. Inr (s\<lparr>o_surf := H\<rparr>))"

definition resizePbuffer ::
  "'e host \<Rightarrow> nat \<Rightarrow> 32 word \<Rightarrow> 32 word \<Rightarrow> window_surface \<Rightarrow> 'e renderer \<Rightarrow> fault + bool \<times> window_surface \<times> 'e renderer" where
  "resizePbuffer h t p_width p_height w s =
     (if m_wsSurface w \<noteq> 0 \<and> m_pbufWidth w = p_width \<and> m_pbufHeight w = p_height then Inr (True, w, s)
      else
        let (prev, s) = current_binding h t s; (prevContext, prevReadSurf, prevDrawSurf) = prev;
            prevPbuf = m_wsSurface w;
            needRebindContext = (prevPbuf \<noteq> 0 \<and> (prevReadSurf = prevPbuf \<or> prevDrawSurf = prevPbuf))
        in bindE (getFB s) (\<lambda>_.
          let s = (if needRebindContext then snd (MakeCurrent h t 0 0 0 s) else s);
              s = (if prevPbuf \<noteq> 0 then do_calls h t [Egl ''eglDestroySurface'' [m_eglDisplay s, prevPbuf]] s else s);
              (r, s) = do_call h t (Egl ''eglCreatePbufferSurface'' [m_eglDisplay s, m_fbconf w, 0x3057, uint p_width,
                0x3056, uint p_height, 0x3038]) s;
              surface = ret r; w = w\<lparr>m_wsSurface := surface\<rparr>
          in if surface = 0 then Inr (False, w, s)
             else
               let w = w\<lparr>m_pbufWidth := p_width, m_pbufHeight := p_height\<rparr>;
                   s = (if needRebindContext
                        then snd (MakeCurrent h t (if prevDrawSurf = prevPbuf then surface else prevDrawSurf)
                          (if prevReadSurf = prevPbuf then surface else prevReadSurf) prevContext s)
                        else s)
               in Inr (True, w, s)))"

definition WindowSurface_create ::
  "'e host \<Rightarrow> nat \<Rightarrow> 32 word \<Rightarrow> 32 word \<Rightarrow> 32 word \<Rightarrow> 'e renderer \<Rightarrow> fault + window_surface option \<times> 'e renderer" where
  "WindowSurface_create h t p_config p_width p_height s =
     (case FBConfig_get p_config s of
        None \<Rightarrow> Inr (None, s)
      | Some fbconf \<Rightarrow>
          bindE (getFB s) (\<lambda>_.
          bindE (resizePbuffer h t p_width p_height
              \<lparr>m_wsSurface = 0, m_attachedColorBuffer = None, m_readContext = None, m_drawContext = None, m_wsWidth = 0,
                m_wsHeight = 0, m_pbufWidth = 0, m_pbufHeight = 0, m_fbconf = fbconf\<rparr> s) (\<lambda>(ok, w, s).
            if \<not> ok
            then Inr (None, do_calls h t [Egl ''eglDestroySurface'' [m_eglDisplay s, m_wsSurface w]] s)
            else Inr (Some (w\<lparr>m_wsWidth := p_width, m_wsHeight := p_height\<rparr>), s))))"

text \<open>The argument of \<open>setColorBuffer\<close> is a copy of the pointer that is released at the end.\<close>

definition attach :: "'e host \<Rightarrow> nat \<Rightarrow> addr \<Rightarrow> addr option \<Rightarrow> 'e renderer \<Rightarrow> fault + 'e renderer" where
  "attach h t a p s =
     bindE (sp_get (Some a) (o_surf s)) (\<lambda>w.
       reassign (release_cb h t (m_attachedColorBuffer w)) (use_cb p)
         (set_surf a (\<lambda>w. w\<lparr>m_attachedColorBuffer := p\<rparr>)) (m_attachedColorBuffer w) p s)"

definition fit_size :: "'e host \<Rightarrow> nat \<Rightarrow> addr \<Rightarrow> 'e renderer \<Rightarrow> fault + 'e renderer" where
  "fit_size h t a s =
     bindE (sp_get (Some a) (o_surf s)) (\<lambda>w. bindE (sp_get (m_attachedColorBuffer w) (o_cb s)) (\<lambda>b.
       if m_cbWidth b = m_wsWidth w \<and> m_cbHeight b = m_wsHeight w then Inr s
       else bindE (if m_pbufWidth w \<noteq> 0 \<and> m_pbufHeight w \<noteq> 0
                   then resizePbuffer h t (m_cbWidth b) (m_cbHeight b) w s else Inr (True, w, s)) (\<lambda>(_, w, s).
              set_surf a (\<lambda>_. w\<lparr>m_wsWidth := m_cbWidth b, m_wsHeight := m_cbHeight b\<rparr>) s)))"

definition setColorBuffer :: "'e host \<Rightarrow> nat \<Rightarrow> addr \<Rightarrow> addr \<Rightarrow> 'e renderer \<Rightarrow> fault + 'e renderer" where
  "setColorBuffer h t a p s =
     bindE (use_cb (Some p) s) (\<lambda>s. bindE (attach h t a (Some p) s) (\<lambda>s. bindE (fit_size h t a s) (release_cb h t (Some p))))"

definition bind_read :: "'e host \<Rightarrow> nat \<Rightarrow> addr \<Rightarrow> addr option \<Rightarrow> 'e renderer \<Rightarrow> fault + 'e renderer" where
  "bind_read h t a p s =
     bindE (sp_get (Some a) (o_surf s)) (\<lambda>w.
       reassign (release_ctx h t (m_readContext w)) (use_ctx p)
         (set_surf a (\<lambda>w. w\<lparr>m_readContext := p\<rparr>)) (m_readContext w) p s)"

definition bind_draw :: "'e host \<Rightarrow> nat \<Rightarrow> addr \<Rightarrow> addr option \<Rightarrow> 'e renderer \<Rightarrow> fault + 'e renderer" where
  "bind_draw h t a p s =
     bindE (sp_get (Some a) (o_surf s)) (\<lambda>w.
       reassign (release_ctx h t (m_drawContext w)) (use_ctx p)
         (set_surf a (\<lambda>w. w\<lparr>m_drawContext := p\<rparr>)) (m_drawContext w) p s)"

text \<open>\<open>bind\<close>, whose first argument is a copy of the pointer too.\<close>

definition WindowSurface_bind ::
  "'e host \<Rightarrow> nat \<Rightarrow> addr \<Rightarrow> addr option \<Rightarrow> SurfaceBindType \<Rightarrow> 'e renderer \<Rightarrow> fault + 'e renderer" where
  "WindowSurface_bind h t a p_ctx p_bindType s =
     bindE (use_ctx p_ctx s) (\<lambda>s.
     bindE (case p_bindType of
         SURFACE_BIND_READ \<Rightarrow> bind_read h t a p_ctx s
       | SURFACE_BIND_DRAW \<Rightarrow> bind_draw h t a p_ctx s
       | SURFACE_BIND_READDRAW \<Rightarrow> bindE (bind_read h t a p_ctx s) (bind_draw h t a p_ctx)) (release_ctx h t p_ctx))"

definition blitToColorBuffer :: "'e host \<Rightarrow> nat \<Rightarrow> addr \<Rightarrow> 'e renderer \<Rightarrow> fault + 'e renderer" where
  "blitToColorBuffer h t a s =
     bindE (sp_get (Some a) (o_surf s)) (\<lambda>w.
       if m_wsWidth w = 0 \<and> m_wsHeight w = 0 then Inr s
       else bindE (sp_get (m_attachedColorBuffer w) (o_cb s)) (\<lambda>b.
         if m_cbWidth b \<noteq> m_wsWidth w \<or> m_cbHeight b \<noteq> m_wsHeight w then Inr s
         else
           let (prev, s) = current_binding h t s; (prevContext, prevReadSurf, prevDrawSurf) = prev
           in bindE (getFB s) (\<lambda>_. bindE (sp_get (m_drawContext w) (o_ctx s)) (\<lambda>c.
                let (ok, s) = MakeCurrent h t (m_wsSurface w) (m_wsSurface w) (m_ctx c) s
                in if \<not> ok then Inr s
                   else bindE (blitFromCurrentReadBuffer h t (the (m_attachedColorBuffer w)) s) (\<lambda>(_, s).
                     Inr (snd (MakeCurrent h t prevDrawSurf prevReadSurf prevContext s)))))))"

definition flushColorBuffer :: "'e host \<Rightarrow> nat \<Rightarrow> addr \<Rightarrow> 'e renderer \<Rightarrow> fault + 'e renderer" where
  "flushColorBuffer h t a s =
     bindE (sp_get (Some a) (o_surf s)) (\<lambda>w. if m_attachedColorBuffer w \<noteq> None then blitToColorBuffer h t a s else Inr s)"

end
