(* ===== verification/Render_FrameBuffer.thy ===== *)
theory Render_FrameBuffer
  imports Render_Objects
begin

text \<open>
  The operations of \<open>FrameBuffer.cpp\<close>.
  Every operation holds \<open>m_lock\<close> from its first to its last statement, so it is one step; the
  pointers it copies into local variables are counted where the tables change under them.
\<close>

section \<open>Handles\<close>

text \<open>The loop of \<open>genHandle\<close>; it does not end when no identifier is free.\<close>

partial_function (option) next_handle :: "(HandleType \<Rightarrow> bool) \<Rightarrow> HandleType \<Rightarrow> HandleType option" where
  "next_handle used n = (let i = n + 1 in if i = 0 \<or> used i then next_handle used i else Some i)"

declare next_handle.simps [code]

definition genHandle :: "'e renderer \<Rightarrow> fault + HandleType \<times> 'e renderer" where
  "genHandle s =
     (case next_handle (\<lambda>i. m_contexts s i \<noteq> None \<or> m_windows s i \<noteq> None) (s_nextHandle s) of
        None \<Rightarrow> Inl Hang
      | Some i \<Rightarrow> Inr (i, s\<lparr>s_nextHandle := i\<rparr>))"

section \<open>Creating and destroying\<close>

definition allocate :: "'e renderer \<Rightarrow> addr \<times> 'e renderer" where
  "allocate s = (o_next s, s\<lparr>o_next := o_next s + 1\<rparr>)"

text \<open>The first pointer to a new object is a local variable.\<close>

definition new_cb :: "color_buffer \<Rightarrow> 'e renderer \<Rightarrow> addr \<times> 'e renderer" where
  "new_cb b s = (let (a, s) = allocate s in (a, s\<lparr>o_cb := sp_new a b (o_cb s)\<rparr>))"

definition new_ctx :: "render_context \<Rightarrow> 'e renderer \<Rightarrow> addr \<times> 'e renderer" where
  "new_ctx c s = (let (a, s) = allocate s in (a, s\<lparr>o_ctx := sp_new a c (o_ctx s)\<rparr>))"

definition new_surf :: "window_surface \<Rightarrow> 'e renderer \<Rightarrow> addr \<times> 'e renderer" where
  "new_surf w s = (let (a, s) = allocate s in (a, s\<lparr>o_surf := sp_new a w (o_surf s)\<rparr>))"

text \<open>The assignments to an entry of a table, which \<open>operator[]\<close> makes with null pointers.\<close>

definition store_cb :: "'e host \<Rightarrow> nat \<Rightarrow> HandleType \<Rightarrow> addr \<Rightarrow> 'e renderer \<Rightarrow> fault + 'e renderer" where
  "store_cb h t i a s =
     (let old = map_option cb (m_colorbuffers s i);
          count = (case m_colorbuffers s i of None \<Rightarrow> 0 | Some c \<Rightarrow> refcount c)
      in bindE (reassign (release_cb h t old) (use_cb (Some a))
           (\<lambda>s. Inr (s\<lparr>m_colorbuffers := (m_colorbuffers s)(i \<mapsto> \<lparr>cb = a, refcount = count\<rparr>)\<rparr>)) old (Some a) s) (\<lambda>s.
         Inr (s\<lparr>m_colorbuffers := (m_colorbuffers s)(i := map_option (\<lambda>c. c\<lparr>refcount := 1\<rparr>) (m_colorbuffers s i))\<rparr>)))"

definition store_ctx :: "'e host \<Rightarrow> nat \<Rightarrow> HandleType \<Rightarrow> addr \<Rightarrow> 'e renderer \<Rightarrow> fault + 'e renderer" where
  "store_ctx h t i a s =
     (let old = m_contexts s i
      in reassign (release_ctx h t old) (use_ctx (Some a))
           (\<lambda>s. Inr (s\<lparr>m_contexts := (m_contexts s)(i \<mapsto> a)\<rparr>)) old (Some a) s)"

definition store_win :: "'e host \<Rightarrow> nat \<Rightarrow> HandleType \<Rightarrow> addr \<Rightarrow> 'e renderer \<Rightarrow> fault + 'e renderer" where
  "store_win h t i a s =
     (let old = m_windows s i
      in reassign (release_surf h t old) (use_surf (Some a))
           (\<lambda>s. Inr (s\<lparr>m_windows := (m_windows s)(i \<mapsto> a)\<rparr>)) old (Some a) s)"

definition createColorBuffer ::
  "'e host \<Rightarrow> nat \<Rightarrow> 32 word \<Rightarrow> 32 word \<Rightarrow> 32 word \<Rightarrow> 'e renderer \<Rightarrow> fault + HandleType \<times> 'e renderer" where
  "createColorBuffer h t p_width p_height p_internalFormat s =
     bindE (ColorBuffer_create h t p_width p_height p_internalFormat s) (\<lambda>(ob, s).
       case ob of
         None \<Rightarrow> Inr (0, s)
       | Some b \<Rightarrow>
           let (a, s) = new_cb b s
           in bindE (genHandle s) (\<lambda>(i, s). bindE (store_cb h t i a s) (\<lambda>s.
              bindE (release_cb h t (Some a) s) (\<lambda>s. Inr (i, s)))))"

text \<open>The context to share with is a local variable until the end.\<close>

definition createRenderContext ::
  "'e host \<Rightarrow> nat \<Rightarrow> 32 word \<Rightarrow> HandleType \<Rightarrow> bool \<Rightarrow> 'e renderer \<Rightarrow> fault + HandleType \<times> 'e renderer" where
  "createRenderContext h t p_config p_share p_isGL2 s =
     (if p_share \<noteq> 0 \<and> m_contexts s p_share = None then Inr (0, s)
      else
        let share = (if p_share \<noteq> 0 then m_contexts s p_share else None)
        in bindE (use_ctx share s) (\<lambda>s.
           bindE (RenderContext_create h t p_config share p_isGL2 s) (\<lambda>(oc, s).
           bindE (case oc of
               None \<Rightarrow> Inr (0, s)
             | Some c \<Rightarrow>
                 let (a, s) = new_ctx c s
                 in bindE (genHandle s) (\<lambda>(i, s). bindE (store_ctx h t i a s) (\<lambda>s.
                    bindE (release_ctx h t (Some a) s) (\<lambda>s. Inr (i, s))))) (\<lambda>(i, s).
           bindE (release_ctx h t share s) (\<lambda>s. Inr (i, s))))))"

definition createWindowSurface ::
  "'e host \<Rightarrow> nat \<Rightarrow> 32 word \<Rightarrow> 32 word \<Rightarrow> 32 word \<Rightarrow> 'e renderer \<Rightarrow> fault + HandleType \<times> 'e renderer" where
  "createWindowSurface h t p_config p_width p_height s =
     bindE (WindowSurface_create h t p_config p_width p_height s) (\<lambda>(ow, s).
       case ow of
         None \<Rightarrow> Inr (0, s)
       | Some w \<Rightarrow>
           let (a, s) = new_surf w s
           in bindE (genHandle s) (\<lambda>(i, s). bindE (store_win h t i a s) (\<lambda>s.
              bindE (release_surf h t (Some a) s) (\<lambda>s. Inr (i, s)))))"

text \<open>\<open>erase\<close> destroys the pointer of the entry.\<close>

definition DestroyRenderContext :: "'e host \<Rightarrow> nat \<Rightarrow> HandleType \<Rightarrow> 'e renderer \<Rightarrow> fault + 'e renderer" where
  "DestroyRenderContext h t p_context s =
     release_ctx h t (m_contexts s p_context) (s\<lparr>m_contexts := (m_contexts s)(p_context := None)\<rparr>)"

definition DestroyWindowSurface :: "'e host \<Rightarrow> nat \<Rightarrow> HandleType \<Rightarrow> 'e renderer \<Rightarrow> fault + 'e renderer" where
  "DestroyWindowSurface h t p_surface s =
     release_surf h t (m_windows s p_surface) (s\<lparr>m_windows := (m_windows s)(p_surface := None)\<rparr>)"

definition openColorBuffer :: "HandleType \<Rightarrow> 'e renderer \<Rightarrow> 'e renderer" where
  "openColorBuffer p_colorbuffer s =
     (case m_colorbuffers s p_colorbuffer of
        None \<Rightarrow> s
      | Some c \<Rightarrow> s\<lparr>m_colorbuffers := (m_colorbuffers s)(p_colorbuffer \<mapsto> c\<lparr>refcount := refcount c + 1\<rparr>)\<rparr>)"

definition closeColorBuffer :: "'e host \<Rightarrow> nat \<Rightarrow> HandleType \<Rightarrow> 'e renderer \<Rightarrow> fault + 'e renderer" where
  "closeColorBuffer h t p_colorbuffer s =
     (case m_colorbuffers s p_colorbuffer of
        None \<Rightarrow> Inr s
      | Some c \<Rightarrow>
          if refcount c - 1 = 0
          then release_cb h t (Some (cb c)) (s\<lparr>m_colorbuffers := (m_colorbuffers s)(p_colorbuffer := None)\<rparr>)
          else Inr (s\<lparr>m_colorbuffers := (m_colorbuffers s)(p_colorbuffer \<mapsto> c\<lparr>refcount := refcount c - 1\<rparr>)\<rparr>))"

section \<open>Windows and colour buffers\<close>

definition flushWindowSurfaceColorBuffer :: "'e host \<Rightarrow> nat \<Rightarrow> HandleType \<Rightarrow> 'e renderer \<Rightarrow> fault + bool \<times> 'e renderer" where
  "flushWindowSurfaceColorBuffer h t p_surface s =
     (case m_windows s p_surface of
        None \<Rightarrow> Inr (False, s)
      | Some w \<Rightarrow> bindE (flushColorBuffer h t w s) (\<lambda>s. Inr (True, s)))"

definition setWindowSurfaceColorBuffer ::
  "'e host \<Rightarrow> nat \<Rightarrow> HandleType \<Rightarrow> HandleType \<Rightarrow> 'e renderer \<Rightarrow> fault + bool \<times> 'e renderer" where
  "setWindowSurfaceColorBuffer h t p_surface p_colorbuffer s =
     (case m_windows s p_surface of
        None \<Rightarrow> Inr (False, s)
      | Some w \<Rightarrow>
          (case m_colorbuffers s p_colorbuffer of
             None \<Rightarrow> Inr (False, s)
           | Some c \<Rightarrow> bindE (setColorBuffer h t w (cb c) s) (\<lambda>s. Inr (True, s))))"

definition updateColorBuffer ::
  "'e host \<Rightarrow> nat \<Rightarrow> HandleType \<Rightarrow> int list \<Rightarrow> 'e renderer \<Rightarrow> fault + bool \<times> 'e renderer" where
  "updateColorBuffer h t p_colorbuffer args s =
     (case m_colorbuffers s p_colorbuffer of
        None \<Rightarrow> Inr (False, s)
      | Some c \<Rightarrow> bindE (subUpdate h t (cb c) args s) (\<lambda>s. Inr (True, s)))"

definition bindColorBufferToTexture :: "'e host \<Rightarrow> nat \<Rightarrow> HandleType \<Rightarrow> 'e renderer \<Rightarrow> fault + bool \<times> 'e renderer" where
  "bindColorBufferToTexture h t p_colorbuffer s =
     (case m_colorbuffers s p_colorbuffer of None \<Rightarrow> Inr (False, s) | Some c \<Rightarrow> bindToTexture h t (cb c) s)"

definition bindColorBufferToRenderbuffer :: "'e host \<Rightarrow> nat \<Rightarrow> HandleType \<Rightarrow> 'e renderer \<Rightarrow> fault + bool \<times> 'e renderer" where
  "bindColorBufferToRenderbuffer h t p_colorbuffer s =
     (case m_colorbuffers s p_colorbuffer of None \<Rightarrow> Inr (False, s) | Some c \<Rightarrow> bindToRenderbuffer h t (cb c) s)"

section \<open>Binding a context\<close>

text \<open>The handles of \<open>bindContext\<close> looked up: None when one is bad, null pointers for an unbind operation.\<close>

definition bind_targets ::
  "HandleType \<Rightarrow> HandleType \<Rightarrow> HandleType \<Rightarrow> 'e renderer \<Rightarrow> (addr option \<times> addr option \<times> addr option) option" where
  "bind_targets p_context p_drawSurface p_readSurface s =
     (if p_context = 0 \<and> p_drawSurface = 0 \<and> p_readSurface = 0 then Some (None, None, None)
      else if m_contexts s p_context = None then None
      else if m_windows s p_drawSurface = None then None
      else if p_readSurface \<noteq> p_drawSurface \<and> m_windows s p_readSurface = None then None
      else Some (m_contexts s p_context, m_windows s p_drawSurface,
        if p_readSurface \<noteq> p_drawSurface then m_windows s p_readSurface else m_windows s p_drawSurface))"

text \<open>The handle of the surface or context behind a pointer that may be null.\<close>

definition surface_of :: "addr option \<Rightarrow> 'e renderer \<Rightarrow> fault + int" where
  "surface_of p s = (if p = None then Inr 0 else bindE (sp_get p (o_surf s)) (\<lambda>w. Inr (m_wsSurface w)))"

definition context_of :: "addr option \<Rightarrow> 'e renderer \<Rightarrow> fault + int" where
  "context_of p s = (if p = None then Inr 0 else bindE (sp_get p (o_ctx s)) (\<lambda>c. Inr (m_ctx c)))"

text \<open>The assignments to the fields of the thread's information.\<close>

definition set_currContext :: "'e host \<Rightarrow> nat \<Rightarrow> addr option \<Rightarrow> 'e renderer \<Rightarrow> fault + 'e renderer" where
  "set_currContext h t p s =
     (let ti = getRenderThreadInfo t s
      in reassign (release_ctx h t (currContext ti)) (use_ctx p)
           (\<lambda>s. Inr (set_info t ((getRenderThreadInfo t s)\<lparr>currContext := p\<rparr>) s)) (currContext ti) p s)"

definition set_currDrawSurf :: "'e host \<Rightarrow> nat \<Rightarrow> addr option \<Rightarrow> 'e renderer \<Rightarrow> fault + 'e renderer" where
  "set_currDrawSurf h t p s =
     (let ti = getRenderThreadInfo t s
      in reassign (release_surf h t (currDrawSurf ti)) (use_surf p)
           (\<lambda>s. Inr (set_info t ((getRenderThreadInfo t s)\<lparr>currDrawSurf := p\<rparr>) s)) (currDrawSurf ti) p s)"

definition set_currReadSurf :: "'e host \<Rightarrow> nat \<Rightarrow> addr option \<Rightarrow> 'e renderer \<Rightarrow> fault + 'e renderer" where
  "set_currReadSurf h t p s =
     (let ti = getRenderThreadInfo t s
      in reassign (release_surf h t (currReadSurf ti)) (use_surf p)
           (\<lambda>s. Inr (set_info t ((getRenderThreadInfo t s)\<lparr>currReadSurf := p\<rparr>) s)) (currReadSurf ti) p s)"

definition bind_surfaces ::
  "'e host \<Rightarrow> nat \<Rightarrow> bool \<Rightarrow> addr option \<Rightarrow> addr option \<Rightarrow> addr option \<Rightarrow> 'e renderer \<Rightarrow> fault + 'e renderer" where
  "bind_surfaces h t differ ctx draw read s =
     (case (draw, read) of
        (Some d, Some r) \<Rightarrow>
          if differ
          then bindE (WindowSurface_bind h t d ctx SURFACE_BIND_DRAW s) (WindowSurface_bind h t r ctx SURFACE_BIND_READ)
          else WindowSurface_bind h t d ctx SURFACE_BIND_READDRAW s
      | _ \<Rightarrow> Inr s)"

text \<open>The local pointers \<open>draw\<close>, \<open>read\<close> and \<open>ctx\<close> are released at the end, the last declared first. The
  decoders' pointers to the context's data, which follow \<open>currContext\<close>, have no other effect here.\<close>

definition bindContext ::
  "'e host \<Rightarrow> nat \<Rightarrow> HandleType \<Rightarrow> HandleType \<Rightarrow> HandleType \<Rightarrow> 'e renderer \<Rightarrow> fault + bool \<times> 'e renderer" where
  "bindContext h t p_context p_drawSurface p_readSurface s =
     (case bind_targets p_context p_drawSurface p_readSurface s of
        None \<Rightarrow> Inr (False, s)
      | Some (ctx, draw, read) \<Rightarrow>
          bindE (surface_of draw s) (\<lambda>d. bindE (surface_of read s) (\<lambda>r. bindE (context_of ctx s) (\<lambda>c.
          let (ok, s) = MakeCurrent h t d r c s
          in if \<not> ok then Inr (False, s)
             else
               let ti = getRenderThreadInfo t s;
                   unbind = (draw = None \<and> read = None);
                   draw = (if unbind then currDrawSurf ti else draw);
                   read = (if unbind then currReadSurf ti else read)
               in bindE (use_ctx ctx s) (\<lambda>s. bindE (use_surf draw s) (\<lambda>s. bindE (use_surf read s) (\<lambda>s.
                  bindE (bind_surfaces h t (p_readSurface \<noteq> p_drawSurface) ctx draw read s) (\<lambda>s.
                  bindE (set_currContext h t ctx s) (\<lambda>s.
                  bindE (set_currDrawSurf h t draw s) (\<lambda>s.
                  bindE (set_currReadSurf h t read s) (\<lambda>s.
                  bindE (release_ctx h t ctx s) (\<lambda>s.
                  bindE (release_surf h t read s) (\<lambda>s.
                  bindE (release_surf h t draw s) (\<lambda>s. Inr (True, s)))))))))))))))"

section \<open>The display\<close>

definition post :: "'e host \<Rightarrow> nat \<Rightarrow> HandleType \<Rightarrow> 'e renderer \<Rightarrow> fault + bool \<times> 'e renderer" where
  "post h t p_colorbuffer s =
     (case m_colorbuffers s p_colorbuffer of
        None \<Rightarrow> Inr (False, s)
      | Some c \<Rightarrow>
          let s = s\<lparr>m_lastPostedColorBuffer := p_colorbuffer\<rparr>
          in if m_subWin s = 0 then Inr (False, s)
             else
               let (ok, s) = bindSubwin_locked h t s
               in if \<not> ok then Inr (False, s)
                  else
                    let s = do_calls h t ([Gl ''glPushMatrix'' [], Gl ''glRotatef'' [m_zRot s, 0, 0, 1]] @
                          (if m_zRot s \<noteq> 0 then [Gl ''glClear'' [GL_COLOR_BUFFER_BIT]] else [])) s
                    in bindE (ColorBuffer_post h t (cb c) s) (\<lambda>(ok, s).
                      let s = do_calls h t [Gl ''glPopMatrix'' []] s;
                          s = (if ok
                               then do_calls h t ((if m_onPost s
                                      then [Gl ''glReadPixels'' [0, 0, m_fbWidth s, m_fbHeight s, 0x1908, GL_UNSIGNED_BYTE],
                                            Native ''onPost'' [m_fbWidth s, m_fbHeight s, -1, 0x1908, GL_UNSIGNED_BYTE]]
                                      else []) @ [Egl ''eglSwapBuffers'' [m_eglDisplay s, m_eglSurface s]]) s
                               else s)
                      in Inr (ok, snd (unbind_locked h t s))))"

definition repost :: "'e host \<Rightarrow> nat \<Rightarrow> 'e renderer \<Rightarrow> fault + bool \<times> 'e renderer" where
  "repost h t s =
     (if m_lastPostedColorBuffer s \<noteq> 0 then post h t (m_lastPostedColorBuffer s) s else Inr (False, s))"

definition setDisplayRotation :: "'e host \<Rightarrow> nat \<Rightarrow> int \<Rightarrow> 'e renderer \<Rightarrow> fault + 'e renderer" where
  "setDisplayRotation h t zRot s = bindE (repost h t (s\<lparr>m_zRot := zRot\<rparr>)) (\<lambda>(_, s). Inr s)"

definition setupSubWindow ::
  "'e host \<Rightarrow> nat \<Rightarrow> int list \<Rightarrow> int \<Rightarrow> int \<Rightarrow> int \<Rightarrow> 'e renderer \<Rightarrow> fault + bool \<times> 'e renderer" where
  "setupSubWindow h t pos p_width p_height zRot s =
     (if \<not> fb_live s \<or> m_subWin s \<noteq> 0 then Inr (False, s)
      else
        let (r, s) = do_call h t (Native ''createSubWindow'' (pos @ [p_width, p_height])) s;
            s = s\<lparr>m_subWin := ret r\<rparr>
        in if m_subWin s = 0 then Inr (False, s)
           else
             let (r, s) = do_call h t (Egl ''eglCreateWindowSurface'' [m_eglDisplay s, m_eglConfig s, m_subWin s, 0]) s;
                 s = s\<lparr>m_eglSurface := ret r\<rparr>
             in if m_eglSurface s = 0
                then Inr (False, (do_calls h t [Native ''destroySubWindow'' [m_subWin s]] s)\<lparr>m_subWin := 0\<rparr>)
                else
                  let (ok, s) = bindSubwin_locked h t s
                  in if \<not> ok then Inr (False, s)
                     else
                       let s = (do_calls h t [Gl ''glViewport'' [0, 0, p_width, p_height]] s)\<lparr>m_zRot := zRot\<rparr>
                       in bindE (post h t (m_lastPostedColorBuffer s) s) (\<lambda>(_, s).
                            Inr (True, snd (unbind_locked h t s))))"

definition removeSubWindow :: "'e host \<Rightarrow> nat \<Rightarrow> 'e renderer \<Rightarrow> bool \<times> 'e renderer" where
  "removeSubWindow h t s =
     (if \<not> fb_live s \<or> m_subWin s = 0 then (False, s)
      else
        let (_, s) = MakeCurrent h t 0 0 0 s;
            s = do_calls h t [Egl ''eglDestroySurface'' [m_eglDisplay s, m_eglSurface s],
              Native ''destroySubWindow'' [m_subWin s]] s
        in (True, s\<lparr>m_eglSurface := 0, m_subWin := 0\<rparr>))"

text \<open>\<open>clear\<close> of a table destroys its pointers in the order of the handles.\<close>

fun release_all :: "(addr option \<Rightarrow> 'e renderer \<Rightarrow> fault + 'e renderer) \<Rightarrow> addr option list \<Rightarrow> 'e renderer \<Rightarrow> fault + 'e renderer" where
  "release_all rel [] s = Inr s"
| "release_all rel (p # ps) s = bindE (rel p s) (release_all rel ps)"

definition clear_colorbuffers :: "'e host \<Rightarrow> nat \<Rightarrow> 'e renderer \<Rightarrow> fault + 'e renderer" where
  "clear_colorbuffers h t s =
     release_all (release_cb h t) (map (\<lambda>i. map_option cb (m_colorbuffers s i)) (sorted_list_of_set (dom (m_colorbuffers s))))
       (s\<lparr>m_colorbuffers := Map.empty\<rparr>)"

definition clear_windows :: "'e host \<Rightarrow> nat \<Rightarrow> 'e renderer \<Rightarrow> fault + 'e renderer" where
  "clear_windows h t s =
     release_all (release_surf h t) (map (m_windows s) (sorted_list_of_set (dom (m_windows s)))) (s\<lparr>m_windows := Map.empty\<rparr>)"

definition clear_contexts :: "'e host \<Rightarrow> nat \<Rightarrow> 'e renderer \<Rightarrow> fault + 'e renderer" where
  "clear_contexts h t s =
     release_all (release_ctx h t) (map (m_contexts s) (sorted_list_of_set (dom (m_contexts s)))) (s\<lparr>m_contexts := Map.empty\<rparr>)"

definition finalize :: "'e host \<Rightarrow> nat \<Rightarrow> 'e renderer \<Rightarrow> fault + 'e renderer" where
  "finalize h t s =
     (if \<not> fb_live s then Inr s
      else
        let (_, s) = removeSubWindow h t s
        in bindE (clear_colorbuffers h t s) (\<lambda>s. bindE (clear_windows h t s) (\<lambda>s. bindE (clear_contexts h t s) (\<lambda>s.
           let (_, s) = MakeCurrent h t 0 0 0 s;
               s = do_calls h t [Egl ''eglDestroyContext'' [m_eglDisplay s, m_eglContext s],
                 Egl ''eglDestroySurface'' [m_eglDisplay s, m_pbufSurface s]] s
           in Inr (s\<lparr>fb_live := False\<rparr>)))))"

end
