(* ===== verification/Render_Inv.thy ===== *)
theory Render_Inv
  imports Render_FrameBuffer
begin

text \<open>
  The counters of the smart pointers are exact: every operation on the objects keeps them equal to
  the number of pointers, those in surfaces and those outside (in the tables, in the threads
  and in local variables).

  The lemmas are total: an operation returns, and what it returns satisfies the postcondition.
\<close>

section \<open>Total correctness\<close>

definition returns :: "'f + 'a \<Rightarrow> ('a \<Rightarrow> bool) \<Rightarrow> bool" where
  "returns m P = (case m of Inl f \<Rightarrow> False | Inr x \<Rightarrow> P x)"

lemma returns_simps [simp]: "returns (Inr x) P = P x" "returns (Inl f) P = False"
  by (simp_all add: returns_def)

lemma returns_bind: "returns m Q \<Longrightarrow> (\<And>x. Q x \<Longrightarrow> returns (k x) P) \<Longrightarrow> returns (bindE m k) P"
  by (cases m) simp_all

lemma returns_mono: "returns m Q \<Longrightarrow> (\<And>x. Q x \<Longrightarrow> P x) \<Longrightarrow> returns m P"
  by (cases m) simp_all

lemma returns_iff: "returns m P \<longleftrightarrow> (\<exists>x. m = Inr x \<and> P x)"
  by (cases m) simp_all

section \<open>Counting a pointer in and out\<close>

definition take_ref :: "(addr \<Rightarrow> nat) \<Rightarrow> addr option \<Rightarrow> addr \<Rightarrow> nat" where
  "take_ref r p = (\<lambda>a. r a - of_bool (p = Some a))"

definition add_ref :: "(addr \<Rightarrow> nat) \<Rightarrow> addr option \<Rightarrow> addr \<Rightarrow> nat" where
  "add_ref r p = (\<lambda>a. r a + of_bool (p = Some a))"

definition has :: "(addr \<Rightarrow> nat) \<Rightarrow> addr option \<Rightarrow> bool" where
  "has r p \<longleftrightarrow> (\<forall>a. p = Some a \<longrightarrow> 0 < r a)"

lemma count_null [simp]: "take_ref r None = r" "add_ref r None = r" "has r None"
  by (auto simp: take_ref_def add_ref_def has_def)

lemma count_upd: "take_ref r (Some a) = r(a := r a - 1)" "add_ref r (Some a) = r(a := r a + 1)" "has r (Some a) \<longleftrightarrow> 0 < r a"
  by (auto simp: take_ref_def add_ref_def has_def)

lemma has_add_ref [simp]: "has (add_ref r p) p" "has r q \<Longrightarrow> has (add_ref r p) q"
  by (auto simp: has_def add_ref_def)

lemma has_take_ref: "has r q \<Longrightarrow> p \<noteq> q \<Longrightarrow> has (take_ref r p) q"
  by (auto simp: has_def take_ref_def)

lemma take_add_ref [simp]: "take_ref (add_ref r p) p = r"
  by (rule ext) (simp add: take_ref_def add_ref_def)

lemma add_take_ref: "has r p \<Longrightarrow> add_ref (take_ref r p) p = r"
  by (rule ext) (auto simp: take_ref_def add_ref_def has_def)

lemma has_refs:
  "finite (dom m) \<Longrightarrow> m k = Some v \<Longrightarrow> has (\<lambda>a. refs g m a + f a) (g v)"
  "finite (dom m) \<Longrightarrow> m k = Some v \<Longrightarrow> has (\<lambda>a. f a + refs g m a) (g v)"
  by (auto simp: has_def dest: refs_pos)

section \<open>The pointers to buffers and contexts\<close>

definition only_cb :: "'e renderer \<Rightarrow> 'e renderer \<Rightarrow> bool" where
  "only_cb s s' \<longleftrightarrow> objs s' = objs (s\<lparr>o_cb := o_cb s'\<rparr>) \<and> (\<forall>a. o_cb s a = None \<longrightarrow> o_cb s' a = None)"

definition only_ctx :: "'e renderer \<Rightarrow> 'e renderer \<Rightarrow> bool" where
  "only_ctx s s' \<longleftrightarrow> objs s' = objs (s\<lparr>o_ctx := o_ctx s'\<rparr>) \<and> (\<forall>a. o_ctx s a = None \<longrightarrow> o_ctx s' a = None)"

lemma only_trans: "only_cb s s' \<Longrightarrow> only_cb s' s'' \<Longrightarrow> only_cb s s''" "only_ctx s s' \<Longrightarrow> only_ctx s' s'' \<Longrightarrow> only_ctx s s''"
  by (auto simp: only_cb_def only_ctx_def objs_def)

lemma ColorBuffer_destroy_frame: "fb_live s \<Longrightarrow> returns (ColorBuffer_destroy h t b s) (\<lambda>s'. objs s' = objs s)"
  by (auto simp: ColorBuffer_destroy_def getFB_def Let_def split: prod.splits dest!: frame)

lemma RenderContext_destroy_frame: "fb_live s \<Longrightarrow> returns (RenderContext_destroy h t c s) (\<lambda>s'. objs s' = objs s)"
  by (simp add: RenderContext_destroy_def getFB_def del: do_calls.simps)

lemma release_cb_counts:
  assumes ok: "heap_ok r (o_cb s)" and p: "has r p" and fb: "fb_live s"
  shows "returns (release_cb h t p s) (\<lambda>s'. heap_ok (take_ref r p) (o_cb s') \<and> only_cb s s')"
proof (cases p)
  case None
  with ok show ?thesis by (simp add: release_cb_def only_cb_def)
next
  case (Some a)
  with p have "0 < r a" by (simp add: count_upd)
  from sp_release_ok [OF ok this] obtain x where x: "o_cb s a = Some (x, r a)"
    "sp_release (Some a) (o_cb s) = (if r a > 1 then Inr (None, (o_cb s)(a \<mapsto> (x, r a - 1))) else Inr (Some x, (o_cb s)(a := None)))"
    "r a > 1 \<Longrightarrow> heap_ok (r(a := r a - 1)) ((o_cb s)(a \<mapsto> (x, r a - 1)))"
    "r a = 1 \<Longrightarrow> heap_ok (r(a := 0)) ((o_cb s)(a := None))"
    by blast
  show ?thesis
  proof (cases "r a > 1")
    case True
    with x Some show ?thesis by (auto simp: release_cb_def count_upd only_cb_def objs_def)
  next
    case False
    with \<open>0 < r a\<close> have one: "r a = 1" by simp
    show ?thesis
      using ColorBuffer_destroy_frame [of "s\<lparr>o_cb := (o_cb s)(a := None)\<rparr>" h t x] x one Some fb
      by (auto simp: release_cb_def count_upd only_cb_def objs_def elim!: returns_mono)
  qed
qed

lemma release_ctx_counts:
  assumes ok: "heap_ok r (o_ctx s)" and p: "has r p" and fb: "fb_live s"
  shows "returns (release_ctx h t p s) (\<lambda>s'. heap_ok (take_ref r p) (o_ctx s') \<and> only_ctx s s')"
proof (cases p)
  case None
  with ok show ?thesis by (simp add: release_ctx_def only_ctx_def)
next
  case (Some a)
  with p have "0 < r a" by (simp add: count_upd)
  from sp_release_ok [OF ok this] obtain x where x: "o_ctx s a = Some (x, r a)"
    "sp_release (Some a) (o_ctx s) = (if r a > 1 then Inr (None, (o_ctx s)(a \<mapsto> (x, r a - 1))) else Inr (Some x, (o_ctx s)(a := None)))"
    "r a > 1 \<Longrightarrow> heap_ok (r(a := r a - 1)) ((o_ctx s)(a \<mapsto> (x, r a - 1)))"
    "r a = 1 \<Longrightarrow> heap_ok (r(a := 0)) ((o_ctx s)(a := None))"
    by blast
  show ?thesis
  proof (cases "r a > 1")
    case True
    with x Some show ?thesis by (auto simp: release_ctx_def count_upd only_ctx_def objs_def)
  next
    case False
    with \<open>0 < r a\<close> have one: "r a = 1" by simp
    show ?thesis
      using RenderContext_destroy_frame [of "s\<lparr>o_ctx := (o_ctx s)(a := None)\<rparr>" h t x] x one Some fb
      by (auto simp: release_ctx_def count_upd only_ctx_def objs_def elim!: returns_mono)
  qed
qed

lemma use_cb_counts:
  assumes ok: "heap_ok r (o_cb s)" and p: "has r p"
  shows "returns (use_cb p s) (\<lambda>s'. heap_ok (add_ref r p) (o_cb s') \<and> only_cb s s')"
proof (cases p)
  case None
  with ok show ?thesis by (simp add: use_cb_def only_cb_def)
next
  case (Some a)
  with p have "0 < r a" by (simp add: count_upd)
  then obtain x where "o_cb s a = Some (x, r a)" "sp_use (Some a) (o_cb s) = Inr ((o_cb s)(a \<mapsto> (x, r a + 1)))"
    "heap_ok (r(a := r a + 1)) ((o_cb s)(a \<mapsto> (x, r a + 1)))"
    using sp_use_ok [OF ok] by blast
  with Some show ?thesis by (auto simp: use_cb_def count_upd only_cb_def objs_def)
qed

lemma use_ctx_counts:
  assumes ok: "heap_ok r (o_ctx s)" and p: "has r p"
  shows "returns (use_ctx p s) (\<lambda>s'. heap_ok (add_ref r p) (o_ctx s') \<and> only_ctx s s')"
proof (cases p)
  case None
  with ok show ?thesis by (simp add: use_ctx_def only_ctx_def)
next
  case (Some a)
  with p have "0 < r a" by (simp add: count_upd)
  then obtain x where "o_ctx s a = Some (x, r a)" "sp_use (Some a) (o_ctx s) = Inr ((o_ctx s)(a \<mapsto> (x, r a + 1)))"
    "heap_ok (r(a := r a + 1)) ((o_ctx s)(a \<mapsto> (x, r a + 1)))"
    using sp_use_ok [OF ok] by blast
  with Some show ?thesis by (auto simp: use_ctx_def count_upd only_ctx_def objs_def)
qed

text \<open>An assignment takes the old pointer out and counts the new one in; the store comes last.\<close>

lemma reassign_cb:
  assumes "heap_ok r (o_cb s)" "has r old" "has r new" "fb_live s" "old = new \<Longrightarrow> P s"
    and store: "\<And>s'. heap_ok (add_ref (take_ref r old) new) (o_cb s') \<Longrightarrow> only_cb s s' \<Longrightarrow> returns (store s') P"
  shows "returns (reassign (release_cb h t old) (use_cb new) store old new s) P"
  unfolding reassign_def
  using assms(1-5)
  by (auto intro!: returns_bind [OF release_cb_counts] returns_bind [OF use_cb_counts] store has_take_ref intro: only_trans)

lemma reassign_ctx:
  assumes "heap_ok r (o_ctx s)" "has r old" "has r new" "fb_live s" "old = new \<Longrightarrow> P s"
    and store: "\<And>s'. heap_ok (add_ref (take_ref r old) new) (o_ctx s') \<Longrightarrow> only_ctx s s' \<Longrightarrow> returns (store s') P"
  shows "returns (reassign (release_ctx h t old) (use_ctx new) store old new s) P"
  unfolding reassign_def
  using assms(1-5)
  by (auto intro!: returns_bind [OF release_ctx_counts] returns_bind [OF use_ctx_counts] store has_take_ref intro: only_trans)

end
