(* ===== verification/Render_Core.thy ===== *)
theory Render_Core
  imports Render_Inv
begin

text \<open>
  The operations on objects and the counters: \<open>core kc ks kb s\<close> says that the counters of contexts,
  surfaces and colour buffers are the pointers in surfaces together with the \<open>kc\<close>, \<open>ks\<close>
  and \<open>kb\<close> pointers outside.
\<close>

section \<open>The pointers inside surfaces\<close>

definition wctx :: "window_surface ref_heap \<Rightarrow> addr \<Rightarrow> nat" where
  "wctx H a = refs (m_readContext \<circ> fst) H a + refs (m_drawContext \<circ> fst) H a"

definition wcb :: "window_surface ref_heap \<Rightarrow> addr \<Rightarrow> nat" where
  "wcb H a = refs (m_attachedColorBuffer \<circ> fst) H a"

definition core :: "(addr \<Rightarrow> nat) \<Rightarrow> (addr \<Rightarrow> nat) \<Rightarrow> (addr \<Rightarrow> nat) \<Rightarrow> 'e renderer \<Rightarrow> bool" where
  "core kc ks kb s \<longleftrightarrow>
     finite (dom (o_surf s)) \<and>
     heap_ok (\<lambda>a. wctx (o_surf s) a + kc a) (o_ctx s) \<and>
     heap_ok ks (o_surf s) \<and>
     heap_ok (\<lambda>a. wcb (o_surf s) a + kb a) (o_cb s) \<and>
     (\<forall>a \<ge> o_next s. o_ctx s a = None \<and> o_surf s a = None \<and> o_cb s a = None)"

definition roots where
  "roots (s :: 'e renderer) = (r_threads s, m_contexts s, m_windows s, m_colorbuffers s, fb_live s, s_nextHandle s, o_next s)"

lemma rootsD:
  assumes "roots s = roots s'"
  shows "r_threads s = r_threads s'" "m_contexts s = m_contexts s'" "m_windows s = m_windows s'"
    "m_colorbuffers s = m_colorbuffers s'" "fb_live s = fb_live s'" "s_nextHandle s = s_nextHandle s'" "o_next s = o_next s'"
  using assms by (simp_all add: roots_def)

lemma roots_objs: "objs s' = objs s \<Longrightarrow> roots s' = roots s"
  by (auto simp: roots_def dest: objs_eqD)

lemma core_objs: "objs s' = objs s \<Longrightarrow> core kc ks kb s' \<longleftrightarrow> core kc ks kb s"
  by (simp add: core_def objs_eqD [of s' s])

lemma only_cbD: "only_cb s s' \<Longrightarrow> o_ctx s' = o_ctx s \<and> o_surf s' = o_surf s \<and> roots s' = roots s \<and>
    o_next s' = o_next s \<and> fb_live s' = fb_live s \<and> (\<forall>a. o_cb s a = None \<longrightarrow> o_cb s' a = None)"
  by (auto simp: only_cb_def objs_def roots_def)

lemma only_ctxD: "only_ctx s s' \<Longrightarrow> o_cb s' = o_cb s \<and> o_surf s' = o_surf s \<and> roots s' = roots s \<and>
    o_next s' = o_next s \<and> fb_live s' = fb_live s \<and> (\<forall>a. o_ctx s a = None \<longrightarrow> o_ctx s' a = None)"
  by (auto simp: only_ctx_def objs_def roots_def)

lemma getThreadInfo_roots: "roots s' = roots s \<Longrightarrow> getRenderThreadInfo t s' = getRenderThreadInfo t s"
  by (simp add: getRenderThreadInfo_def rootsD [of s' s])

text \<open>A surface's pointers are counted.\<close>

lemma core_pointers:
  assumes "core kc ks kb s" "o_surf s a = Some (w, n)"
  shows "has (\<lambda>a. wctx (o_surf s) a + kc a) (m_readContext w)" "has (\<lambda>a. wctx (o_surf s) a + kc a) (m_drawContext w)"
    "has (\<lambda>a. wcb (o_surf s) a + kb a) (m_attachedColorBuffer w)"
  using assms refs_pos [of "o_surf s" a "(w, n)" "m_readContext \<circ> fst"] refs_pos [of "o_surf s" a "(w, n)" "m_drawContext \<circ> fst"]
    refs_pos [of "o_surf s" a "(w, n)" "m_attachedColorBuffer \<circ> fst"]
  by (auto simp: core_def has_def wctx_def wcb_def)

lemma core_surf:
  assumes "core kc ks kb s" "has ks (Some a)"
  obtains w where "o_surf s a = Some (w, ks a)" "sp_get (Some a) (o_surf s) = Inr w"
  using assms sp_get_ok [of ks "o_surf s" a] by (auto simp: core_def count_upd)

lemma has_add: "has k p \<Longrightarrow> has (\<lambda>a. f a + k a) p"
  by (auto simp: has_def)

lemma core_ctx_get:
  assumes "core kc ks kb s" "has (\<lambda>a. wctx (o_surf s) a + kc a) (Some a)"
  obtains c where "sp_get (Some a) (o_ctx s) = Inr c"
  using assms sp_get_ok [of "\<lambda>a. wctx (o_surf s) a + kc a" "o_ctx s" a] by (auto simp: core_def count_upd)

lemma core_cb_get:
  assumes "core kc ks kb s" "has (\<lambda>a. wcb (o_surf s) a + kb a) (Some a)"
  obtains b where "sp_get (Some a) (o_cb s) = Inr b"
  using assms sp_get_ok [of "\<lambda>a. wcb (o_surf s) a + kb a" "o_cb s" a] by (auto simp: core_def count_upd)

text \<open>A surface that is changed in place, and one that goes.\<close>

lemma surface_upd:
  assumes "finite (dom H)" "H a = Some (w, n)"
  shows "wctx (H(a \<mapsto> (w', m))) x + of_bool (m_readContext w = Some x) + of_bool (m_drawContext w = Some x) =
      wctx H x + of_bool (m_readContext w' = Some x) + of_bool (m_drawContext w' = Some x)"
    "wcb (H(a \<mapsto> (w', m))) x + of_bool (m_attachedColorBuffer w = Some x) =
      wcb H x + of_bool (m_attachedColorBuffer w' = Some x)"
  using refs_upd [OF assms(1), of "m_readContext \<circ> fst" a "Some (w', m)" x] refs_upd [OF assms(1), of "m_drawContext \<circ> fst" a "Some (w', m)" x]
    refs_upd [OF assms(1), of "m_attachedColorBuffer \<circ> fst" a "Some (w', m)" x] assms(2)
  by (simp_all add: wctx_def wcb_def)

lemma surface_del:
  assumes "finite (dom H)" "H a = Some (w, n)"
  shows "wctx H x = wctx (H(a := None)) x + of_bool (m_readContext w = Some x) + of_bool (m_drawContext w = Some x)"
    "wcb H x = wcb (H(a := None)) x + of_bool (m_attachedColorBuffer w = Some x)"
  using refs_remove [OF assms(1), of "m_readContext \<circ> fst" x a] refs_remove [OF assms(1), of "m_drawContext \<circ> fst" x a]
    refs_remove [OF assms(1), of "m_attachedColorBuffer \<circ> fst" x a] assms(2)
  by (simp_all add: wctx_def wcb_def)

lemma surface_count:
  assumes "finite (dom H)" "H a = Some (w, n)"
  shows "wctx (H(a \<mapsto> (w, m))) = wctx H" "wcb (H(a \<mapsto> (w, m))) = wcb H"
  using surface_upd [OF assms, of w m] by (auto simp: fun_eq_iff)

section \<open>Smart pointers held outside\<close>

lemma use_ctx_core:
  "core kc ks kb s \<Longrightarrow> has kc p \<Longrightarrow> returns (use_ctx p s) (\<lambda>s'. core (add_ref kc p) ks kb s' \<and> roots s' = roots s \<and> o_surf s' = o_surf s)"
  by (rule returns_mono [OF use_ctx_counts [of "\<lambda>a. wctx (o_surf s) a + kc a"]])
     (auto simp: core_def has_add add_ref_def add.assoc dest!: only_ctxD)

lemma use_cb_core:
  "core kc ks kb s \<Longrightarrow> has kb p \<Longrightarrow> returns (use_cb p s) (\<lambda>s'. core kc ks (add_ref kb p) s' \<and> roots s' = roots s \<and> o_surf s' = o_surf s)"
  by (rule returns_mono [OF use_cb_counts [of "\<lambda>a. wcb (o_surf s) a + kb a"]])
     (auto simp: core_def has_add add_ref_def add.assoc dest!: only_cbD)

lemma take_ref_add: "has k p \<Longrightarrow> take_ref (\<lambda>a. f a + k a) p = (\<lambda>a. f a + take_ref k p a)"
  by (rule ext) (auto simp: take_ref_def has_def)

lemma release_ctx_core:
  "core kc ks kb s \<Longrightarrow> has kc p \<Longrightarrow> fb_live s \<Longrightarrow>
   returns (release_ctx h t p s) (\<lambda>s'. core (take_ref kc p) ks kb s' \<and> roots s' = roots s \<and> o_surf s' = o_surf s)"
  by (rule returns_mono [OF release_ctx_counts [of "\<lambda>a. wctx (o_surf s) a + kc a"]])
     (auto simp: core_def has_add take_ref_add dest!: only_ctxD)

lemma release_cb_core:
  "core kc ks kb s \<Longrightarrow> has kb p \<Longrightarrow> fb_live s \<Longrightarrow>
   returns (release_cb h t p s) (\<lambda>s'. core kc ks (take_ref kb p) s' \<and> roots s' = roots s \<and> o_surf s' = o_surf s)"
  by (rule returns_mono [OF release_cb_counts [of "\<lambda>a. wcb (o_surf s) a + kb a"]])
     (auto simp: core_def has_add take_ref_add dest!: only_cbD)

lemma use_surf_core:
  assumes c: "core kc ks kb s" and p: "has ks p"
  shows "returns (use_surf p s) (\<lambda>s'. core kc (add_ref ks p) kb s' \<and> roots s' = roots s)"
proof (cases p)
  case None
  with c show ?thesis by (simp add: use_surf_def)
next
  case (Some a)
  have ok: "heap_ok ks (o_surf s)" and fin: "finite (dom (o_surf s))" using c by (simp_all add: core_def)
  from Some p obtain w where w: "o_surf s a = Some (w, ks a)" "sp_use (Some a) (o_surf s) = Inr ((o_surf s)(a \<mapsto> (w, ks a + 1)))"
    "heap_ok (ks(a := ks a + 1)) ((o_surf s)(a \<mapsto> (w, ks a + 1)))"
    using sp_use_ok [OF ok] by (auto simp: count_upd)
  with Some c fin show ?thesis
    by (auto simp: use_surf_def core_def count_upd surface_count [OF fin w(1)] roots_def)
qed

lemma WindowSurface_destroy_core:
  assumes fin: "finite (dom (o_surf s))"
    and c: "heap_ok (\<lambda>x. wctx (o_surf s) x + of_bool (m_readContext w = Some x) + of_bool (m_drawContext w = Some x) + kc x) (o_ctx s)"
    and b: "heap_ok (\<lambda>x. wcb (o_surf s) x + of_bool (m_attachedColorBuffer w = Some x) + kb x) (o_cb s)"
    and k: "heap_ok ks (o_surf s)" and fb: "fb_live s"
    and fresh: "\<forall>a \<ge> o_next s. o_ctx s a = None \<and> o_surf s a = None \<and> o_cb s a = None"
  shows "returns (WindowSurface_destroy h t w s) (\<lambda>s'. core kc ks kb s' \<and> roots s' = roots s)"
proof -
  let ?s = "do_calls h t [Egl ''eglDestroySurface'' [m_eglDisplay s, m_wsSurface w]] s"
  have o: "objs ?s = objs s" by (rule do_calls_frame)
  let ?rc = "\<lambda>x. wctx (o_surf s) x + of_bool (m_readContext w = Some x) + of_bool (m_drawContext w = Some x) + kc x"
  have e1: "take_ref (take_ref ?rc (m_drawContext w)) (m_readContext w) = (\<lambda>x. wctx (o_surf s) x + kc x)"
    by (rule ext) (auto simp: take_ref_def)
  have e2: "take_ref (\<lambda>x. wcb (o_surf s) x + of_bool (m_attachedColorBuffer w = Some x) + kb x) (m_attachedColorBuffer w) =
      (\<lambda>x. wcb (o_surf s) x + kb x)"
    by (rule ext) (auto simp: take_ref_def)
  have h1: "has ?rc (m_drawContext w)" "has (take_ref ?rc (m_drawContext w)) (m_readContext w)"
    "has (\<lambda>x. wcb (o_surf s) x + of_bool (m_attachedColorBuffer w = Some x) + kb x) (m_attachedColorBuffer w)"
    by (auto simp: has_def take_ref_def)
  have s: "heap_ok ?rc (o_ctx ?s)" "fb_live ?s" "o_surf ?s = o_surf s" "o_cb ?s = o_cb s" "roots ?s = roots s" "o_ctx ?s = o_ctx s"
    using c fb by (simp_all only: objs_eqD [OF o] roots_objs [OF o])
  show ?thesis
    unfolding WindowSurface_destroy_def getFB_def Let_def
  proof (simp only: fb if_True bindE_simps, rule returns_bind [OF release_ctx_counts [OF s(1) h1(1) s(2)]], elim conjE)
    fix s1 assume s1: "heap_ok (take_ref ?rc (m_drawContext w)) (o_ctx s1)" "only_ctx ?s s1"
    then have f1: "fb_live s1" using s(2) by (auto dest!: only_ctxD)
    show "returns (bindE (release_ctx h t (m_readContext w) s1) (\<lambda>s. release_cb h t (m_attachedColorBuffer w) s))
       (\<lambda>s'. core kc ks kb s' \<and> roots s' = roots s)"
    proof (rule returns_bind [OF release_ctx_counts [OF s1(1) h1(2) f1]], elim conjE)
      fix s2 assume s2: "heap_ok (take_ref (take_ref ?rc (m_drawContext w)) (m_readContext w)) (o_ctx s2)" "only_ctx s1 s2"
      have o2: "only_ctx ?s s2" using only_trans(2) s1(2) s2(2) by blast
      have f2: "fb_live s2" and b2: "heap_ok (\<lambda>x. wcb (o_surf s) x + of_bool (m_attachedColorBuffer w = Some x) + kb x) (o_cb s2)"
        using o2 s b by (auto dest!: only_ctxD)
      show "returns (release_cb h t (m_attachedColorBuffer w) s2) (\<lambda>s'. core kc ks kb s' \<and> roots s' = roots s)"
      proof (rule returns_mono [OF release_cb_counts [OF b2 h1(3) f2]], elim conjE)
        fix s3 assume s3: "heap_ok (take_ref (\<lambda>x. wcb (o_surf s) x + of_bool (m_attachedColorBuffer w = Some x) + kb x)
            (m_attachedColorBuffer w)) (o_cb s3)" "only_cb s2 s3"
        have eqs: "o_surf s3 = o_surf s" "o_ctx s3 = o_ctx s2" "roots s3 = roots s"
          "\<forall>a. o_cb s a = None \<longrightarrow> o_cb s3 a = None" "\<forall>a. o_ctx s a = None \<longrightarrow> o_ctx s3 a = None"
          using only_ctxD [OF o2] only_cbD [OF s3(2)] s by simp_all
        from eqs(3) have nx: "o_next s3 = o_next s" by (rule rootsD)
        have c3: "heap_ok (\<lambda>x. wctx (o_surf s) x + kc x) (o_ctx s3)"
          using s2(1) eqs(2) by (simp only: e1)
        from s3(1) have b3: "heap_ok (\<lambda>x. wcb (o_surf s) x + kb x) (o_cb s3)" by (simp only: e2)
        show "core kc ks kb s3 \<and> roots s3 = roots s"
          unfolding core_def eqs(1) nx using fin k c3 b3 fresh eqs by blast
      qed
    qed
  qed
qed

lemma release_surf_core:
  assumes c: "core kc ks kb s" and p: "has ks p" and fb: "fb_live s"
  shows "returns (release_surf h t p s) (\<lambda>s'. core kc (take_ref ks p) kb s' \<and> roots s' = roots s)"
proof (cases p)
  case None
  with c show ?thesis by (simp add: release_surf_def)
next
  case (Some a)
  with p have pos: "0 < ks a" by (simp add: count_upd)
  have ok: "heap_ok ks (o_surf s)" and fin: "finite (dom (o_surf s))" using c by (simp_all add: core_def)
  from sp_release_ok [OF ok pos] obtain w where w: "o_surf s a = Some (w, ks a)"
    "sp_release (Some a) (o_surf s) =
      (if ks a > 1 then Inr (None, (o_surf s)(a \<mapsto> (w, ks a - 1))) else Inr (Some w, (o_surf s)(a := None)))"
    "ks a > 1 \<Longrightarrow> heap_ok (ks(a := ks a - 1)) ((o_surf s)(a \<mapsto> (w, ks a - 1)))"
    "ks a = 1 \<Longrightarrow> heap_ok (ks(a := 0)) ((o_surf s)(a := None))"
    by blast
  show ?thesis
  proof (cases "ks a > 1")
    case True
    with w Some c fin show ?thesis
      by (auto simp: release_surf_def core_def count_upd surface_count [OF fin w(1)] roots_def)
  next
    case False
    with pos have one: "ks a = 1" by simp
    let ?s = "s\<lparr>o_surf := (o_surf s)(a := None)\<rparr>"
    have "returns (WindowSurface_destroy h t w ?s) (\<lambda>s'. core kc (ks(a := 0)) kb s' \<and> roots s' = roots ?s)"
    proof (rule WindowSurface_destroy_core)
      show "heap_ok (\<lambda>x. wctx (o_surf ?s) x + of_bool (m_readContext w = Some x) + of_bool (m_drawContext w = Some x) + kc x) (o_ctx ?s)"
        "heap_ok (\<lambda>x. wcb (o_surf ?s) x + of_bool (m_attachedColorBuffer w = Some x) + kb x) (o_cb ?s)"
        using c by (simp_all add: core_def surface_del [OF fin w(1)] del: fun_upd_apply)
      show "\<forall>a \<ge> o_next ?s. o_ctx ?s a = None \<and> o_surf ?s a = None \<and> o_cb ?s a = None"
        using c by (simp add: core_def)
    qed (use fin w one fb in simp_all)
    with one w Some show ?thesis
      by (simp add: release_surf_def count_upd roots_def)
  qed
qed

end
