(* ===== verification/Render_Surface.thy ===== *)
theory Render_Surface
  imports Render_Core
begin

text \<open>
  What the methods of \<open>WindowSurface\<close> and \<open>ColorBuffer\<close> do to the counters: nothing, whatever pointers they
  move. The one operation that can fail is the blit of a surface that was never bound.
\<close>

section \<open>Storing a pointer in a surface\<close>

lemma set_surf_eq:
  assumes "heap_ok ks (o_surf s)" "o_surf s a = Some (w, n)"
  shows "set_surf a f s = Inr (s\<lparr>o_surf := (o_surf s)(a \<mapsto> (f w, n))\<rparr>)"
    and "heap_ok ks ((o_surf s)(a \<mapsto> (f w, n)))"
proof -
  have n: "n = ks a" "0 < ks a"
    using assms(1) [unfolded heap_ok_def ref_count_def, rule_format, of a] assms(2) by simp_all
  show "set_surf a f s = Inr (s\<lparr>o_surf := (o_surf s)(a \<mapsto> (f w, n))\<rparr>)"
    using assms(2) by (simp add: set_surf_def sp_set_def)
  show "heap_ok ks ((o_surf s)(a \<mapsto> (f w, n)))"
    by (rule heap_ok_upd [OF assms(1)]) (use n in \<open>simp_all add: ref_count_def\<close>)
qed

definition attached_of :: "'e renderer \<Rightarrow> addr \<Rightarrow> addr option" where
  "attached_of s a = (case o_surf s a of None \<Rightarrow> None | Some (w, n) \<Rightarrow> m_attachedColorBuffer w)"

lemma attach_core:
  assumes c: "core kc ks kb s" and a: "has ks (Some a)" and p: "has kb p" and fb: "fb_live s"
  shows "returns (attach h t a p s) (\<lambda>s'. core kc ks kb s' \<and> roots s' = roots s \<and> attached_of s' a = p)"
proof -
  obtain w where w: "o_surf s a = Some (w, ks a)" "sp_get (Some a) (o_surf s) = Inr w"
    using core_surf [OF c a] .
  have fin: "finite (dom (o_surf s))" and ok: "heap_ok ks (o_surf s)"
    and b: "heap_ok (\<lambda>a. wcb (o_surf s) a + kb a) (o_cb s)" using c by (simp_all add: core_def)
  let ?old = "m_attachedColorBuffer w"
  have "returns (reassign (release_cb h t ?old) (use_cb p) (set_surf a (\<lambda>w. w\<lparr>m_attachedColorBuffer := p\<rparr>)) ?old p s)
      (\<lambda>s'. core kc ks kb s' \<and> roots s' = roots s \<and> attached_of s' a = p)"
  proof (rule reassign_cb [OF b core_pointers(3) [OF c w(1)] has_add [OF p] fb])
    show "core kc ks kb s \<and> roots s = roots s \<and> attached_of s a = p" if "?old = p"
      using c w that by (simp add: attached_of_def)
    fix s' assume cnt: "heap_ok (add_ref (take_ref (\<lambda>a. wcb (o_surf s) a + kb a) ?old) p) (o_cb s')" and o: "only_cb s s'"
    note o = only_cbD [OF o]
    let ?w = "w\<lparr>m_attachedColorBuffer := p\<rparr>"
    let ?H = "(o_surf s)(a \<mapsto> (?w, ks a))"
    have "add_ref (take_ref (\<lambda>a. wcb (o_surf s) a + kb a) ?old) p = (\<lambda>a. wcb ?H a + kb a)"
    proof
      fix x show "add_ref (take_ref (\<lambda>a. wcb (o_surf s) a + kb a) ?old) p x = wcb ?H x + kb x"
        using surface_upd(2) [OF fin w(1), of ?w "ks a" x] core_pointers(3) [OF c w(1)]
        by (auto simp: add_ref_def take_ref_def has_def)
    qed
    moreover have "wctx ?H = wctx (o_surf s)"
      using surface_upd(1) [OF fin w(1), of ?w "ks a"] by (auto simp: fun_eq_iff)
    moreover have w': "o_surf s' a = Some (w, ks a)" and ok': "heap_ok ks (o_surf s')" using w o ok by simp_all
    ultimately show "returns (set_surf a (\<lambda>w. w\<lparr>m_attachedColorBuffer := p\<rparr>) s')
        (\<lambda>s'. core kc ks kb s' \<and> roots s' = roots s \<and> attached_of s' a = p)"
      using c cnt o set_surf_eq [OF ok' w', of "\<lambda>w. w\<lparr>m_attachedColorBuffer := p\<rparr>"]
      by (auto simp: core_def roots_def attached_of_def)
  qed
  with w(2) show ?thesis by (simp add: attach_def)
qed

lemma bind_read_core:
  assumes c: "core kc ks kb s" and a: "has ks (Some a)" and p: "has kc p" and fb: "fb_live s"
  shows "returns (bind_read h t a p s) (\<lambda>s'. core kc ks kb s' \<and> roots s' = roots s)"
proof -
  obtain w where w: "o_surf s a = Some (w, ks a)" "sp_get (Some a) (o_surf s) = Inr w"
    using core_surf [OF c a] .
  have fin: "finite (dom (o_surf s))" and ok: "heap_ok ks (o_surf s)"
    and b: "heap_ok (\<lambda>a. wctx (o_surf s) a + kc a) (o_ctx s)" using c by (simp_all add: core_def)
  let ?old = "m_readContext w"
  have "returns (reassign (release_ctx h t ?old) (use_ctx p) (set_surf a (\<lambda>w. w\<lparr>m_readContext := p\<rparr>)) ?old p s)
      (\<lambda>s'. core kc ks kb s' \<and> roots s' = roots s)"
  proof (rule reassign_ctx [OF b core_pointers(1) [OF c w(1)] has_add [OF p] fb])
    show "core kc ks kb s \<and> roots s = roots s" using c by simp
    fix s' assume cnt: "heap_ok (add_ref (take_ref (\<lambda>a. wctx (o_surf s) a + kc a) ?old) p) (o_ctx s')" and o: "only_ctx s s'"
    note o = only_ctxD [OF o]
    let ?w = "w\<lparr>m_readContext := p\<rparr>"
    let ?H = "(o_surf s)(a \<mapsto> (?w, ks a))"
    have "add_ref (take_ref (\<lambda>a. wctx (o_surf s) a + kc a) ?old) p = (\<lambda>a. wctx ?H a + kc a)"
    proof
      fix x show "add_ref (take_ref (\<lambda>a. wctx (o_surf s) a + kc a) ?old) p x = wctx ?H x + kc x"
        using surface_upd(1) [OF fin w(1), of ?w "ks a" x] core_pointers(1) [OF c w(1)]
        by (auto simp: add_ref_def take_ref_def has_def)
    qed
    moreover have "wcb ?H = wcb (o_surf s)"
      using surface_upd(2) [OF fin w(1), of ?w "ks a"] by (auto simp: fun_eq_iff)
    moreover have w': "o_surf s' a = Some (w, ks a)" and ok': "heap_ok ks (o_surf s')" using w o ok by simp_all
    ultimately show "returns (set_surf a (\<lambda>w. w\<lparr>m_readContext := p\<rparr>) s') (\<lambda>s'. core kc ks kb s' \<and> roots s' = roots s)"
      using c cnt o set_surf_eq [OF ok' w', of "\<lambda>w. w\<lparr>m_readContext := p\<rparr>"]
      by (auto simp: core_def roots_def)
  qed
  with w(2) show ?thesis by (simp add: bind_read_def)
qed

lemma bind_draw_core:
  assumes c: "core kc ks kb s" and a: "has ks (Some a)" and p: "has kc p" and fb: "fb_live s"
  shows "returns (bind_draw h t a p s) (\<lambda>s'. core kc ks kb s' \<and> roots s' = roots s)"
proof -
  obtain w where w: "o_surf s a = Some (w, ks a)" "sp_get (Some a) (o_surf s) = Inr w"
    using core_surf [OF c a] .
  have fin: "finite (dom (o_surf s))" and ok: "heap_ok ks (o_surf s)"
    and b: "heap_ok (\<lambda>a. wctx (o_surf s) a + kc a) (o_ctx s)" using c by (simp_all add: core_def)
  let ?old = "m_drawContext w"
  have "returns (reassign (release_ctx h t ?old) (use_ctx p) (set_surf a (\<lambda>w. w\<lparr>m_drawContext := p\<rparr>)) ?old p s)
      (\<lambda>s'. core kc ks kb s' \<and> roots s' = roots s)"
  proof (rule reassign_ctx [OF b core_pointers(2) [OF c w(1)] has_add [OF p] fb])
    show "core kc ks kb s \<and> roots s = roots s" using c by simp
    fix s' assume cnt: "heap_ok (add_ref (take_ref (\<lambda>a. wctx (o_surf s) a + kc a) ?old) p) (o_ctx s')" and o: "only_ctx s s'"
    note o = only_ctxD [OF o]
    let ?w = "w\<lparr>m_drawContext := p\<rparr>"
    let ?H = "(o_surf s)(a \<mapsto> (?w, ks a))"
    have "add_ref (take_ref (\<lambda>a. wctx (o_surf s) a + kc a) ?old) p = (\<lambda>a. wctx ?H a + kc a)"
    proof
      fix x show "add_ref (take_ref (\<lambda>a. wctx (o_surf s) a + kc a) ?old) p x = wctx ?H x + kc x"
        using surface_upd(1) [OF fin w(1), of ?w "ks a" x] core_pointers(2) [OF c w(1)]
        by (auto simp: add_ref_def take_ref_def has_def)
    qed
    moreover have "wcb ?H = wcb (o_surf s)"
      using surface_upd(2) [OF fin w(1), of ?w "ks a"] by (auto simp: fun_eq_iff)
    moreover have w': "o_surf s' a = Some (w, ks a)" and ok': "heap_ok ks (o_surf s')" using w o ok by simp_all
    ultimately show "returns (set_surf a (\<lambda>w. w\<lparr>m_drawContext := p\<rparr>) s') (\<lambda>s'. core kc ks kb s' \<and> roots s' = roots s)"
      using c cnt o set_surf_eq [OF ok' w', of "\<lambda>w. w\<lparr>m_drawContext := p\<rparr>"]
      by (auto simp: core_def roots_def)
  qed
  with w(2) show ?thesis by (simp add: bind_draw_def)
qed

section \<open>Binding\<close>

lemma returns_conj_roots:
  "returns m (\<lambda>s'. Q s' \<and> roots s' = r) \<Longrightarrow> r = r' \<Longrightarrow> returns m (\<lambda>s'. Q s' \<and> roots s' = r')"
  by simp

lemma WindowSurface_bind_core:
  fixes h :: "'e host"
  assumes c: "core kc ks kb s" and a: "has ks (Some a)" and p: "has kc p" and fb: "fb_live s"
  shows "returns (WindowSurface_bind h t a p ty s) (\<lambda>s'. core kc ks kb s' \<and> roots s' = roots s)"
  unfolding WindowSurface_bind_def
proof (rule returns_bind [OF use_ctx_core [OF c p]], elim conjE)
  fix s1 :: "'e renderer" assume s1: "core (add_ref kc p) ks kb s1" "roots s1 = roots s"
  have f1: "fb_live s1" using s1(2) fb by (auto dest: rootsD)
  let ?k = "add_ref kc p"
  let ?Q = "\<lambda>s'. core ?k ks kb s' \<and> roots s' = roots s"
  have "returns (case ty of SURFACE_BIND_READ \<Rightarrow> bind_read h t a p s1 | SURFACE_BIND_DRAW \<Rightarrow> bind_draw h t a p s1
      | SURFACE_BIND_READDRAW \<Rightarrow> bindE (bind_read h t a p s1) (bind_draw h t a p)) ?Q"
  proof (cases ty)
    case SURFACE_BIND_READ
    with bind_read_core [OF s1(1) a has_add_ref(1) f1] s1(2) show ?thesis by simp
  next
    case SURFACE_BIND_DRAW
    with bind_draw_core [OF s1(1) a has_add_ref(1) f1] s1(2) show ?thesis by simp
  next
    case SURFACE_BIND_READDRAW
    have "returns (bindE (bind_read h t a p s1) (bind_draw h t a p)) ?Q"
    proof (rule returns_bind [OF bind_read_core [OF s1(1) a has_add_ref(1) f1]], elim conjE)
      fix s2 :: "'e renderer" assume s2: "core ?k ks kb s2" "roots s2 = roots s1"
      with f1 have "fb_live s2" by (auto dest: rootsD)
      from bind_draw_core [OF s2(1) a has_add_ref(1) this] s2(2) s1(2) show "returns (bind_draw h t a p s2) ?Q" by simp
    qed
    with SURFACE_BIND_READDRAW show ?thesis by simp
  qed
  then show "returns (bindE (case ty of SURFACE_BIND_READ \<Rightarrow> bind_read h t a p s1 | SURFACE_BIND_DRAW \<Rightarrow> bind_draw h t a p s1
      | SURFACE_BIND_READDRAW \<Rightarrow> bindE (bind_read h t a p s1) (bind_draw h t a p)) (release_ctx h t p))
      (\<lambda>s'. core kc ks kb s' \<and> roots s' = roots s)"
  proof (rule returns_bind, elim conjE)
    fix s2 :: "'e renderer" assume s2: "core ?k ks kb s2" "roots s2 = roots s"
    with fb have "fb_live s2" by (auto dest: rootsD)
    then show "returns (release_ctx h t p s2) (\<lambda>s'. core kc ks kb s' \<and> roots s' = roots s)"
      by (rule returns_mono [OF release_ctx_core [OF s2(1) has_add_ref(1)]]) (use s2 in simp)
  qed
qed

section \<open>The size of a surface\<close>

lemma resizePbuffer_frame:
  assumes fb: "fb_live s"
  shows "returns (resizePbuffer h t pw ph w s) (\<lambda>(ok, w', s'). objs s' = objs s \<and>
     m_attachedColorBuffer w' = m_attachedColorBuffer w \<and> m_readContext w' = m_readContext w \<and> m_drawContext w' = m_drawContext w)"
  unfolding resizePbuffer_def Let_def case_prod_beta
  by (simp add: getFB_objs [OF _ fb] del: do_calls.simps)

lemma replace_surface_core:
  assumes c: "core kc ks kb s" and w: "o_surf s a = Some (w, n)"
    and same: "m_attachedColorBuffer w' = m_attachedColorBuffer w" "m_readContext w' = m_readContext w" "m_drawContext w' = m_drawContext w"
  shows "returns (set_surf a (\<lambda>_. w') s) (\<lambda>s'. core kc ks kb s' \<and> roots s' = roots s \<and> attached_of s' a = m_attachedColorBuffer w')"
proof -
  have fin: "finite (dom (o_surf s))" and ok: "heap_ok ks (o_surf s)" using c by (simp_all add: core_def)
  have "wctx ((o_surf s)(a \<mapsto> (w', n))) = wctx (o_surf s)" "wcb ((o_surf s)(a \<mapsto> (w', n))) = wcb (o_surf s)"
    using surface_upd [OF fin w, of w' n] same by (auto simp: fun_eq_iff)
  with c set_surf_eq [OF ok w, of "\<lambda>_. w'"] show ?thesis
    by (auto simp: core_def roots_def attached_of_def w)
qed

lemma fit_size_core:
  fixes s :: "'e renderer"
  assumes c: "core kc ks kb s" and a: "has ks (Some a)" and p: "attached_of s a \<noteq> None" and fb: "fb_live s"
  shows "returns (fit_size h t a s) (\<lambda>s'. core kc ks kb s' \<and> roots s' = roots s \<and> attached_of s' a = attached_of s a)"
proof -
  obtain w where w: "o_surf s a = Some (w, ks a)" "sp_get (Some a) (o_surf s) = Inr w"
    using core_surf [OF c a] .
  from p w obtain q where q: "m_attachedColorBuffer w = Some q" by (auto simp: attached_of_def)
  with core_pointers(3) [OF c w(1)] obtain b where b: "sp_get (m_attachedColorBuffer w) (o_cb s) = Inr b"
    by (auto elim: core_cb_get [OF c])
  let ?resize = "if m_pbufWidth w \<noteq> 0 \<and> m_pbufHeight w \<noteq> 0
                   then resizePbuffer h t (m_cbWidth b) (m_cbHeight b) w s else Inr (True, w, s)"
  have "returns ?resize (\<lambda>(ok, w', s'). objs s' = objs s \<and>
     m_attachedColorBuffer w' = m_attachedColorBuffer w \<and> m_readContext w' = m_readContext w \<and> m_drawContext w' = m_drawContext w)"
    using resizePbuffer_frame [OF fb] by (cases "m_pbufWidth w \<noteq> 0 \<and> m_pbufHeight w \<noteq> 0") (simp_all del: de_Morgan_conj)
  then have "returns (bindE ?resize (\<lambda>(_, w, s).
      set_surf a (\<lambda>_. w\<lparr>m_wsWidth := m_cbWidth b, m_wsHeight := m_cbHeight b\<rparr>) s))
    (\<lambda>s'. core kc ks kb s' \<and> roots s' = roots s \<and> attached_of s' a = attached_of s a)"
  proof (rule returns_bind)
    fix x :: "bool \<times> window_surface \<times> 'e renderer" assume x: "case x of (ok, w', s') \<Rightarrow> objs s' = objs s \<and>
       m_attachedColorBuffer w' = m_attachedColorBuffer w \<and> m_readContext w' = m_readContext w \<and> m_drawContext w' = m_drawContext w"
    obtain ok w' s' where [simp]: "x = (ok, w', s')" by (cases x)
    from x have s': "objs s' = objs s" and same: "m_attachedColorBuffer w' = m_attachedColorBuffer w"
      "m_readContext w' = m_readContext w" "m_drawContext w' = m_drawContext w" by simp_all
    let ?w = "w'\<lparr>m_wsWidth := m_cbWidth b, m_wsHeight := m_cbHeight b\<rparr>"
    have "o_surf s' a = Some (w, ks a)" "core kc ks kb s'" using c w by (simp_all add: core_objs [OF s'] objs_eqD [OF s'])
    then have upd: "returns (set_surf a (\<lambda>_. ?w) s') (\<lambda>s''. core kc ks kb s'' \<and> roots s'' = roots s' \<and> attached_of s'' a = m_attachedColorBuffer ?w)"
      using same by (intro replace_surface_core) simp_all
    have "attached_of s a = m_attachedColorBuffer w" using w by (simp add: attached_of_def)
    then show "returns (case x of (_, w, s) \<Rightarrow> set_surf a (\<lambda>_. w\<lparr>m_wsWidth := m_cbWidth b, m_wsHeight := m_cbHeight b\<rparr>) s)
      (\<lambda>s'. core kc ks kb s' \<and> roots s' = roots s \<and> attached_of s' a = attached_of s a)"
      using roots_objs [OF s'] same returns_mono [OF upd] by simp
  qed
  with w b c show ?thesis by (simp add: fit_size_def)
qed

lemma setColorBuffer_core:
  fixes h :: "'e host"
  assumes c: "core kc ks kb s" and a: "has ks (Some a)" and p: "has kb (Some p)" and fb: "fb_live s"
  shows "returns (setColorBuffer h t a p s) (\<lambda>s'. core kc ks kb s' \<and> roots s' = roots s)"
  unfolding setColorBuffer_def
proof (rule returns_bind [OF use_cb_core [OF c p]], elim conjE)
  fix s1 :: "'e renderer" assume s1: "core kc ks (add_ref kb (Some p)) s1" "roots s1 = roots s"
  have f1: "fb_live s1" using s1 fb by (auto dest: rootsD)
  show "returns (bindE (attach h t a (Some p) s1) (\<lambda>s. bindE (fit_size h t a s) (release_cb h t (Some p))))
       (\<lambda>s'. core kc ks kb s' \<and> roots s' = roots s)"
  proof (rule returns_bind [OF attach_core [OF s1(1) a has_add_ref(1) f1]], elim conjE)
    fix s2 :: "'e renderer" assume s2: "core kc ks (add_ref kb (Some p)) s2" "roots s2 = roots s1" "attached_of s2 a = Some p"
    have f2: "fb_live s2" using s2 f1 by (auto dest: rootsD)
    have p2: "attached_of s2 a \<noteq> None" using s2 by simp
    show "returns (bindE (fit_size h t a s2) (release_cb h t (Some p))) (\<lambda>s'. core kc ks kb s' \<and> roots s' = roots s)"
    proof (rule returns_bind [OF fit_size_core [OF s2(1) a p2 f2]], elim conjE)
      fix s3 :: "'e renderer" assume s3: "core kc ks (add_ref kb (Some p)) s3" "roots s3 = roots s2"
      have "fb_live s3" using s3 f2 by (auto dest: rootsD)
      then show "returns (release_cb h t (Some p) s3) (\<lambda>s'. core kc ks kb s' \<and> roots s' = roots s)"
        by (rule returns_mono [OF release_cb_core [OF s3(1) has_add_ref(1)]]) (use s1 s2 s3 in simp)
    qed
  qed
qed

section \<open>Drawing\<close>

lemma core_only_cb:
  assumes c: "core kc ks kb s" and "only_cb s s'" and "heap_ok (\<lambda>a. wcb (o_surf s) a + kb a) (o_cb s')"
  shows "core kc ks kb s'"
  using c assms(3) only_cbD [OF assms(2)] by (simp add: core_def)

lemma only_cb_objs: "objs s' = objs s \<Longrightarrow> only_cb s s'"
  by (auto simp: only_cb_def objs_def)

text \<open>The frame buffer object of a colour buffer is the one field its drawing changes.\<close>

definition draws :: "(addr \<Rightarrow> nat) \<Rightarrow> 'e renderer \<Rightarrow> 'e renderer \<Rightarrow> bool" where
  "draws r s s' \<longleftrightarrow> only_cb s s' \<and> heap_ok r (o_cb s')"

lemma draws_objs: "draws r s s' \<Longrightarrow> objs s'' = objs s' \<Longrightarrow> draws r s s''"
  by (auto simp: draws_def objs_eqD(3) [of s'' s'] intro: only_trans(1) [OF _ only_cb_objs])

lemma bind_fbo_draws:
  assumes ok: "heap_ok r (o_cb s)" and a: "0 < r a"
  shows "returns (bind_fbo h t a s) (\<lambda>x. draws r s (snd x))"
proof -
  from sp_get_ok [OF ok a] obtain b where b: "o_cb s a = Some (b, r a)" "sp_get (Some a) (o_cb s) = Inr b" by blast
  have upd: "returns (bindE (sp_set (Some a) f (o_cb s')) (\<lambda>H. Inr (ok, do_calls h t cs (s'\<lparr>o_cb := H\<rparr>)))) (\<lambda>x. draws r s (snd x))"
    if s': "objs s' = objs s" for s' f cs ok
  proof -
    let ?H = "(o_cb s)(a \<mapsto> (f b, r a))"
    have "heap_ok r ?H" by (rule heap_ok_upd [OF assms(1)]) (use a in \<open>simp_all add: ref_count_def\<close>)
    moreover have "o_cb s' = o_cb s" using s' by (rule objs_eqD)
    moreover have "only_cb s (s'\<lparr>o_cb := ?H\<rparr>)" using s' b by (auto simp: only_cb_def objs_def)
    ultimately show ?thesis
      using b draws_objs [of r s "s'\<lparr>o_cb := ?H\<rparr>", OF _ do_calls_frame] by (simp add: sp_set_def draws_def)
  qed
  have upd0: "returns (bindE (sp_set (Some a) f (o_cb s')) (\<lambda>H. Inr (ok, s'\<lparr>o_cb := H\<rparr>))) (\<lambda>x. draws r s (snd x))"
    if "objs s' = objs s" for s' f ok
    using upd [OF that, of f ok "[]"] by simp
  have one: "draws r s s'" if "objs s' = objs s" for s'
    using that ok only_cb_objs by (simp add: draws_def objs_eqD [of s' s])
  show ?thesis
    unfolding bind_fbo_def b(2) Let_def case_prod_beta bindE_simps
    by (auto simp: case_prod_beta simp del: do_calls.simps(2) intro!: upd upd0 one)
qed

lemma draws_refl: "heap_ok r (o_cb s) \<Longrightarrow> objs s' = objs s \<Longrightarrow> draws r s s'"
  by (simp add: draws_def only_cb_objs objs_eqD [of s' s])

lemma draws_trans: "draws r s s' \<Longrightarrow> draws r s' s'' \<Longrightarrow> draws r s s''"
  by (auto simp: draws_def intro: only_trans)

lemma drawTexQuad_frame [simp]: "objs (drawTexQuad h t f s) = objs s"
  by (simp add: drawTexQuad_def del: do_calls.simps)

lemma blit_quad_draws:
  fixes h :: "'e host"
  assumes ok: "heap_ok r (o_cb s)" and a: "0 < r a"
  shows "returns (blit_quad h t a s) (draws r s)"
  unfolding blit_quad_def
proof (rule returns_bind [OF bind_fbo_draws [OF ok a, of h t]])
  fix x :: "bool \<times> 'e renderer" assume x: "draws r s (snd x)"
  obtain fbo s' where [simp]: "x = (fbo, s')" by (cases x)
  from x have "heap_ok r (o_cb s')" by (simp add: draws_def)
  from sp_get_ok [OF this a] obtain b where "sp_get (Some a) (o_cb s') = Inr b" by blast
  with x show "returns (case x of (ok, s) \<Rightarrow> if \<not> ok then Inr s
       else bindE (sp_get (Some a) (o_cb s)) (\<lambda>b.
         let (vport, s) = do_call h t (Gl ''glGetIntegerv'' [GL_VIEWPORT]) s;
             s = do_calls h t [Gl ''glViewport'' [0, 0, uint (m_cbWidth b), uint (m_cbHeight b)],
               Gl ''glBindTexture'' [GL_TEXTURE_2D, m_blitTex b], Gl ''glEnable'' [GL_TEXTURE_2D],
               Gl ''glTexEnvi'' [0x2300, 0x2200, 0x1E01]] s;
             s = drawTexQuad h t True s
         in Inr (do_calls h t [Gl ''glBindFramebufferOES'' [GL_FRAMEBUFFER_OES, 0], Gl ''glViewport'' vport] s))) (draws r s)"
    by (auto simp: case_prod_beta Let_def simp del: do_calls.simps elim: draws_objs)
qed

text \<open>Drawing needs the colour buffer and the thread's context, if there is one.\<close>

lemma blit_draws:
  fixes h :: "'e host"
  assumes ok: "heap_ok r (o_cb s)" and a: "0 < r a" and fb: "fb_live s"
    and ctx: "heap_ok rc (o_ctx s)" "has rc (currContext (getRenderThreadInfo t s))"
  shows "returns (blitFromCurrentReadBuffer h t a s) (\<lambda>x. draws r s (snd x))"
proof (cases "currContext (getRenderThreadInfo t s)")
  case None
  with ok show ?thesis by (simp add: blitFromCurrentReadBuffer_def draws_refl)
next
  case (Some c)
  from sp_get_ok [OF ok a] obtain b where b: "sp_get (Some a) (o_cb s) = Inr b" by blast
  from Some ctx have "0 < rc c" by (simp add: count_upd)
  from sp_get_ok [OF ctx(1) this] obtain x where x: "sp_get (Some c) (o_ctx s) = Inr x" by blast
  have quad: "returns (bindE (bindE (blit_quad h t a s') (\<lambda>s. Inr (snd (unbind_locked h t s)))) (\<lambda>s. Inr (True, do_calls h t cs s)))
      (\<lambda>x. draws r s (snd x))" if s': "objs s' = objs s" for s' cs
  proof -
    have "returns (blit_quad h t a s') (draws r s')"
      using ok a by (intro blit_quad_draws) (simp_all add: objs_eqD [OF s'])
    moreover have "draws r s s'" using ok s' by (rule draws_refl)
    ultimately obtain s'' where s'': "blit_quad h t a s' = Inr s''" "draws r s s''"
      by (auto simp: returns_iff dest: draws_trans)
    from s''(2) have "draws r s (do_calls h t cs (snd (unbind_locked h t s'')))" by (rule draws_objs) simp
    with s''(1) show ?thesis by simp
  qed
  have one: "draws r s s'" if "objs s' = objs s" for s'
    using ok that by (rule draws_refl)
  show ?thesis
    unfolding blitFromCurrentReadBuffer_def Some option.case b x bindE_simps Let_def case_prod_beta
    by (auto simp: getFB_objs [OF _ fb] simp del: do_calls.simps intro!: quad one)
qed

lemma subUpdate_core:
  "core kc ks kb s \<Longrightarrow> has kb (Some a) \<Longrightarrow> fb_live s \<Longrightarrow> returns (subUpdate h t a args s) (\<lambda>s'. objs s' = objs s)"
  by (erule core_cb_get [of kc ks kb s a])
     (auto simp: has_add subUpdate_def case_prod_beta Let_def getFB_objs [of s s] simp del: do_calls.simps)

lemma ColorBuffer_post_core:
  "core kc ks kb s \<Longrightarrow> has kb (Some a) \<Longrightarrow> returns (ColorBuffer_post h t a s) (\<lambda>x. objs (snd x) = objs s)"
  by (erule core_cb_get [of kc ks kb s a]) (auto simp: has_add ColorBuffer_post_def simp del: do_calls.simps)

lemma bind_image_core:
  assumes c: "core kc ks kb s" and a: "has kb (Some a)" and ctx: "has kc (currContext (getRenderThreadInfo t s))"
  shows "returns (bind_image f target h t a s) (\<lambda>x. objs (snd x) = objs s)"
proof -
  from core_cb_get [OF c has_add [OF a]] obtain b where b: "sp_get (Some a) (o_cb s) = Inr b" by blast
  show ?thesis
  proof (cases "currContext (getRenderThreadInfo t s)")
    case None
    with b show ?thesis by (simp add: bind_image_def)
  next
    case (Some x)
    with ctx have "has kc (Some x)" by simp
    from core_ctx_get [OF c has_add [OF this]] obtain y where "sp_get (Some x) (o_ctx s) = Inr y" by blast
    with b Some show ?thesis by (simp add: bind_image_def del: do_calls.simps)
  qed
qed

section \<open>Flushing a surface\<close>

text \<open>The surface is blitted when it has a colour buffer of its own size; then it needs a context.\<close>

definition blits :: "'e renderer \<Rightarrow> window_surface \<Rightarrow> bool" where
  "blits s w \<longleftrightarrow> \<not> (m_wsWidth w = 0 \<and> m_wsHeight w = 0) \<and>
     (case m_attachedColorBuffer w of
        None \<Rightarrow> False
      | Some p \<Rightarrow> (case o_cb s p of None \<Rightarrow> False | Some (b, n) \<Rightarrow> m_cbWidth b = m_wsWidth w \<and> m_cbHeight b = m_wsHeight w))"

lemma flush_core:
  fixes h :: "'e host"
  assumes c: "core kc ks kb s" and a: "has ks (Some a)" and fb: "fb_live s"
    and ctx: "has kc (currContext (getRenderThreadInfo t s))" and w: "o_surf s a = Some (w, n)"
    and drawn: "blits s w \<longrightarrow> m_drawContext w \<noteq> None"
  shows "returns (flushColorBuffer h t a s) (\<lambda>s'. core kc ks kb s' \<and> roots s' = roots s)"
proof -
  have gw: "sp_get (Some a) (o_surf s) = Inr w" using w by (simp add: sp_get_def)
  show ?thesis
  proof (cases "m_attachedColorBuffer w = None \<or> m_wsWidth w = 0 \<and> m_wsHeight w = 0")
    case True
    with gw c show ?thesis by (auto simp: flushColorBuffer_def blitToColorBuffer_def)
  next
    case False
    then obtain p where p: "m_attachedColorBuffer w = Some p" and sz: "\<not> (m_wsWidth w = 0 \<and> m_wsHeight w = 0)" by auto
    have hp: "0 < wcb (o_surf s) p + kb p" using core_pointers(3) [OF c w] p by (simp add: count_upd)
    have cbh: "heap_ok (\<lambda>a. wcb (o_surf s) a + kb a) (o_cb s)" and cth: "heap_ok (\<lambda>a. wctx (o_surf s) a + kc a) (o_ctx s)"
      using c by (simp_all add: core_def)
    from sp_get_ok [OF cbh hp] obtain b where b: "o_cb s p = Some (b, wcb (o_surf s) p + kb p)" "sp_get (Some p) (o_cb s) = Inr b"
      by blast
    show ?thesis
    proof (cases "m_cbWidth b = m_wsWidth w \<and> m_cbHeight b = m_wsHeight w")
      case no: False
      with gw b p sz c show ?thesis by (auto simp: flushColorBuffer_def blitToColorBuffer_def)
    next
      case same: True
      with drawn b p sz obtain q where q: "m_drawContext w = Some q" by (auto simp: blits_def)
      then obtain x where x: "sp_get (Some q) (o_ctx s) = Inr x"
        using core_pointers(2) [OF c w] core_ctx_get [OF c] by (metis count_upd(3))
      obtain prev s1 where s1: "current_binding h t s = (prev, s1)" by fastforce
      obtain pc pr pd where prev: "prev = (pc, pr, pd)" by (cases prev)
      obtain ok s2 where s2: "MakeCurrent h t (m_wsSurface w) (m_wsSurface w) (m_ctx x) s1 = (ok, s2)" by fastforce
      have o1: "objs s1 = objs s" and o2: "objs s2 = objs s" using s1 s2 by (metis frame)+
      have x1: "sp_get (Some q) (o_ctx s1) = Inr x" using x by (simp add: objs_eqD [OF o1])
      have flush: "flushColorBuffer h t a s = (if \<not> ok then Inr s2 else bindE (blitFromCurrentReadBuffer h t p s2) (\<lambda>(_, s).
          Inr (snd (MakeCurrent h t pd pr pc s))))"
        using gw b p sz same q x1 s1 s2 prev getFB_objs [OF o1 fb]
        by (cases "m_wsWidth w = 0") (simp_all add: flushColorBuffer_def blitToColorBuffer_def)
      show ?thesis
      proof (cases ok)
        case False
        with flush c show ?thesis by (simp add: core_objs [OF o2] roots_objs [OF o2])
      next
        case True
        have "returns (blitFromCurrentReadBuffer h t p s2) (\<lambda>x. draws (\<lambda>a. wcb (o_surf s) a + kb a) s2 (snd x))"
          using cbh hp cth fb ctx
          by (intro blit_draws [where rc = "\<lambda>a. wctx (o_surf s) a + kc a"])
             (simp_all add: objs_eqD [OF o2] getRenderThreadInfo_def has_add)
        then obtain y where y: "blitFromCurrentReadBuffer h t p s2 = Inr y" "draws (\<lambda>a. wcb (o_surf s) a + kb a) s2 (snd y)"
          by (auto simp: returns_iff)
        let ?s3 = "snd (MakeCurrent h t pd pr pc (snd y))"
        have d: "draws (\<lambda>a. wcb (o_surf s) a + kb a) s2 ?s3" by (rule draws_objs [OF y(2)]) simp
        have "core kc ks kb s2" using c by (simp add: core_objs [OF o2])
        then have "core kc ks kb ?s3"
          by (rule core_only_cb) (use d in \<open>simp_all add: draws_def objs_eqD [OF o2]\<close>)
        moreover have "roots ?s3 = roots s" using d only_cbD [of s2 ?s3] roots_objs [OF o2] by (simp add: draws_def)
        ultimately show ?thesis using flush True y(1) by (simp add: case_prod_beta)
      qed
    qed
  qed
qed

text \<open>A surface that was never bound for drawing has no context.\<close>

lemma flush_null:
  assumes w: "o_surf s a = Some (w, n)" and b: "blits s w" and d: "m_drawContext w = None" and fb: "fb_live s"
  shows "flushColorBuffer h t a s = Inl NullPointer"
proof -
  have gw: "sp_get (Some a) (o_surf s) = Inr w" using w by (simp add: sp_get_def)
  from b obtain p x m where p: "m_attachedColorBuffer w = Some p" "o_cb s p = Some (x, m)" "m_cbWidth x = m_wsWidth w"
    "m_cbHeight x = m_wsHeight w" "\<not> (m_wsWidth w = 0 \<and> m_wsHeight w = 0)"
    by (auto simp: blits_def split: option.splits)
  obtain prev s1 where s1: "current_binding h t s = (prev, s1)" by fastforce
  obtain pc pr pd where prev: "prev = (pc, pr, pd)" by (cases prev)
  from s1 have o1: "objs s1 = objs s" by (rule frame)
  show ?thesis
    using gw p d s1 prev getFB_objs [OF o1 fb] by (simp add: flushColorBuffer_def blitToColorBuffer_def sp_get_def)
qed

end
