(* ===== verification/Render_Tables.thy ===== *)
theory Render_Tables
  imports Render_Surface
begin

text \<open>
  The tables of \<open>FrameBuffer\<close> and the counters: the pointers outside the objects are those of the
  tables and of the threads, and every operation keeps the counters exact.
\<close>

section \<open>The invariant\<close>

definition ctx_roots :: "'e renderer \<Rightarrow> addr \<Rightarrow> nat" where
  "ctx_roots s a = refs Some (m_contexts s) a + refs currContext (r_threads s) a"

definition surf_roots :: "'e renderer \<Rightarrow> addr \<Rightarrow> nat" where
  "surf_roots s a = refs Some (m_windows s) a + refs currDrawSurf (r_threads s) a + refs currReadSurf (r_threads s) a"

definition cb_roots :: "'e renderer \<Rightarrow> addr \<Rightarrow> nat" where
  "cb_roots s a = refs (Some \<circ> cb) (m_colorbuffers s) a"

definition tables_finite :: "'e renderer \<Rightarrow> bool" where
  "tables_finite s \<longleftrightarrow> finite (dom (m_contexts s)) \<and> finite (dom (m_windows s)) \<and> finite (dom (m_colorbuffers s)) \<and> finite (dom (r_threads s))"

text \<open>Three more counts are for the local pointers of an operation that is under way.\<close>

definition counted :: "(addr \<Rightarrow> nat) \<Rightarrow> (addr \<Rightarrow> nat) \<Rightarrow> (addr \<Rightarrow> nat) \<Rightarrow> 'e renderer \<Rightarrow> bool" where
  "counted c d b s \<longleftrightarrow> tables_finite s \<and> fb_live s \<and>
     core (\<lambda>a. ctx_roots s a + c a) (\<lambda>a. surf_roots s a + d a) (\<lambda>a. cb_roots s a + b a) s"

abbreviation none :: "addr \<Rightarrow> nat" where "none \<equiv> \<lambda>_. 0"

definition counters_exact :: "'e renderer \<Rightarrow> bool" where
  "counters_exact s \<longleftrightarrow> counted none none none s"

lemma roots_roots:
  assumes "roots s' = roots s"
  shows "ctx_roots s' = ctx_roots s" "surf_roots s' = surf_roots s" "cb_roots s' = cb_roots s"
    "tables_finite s' = tables_finite s" "fb_live s' = fb_live s"
  using rootsD [OF assms] by (simp_all add: ctx_roots_def [abs_def] surf_roots_def [abs_def] cb_roots_def [abs_def] tables_finite_def)

lemma counted_objs: "objs s' = objs s \<Longrightarrow> counted c d b s' \<longleftrightarrow> counted c d b s"
  by (simp add: counted_def core_objs [of s' s] roots_roots [OF roots_objs [of s' s]])

lemma countedD:
  assumes "counted c d b s"
  shows "core (\<lambda>a. ctx_roots s a + c a) (\<lambda>a. surf_roots s a + d a) (\<lambda>a. cb_roots s a + b a) s" "fb_live s" "tables_finite s"
  using assms by (simp_all add: counted_def)

lemma counted_roots:
  assumes "core (\<lambda>a. ctx_roots s a + c a) (\<lambda>a. surf_roots s a + d a) (\<lambda>a. cb_roots s a + b a) s'"
    "roots s' = roots s" "fb_live s" "tables_finite s"
  shows "counted c d b s'"
  using assms by (simp add: counted_def roots_roots [OF assms(2)])

text \<open>An operation on the objects alone.\<close>

lemma counted_op:
  assumes "counted c d b s"
    and "returns m (\<lambda>s'. core (\<lambda>a. ctx_roots s a + c' a) (\<lambda>a. surf_roots s a + d' a) (\<lambda>a. cb_roots s a + b' a) s' \<and> roots s' = roots s)"
  shows "returns m (\<lambda>s'. counted c' d' b' s' \<and> roots s' = roots s)"
  using assms(2) by (rule returns_mono) (use assms(1) in \<open>auto intro: counted_roots dest: countedD\<close>)

lemma sum_add_ref: "(\<lambda>a. f a + add_ref r p a) = add_ref (\<lambda>a. f a + r a) p"
  by (auto simp: add_ref_def)

lemma sum_take_ref: "has r p \<Longrightarrow> (\<lambda>a. f a + take_ref r p a) = take_ref (\<lambda>a. f a + r a) p"
  by (rule ext) (auto simp: take_ref_def has_def)

lemma counted_use_ctx:
  "counted c d b s \<Longrightarrow> has (\<lambda>a. ctx_roots s a + c a) p \<Longrightarrow>
   returns (use_ctx p s) (\<lambda>s'. counted (add_ref c p) d b s' \<and> roots s' = roots s)"
  by (rule counted_op, assumption, drule countedD(1), drule (1) use_ctx_core) (auto simp: sum_add_ref elim: returns_mono)

lemma counted_use_surf:
  "counted c d b s \<Longrightarrow> has (\<lambda>a. surf_roots s a + d a) p \<Longrightarrow>
   returns (use_surf p s) (\<lambda>s'. counted c (add_ref d p) b s' \<and> roots s' = roots s)"
  by (rule counted_op, assumption, drule countedD(1), drule (1) use_surf_core) (auto simp: sum_add_ref elim: returns_mono)

lemma counted_release_ctx:
  "counted c d b s \<Longrightarrow> has c p \<Longrightarrow> returns (release_ctx h t p s) (\<lambda>s'. counted (take_ref c p) d b s' \<and> roots s' = roots s)"
  by (rule counted_op, assumption, frule countedD(2), drule countedD(1), drule release_ctx_core)
     (auto simp: sum_take_ref has_add elim: returns_mono)

lemma counted_release_surf:
  "counted c d b s \<Longrightarrow> has d p \<Longrightarrow> returns (release_surf h t p s) (\<lambda>s'. counted c (take_ref d p) b s' \<and> roots s' = roots s)"
  by (rule counted_op, assumption, frule countedD(2), drule countedD(1), drule release_surf_core)
     (auto simp: sum_take_ref has_add elim: returns_mono)

lemma counted_release_cb:
  "counted c d b s \<Longrightarrow> has b p \<Longrightarrow> returns (release_cb h t p s) (\<lambda>s'. counted c d (take_ref b p) s' \<and> roots s' = roots s)"
  by (rule counted_op, assumption, frule countedD(2), drule countedD(1), drule release_cb_core)
     (auto simp: sum_take_ref has_add elim: returns_mono)

section \<open>Entries of a table\<close>

lemma refs_replace:
  assumes "finite (dom m)"
  shows "refs g (m(k := ov)) = add_ref (take_ref (refs g m) (Option.bind (m k) g)) (Option.bind ov g)"
    and "has (refs g m) (Option.bind (m k) g)"
proof -
  have p: "points g o' x = of_bool (Option.bind o' g = Some x)" for o' x by (cases o') simp_all
  show "refs g (m(k := ov)) = add_ref (take_ref (refs g m) (Option.bind (m k) g)) (Option.bind ov g)"
  proof
    fix x
    show "refs g (m(k := ov)) x = add_ref (take_ref (refs g m) (Option.bind (m k) g)) (Option.bind ov g) x"
      using refs_upd [OF assms, of g k ov x] refs_ge_points [OF assms, of g k x] by (auto simp: add_ref_def take_ref_def p)
  qed
  show "has (refs g m) (Option.bind (m k) g)"
    using refs_ge_points [OF assms, of g k] by (auto simp: has_def p) (metis gr0I of_bool_eq(2) not_one_le_zero)
qed

lemma sum_replace:
  assumes "finite (dom m)"
  shows "(\<lambda>a. f a + refs g (m(k := ov)) a + r a) = add_ref (take_ref (\<lambda>a. f a + refs g m a + r a) (Option.bind (m k) g)) (Option.bind ov g)"
proof
  fix x show "f x + refs g (m(k := ov)) x + r x = add_ref (take_ref (\<lambda>a. f a + refs g m a + r a) (Option.bind (m k) g)) (Option.bind ov g) x"
    using refs_replace(1) [OF assms, of g k ov] refs_replace(2) [OF assms, of g k]
    by (auto simp: add_ref_def take_ref_def has_def)
qed

text \<open>An assignment to a pointer of a table or a thread: the store \<open>F\<close> changes one entry.\<close>

definition keeps_heaps :: "('e renderer \<Rightarrow> 'e renderer) \<Rightarrow> bool" where
  "keeps_heaps F \<longleftrightarrow> (\<forall>s. o_ctx (F s) = o_ctx s \<and> o_surf (F s) = o_surf s \<and> o_cb (F s) = o_cb s \<and> o_next (F s) = o_next s \<and> fb_live (F s) = fb_live s)"

lemma core_keeps: "keeps_heaps F \<Longrightarrow> core kc ks kb (F s) \<longleftrightarrow> core kc ks kb s"
  by (simp add: keeps_heaps_def core_def)

lemma counted_reassign_ctx:
  fixes h :: "'e host"
  assumes c: "counted c d b s" and p: "has (\<lambda>x. ctx_roots s x + c x) old" "has (\<lambda>x. ctx_roots s x + c x) new"
    and F: "keeps_heaps F"
      "\<And>s'. roots s' = roots s \<Longrightarrow> tables_finite (F s') \<and> surf_roots (F s') = surf_roots s \<and> cb_roots (F s') = cb_roots s \<and>
        (\<lambda>x. ctx_roots (F s') x + c x) = add_ref (take_ref (\<lambda>x. ctx_roots s x + c x) old) new"
    and eq: "old = new \<Longrightarrow> P s" and post: "\<And>s'. roots s' = roots s \<Longrightarrow> counted c d b (F s') \<Longrightarrow> P (F s')"
  shows "returns (reassign (release_ctx h t old) (use_ctx new) (\<lambda>s. Inr (F s)) old new s) P"
proof (cases "old = new")
  case True
  with eq show ?thesis by (simp add: reassign_def)
next
  case False
  note c0 = countedD [OF c]
  have "returns (bindE (release_ctx h t old s) (\<lambda>s. bindE (use_ctx new s) (\<lambda>s. Inr (F s)))) P"
  proof (rule returns_bind [OF release_ctx_core [OF c0(1) p(1) c0(2)]], elim conjE)
    fix s1 :: "'e renderer"
    assume s1: "core (take_ref (\<lambda>a. ctx_roots s a + c a) old) (\<lambda>a. surf_roots s a + d a) (\<lambda>a. cb_roots s a + b a) s1" "roots s1 = roots s"
    show "returns (bindE (use_ctx new s1) (\<lambda>s. Inr (F s))) P"
    proof (rule returns_bind [OF use_ctx_core [OF s1(1) has_take_ref [OF p(2) False]]], elim conjE)
      fix s2 :: "'e renderer"
      assume s2: "core (add_ref (take_ref (\<lambda>a. ctx_roots s a + c a) old) new) (\<lambda>a. surf_roots s a + d a) (\<lambda>a. cb_roots s a + b a) s2"
        "roots s2 = roots s1"
      then have r: "roots s2 = roots s" using s1 by simp
      have "counted c d b (F s2)"
        using F(2) [OF r] s2(1) core_keeps [OF F(1)] c0(2) rootsD(5) [OF r] F(1) by (simp add: counted_def keeps_heaps_def)
      with r post show "returns (Inr (F s2)) P" by simp
    qed
  qed
  with False show ?thesis by (simp add: reassign_def)
qed

lemma counted_reassign_surf:
  fixes h :: "'e host"
  assumes c: "counted c d b s" and p: "has (\<lambda>x. surf_roots s x + d x) old" "has (\<lambda>x. surf_roots s x + d x) new"
    and F: "keeps_heaps F"
      "\<And>s'. roots s' = roots s \<Longrightarrow> tables_finite (F s') \<and> ctx_roots (F s') = ctx_roots s \<and> cb_roots (F s') = cb_roots s \<and>
        (\<lambda>x. surf_roots (F s') x + d x) = add_ref (take_ref (\<lambda>x. surf_roots s x + d x) old) new"
    and eq: "old = new \<Longrightarrow> P s" and post: "\<And>s'. roots s' = roots s \<Longrightarrow> counted c d b (F s') \<Longrightarrow> P (F s')"
  shows "returns (reassign (release_surf h t old) (use_surf new) (\<lambda>s. Inr (F s)) old new s) P"
proof (cases "old = new")
  case True
  with eq show ?thesis by (simp add: reassign_def)
next
  case False
  note c0 = countedD [OF c]
  have "returns (bindE (release_surf h t old s) (\<lambda>s. bindE (use_surf new s) (\<lambda>s. Inr (F s)))) P"
  proof (rule returns_bind [OF release_surf_core [OF c0(1) p(1) c0(2)]], elim conjE)
    fix s1 :: "'e renderer"
    assume s1: "core (\<lambda>a. ctx_roots s a + c a) (take_ref (\<lambda>a. surf_roots s a + d a) old) (\<lambda>a. cb_roots s a + b a) s1" "roots s1 = roots s"
    show "returns (bindE (use_surf new s1) (\<lambda>s. Inr (F s))) P"
    proof (rule returns_bind [OF use_surf_core [OF s1(1) has_take_ref [OF p(2) False]]], elim conjE)
      fix s2 :: "'e renderer"
      assume s2: "core (\<lambda>a. ctx_roots s a + c a) (add_ref (take_ref (\<lambda>a. surf_roots s a + d a) old) new) (\<lambda>a. cb_roots s a + b a) s2"
        "roots s2 = roots s1"
      then have r: "roots s2 = roots s" using s1 by simp
      have "counted c d b (F s2)"
        using F(2) [OF r] s2(1) core_keeps [OF F(1)] c0(2) rootsD(5) [OF r] F(1) by (simp add: counted_def keeps_heaps_def)
      with r post show "returns (Inr (F s2)) P" by simp
    qed
  qed
  with False show ?thesis by (simp add: reassign_def)
qed

lemma counted_reassign_cb:
  fixes h :: "'e host"
  assumes c: "counted c d b s" and p: "has (\<lambda>x. cb_roots s x + b x) old" "has (\<lambda>x. cb_roots s x + b x) new"
    and F: "keeps_heaps F"
      "\<And>s'. roots s' = roots s \<Longrightarrow> tables_finite (F s') \<and> ctx_roots (F s') = ctx_roots s \<and> surf_roots (F s') = surf_roots s \<and>
        (\<lambda>x. cb_roots (F s') x + b x) = add_ref (take_ref (\<lambda>x. cb_roots s x + b x) old) new"
    and eq: "old = new \<Longrightarrow> P s" and post: "\<And>s'. roots s' = roots s \<Longrightarrow> counted c d b (F s') \<Longrightarrow> P (F s')"
  shows "returns (reassign (release_cb h t old) (use_cb new) (\<lambda>s. Inr (F s)) old new s) P"
proof (cases "old = new")
  case True
  with eq show ?thesis by (simp add: reassign_def)
next
  case False
  note c0 = countedD [OF c]
  have "returns (bindE (release_cb h t old s) (\<lambda>s. bindE (use_cb new s) (\<lambda>s. Inr (F s)))) P"
  proof (rule returns_bind [OF release_cb_core [OF c0(1) p(1) c0(2)]], elim conjE)
    fix s1 :: "'e renderer"
    assume s1: "core (\<lambda>a. ctx_roots s a + c a) (\<lambda>a. surf_roots s a + d a) (take_ref (\<lambda>a. cb_roots s a + b a) old) s1" "roots s1 = roots s"
    show "returns (bindE (use_cb new s1) (\<lambda>s. Inr (F s))) P"
    proof (rule returns_bind [OF use_cb_core [OF s1(1) has_take_ref [OF p(2) False]]], elim conjE)
      fix s2 :: "'e renderer"
      assume s2: "core (\<lambda>a. ctx_roots s a + c a) (\<lambda>a. surf_roots s a + d a) (add_ref (take_ref (\<lambda>a. cb_roots s a + b a) old) new) s2"
        "roots s2 = roots s1"
      then have r: "roots s2 = roots s" using s1 by simp
      have "counted c d b (F s2)"
        using F(2) [OF r] s2(1) core_keeps [OF F(1)] c0(2) rootsD(5) [OF r] F(1) by (simp add: counted_def keeps_heaps_def)
      with r post show "returns (Inr (F s2)) P" by simp
    qed
  qed
  with False show ?thesis by (simp add: reassign_def)
qed

section \<open>The pointers of a thread\<close>

lemma no_info_simps [simp]: "currContext no_info = None" "currDrawSurf no_info = None" "currReadSurf no_info = None"
  by (simp_all add: no_info_def)

lemma thread_has:
  assumes "tables_finite s"
  shows "has (ctx_roots s) (currContext (getRenderThreadInfo t s))"
    "has (surf_roots s) (currDrawSurf (getRenderThreadInfo t s))" "has (surf_roots s) (currReadSurf (getRenderThreadInfo t s))"
  using assms refs_pos [of "r_threads s" t _ currContext] refs_pos [of "r_threads s" t _ currDrawSurf]
    refs_pos [of "r_threads s" t _ currReadSurf]
  by (auto simp: getRenderThreadInfo_def has_def ctx_roots_def surf_roots_def tables_finite_def split: option.splits)

lemma table_has:
  assumes "tables_finite s"
  shows "has (ctx_roots s) (m_contexts s i)" "has (surf_roots s) (m_windows s i)" "has (cb_roots s) (map_option cb (m_colorbuffers s i))"
  using assms refs_pos [of "m_contexts s" i _ Some] refs_pos [of "m_windows s" i _ Some] refs_pos [of "m_colorbuffers s" i _ "Some \<circ> cb"]
  by (auto simp: has_def ctx_roots_def surf_roots_def cb_roots_def tables_finite_def)

lemma has_sum [simp]: "has f p \<Longrightarrow> has (\<lambda>a. f a + g a) p"
  by (auto simp: has_def)

text \<open>The store of an entry of a thread.\<close>

lemma set_info_simps [simp]:
  "o_ctx (set_info t ti s) = o_ctx s" "o_surf (set_info t ti s) = o_surf s" "o_cb (set_info t ti s) = o_cb s"
  "o_next (set_info t ti s) = o_next s" "fb_live (set_info t ti s) = fb_live s" "m_contexts (set_info t ti s) = m_contexts s"
  "m_windows (set_info t ti s) = m_windows s" "m_colorbuffers (set_info t ti s) = m_colorbuffers s"
  "r_threads (set_info t ti s) = (r_threads s)(t \<mapsto> ti)" "s_nextHandle (set_info t ti s) = s_nextHandle s"
  by (simp_all add: set_info_def)

lemma thread_ptr: "g no_info = None \<Longrightarrow> Option.bind (r_threads s t) g = g (getRenderThreadInfo t s)"
  by (simp add: getRenderThreadInfo_def split: option.split)

lemma refs_thread:
  assumes "finite (dom (r_threads s))" "g no_info = None"
  shows "refs g ((r_threads s)(t \<mapsto> ti)) = add_ref (take_ref (refs g (r_threads s)) (g (getRenderThreadInfo t s))) (g ti)"
    and "has (refs g (r_threads s)) (g (getRenderThreadInfo t s))"
  using refs_replace [OF assms(1), of g t] thread_ptr [of g s t] assms(2) by simp_all

lemma refs_thread_same:
  assumes "finite (dom (r_threads s))" "g no_info = None" "g ti = g (getRenderThreadInfo t s)"
  shows "refs g ((r_threads s)(t \<mapsto> ti)) = refs g (r_threads s)"
  using refs_thread [where s = s and g = g and t = t, OF assms(1,2)] assms(3) by (simp add: add_take_ref)

lemma set_currContext_counted:
  assumes c: "counted c d b s" and p: "has c p"
  shows "returns (set_currContext h t p s) (\<lambda>s'. counted c d b s' \<and> m_contexts s' = m_contexts s \<and> m_windows s' = m_windows s \<and>
     m_colorbuffers s' = m_colorbuffers s \<and> getRenderThreadInfo t s' = (getRenderThreadInfo t s)\<lparr>currContext := p\<rparr>)"
proof -
  have fin: "tables_finite s" by (rule countedD [OF c])
  then have ft: "finite (dom (r_threads s))" by (simp add: tables_finite_def)
  let ?F = "\<lambda>s. set_info t ((getRenderThreadInfo t s)\<lparr>currContext := p\<rparr>) s"
  let ?ti = "(getRenderThreadInfo t s)\<lparr>currContext := p\<rparr>"
  have sums: "(\<lambda>x. f x + refs currContext ((r_threads s)(t \<mapsto> ?ti)) x + c x) =
    add_ref (take_ref (\<lambda>x. f x + refs currContext (r_threads s) x + c x) (currContext (getRenderThreadInfo t s))) p" for f
    using sum_replace [OF ft, of f currContext t "Some ?ti" c] thread_ptr [of currContext s t] by simp
  show ?thesis
    unfolding set_currContext_def Let_def
  proof (rule counted_reassign_ctx [OF c])
    show "has (\<lambda>x. ctx_roots s x + c x) (currContext (getRenderThreadInfo t s))" "has (\<lambda>x. ctx_roots s x + c x) p"
      using thread_has [OF fin] p by (simp_all add: has_add)
    show "keeps_heaps ?F" by (simp add: keeps_heaps_def)
    fix s' assume r: "roots s' = roots s"
    note r' = rootsD [OF r] and ti = getThreadInfo_roots [OF r, of t]
    show "tables_finite (?F s') \<and> surf_roots (?F s') = surf_roots s \<and> cb_roots (?F s') = cb_roots s \<and>
        (\<lambda>x. ctx_roots (?F s') x + c x) =
          add_ref (take_ref (\<lambda>x. ctx_roots s x + c x) (currContext (getRenderThreadInfo t s))) p"
      using fin r' ti sums
      by (simp add: tables_finite_def surf_roots_def [abs_def] cb_roots_def [abs_def] ctx_roots_def [abs_def] refs_thread_same [OF ft])
    assume "counted c d b (?F s')"
    then show "counted c d b (?F s') \<and> m_contexts (?F s') = m_contexts s \<and> m_windows (?F s') = m_windows s \<and>
       m_colorbuffers (?F s') = m_colorbuffers s \<and> getRenderThreadInfo t (?F s') = ?ti"
      using r' ti by (simp add: getRenderThreadInfo_def)
  qed (use c in simp)
qed

lemma set_currDrawSurf_counted:
  assumes c: "counted c d b s" and p: "has d p"
  shows "returns (set_currDrawSurf h t p s) (\<lambda>s'. counted c d b s' \<and> m_contexts s' = m_contexts s \<and> m_windows s' = m_windows s \<and>
     m_colorbuffers s' = m_colorbuffers s \<and> getRenderThreadInfo t s' = (getRenderThreadInfo t s)\<lparr>currDrawSurf := p\<rparr>)"
proof -
  have fin: "tables_finite s" by (rule countedD [OF c])
  then have ft: "finite (dom (r_threads s))" by (simp add: tables_finite_def)
  let ?F = "\<lambda>s. set_info t ((getRenderThreadInfo t s)\<lparr>currDrawSurf := p\<rparr>) s"
  let ?ti = "(getRenderThreadInfo t s)\<lparr>currDrawSurf := p\<rparr>"
  note ref = refs_thread [where g = currDrawSurf and t = t and s = s, OF ft no_info_simps(2)]
  show ?thesis
    unfolding set_currDrawSurf_def Let_def
  proof (rule counted_reassign_surf [OF c])
    show "has (\<lambda>x. surf_roots s x + d x) (currDrawSurf (getRenderThreadInfo t s))" "has (\<lambda>x. surf_roots s x + d x) p"
      using thread_has [OF fin] p by (simp_all add: has_add)
    show "keeps_heaps ?F" by (simp add: keeps_heaps_def)
    fix s' assume r: "roots s' = roots s"
    note r' = rootsD [OF r] and ti = getThreadInfo_roots [OF r, of t]
    have "(\<lambda>x. surf_roots (?F s') x + d x) =
          add_ref (take_ref (\<lambda>x. surf_roots s x + d x) (currDrawSurf (getRenderThreadInfo t s))) p"
      by (rule ext) (use ref(2) in \<open>auto simp: surf_roots_def r' ti ref(1) refs_thread_same [OF ft] add_ref_def take_ref_def has_def\<close>)
    then show "tables_finite (?F s') \<and> ctx_roots (?F s') = ctx_roots s \<and> cb_roots (?F s') = cb_roots s \<and>
        (\<lambda>x. surf_roots (?F s') x + d x) =
          add_ref (take_ref (\<lambda>x. surf_roots s x + d x) (currDrawSurf (getRenderThreadInfo t s))) p"
      using fin r' ti
      by (simp add: tables_finite_def ctx_roots_def [abs_def] cb_roots_def [abs_def] refs_thread_same [OF ft])
    assume "counted c d b (?F s')"
    then show "counted c d b (?F s') \<and> m_contexts (?F s') = m_contexts s \<and> m_windows (?F s') = m_windows s \<and>
       m_colorbuffers (?F s') = m_colorbuffers s \<and> getRenderThreadInfo t (?F s') = ?ti"
      using r' ti by (simp add: getRenderThreadInfo_def)
  qed (use c in simp)
qed

lemma set_currReadSurf_counted:
  assumes c: "counted c d b s" and p: "has d p"
  shows "returns (set_currReadSurf h t p s) (\<lambda>s'. counted c d b s' \<and> m_contexts s' = m_contexts s \<and> m_windows s' = m_windows s \<and>
     m_colorbuffers s' = m_colorbuffers s \<and> getRenderThreadInfo t s' = (getRenderThreadInfo t s)\<lparr>currReadSurf := p\<rparr>)"
proof -
  have fin: "tables_finite s" by (rule countedD [OF c])
  then have ft: "finite (dom (r_threads s))" by (simp add: tables_finite_def)
  let ?F = "\<lambda>s. set_info t ((getRenderThreadInfo t s)\<lparr>currReadSurf := p\<rparr>) s"
  let ?ti = "(getRenderThreadInfo t s)\<lparr>currReadSurf := p\<rparr>"
  note ref = refs_thread [where g = currReadSurf and t = t and s = s, OF ft no_info_simps(3)]
  show ?thesis
    unfolding set_currReadSurf_def Let_def
  proof (rule counted_reassign_surf [OF c])
    show "has (\<lambda>x. surf_roots s x + d x) (currReadSurf (getRenderThreadInfo t s))" "has (\<lambda>x. surf_roots s x + d x) p"
      using thread_has [OF fin] p by (simp_all add: has_add)
    show "keeps_heaps ?F" by (simp add: keeps_heaps_def)
    fix s' assume r: "roots s' = roots s"
    note r' = rootsD [OF r] and ti = getThreadInfo_roots [OF r, of t]
    have "(\<lambda>x. surf_roots (?F s') x + d x) =
          add_ref (take_ref (\<lambda>x. surf_roots s x + d x) (currReadSurf (getRenderThreadInfo t s))) p"
      by (rule ext) (use ref(2) in \<open>auto simp: surf_roots_def r' ti ref(1) refs_thread_same [OF ft] add_ref_def take_ref_def has_def\<close>)
    then show "tables_finite (?F s') \<and> ctx_roots (?F s') = ctx_roots s \<and> cb_roots (?F s') = cb_roots s \<and>
        (\<lambda>x. surf_roots (?F s') x + d x) =
          add_ref (take_ref (\<lambda>x. surf_roots s x + d x) (currReadSurf (getRenderThreadInfo t s))) p"
      using fin r' ti
      by (simp add: tables_finite_def ctx_roots_def [abs_def] cb_roots_def [abs_def] refs_thread_same [OF ft])
    assume "counted c d b (?F s')"
    then show "counted c d b (?F s') \<and> m_contexts (?F s') = m_contexts s \<and> m_windows (?F s') = m_windows s \<and>
       m_colorbuffers (?F s') = m_colorbuffers s \<and> getRenderThreadInfo t (?F s') = ?ti"
      using r' ti by (simp add: getRenderThreadInfo_def)
  qed (use c in simp)
qed

section \<open>The entries of the tables\<close>

lemma store_ctx_counted:
  assumes c: "counted c d b s" and p: "has c (Some a)"
  shows "returns (store_ctx h t i a s) (\<lambda>s'. counted c d b s' \<and> m_colorbuffers s' = m_colorbuffers s)"
proof -
  have fin: "tables_finite s" by (rule countedD [OF c])
  then have ft: "finite (dom (m_contexts s))" by (simp add: tables_finite_def)
  let ?F = "\<lambda>s. s\<lparr>m_contexts := (m_contexts s)(i \<mapsto> a)\<rparr>"
  note ref = refs_replace [OF ft, of Some i]
  have b: "Option.bind x Some = x" for x :: "addr option" by (cases x) simp_all
  show ?thesis
    unfolding store_ctx_def Let_def
  proof (rule counted_reassign_ctx [OF c])
    show "has (\<lambda>x. ctx_roots s x + c x) (m_contexts s i)" "has (\<lambda>x. ctx_roots s x + c x) (Some a)"
      using table_has [OF fin] p by (simp_all add: has_add)
    show "keeps_heaps ?F" by (simp add: keeps_heaps_def)
    fix s' assume r: "roots s' = roots s"
    note r' = rootsD [OF r]
    have "(\<lambda>x. ctx_roots (?F s') x + c x) = add_ref (take_ref (\<lambda>x. ctx_roots s x + c x) (m_contexts s i)) (Some a)"
      by (rule ext) (use ref(2) in \<open>auto simp: ctx_roots_def r' ref(1) b add_ref_def take_ref_def has_def\<close>)
    then show "tables_finite (?F s') \<and> surf_roots (?F s') = surf_roots s \<and> cb_roots (?F s') = cb_roots s \<and>
        (\<lambda>x. ctx_roots (?F s') x + c x) = add_ref (take_ref (\<lambda>x. ctx_roots s x + c x) (m_contexts s i)) (Some a)"
      using fin r' by (simp add: tables_finite_def surf_roots_def [abs_def] cb_roots_def [abs_def])
  qed (use c in \<open>auto dest: rootsD(4)\<close>)
qed

lemma store_win_counted:
  assumes c: "counted c d b s" and p: "has d (Some a)"
  shows "returns (store_win h t i a s) (\<lambda>s'. counted c d b s' \<and> m_colorbuffers s' = m_colorbuffers s)"
proof -
  have fin: "tables_finite s" by (rule countedD [OF c])
  then have ft: "finite (dom (m_windows s))" by (simp add: tables_finite_def)
  let ?F = "\<lambda>s. s\<lparr>m_windows := (m_windows s)(i \<mapsto> a)\<rparr>"
  note ref = refs_replace [OF ft, of Some i]
  have b: "Option.bind x Some = x" for x :: "addr option" by (cases x) simp_all
  show ?thesis
    unfolding store_win_def Let_def
  proof (rule counted_reassign_surf [OF c])
    show "has (\<lambda>x. surf_roots s x + d x) (m_windows s i)" "has (\<lambda>x. surf_roots s x + d x) (Some a)"
      using table_has [OF fin] p by (simp_all add: has_add)
    show "keeps_heaps ?F" by (simp add: keeps_heaps_def)
    fix s' assume r: "roots s' = roots s"
    note r' = rootsD [OF r]
    have "(\<lambda>x. surf_roots (?F s') x + d x) = add_ref (take_ref (\<lambda>x. surf_roots s x + d x) (m_windows s i)) (Some a)"
      by (rule ext) (use ref(2) in \<open>auto simp: surf_roots_def r' ref(1) b add_ref_def take_ref_def has_def\<close>)
    then show "tables_finite (?F s') \<and> ctx_roots (?F s') = ctx_roots s \<and> cb_roots (?F s') = cb_roots s \<and>
        (\<lambda>x. surf_roots (?F s') x + d x) = add_ref (take_ref (\<lambda>x. surf_roots s x + d x) (m_windows s i)) (Some a)"
      using fin r' by (simp add: tables_finite_def ctx_roots_def [abs_def] cb_roots_def [abs_def])
  qed (use c in \<open>auto dest: rootsD(4)\<close>)
qed

text \<open>The pointer of an entry decides, not the number of its clients.\<close>

lemma refs_clients:
  "m i = Some x \<Longrightarrow> cb y = cb x \<Longrightarrow> refs (Some \<circ> cb) (m(i \<mapsto> y)) = refs (Some \<circ> cb) m"
  by (rule ext, rule refs_same) auto

lemma counted_clients:
  assumes "counted c d b s" "m_colorbuffers s i = Some x" "cb y = cb x"
  shows "counted c d b (s\<lparr>m_colorbuffers := (m_colorbuffers s)(i \<mapsto> y)\<rparr>)"
  using assms
  by (auto simp: counted_def tables_finite_def ctx_roots_def surf_roots_def cb_roots_def refs_clients core_def)

lemma store_cb_counted:
  assumes c: "counted c d b s" and p: "has b (Some a)"
  shows "returns (store_cb h t i a s) (\<lambda>s'. counted c d b s' \<and> (map_option cb (m_colorbuffers s i) \<noteq> Some a \<longrightarrow>
    m_colorbuffers s' = (m_colorbuffers s)(i \<mapsto> \<lparr>cb = a, refcount = 1\<rparr>)))"
proof -
  have fin: "tables_finite s" by (rule countedD [OF c])
  then have ft: "finite (dom (m_colorbuffers s))" by (simp add: tables_finite_def)
  let ?old = "map_option cb (m_colorbuffers s i)"
  let ?n = "case m_colorbuffers s i of None \<Rightarrow> 0 | Some c \<Rightarrow> refcount c"
  let ?F = "\<lambda>s. s\<lparr>m_colorbuffers := (m_colorbuffers s)(i \<mapsto> \<lparr>cb = a, refcount = ?n\<rparr>)\<rparr>"
  note ref = refs_replace [OF ft, of "Some \<circ> cb" i]
  have b: "Option.bind x (Some \<circ> cb) = map_option cb x" for x by (cases x) simp_all
  show ?thesis
    unfolding store_cb_def Let_def
  proof (rule returns_bind [where Q = "\<lambda>s'. counted c d b s' \<and> (\<exists>n. m_colorbuffers s' i = Some \<lparr>cb = a, refcount = n\<rparr>) \<and>
        (?old \<noteq> Some a \<longrightarrow> m_colorbuffers s' = (m_colorbuffers s)(i \<mapsto> \<lparr>cb = a, refcount = ?n\<rparr>))"],
      rule counted_reassign_cb [OF c])
    show "has (\<lambda>x. cb_roots s x + b x) ?old" "has (\<lambda>x. cb_roots s x + b x) (Some a)"
      using table_has [OF fin] p by (simp_all add: has_add)
    show "keeps_heaps ?F" by (simp add: keeps_heaps_def)
    let ?P = "\<lambda>s'. counted c d b s' \<and> (\<exists>n. m_colorbuffers s' i = Some \<lparr>cb = a, refcount = n\<rparr>) \<and>
        (?old \<noteq> Some a \<longrightarrow> m_colorbuffers s' = (m_colorbuffers s)(i \<mapsto> \<lparr>cb = a, refcount = ?n\<rparr>))"
    show "?P s" if old: "?old = Some a"
    proof -
      from old obtain z where "m_colorbuffers s i = Some z" "cb z = a" by auto
      then have "m_colorbuffers s i = Some \<lparr>cb = a, refcount = refcount z\<rparr>" by auto
      with c old show ?thesis by blast
    qed
    fix s' assume r: "roots s' = roots s"
    note r' = rootsD [OF r]
    have "(\<lambda>x. cb_roots (?F s') x + b x) = add_ref (take_ref (\<lambda>x. cb_roots s x + b x) ?old) (Some a)"
      by (rule ext) (use ref(2) in \<open>auto simp: cb_roots_def r' ref(1) b add_ref_def take_ref_def has_def\<close>)
    then show "tables_finite (?F s') \<and> ctx_roots (?F s') = ctx_roots s \<and> surf_roots (?F s') = surf_roots s \<and>
        (\<lambda>x. cb_roots (?F s') x + b x) = add_ref (take_ref (\<lambda>x. cb_roots s x + b x) ?old) (Some a)"
      using fin r' by (simp add: tables_finite_def ctx_roots_def [abs_def] surf_roots_def [abs_def])
    assume "counted c d b (?F s')"
    then show "?P (?F s')" using r' by auto
  next
    fix s' assume s': "counted c d b s' \<and> (\<exists>n. m_colorbuffers s' i = Some \<lparr>cb = a, refcount = n\<rparr>) \<and>
        (?old \<noteq> Some a \<longrightarrow> m_colorbuffers s' = (m_colorbuffers s)(i \<mapsto> \<lparr>cb = a, refcount = ?n\<rparr>))"
    then obtain n where n: "counted c d b s'" "m_colorbuffers s' i = Some \<lparr>cb = a, refcount = n\<rparr>" by blast
    then have "counted c d b (s'\<lparr>m_colorbuffers := (m_colorbuffers s')(i \<mapsto> \<lparr>cb = a, refcount = 1\<rparr>)\<rparr>)"
      by (rule counted_clients) simp
    with s' n show "returns (Inr (s'\<lparr>m_colorbuffers := (m_colorbuffers s')(i := map_option (\<lambda>c. c\<lparr>refcount := 1\<rparr>) (m_colorbuffers s' i))\<rparr>))
      (\<lambda>s'. counted c d b s' \<and> (?old \<noteq> Some a \<longrightarrow> m_colorbuffers s' = (m_colorbuffers s)(i \<mapsto> \<lparr>cb = a, refcount = 1\<rparr>)))"
      by auto
  qed
qed

end
