(* ===== verification/Render_Ops.thy ===== *)
theory Render_Ops
  imports Render_Tables
begin

text \<open>
  Every operation of \<open>FrameBuffer\<close> keeps the counters exact, and returns, except where its lemma says so.
\<close>

section \<open>Handles\<close>

definition handle_used :: "'e renderer \<Rightarrow> HandleType \<Rightarrow> bool" where
  "handle_used s i \<longleftrightarrow> m_contexts s i \<noteq> None \<or> m_windows s i \<noteq> None"

definition handle_free :: "'e renderer \<Rightarrow> bool" where
  "handle_free s \<longleftrightarrow> (\<exists>i. i \<noteq> 0 \<and> \<not> handle_used s i)"

text \<open>The distance to a free identifier, upwards with wrap-around, shrinks with every round.\<close>

lemma next_handle_within:
  assumes "n + of_nat (Suc k) \<noteq> 0" "\<not> used (n + of_nat (Suc k))"
  shows "\<exists>i. next_handle used n = Some i \<and> i \<noteq> 0 \<and> \<not> used i"
  using assms
proof (induction k arbitrary: n)
  case 0
  then show ?case by (subst next_handle.simps) (simp add: Let_def)
next
  case (Suc k)
  show ?case
  proof (cases "n + 1 = 0 \<or> used (n + 1)")
    case True
    moreover have "\<exists>i. next_handle used (n + 1) = Some i \<and> i \<noteq> 0 \<and> \<not> used i"
      using Suc.prems by (intro Suc.IH) (simp_all add: algebra_simps)
    ultimately show ?thesis by (subst next_handle.simps) (simp add: Let_def)
  next
    case False
    then show ?thesis by (subst next_handle.simps) (simp add: Let_def)
  qed
qed

lemma next_handle_total:
  assumes "\<exists>i. i \<noteq> 0 \<and> \<not> used i"
  shows "\<exists>i. next_handle used n = Some i \<and> i \<noteq> 0 \<and> \<not> used i"
proof -
  from assms obtain i where i: "i \<noteq> 0" "\<not> used i" by blast
  define k where "k = unat (i - n - 1)"
  have "of_nat (Suc k) = i - n" by (simp add: k_def)
  then have "n + of_nat (Suc k) = i" by (metis add.commute diff_add_cancel)
  with i show ?thesis by (intro next_handle_within [of n k]) simp_all
qed

lemma next_handle_sound:
  assumes "next_handle used n = Some i"
  shows "i \<noteq> 0 \<and> \<not> used i"
  by (rule next_handle.raw_induct [OF _ assms]) (auto simp: Let_def split: if_splits)

lemma genHandle_cases:
  obtains "genHandle s = Inl Hang" "\<not> handle_free s"
  | i where "genHandle s = Inr (i, s\<lparr>s_nextHandle := i\<rparr>)" "i \<noteq> 0" "\<not> handle_used s i"
proof (cases "next_handle (\<lambda>i. m_contexts s i \<noteq> None \<or> m_windows s i \<noteq> None) (s_nextHandle s)")
  case None
  moreover have "\<not> handle_free s"
  proof
    assume "handle_free s"
    then have "\<exists>i. i \<noteq> 0 \<and> \<not> (m_contexts s i \<noteq> None \<or> m_windows s i \<noteq> None)" by (simp add: handle_free_def handle_used_def)
    from next_handle_total [OF this, of "s_nextHandle s"] None show False by simp
  qed
  ultimately show thesis by (intro that(1)) (simp_all add: genHandle_def)
next
  case (Some i)
  from next_handle_sound [OF this] Some show thesis
    by (intro that(2) [of i]) (auto simp: genHandle_def handle_used_def)
qed

lemma counted_nextHandle: "counted c d b (s\<lparr>s_nextHandle := i\<rparr>) \<longleftrightarrow> counted c d b s"
  by (simp add: counted_def core_def tables_finite_def ctx_roots_def surf_roots_def cb_roots_def)

section \<open>New objects\<close>

lemma heap_ok_add:
  assumes "heap_ok r H" "H a = None"
  shows "heap_ok (add_ref r (Some a)) (sp_new a x H)"
proof -
  have "r a = 0" using heap_ok_none [OF assms(1), of a] assms(2) by simp
  then have "add_ref r (Some a) = r(a := 1)" by (simp add: count_upd)
  with heap_ok_new [OF assms, of x] show ?thesis by simp
qed

lemma counted_new_ctx: "counted c d b s \<Longrightarrow> new_ctx x s = (a, s') \<Longrightarrow> counted (add_ref c (Some a)) d b s'"
  by (auto simp: counted_def core_def new_ctx_def allocate_def tables_finite_def ctx_roots_def surf_roots_def cb_roots_def
      heap_ok_add sum_add_ref) (simp_all add: sp_new_def)

lemma refs_new: "H a = None \<Longrightarrow> g (x, Suc 0) = None \<Longrightarrow> refs g (sp_new a x H) = refs g H"
  by (rule ext) (auto simp: refs_def sp_new_def intro!: arg_cong [where f = card])

lemma counted_new_surf:
  "counted c d b s \<Longrightarrow> new_surf x s = (a, s') \<Longrightarrow>
   m_attachedColorBuffer x = None \<Longrightarrow> m_readContext x = None \<Longrightarrow> m_drawContext x = None \<Longrightarrow> counted c (add_ref d (Some a)) b s'"
  by (auto simp: counted_def core_def new_surf_def allocate_def tables_finite_def ctx_roots_def surf_roots_def cb_roots_def
      heap_ok_add sum_add_ref wctx_def wcb_def refs_new) (simp_all add: sp_new_def)

lemma counted_new_cb: "counted c d b s \<Longrightarrow> new_cb x s = (a, s') \<Longrightarrow> counted c d (add_ref b (Some a)) s'"
  by (auto simp: counted_def core_def new_cb_def allocate_def tables_finite_def ctx_roots_def surf_roots_def cb_roots_def
      heap_ok_add sum_add_ref) (simp_all add: sp_new_def)

lemma new_frames:
  "new_ctx x s = (a, s') \<Longrightarrow> handle_free s' = handle_free s" "new_surf w s = (a, s') \<Longrightarrow> handle_free s' = handle_free s"
  "new_cb y s = (a, s') \<Longrightarrow> handle_free s' = handle_free s"
  "new_ctx x s = (a, s') \<Longrightarrow> m_colorbuffers s' = m_colorbuffers s" "new_surf w s = (a, s') \<Longrightarrow> m_colorbuffers s' = m_colorbuffers s"
  "new_cb y s = (a, s') \<Longrightarrow> m_colorbuffers s' = m_colorbuffers s"
  by (auto simp: new_ctx_def new_surf_def new_cb_def allocate_def handle_free_def handle_used_def)

lemma handle_free_roots: "roots s' = roots s \<Longrightarrow> handle_free s' = handle_free s"
  by (simp add: handle_free_def handle_used_def rootsD [of s' s])

section \<open>Entries that go\<close>

lemma counted_erase_ctx:
  assumes "counted c d b s"
  shows "counted (add_ref c (m_contexts s i)) d b (s\<lparr>m_contexts := (m_contexts s)(i := None)\<rparr>)"
proof -
  have ft: "finite (dom (m_contexts s))" using countedD(3) [OF assms] by (simp add: tables_finite_def)
  have "Option.bind (m_contexts s i) Some = m_contexts s i" by (cases "m_contexts s i") simp_all
  then have "(\<lambda>a. refs Some ((m_contexts s)(i := None)) a + refs currContext (r_threads s) a + add_ref c (m_contexts s i) a) =
      (\<lambda>a. ctx_roots s a + c a)"
    by (intro ext) (use refs_replace [OF ft, of Some i] in \<open>auto simp: ctx_roots_def add_ref_def take_ref_def has_def\<close>)
  with assms show ?thesis
    by (auto simp: counted_def core_def tables_finite_def ctx_roots_def surf_roots_def cb_roots_def)
qed

lemma counted_erase_win:
  assumes "counted c d b s"
  shows "counted c (add_ref d (m_windows s i)) b (s\<lparr>m_windows := (m_windows s)(i := None)\<rparr>)"
proof -
  have ft: "finite (dom (m_windows s))" using countedD(3) [OF assms] by (simp add: tables_finite_def)
  have "Option.bind (m_windows s i) Some = m_windows s i" by (cases "m_windows s i") simp_all
  then have "(\<lambda>a. refs Some ((m_windows s)(i := None)) a + refs currDrawSurf (r_threads s) a + refs currReadSurf (r_threads s) a +
      add_ref d (m_windows s i) a) = (\<lambda>a. surf_roots s a + d a)"
    by (intro ext) (use refs_replace [OF ft, of Some i] in \<open>auto simp: surf_roots_def add_ref_def take_ref_def has_def\<close>)
  with assms show ?thesis
    by (auto simp: counted_def core_def tables_finite_def ctx_roots_def surf_roots_def cb_roots_def)
qed

lemma counted_erase_cb:
  assumes "counted c d b s"
  shows "counted c d (add_ref b (map_option cb (m_colorbuffers s i))) (s\<lparr>m_colorbuffers := (m_colorbuffers s)(i := None)\<rparr>)"
proof -
  have ft: "finite (dom (m_colorbuffers s))" using countedD(3) [OF assms] by (simp add: tables_finite_def)
  have "Option.bind (m_colorbuffers s i) (Some \<circ> cb) = map_option cb (m_colorbuffers s i)" by (cases "m_colorbuffers s i") simp_all
  then have "(\<lambda>a. refs (Some \<circ> cb) ((m_colorbuffers s)(i := None)) a + add_ref b (map_option cb (m_colorbuffers s i)) a) =
      (\<lambda>a. cb_roots s a + b a)"
    by (intro ext) (use refs_replace [OF ft, of "Some \<circ> cb" i] in \<open>auto simp: cb_roots_def add_ref_def take_ref_def has_def\<close>)
  with assms show ?thesis
    by (auto simp: counted_def core_def tables_finite_def ctx_roots_def surf_roots_def cb_roots_def)
qed

lemma DestroyRenderContext_ok:
  assumes c: "counted c d b s"
  shows "returns (DestroyRenderContext h t i s) (\<lambda>s'. counted c d b s' \<and> m_colorbuffers s' = m_colorbuffers s)"
  unfolding DestroyRenderContext_def
  by (rule returns_mono [OF counted_release_ctx [OF counted_erase_ctx [OF c] has_add_ref(1)]]) (auto dest: rootsD(4))

lemma DestroyWindowSurface_ok:
  assumes c: "counted c d b s"
  shows "returns (DestroyWindowSurface h t i s) (\<lambda>s'. counted c d b s' \<and> m_colorbuffers s' = m_colorbuffers s)"
  unfolding DestroyWindowSurface_def
  by (rule returns_mono [OF counted_release_surf [OF counted_erase_win [OF c] has_add_ref(1)]]) (auto dest: rootsD(4))

lemma openColorBuffer_ok: "counted c d b s \<Longrightarrow> counted c d b (openColorBuffer i s)"
  by (auto simp: openColorBuffer_def intro: counted_clients split: option.splits)

definition closed_table :: "HandleType \<Rightarrow> (HandleType \<rightharpoonup> color_buffer_ref) \<Rightarrow> HandleType \<rightharpoonup> color_buffer_ref" where
  "closed_table i T =
     (case T i of
        None \<Rightarrow> T
      | Some x \<Rightarrow> if refcount x - 1 = 0 then T(i := None) else T(i \<mapsto> x\<lparr>refcount := refcount x - 1\<rparr>))"

lemma closeColorBuffer_ok:
  assumes c: "counted c d b s"
  shows "returns (closeColorBuffer h t i s) (\<lambda>s'. counted c d b s' \<and> m_colorbuffers s' = closed_table i (m_colorbuffers s))"
proof (cases "m_colorbuffers s i")
  case None
  with c show ?thesis by (simp add: closeColorBuffer_def closed_table_def)
next
  case (Some x)
  then show ?thesis
    using counted_clients [OF c Some, of "x\<lparr>refcount := refcount x - 1\<rparr>"]
      counted_release_cb [OF counted_erase_cb [OF c, of i] has_add_ref(1), of h t]
    by (auto simp: closeColorBuffer_def closed_table_def elim!: returns_mono dest: rootsD(4))
qed

section \<open>Creating\<close>

text \<open>What an operation returns satisfies \<open>P\<close>, a fault it runs into satisfies \<open>F\<close>.\<close>

definition outcome :: "fault + 'a \<Rightarrow> (fault \<Rightarrow> bool) \<Rightarrow> ('a \<Rightarrow> bool) \<Rightarrow> bool" where
  "outcome m F P = (case m of Inl f \<Rightarrow> F f | Inr x \<Rightarrow> P x)"

lemma outcome_simps [simp]: "outcome (Inr x) F P = P x" "outcome (Inl f) F P = F f"
  by (simp_all add: outcome_def)

lemma outcome_bind: "outcome m F Q \<Longrightarrow> (\<And>x. Q x \<Longrightarrow> outcome (k x) F P) \<Longrightarrow> outcome (bindE m k) F P"
  by (cases m) simp_all

lemma outcome_returns: "returns m Q \<Longrightarrow> (\<And>x. Q x \<Longrightarrow> outcome (k x) F P) \<Longrightarrow> outcome (bindE m k) F P"
  by (cases m) simp_all

lemma returns_outcome: "returns m P \<Longrightarrow> outcome m F P"
  by (cases m) simp_all

lemma outcome_mono: "outcome m F Q \<Longrightarrow> (\<And>f. F f \<Longrightarrow> F' f) \<Longrightarrow> (\<And>x. Q x \<Longrightarrow> P x) \<Longrightarrow> outcome m F' P"
  by (cases m) simp_all

lemma make_image_frame [simp]: "objs (snd (make_image h t x s)) = objs s"
  by (simp add: make_image_def case_prod_beta)

definition too_big :: "32 word \<Rightarrow> 32 word \<Rightarrow> 32 word \<Rightarrow> bool" where
  "too_big p_width p_height p_internalFormat \<longleftrightarrow>
     (case texture_format p_internalFormat of None \<Rightarrow> False | Some f \<Rightarrow> sint (zero_pixels f p_width p_height) < 0)"

lemma ColorBuffer_create_outcome:
  assumes fb: "fb_live s"
  shows "outcome (ColorBuffer_create h t w ht f s) (\<lambda>e. e = Panic \<and> too_big w ht f) (\<lambda>x. objs (snd x) = objs s)"
proof (cases "texture_format f")
  case None
  then show ?thesis by (simp add: ColorBuffer_create_def)
next
  case (Some fmt)
  have if_objs: "objs (snd (if b then x else y)) = (if b then objs (snd x) else objs (snd y))" for b x and y :: "'b \<times> 'c renderer"
    by simp
  show ?thesis
    unfolding ColorBuffer_create_def Some option.case getFB_objs [OF refl fb] bindE_simps Let_def case_prod_beta
    using Some by (simp add: too_big_def if_objs del: do_calls.simps)
qed

lemma RenderContext_create_returns:
  assumes c: "counted c d b s" and p: "has c p"
  shows "returns (RenderContext_create h t conf p gl2 s) (\<lambda>x. objs (snd x) = objs s)"
proof -
  have share: "\<exists>n. (if p \<noteq> None then bindE (sp_get p (o_ctx s)) (\<lambda>c. Inr (m_ctx c)) else Inr 0) = Inr n"
  proof (cases p)
    case (Some a)
    then obtain x where "sp_get (Some a) (o_ctx s) = Inr x"
      using core_ctx_get [OF countedD(1) [OF c], of a] p by (metis has_add)
    with Some show ?thesis by simp
  qed simp
  then obtain n where n: "(if p \<noteq> None then bindE (sp_get p (o_ctx s)) (\<lambda>c. Inr (m_ctx c)) else Inr 0) = Inr n" ..
  show ?thesis
    unfolding RenderContext_create_def n bindE_simps getFB_objs [OF refl countedD(2) [OF c]] case_prod_beta Let_def
    by (simp split: option.split)
qed

lemma WindowSurface_create_returns:
  assumes fb: "fb_live s"
  shows "returns (WindowSurface_create h t conf w ht s) (\<lambda>x. objs (snd x) = objs s \<and>
    (case fst x of None \<Rightarrow> True | Some y \<Rightarrow> m_attachedColorBuffer y = None \<and> m_readContext y = None \<and> m_drawContext y = None))"
proof (cases "FBConfig_get conf s")
  case None
  then show ?thesis by (simp add: WindowSurface_create_def)
next
  case (Some fbconf)
  show ?thesis
    unfolding WindowSurface_create_def Some option.case getFB_objs [OF refl fb] bindE_simps
    by (rule returns_bind [OF resizePbuffer_frame [OF fb]]) (auto simp del: do_calls.simps)
qed

text \<open>The common end of the three: a handle, the store and the release of the local pointer.\<close>

lemma fresh_cb:
  assumes "counted c d b s"
  shows "map_option cb (m_colorbuffers s i) \<noteq> Some (o_next s)"
proof
  assume "map_option cb (m_colorbuffers s i) = Some (o_next s)"
  with table_has(3) [OF countedD(3) [OF assms], of i] have "0 < cb_roots s (o_next s)" by (simp add: count_upd)
  with heap_okD [of _ "o_cb s" "o_next s"] countedD(1) [OF assms] show False by (fastforce simp: core_def)
qed

lemma createColorBuffer_outcome:
  fixes h :: "'e host"
  assumes c: "counted c d b s"
  shows "outcome (createColorBuffer h t w ht f s) (\<lambda>e. e = Panic \<and> too_big w ht f \<or> e = Hang \<and> \<not> handle_free s) (\<lambda>x. counted c d b (snd x) \<and> (if fst x = 0 then m_colorbuffers (snd x) = m_colorbuffers s
      else \<exists>a. m_colorbuffers (snd x) = (m_colorbuffers s)(fst x \<mapsto> \<lparr>cb = a, refcount = 1\<rparr>)))"
  unfolding createColorBuffer_def
proof (rule outcome_bind, rule outcome_mono [OF ColorBuffer_create_outcome [OF countedD(2) [OF c]]])
  fix x :: "color_buffer option \<times> 'e renderer" assume x: "objs (snd x) = objs s"
  obtain ob s1 where [simp]: "x = (ob, s1)" by (cases x)
  have c1: "counted c d b s1" using x c counted_objs [of s1 s] by simp
  have m1: "m_colorbuffers s1 = m_colorbuffers s" using x objs_eqD(8) [of s1 s] by simp
  show "outcome (case x of (ob, s) \<Rightarrow> case ob of
         None \<Rightarrow> Inr (0, s)
       | Some b \<Rightarrow>
           let (a, s) = new_cb b s
           in bindE (genHandle s) (\<lambda>(i, s). bindE (store_cb h t i a s) (\<lambda>s.
              bindE (release_cb h t (Some a) s) (\<lambda>s. Inr (i, s)))))
     (\<lambda>e. e = Panic \<and> too_big w ht f \<or> e = Hang \<and> \<not> handle_free s) (\<lambda>x. counted c d b (snd x) \<and> (if fst x = 0 then m_colorbuffers (snd x) = m_colorbuffers s
      else \<exists>a. m_colorbuffers (snd x) = (m_colorbuffers s)(fst x \<mapsto> \<lparr>cb = a, refcount = 1\<rparr>)))"
  proof (cases ob)
    case None
    with c1 m1 show ?thesis by simp
  next
    case (Some y)
    obtain a s2 where s2: "new_cb y s1 = (a, s2)" by fastforce
    have c2: "counted c d (add_ref b (Some a)) s2" by (rule counted_new_cb [OF c1 s2])
    have free: "handle_free s2 = handle_free s"
      using new_frames(3) [OF s2] handle_free_roots [OF roots_objs, of s1 s] x by simp
    show ?thesis
    proof (cases rule: genHandle_cases [of s2])
      case 1
      with Some s2 free show ?thesis by simp
    next
      case (2 i)
      let ?s3 = "s2\<lparr>s_nextHandle := i\<rparr>"
      have c3: "counted c d (add_ref b (Some a)) ?s3" using c2 by (simp add: counted_nextHandle)
      have "a = o_next s1" using s2 by (auto simp: new_cb_def allocate_def)
      with fresh_cb [OF c1, of i] new_frames(6) [OF s2] have old: "map_option cb (m_colorbuffers ?s3 i) \<noteq> Some a" by simp
      have "outcome (bindE (store_cb h t i a ?s3) (\<lambda>s. bindE (release_cb h t (Some a) s) (\<lambda>s. Inr (i, s))))
        (\<lambda>e. e = Panic \<and> too_big w ht f \<or> e = Hang \<and> \<not> handle_free s) (\<lambda>x. counted c d b (snd x) \<and> (if fst x = 0 then m_colorbuffers (snd x) = m_colorbuffers s
      else \<exists>a. m_colorbuffers (snd x) = (m_colorbuffers s)(fst x \<mapsto> \<lparr>cb = a, refcount = 1\<rparr>)))"
        by (rule outcome_returns [OF store_cb_counted [OF c3 has_add_ref(1)]], elim conjE,
            rule outcome_returns [OF counted_release_cb [OF _ has_add_ref(1)]])
           (use 2 m1 old new_frames(6) [OF s2] in \<open>auto dest!: rootsD(4) intro!: exI [of _ a]\<close>)
      with Some s2 2 show ?thesis by simp
    qed
  qed
qed simp_all

lemma createWindowSurface_outcome:
  fixes h :: "'e host"
  assumes c: "counted c d b s"
  shows "outcome (createWindowSurface h t conf w ht s) (\<lambda>e. e = Hang \<and> \<not> handle_free s) (\<lambda>x. counted c d b (snd x) \<and> m_colorbuffers (snd x) = m_colorbuffers s)"
  unfolding createWindowSurface_def
proof (rule outcome_returns [OF WindowSurface_create_returns [OF countedD(2) [OF c]]], elim conjE)
  fix x :: "window_surface option \<times> 'e renderer" assume x: "objs (snd x) = objs s"
    "case fst x of None \<Rightarrow> True | Some y \<Rightarrow> m_attachedColorBuffer y = None \<and> m_readContext y = None \<and> m_drawContext y = None"
  obtain ob s1 where [simp]: "x = (ob, s1)" by (cases x)
  have c1: "counted c d b s1" using x c counted_objs [of s1 s] by simp
  have m1: "m_colorbuffers s1 = m_colorbuffers s" using x objs_eqD(8) [of s1 s] by simp
  show "outcome (case x of (ow, s) \<Rightarrow> case ow of
         None \<Rightarrow> Inr (0, s)
       | Some w \<Rightarrow>
           let (a, s) = new_surf w s
           in bindE (genHandle s) (\<lambda>(i, s). bindE (store_win h t i a s) (\<lambda>s.
              bindE (release_surf h t (Some a) s) (\<lambda>s. Inr (i, s)))))
     (\<lambda>e. e = Hang \<and> \<not> handle_free s) (\<lambda>x. counted c d b (snd x) \<and> m_colorbuffers (snd x) = m_colorbuffers s)"
  proof (cases ob)
    case None
    with c1 m1 show ?thesis by simp
  next
    case (Some y)
    obtain a s2 where s2: "new_surf y s1 = (a, s2)" by fastforce
    have c2: "counted c (add_ref d (Some a)) b s2" using counted_new_surf [OF c1 s2] x Some by simp
    have free: "handle_free s2 = handle_free s"
      using new_frames(2) [OF s2] handle_free_roots [OF roots_objs, of s1 s] x by simp
    show ?thesis
    proof (cases rule: genHandle_cases [of s2])
      case 1
      with Some s2 free show ?thesis by simp
    next
      case (2 i)
      let ?s3 = "s2\<lparr>s_nextHandle := i\<rparr>"
      have c3: "counted c (add_ref d (Some a)) b ?s3" using c2 by (simp add: counted_nextHandle)
      have "outcome (bindE (store_win h t i a ?s3) (\<lambda>s. bindE (release_surf h t (Some a) s) (\<lambda>s. Inr (i, s))))
        (\<lambda>e. e = Hang \<and> \<not> handle_free s) (\<lambda>x. counted c d b (snd x) \<and> m_colorbuffers (snd x) = m_colorbuffers s)"
        by (rule outcome_returns [OF store_win_counted [OF c3 has_add_ref(1)]], elim conjE,
            rule outcome_returns [OF counted_release_surf [OF _ has_add_ref(1)]])
           (use m1 new_frames(5) [OF s2] in \<open>auto dest: rootsD(4)\<close>)
      with Some s2 2 show ?thesis by simp
    qed
  qed
qed

lemma createRenderContext_outcome:
  fixes h :: "'e host"
  assumes c: "counted c d b s"
  shows "outcome (createRenderContext h t conf p_share gl2 s) (\<lambda>e. e = Hang \<and> \<not> handle_free s) (\<lambda>x. counted c d b (snd x) \<and> m_colorbuffers (snd x) = m_colorbuffers s)"
proof (cases "p_share \<noteq> 0 \<and> m_contexts s p_share = None")
  case True
  with c show ?thesis by (simp add: createRenderContext_def)
next
  case False
  define sh where "sh = (if p_share \<noteq> 0 then m_contexts s p_share else None)"
  have sh: "has (\<lambda>a. ctx_roots s a + c a) sh"
    using table_has(1) [OF countedD(3) [OF c], of p_share] by (simp add: sh_def)
  let ?F = "\<lambda>e. e = Hang \<and> \<not> handle_free s"
  have "outcome (bindE (use_ctx sh s) (\<lambda>s.
           bindE (RenderContext_create h t conf sh gl2 s) (\<lambda>(oc, s).
           bindE (case oc of
               None \<Rightarrow> Inr (0, s)
             | Some c \<Rightarrow>
                 let (a, s) = new_ctx c s
                 in bindE (genHandle s) (\<lambda>(i, s). bindE (store_ctx h t i a s) (\<lambda>s.
                    bindE (release_ctx h t (Some a) s) (\<lambda>s. Inr (i, s))))) (\<lambda>(i, s).
           bindE (release_ctx h t sh s) (\<lambda>s. Inr (i, s)))))) ?F (\<lambda>x. counted c d b (snd x) \<and> m_colorbuffers (snd x) = m_colorbuffers s)"
  proof (rule outcome_returns [OF counted_use_ctx [OF c sh]], elim conjE)
    fix s0 :: "'e renderer" assume s0: "counted (add_ref c sh) d b s0" "roots s0 = roots s"
    show "outcome (bindE (RenderContext_create h t conf sh gl2 s0) (\<lambda>(oc, s).
           bindE (case oc of
               None \<Rightarrow> Inr (0, s)
             | Some c \<Rightarrow>
                 let (a, s) = new_ctx c s
                 in bindE (genHandle s) (\<lambda>(i, s). bindE (store_ctx h t i a s) (\<lambda>s.
                    bindE (release_ctx h t (Some a) s) (\<lambda>s. Inr (i, s))))) (\<lambda>(i, s).
           bindE (release_ctx h t sh s) (\<lambda>s. Inr (i, s))))) ?F (\<lambda>x. counted c d b (snd x) \<and> m_colorbuffers (snd x) = m_colorbuffers s)"
    proof (rule outcome_returns [OF RenderContext_create_returns [OF s0(1) has_add_ref(1)]])
      fix x :: "render_context option \<times> 'e renderer" assume x: "objs (snd x) = objs s0"
      obtain oc s1 where [simp]: "x = (oc, s1)" by (cases x)
      have c1: "counted (add_ref c sh) d b s1" using x s0 counted_objs [of s1 s0] by simp
      have m1: "m_colorbuffers s1 = m_colorbuffers s" using x objs_eqD(8) [of s1 s0] rootsD(4) [OF s0(2)] by simp
      have free1: "handle_free s1 = handle_free s"
        using handle_free_roots [OF roots_objs, of s1 s0] handle_free_roots [OF s0(2)] x by simp
      have last: "outcome (case y of (i, s) \<Rightarrow> bindE (release_ctx h t sh s) (\<lambda>s. Inr (i, s))) ?F (\<lambda>x. counted c d b (snd x) \<and> m_colorbuffers (snd x) = m_colorbuffers s)"
        if "counted (add_ref c sh) d b (snd y) \<and> m_colorbuffers (snd y) = m_colorbuffers s" for y :: "HandleType \<times> 'e renderer"
      proof -
        obtain i s3 where y: "y = (i, s3)" by (cases y)
        with that have "counted (add_ref c sh) d b s3" "m_colorbuffers s3 = m_colorbuffers s" by simp_all
        then show ?thesis unfolding y prod.case
          by (intro outcome_returns [OF counted_release_ctx [OF _ has_add_ref(1)]]) (auto dest: rootsD(4))
      qed
      have mid: "outcome (case oc of
               None \<Rightarrow> Inr (0, s1)
             | Some c \<Rightarrow>
                 let (a, s) = new_ctx c s1
                 in bindE (genHandle s) (\<lambda>(i, s). bindE (store_ctx h t i a s) (\<lambda>s.
                    bindE (release_ctx h t (Some a) s) (\<lambda>s. Inr (i, s))))) ?F (\<lambda>x. counted (add_ref c sh) d b (snd x) \<and> m_colorbuffers (snd x) = m_colorbuffers s)"
      proof (cases oc)
        case None
        with c1 m1 show ?thesis by simp
      next
        case (Some y)
        obtain a s2 where s2: "new_ctx y s1 = (a, s2)" by fastforce
        have c2: "counted (add_ref (add_ref c sh) (Some a)) d b s2" by (rule counted_new_ctx [OF c1 s2])
        have free: "handle_free s2 = handle_free s" using new_frames(1) [OF s2] free1 by simp
        show ?thesis
        proof (cases rule: genHandle_cases [of s2])
          case 1
          with Some s2 free show ?thesis by simp
        next
          case (2 i)
          let ?s3 = "s2\<lparr>s_nextHandle := i\<rparr>"
          have c3: "counted (add_ref (add_ref c sh) (Some a)) d b ?s3" using c2 by (simp add: counted_nextHandle)
          have "outcome (bindE (store_ctx h t i a ?s3) (\<lambda>s. bindE (release_ctx h t (Some a) s) (\<lambda>s. Inr (i, s)))) ?F
            (\<lambda>x. counted (add_ref c sh) d b (snd x) \<and> m_colorbuffers (snd x) = m_colorbuffers s)"
            by (rule outcome_returns [OF store_ctx_counted [OF c3 has_add_ref(1)]], elim conjE,
                rule outcome_returns [OF counted_release_ctx [OF _ has_add_ref(1)]])
               (use m1 new_frames(4) [OF s2] in \<open>auto dest: rootsD(4)\<close>)
          with Some s2 2 show ?thesis by simp
        qed
      qed
      show "outcome (case x of (oc, s) \<Rightarrow>
           bindE (case oc of
               None \<Rightarrow> Inr (0, s)
             | Some c \<Rightarrow>
                 let (a, s) = new_ctx c s
                 in bindE (genHandle s) (\<lambda>(i, s). bindE (store_ctx h t i a s) (\<lambda>s.
                    bindE (release_ctx h t (Some a) s) (\<lambda>s. Inr (i, s))))) (\<lambda>(i, s).
           bindE (release_ctx h t sh s) (\<lambda>s. Inr (i, s)))) ?F (\<lambda>x. counted c d b (snd x) \<and> m_colorbuffers (snd x) = m_colorbuffers s)"
        unfolding \<open>x = (oc, s1)\<close> prod.case by (rule outcome_bind [OF mid last])
    qed
  qed
  with c show ?thesis by (simp add: createRenderContext_def flip: sh_def)
qed

end
