(* ===== verification/Render_Binding.thy ===== *)
theory Render_Binding
  imports Render_Ops
begin

text \<open>
  The operations that move pointers between threads, surfaces and colour buffers, and the display.
\<close>

section \<open>Windows and colour buffers\<close>

lemma counted_core:
  assumes "counted c d b s"
    and "returns m (\<lambda>s'. core (\<lambda>a. ctx_roots s a + c a) (\<lambda>a. surf_roots s a + d a) (\<lambda>a. cb_roots s a + b a) s' \<and> roots s' = roots s)"
  shows "returns m (\<lambda>s'. counted c d b s' \<and> roots s' = roots s)"
  by (rule counted_op [OF assms])

lemma table_get:
  assumes "counted c d b s"
  shows "m_windows s i = Some a \<Longrightarrow> has (\<lambda>a. surf_roots s a + d a) (Some a)"
    and "m_colorbuffers s i = Some x \<Longrightarrow> has (\<lambda>a. cb_roots s a + b a) (Some (cb x))"
  using table_has(2,3) [OF countedD(3) [OF assms], of i] by simp_all

lemma thread_ctx: "counted c d b s \<Longrightarrow> has (\<lambda>a. ctx_roots s a + c a) (currContext (getRenderThreadInfo t s))"
  by (rule has_sum, rule thread_has(1), rule countedD)

text \<open>The surface of a window is drawn, and was never bound for drawing.\<close>

definition flush_unbound :: "HandleType \<Rightarrow> 'e renderer \<Rightarrow> bool" where
  "flush_unbound p_surface s \<longleftrightarrow>
     (case m_windows s p_surface of
        None \<Rightarrow> False
      | Some a \<Rightarrow> (case o_surf s a of None \<Rightarrow> False | Some (w, n) \<Rightarrow> blits s w \<and> m_drawContext w = None))"

lemma flushWindow_ok:
  assumes c: "counted c d b s" and f: "\<not> flush_unbound i s"
  shows "returns (flushWindowSurfaceColorBuffer h t i s) (\<lambda>x. counted c d b (snd x) \<and> m_colorbuffers (snd x) = m_colorbuffers s)"
proof (cases "m_windows s i")
  case None
  with c show ?thesis by (simp add: flushWindowSurfaceColorBuffer_def)
next
  case (Some a)
  note k = countedD [OF c]
  from core_surf [OF k(1) table_get(1) [OF c Some]] obtain w where w: "o_surf s a = Some (w, surf_roots s a + d a)" by blast
  with f Some have "blits s w \<longrightarrow> m_drawContext w \<noteq> None" by (auto simp: flush_unbound_def)
  from counted_core [OF c flush_core [OF k(1) table_get(1) [OF c Some] k(2) thread_ctx [OF c] w this]]
  have "returns (bindE (flushColorBuffer h t a s) (\<lambda>s. Inr (True, s))) (\<lambda>x. counted c d b (snd x) \<and> m_colorbuffers (snd x) = m_colorbuffers s)"
    by (rule returns_bind) (auto dest: rootsD(4))
  with Some show ?thesis by (simp add: flushWindowSurfaceColorBuffer_def)
qed

lemma flushWindow_null:
  assumes "fb_live s" "flush_unbound i s"
  shows "flushWindowSurfaceColorBuffer h t i s = Inl NullPointer"
  using assms(2) flush_null [OF _ _ _ assms(1)]
  by (auto simp: flush_unbound_def flushWindowSurfaceColorBuffer_def split: option.splits)

lemma setWindow_ok:
  assumes c: "counted c d b s"
  shows "returns (setWindowSurfaceColorBuffer h t w i s) (\<lambda>x. counted c d b (snd x) \<and> m_colorbuffers (snd x) = m_colorbuffers s)"
proof (cases "m_windows s w")
  case None
  with c show ?thesis by (simp add: setWindowSurfaceColorBuffer_def)
next
  case a: (Some a)
  show ?thesis
  proof (cases "m_colorbuffers s i")
    case None
    with a c show ?thesis by (simp add: setWindowSurfaceColorBuffer_def)
  next
    case (Some x)
    have "returns (bindE (setColorBuffer h t a (cb x) s) (\<lambda>s. Inr (True, s))) (\<lambda>x. counted c d b (snd x) \<and> m_colorbuffers (snd x) = m_colorbuffers s)"
      by (rule returns_bind [OF counted_core [OF c setColorBuffer_core [OF countedD(1) [OF c] table_get(1) [OF c a]
        table_get(2) [OF c Some] countedD(2) [OF c]]]]) (auto dest: rootsD(4))
    with a Some show ?thesis by (simp add: setWindowSurfaceColorBuffer_def)
  qed
qed

lemma update_ok:
  assumes c: "counted c d b s"
  shows "returns (updateColorBuffer h t i args s) (\<lambda>x. counted c d b (snd x) \<and> m_colorbuffers (snd x) = m_colorbuffers s)"
proof (cases "m_colorbuffers s i")
  case None
  with c show ?thesis by (simp add: updateColorBuffer_def)
next
  case (Some x)
  have "returns (bindE (subUpdate h t (cb x) args s) (\<lambda>s. Inr (True, s))) (\<lambda>x. counted c d b (snd x) \<and> m_colorbuffers (snd x) = m_colorbuffers s)"
  proof (rule returns_bind [OF subUpdate_core [OF countedD(1) [OF c] table_get(2) [OF c Some] countedD(2) [OF c]]])
    fix s' assume "objs s' = objs s"
    from counted_objs [OF this] objs_eqD(8) [OF this] c show "returns (Inr (True, s')) (\<lambda>x. counted c d b (snd x) \<and> m_colorbuffers (snd x) = m_colorbuffers s)" by simp
  qed
  with Some show ?thesis by (simp add: updateColorBuffer_def)
qed

lemma bind_image_ok:
  assumes c: "counted c d b s" and x: "m_colorbuffers s i = Some x"
  shows "returns (bind_image f target h t (cb x) s) (\<lambda>x. counted c d b (snd x) \<and> m_colorbuffers (snd x) = m_colorbuffers s)"
  by (rule returns_mono [OF bind_image_core [OF countedD(1) [OF c] table_get(2) [OF c x] thread_ctx [OF c]]])
     (use c counted_objs objs_eqD(8) in blast)

lemma bindColorBuffer_ok:
  assumes c: "counted c d b s"
  shows "returns (bindColorBufferToTexture h t i s) (\<lambda>x. counted c d b (snd x) \<and> m_colorbuffers (snd x) = m_colorbuffers s)"
    and "returns (bindColorBufferToRenderbuffer h t i s) (\<lambda>x. counted c d b (snd x) \<and> m_colorbuffers (snd x) = m_colorbuffers s)"
  using c bind_image_ok [OF c, of i]
  by (cases "m_colorbuffers s i";
      simp add: bindColorBufferToTexture_def bindToTexture_def bindColorBufferToRenderbuffer_def bindToRenderbuffer_def)+

section \<open>Posting\<close>

lemma posted_frame [simp]: "objs (s\<lparr>m_lastPostedColorBuffer := i\<rparr>) = objs s" "objs (s\<lparr>m_zRot := z\<rparr>) = objs s"
  "objs (s\<lparr>m_subWin := w\<rparr>) = objs s" "objs (s\<lparr>m_eglSurface := e\<rparr>) = objs s"
  by (simp_all add: objs_def)

lemma post_ok:
  fixes h :: "'e host"
  assumes c: "counted c d b s"
  shows "returns (post h t i s) (\<lambda>x. objs (snd x) = objs s)"
proof (cases "m_colorbuffers s i")
  case None
  then show ?thesis by (simp add: post_def)
next
  case (Some x)
  let ?s = "s\<lparr>m_lastPostedColorBuffer := i\<rparr>"
  obtain ok s1 where s1: "bindSubwin_locked h t ?s = (ok, s1)" by fastforce
  then have o1: "objs s1 = objs s" using bindSubwin_locked_frame [OF s1] by simp
  have draw: "returns (bindE (ColorBuffer_post h t (cb x) s2) k) (\<lambda>x. objs (snd x) = objs s)"
    if s2: "objs s2 = objs s" and k: "\<And>y. objs (snd y) = objs s \<Longrightarrow> returns (k y) (\<lambda>x. objs (snd x) = objs s)"
    for s2 :: "'e renderer" and k :: "_ \<Rightarrow> fault + bool \<times> 'e renderer"
  proof (rule returns_bind [OF ColorBuffer_post_core])
    have c2: "counted c d b s2" using c counted_objs [OF s2] by simp
    show "core (\<lambda>a. ctx_roots s2 a + c a) (\<lambda>a. surf_roots s2 a + d a) (\<lambda>a. cb_roots s2 a + b a) s2" by (rule countedD [OF c2])
    show "has (\<lambda>a. cb_roots s2 a + b a) (Some (cb x))"
      using Some by (intro table_get(2) [OF c2, of i]) (simp add: objs_eqD [OF s2])
    show "returns (k y) (\<lambda>x. objs (snd x) = objs s)" if "objs (snd y) = objs s2" for y
      by (rule k) (simp add: that s2)
  qed
  show ?thesis
    unfolding post_def Some option.case Let_def case_prod_beta
    using s1 o1 by (auto simp: case_prod_beta simp del: do_calls.simps intro!: draw)
qed

lemma repost_ok: "counted c d b s \<Longrightarrow> returns (repost h t s) (\<lambda>x. objs (snd x) = objs s)"
  by (auto simp: repost_def intro: post_ok)

lemma setDisplayRotation_ok:
  assumes c: "counted c d b s"
  shows "returns (setDisplayRotation h t z s) (\<lambda>s'. counted c d b s' \<and> m_colorbuffers s' = m_colorbuffers s)"
proof -
  have c': "counted c d b (s\<lparr>m_zRot := z\<rparr>)" using c counted_objs [of "s\<lparr>m_zRot := z\<rparr>" s] by simp
  show ?thesis
    unfolding setDisplayRotation_def
  proof (rule returns_bind [OF repost_ok [OF c']])
    fix x assume "objs (snd x) = objs (s\<lparr>m_zRot := z\<rparr>)"
    from counted_objs [OF this] objs_eqD(8) [OF this] c'
    show "returns (case x of (_, s) \<Rightarrow> Inr s) (\<lambda>s'. counted c d b s' \<and> m_colorbuffers s' = m_colorbuffers s)"
      by (simp add: case_prod_beta)
  qed
qed

lemma setupSubWindow_ok:
  fixes h :: "'e host"
  assumes c: "counted c d b s"
  shows "returns (setupSubWindow h t pos w ht z s) (\<lambda>x. objs (snd x) = objs s)"
proof -
  have shown: "returns (bindE (post h t i s2) (\<lambda>x. Inr (True, snd (unbind_locked h t (snd x))))) (\<lambda>x. objs (snd x) = objs s)"
    if s2: "objs s2 = objs s" for s2 :: "'e renderer" and i
  proof -
    have "counted c d b s2" using c counted_objs [OF s2] by simp
    then show ?thesis by (rule returns_bind [OF post_ok]) (simp add: s2 case_prod_beta)
  qed
  show ?thesis
    unfolding setupSubWindow_def Let_def case_prod_beta
    by (auto simp del: do_calls.simps intro!: shown)
qed

lemma removeSubWindow_frame [simp]: "objs (snd (removeSubWindow h t s)) = objs s"
proof -
  have u: "objs (s'\<lparr>m_eglSurface := e, m_subWin := w\<rparr>) = objs s'" for s' :: "'a renderer" and e w by (simp add: objs_def)
  show ?thesis by (simp add: removeSubWindow_def Let_def case_prod_beta u del: do_calls.simps)
qed

section \<open>Binding a context\<close>

lemma surface_of_ok: "core kc ks kb s \<Longrightarrow> has ks p \<Longrightarrow> \<exists>n. surface_of p s = Inr n"
  by (cases p) (auto simp: surface_of_def elim: core_surf)

lemma context_of_ok: "core kc ks kb s \<Longrightarrow> has kc p \<Longrightarrow> \<exists>n. context_of p s = Inr n"
proof (cases p)
  case (Some a)
  assume "core kc ks kb s" "has kc p"
  then obtain c where "sp_get (Some a) (o_ctx s) = Inr c" using Some has_add by (metis core_ctx_get)
  with Some show ?thesis by (simp add: context_of_def)
qed (simp add: context_of_def)

lemma bind_surfaces_ok:
  fixes h :: "'e host"
  assumes c: "counted c d b s" and p: "has c ctx" "has d draw" "has d read"
  shows "returns (bind_surfaces h t differ ctx draw read s) (\<lambda>s'. counted c d b s' \<and> roots s' = roots s)"
proof (cases "draw = None \<or> read = None")
  case True
  with c show ?thesis by (auto simp: bind_surfaces_def split: option.splits)
next
  case False
  then obtain x y where xy: "draw = Some x" "read = Some y" by auto
  have bind: "returns (WindowSurface_bind h t a ctx ty s1) (\<lambda>s'. counted c d b s' \<and> roots s' = roots s1)"
    if c1: "counted c d b s1" and a: "has d (Some a)" for s1 :: "'e renderer" and a ty
    by (rule counted_core [OF c1 WindowSurface_bind_core [OF countedD(1) [OF c1] has_add [OF a] has_add [OF p(1)] countedD(2) [OF c1]]])
  show ?thesis
  proof (cases differ)
    case False
    with bind [OF c, of x] p xy show ?thesis by (simp add: bind_surfaces_def)
  next
    case True
    have "returns (bindE (WindowSurface_bind h t x ctx SURFACE_BIND_DRAW s) (WindowSurface_bind h t y ctx SURFACE_BIND_READ))
      (\<lambda>s'. counted c d b s' \<and> roots s' = roots s)"
    proof (rule returns_bind [OF bind [OF c]], use p xy in simp, elim conjE)
      fix s1 :: "'e renderer" assume "counted c d b s1" "roots s1 = roots s"
      with bind [of s1 y] p xy show "returns (WindowSurface_bind h t y ctx SURFACE_BIND_READ s1) (\<lambda>s'. counted c d b s' \<and> roots s' = roots s)"
        by simp
    qed
    with True xy show ?thesis by (simp add: bind_surfaces_def)
  qed
qed

lemma bind_targets_has:
  assumes "counted c d b s" "bind_targets pc pd pr s = Some (ctx, draw, read)"
  shows "has (\<lambda>a. ctx_roots s a + c a) ctx" "has (\<lambda>a. surf_roots s a + d a) draw" "has (\<lambda>a. surf_roots s a + d a) read"
proof -
  note f = table_has(1,2) [OF countedD(3) [OF assms(1)], THEN has_sum]
  show "has (\<lambda>a. ctx_roots s a + c a) ctx" "has (\<lambda>a. surf_roots s a + d a) draw" "has (\<lambda>a. surf_roots s a + d a) read"
    using assms(2) f(1) [of c pc] f(2) [of d pd] f(2) [of d pr] by (auto simp: bind_targets_def split: if_splits)
qed

text \<open>What a call that binds leaves in the thread: the pointers behind the handles, and for an unbind operation
  no context and the surfaces that were bound.\<close>

definition bound_info :: "nat \<Rightarrow> addr option \<times> addr option \<times> addr option \<Rightarrow> 'e renderer \<Rightarrow> thread_info" where
  "bound_info t z s =
     (let (ctx, draw, read) = z
      in if draw = None \<and> read = None then (getRenderThreadInfo t s)\<lparr>currContext := ctx\<rparr>
         else \<lparr>currContext = ctx, currDrawSurf = draw, currReadSurf = read\<rparr>)"

lemma release_locals:
  fixes h :: "'e host"
  assumes "counted (add_ref none ctx) (add_ref (add_ref none draw) read) none s"
  shows "returns (bindE (release_ctx h t ctx s) (\<lambda>s. bindE (release_surf h t read s) (\<lambda>s.
      bindE (release_surf h t draw s) (\<lambda>s. Inr (True, s))))) (\<lambda>x. counted none none none (snd x) \<and> roots (snd x) = roots s)"
proof (rule returns_bind [OF counted_release_ctx [OF assms has_add_ref(1)]], elim conjE)
  let ?d = "add_ref (add_ref none draw) read"
  fix s8 :: "'e renderer" assume "counted (take_ref (add_ref none ctx) ctx) ?d none s8" and r8: "roots s8 = roots s"
  then have c8: "counted none ?d none s8" by simp
  show "returns (bindE (release_surf h t read s8) (\<lambda>s. bindE (release_surf h t draw s) (\<lambda>s. Inr (True, s))))
    (\<lambda>x. counted none none none (snd x) \<and> roots (snd x) = roots s)"
  proof (rule returns_bind [OF counted_release_surf [OF c8 has_add_ref(1)]], elim conjE)
    fix s9 :: "'e renderer" assume "counted none (take_ref ?d read) none s9" and r9: "roots s9 = roots s8"
    then have c9: "counted none (add_ref none draw) none s9" by simp
    show "returns (bindE (release_surf h t draw s9) (\<lambda>s. Inr (True, s))) (\<lambda>x. counted none none none (snd x) \<and> roots (snd x) = roots s)"
      by (rule returns_bind [OF counted_release_surf [OF c9 has_add_ref(1)]]) (simp add: r8 r9)
  qed
qed

text \<open>The three fields of the thread and the end of the call.\<close>

lemma set_thread_ok:
  fixes h :: "'e host"
  assumes c: "counted (add_ref none ctx) (add_ref (add_ref none draw) read) none s"
  shows "returns (bindE (set_currContext h t ctx s) (\<lambda>s. bindE (set_currDrawSurf h t draw s) (\<lambda>s.
      bindE (set_currReadSurf h t read s) (\<lambda>s. bindE (release_ctx h t ctx s) (\<lambda>s. bindE (release_surf h t read s) (\<lambda>s.
      bindE (release_surf h t draw s) (\<lambda>s. Inr (True, s)))))))) (\<lambda>x. counted none none none (snd x) \<and>
        m_colorbuffers (snd x) = m_colorbuffers s \<and>
        getRenderThreadInfo t (snd x) = \<lparr>currContext = ctx, currDrawSurf = draw, currReadSurf = read\<rparr>)"
    (is "returns _ ?P")
proof (rule returns_bind [OF set_currContext_counted [OF c has_add_ref(1)]], elim conjE)
  let ?c = "add_ref none ctx" and ?d = "add_ref (add_ref none draw) read"
  fix s5 :: "'e renderer" assume c5: "counted ?c ?d none s5" and m5: "m_colorbuffers s5 = m_colorbuffers s"
    and t5: "getRenderThreadInfo t s5 = (getRenderThreadInfo t s)\<lparr>currContext := ctx\<rparr>"
  have "has ?d draw" by simp
  then show "returns (bindE (set_currDrawSurf h t draw s5) (\<lambda>s. bindE (set_currReadSurf h t read s) (\<lambda>s.
    bindE (release_ctx h t ctx s) (\<lambda>s. bindE (release_surf h t read s) (\<lambda>s. bindE (release_surf h t draw s) (\<lambda>s. Inr (True, s))))))) ?P"
  proof (rule returns_bind [OF set_currDrawSurf_counted [OF c5]], elim conjE)
    fix s6 :: "'e renderer" assume c6: "counted ?c ?d none s6" and m6: "m_colorbuffers s6 = m_colorbuffers s5"
      and t6: "getRenderThreadInfo t s6 = (getRenderThreadInfo t s5)\<lparr>currDrawSurf := draw\<rparr>"
    show "returns (bindE (set_currReadSurf h t read s6) (\<lambda>s. bindE (release_ctx h t ctx s) (\<lambda>s.
      bindE (release_surf h t read s) (\<lambda>s. bindE (release_surf h t draw s) (\<lambda>s. Inr (True, s)))))) ?P"
    proof (rule returns_bind [OF set_currReadSurf_counted [OF c6 has_add_ref(1)]], elim conjE)
      fix s7 :: "'e renderer" assume c7: "counted ?c ?d none s7" and m7: "m_colorbuffers s7 = m_colorbuffers s6"
        and t7: "getRenderThreadInfo t s7 = (getRenderThreadInfo t s6)\<lparr>currReadSurf := read\<rparr>"
      show "returns (bindE (release_ctx h t ctx s7) (\<lambda>s. bindE (release_surf h t read s) (\<lambda>s.
        bindE (release_surf h t draw s) (\<lambda>s. Inr (True, s))))) ?P"
        by (rule returns_mono [OF release_locals [OF c7]])
           (use m5 m6 m7 t5 t6 t7 in \<open>auto dest: rootsD(4) getThreadInfo_roots [where t = t]\<close>)
    qed
  qed
qed

lemma bindContext_bound:
  fixes h :: "'e host"
  assumes c: "counted none none none s"
  shows "returns (bindContext h t pc pd pr s) (\<lambda>x. counted none none none (snd x) \<and> m_colorbuffers (snd x) = m_colorbuffers s \<and>
    (if fst x then \<exists>z. bind_targets pc pd pr s = Some z \<and> getRenderThreadInfo t (snd x) = bound_info t z s else objs (snd x) = objs s))"
proof (cases "bind_targets pc pd pr s")
  case None
  with c show ?thesis by (simp add: bindContext_def)
next
  case (Some z)
  then obtain ctx draw read where z: "bind_targets pc pd pr s = Some (ctx, draw, read)" by (cases z) auto
  note k = countedD [OF c] and p = bind_targets_has [OF c z]
  from surface_of_ok [OF k(1) p(2)] surface_of_ok [OF k(1) p(3)] context_of_ok [OF k(1) p(1)]
  obtain n1 n2 n3 where n: "surface_of draw s = Inr n1" "surface_of read s = Inr n2" "context_of ctx s = Inr n3" by blast
  obtain ok s1 where s1: "MakeCurrent h t n1 n2 n3 s = (ok, s1)" by fastforce
  have o1: "objs s1 = objs s" using s1 by (rule frame)
  have c1: "counted none none none s1" using c counted_objs [OF o1] by simp
  define unbind where "unbind \<longleftrightarrow> draw = None \<and> read = None"
  define draw' where "draw' = (if unbind then currDrawSurf (getRenderThreadInfo t s1) else draw)"
  define read' where "read' = (if unbind then currReadSurf (getRenderThreadInfo t s1) else read)"
  have r1: "roots s1 = roots s" using o1 by (rule roots_objs)
  have info: "bound_info t (ctx, draw, read) s = \<lparr>currContext = ctx, currDrawSurf = draw', currReadSurf = read'\<rparr>"
    by (simp add: bound_info_def draw'_def read'_def unbind_def getThreadInfo_roots [OF r1])
  have p1: "has (\<lambda>a. ctx_roots s1 a + none a) ctx" "has (\<lambda>a. surf_roots s1 a + none a) draw'" "has (\<lambda>a. surf_roots s1 a + none a) read'"
    using p thread_has(2,3) [OF countedD(3) [OF c1], of t] by (simp_all add: draw'_def read'_def roots_roots [OF r1])
  define step where "step = bindE (use_ctx ctx s1) (\<lambda>s. bindE (use_surf draw' s) (\<lambda>s. bindE (use_surf read' s) (\<lambda>s.
                  bindE (bind_surfaces h t (pr \<noteq> pd) ctx draw' read' s) (\<lambda>s.
                  bindE (set_currContext h t ctx s) (\<lambda>s.
                  bindE (set_currDrawSurf h t draw' s) (\<lambda>s.
                  bindE (set_currReadSurf h t read' s) (\<lambda>s.
                  bindE (release_ctx h t ctx s) (\<lambda>s.
                  bindE (release_surf h t read' s) (\<lambda>s.
                  bindE (release_surf h t draw' s) (\<lambda>s. Inr (True, s)))))))))))"
  let ?P = "\<lambda>x. counted none none none (snd x) \<and> m_colorbuffers (snd x) = m_colorbuffers s \<and>
    getRenderThreadInfo t (snd x) = bound_info t (ctx, draw, read) s"
  have "returns step ?P"
    unfolding step_def
    apply (rule returns_bind [OF counted_use_ctx [OF c1 p1(1)]], elim conjE)
    subgoal for s2
      apply (rule returns_bind [OF counted_use_surf], assumption, use p1(2) in \<open>simp add: roots_roots [of s2 s1]\<close>, elim conjE)
      subgoal for s3
        apply (rule returns_bind [OF counted_use_surf], assumption)
        subgoal using p1(3) by (simp add: roots_roots [of s3 s2] roots_roots [of s2 s1] has_def)
        subgoal by (rule returns_bind [OF bind_surfaces_ok], elim conjE, assumption)
          (use rootsD(4) [OF r1] info in \<open>auto intro!: returns_mono [OF set_thread_ok] dest!: rootsD(4)\<close>)
        done
      done
    done
  then have "returns step (\<lambda>x. counted none none none (snd x) \<and> m_colorbuffers (snd x) = m_colorbuffers s \<and> fst x \<and>
      getRenderThreadInfo t (snd x) = bound_info t (ctx, draw, read) s)"
    unfolding step_def by (auto simp: returns_iff bindE_eq_Inr)
  moreover have "bindContext h t pc pd pr s = (if \<not> ok then Inr (False, s1) else step)"
    unfolding bindContext_def z option.case prod.case n bindE_simps s1 Let_def step_def draw'_def read'_def unbind_def ..
  ultimately show ?thesis using c1 rootsD(4) [OF r1] o1 z by (auto elim: returns_mono)
qed

lemma bindContext_ok:
  assumes "counted none none none s"
  shows "returns (bindContext h t pc pd pr s) (\<lambda>x. counted none none none (snd x) \<and> m_colorbuffers (snd x) = m_colorbuffers s)"
  by (rule returns_mono [OF bindContext_bound [OF assms]]) simp

end
