(* ===== verification/Render_Control.thy ===== *)
theory Render_Control
  imports Render_Binding
begin

text \<open>
  The render control calls of \<open>RenderControl.cpp\<close>, the other entries into the renderer, and its runs.

  A run is any sequence of calls from any number of render threads, of requests of the emulator's
  window and of ends of threads. The calls that only answer a query are in \<open>Render_Config\<close>.
\<close>

section \<open>The calls\<close>

definition rcCreateContext :: "'e host \<Rightarrow> nat \<Rightarrow> 32 word \<Rightarrow> HandleType \<Rightarrow> 32 word \<Rightarrow> 'e renderer \<Rightarrow> fault + HandleType \<times> 'e renderer" where
  "rcCreateContext h t config share glVersion s =
     (if \<not> fb_live s then Inr (0, s) else createRenderContext h t config share (glVersion = 2) s)"

definition rcDestroyContext :: "'e host \<Rightarrow> nat \<Rightarrow> HandleType \<Rightarrow> 'e renderer \<Rightarrow> fault + 'e renderer" where
  "rcDestroyContext h t context s = (if \<not> fb_live s then Inr s else DestroyRenderContext h t context s)"

definition rcCreateWindowSurface :: "'e host \<Rightarrow> nat \<Rightarrow> 32 word \<Rightarrow> 32 word \<Rightarrow> 32 word \<Rightarrow> 'e renderer \<Rightarrow> fault + HandleType \<times> 'e renderer" where
  "rcCreateWindowSurface h t config width height s =
     (if \<not> fb_live s then Inr (0, s) else createWindowSurface h t config width height s)"

definition rcDestroyWindowSurface :: "'e host \<Rightarrow> nat \<Rightarrow> HandleType \<Rightarrow> 'e renderer \<Rightarrow> fault + 'e renderer" where
  "rcDestroyWindowSurface h t windowSurface s = (if \<not> fb_live s then Inr s else DestroyWindowSurface h t windowSurface s)"

definition rcCreateColorBuffer :: "'e host \<Rightarrow> nat \<Rightarrow> 32 word \<Rightarrow> 32 word \<Rightarrow> 32 word \<Rightarrow> 'e renderer \<Rightarrow> fault + HandleType \<times> 'e renderer" where
  "rcCreateColorBuffer h t width height internalFormat s =
     (if \<not> fb_live s then Inr (0, s) else createColorBuffer h t width height internalFormat s)"

definition rcOpenColorBuffer :: "HandleType \<Rightarrow> 'e renderer \<Rightarrow> 'e renderer" where
  "rcOpenColorBuffer colorbuffer s = (if \<not> fb_live s then s else openColorBuffer colorbuffer s)"

definition rcCloseColorBuffer :: "'e host \<Rightarrow> nat \<Rightarrow> HandleType \<Rightarrow> 'e renderer \<Rightarrow> fault + 'e renderer" where
  "rcCloseColorBuffer h t colorbuffer s = (if \<not> fb_live s then Inr s else closeColorBuffer h t colorbuffer s)"

definition rcFlushWindowColorBuffer :: "'e host \<Rightarrow> nat \<Rightarrow> HandleType \<Rightarrow> 'e renderer \<Rightarrow> fault + int \<times> 'e renderer" where
  "rcFlushWindowColorBuffer h t windowSurface s =
     (if \<not> fb_live s then Inr (-1, s)
      else bindE (flushWindowSurfaceColorBuffer h t windowSurface s) (\<lambda>(_, s). Inr (0, s)))"

definition rcSetWindowColorBuffer :: "'e host \<Rightarrow> nat \<Rightarrow> HandleType \<Rightarrow> HandleType \<Rightarrow> 'e renderer \<Rightarrow> fault + 'e renderer" where
  "rcSetWindowColorBuffer h t windowSurface colorBuffer s =
     (if \<not> fb_live s then Inr s
      else bindE (setWindowSurfaceColorBuffer h t windowSurface colorBuffer s) (\<lambda>(_, s). Inr s))"

definition rcMakeCurrent :: "'e host \<Rightarrow> nat \<Rightarrow> HandleType \<Rightarrow> HandleType \<Rightarrow> HandleType \<Rightarrow> 'e renderer \<Rightarrow> fault + bool \<times> 'e renderer" where
  "rcMakeCurrent h t context drawSurf readSurf s =
     (if \<not> fb_live s then Inr (False, s) else bindContext h t context drawSurf readSurf s)"

definition rcFBPost :: "'e host \<Rightarrow> nat \<Rightarrow> HandleType \<Rightarrow> 'e renderer \<Rightarrow> fault + 'e renderer" where
  "rcFBPost h t colorBuffer s = (if \<not> fb_live s then Inr s else bindE (post h t colorBuffer s) (\<lambda>(_, s). Inr s))"

definition rcBindTexture :: "'e host \<Rightarrow> nat \<Rightarrow> HandleType \<Rightarrow> 'e renderer \<Rightarrow> fault + 'e renderer" where
  "rcBindTexture h t colorBuffer s =
     (if \<not> fb_live s then Inr s else bindE (bindColorBufferToTexture h t colorBuffer s) (\<lambda>(_, s). Inr s))"

definition rcBindRenderbuffer :: "'e host \<Rightarrow> nat \<Rightarrow> HandleType \<Rightarrow> 'e renderer \<Rightarrow> fault + 'e renderer" where
  "rcBindRenderbuffer h t colorBuffer s =
     (if \<not> fb_live s then Inr s else bindE (bindColorBufferToRenderbuffer h t colorBuffer s) (\<lambda>(_, s). Inr s))"

definition rcUpdateColorBuffer :: "'e host \<Rightarrow> nat \<Rightarrow> HandleType \<Rightarrow> int list \<Rightarrow> 'e renderer \<Rightarrow> fault + int \<times> 'e renderer" where
  "rcUpdateColorBuffer h t colorBuffer args s =
     (if \<not> fb_live s then Inr (-1, s)
      else bindE (updateColorBuffer h t colorBuffer args s) (\<lambda>(_, s). Inr (0, s)))"

text \<open>What the decoder calls, with the arguments of the packet; the answer is written to the stream.\<close>

datatype rc_call =
  CreateContext "32 word" HandleType "32 word"
| DestroyContext HandleType
| CreateWindowSurface "32 word" "32 word" "32 word"
| DestroyWindow HandleType
| CreateColorBuffer "32 word" "32 word" "32 word"
| OpenColorBuffer HandleType
| CloseColorBuffer HandleType
| FlushWindow HandleType
| SetWindowColorBuffer HandleType HandleType
| MakeCurrentCall HandleType HandleType HandleType
| FBPost HandleType
| BindTexture HandleType
| BindRenderbuffer HandleType
| UpdateColorBuffer HandleType "int list"

definition no_answer :: "fault + 'e renderer \<Rightarrow> fault + int option \<times> 'e renderer" where
  "no_answer m = bindE m (\<lambda>s. Inr (None, s))"

definition handle_answer :: "fault + HandleType \<times> 'e renderer \<Rightarrow> fault + int option \<times> 'e renderer" where
  "handle_answer m = bindE m (\<lambda>(i, s). Inr (Some (uint i), s))"

fun rc_step :: "'e host \<Rightarrow> nat \<Rightarrow> rc_call \<Rightarrow> 'e renderer \<Rightarrow> fault + int option \<times> 'e renderer" where
  "rc_step h t (CreateContext config share v) s = handle_answer (rcCreateContext h t config share v s)"
| "rc_step h t (DestroyContext c) s = no_answer (rcDestroyContext h t c s)"
| "rc_step h t (CreateWindowSurface config w ht) s = handle_answer (rcCreateWindowSurface h t config w ht s)"
| "rc_step h t (DestroyWindow w) s = no_answer (rcDestroyWindowSurface h t w s)"
| "rc_step h t (CreateColorBuffer w ht f) s = handle_answer (rcCreateColorBuffer h t w ht f s)"
| "rc_step h t (OpenColorBuffer c) s = no_answer (Inr (rcOpenColorBuffer c s))"
| "rc_step h t (CloseColorBuffer c) s = no_answer (rcCloseColorBuffer h t c s)"
| "rc_step h t (FlushWindow w) s = bindE (rcFlushWindowColorBuffer h t w s) (\<lambda>(r, s). Inr (Some r, s))"
| "rc_step h t (SetWindowColorBuffer w c) s = no_answer (rcSetWindowColorBuffer h t w c s)"
| "rc_step h t (MakeCurrentCall c d r) s = bindE (rcMakeCurrent h t c d r s) (\<lambda>(ok, s). Inr (Some (of_bool ok), s))"
| "rc_step h t (FBPost c) s = no_answer (rcFBPost h t c s)"
| "rc_step h t (BindTexture c) s = no_answer (rcBindTexture h t c s)"
| "rc_step h t (BindRenderbuffer c) s = no_answer (rcBindRenderbuffer h t c s)"
| "rc_step h t (UpdateColorBuffer c args) s = bindE (rcUpdateColorBuffer h t c args s) (\<lambda>(r, s). Inr (Some r, s))"

section \<open>Threads and the window\<close>

text \<open>The end of \<open>RenderThread::Main\<close>. The information of the thread is a plain pointer on Linux and is
  never deleted there; elsewhere the thread's storage deletes it, the last declared member first.\<close>

definition thread_end :: "'e host \<Rightarrow> nat \<Rightarrow> 'e renderer \<Rightarrow> 'e renderer" where
  "thread_end h t s =
     (let (r, s) = do_call h t (Egl ''eglGetCurrentDisplay'' []) s
      in if ret r \<noteq> 0 then do_calls h t [Egl ''eglMakeCurrent'' [ret r, 0, 0, 0]] s else s)"

definition tlsDestruct :: "'e host \<Rightarrow> nat \<Rightarrow> 'e renderer \<Rightarrow> fault + 'e renderer" where
  "tlsDestruct h t s =
     (case r_threads s t of
        None \<Rightarrow> Inr s
      | Some ti \<Rightarrow>
          let s = s\<lparr>r_threads := (r_threads s)(t := None)\<rparr>
          in bindE (release_surf h t (currReadSurf ti) s) (\<lambda>s. bindE (release_surf h t (currDrawSurf ti) s) (release_ctx h t (currContext ti))))"

datatype render_event =
  Call rc_call
| Rotate int
| Repost
| SetupWindow "int list" int int int
| RemoveWindow
| EndLinux
| EndOther

fun event_step :: "'e host \<Rightarrow> nat \<Rightarrow> render_event \<Rightarrow> 'e renderer \<Rightarrow> fault + 'e renderer" where
  "event_step h t (Call c) s = bindE (rc_step h t c s) (\<lambda>(_, s). Inr s)"
| "event_step h t (Rotate z) s = setDisplayRotation h t z s"
| "event_step h t Repost s = bindE (repost h t s) (\<lambda>(_, s). Inr s)"
| "event_step h t (SetupWindow pos w ht z) s = bindE (setupSubWindow h t pos w ht z s) (\<lambda>(_, s). Inr s)"
| "event_step h t RemoveWindow s = Inr (snd (removeSubWindow h t s))"
| "event_step h t EndLinux s = Inr (thread_end h t s)"
| "event_step h t EndOther s = tlsDestruct h t (thread_end h t s)"

text \<open>The state after \<open>initialize\<close>: no objects, the tables empty.\<close>

definition started :: "'e renderer \<Rightarrow> bool" where
  "started s \<longleftrightarrow> fb_live s \<and> o_ctx s = Map.empty \<and> o_surf s = Map.empty \<and> o_cb s = Map.empty \<and> r_threads s = Map.empty \<and>
     m_contexts s = Map.empty \<and> m_windows s = Map.empty \<and> m_colorbuffers s = Map.empty"

inductive renders :: "'e host \<Rightarrow> 'e renderer \<Rightarrow> bool" for h where
  renders_start: "started s \<Longrightarrow> renders h s"
| renders_step: "renders h s \<Longrightarrow> event_step h t e s = Inr s' \<Longrightarrow> renders h s'"

inductive_cases renders_cases: "renders h s"

section \<open>Counters along a run\<close>

lemma thread_end_frame [simp]: "objs (thread_end h t s) = objs s"
  by (simp add: thread_end_def case_prod_beta del: do_calls.simps)

lemma counted_drop_thread:
  assumes "counted c d b s" "r_threads s t = Some ti"
  shows "counted (add_ref c (currContext ti)) (add_ref (add_ref d (currDrawSurf ti)) (currReadSurf ti)) b
    (s\<lparr>r_threads := (r_threads s)(t := None)\<rparr>)"
proof -
  have ft: "finite (dom (r_threads s))" using countedD(3) [OF assms(1)] by (simp add: tables_finite_def)
  have "(\<lambda>a. refs Some (m_contexts s) a + refs currContext ((r_threads s)(t := None)) a + add_ref c (currContext ti) a) =
      (\<lambda>a. ctx_roots s a + c a)"
    by (intro ext) (use refs_remove [OF ft, of currContext _ t] assms(2) in \<open>auto simp: ctx_roots_def add_ref_def\<close>)
  moreover have "(\<lambda>a. refs Some (m_windows s) a + refs currDrawSurf ((r_threads s)(t := None)) a + refs currReadSurf ((r_threads s)(t := None)) a +
      add_ref (add_ref d (currDrawSurf ti)) (currReadSurf ti) a) = (\<lambda>a. surf_roots s a + d a)"
    by (intro ext) (use refs_remove [OF ft, of currDrawSurf _ t] refs_remove [OF ft, of currReadSurf _ t] assms(2)
      in \<open>auto simp: surf_roots_def add_ref_def\<close>)
  ultimately show ?thesis using assms(1)
    by (auto simp: counted_def core_def tables_finite_def ctx_roots_def surf_roots_def cb_roots_def)
qed

lemma tlsDestruct_ok:
  fixes h :: "'e host"
  assumes c: "counted c d b s"
  shows "returns (tlsDestruct h t s) (\<lambda>s'. counted c d b s' \<and> m_colorbuffers s' = m_colorbuffers s)"
proof (cases "r_threads s t")
  case None
  with c show ?thesis by (simp add: tlsDestruct_def)
next
  case (Some ti)
  have "returns (bindE (release_surf h t (currReadSurf ti) (s\<lparr>r_threads := (r_threads s)(t := None)\<rparr>))
      (\<lambda>s. bindE (release_surf h t (currDrawSurf ti) s) (release_ctx h t (currContext ti))))
      (\<lambda>s'. counted c d b s' \<and> m_colorbuffers s' = m_colorbuffers s)"
  proof (rule returns_bind [OF counted_release_surf [OF counted_drop_thread [OF c Some] has_add_ref(1)]], elim conjE)
    fix s1 :: "'e renderer"
    assume "counted (add_ref c (currContext ti)) (take_ref (add_ref (add_ref d (currDrawSurf ti)) (currReadSurf ti)) (currReadSurf ti)) b s1"
      and r1: "roots s1 = roots (s\<lparr>r_threads := (r_threads s)(t := None)\<rparr>)"
    then have c1: "counted (add_ref c (currContext ti)) (add_ref d (currDrawSurf ti)) b s1" by simp
    show "returns (bindE (release_surf h t (currDrawSurf ti) s1) (release_ctx h t (currContext ti)))
      (\<lambda>s'. counted c d b s' \<and> m_colorbuffers s' = m_colorbuffers s)"
    proof (rule returns_bind [OF counted_release_surf [OF c1 has_add_ref(1)]], elim conjE)
      fix s2 :: "'e renderer"
      assume "counted (add_ref c (currContext ti)) (take_ref (add_ref d (currDrawSurf ti)) (currDrawSurf ti)) b s2" and r2: "roots s2 = roots s1"
      then have c2: "counted (add_ref c (currContext ti)) d b s2" by simp
      show "returns (release_ctx h t (currContext ti) s2) (\<lambda>s'. counted c d b s' \<and> m_colorbuffers s' = m_colorbuffers s)"
        by (rule returns_mono [OF counted_release_ctx [OF c2 has_add_ref(1)]])
           (use rootsD(4) [OF r1] rootsD(4) [OF r2] in \<open>auto dest: rootsD(4)\<close>)
    qed
  qed
  with Some show ?thesis by (simp add: tlsDestruct_def)
qed

lemma started_counted: "started s \<Longrightarrow> counted none none none s"
  by (simp add: started_def counted_def core_def tables_finite_def ctx_roots_def surf_roots_def cb_roots_def wctx_def wcb_def
      heap_ok_def ref_count_def)

text \<open>The faults of an event.\<close>

definition event_fault :: "render_event \<Rightarrow> 'e renderer \<Rightarrow> fault \<Rightarrow> bool" where
  "event_fault e s f \<longleftrightarrow>
     (case e of
        Call (FlushWindow w) \<Rightarrow> f = NullPointer \<and> flush_unbound w s
      | Call (CreateColorBuffer w ht fmt) \<Rightarrow> f = Panic \<and> too_big w ht fmt \<or> f = Hang \<and> \<not> handle_free s
      | Call (CreateContext c sh v) \<Rightarrow> f = Hang \<and> \<not> handle_free s
      | Call (CreateWindowSurface c w ht) \<Rightarrow> f = Hang \<and> \<not> handle_free s
      | _ \<Rightarrow> False)"

lemma outcome_answer:
  "outcome m F (\<lambda>x. Q (Some (uint (fst x))) (snd x)) \<Longrightarrow> outcome (handle_answer m) F (\<lambda>x. Q (fst x) (snd x))"
  "outcome m' F (Q None) \<Longrightarrow> outcome (no_answer m') F (\<lambda>x. Q (fst x) (snd x))"
  by (cases m; cases m'; auto simp: handle_answer_def no_answer_def case_prod_beta)+

lemma outcome_snd:
  "outcome m F (\<lambda>x. Q (snd x)) \<Longrightarrow> outcome (bindE m (\<lambda>(_, s). Inr s)) F Q"
  "outcome m' F (\<lambda>x. R (Some (g (fst x))) (snd x)) \<Longrightarrow> outcome (bindE m' (\<lambda>(r, s). Inr (Some (g r), s))) F (\<lambda>x. R (fst x) (snd x))"
  by (cases m; cases m'; auto simp: case_prod_beta)+

text \<open>The table of colour buffers after a call, from its answer.\<close>

fun table_after :: "rc_call \<Rightarrow> int option \<Rightarrow> (HandleType \<rightharpoonup> color_buffer_ref) \<Rightarrow> (HandleType \<rightharpoonup> color_buffer_ref) \<Rightarrow> bool" where
  "table_after (CreateColorBuffer w ht f) r T T' \<longleftrightarrow>
     (case r of
        None \<Rightarrow> False
      | Some n \<Rightarrow> if n = 0 then T' = T else \<exists>a. T' = T(word_of_int n \<mapsto> \<lparr>cb = a, refcount = 1\<rparr>))"
| "table_after (OpenColorBuffer i) r T T' \<longleftrightarrow>
     T' = (case T i of None \<Rightarrow> T | Some x \<Rightarrow> T(i \<mapsto> x\<lparr>refcount := refcount x + 1\<rparr>))"
| "table_after (CloseColorBuffer i) r T T' \<longleftrightarrow> T' = closed_table i T"
| "table_after _ r T T' \<longleftrightarrow> T' = T"

lemma rc_step_outcome:
  assumes c: "counted none none none s"
  shows "outcome (rc_step h t call s) (event_fault (Call call) s)
    (\<lambda>x. counted none none none (snd x) \<and> table_after call (fst x) (m_colorbuffers s) (m_colorbuffers (snd x)))"
proof -
  let ?Q = "\<lambda>r s'. counted none none none s' \<and> table_after call r (m_colorbuffers s) (m_colorbuffers s')"
  note answer = outcome_answer [where Q = ?Q] and snd = outcome_snd(2) [where R = ?Q]
  have fb: "fb_live s" by (rule countedD [OF c])
  have st: "outcome (bindE m (\<lambda>(_, s). Inr s)) F (?Q None)"
    if "returns m (\<lambda>x. counted none none none (snd x) \<and> m_colorbuffers (snd x) = m_colorbuffers s)"
      "\<And>T T'. table_after call None T T' \<longleftrightarrow> T' = T" for m :: "fault + 'z \<times> _" and F
    by (rule outcome_snd(1)) (use that(1) in \<open>auto simp: that(2) intro: returns_outcome\<close>)
  show ?thesis
  proof (cases call)
    case (CreateContext config share v)
    have "outcome (rcCreateContext h t config share v s) (event_fault (Call call) s) (\<lambda>x. ?Q (Some (uint (fst x))) (snd x))"
      using createRenderContext_outcome [OF c, of h t config share "v = 2"] fb CreateContext
      by (auto simp: rcCreateContext_def event_fault_def elim!: outcome_mono)
    from answer(1) [OF this] show ?thesis by (simp add: CreateContext)
  next
    case (CreateWindowSurface config w ht)
    have "outcome (rcCreateWindowSurface h t config w ht s) (event_fault (Call call) s) (\<lambda>x. ?Q (Some (uint (fst x))) (snd x))"
      using createWindowSurface_outcome [OF c, of h t config w ht] fb CreateWindowSurface
      by (auto simp: rcCreateWindowSurface_def event_fault_def elim!: outcome_mono)
    from answer(1) [OF this] show ?thesis by (simp add: CreateWindowSurface)
  next
    case (CreateColorBuffer w ht f)
    have "outcome (rcCreateColorBuffer h t w ht f s) (event_fault (Call call) s) (\<lambda>x. ?Q (Some (uint (fst x))) (snd x))"
      using createColorBuffer_outcome [OF c, of h t w ht f] fb CreateColorBuffer
      by (auto simp: rcCreateColorBuffer_def event_fault_def uint_0_iff elim!: outcome_mono split: if_splits)
    from answer(1) [OF this] show ?thesis by (simp add: CreateColorBuffer)
  next
    case (DestroyContext x)
    have "outcome (rcDestroyContext h t x s) (event_fault (Call call) s) (?Q None)"
      by (rule returns_outcome) (use DestroyRenderContext_ok [OF c, of h t x] fb DestroyContext in \<open>auto simp: rcDestroyContext_def elim!: returns_mono\<close>)
    from answer(2) [OF this] show ?thesis by (simp add: DestroyContext)
  next
    case (DestroyWindow x)
    have "outcome (rcDestroyWindowSurface h t x s) (event_fault (Call call) s) (?Q None)"
      by (rule returns_outcome) (use DestroyWindowSurface_ok [OF c, of h t x] fb DestroyWindow in \<open>auto simp: rcDestroyWindowSurface_def elim!: returns_mono\<close>)
    from answer(2) [OF this] show ?thesis by (simp add: DestroyWindow)
  next
    case (OpenColorBuffer x)
    with openColorBuffer_ok [OF c, of x] fb show ?thesis
      by (auto simp: rcOpenColorBuffer_def no_answer_def openColorBuffer_def split: option.split)
  next
    case (CloseColorBuffer x)
    have "outcome (rcCloseColorBuffer h t x s) (event_fault (Call call) s) (?Q None)"
      by (rule returns_outcome) (use closeColorBuffer_ok [OF c, of h t x] fb CloseColorBuffer in \<open>auto simp: rcCloseColorBuffer_def elim!: returns_mono\<close>)
    from answer(2) [OF this] show ?thesis by (simp add: CloseColorBuffer)
  next
    case (FlushWindow x)
    show ?thesis
    proof (cases "flush_unbound x s")
      case True
      with FlushWindow flushWindow_null [OF fb True, of h t] fb show ?thesis
        by (simp add: rcFlushWindowColorBuffer_def event_fault_def)
    next
      case False
      from returns_outcome [OF flushWindow_ok [OF c False, of h t]] obtain y where
        "flushWindowSurfaceColorBuffer h t x s = Inr y" "counted none none none (snd y)" "m_colorbuffers (snd y) = m_colorbuffers s"
        using flushWindow_ok [OF c False, of h t] by (auto simp: returns_iff)
      with FlushWindow fb show ?thesis by (simp add: rcFlushWindowColorBuffer_def case_prod_beta)
    qed
  next
    case (SetWindowColorBuffer w x)
    from answer(2) [OF st [OF setWindow_ok [OF c, of h t w x]]] fb show ?thesis
      by (simp add: SetWindowColorBuffer rcSetWindowColorBuffer_def)
  next
    case (MakeCurrentCall x d r)
    from bindContext_ok [OF c, of h t x d r] obtain y where
      "bindContext h t x d r s = Inr y" "counted none none none (snd y)" "m_colorbuffers (snd y) = m_colorbuffers s"
      by (auto simp: returns_iff)
    with MakeCurrentCall fb show ?thesis by (simp add: rcMakeCurrent_def case_prod_beta)
  next
    case (FBPost x)
    have "returns (post h t x s) (\<lambda>x. counted none none none (snd x) \<and> m_colorbuffers (snd x) = m_colorbuffers s)"
      by (rule returns_mono [OF post_ok [OF c]]) (use c counted_objs objs_eqD(8) in blast)
    from answer(2) [OF st [OF this]] fb show ?thesis by (simp add: FBPost rcFBPost_def)
  next
    case (BindTexture x)
    from answer(2) [OF st [OF bindColorBuffer_ok(1) [OF c, of h t x]]] fb show ?thesis
      by (simp add: BindTexture rcBindTexture_def)
  next
    case (BindRenderbuffer x)
    from answer(2) [OF st [OF bindColorBuffer_ok(2) [OF c, of h t x]]] fb show ?thesis
      by (simp add: BindRenderbuffer rcBindRenderbuffer_def)
  next
    case (UpdateColorBuffer x args)
    from update_ok [OF c, of h t x args] obtain y where
      "updateColorBuffer h t x args s = Inr y" "counted none none none (snd y)" "m_colorbuffers (snd y) = m_colorbuffers s"
      by (auto simp: returns_iff)
    with UpdateColorBuffer fb show ?thesis by (simp add: rcUpdateColorBuffer_def case_prod_beta)
  qed
qed

text \<open>The same table after an event.\<close>

definition table_step :: "render_event \<Rightarrow> (HandleType \<rightharpoonup> color_buffer_ref) \<Rightarrow> (HandleType \<rightharpoonup> color_buffer_ref) \<Rightarrow> bool" where
  "table_step e T T' \<longleftrightarrow> (case e of Call c \<Rightarrow> \<exists>r. table_after c r T T' | _ \<Rightarrow> T' = T)"

lemma counted_same: "counted c d b s \<Longrightarrow> objs s' = objs s \<Longrightarrow> counted c d b s' \<and> m_colorbuffers s' = m_colorbuffers s"
  by (simp add: counted_objs [of s' s] objs_eqD(8) [of s' s])

lemma event_step_outcome:
  assumes c: "counted none none none s"
  shows "outcome (event_step h t e s) (event_fault e s)
    (\<lambda>s'. counted none none none s' \<and> table_step e (m_colorbuffers s) (m_colorbuffers s'))"
proof -
  have same: "outcome m F (\<lambda>s'. counted none none none s' \<and> table_step e (m_colorbuffers s) (m_colorbuffers s'))"
    if "returns m (\<lambda>s'. counted none none none s' \<and> m_colorbuffers s' = m_colorbuffers s)" "\<And>c. e \<noteq> Call c" for m F
    by (rule returns_outcome, rule returns_mono [OF that(1)]) (use that(2) in \<open>auto simp: table_step_def split: render_event.split\<close>)
  have quiet: "outcome (bindE m (\<lambda>(_, s). Inr s)) F (\<lambda>s'. counted none none none s' \<and> table_step e (m_colorbuffers s) (m_colorbuffers s'))"
    if "returns m (\<lambda>x. objs (snd x) = objs s)" "\<And>c. e \<noteq> Call c" for m :: "fault + bool \<times> _" and F
    by (rule same [OF returns_bind [OF that(1)] that(2)]) (use counted_same [OF c] in \<open>auto simp: case_prod_beta\<close>)
  show ?thesis
  proof (cases e)
    case (Call call)
    have "outcome (rc_step h t call s) (event_fault (Call call) s)
      (\<lambda>x. counted none none none (snd x) \<and> table_step e (m_colorbuffers s) (m_colorbuffers (snd x)))"
      using rc_step_outcome [OF c, of h t call] Call by (auto simp: table_step_def elim: outcome_mono)
    with Call show ?thesis by (auto intro!: outcome_snd)
  next
    case (Rotate z)
    with same [OF setDisplayRotation_ok [OF c, of h t z]] show ?thesis by simp
  next
    case Repost
    with quiet [OF repost_ok [OF c, of h t]] show ?thesis by simp
  next
    case (SetupWindow pos w ht z)
    with quiet [OF setupSubWindow_ok [OF c, of h t pos w ht z]] show ?thesis by simp
  next
    case RemoveWindow
    with same [of "Inr (snd (removeSubWindow h t s))"] counted_same [OF c removeSubWindow_frame, of h t] show ?thesis by simp
  next
    case EndLinux
    with same [of "Inr (thread_end h t s)"] counted_same [OF c thread_end_frame, of h t] show ?thesis by simp
  next
    case EndOther
    from counted_same [OF c thread_end_frame, of h t] same [of "tlsDestruct h t (thread_end h t s)"]
      tlsDestruct_ok [of none none none "thread_end h t s" h t] EndOther show ?thesis by simp
  qed
qed

lemma renders_counted: "renders h s \<Longrightarrow> counters_exact s"
proof (induction rule: renders.induct)
  case (renders_start s)
  then show ?case by (simp add: counters_exact_def started_counted)
next
  case (renders_step s t e s')
  from event_step_outcome [OF this(3) [unfolded counters_exact_def], of h t e] this(2) show ?case by (simp add: counters_exact_def)
qed

end
