(* ===== verification/Render_Demo.thy ===== *)
theory Render_Demo
  imports Render_Control
begin

text \<open>
  Runs of the renderer on a concrete host, and the rules that evaluate them: the definitions with congruence
  rules that keep the simplifier out of a continuation until its argument is a value.
\<close>

section \<open>Sequences of events\<close>

fun run_events :: "'e host \<Rightarrow> (nat \<times> render_event) list \<Rightarrow> 'e renderer \<Rightarrow> fault + 'e renderer" where
  "run_events h [] s = Inr s"
| "run_events h ((t, e) # es) s = bindE (event_step h t e s) (run_events h es)"

lemma run_events_renders: "run_events h es s = Inr s' \<Longrightarrow> renders h s \<Longrightarrow> renders h s'"
  by (induction h es s rule: run_events.induct) (auto simp: bindE_eq_Inr intro: renders_step)

section \<open>A concrete host\<close>

text \<open>A host whose calls all succeed; what it creates is numbered.\<close>

definition demo_host :: "nat host" where
  "demo_host t c n =
     (let r = (case c of
          Gl f args \<Rightarrow> if f = ''glCheckFramebufferStatusOES'' then GL_FRAMEBUFFER_COMPLETE_OES else int n + 1
        | _ \<Rightarrow> int n + 1)
      in ([r], n + 1))"

definition demo_start :: "nat renderer" where
  "demo_start = \<lparr>o_ctx = Map.empty, o_surf = Map.empty, o_cb = Map.empty, o_next = 0, r_threads = Map.empty,
     m_contexts = Map.empty, m_windows = Map.empty, m_colorbuffers = Map.empty, fb_live = True, s_nextHandle = 0,
     s_fbConfigs = [7], m_fbWidth = 320, m_fbHeight = 480, m_eglDisplay = 1, m_eglSurface = 0, m_eglConfig = 7,
     m_eglContext = 2, m_pbufSurface = 3, m_prevContext = 0, m_prevReadSurf = 0, m_prevDrawSurf = 0, m_subWin = 0,
     m_lastPostedColorBuffer = 0, m_zRot = 0, m_eglContextInitialized = False, m_onPost = False,
     has_eglimage_texture_2d = True, r_env = 10\<rparr>"

lemma demo_started: "renders demo_host demo_start"
  by (rule renders_start) (simp add: started_def demo_start_def)

definition demo_run :: "render_event list \<Rightarrow> fault + nat renderer" where
  "demo_run es = run_events demo_host (map (Pair 0) es) demo_start"

lemma demo_renders: "demo_run es = Inr s \<Longrightarrow> renders demo_host s"
  unfolding demo_run_def by (rule run_events_renders [OF _ demo_started])

definition lives :: "'o ref_heap \<Rightarrow> nat \<Rightarrow> addr list" where
  "lives H n = filter (\<lambda>a. H a \<noteq> None) [0..<n]"

definition alive :: "'e renderer \<Rightarrow> nat \<times> nat \<times> nat" where
  "alive s = (length (lives (o_ctx s) (o_next s)), length (lives (o_surf s) (o_next s)), length (lives (o_cb s) (o_next s)))"

section \<open>Evaluation\<close>

lemma bindE_weak: "m = m' \<Longrightarrow> bindE m k = bindE m' k"
  by simp

lemmas demo_congs = bindE_weak let_weak_cong

lemmas demo_eval =
  ret_def GL_RGB_def GL_RGBA_def GL_RGB565_OES_def GL_RGB5_A1_OES_def GL_RGBA4_OES_def GL_TEXTURE_2D_def GL_FRAMEBUFFER_OES_def
  GL_FRAMEBUFFER_COMPLETE_OES_def GL_RENDERBUFFER_OES_def GL_VIEWPORT_def GL_TEXTURE_BINDING_2D_def GL_UNSIGNED_BYTE_def
  GL_COLOR_BUFFER_BIT_def EGL_DRAW_def EGL_READ_def do_call_def getFB_def no_info_def getRenderThreadInfo_def set_info_def
  FBConfig_get_def MakeCurrent_def current_binding_def save_binding_def bind_locked_def initGLState_def bindSubwin_locked_def
  unbind_locked_def glx_def texture_params_def tex_image_def texture_format_def zero_pixels_def make_image_def
  ColorBuffer_create_def ColorBuffer_destroy_def subUpdate_def drawTexQuad_def ColorBuffer_post_def bind_fbo_def blit_quad_def
  blitFromCurrentReadBuffer_def bind_image_def bindToTexture_def bindToRenderbuffer_def RenderContext_create_def
  RenderContext_destroy_def use_ctx_def use_cb_def use_surf_def release_ctx_def release_cb_def WindowSurface_destroy_def
  release_surf_def reassign_def set_surf_def resizePbuffer_def WindowSurface_create_def attach_def fit_size_def setColorBuffer_def
  bind_read_def bind_draw_def WindowSurface_bind_def blitToColorBuffer_def flushColorBuffer_def genHandle_def allocate_def
  new_cb_def new_ctx_def new_surf_def store_cb_def store_ctx_def store_win_def createColorBuffer_def createRenderContext_def
  createWindowSurface_def DestroyRenderContext_def DestroyWindowSurface_def openColorBuffer_def closeColorBuffer_def
  flushWindowSurfaceColorBuffer_def setWindowSurfaceColorBuffer_def updateColorBuffer_def bindColorBufferToTexture_def
  bindColorBufferToRenderbuffer_def bind_targets_def surface_of_def context_of_def set_currContext_def set_currDrawSurf_def
  set_currReadSurf_def bind_surfaces_def bindContext_def post_def repost_def setDisplayRotation_def setupSubWindow_def
  removeSubWindow_def clear_colorbuffers_def clear_windows_def clear_contexts_def finalize_def rcCreateContext_def
  rcDestroyContext_def rcCreateWindowSurface_def rcDestroyWindowSurface_def rcCreateColorBuffer_def rcOpenColorBuffer_def
  rcCloseColorBuffer_def rcFlushWindowColorBuffer_def rcSetWindowColorBuffer_def rcMakeCurrent_def rcFBPost_def rcBindTexture_def
  rcBindRenderbuffer_def rcUpdateColorBuffer_def no_answer_def handle_answer_def thread_end_def tlsDestruct_def sp_new_def
  sp_use_def sp_release_def sp_get_def sp_set_def

lemmas demo_simps = Let_def demo_run_def demo_host_def demo_start_def demo_eval next_handle.simps

text \<open>A window with a colour buffer that was never bound, and a client that uses one of each kind of object
  and destroys its handles.\<close>

definition demo_window :: "render_event list" where
  "demo_window = [Call (CreateWindowSurface 0 16 16), Call (CreateColorBuffer 16 16 GL_RGBA), Call (SetWindowColorBuffer 1 2)]"

definition demo_client :: "render_event list" where
  "demo_client =
     [Call (CreateContext 0 0 2), Call (CreateWindowSurface 0 16 16), Call (CreateColorBuffer 16 16 GL_RGBA),
      Call (SetWindowColorBuffer 2 3), Call (MakeCurrentCall 1 2 2), Call (FlushWindow 2), Call (DestroyContext 1),
      Call (DestroyWindow 2), Call (CloseColorBuffer 3)]"

lemma demo_window_runs: "\<exists>s. demo_run demo_window = Inr s \<and> renders demo_host s \<and> flush_unbound 1 s \<and> r_threads s = Map.empty"
proof -
  have "case demo_run demo_window of Inr s \<Rightarrow> flush_unbound 1 s \<and> r_threads s = Map.empty | Inl f \<Rightarrow> False"
    by (simp add: demo_window_def flush_unbound_def blits_def demo_simps cong: demo_congs)
  then show ?thesis by (auto split: sum.splits dest: demo_renders)
qed

end
