(* ===== verification/Render_Safety.thy ===== *)
theory Render_Safety
  imports Render_Demo
begin

text \<open>
  What the counters mean for the renderer: no pointer leads to a deleted object, an object lives as long as
  something points to it, and the handles of colour buffers count their clients. The faults that
  remain are stated with the runs that reach them.
\<close>

section \<open>Lifetimes\<close>

lemma refs_pos_iff: "finite (dom m) \<Longrightarrow> 0 < refs g m a \<longleftrightarrow> (\<exists>k v. m k = Some v \<and> g v = Some a)"
  using refs_zero [of m g a] by auto

lemma live_pos:
  assumes "counters_exact s"
  shows "o_ctx s a \<noteq> None \<longleftrightarrow> 0 < wctx (o_surf s) a + ctx_roots s a"
    "o_surf s a \<noteq> None \<longleftrightarrow> 0 < surf_roots s a" "o_cb s a \<noteq> None \<longleftrightarrow> 0 < wcb (o_surf s) a + cb_roots s a"
  using assms heap_ok_none [of "\<lambda>a. wctx (o_surf s) a + ctx_roots s a" "o_ctx s" a] heap_ok_none [of "surf_roots s" "o_surf s" a]
    heap_ok_none [of "\<lambda>a. wcb (o_surf s) a + cb_roots s a" "o_cb s" a]
  by (auto simp: counters_exact_def counted_def core_def)

section \<open>Emptying the tables\<close>

lemma count_list_card: "distinct xs \<Longrightarrow> count_list (map f xs) y = card {x \<in> set xs. f x = y}"
proof (induction xs)
  case (Cons x xs)
  have "{z \<in> set (x # xs). f z = y} = (if f x = y then insert x {z \<in> set xs. f z = y} else {z \<in> set xs. f z = y})" by auto
  with Cons show ?case by simp
qed simp

lemma refs_list:
  fixes m :: "'k :: linorder \<rightharpoonup> 'v"
  assumes "finite (dom m)"
  shows "refs g m a = count_list (map (\<lambda>i. Option.bind (m i) g) (sorted_list_of_set (dom m))) (Some a)"
proof -
  have "{k. \<exists>v. m k = Some v \<and> g v = Some a} = {k \<in> dom m. Option.bind (m k) g = Some a}"
    by (auto simp: bind_eq_Some_conv)
  with assms show ?thesis by (simp add: count_list_card refs_def)
qed

lemma count_Cons: "(\<lambda>a. b a + count_list (p # ps) (Some a)) = add_ref (\<lambda>a. b a + count_list ps (Some a)) p"
  by (rule ext) (auto simp: add_ref_def)

lemma release_all_cb:
  "counted c d (\<lambda>a. b a + count_list ps (Some a)) s \<Longrightarrow>
   returns (release_all (release_cb h t) ps s) (\<lambda>s'. counted c d b s' \<and> roots s' = roots s)"
proof (induction ps arbitrary: s)
  case (Cons p ps)
  then have c: "counted c d (add_ref (\<lambda>a. b a + count_list ps (Some a)) p) s" by (simp only: count_Cons)
  show ?case
    unfolding release_all.simps
    by (rule returns_bind [OF counted_release_cb [OF c has_add_ref(1)]]) (auto intro: returns_mono [OF Cons.IH])
qed simp

lemma release_all_surf:
  "counted c (\<lambda>a. d a + count_list ps (Some a)) b s \<Longrightarrow>
   returns (release_all (release_surf h t) ps s) (\<lambda>s'. counted c d b s' \<and> roots s' = roots s)"
proof (induction ps arbitrary: s)
  case (Cons p ps)
  then have c: "counted c (add_ref (\<lambda>a. d a + count_list ps (Some a)) p) b s" by (simp only: count_Cons)
  show ?case
    unfolding release_all.simps
    by (rule returns_bind [OF counted_release_surf [OF c has_add_ref(1)]]) (auto intro: returns_mono [OF Cons.IH])
qed simp

lemma release_all_ctx:
  "counted (\<lambda>a. c a + count_list ps (Some a)) d b s \<Longrightarrow>
   returns (release_all (release_ctx h t) ps s) (\<lambda>s'. counted c d b s' \<and> roots s' = roots s)"
proof (induction ps arbitrary: s)
  case (Cons p ps)
  then have c: "counted (add_ref (\<lambda>a. c a + count_list ps (Some a)) p) d b s" by (simp only: count_Cons)
  show ?case
    unfolding release_all.simps
    by (rule returns_bind [OF counted_release_ctx [OF c has_add_ref(1)]]) (auto intro: returns_mono [OF Cons.IH])
qed simp

lemma bind_Some_id: "Option.bind x Some = x"
  by (cases x) simp_all

lemma bind_comp: "Option.bind x (Some \<circ> f) = map_option f x"
  by (cases x) simp_all

lemma clear_colorbuffers_ok:
  assumes c: "counted none none none s"
  shows "returns (clear_colorbuffers h t s) (\<lambda>s'. counted none none none s' \<and> roots s' = roots (s\<lparr>m_colorbuffers := Map.empty\<rparr>))"
  unfolding clear_colorbuffers_def
proof (rule release_all_cb)
  have "finite (dom (m_colorbuffers s))" using countedD(3) [OF c] by (simp add: tables_finite_def)
  from refs_list [OF this, of "Some \<circ> cb"] c
  show "counted none none (\<lambda>a. none a + count_list (map (\<lambda>i. map_option cb (m_colorbuffers s i))
      (sorted_list_of_set (dom (m_colorbuffers s)))) (Some a)) (s\<lparr>m_colorbuffers := Map.empty\<rparr>)"
    by (simp add: counted_def core_def tables_finite_def ctx_roots_def surf_roots_def cb_roots_def bind_comp)
qed

lemma clear_windows_ok:
  assumes c: "counted none none none s"
  shows "returns (clear_windows h t s) (\<lambda>s'. counted none none none s' \<and> roots s' = roots (s\<lparr>m_windows := Map.empty\<rparr>))"
  unfolding clear_windows_def
proof (rule release_all_surf)
  have "finite (dom (m_windows s))" using countedD(3) [OF c] by (simp add: tables_finite_def)
  from refs_list [OF this, of Some] c
  show "counted none (\<lambda>a. none a + count_list (map (m_windows s) (sorted_list_of_set (dom (m_windows s)))) (Some a)) none
      (s\<lparr>m_windows := Map.empty\<rparr>)"
    by (simp add: counted_def core_def tables_finite_def ctx_roots_def surf_roots_def cb_roots_def bind_Some_id add.commute add.left_commute)
qed

lemma clear_contexts_ok:
  assumes c: "counted none none none s"
  shows "returns (clear_contexts h t s) (\<lambda>s'. counted none none none s' \<and> roots s' = roots (s\<lparr>m_contexts := Map.empty\<rparr>))"
  unfolding clear_contexts_def
proof (rule release_all_ctx)
  have "finite (dom (m_contexts s))" using countedD(3) [OF c] by (simp add: tables_finite_def)
  from refs_list [OF this, of Some] c
  show "counted (\<lambda>a. none a + count_list (map (m_contexts s) (sorted_list_of_set (dom (m_contexts s)))) (Some a)) none none
      (s\<lparr>m_contexts := Map.empty\<rparr>)"
    by (simp add: counted_def core_def tables_finite_def ctx_roots_def surf_roots_def cb_roots_def bind_Some_id add.commute add.left_commute)
qed

lemma finalize_ok:
  fixes h :: "'e host"
  assumes c: "counted none none none s"
  shows "returns (finalize h t s) (\<lambda>s'. \<not> fb_live s' \<and> (\<exists>s1 :: 'e renderer. counted none none none s1 \<and> m_contexts s1 = Map.empty \<and>
    m_windows s1 = Map.empty \<and> m_colorbuffers s1 = Map.empty \<and> r_threads s1 = r_threads s \<and>
    o_ctx s' = o_ctx s1 \<and> o_surf s' = o_surf s1 \<and> o_cb s' = o_cb s1))"
proof -
  obtain b s0 where s0: "removeSubWindow h t s = (b, s0)" by fastforce
  have o0: "objs s0 = objs s" using removeSubWindow_frame [of h t s] s0 by simp
  have c0: "counted none none none s0" using c counted_objs [OF o0] by simp
  obtain s1 where s1: "clear_colorbuffers h t s0 = Inr s1" "counted none none none s1" "roots s1 = roots (s0\<lparr>m_colorbuffers := Map.empty\<rparr>)"
    using clear_colorbuffers_ok [OF c0, of h t] by (auto simp: returns_iff)
  obtain s2 where s2: "clear_windows h t s1 = Inr s2" "counted none none none s2" "roots s2 = roots (s1\<lparr>m_windows := Map.empty\<rparr>)"
    using clear_windows_ok [OF s1(2), of h t] by (auto simp: returns_iff)
  obtain s3 where s3: "clear_contexts h t s2 = Inr s3" "counted none none none s3" "roots s3 = roots (s2\<lparr>m_contexts := Map.empty\<rparr>)"
    using clear_contexts_ok [OF s2(2), of h t] by (auto simp: returns_iff)
  have t3: "m_contexts s3 = Map.empty" "m_windows s3 = Map.empty" "m_colorbuffers s3 = Map.empty" "r_threads s3 = r_threads s"
    using rootsD [OF s3(3)] rootsD [OF s2(3)] rootsD [OF s1(3)] objs_eqD(5) [OF o0] by simp_all
  let ?s4 = "\<lambda>s4. do_calls h t [Egl ''eglDestroyContext'' [m_eglDisplay s4, m_eglContext s4], Egl ''eglDestroySurface'' [m_eglDisplay s4, m_pbufSurface s4]] s4"
  have fin: "finalize h t s = Inr ((?s4 (snd (MakeCurrent h t 0 0 0 s3)))\<lparr>fb_live := False\<rparr>)"
    using countedD(2) [OF c] s0 s1(1) s2(1) s3(1) by (simp add: finalize_def case_prod_beta Let_def del: do_calls.simps)
  have "objs (?s4 (snd (MakeCurrent h t 0 0 0 s3))) = objs s3" by (simp del: do_calls.simps)
  note e = objs_eqD(1-3) [OF this]
  show ?thesis unfolding fin returns_simps
    by (intro conjI exI [of _ s3]) (simp_all add: e s3(2) t3 del: do_calls.simps)
qed

lemma idle_empty:
  assumes c: "counted none none none s"
    and "m_contexts s = Map.empty" "m_windows s = Map.empty" "m_colorbuffers s = Map.empty"
    and idle: "\<And>t ti. r_threads s t = Some ti \<Longrightarrow> ti = no_info"
  shows "o_ctx s = Map.empty" "o_surf s = Map.empty" "o_cb s = Map.empty"
proof -
  have x: "counters_exact s" using c by (simp add: counters_exact_def)
  have ft: "finite (dom (r_threads s))" using countedD(3) [OF c] by (simp add: tables_finite_def)
  have t: "refs g (r_threads s) a = 0" if "g no_info = None" for g a
    using refs_zero [OF ft, of g a] idle that by fastforce
  have roots: "ctx_roots s a = 0" "surf_roots s a = 0" "cb_roots s a = 0" for a
    using assms(2-4) by (simp_all add: ctx_roots_def surf_roots_def cb_roots_def t)
  have s: "o_surf s = Map.empty"
  proof
    show "o_surf s a = None" for a using live_pos(2) [OF x, of a] roots(2) [of a] by (cases "o_surf s a") simp_all
  qed
  then show "o_surf s = Map.empty" .
  have w: "wctx (o_surf s) a = 0" "wcb (o_surf s) a = 0" for a by (simp_all add: s wctx_def wcb_def)
  show "o_ctx s = Map.empty"
  proof
    show "o_ctx s a = None" for a using live_pos(1) [OF x, of a] roots(1) [of a] w(1) [of a] by (cases "o_ctx s a") simp_all
  qed
  show "o_cb s = Map.empty"
  proof
    show "o_cb s a = None" for a using live_pos(3) [OF x, of a] roots(3) [of a] w(2) [of a] by (cases "o_cb s a") simp_all
  qed
qed

section \<open>Clients of the colour buffers\<close>

text \<open>What the handles of colour buffers promise: every handle has a number of clients, a creation starts with one,
  opening adds one, closing takes one away and the last close frees the handle.\<close>

definition clients :: "'e renderer \<Rightarrow> HandleType \<Rightarrow> nat option" where
  "clients s i = map_option (unat \<circ> refcount) (m_colorbuffers s i)"

fun client_step :: "rc_call \<Rightarrow> int option \<Rightarrow> (HandleType \<rightharpoonup> nat) \<Rightarrow> HandleType \<rightharpoonup> nat" where
  "client_step (CreateColorBuffer w ht f) r C = (case r of None \<Rightarrow> C | Some n \<Rightarrow> if n = 0 then C else C(word_of_int n \<mapsto> 1))"
| "client_step (OpenColorBuffer i) r C = (case C i of None \<Rightarrow> C | Some n \<Rightarrow> C(i \<mapsto> n + 1))"
| "client_step (CloseColorBuffer i) r C = (case C i of None \<Rightarrow> C | Some n \<Rightarrow> C(i := if n = 1 then None else Some (n - 1)))"
| "client_step _ r C = C"

lemma unat_inc: "unat (n :: 32 word) < 2 ^ 32 - 1 \<Longrightarrow> unat (n + 1) = unat n + 1"
  by (simp add: unat_word_ariths)

lemma unat_dec: "0 < unat (n :: 32 word) \<Longrightarrow> unat (n - 1) = unat n - 1"
  by (rule unat_minus_one) auto

lemma dec_zero: "(n :: 32 word) = 1 \<longleftrightarrow> unat n = 1"
  by (metis unat_1 word_unat_eq_iff)

definition clients_within :: "nat \<Rightarrow> (HandleType \<rightharpoonup> color_buffer_ref) \<Rightarrow> bool" where
  "clients_within b T \<longleftrightarrow> (\<forall>i x. T i = Some x \<longrightarrow> 0 < unat (refcount x) \<and> unat (refcount x) \<le> b)"

lemma clients_withinD: "clients_within b T \<Longrightarrow> T i = Some x \<Longrightarrow> 0 < unat (refcount x) \<and> unat (refcount x) \<le> b"
  by (simp add: clients_within_def)

lemma clients_within_upd:
  "clients_within b T \<Longrightarrow> 0 < unat (refcount x) \<Longrightarrow> unat (refcount x) \<le> Suc b \<Longrightarrow> clients_within (Suc b) (T(i \<mapsto> x))"
  "clients_within b T \<Longrightarrow> clients_within (Suc b) (T(i := None))" "clients_within b T \<Longrightarrow> clients_within (Suc b) T"
  by (auto simp: clients_within_def le_SucI)

lemma table_after_clients:
  assumes a: "table_after c r T T'" and w: "clients_within b T" and b: "b < 2 ^ 32 - 1"
  shows "clients_within (Suc b) T'"
    "(\<lambda>i. map_option (unat \<circ> refcount) (T' i)) = client_step c r (\<lambda>i. map_option (unat \<circ> refcount) (T i))"
proof -
  have inc: "unat (refcount x + 1) = unat (refcount x) + 1" if "T i = Some x" for i x
    using clients_withinD [OF w that] b by (intro unat_inc) linarith
  have dec: "refcount x = 1 \<longleftrightarrow> unat (refcount x) = 1" "unat (refcount x - 1) = unat (refcount x) - 1" if "T i = Some x" for i x
    using clients_withinD [OF w that] by (simp_all add: dec_zero unat_dec)
  show "clients_within (Suc b) T'"
  proof (cases c)
    case (CloseColorBuffer i)
    show ?thesis
    proof (cases "T i")
      case (Some x)
      have "0 < unat (refcount x) - 1 \<and> unat (refcount x) - 1 \<le> Suc b" if "unat (refcount x) \<noteq> 1"
        using that clients_withinD [OF w Some] by linarith
      with a CloseColorBuffer Some dec [OF Some] clients_within_upd [OF w] show ?thesis
        by (auto simp: closed_table_def)
    qed (use a CloseColorBuffer clients_within_upd(3) [OF w] in \<open>auto simp: closed_table_def\<close>)
  next
    case (OpenColorBuffer i)
    show ?thesis
    proof (cases "T i")
      case (Some x)
      with a OpenColorBuffer inc [OF Some] clients_withinD [OF w Some] clients_within_upd(1) [OF w] show ?thesis by simp
    qed (use a OpenColorBuffer clients_within_upd(3) [OF w] in auto)
  qed (use a clients_within_upd(3) [OF w] in \<open>auto split: option.splits if_splits intro!: clients_within_upd(1) [OF w]\<close>)
  show "(\<lambda>i. map_option (unat \<circ> refcount) (T' i)) = client_step c r (\<lambda>i. map_option (unat \<circ> refcount) (T i))"
    using a inc dec by (cases c) (auto simp: closed_table_def fun_eq_iff split: option.splits if_splits)
qed

lemma run_clients:
  "run_events h es s = Inr s' \<Longrightarrow> counted none none none s \<Longrightarrow> clients_within b (m_colorbuffers s) \<Longrightarrow> b + length es < 2 ^ 32 \<Longrightarrow>
   counted none none none s' \<and> clients_within (b + length es) (m_colorbuffers s')"
proof (induction h es s arbitrary: b rule: run_events.induct)
  case (2 h t e es s)
  then obtain s1 where s1: "event_step h t e s = Inr s1" "run_events h es s1 = Inr s'" by (auto simp: bindE_eq_Inr)
  from event_step_outcome [OF "2.prems"(2), of h t e] s1
  have c: "counted none none none s1" and "table_step e (m_colorbuffers s) (m_colorbuffers s1)" by simp_all
  moreover have "b < 2 ^ 32 - 1" using "2.prems"(4) by simp
  ultimately have "clients_within (Suc b) (m_colorbuffers s1)"
    using table_after_clients(1) "2.prems"(3) by (auto simp: table_step_def clients_within_upd split: render_event.splits)
  from "2.IH" [OF s1 c this] "2.prems"(4) show ?case by simp
qed simp

lemma started_clients: "started s \<Longrightarrow> clients_within 0 (m_colorbuffers s)"
  by (simp add: started_def clients_within_def)

text \<open>C7: 
  The table of colour buffers implements the clients of the handles: after fewer than 2^32 - 1 events from the start,
  of any threads, a call changes the numbers of clients as \<open>client_step\<close> says, and every handle
  has one client or more. (A creation may be answered with the handle of another live buffer, whose
  clients it then takes over.)
\<close>

theorem clients_refine:
  assumes "started s0" "run_events h es s0 = Inr s" "length es < 2 ^ 32 - 1" "rc_step h t c s = Inr (r, s')"
  shows "clients s' = client_step c r (clients s) \<and> (\<forall>i. clients s i \<noteq> Some 0)"
proof (rule conjI)
  from run_clients [OF assms(2) started_counted [OF assms(1)] started_clients [OF assms(1)]] assms(3)
  have k: "counted none none none s" "clients_within (length es) (m_colorbuffers s)" by simp_all
  from rc_step_outcome [OF k(1), of h t c] assms(4) have "table_after c r (m_colorbuffers s) (m_colorbuffers s')" by simp
  from table_after_clients(2) [OF this k(2) assms(3)] show "clients s' = client_step c r (clients s)" by (simp add: clients_def [abs_def])
  show "\<forall>i. clients s i \<noteq> Some 0" using clients_withinD [OF k(2)] by (fastforce simp: clients_def)
qed

lemma clients_refine_witness:
  "\<exists>s s'. demo_run demo_window = Inr s \<and> rc_step demo_host 0 (OpenColorBuffer 2) s = Inr (None, s') \<and> clients s' = (clients s)(2 \<mapsto> 2)"
proof -
  have "case demo_run demo_window of Inr s \<Rightarrow> clients s 2 = Some 1 | Inl f \<Rightarrow> False"
    by (simp add: demo_window_def clients_def demo_simps cong: demo_congs)
  then obtain s where s: "demo_run demo_window = Inr s" "clients s 2 = Some 1" by (auto split: sum.splits)
  then obtain s' where s': "rc_step demo_host 0 (OpenColorBuffer 2) s = Inr (None, s')" by (simp add: no_answer_def)
  from clients_refine [OF _ s(1) [unfolded demo_run_def] _ s'] s s'
  show ?thesis by (auto simp: started_def demo_start_def demo_window_def)
qed


section \<open>Properties\<close>



text \<open>
  Drawing the contents of a window whose surface no thread ever made current follows the null pointer
  \<open>m_drawContext\<close>: a client that creates a window, gives it a buffer of its size and flushes it
  stops the renderer for all clients.
\<close>

theorem unbound_flush_crashes:
  assumes "renders h s" "flush_unbound w s"
  shows "event_step h t (Call (FlushWindow w)) s = Inl NullPointer"
proof -
  have "fb_live s" using renders_counted [OF assms(1)] countedD(2) by (auto simp: counters_exact_def)
  with flushWindow_null [OF this assms(2)] show ?thesis by (simp add: rcFlushWindowColorBuffer_def)
qed

lemma unbound_flush_crashes_witness:
  "\<exists>s. demo_run demo_window = Inr s \<and> event_step demo_host 0 (Call (FlushWindow 1)) s = Inl NullPointer"
  using demo_window_runs unbound_flush_crashes by blast

text \<open>C5: 
  An object lives exactly as long as something points to it: a context the table, a thread or the
  surfaces bound to it, a surface the table or a thread, a colour buffer the table or the surfaces it is
  attached to.
\<close>

theorem renderer_lifetimes:
  assumes "renders h s"
  shows "((o_ctx s a \<noteq> None) =
      ((\<exists>i. m_contexts s i = Some a) \<or> (\<exists>t ti. r_threads s t = Some ti \<and> currContext ti = Some a) \<or>
       (\<exists>p w n. o_surf s p = Some (w, n) \<and> (m_readContext w = Some a \<or> m_drawContext w = Some a)))) \<and>
    ((o_surf s a \<noteq> None) =
      ((\<exists>i. m_windows s i = Some a) \<or> (\<exists>t ti. r_threads s t = Some ti \<and> (currDrawSurf ti = Some a \<or> currReadSurf ti = Some a)))) \<and>
    ((o_cb s a \<noteq> None) =
      ((\<exists>i c. m_colorbuffers s i = Some c \<and> cb c = a) \<or> (\<exists>p w n. o_surf s p = Some (w, n) \<and> m_attachedColorBuffer w = Some a)))"
    (is "?A \<and> ?B \<and> ?C")
proof (intro conjI)
  have x: "counters_exact s" by (rule renders_counted [OF assms])
  then have c: "counted none none none s" by (simp add: counters_exact_def)
  have fin: "finite (dom (m_contexts s))" "finite (dom (m_windows s))" "finite (dom (m_colorbuffers s))" "finite (dom (r_threads s))"
    "finite (dom (o_surf s))"
    using countedD(1,3) [OF c] by (simp_all add: tables_finite_def core_def)
  show ?A unfolding live_pos(1) [OF x] wctx_def ctx_roots_def add_gr_0 fin [THEN refs_pos_iff] by fastforce
  show ?B unfolding live_pos(2) [OF x] surf_roots_def add_gr_0 fin [THEN refs_pos_iff] by fastforce
  show ?C unfolding live_pos(3) [OF x] wcb_def cb_roots_def add_gr_0 fin [THEN refs_pos_iff] by fastforce
qed

lemma renderer_lifetimes_witness:
  "\<exists>s. renders demo_host s \<and> (o_surf s 0 \<noteq> None) = ((\<exists>i. m_windows s i = Some 0) \<or>
    (\<exists>t ti. r_threads s t = Some ti \<and> (currDrawSurf ti = Some 0 \<or> currReadSurf ti = Some 0)))"
proof -
  obtain s where "renders demo_host s" using demo_window_runs by blast
  with renderer_lifetimes [OF this, of 0] show ?thesis by (intro exI [of _ s] conjI) (elim conjE, assumption)+
qed

text \<open>C22: 
  \<open>finalize\<close> returns from every state of a run, and with no current context or surface
  in any thread it deletes every object.
\<close>

theorem finalize_releases:
  fixes h :: "'e host"
  assumes "renders h s" "\<And>u ti. r_threads s u = Some ti \<Longrightarrow> ti = no_info"
  shows "\<exists>s'. finalize h t s = Inr s' \<and> \<not> fb_live s' \<and> o_ctx s' = Map.empty \<and> o_surf s' = Map.empty \<and> o_cb s' = Map.empty"
proof -
  have "counted none none none s" using renders_counted [OF assms(1)] by (simp add: counters_exact_def)
  from finalize_ok [OF this, of h t] obtain s' and s1 :: "'e renderer" where
    f: "finalize h t s = Inr s'" "\<not> fb_live s'" and
    s1: "counted none none none s1" "m_contexts s1 = Map.empty" "m_windows s1 = Map.empty" "m_colorbuffers s1 = Map.empty"
      "r_threads s1 = r_threads s" "o_ctx s' = o_ctx s1" "o_surf s' = o_surf s1" "o_cb s' = o_cb s1"
    by (auto simp: returns_iff)
  have "ti = no_info" if "r_threads s1 u = Some ti" for u ti using that assms(2) s1(5) by simp
  from idle_empty [OF s1(1-4) this] f s1 show ?thesis by simp
qed

lemma finalize_releases_witness:
  "\<exists>s s'. demo_run demo_window = Inr s \<and> finalize demo_host 0 s = Inr s' \<and> o_surf s' = Map.empty \<and> o_cb s' = Map.empty"
proof -
  obtain s where s: "demo_run demo_window = Inr s" "renders demo_host s" "r_threads s = Map.empty"
    using demo_window_runs by blast
  from finalize_releases [OF s(2), of 0] s show ?thesis by auto
qed

text \<open>
  On Linux the end of a render thread leaves its current context and surfaces, and the colour buffers
  attached to them, although the client has destroyed every handle: the information of the thread is a plain
  pointer there. Where the thread's storage deletes it, everything goes.
\<close>

theorem linux_thread_leaks:
  "map_sum id alive (demo_run (demo_client @ [EndLinux])) = Inr (1, 1, 1) \<and>
   map_sum id alive (demo_run (demo_client @ [EndOther])) = Inr (0, 0, 0)"
  by (simp add: demo_client_def demo_simps alive_def lives_def upt_rec cong: demo_congs)

text \<open>C21: 
  \<open>bindContext\<close> is all or nothing: when it fails, no object, table or thread changes; when it
  succeeds, the thread's pointers are those behind the handles, and after an unbind operation there is no
  current context and the surfaces stay those that were bound.
\<close>

theorem bindContext_binds:
  assumes "renders h s"
  shows "\<exists>ok s'. bindContext h t c d r s = Inr (ok, s') \<and> counters_exact s' \<and>
    (if \<not> ok then objs s' = objs s
     else if c = 0 \<and> d = 0 \<and> r = 0 then getRenderThreadInfo t s' = (getRenderThreadInfo t s)\<lparr>currContext := None\<rparr>
     else m_contexts s c \<noteq> None \<and> m_windows s d \<noteq> None \<and> m_windows s r \<noteq> None \<and>
       getRenderThreadInfo t s' = \<lparr>currContext = m_contexts s c, currDrawSurf = m_windows s d, currReadSurf = m_windows s r\<rparr>)"
  using bindContext_bound [of s h t c d r] renders_counted [OF assms]
  by (fastforce simp: returns_iff counters_exact_def bound_info_def bind_targets_def split: if_splits)

lemma bindContext_binds_witness:
  "\<exists>s ok s'. demo_run demo_window = Inr s \<and> bindContext demo_host 0 0 0 0 s = Inr (ok, s') \<and> counters_exact s'"
  using demo_window_runs bindContext_binds [where h = demo_host and t = 0 and c = 0 and d = 0 and r = 0] by blast

text \<open>
  An unbind operation after a call with two surfaces leaves the context bound to the one that was read: it
  compares the handles of the call, which are both 0, and binds only the surface that was drawn.
\<close>

theorem unbind_keeps_read:
  "case demo_run [Call (CreateContext 0 0 2), Call (CreateWindowSurface 0 16 16), Call (CreateWindowSurface 0 16 16),
      Call (MakeCurrentCall 1 2 3), Call (MakeCurrentCall 0 0 0)] of
     Inl f \<Rightarrow> False
   | Inr s \<Rightarrow> getRenderThreadInfo 0 s = \<lparr>currContext = None, currDrawSurf = Some 1, currReadSurf = Some 2\<rparr> \<and>
       map_option (m_drawContext \<circ> fst) (o_surf s 1) = Some None \<and> map_option (m_readContext \<circ> fst) (o_surf s 2) = Some (Some 0)"
  by (simp add: demo_simps cong: demo_congs)

text \<open>
  \<open>genHandle\<close> returns if and only if some identifier other than 0 is neither a context nor a window, and
  then returns such an identifier and keeps it as the last one handed out.
\<close>

theorem genHandle_total:
  "(case genHandle s of
      Inl f \<Rightarrow> f = Hang \<and> {i. i \<noteq> 0} \<subseteq> dom (m_contexts s) \<union> dom (m_windows s)
    | Inr (i, s') \<Rightarrow> i \<noteq> 0 \<and> m_contexts s i = None \<and> m_windows s i = None \<and> s' = s\<lparr>s_nextHandle := i\<rparr>)"
  by (cases rule: genHandle_cases [of s]) (auto simp: handle_free_def handle_used_def)

text \<open>
  The handles of colour buffers are not looked at: when the counter of handles has come around, a new buffer gets
  the handle of a live one, whose object is then gone although it has clients.
\<close>

theorem colorbuffer_handle_reused:
  "case demo_run [Call (CreateColorBuffer 16 16 GL_RGBA)] of
     Inl f \<Rightarrow> False
   | Inr s \<Rightarrow>
       (case rc_step demo_host 0 (CreateColorBuffer 8 8 GL_RGB) (s\<lparr>s_nextHandle := 0\<rparr>) of
          Inl f \<Rightarrow> False
        | Inr (r, s') \<Rightarrow> clients s 1 = Some 1 \<and> r = Some 1 \<and> clients s' = clients s \<and> o_cb s 0 \<noteq> None \<and> o_cb s' 0 = None)"
  by (simp add: demo_simps clients_def [abs_def] fun_eq_iff cong: demo_congs)

end
