(* ===== verification/Render_Stream.thy ===== *)
theory Render_Stream
  imports Byte_Source Byte_Words
begin

text \<open>
  The bytes of a client of the renderer on their way to the decoders: \<open>SocketStream.cpp\<close>,
  \<open>ReadBuffer.cpp\<close>, the loop of \<open>RenderThread.cpp\<close>, and the loop of every decoder, which is a text
  in \<open>ApiGen.cpp\<close>. The cases of a decoder's switch are generated when the system is built, so they are a
  parameter: a decoder maps the operations it knows to what they do with the bytes that
  start at the packet.
\<close>

section \<open>The socket\<close>

text \<open>\<open>rd\<close> is the system's \<open>recv\<close>, without the calls that were interrupted.\<close>

definition SocketStream_read :: "(nat \<Rightarrow> 's \<Rightarrow> bytes option \<times> 's) \<Rightarrow> nat \<Rightarrow> 's \<Rightarrow> bytes option \<times> 's" where
  "SocketStream_read rd len s =
     (let (r, s) = rd len s
      in case r of None \<Rightarrow> (None, s) | Some bs \<Rightarrow> if bs = [] then (None, s) else (Some bs, s))"

function readFully :: "(nat \<Rightarrow> 's \<Rightarrow> bytes option \<times> 's) \<Rightarrow> nat \<Rightarrow> 's \<Rightarrow> bytes option \<times> 's" where
  "readFully rd res s =
     (if res = 0 then (Some [], s)
      else
        let (r, s) = rd res s
        in case r of
             None \<Rightarrow> (None, s)
           | Some bs \<Rightarrow> if bs = [] then (None, s)
               else let (r, s) = readFully rd (res - length bs) s in (map_option ((@) bs) r, s))"
  by auto
termination by (relation "measure (\<lambda>(rd, res, s). res)") auto

declare readFully.simps [simp del]

section \<open>The buffer\<close>

definition SIZE_T :: nat where "SIZE_T = 2 ^ 64"

definition INT_MAX :: nat where "INT_MAX = 2 ^ 31 - 1"

definition STREAM_BUFFER_SIZE :: nat where "STREAM_BUFFER_SIZE = 4 * 1024 * 1024"

text \<open>\<open>m_buf\<close> is the memory of the buffer, and \<open>rb_read\<close> the distance of \<open>m_readPtr\<close> from its start.\<close>

record read_buffer =
  rb_buf :: bytes
  rb_read :: nat
  rb_size :: nat
  rb_validData :: nat

definition ReadBuffer :: "(nat \<Rightarrow> char) \<Rightarrow> nat \<Rightarrow> read_buffer" where
  "ReadBuffer mem bufsize = \<lparr>rb_buf = map mem [0..<bufsize], rb_read = 0, rb_size = bufsize, rb_validData = 0\<rparr>"

text \<open>The bytes at \<open>buf()\<close>, as many as \<open>validData()\<close>.\<close>

definition rb_data :: "read_buffer \<Rightarrow> bytes" where
  "rb_data rb = take (rb_validData rb) (drop (rb_read rb) (rb_buf rb))"

definition memmove :: "bytes \<Rightarrow> nat \<Rightarrow> nat \<Rightarrow> bytes" where
  "memmove buf from n = take n (drop from buf) @ drop n buf"

text \<open>\<open>realloc n\<close> is None without memory, and otherwise what is found in the new part.\<close>

definition grow :: "(nat \<Rightarrow> (nat \<Rightarrow> char) option) \<Rightarrow> read_buffer \<Rightarrow> read_buffer option" where
  "grow realloc rb =
     (let new_size = rb_size rb * 2 mod SIZE_T;
          new_size = (if new_size < rb_size rb then INT_MAX else new_size)
      in case realloc new_size of
           None \<Rightarrow> None
         | Some mem \<Rightarrow> Some (rb\<lparr>rb_size := new_size, rb_buf := take new_size (rb_buf rb @ map mem [rb_size rb..<new_size])\<rparr>))"

text \<open>The buffer with the data at its start, and with room for more behind it, if there is memory.\<close>

definition make_room :: "(nat \<Rightarrow> (nat \<Rightarrow> char) option) \<Rightarrow> read_buffer \<Rightarrow> read_buffer \<times> read_buffer option" where
  "make_room realloc rb =
     (let rb = (if 0 < rb_validData rb \<and> 0 < rb_read rb
                then rb\<lparr>rb_buf := memmove (rb_buf rb) (rb_read rb) (rb_validData rb)\<rparr> else rb)
      in (rb, if rb_size rb - rb_validData rb = 0 then grow realloc rb else Some rb))"

text \<open>The result is an \<open>int\<close>.\<close>

definition getData ::
  "(nat \<Rightarrow> (nat \<Rightarrow> char) option) \<Rightarrow> (nat \<Rightarrow> 's \<Rightarrow> bytes option \<times> 's) \<Rightarrow> read_buffer \<Rightarrow> 's \<Rightarrow> int \<times> read_buffer \<times> 's" where
  "getData realloc rd rb s =
     (case make_room realloc rb of
        (rb, None) \<Rightarrow> (- 1, rb, s)
      | (_, Some rb) \<Rightarrow>
          let rb = rb\<lparr>rb_read := 0\<rparr>;
              (r, s) = SocketStream_read rd (rb_size rb - rb_validData rb) s
          in case r of
               None \<Rightarrow> (- 1, rb, s)
             | Some bs \<Rightarrow>
                 (sint (word_of_nat (length bs) :: 32 word),
                  rb\<lparr>rb_buf := take (rb_validData rb) (rb_buf rb) @ bs @ drop (rb_validData rb + length bs) (rb_buf rb),
                     rb_validData := rb_validData rb + length bs\<rparr>, s))"

definition consume :: "nat \<Rightarrow> read_buffer \<Rightarrow> fault + read_buffer" where
  "consume amount rb =
     (if amount \<le> rb_validData rb
      then Inr (rb\<lparr>rb_validData := rb_validData rb - amount, rb_read := rb_read rb + amount\<rparr>)
      else Inl Panic)"

section \<open>Decoding\<close>

type_synonym 'w decoder = "32 word \<Rightarrow> (bytes \<Rightarrow> 'w \<Rightarrow> fault + 'w) option"

text \<open>The packet's length is compared as an unsigned number and added as a signed one.\<close>

definition advance :: "nat \<Rightarrow> 32 word \<Rightarrow> nat" where
  "advance pos packetLen = nat ((int pos + sint packetLen) mod int SIZE_T)"

text \<open>\<open>decode\<close>; None when the loop does not end.\<close>

partial_function (option) decode :: "'w decoder \<Rightarrow> bytes \<Rightarrow> nat \<Rightarrow> 'w \<Rightarrow> (fault + nat \<times> 'w) option" where
  "decode ops buf pos w =
     (if length buf - pos < 8 then Some (Inr (pos, w))
      else
        let opcode = get4LE (drop pos buf); packetLen = get4LE (drop (pos + 4) buf)
        in if length buf - pos < unat packetLen then Some (Inr (pos, w))
           else case ops opcode of
                  None \<Rightarrow> Some (Inr (pos, w))
                | Some f \<Rightarrow>
                    (case f (drop pos buf) w of
                       Inl e \<Rightarrow> Some (Inl e)
                     | Inr w \<Rightarrow> decode ops buf (advance pos packetLen) w))"

declare decode.simps [code]

text \<open>One round of the inner loop of \<open>Main\<close>: every decoder once, in their order. The first result says whether there
  was progress.\<close>

fun decode_round :: "'w decoder list \<Rightarrow> read_buffer \<Rightarrow> 'w \<Rightarrow> (fault + bool \<times> read_buffer \<times> 'w) option" where
  "decode_round [] rb w = Some (Inr (False, rb, w))"
| "decode_round (d # ds) rb w =
     (case decode d (rb_data rb) 0 w of
        None \<Rightarrow> None
      | Some (Inl e) \<Rightarrow> Some (Inl e)
      | Some (Inr (n, w)) \<Rightarrow>
          (case (if 0 < n then consume n rb else Inr rb) of
             Inl e \<Rightarrow> Some (Inl e)
           | Inr rb \<Rightarrow>
               (case decode_round ds rb w of
                  None \<Rightarrow> None
                | Some (Inl e) \<Rightarrow> Some (Inl e)
                | Some (Inr (progress, rb, w)) \<Rightarrow> Some (Inr (0 < n \<or> progress, rb, w)))))"

partial_function (option) decode_rounds ::
  "'w decoder list \<Rightarrow> read_buffer \<Rightarrow> 'w \<Rightarrow> (fault + read_buffer \<times> 'w) option" where
  "decode_rounds ds rb w =
     (case decode_round ds rb w of
        None \<Rightarrow> None
      | Some (Inl e) \<Rightarrow> Some (Inl e)
      | Some (Inr (progress, rb, w)) \<Rightarrow> if progress then decode_rounds ds rb w else Some (Inr (rb, w)))"

declare decode_rounds.simps [code]

text \<open>The loop of \<open>Main\<close> until the stream ends; the statistics and the dump of the stream are left out.\<close>

partial_function (option) render_main ::
  "(nat \<Rightarrow> (nat \<Rightarrow> char) option) \<Rightarrow> (nat \<Rightarrow> 's \<Rightarrow> bytes option \<times> 's) \<Rightarrow> 'w decoder list \<Rightarrow> read_buffer \<Rightarrow> 's \<Rightarrow> 'w \<Rightarrow>
   (fault + read_buffer \<times> 's \<times> 'w) option" where
  "render_main realloc rd ds rb s w =
     (let (stat, rb, s) = getData realloc rd rb s
      in if stat \<le> 0 then Some (Inr (rb, s, w))
         else case decode_rounds ds rb w of
                None \<Rightarrow> None
              | Some (Inl e) \<Rightarrow> Some (Inl e)
              | Some (Inr (rb, w)) \<Rightarrow> render_main realloc rd ds rb s w)"

declare render_main.simps [code]

section \<open>Packets\<close>

text \<open>What an encoder writes: the operation, the length of the whole packet, the arguments.\<close>

type_synonym wire_packet = "32 word \<times> bytes"

definition packet_len :: "wire_packet \<Rightarrow> 32 word" where
  "packet_len p = word_of_nat (8 + length (snd p))"

definition enc_packet :: "wire_packet \<Rightarrow> bytes" where
  "enc_packet p = put4LE (fst p) @ put4LE (packet_len p) @ snd p"

definition enc_packets :: "wire_packet list \<Rightarrow> bytes" where
  "enc_packets ps = concat (map enc_packet ps)"

text \<open>The beginning of a packet that has not arrived completely.\<close>

definition partial :: "bytes \<Rightarrow> bool" where
  "partial r \<longleftrightarrow> length r < 8 \<or> length r < unat (get4LE (drop 4 r))"

text \<open>The first decoder that knows an operation, and the packets carried out one after the other.\<close>

fun handler :: "'w decoder list \<Rightarrow> 'w decoder" where
  "handler [] op = None"
| "handler (d # ds) op = (case d op of None \<Rightarrow> handler ds op | Some f \<Rightarrow> Some f)"

fun run_packets :: "'w decoder \<Rightarrow> wire_packet list \<Rightarrow> 'w \<Rightarrow> fault + 'w" where
  "run_packets H [] w = Inr w"
| "run_packets H (p # ps) w = (case H (fst p) of None \<Rightarrow> Inr w | Some f \<Rightarrow> bindE (f (enc_packet p) w) (run_packets H ps))"

text \<open>No operation is known to two decoders.\<close>

fun disjoint :: "'w decoder list \<Rightarrow> bool" where
  "disjoint [] \<longleftrightarrow> True"
| "disjoint (d # ds) \<longleftrightarrow> (\<forall>op. d op \<noteq> None \<longrightarrow> handler ds op = None) \<and> disjoint ds"

text \<open>A packet is known and short, and what its operation does depends on nothing behind it.\<close>

definition packet_ok :: "'w decoder \<Rightarrow> wire_packet \<Rightarrow> bool" where
  "packet_ok H p \<longleftrightarrow> 8 + length (snd p) < 2 ^ 31 \<and>
     (case H (fst p) of None \<Rightarrow> False | Some f \<Rightarrow> \<forall>rest w. f (enc_packet p @ rest) w = f (enc_packet p) w)"

lemma enc_packets_simps [simp]:
  "enc_packets [] = []" "enc_packets (p # ps) = enc_packet p @ enc_packets ps"
  "enc_packets (ps @ qs) = enc_packets ps @ enc_packets qs"
  by (simp_all add: enc_packets_def)

lemma length_enc_packet [simp]: "length (enc_packet p) = 8 + length (snd p)"
  by (simp add: enc_packet_def)

lemma enc_packet_fields [simp]:
  "get4LE (enc_packet p @ rest) = fst p" "get4LE (drop 4 (enc_packet p) @ rest) = packet_len p"
  by (simp_all add: enc_packet_def)

lemma packet_ok_length: "packet_ok H p \<Longrightarrow> unat (packet_len p) = 8 + length (snd p)"
  by (simp add: packet_ok_def packet_len_def unat_of_nat del: of_nat_add)

lemma get4LE_take: "4 \<le> n \<Longrightarrow> get4LE (take n bs) = get4LE bs"
  by (simp add: get4LE_def)

lemma get4LE_append: "4 \<le> length a \<Longrightarrow> get4LE (a @ b) = get4LE a"
proof -
  assume "4 \<le> length a"
  then obtain c0 c1 c2 c3 a' where "a = c0 # c1 # c2 # c3 # a'" by (auto simp: Suc_le_length_iff numeral_eq_Suc)
  then show ?thesis by (simp add: get4LE_def)
qed

lemma packet_ok_known: "packet_ok H p \<Longrightarrow> H (fst p) \<noteq> None"
  by (auto simp: packet_ok_def split: option.splits)

lemma advance_less:
  assumes "pos + unat n < 2 ^ 31"
  shows "advance pos n = pos + unat n"
proof -
  have "int (unat n) < int (2 ^ 31)" using assms by (simp only: of_nat_less_iff)
  then have "sint n = uint n" by (intro sint_small) simp
  then have "sint n = int (unat n)" by simp
  then have "int pos + sint n = int (pos + unat n)" by simp
  then have "advance pos n = nat (int (pos + unat n) mod int SIZE_T)" by (simp only: advance_def)
  also have "\<dots> = (pos + unat n) mod SIZE_T" by (simp only: zmod_int [symmetric] nat_int)
  also have "\<dots> = pos + unat n" using assms by (intro mod_less) (simp add: SIZE_T_def)
  finally show ?thesis .
qed

lemma decode_step:
  assumes ok: "packet_ok d p" and f: "d (fst p) = Some f" and b: "length (pre @ enc_packet p @ rest) < 2 ^ 31"
  shows "decode d (pre @ enc_packet p @ rest) (length pre) w =
    (case f (enc_packet p) w of
       Inl e \<Rightarrow> Some (Inl e)
     | Inr w \<Rightarrow> decode d (pre @ enc_packet p @ rest) (length (pre @ enc_packet p)) w)"
proof -
  let ?buf = "pre @ enc_packet p @ rest"
  have u: "unat (packet_len p) = 8 + length (snd p)" by (rule packet_ok_length [OF ok])
  have loc: "f (enc_packet p @ rest) w = f (enc_packet p) w" using ok f by (auto simp: packet_ok_def)
  have adv: "advance (length pre) (packet_len p) = length (pre @ enc_packet p)"
    using b by (subst advance_less) (simp_all only: u, simp_all)
  have fields: "drop (length pre) ?buf = enc_packet p @ rest" "get4LE (drop (length pre + 4) ?buf) = packet_len p"
    by (simp_all add: add.commute [of _ 4] flip: drop_drop)
  have room: "\<not> length ?buf - length pre < 8" "\<not> length ?buf - length pre < unat (packet_len p)" by (simp_all add: u)
  show ?thesis
    by (subst decode.simps) (simp only: Let_def fields room if_False enc_packet_fields(1) f option.case loc adv)
qed

text \<open>A decoder carries out the packets that are its own and stops at the first that is not, or not complete.\<close>

lemma decode_packets:
  assumes "\<forall>p \<in> set ps. packet_ok d p" "partial r \<or> d (get4LE r) = None" "length (pre @ enc_packets ps @ r) < 2 ^ 31"
  shows "decode d (pre @ enc_packets ps @ r) (length pre) w =
    Some (bindE (run_packets d ps w) (\<lambda>w. Inr (length pre + length (enc_packets ps), w)))"
  using assms
proof (induction ps arbitrary: pre w)
  case Nil
  then show ?case by (subst decode.simps) (auto simp: Let_def partial_def drop_drop add.commute [of 4])
next
  case (Cons p ps)
  have ok: "packet_ok d p" using Cons.prems by simp
  then obtain f where f: "d (fst p) = Some f" by (auto simp: packet_ok_def split: option.splits)
  have b: "length (pre @ enc_packet p @ enc_packets ps @ r) < 2 ^ 31" using Cons.prems(3) by simp
  have "decode d (pre @ enc_packet p @ enc_packets ps @ r) (length (pre @ enc_packet p)) w' =
    Some (bindE (run_packets d ps w') (\<lambda>w. Inr (length pre + length (enc_packets (p # ps)), w)))" for w'
    using Cons.IH [of "pre @ enc_packet p" w'] Cons.prems by (simp add: add.assoc)
  then show ?case using decode_step [OF ok f b, of w] f by (simp split: sum.split)
qed

section \<open>The buffer keeps the bytes\<close>

definition rb_ok :: "read_buffer \<Rightarrow> bool" where
  "rb_ok rb \<longleftrightarrow> length (rb_buf rb) = rb_size rb \<and> rb_read rb + rb_validData rb \<le> rb_size rb \<and> 0 < rb_size rb \<and> rb_size rb \<le> 2 ^ 32"

lemma ReadBuffer_ok: "0 < n \<Longrightarrow> n \<le> 2 ^ 32 \<Longrightarrow> rb_ok (ReadBuffer mem n) \<and> rb_data (ReadBuffer mem n) = []"
  by (simp add: rb_ok_def ReadBuffer_def rb_data_def)

lemma length_rb_data: "rb_ok rb \<Longrightarrow> length (rb_data rb) = rb_validData rb"
  unfolding rb_ok_def rb_data_def by auto

lemma consume_ok:
  assumes "rb_ok rb" "rb_data rb = x @ y" "n = length x"
  obtains rb' where "consume n rb = Inr rb'" "rb_ok rb'" "rb_data rb' = y"
proof -
  have n: "n \<le> rb_validData rb" using length_rb_data [OF assms(1)] assms(2,3) by simp
  let ?rb = "rb\<lparr>rb_validData := rb_validData rb - n, rb_read := rb_read rb + n\<rparr>"
  have "rb_data ?rb = drop n (rb_data rb)" by (simp add: rb_data_def drop_take add.commute)
  then have "rb_data ?rb = y" using assms(2,3) by simp
  then show thesis using n assms(1) by (intro that [of ?rb]) (auto simp: consume_def rb_ok_def)
qed

text \<open>The buffer after \<open>memmove\<close> and, when it was full, \<open>realloc\<close>.\<close>

lemma grow_ok:
  assumes l: "length (rb_buf rb) = rb_size rb" and full: "rb_size rb = rb_validData rb" "rb_validData rb < 2 ^ 31" and mem: "\<forall>n. realloc n \<noteq> None"
  obtains rb' where "grow realloc rb = Some rb'" "length (rb_buf rb') = rb_size rb'" "rb_size rb' = 2 * rb_size rb"
    "rb_validData rb' = rb_validData rb" "take (rb_validData rb) (rb_buf rb') = rb_buf rb"
proof -
  have n: "rb_size rb * 2 mod SIZE_T = rb_size rb * 2" using full by (intro mod_less) (simp add: SIZE_T_def)
  obtain m where m: "realloc (rb_size rb * 2) = Some m" using mem by blast
  have "grow realloc rb = Some (rb\<lparr>rb_size := rb_size rb * 2,
      rb_buf := take (rb_size rb * 2) (rb_buf rb @ map m [rb_size rb..<rb_size rb * 2])\<rparr>)"
    by (simp add: grow_def n m Let_def)
  then show thesis by (rule that) (use l full in simp_all)
qed

lemma make_room_ok:
  assumes ok: "rb_ok rb" and v: "rb_validData rb < 2 ^ 31" and mem: "\<forall>n. realloc n \<noteq> None"
  obtains rb0 rb' where "make_room realloc rb = (rb0, Some rb')" "length (rb_buf rb') = rb_size rb'" "rb_size rb' \<le> 2 ^ 32"
    "rb_validData rb' = rb_validData rb" "rb_validData rb' < rb_size rb'" "take (rb_validData rb) (rb_buf rb') = rb_data rb"
proof -
  define rb1 where "rb1 = (if 0 < rb_validData rb \<and> 0 < rb_read rb
    then rb\<lparr>rb_buf := memmove (rb_buf rb) (rb_read rb) (rb_validData rb)\<rparr> else rb)"
  have "length (memmove (rb_buf rb) (rb_read rb) (rb_validData rb)) = rb_size rb"
    using ok by (auto simp: memmove_def rb_ok_def)
  then have one: "length (rb_buf rb1) = rb_size rb" "rb_size rb1 = rb_size rb" "rb_validData rb1 = rb_validData rb"
    using ok by (simp_all add: rb1_def rb_ok_def)
  have data: "take (rb_validData rb) (rb_buf rb1) = rb_data rb"
    using ok length_rb_data [OF ok] by (auto simp: rb1_def memmove_def rb_data_def)
  have r: "make_room realloc rb = (rb1, if rb_size rb1 - rb_validData rb1 = 0 then grow realloc rb1 else Some rb1)"
    by (simp add: make_room_def Let_def rb1_def)
  have le: "rb_validData rb \<le> rb_size rb" "rb_size rb \<le> 2 ^ 32" "0 < rb_size rb" using ok by (simp_all add: rb_ok_def)
  show thesis
  proof (cases "rb_size rb = rb_validData rb")
    case False
    with le one r data show thesis by (intro that [of rb1 rb1]) simp_all
  next
    case True
    obtain rb2 where "grow realloc rb1 = Some rb2" "length (rb_buf rb2) = rb_size rb2" "rb_size rb2 = 2 * rb_size rb"
      "rb_validData rb2 = rb_validData rb" "take (rb_validData rb) (rb_buf rb2) = rb_buf rb1"
      using grow_ok [of rb1 realloc] one v mem True by auto
    moreover from this data one True have "take (rb_validData rb) (rb_buf rb2) = rb_data rb" by simp
    ultimately show thesis using le v r one by (intro that [of rb1 rb2]) (simp_all add: True)
  qed
qed

section \<open>The rounds of the decoders\<close>

text \<open>\<open>H\<close> is what the decoders know together.\<close>

definition together :: "'w decoder list \<Rightarrow> 'w decoder \<Rightarrow> bool" where
  "together ds H \<longleftrightarrow> (\<forall>d \<in> set ds. \<forall>op f. d op = Some f \<longrightarrow> H op = Some f)"

lemma handler_None: "handler ds op = None \<longleftrightarrow> (\<forall>d \<in> set ds. d op = None)"
  by (induction ds) (auto split: option.splits)

lemma handler_together: "disjoint ds \<Longrightarrow> together ds (handler ds)"
  by (induction ds) (auto simp: together_def handler_None split: option.splits, metis option.distinct(1))

lemma run_packets_append:
  "\<forall>p \<in> set ps. H (fst p) \<noteq> None \<Longrightarrow> run_packets H (ps @ qs) w = bindE (run_packets H ps w) (run_packets H qs)"
  by (induction ps arbitrary: w) (auto simp: bindE_def split: option.splits sum.splits)

lemma run_packets_own:
  "\<forall>p \<in> set ps. \<exists>f. d (fst p) = Some f \<and> H (fst p) = Some f \<Longrightarrow> run_packets d ps w = run_packets H ps w"
proof (induction ps arbitrary: w)
  case (Cons p ps)
  then obtain f where "d (fst p) = Some f" "H (fst p) = Some f" by auto
  with Cons show ?case by (simp add: bindE_def split: sum.split)
qed simp

lemma packet_ok_own: "packet_ok H p \<Longrightarrow> d (fst p) = Some f \<Longrightarrow> H (fst p) = Some f \<Longrightarrow> packet_ok d p"
  by (simp add: packet_ok_def)

text \<open>One decoder takes the packets at the front that are its own.\<close>

lemma decode_front:
  assumes d: "\<forall>op f. d op = Some f \<longrightarrow> H op = Some f" and ok: "\<forall>p \<in> set ps. packet_ok H p" and r: "partial r"
    and len: "length (enc_packets ps @ r) < 2 ^ 31"
  obtains ps1 ps2 where "ps = ps1 @ ps2" "ps \<noteq> [] \<Longrightarrow> d (fst (hd ps)) \<noteq> None \<Longrightarrow> ps1 \<noteq> []"
    "decode d (enc_packets ps @ r) 0 w = Some (bindE (run_packets H ps1 w) (\<lambda>w. Inr (length (enc_packets ps1), w)))"
proof -
  let ?own = "\<lambda>p. d (fst p) \<noteq> None"
  define ps1 where "ps1 = takeWhile ?own ps"
  define ps2 where "ps2 = dropWhile ?own ps"
  have ps: "ps = ps1 @ ps2" by (simp add: ps1_def ps2_def)
  have own: "\<exists>f. d (fst p) = Some f \<and> H (fst p) = Some f" if "p \<in> set ps1" for p
    using that d by (auto simp: ps1_def dest: set_takeWhileD)
  then have ok1: "\<forall>p \<in> set ps1. packet_ok d p" using ok ps by (metis packet_ok_own set_append UnI1)
  have stop: "partial (enc_packets ps2 @ r) \<or> d (get4LE (enc_packets ps2 @ r)) = None"
  proof (cases ps2)
    case Nil
    with r show ?thesis by simp
  next
    case (Cons p qs)
    then have "d (fst p) = None" by (metis (mono_tags) hd_dropWhile list.sel(1) list.distinct(1) ps2_def)
    with Cons show ?thesis by simp
  qed
  have "decode d (enc_packets ps @ r) 0 w = Some (bindE (run_packets d ps1 w) (\<lambda>w. Inr (length (enc_packets ps1), w)))"
    using decode_packets [OF ok1 stop, of "[]" w] len by (simp add: ps)
  also have "run_packets d ps1 w = run_packets H ps1 w" using own by (intro run_packets_own) blast
  finally have dec: "decode d (enc_packets ps @ r) 0 w = Some (bindE (run_packets H ps1 w) (\<lambda>w. Inr (length (enc_packets ps1), w)))" .
  show thesis by (rule that [OF ps _ dec]) (cases ps; simp add: ps1_def)
qed

text \<open>A round: it carries out packets from the front and leaves the rest in the buffer.\<close>

lemma decode_round_packets:
  assumes "together ds H" "\<forall>p \<in> set ps. packet_ok H p" "partial r" "rb_ok rb" "rb_data rb = enc_packets ps @ r"
    "length (enc_packets ps @ r) < 2 ^ 31"
  shows "\<exists>ps1 ps2 rb'. ps = ps1 @ ps2 \<and> (ps \<noteq> [] \<longrightarrow> (\<exists>d \<in> set ds. d (fst (hd ps)) \<noteq> None) \<longrightarrow> ps1 \<noteq> []) \<and>
    rb_ok rb' \<and> rb_data rb' = enc_packets ps2 @ r \<and>
    decode_round ds rb w = Some (bindE (run_packets H ps1 w) (\<lambda>w. Inr (ps1 \<noteq> [], rb', w)))"
  using assms
proof (induction ds arbitrary: ps rb w)
  case Nil
  then show ?case by (intro exI [of _ "[]"] exI [of _ ps] exI [of _ rb]) simp
next
  case (Cons d ds)
  have t: "\<forall>op f. d op = Some f \<longrightarrow> H op = Some f" "together ds H" using Cons.prems(1) by (simp_all add: together_def)
  obtain ps1 ps' where ps: "ps = ps1 @ ps'" and first: "ps \<noteq> [] \<Longrightarrow> d (fst (hd ps)) \<noteq> None \<Longrightarrow> ps1 \<noteq> []" and
    dec: "decode d (enc_packets ps @ r) 0 w = Some (bindE (run_packets H ps1 w) (\<lambda>w. Inr (length (enc_packets ps1), w)))"
    using decode_front [OF t(1) Cons.prems(2,3,6), of w] by metis
  obtain rb1 where rb1: "consume (length (enc_packets ps1)) rb = Inr rb1" "rb_ok rb1" "rb_data rb1 = enc_packets ps' @ r"
    using consume_ok [OF Cons.prems(4), of "enc_packets ps1" "enc_packets ps' @ r"] Cons.prems(5) ps by auto
  have same: "rb1 = rb" if "ps1 = []" using that rb1(1) by (simp add: consume_def)
  have pos: "0 < length (enc_packets ps1) \<longleftrightarrow> ps1 \<noteq> []" by (cases ps1) auto
  have sub: "\<forall>p \<in> set ps'. packet_ok H p" "length (enc_packets ps' @ r) < 2 ^ 31" using Cons.prems(2,6) ps by simp_all
  show ?case
  proof (cases "run_packets H ps1 w")
    case (Inl e)
    then have "ps1 \<noteq> []" by auto
    moreover have "decode_round (d # ds) rb w = Some (Inl e)" using Inl by (simp add: Cons.prems(5) dec)
    ultimately show ?thesis using Inl ps rb1
      by - (rule exI [of _ ps1], rule exI [of _ ps'], rule exI [of _ rb1], simp del: decode_round.simps)
  next
    case (Inr w1)
    from Cons.IH [OF t(2) sub(1) Cons.prems(3) rb1(2,3) sub(2), of w1]
    obtain ps2 ps3 rb' where IH: "ps' = ps2 @ ps3" "ps' \<noteq> [] \<longrightarrow> (\<exists>d \<in> set ds. d (fst (hd ps')) \<noteq> None) \<longrightarrow> ps2 \<noteq> []"
      "rb_ok rb'" "rb_data rb' = enc_packets ps3 @ r"
      "decode_round ds rb1 w1 = Some (bindE (run_packets H ps2 w1) (\<lambda>w. Inr (ps2 \<noteq> [], rb', w)))" by blast
    have known: "\<forall>p \<in> set ps1. H (fst p) \<noteq> None" using Cons.prems(2) ps packet_ok_known by fastforce
    have round: "decode_round (d # ds) rb w = Some (bindE (run_packets H (ps1 @ ps2) w) (\<lambda>w. Inr (ps1 @ ps2 \<noteq> [], rb', w)))"
    proof -
      have c: "(if 0 < length (enc_packets ps1) then consume (length (enc_packets ps1)) rb else Inr rb) = Inr rb1"
        using rb1(1) same pos by auto
      have all: "run_packets H (ps1 @ ps2) w = run_packets H ps2 w1" by (simp add: run_packets_append [OF known] Inr)
      show ?thesis
      proof (cases "run_packets H ps2 w1")
        case (Inl e)
        then show ?thesis
          by (simp only: decode_round.simps Cons.prems(5) dec Inr bindE_simps option.case sum.case prod.case c IH(5) all)
      next
        case (Inr w2)
        then show ?thesis
          by (simp only: decode_round.simps Cons.prems(5) dec \<open>run_packets H ps1 w = Inr w1\<close> bindE_simps option.case sum.case
              prod.case c IH(5) all) (use pos in simp)
      qed
    qed
    show ?thesis
    proof (rule exI [of _ "ps1 @ ps2"], rule exI [of _ ps3], rule exI [of _ rb'], intro conjI impI)
      assume a: "ps \<noteq> []" "\<exists>d' \<in> set (d # ds). d' (fst (hd ps)) \<noteq> None"
      show "ps1 @ ps2 \<noteq> []"
      proof (cases "ps1 = []")
        case True
        then have "ps' = ps" and "d (fst (hd ps)) = None" using ps first [OF a(1)] by (simp, blast)
        with a IH(2) show ?thesis by simp
      qed simp
    qed (use ps IH round in simp_all)
  qed
qed

lemma decode_rounds_packets:
  assumes "together ds H" "\<forall>op. H op \<noteq> None \<longrightarrow> (\<exists>d \<in> set ds. d op \<noteq> None)" "partial r"
    and "\<forall>p \<in> set ps. packet_ok H p" "rb_ok rb" "rb_data rb = enc_packets ps @ r" "length (enc_packets ps @ r) < 2 ^ 31"
  shows "\<exists>rb'. rb_ok rb' \<and> rb_data rb' = r \<and> decode_rounds ds rb w = Some (bindE (run_packets H ps w) (\<lambda>w. Inr (rb', w)))"
  using assms(4-)
proof (induction "length ps" arbitrary: ps rb w rule: less_induct)
  case less
  from decode_round_packets [OF assms(1) less.prems(1) assms(3) less.prems(2-4), of w]
  obtain ps1 ps2 rb1 where ps: "ps = ps1 @ ps2" and first: "ps \<noteq> [] \<longrightarrow> (\<exists>d \<in> set ds. d (fst (hd ps)) \<noteq> None) \<longrightarrow> ps1 \<noteq> []"
    and rb1: "rb_ok rb1" "rb_data rb1 = enc_packets ps2 @ r"
      "decode_round ds rb w = Some (bindE (run_packets H ps1 w) (\<lambda>w. Inr (ps1 \<noteq> [], rb1, w)))" by blast
  show ?case
  proof (cases "ps = []")
    case True
    with ps rb1 show ?thesis by (intro exI [of _ rb1]) (simp add: decode_rounds.simps [of ds rb])
  next
    case False
    then have "H (fst (hd ps)) \<noteq> None" using less.prems(1) packet_ok_known by (metis list.set_sel(1))
    with assms(2) first False have ne: "ps1 \<noteq> []" by blast
    have known: "\<forall>p \<in> set ps1. H (fst p) \<noteq> None" using less.prems(1) ps packet_ok_known by fastforce
    show ?thesis
    proof (cases "run_packets H ps1 w")
      case (Inl e)
      with rb1 ps less.prems(2) have "decode_rounds ds rb w = Some (Inl e)" by (simp add: decode_rounds.simps [of ds rb])
      moreover obtain rb' where "rb_ok rb'" "rb_data rb' = r"
        using consume_ok [OF rb1(1,2) refl] by metis
      ultimately show ?thesis using Inl ps by (intro exI [of _ rb']) (simp add: run_packets_append [OF known])
    next
      case (Inr w1)
      have "length ps2 < length ps" using ps ne by simp
      from less.hyps [OF this _ rb1(1,2), of w1] less.prems(1,4) ps
      obtain rb' where "rb_ok rb'" "rb_data rb' = r" "decode_rounds ds rb1 w1 = Some (bindE (run_packets H ps2 w1) (\<lambda>w. Inr (rb', w)))"
        by auto
      with Inr rb1(3) ne show ?thesis
        by (intro exI [of _ rb']) (simp add: decode_rounds.simps [of ds rb] ps run_packets_append [OF known])
    qed
  qed
qed

text \<open>What has arrived of a sequence of packets: whole ones and a beginning.\<close>

lemma split_packets:
  assumes "enc_packets ps @ r = x @ y" "partial r" "\<forall>p \<in> set ps. packet_ok H p"
  obtains ps1 ps2 r1 where "ps = ps1 @ ps2" "x = enc_packets ps1 @ r1" "partial r1" "enc_packets ps2 @ r = r1 @ y"
  using assms
proof (induction ps arbitrary: x thesis)
  case Nil
  have "partial x"
    using Nil.prems(2,3) get4LE_append [of "drop 4 x" y]
    by (cases "length x < 8") (auto simp: partial_def)
  with Nil.prems show ?case by (intro Nil.prems(1) [of "[]" "[]" x]) auto
next
  case (Cons p ps)
  have u: "unat (packet_len p) = length (enc_packet p)" using packet_ok_length [of H p] Cons.prems(4) by auto
  show ?case
  proof (cases "length (enc_packet p) \<le> length x")
    case True
    then obtain x' where x: "x = enc_packet p @ x'" using Cons.prems(2)
      by (metis append_assoc append_eq_append_conv_if append_take_drop_id enc_packets_simps(2))
    then have "enc_packets ps @ r = x' @ y" using Cons.prems(2) by simp
    from Cons.IH [OF _ this Cons.prems(3)] Cons.prems(4) obtain ps1 ps2 r1 where
      "ps = ps1 @ ps2" "x' = enc_packets ps1 @ r1" "partial r1" "enc_packets ps2 @ r = r1 @ y" by auto
    with x show ?thesis by (intro Cons.prems(1) [of "p # ps1" ps2 r1]) auto
  next
    case False
    then have x: "x = take (length x) (enc_packet p)" using Cons.prems(2)
      by (metis append_eq_conv_conj append_assoc enc_packets_simps(2) nat_le_linear take_append take_all append_Nil2 diff_is_0_eq' take0)
    have "partial x"
    proof (cases "length x < 8")
      case False
      then have "get4LE (drop 4 x) = get4LE (drop 4 (enc_packet p))"
        by (subst x) (simp add: drop_take get4LE_take)
      also have "\<dots> = packet_len p" using enc_packet_fields(2) [of p "[]"] by simp
      finally show ?thesis using u \<open>\<not> length (enc_packet p) \<le> length x\<close> by (simp add: partial_def)
    qed (simp add: partial_def)
    with Cons.prems(2) show ?thesis by (intro Cons.prems(1) [of "[]" "p # ps" x]) auto
  qed
qed

context byte_source
begin

lemma getData_end:
  assumes ok: "rb_ok rb" and v: "rb_validData rb < 2 ^ 31" and mem: "\<forall>n. realloc n \<noteq> None" and e: "left s = []"
  shows "\<exists>rb' s'. getData realloc rd rb s = (- 1, rb', s') \<and> rb_data rb' = rb_data rb"
proof -
  from make_room_ok [OF ok v mem] obtain rb0 rb1 where rb1: "make_room realloc rb = (rb0, Some rb1)" "length (rb_buf rb1) = rb_size rb1"
    "rb_validData rb1 = rb_validData rb" "rb_validData rb1 < rb_size rb1" "take (rb_validData rb) (rb_buf rb1) = rb_data rb" by metis
  from rb1 have "0 < rb_size rb1 - rb_validData rb1" by simp
  from read_end [OF this e] obtain s' where "rd (rb_size rb1 - rb_validData rb1) s = (Some [], s')" by metis
  with rb1 show ?thesis
    by (intro exI [of _ "rb1\<lparr>rb_read := 0\<rparr>"] exI [of _ s']) (simp add: getData_def SocketStream_read_def rb_data_def)
qed

lemma getData_some:
  assumes ok: "rb_ok rb" and v: "length (rb_data rb @ left s) < 2 ^ 31" and mem: "\<forall>n. realloc n \<noteq> None" and e: "left s \<noteq> []"
  shows "\<exists>bs rb' s'. getData realloc rd rb s = (int (length bs), rb', s') \<and> rb_ok rb' \<and> bs \<noteq> [] \<and>
    rb_data rb' = rb_data rb @ bs \<and> left s = bs @ left s'"
proof -
  have v': "rb_validData rb < 2 ^ 31" using v length_rb_data [OF ok] by simp
  from make_room_ok [OF ok v' mem] obtain rb0 rb1 where rb1: "make_room realloc rb = (rb0, Some rb1)" "length (rb_buf rb1) = rb_size rb1"
    "rb_size rb1 \<le> 2 ^ 32" "rb_validData rb1 = rb_validData rb" "rb_validData rb1 < rb_size rb1"
    "take (rb_validData rb) (rb_buf rb1) = rb_data rb" by metis
  from rb1 have "0 < rb_size rb1 - rb_validData rb1" by simp
  from read_some [OF this e] obtain bs s' where bs: "rd (rb_size rb1 - rb_validData rb1) s = (Some bs, s')" "left s = bs @ left s'"
    "length bs \<le> rb_size rb1 - rb_validData rb1" "bs \<noteq> []" by metis
  have "length bs < 2 ^ 31" using v bs(2) by simp
  then have n: "sint (word_of_nat (length bs) :: 32 word) = int (length bs)"
    by (subst sint_small) (simp_all add: unsigned_of_nat take_bit_nat_eq_self)
  let ?rb = "rb1\<lparr>rb_read := 0, rb_buf := take (rb_validData rb) (rb_buf rb1) @ bs @ drop (rb_validData rb + length bs) (rb_buf rb1),
    rb_validData := rb_validData rb + length bs\<rparr>"
  have "getData realloc rd rb s = (int (length bs), ?rb, s')"
    using rb1 bs by (simp add: getData_def SocketStream_read_def n)
  moreover have "rb_ok ?rb" using rb1 bs(3) length_rb_data [OF ok] by (auto simp: rb_ok_def)
  moreover have "rb_data ?rb = rb_data rb @ bs" using rb1 length_rb_data [OF ok] by (simp add: rb_data_def)
  ultimately show ?thesis using bs by blast
qed

text \<open>The whole stream, in whatever pieces it arrives.\<close>

lemma render_main_packets:
  assumes H: "together ds H" "\<forall>op. H op \<noteq> None \<longrightarrow> (\<exists>d \<in> set ds. d op \<noteq> None)" "partial r" and mem: "\<forall>n. realloc n \<noteq> None"
    and "\<forall>p \<in> set ps. packet_ok H p" "rb_ok rb" "partial (rb_data rb)" "rb_data rb @ left s = enc_packets ps @ r"
    "length (enc_packets ps @ r) < 2 ^ 31"
  shows "\<exists>rb' s'. rb_data rb' = r \<and>
    render_main realloc rd ds rb s w = Some (bindE (run_packets H ps w) (\<lambda>w. Inr (rb', s', w)))"
  using assms(5-)
proof (induction "length (left s)" arbitrary: s ps rb w rule: less_induct)
  case less
  have v: "rb_validData rb < 2 ^ 31" using less.prems(4,5) length_rb_data [OF less.prems(2)] by (metis le_less_trans le_add1 length_append)
  show ?case
  proof (cases "left s = []")
    case True
    have "ps = []"
    proof (rule ccontr)
      assume "ps \<noteq> []"
      then obtain p qs where ps: "ps = p # qs" by (cases ps) auto
      have "unat (packet_len p) = length (enc_packet p)" using packet_ok_length [of H p] less.prems(1) ps by auto
      with less.prems(3,4) True ps show False by (auto simp: partial_def)
    qed
    with getData_end [OF less.prems(2) v mem True] less.prems(4) True show ?thesis
      by (subst render_main.simps) auto
  next
    case False
    have "length (rb_data rb @ left s) < 2 ^ 31" using less.prems(4,5) by simp
    from getData_some [OF less.prems(2) this mem False] obtain bs rb1 s1 where
      g: "getData realloc rd rb s = (int (length bs), rb1, s1)" "rb_ok rb1" "bs \<noteq> []" "rb_data rb1 = rb_data rb @ bs" "left s = bs @ left s1"
      by blast
    have "enc_packets ps @ r = rb_data rb1 @ left s1" using less.prems(4) g by simp
    from split_packets [OF this H(3) less.prems(1)] obtain ps1 ps2 r1 where
      sp: "ps = ps1 @ ps2" "rb_data rb1 = enc_packets ps1 @ r1" "partial r1" "enc_packets ps2 @ r = r1 @ left s1" by metis
    have len: "length (enc_packets ps1 @ r1) < 2 ^ 31" "length (enc_packets ps2 @ r) < 2 ^ 31"
      using less.prems(4,5) g sp by (simp_all add: \<open>enc_packets ps @ r = rb_data rb1 @ left s1\<close>)
    have ok: "\<forall>p \<in> set ps1. packet_ok H p" "\<forall>p \<in> set ps2. packet_ok H p" using less.prems(1) sp by auto
    have known: "\<forall>p \<in> set ps1. H (fst p) \<noteq> None" using ok packet_ok_known by blast
    from decode_rounds_packets [OF H(1,2) sp(3) ok(1) g(2) sp(2) len(1), of w] obtain rb2 where
      rb2: "rb_ok rb2" "rb_data rb2 = r1" "decode_rounds ds rb1 w = Some (bindE (run_packets H ps1 w) (\<lambda>w. Inr (rb2, w)))" by blast
    have main: "render_main realloc rd ds rb s w = (case run_packets H ps1 w of Inl e \<Rightarrow> Some (Inl e) | Inr w \<Rightarrow> render_main realloc rd ds rb2 s1 w)"
      using g(3) by (subst render_main.simps) (simp add: g(1) rb2(3) split: sum.split)
    have shorter: "length (left s1) < length (left s)" using g by simp
    have IH: "\<exists>rb' s'. rb_data rb' = r \<and> render_main realloc rd ds rb2 s1 w1 = Some (bindE (run_packets H ps2 w1) (\<lambda>w. Inr (rb', s', w)))" for w1
      using less.hyps [OF shorter ok(2) rb2(1)] rb2(2) sp(3,4) len(2) by simp
    show ?thesis
    proof (cases "run_packets H ps1 w")
      case (Inl e)
      with main IH [of w] show ?thesis by (auto simp: sp(1) run_packets_append [OF known])
    next
      case (Inr w1)
      with main IH [of w1] show ?thesis by (auto simp: sp(1) run_packets_append [OF known])
    qed
  qed
qed

text \<open>\<open>readFully\<close> waits for all the bytes it was asked for.\<close>

lemma readFully_some:
  "n \<le> length (left s) \<Longrightarrow> \<exists>s'. readFully rd n s = (Some (take n (left s)), s') \<and> left s' = drop n (left s)"
proof (induction n arbitrary: s rule: less_induct)
  case (less n)
  show ?case
  proof (cases "n = 0")
    case True
    then show ?thesis by (simp add: readFully.simps)
  next
    case False
    then have "left s \<noteq> []" using less.prems by auto
    from read_some [of n, OF _ this] False obtain bs s1 where
      r: "rd n s = (Some bs, s1)" "left s = bs @ left s1" "length bs \<le> n" "bs \<noteq> []" by auto
    then have "n - length bs < n" "n - length bs \<le> length (left s1)" using less.prems False by (cases bs; simp)+
    from less.IH [OF this] obtain s2 where s2: "readFully rd (n - length bs) s1 = (Some (take (n - length bs) (left s1)), s2)"
      "left s2 = drop (n - length bs) (left s1)" by blast
    have "readFully rd n s = (Some (bs @ take (n - length bs) (left s1)), s2)"
      using False r s2 by (subst readFully.simps) simp
    with r s2 show ?thesis by simp
  qed
qed

lemma readFully_none: "length (left s) < n \<Longrightarrow> \<exists>s'. readFully rd n s = (None, s')"
proof (induction n arbitrary: s rule: less_induct)
  case (less n)
  then have n: "0 < n" by simp
  show ?case
  proof (cases "left s = []")
    case True
    from read_end [OF n this] obtain s1 where "rd n s = (Some [], s1)" by metis
    with n show ?thesis by (subst readFully.simps) simp
  next
    case False
    from read_some [OF n this] obtain bs s1 where
      r: "rd n s = (Some bs, s1)" "left s = bs @ left s1" "length bs \<le> n" "bs \<noteq> []" by metis
    then have "n - length bs < n" "length (left s1) < n - length bs" using less.prems n by (cases bs; simp)+
    from less.IH [OF this] obtain s2 where "readFully rd (n - length bs) s1 = (None, s2)" by blast
    with n r show ?thesis by (subst readFully.simps) simp
  qed
qed

text \<open>While no decoder knows what is at the front, the stream is only read.\<close>

lemma render_main_stalls:
  assumes unknown: "\<forall>d \<in> set ds. d op = None" and mem: "\<forall>n. realloc n \<noteq> None"
  shows "rb_ok rb \<Longrightarrow> rb_data rb @ left s = put4LE op @ rest \<Longrightarrow> length (put4LE op @ rest) < 2 ^ 31 \<Longrightarrow>
    \<exists>rb' s'. render_main realloc rd ds rb s w = Some (Inr (rb', s', w)) \<and> rb_data rb' = put4LE op @ rest"
proof (induction "length (left s)" arbitrary: s rb rule: less_induct)
  case less
  have v: "rb_validData rb < 2 ^ 31" using less.prems length_rb_data [OF less.prems(1)] by (metis le_less_trans le_add1 length_append)
  show ?case
  proof (cases "left s = []")
    case True
    with getData_end [OF less.prems(1) v mem True] less.prems(2) show ?thesis by (subst render_main.simps) auto
  next
    case False
    have "length (rb_data rb @ left s) < 2 ^ 31" using less.prems by simp
    from getData_some [OF less.prems(1) this mem False] obtain bs rb1 s1 where
      g: "getData realloc rd rb s = (int (length bs), rb1, s1)" "rb_ok rb1" "bs \<noteq> []" "rb_data rb1 = rb_data rb @ bs" "left s = bs @ left s1"
      by blast
    have all: "rb_data rb1 @ left s1 = put4LE op @ rest" using g less.prems(2) by simp
    have stuck: "decode d (rb_data rb1) 0 w = Some (Inr (0, w))" if "d \<in> set ds" for d
    proof (cases "length (rb_data rb1) < 8")
      case False
      then have "get4LE (rb_data rb1) = get4LE (rb_data rb1 @ left s1)" by (simp add: get4LE_append)
      then have "get4LE (rb_data rb1) = op" by (simp add: all)
      then show ?thesis using bspec [OF unknown that] by (subst decode.simps) (simp add: Let_def)
    qed (subst decode.simps, simp)
    have "decode_round ds' rb1 w = Some (Inr (False, rb1, w))" if "set ds' \<subseteq> set ds" for ds'
      using that by (induction ds') (auto simp: stuck)
    then have "decode_rounds ds rb1 w = Some (Inr (rb1, w))" by (subst decode_rounds.simps) simp
    with g(1,3) have main: "render_main realloc rd ds rb s w = render_main realloc rd ds rb1 s1 w"
      by (subst render_main.simps) simp
    have "length (left s1) < length (left s)" using g by simp
    from less.hyps [OF this g(2) all less.prems(3)] main show ?thesis by simp
  qed
qed

end

section \<open>Properties\<close>

lemma pipe_packets:
  assumes "disjoint ds" "\<forall>p \<in> set ps. packet_ok (handler ds) p" "partial r" "\<forall>n. realloc n \<noteq> None"
    "fst stream = enc_packets ps @ r" "length (fst stream) < 2 ^ 31"
  shows "\<exists>rb s. rb_data rb = r \<and> render_main realloc pipe_read ds (ReadBuffer mem STREAM_BUFFER_SIZE) stream w =
    Some (bindE (run_packets (handler ds) ps w) (\<lambda>w. Inr (rb, s, w)))"
proof (rule pipe.render_main_packets [OF handler_together [OF assms(1)] _ assms(3,4,2)])
  have b: "rb_ok (ReadBuffer mem STREAM_BUFFER_SIZE) \<and> rb_data (ReadBuffer mem STREAM_BUFFER_SIZE) = []"
    by (rule ReadBuffer_ok) (simp_all add: STREAM_BUFFER_SIZE_def)
  then show "rb_ok (ReadBuffer mem STREAM_BUFFER_SIZE)" "partial (rb_data (ReadBuffer mem STREAM_BUFFER_SIZE))"
    "rb_data (ReadBuffer mem STREAM_BUFFER_SIZE) @ fst stream = enc_packets ps @ r"
    using assms(5) by (simp_all add: partial_def)
qed (use assms(5,6) in \<open>auto simp: handler_None\<close>)

text \<open>C8: 
  A client's packets are carried out once each, in their order, by the decoder that knows them,
  however the stream is cut into pieces on the way and whichever decoders its packets alternate between;
  what is left in the buffer at the end is the beginning of a packet that never arrived. In particular
  the thread returns. The hypotheses are that there is memory, that the stream is shorter than 2 GB and that
  what an operation does depends only on its own packet.
\<close>

theorem stream_decoded:
  assumes "disjoint ds" "\<forall>p \<in> set ps. packet_ok (handler ds) p" "partial r" "\<forall>n. realloc n \<noteq> None"
    "fst stream = enc_packets ps @ r" "length (fst stream) < 2 ^ 31"
  shows "\<exists>rb s. rb_data rb = r \<and> render_main realloc pipe_read ds (ReadBuffer mem STREAM_BUFFER_SIZE) stream w =
    Some (bindE (run_packets (handler ds) ps w) (\<lambda>w. Inr (rb, s, w)))"
  using assms by (rule pipe_packets)

definition demo_decoder :: "32 word \<Rightarrow> nat list decoder" where
  "demo_decoder k op = (if op = k then Some (\<lambda>bs w. Inr (w @ [unat (get4LE (drop 8 bs))])) else None)"

lemma stream_decoded_witness:
  "\<exists>rb s. rb_data rb = [NUL] \<and>
    render_main (\<lambda>n. Some (\<lambda>_. NUL)) pipe_read [demo_decoder 1, demo_decoder 2] (ReadBuffer (\<lambda>_. NUL) STREAM_BUFFER_SIZE)
      (enc_packets [(2, put4LE 5), (1, put4LE 6), (2, put4LE 7)] @ [NUL], [3, 0, 10]) [] = Some (Inr (rb, s, [5, 6, 7]))"
proof -
  let ?ds = "[demo_decoder 1, demo_decoder 2]" and ?ps = "[(2, put4LE 5), (1, put4LE 6), (2, put4LE 7)] :: wire_packet list"
  have arg: "get4LE (drop 8 (enc_packet (op, put4LE n) @ rest)) = n" for op n rest
    by (simp add: enc_packet_def)
  have arg': "get4LE (drop 8 (enc_packet (op, put4LE n))) = n" for op n using arg [of op n "[]"] by simp
  have ok: "\<forall>p \<in> set ?ps. packet_ok (handler ?ds) p"
    using arg arg' by (simp add: packet_ok_def demo_decoder_def)
  have d: "disjoint ?ds" by (simp add: demo_decoder_def)
  have "run_packets (handler ?ds) ?ps [] = Inr [5, 6, 7]" using arg' by (simp add: demo_decoder_def)
  with stream_decoded [OF d ok, of "[NUL]" "\<lambda>n. Some (\<lambda>_. NUL)" "(enc_packets ?ps @ [NUL], [3, 0, 10])" "\<lambda>_. NUL" "[]"]
  show ?thesis by (simp add: partial_def)
qed

text \<open>C35: 
  A packet whose length is 0 makes the loop of the decoder go on for ever: it carries out the same packet
  again and again and never gets behind it.
\<close>

theorem zero_length_hangs:
  assumes "d (get4LE buf) = Some f" "8 \<le> length buf" "get4LE (drop 4 buf) = 0" "\<And>w. \<exists>w'. f buf w = Inr w'"
  shows "decode d buf 0 w = None"
proof (rule ccontr)
  assume "decode d buf 0 w \<noteq> None"
  then obtain y where "decode d buf 0 w = Some y" by blast
  moreover have "ops = d \<longrightarrow> b = buf \<longrightarrow> pos \<noteq> 0" if "decode ops b pos w = Some y" for ops b pos w and y :: "fault + nat \<times> 'a"
  proof (rule decode.raw_induct [where P = "\<lambda>ops b pos w y. ops = d \<longrightarrow> b = buf \<longrightarrow> pos \<noteq> 0", OF _ that], intro impI notI)
    fix decode' ops b pos w and y :: "fault + nat \<times> 'a"
    assume IH: "\<And>ops b pos w y. decode' ops b pos w = Some y \<Longrightarrow> ops = d \<longrightarrow> b = buf \<longrightarrow> pos \<noteq> 0"
      and step: "(if length b - pos < 8 then Some (Inr (pos, w))
        else let opcode = get4LE (drop pos b); packetLen = get4LE (drop (pos + 4) b)
          in if length b - pos < unat packetLen then Some (Inr (pos, w))
             else case ops opcode of None \<Rightarrow> Some (Inr (pos, w))
               | Some f \<Rightarrow> (case f (drop pos b) w of Inl e \<Rightarrow> Some (Inl e) | Inr w \<Rightarrow> decode' ops b (advance pos packetLen) w)) = Some y"
      and eqs: "ops = d" "b = buf" "pos = 0"
    obtain w' where w': "f buf w = Inr w'" using assms(4) by blast
    have adv: "advance 0 0 = 0" by (simp add: advance_def)
    from step have "decode' d buf 0 w' = Some y"
      using assms(1-3) w' adv by (simp add: eqs Let_def split: if_splits)
    with IH show False by blast
  qed
  ultimately show False by blast
qed

lemma zero_length_hangs_witness: "decode (demo_decoder 1) (put4LE 1 @ put4LE 0 @ put4LE 9) 0 [] = None"
  by (rule zero_length_hangs [of _ _ "\<lambda>bs w. Inr (w @ [unat (get4LE (drop 8 bs))])"])
     (use get4LE_put4LE [of 0 "put4LE 9"] in \<open>simp_all add: demo_decoder_def\<close>)

text \<open>
  An operation that no decoder knows stops the client for good: whatever follows is read and kept, in a
  buffer that doubles whenever it is full, and nothing is carried out any more.
\<close>

theorem unknown_operation_stalls:
  assumes "\<forall>d \<in> set ds. d op = None" "\<forall>n. realloc n \<noteq> None" "fst stream = put4LE op @ rest" "length (fst stream) < 2 ^ 31"
  shows "\<exists>rb s. render_main realloc pipe_read ds (ReadBuffer mem STREAM_BUFFER_SIZE) stream w = Some (Inr (rb, s, w)) \<and>
    rb_data rb = fst stream"
proof -
  have b: "rb_ok (ReadBuffer mem STREAM_BUFFER_SIZE) \<and> rb_data (ReadBuffer mem STREAM_BUFFER_SIZE) = []"
    by (rule ReadBuffer_ok) (simp_all add: STREAM_BUFFER_SIZE_def)
  with pipe.render_main_stalls [where ds = ds and op = op, OF assms(1,2), of "ReadBuffer mem STREAM_BUFFER_SIZE" stream rest w] assms(3,4)
  show ?thesis by simp
qed

lemma unknown_operation_stalls_witness:
  "\<exists>rb s. render_main (\<lambda>n. Some (\<lambda>_. NUL)) pipe_read [demo_decoder 1] (ReadBuffer (\<lambda>_. NUL) STREAM_BUFFER_SIZE)
      (put4LE 3 @ put4LE 12 @ put4LE 0 @ enc_packet (1, put4LE 5), [2]) [] = Some (Inr (rb, s, [])) \<and>
    rb_data rb = put4LE 3 @ put4LE 12 @ put4LE 0 @ enc_packet (1, put4LE 5)"
  using unknown_operation_stalls [of "[demo_decoder 1]" 3 "\<lambda>n. Some (\<lambda>_. NUL)"
    "(put4LE 3 @ put4LE 12 @ put4LE 0 @ enc_packet (1, put4LE 5), [2])" "put4LE 12 @ put4LE 0 @ enc_packet (1, put4LE 5)"]
  by (simp add: demo_decoder_def)

text \<open>
  \<open>readFully\<close> gets exactly the bytes it is asked for, in however many pieces they come, or fails because
  the stream ended before.
\<close>

theorem readFully_exact:
  "\<exists>s. readFully pipe_read n stream =
    (if n \<le> length (fst stream) then Some (take n (fst stream)) else None, s) \<and> (n \<le> length (fst stream) \<longrightarrow> fst s = drop n (fst stream))"
  using pipe.readFully_some [of n stream] pipe.readFully_none [of stream n] by (cases "n \<le> length (fst stream)") auto

lemma readFully_exact_witness:
  "\<exists>s. readFully pipe_read 3 (''abcde'', [0, 5]) = (Some ''abc'', s) \<and> fst s = ''de''"
  using readFully_exact [of 3 "(''abcde'', [0, 5])"] by simp

end
