(* ===== verification/Io_Stream.thy ===== *)
theory Io_Stream
  imports Byte_Source Byte_Words
begin

text \<open>
  The output side of the streams of the renderer: \<open>IOStream.h\<close>, which hands out room in a buffer, and
  \<open>SocketStream.cpp\<close>, which owns the buffer and sends it. Both ends use them: the decoders for their
  answers, the encoders for the packets.
\<close>

section \<open>Sending\<close>

text \<open>\<open>writeFully\<close> on a valid socket; \<open>wr\<close> is the system's \<open>send\<close> without the calls that were
  interrupted. It goes round as long as bytes are left and no call fails.\<close>

partial_function (option) writeFully :: "(bytes \<Rightarrow> 't \<Rightarrow> nat option \<times> 't) \<Rightarrow> bytes \<Rightarrow> 't \<Rightarrow> (int \<times> 't) option" where
  "writeFully wr buf t =
     (if buf = [] then Some (0, t)
      else
        case wr buf t of
          (None, t) \<Rightarrow> Some (- 1, t)
        | (Some n, t) \<Rightarrow> writeFully wr (drop n buf) t)"

declare writeFully.simps [code]

section \<open>The buffer\<close>

text \<open>The buffer of the base class is that of the socket's stream, or none: \<open>io_attached\<close>.\<close>

record io_stream =
  io_attached :: bool
  io_bufsize :: nat
  io_free :: nat
  ss_buf :: "bytes option"
  ss_bufsize :: nat

definition SocketStream :: "nat \<Rightarrow> io_stream" where
  "SocketStream bufSize = \<lparr>io_attached = False, io_bufsize = bufSize, io_free = 0, ss_buf = None, ss_bufsize = bufSize\<rparr>"

text \<open>\<open>mem n\<close> is None when \<open>malloc\<close> or \<open>realloc\<close> has no memory for \<open>n\<close> bytes, and otherwise what is found there.\<close>

definition allocBuffer :: "(nat \<Rightarrow> (nat \<Rightarrow> char) option) \<Rightarrow> nat \<Rightarrow> io_stream \<Rightarrow> bool \<times> io_stream" where
  "allocBuffer mem minSize s =
     (let allocSize = (if ss_bufsize s < minSize then minSize else ss_bufsize s)
      in case ss_buf s of
           None \<Rightarrow>
             (case mem allocSize of
                None \<Rightarrow> (False, s)
              | Some m \<Rightarrow> (True, s\<lparr>ss_buf := Some (map m [0..<allocSize])\<rparr>))
         | Some b \<Rightarrow>
             if ss_bufsize s < allocSize
             then (case mem allocSize of
                     None \<Rightarrow> (False, s\<lparr>ss_buf := None, ss_bufsize := 0\<rparr>)
                   | Some m \<Rightarrow> (True, s\<lparr>ss_buf := Some (take allocSize (b @ map m [length b..<allocSize])), ss_bufsize := allocSize\<rparr>))
             else (True, s))"

definition commitBuffer :: "(bytes \<Rightarrow> 't \<Rightarrow> nat option \<times> 't) \<Rightarrow> nat \<Rightarrow> io_stream \<Rightarrow> 't \<Rightarrow> (int \<times> 't) option" where
  "commitBuffer wr n s t = writeFully wr (take n (case ss_buf s of None \<Rightarrow> [] | Some b \<Rightarrow> b)) t"

definition flush :: "(bytes \<Rightarrow> 't \<Rightarrow> nat option \<times> 't) \<Rightarrow> io_stream \<Rightarrow> 't \<Rightarrow> (int \<times> io_stream \<times> 't) option" where
  "flush wr s t =
     (if \<not> io_attached s \<or> io_free s = io_bufsize s then Some (0, s, t)
      else map_option (\<lambda>(stat, t). (stat, s\<lparr>io_attached := False, io_free := 0\<rparr>, t)) (commitBuffer wr (io_bufsize s - io_free s) s t))"

text \<open>The number of bytes to allocate goes through an \<open>int\<close>.\<close>

definition alloc_len :: "nat \<Rightarrow> io_stream \<Rightarrow> nat" where
  "alloc_len len s =
     nat (sint (word_of_nat (if io_bufsize s < len then len else io_bufsize s) :: 32 word) mod 2 ^ 64)"

text \<open>The part of \<open>alloc\<close> behind the flush; the result is the distance of the room from the start of the buffer.\<close>

definition take_room :: "(nat \<Rightarrow> (nat \<Rightarrow> char) option) \<Rightarrow> nat \<Rightarrow> io_stream \<Rightarrow> nat option \<times> io_stream" where
  "take_room mem len s =
     (let (ok, s) =
        (if \<not> io_attached s \<or> io_bufsize s < len
         then let allocLen = alloc_len len s;
                  (ok, s) = allocBuffer mem allocLen s
              in if ok then (True, s\<lparr>io_attached := True, io_bufsize := allocLen, io_free := allocLen\<rparr>)
                 else (False, s\<lparr>io_attached := False\<rparr>)
         else (True, s))
      in if \<not> ok then (None, s)
         else (Some (io_bufsize s - io_free s), s\<lparr>io_free := io_free s - len\<rparr>))"

definition alloc ::
  "(nat \<Rightarrow> (nat \<Rightarrow> char) option) \<Rightarrow> (bytes \<Rightarrow> 't \<Rightarrow> nat option \<times> 't) \<Rightarrow> nat \<Rightarrow> io_stream \<Rightarrow> 't \<Rightarrow>
   (nat option \<times> io_stream \<times> 't) option" where
  "alloc mem wr len s t =
     (case (if io_attached s \<and> io_free s < len then flush wr s t else Some (0, s, t)) of
        None \<Rightarrow> None
      | Some (stat, s, t) \<Rightarrow>
          if stat < 0 then Some (None, s, t)
          else let (p, s) = take_room mem len s in Some (p, s, t))"

text \<open>What a client does with the room it was given: it stores as many bytes as it asked for.\<close>

definition fill_room :: "nat \<Rightarrow> bytes \<Rightarrow> io_stream \<Rightarrow> fault + io_stream" where
  "fill_room p bs s =
     (case ss_buf s of
        None \<Rightarrow> Inl NullPointer
      | Some b \<Rightarrow>
          if p + length bs \<le> length b then Inr (s\<lparr>ss_buf := Some (take p b @ bs @ drop (p + length bs) b)\<rparr>)
          else Inl BufferOverflow)"

datatype io_op = Put bytes | Flush

definition io_step ::
  "(nat \<Rightarrow> (nat \<Rightarrow> char) option) \<Rightarrow> (bytes \<Rightarrow> 't \<Rightarrow> nat option \<times> 't) \<Rightarrow> io_op \<Rightarrow> io_stream \<times> 't \<Rightarrow> (fault + io_stream \<times> 't) option" where
  "io_step mem wr op st =
     (case st of (s, t) \<Rightarrow>
        (case op of
           Flush \<Rightarrow> map_option (\<lambda>(_, s, t). Inr (s, t)) (flush wr s t)
         | Put bs \<Rightarrow>
             (case alloc mem wr (length bs) s t of
                None \<Rightarrow> None
              | Some (None, s, t) \<Rightarrow> Some (Inl NullPointer)
              | Some (Some p, s, t) \<Rightarrow> Some (bindE (fill_room p bs s) (\<lambda>s. Inr (s, t))))))"

fun io_run ::
  "(nat \<Rightarrow> (nat \<Rightarrow> char) option) \<Rightarrow> (bytes \<Rightarrow> 't \<Rightarrow> nat option \<times> 't) \<Rightarrow> io_op list \<Rightarrow> io_stream \<times> 't \<Rightarrow> (fault + io_stream \<times> 't) option" where
  "io_run mem wr [] st = Some (Inr st)"
| "io_run mem wr (op # ops) st =
     (case io_step mem wr op st of
        None \<Rightarrow> None
      | Some (Inl e) \<Rightarrow> Some (Inl e)
      | Some (Inr st) \<Rightarrow> io_run mem wr ops st)"

section \<open>Nothing is lost or overtaken\<close>

definition put_bytes :: "io_op \<Rightarrow> bytes" where
  "put_bytes op = (case op of Put bs \<Rightarrow> bs | Flush \<Rightarrow> [])"

definition pending :: "io_stream \<Rightarrow> bytes" where
  "pending s = (if io_attached s then take (io_bufsize s - io_free s) (case ss_buf s of None \<Rightarrow> [] | Some b \<Rightarrow> b) else [])"

definition io_inv :: "io_stream \<Rightarrow> bool" where
  "io_inv s \<longleftrightarrow> io_bufsize s < 2 ^ 31 \<and> (\<forall>b. ss_buf s = Some b \<longrightarrow> ss_bufsize s \<le> length b) \<and>
     (io_attached s \<longrightarrow> (\<exists>b. ss_buf s = Some b \<and> io_bufsize s \<le> length b) \<and> io_free s \<le> io_bufsize s)"

lemma SocketStream_inv: "n < 2 ^ 31 \<Longrightarrow> io_inv (SocketStream n) \<and> pending (SocketStream n) = []"
  by (simp add: io_inv_def SocketStream_def pending_def)

lemma allocBuffer_ok:
  assumes "\<forall>n. mem n \<noteq> None" "\<forall>b. ss_buf s = Some b \<longrightarrow> ss_bufsize s \<le> length b"
  shows "fst (allocBuffer mem n s) \<and> (\<exists>b. ss_buf (snd (allocBuffer mem n s)) = Some b \<and> n \<le> length b \<and>
      ss_bufsize (snd (allocBuffer mem n s)) \<le> length b) \<and>
    io_attached (snd (allocBuffer mem n s)) = io_attached s \<and> io_bufsize (snd (allocBuffer mem n s)) = io_bufsize s \<and>
    io_free (snd (allocBuffer mem n s)) = io_free s"
proof -
  obtain m where "mem (if ss_bufsize s < n then n else ss_bufsize s) = Some m" using assms(1) by blast
  with assms(2) show ?thesis
    by (cases "ss_buf s"; cases "ss_bufsize s < n") (simp_all add: allocBuffer_def Let_def)
qed

lemma alloc_len_small: "len < 2 ^ 31 \<Longrightarrow> io_bufsize s < 2 ^ 31 \<Longrightarrow> alloc_len len s = max (io_bufsize s) len"
proof -
  assume a: "len < 2 ^ 31" "io_bufsize s < 2 ^ 31"
  define n where "n = (if io_bufsize s < len then len else io_bufsize s)"
  have n: "n < 2 ^ 31" using a by (simp add: n_def)
  then have "uint (word_of_nat n :: 32 word) = int n" by (simp add: unsigned_of_nat take_bit_nat_eq_self)
  then have "sint (word_of_nat n :: 32 word) = int n" using n by (subst sint_small) simp_all
  moreover have "int n mod 2 ^ 64 = int n" using n by (intro mod_pos_pos_trivial) simp_all
  ultimately show ?thesis by (simp add: alloc_len_def n_def)
qed

text \<open>Room is found behind what is pending.\<close>

lemma take_room_ok:
  assumes i: "io_inv s" and n: "n < 2 ^ 31" and mem: "\<forall>n. mem n \<noteq> None"
    and room: "io_attached s \<longrightarrow> n \<le> io_free s \<or> pending s = []"
  obtains p s' b where "take_room mem n s = (Some p, s')" "ss_buf s' = Some b" "p + n \<le> length b" "take p b = pending s"
    "io_attached s'" "io_bufsize s' - io_free s' = p + n" "io_free s' \<le> io_bufsize s'" "io_bufsize s' \<le> length b" "io_bufsize s' < 2 ^ 31"
    "ss_bufsize s' \<le> length b"
proof (cases "io_attached s \<and> n \<le> io_bufsize s \<and> n \<le> io_free s")
  case True
  with i obtain b where b: "ss_buf s = Some b" "io_bufsize s \<le> length b" "io_free s \<le> io_bufsize s" "ss_bufsize s \<le> length b"
    by (auto simp: io_inv_def)
  with True i show thesis
    by (intro that [of "io_bufsize s - io_free s" "s\<lparr>io_free := io_free s - n\<rparr>" b])
       (auto simp: take_room_def pending_def io_inv_def)
next
  case False
  then have p: "pending s = []" using room i by (auto simp: pending_def io_inv_def)
  have len: "alloc_len n s = max (io_bufsize s) n" using i n by (intro alloc_len_small) (simp_all add: io_inv_def)
  have again: "\<not> io_attached s \<or> io_bufsize s < n"
    using False room i by (auto simp: pending_def io_inv_def)
  define m where "m = max (io_bufsize s) n"
  define s1 where "s1 = snd (allocBuffer mem m s)"
  have a: "allocBuffer mem m s = (True, s1)" using allocBuffer_ok [OF mem, of s m] i by (auto simp: s1_def io_inv_def prod_eq_iff)
  have "\<exists>b. ss_buf s1 = Some b \<and> m \<le> length b \<and> ss_bufsize s1 \<le> length b"
    using allocBuffer_ok [OF mem, of s m] i by (auto simp: s1_def io_inv_def)
  then obtain b where b: "ss_buf s1 = Some b" "m \<le> length b" "ss_bufsize s1 \<le> length b" by blast
  have "m < 2 ^ 31" "n \<le> m" using i n by (simp_all add: io_inv_def m_def)
  with p b show thesis
    by (intro that [of 0 "s1\<lparr>io_attached := True, io_bufsize := m, io_free := m - n\<rparr>" b])
       (use again in \<open>auto simp: take_room_def len m_def [symmetric] a Let_def\<close>)
qed

lemma fill_room_ok:
  assumes "ss_buf s = Some b" "p + length bs \<le> length b" "take p b = x" "io_attached s" "io_bufsize s - io_free s = p + length bs"
    "io_free s \<le> io_bufsize s" "io_bufsize s \<le> length b" "io_bufsize s < 2 ^ 31" "ss_bufsize s \<le> length b"
  shows "\<exists>s'. fill_room p bs s = Inr s' \<and> io_inv s' \<and> pending s' = x @ bs"
  using assms by (auto simp: fill_room_def io_inv_def pending_def)

context byte_sink
begin

lemma writeFully_ok: "\<exists>t'. writeFully wr buf t = Some (0, t') \<and> written t' = written t @ buf"
proof (induction "length buf" arbitrary: buf t rule: less_induct)
  case less
  show ?case
  proof (cases "buf = []")
    case True
    then show ?thesis by (subst writeFully.simps) simp
  next
    case False
    from write_some [OF this] obtain n t1 where w: "wr buf t = (Some n, t1)" "0 < n" "n \<le> length buf"
      "written t1 = written t @ take n buf" by metis
    from less.hyps [of "drop n buf" t1] w False obtain t2 where
      "writeFully wr (drop n buf) t1 = Some (0, t2)" "written t2 = written t1 @ drop n buf" by auto
    with w False show ?thesis by (subst writeFully.simps) simp
  qed
qed

lemma flush_ok:
  assumes "io_inv s"
  shows "\<exists>s' t'. flush wr s t = Some (0, s', t') \<and> io_inv s' \<and> pending s' = [] \<and> written t' = written t @ pending s"
proof (cases "\<not> io_attached s \<or> io_free s = io_bufsize s")
  case True
  with assms show ?thesis by (intro exI [of _ s] exI [of _ t]) (auto simp: flush_def pending_def)
next
  case False
  obtain t' where "commitBuffer wr (io_bufsize s - io_free s) s t = Some (0, t')" "written t' = written t @ pending s"
    using writeFully_ok [of "pending s" t] False by (auto simp: commitBuffer_def pending_def)
  with False assms show ?thesis
    by (intro exI [of _ "s\<lparr>io_attached := False, io_free := 0\<rparr>"] exI [of _ t']) (auto simp: flush_def io_inv_def pending_def)
qed

text \<open>A request gets room behind what waits in the buffer.\<close>

lemma alloc_ok:
  assumes mem: "\<forall>n. mem n \<noteq> None" and i: "io_inv s" and n: "n < 2 ^ 31"
  obtains p s' t' b where "alloc mem wr n s t = Some (Some p, s', t')" "written t' @ take p b = written t @ pending s"
    "ss_buf s' = Some b" "p + n \<le> length b" "io_attached s'" "io_bufsize s' - io_free s' = p + n" "io_free s' \<le> io_bufsize s'"
    "io_bufsize s' \<le> length b" "io_bufsize s' < 2 ^ 31" "ss_bufsize s' \<le> length b"
proof -
  obtain s1 t1 where f: "(if io_attached s \<and> io_free s < n then flush wr s t else Some (0, s, t)) = Some (0, s1, t1)"
    "io_inv s1" "written t1 @ pending s1 = written t @ pending s" "io_attached s1 \<longrightarrow> n \<le> io_free s1 \<or> pending s1 = []"
  proof (cases "io_attached s \<and> io_free s < n")
    case True
    with flush_ok [OF i, of t] that show thesis by auto
  next
    case False
    with i that show thesis by auto
  qed
  from take_room_ok [OF f(2) n mem f(4)] obtain p s2 b where r: "take_room mem n s1 = (Some p, s2)" "ss_buf s2 = Some b"
    "p + n \<le> length b" "take p b = pending s1" "io_attached s2" "io_bufsize s2 - io_free s2 = p + n"
    "io_free s2 \<le> io_bufsize s2" "io_bufsize s2 \<le> length b" "io_bufsize s2 < 2 ^ 31" "ss_bufsize s2 \<le> length b" by metis
  with f show thesis by (intro that [of p s2 t1 b]) (simp_all add: alloc_def)
qed

lemma io_step_ok:
  assumes mem: "\<forall>n. mem n \<noteq> None" and i: "io_inv s" and n: "length (put_bytes op) < 2 ^ 31"
  shows "\<exists>s' t'. io_step mem wr op (s, t) = Some (Inr (s', t')) \<and> io_inv s' \<and>
    written t' @ pending s' = written t @ pending s @ put_bytes op \<and> (op = Flush \<longrightarrow> pending s' = [])"
proof (cases op)
  case Flush
  with flush_ok [OF i, of t] show ?thesis by (auto simp: io_step_def put_bytes_def)
next
  case (Put bs)
  have bs: "length bs < 2 ^ 31" using n Put by (simp add: put_bytes_def)
  from alloc_ok [OF mem i bs, of t] obtain p s1 t1 b where a: "alloc mem wr (length bs) s t = Some (Some p, s1, t1)"
    "written t1 @ take p b = written t @ pending s" "ss_buf s1 = Some b" "p + length bs \<le> length b" "io_attached s1"
    "io_bufsize s1 - io_free s1 = p + length bs" "io_free s1 \<le> io_bufsize s1" "io_bufsize s1 \<le> length b"
    "io_bufsize s1 < 2 ^ 31" "ss_bufsize s1 \<le> length b" by metis
  from fill_room_ok [OF a(3,4) refl a(5-10)] obtain s2 where "fill_room p bs s1 = Inr s2" "io_inv s2" "pending s2 = take p b @ bs" by blast
  with a(1,2) Put show ?thesis by (simp add: io_step_def put_bytes_def flip: append_assoc)
qed

lemma io_run_ok:
  assumes mem: "\<forall>n. mem n \<noteq> None"
  shows "io_inv s \<Longrightarrow> \<forall>op \<in> set ops. length (put_bytes op) < 2 ^ 31 \<Longrightarrow>
    \<exists>s' t'. io_run mem wr ops (s, t) = Some (Inr (s', t')) \<and> io_inv s' \<and>
      written t' @ pending s' = written t @ pending s @ concat (map put_bytes ops) \<and> (ops \<noteq> [] \<longrightarrow> last ops = Flush \<longrightarrow> pending s' = [])"
proof (induction ops arbitrary: s t)
  case (Cons op ops)
  have n: "length (put_bytes op) < 2 ^ 31" using Cons.prems by simp
  from io_step_ok [OF mem Cons.prems(1) n, of t] obtain s1 t1 where
    s1: "io_step mem wr op (s, t) = Some (Inr (s1, t1))" "io_inv s1" "written t1 @ pending s1 = written t @ pending s @ put_bytes op"
      "op = Flush \<longrightarrow> pending s1 = []" by blast
  from Cons.IH [OF s1(2), of t1] Cons.prems(2) obtain s2 t2 where
    s2: "io_run mem wr ops (s1, t1) = Some (Inr (s2, t2))" "io_inv s2"
      "written t2 @ pending s2 = written t1 @ pending s1 @ concat (map put_bytes ops)" "ops \<noteq> [] \<longrightarrow> last ops = Flush \<longrightarrow> pending s2 = []"
    by auto
  with s1 show ?case by (cases "ops = []") auto
qed simp

end

section \<open>Properties\<close>

text \<open>C9: 
  Whatever a decoder or an encoder puts into the stream is sent once, completely and in order: after any
  sequence of requests for room that are filled, and of flushes, the bytes on the socket followed by those that
  wait in the buffer are what was put in, and after a flush none waits. No request is given room outside
  the buffer. The hypotheses are that there is memory, that the requests are below 2 GB and that the
  socket takes something of what it is offered.
\<close>

theorem output_in_order:
  assumes "\<forall>n. mem n \<noteq> None" "bufSize < 2 ^ 31" "\<forall>op \<in> set ops. length (put_bytes op) < 2 ^ 31"
  shows "\<exists>s t. io_run mem sink_write ops (SocketStream bufSize, [], ks) = Some (Inr (s, t)) \<and>
    fst t @ pending s = concat (map put_bytes ops) \<and> (ops \<noteq> [] \<and> last ops = Flush \<longrightarrow> pending s = [])"
  using sink.io_run_ok [OF assms(1) conjunct1 [OF SocketStream_inv [OF assms(2)]] assms(3), of "([], ks)"] SocketStream_inv [OF assms(2)]
  by (auto simp del: split_paired_Ex)

lemma output_in_order_witness:
  "\<exists>s t. io_run (\<lambda>n. Some (\<lambda>_. NUL)) sink_write [Put ''abc'', Put ''defgh'', Flush] (SocketStream 4, [], [0, 1]) = Some (Inr (s, t)) \<and>
    fst t = ''abcdefgh''"
  using output_in_order [of "\<lambda>n. Some (\<lambda>_. NUL)" 4 "[Put ''abc'', Put ''defgh'', Flush]" "[0, 1]"]
  by (auto simp: put_bytes_def)

text \<open>
  A request of 2 GB or more becomes negative in \<open>allocLen\<close>, so that no allocator can satisfy it, and the null
  pointer that \<open>alloc\<close> returns is written through: the size of an answer is a number of the client's packet.
\<close>

theorem huge_request_fails:
  assumes "2 ^ 31 \<le> length bs" "length bs < 2 ^ 32" "\<forall>n \<ge> 2 ^ 63. mem n = None" "bufSize < 2 ^ 31"
  shows "io_step mem wr (Put bs) (SocketStream bufSize, t) = Some (Inl NullPointer)"
proof -
  have l: "bufSize < length bs" using assms(1,4) by simp
  define w :: "32 word" where "w = word_of_nat (length bs)"
  define i where "i = int (length bs)"
  have i: "2 ^ 31 \<le> i" "i < 2 ^ 32" using assms(1,2) by (simp_all add: i_def)
  have "uint w = i" using assms(2) by (simp add: w_def i_def unsigned_of_nat take_bit_nat_eq_self)
  moreover have "i div 2 ^ 31 = 1" using i by (intro int_div_pos_eq [where r = "i - 2 ^ 31"]) simp_all
  ultimately have "sint w = i - 2 ^ 32" using i
    by (simp add: sint_uint signed_take_bit_eq_take_bit_minus take_bit_int_eq_self bit_iff_odd)
  moreover have "(i - 2 ^ 32) mod 2 ^ 64 = i - 2 ^ 32 + 2 ^ 64"
    using i by (intro int_mod_pos_eq [where q = "- 1"]) simp_all
  ultimately have "int (alloc_len (length bs) (SocketStream bufSize)) = i - 2 ^ 32 + 2 ^ 64"
    using i l by (simp add: alloc_len_def SocketStream_def w_def)
  then have "int (2 ^ 63) \<le> int (alloc_len (length bs) (SocketStream bufSize))" using i by simp
  then have big: "2 ^ 63 \<le> alloc_len (length bs) (SocketStream bufSize)" by (simp only: of_nat_le_iff)
  have none: "allocBuffer mem n (SocketStream bufSize) = (False, SocketStream bufSize)" if "bufSize < n" "mem n = None" for n
    using that by (simp add: allocBuffer_def SocketStream_def)
  have fails: "allocBuffer mem (alloc_len (length bs) (SocketStream bufSize)) (SocketStream bufSize) = (False, SocketStream bufSize)"
    using big assms(3,4) by (intro none) auto
  have "\<not> io_attached (SocketStream bufSize)" by (simp add: SocketStream_def)
  with fails show ?thesis by (simp add: io_step_def alloc_def take_room_def)
qed

lemma huge_request_fails_witness:
  "io_step (\<lambda>n. if n < 2 ^ 63 then Some (\<lambda>_. NUL) else None) sink_write (Put (replicate (2 ^ 31) NUL)) (SocketStream 4, [], []) = Some (Inl NullPointer)"
  by (rule huge_request_fails) simp_all

end
