(* ===== verification/Emugen_Text.thy ===== *)
theory Emugen_Text
  imports C_Format
begin

text \<open>
  The text utilities of \<open>emugen\<close>, the generator of the wire protocol of the renderer (\<open>strUtils.cpp\<close>), with the
  searches of \<open>std::string\<close> they use, and the lines that \<open>fgets\<close> reads from its input files.
\<close>

section \<open>Searches\<close>

text \<open>\<open>npos\<close> is None. \<open>find_from P\<close> is \<open>find_first_of\<close> for the characters with \<open>P\<close>, from a position on.\<close>

definition find_from :: "(char \<Rightarrow> bool) \<Rightarrow> bytes \<Rightarrow> nat \<Rightarrow> nat option" where
  "find_from P s pos =
     (let k = pos + length (takeWhile (\<lambda>c. \<not> P c) (drop pos s)) in if k < length s then Some k else None)"

definition find_last :: "(char \<Rightarrow> bool) \<Rightarrow> bytes \<Rightarrow> nat option" where
  "find_last P s =
     (let k = length (takeWhile (\<lambda>c. \<not> P c) (rev s)) in if k < length s then Some (length s - 1 - k) else None)"

definition WHITESPACE :: bytes where "WHITESPACE = [SPC, TAB, LF]"

abbreviation blank :: "char \<Rightarrow> bool" where "blank c \<equiv> c \<in> set WHITESPACE"

section \<open>Tokens\<close>

definition trim :: "bytes \<Rightarrow> bytes" where
  "trim s =
     (case (find_from (\<lambda>c. \<not> blank c) s 0, find_last (\<lambda>c. \<not> blank c) s) of
        (Some start, Some stop) \<Rightarrow> take (stop - start + 1) (drop start s)
      | _ \<Rightarrow> [])"

text \<open>The second argument and result is \<open>*last\<close>, which an empty result leaves alone.\<close>

definition getNextToken :: "bytes \<Rightarrow> nat \<Rightarrow> nat \<Rightarrow> bytes \<Rightarrow> bytes \<times> nat" where
  "getNextToken s pos lst delim =
     (if s = [] \<or> length s \<le> pos then ([], lst)
      else
        case find_from (\<lambda>c. \<not> blank c) s pos of
          None \<Rightarrow> ([], lst)
        | Some pos \<Rightarrow>
            let lst = (case find_from (\<lambda>c. c \<in> set delim) s pos of None \<Rightarrow> length s | Some l \<Rightarrow> l)
            in (trim (take (lst - pos) (drop pos s)), lst))"

section \<open>Lines\<close>

text \<open>\<open>fgets\<close> with a buffer of \<open>n\<close> bytes: up to the end of the line, but less than \<open>n\<close> bytes. The
  string ends at the first NUL.\<close>

definition fgets :: "nat \<Rightarrow> bytes \<Rightarrow> bytes \<times> bytes" where
  "fgets n s =
     (let k = length (takeWhile (\<lambda>c. c \<noteq> LF) s) + 1; m = min k (n - 1)
      in (takeWhile (\<lambda>c. c \<noteq> NUL) (take m s), drop m s))"

function file_lines :: "nat \<Rightarrow> bytes \<Rightarrow> bytes list" where
  "file_lines n s = (if s = [] \<or> n < 2 then [] else case fgets n s of (l, rest) \<Rightarrow> l # file_lines n rest)"
  by auto
termination by (relation "measure (\<lambda>(n, s). length s)") (auto simp: fgets_def Let_def)

declare file_lines.simps [simp del]

section \<open>Facts\<close>

lemma find_from_Some: "find_from P s pos = Some k \<Longrightarrow> pos \<le> k \<and> k < length s \<and> P (s ! k)"
proof -
  assume f: "find_from P s pos = Some k"
  define m where "m = length (takeWhile (\<lambda>c. \<not> P c) (drop pos s))"
  from f have k: "k = pos + m" "k < length s" by (auto simp: find_from_def m_def Let_def split: if_splits)
  then have "m < length (drop pos s)" by simp
  then have "\<not> (\<not> P (drop pos s ! m))" unfolding m_def by (rule nth_length_takeWhile)
  with k show ?thesis by simp
qed

lemma find_last_Some: "find_last P s = Some k \<Longrightarrow> k < length s"
  by (auto simp: find_last_def Let_def split: if_splits)

lemma length_trim: "length (trim s) \<le> length s"
  by (auto simp: trim_def split: option.splits)

lemma length_trim_blank: "blank c \<Longrightarrow> length (trim (c # s)) \<le> length s"
proof (cases "find_from (\<lambda>c. \<not> blank c) (c # s) 0")
  case (Some k)
  assume "blank c"
  with find_from_Some [OF Some] have "k \<noteq> 0" by (cases k) auto
  then show ?thesis by (auto simp: trim_def Some split: option.splits)
qed (simp add: trim_def)

lemma getNextToken_advances:
  assumes "getNextToken s pos lst delim = (tok, lst')" "tok \<noteq> []"
  shows "pos < lst' \<and> lst' \<le> length s"
proof -
  from assms obtain p where p: "find_from (\<lambda>c. \<not> blank c) s pos = Some p"
    and l: "lst' = (case find_from (\<lambda>c. c \<in> set delim) s p of None \<Rightarrow> length s | Some l \<Rightarrow> l)"
    and t: "tok = trim (take (lst' - p) (drop p s))"
    by (auto simp: getNextToken_def Let_def split: if_splits option.splits)
  have "lst' \<noteq> p" using t assms(2) by (auto simp: trim_def find_from_def)
  moreover have "p \<le> lst' \<and> lst' \<le> length s"
    using find_from_Some [OF p] by (auto simp: l split: option.splits dest: find_from_Some)
  ultimately show ?thesis using find_from_Some [OF p] by auto
qed

text \<open>What \<open>trim\<close> and \<open>getNextToken\<close> give when white space surrounds a text that neither starts nor ends with it.\<close>

definition tight :: "bytes \<Rightarrow> bool" where
  "tight w \<longleftrightarrow> w \<noteq> [] \<and> \<not> blank (hd w) \<and> \<not> blank (last w)"

definition word :: "bytes \<Rightarrow> bool" where
  "word w \<longleftrightarrow> w \<noteq> [] \<and> (\<forall>c \<in> set w. \<not> blank c)"

lemma word_tight [simp]: "word w \<Longrightarrow> tight w"
  by (simp add: word_def tight_def)

lemma takeWhile_none: "(\<forall>c \<in> set xs. P c) \<Longrightarrow> takeWhile P (xs @ ys) = xs @ takeWhile P ys"
  by (induction xs) auto

lemma find_from_at:
  assumes "length pre = pos" "\<forall>c \<in> set mid. \<not> P c" "P x"
  shows "find_from P (pre @ mid @ x # post) pos = Some (pos + length mid)"
proof -
  have "takeWhile (\<lambda>c. \<not> P c) (mid @ x # post) = mid" using assms(2,3) by (simp add: takeWhile_none)
  with assms(1) show ?thesis by (simp add: find_from_def)
qed

lemma find_from_none:
  assumes "length pre = pos" "\<forall>c \<in> set mid. \<not> P c"
  shows "find_from P (pre @ mid) pos = None"
proof -
  have "takeWhile (\<lambda>c. \<not> P c) mid = mid" using assms(2) by (simp add: takeWhile_eq_all_conv)
  with assms(1) show ?thesis by (simp add: find_from_def del: takeWhile_eq_all_conv)
qed

lemma find_from_ex:
  assumes "c \<in> set (drop pos s)" "P c" "pos \<le> length s"
  shows "\<exists>k. find_from P s pos = Some k"
proof -
  from assms(1,2) have "\<exists>x \<in> set (drop pos s). P x" by blast
  from split_list_first_prop [OF this] obtain mid x post where d: "drop pos s = mid @ x # post" "P x" "\<forall>y \<in> set mid. \<not> P y"
    by blast
  have "find_from P (take pos s @ mid @ x # post) pos = Some (pos + length mid)"
    by (rule find_from_at) (use d assms(3) in auto)
  then show ?thesis by (metis append_take_drop_id d(1))
qed

lemma trim_tight:
  assumes "\<forall>c \<in> set a. blank c" "tight w" "\<forall>c \<in> set b. blank c"
  shows "trim (a @ w @ b) = w"
proof -
  from assms(2) obtain x y where w: "w = x # y" "\<not> blank x" by (cases w) (auto simp: tight_def)
  have "find_from (\<lambda>c. \<not> blank c) ([] @ a @ x # (y @ b)) 0 = Some (0 + length a)"
    by (rule find_from_at) (use assms(1) w in auto)
  then have f: "find_from (\<lambda>c. \<not> blank c) (a @ w @ b) 0 = Some (length a)" using w by simp
  from assms(2) have r: "rev w = last w # rev (butlast w)"
    by (metis append_butlast_last_id rev.simps(2) rev_rev_ident tight_def rev_append rev_singleton_conv append_Cons append_Nil)
  have "takeWhile blank (rev b @ rev w @ rev a) = rev b"
    using assms(2,3) by (simp add: r takeWhile_none tight_def)
  moreover have "0 < length w" using assms(2) by (simp add: tight_def)
  ultimately have "find_last (\<lambda>c. \<not> blank c) (a @ w @ b) = Some (length a + length w - 1)"
    by (simp add: find_last_def Let_def)
  with f \<open>0 < length w\<close> show ?thesis by (simp add: trim_def)
qed

lemma trim_blanks: "\<forall>c \<in> set b. blank c \<Longrightarrow> trim b = []"
  using find_from_none [of "[]" 0 b "\<lambda>c. \<not> blank c"] by (simp add: trim_def)

lemma trim_word [simp]: "tight w \<Longrightarrow> trim w = w"
  using trim_tight [of "[]" w "[]"] by simp

text \<open>A token that a delimiter ends, and one that the end of the text ends.\<close>

lemma getNextToken_to:
  assumes "length pre = pos" "\<forall>c \<in> set a. blank c" "tight w" "\<forall>c \<in> set (w @ b). c \<notin> set delim" "\<forall>c \<in> set b. blank c" "d \<in> set delim"
  shows "getNextToken (pre @ a @ w @ b @ d # post) pos lst delim = (w, pos + length (a @ w @ b))"
proof -
  from assms(3) obtain x y where w: "w = x # y" "\<not> blank x" by (cases w) (auto simp: tight_def)
  have "find_from (\<lambda>c. \<not> blank c) (pre @ a @ x # (y @ b @ d # post)) pos = Some (pos + length a)"
    by (rule find_from_at) (use assms(1,2) w in auto)
  then have f: "find_from (\<lambda>c. \<not> blank c) (pre @ a @ w @ b @ d # post) pos = Some (pos + length a)" using w by simp
  have "find_from (\<lambda>c. c \<in> set delim) ((pre @ a) @ (w @ b) @ d # post) (pos + length a) = Some (pos + length a + length (w @ b))"
    by (rule find_from_at) (use assms in auto)
  then have g: "find_from (\<lambda>c. c \<in> set delim) (pre @ a @ w @ b @ d # post) (pos + length a) = Some (pos + length a + length (w @ b))" by simp
  have "trim (w @ b) = w" using trim_tight [of "[]" w b] assms(3,5) by simp
  with f g assms(1) w show ?thesis by (simp add: getNextToken_def Let_def)
qed

lemma getNextToken_end:
  assumes "length pre = pos" "\<forall>c \<in> set a. blank c" "tight w" "\<forall>c \<in> set (w @ b). c \<notin> set delim" "\<forall>c \<in> set b. blank c"
  shows "getNextToken (pre @ a @ w @ b) pos lst delim = (w, pos + length (a @ w @ b))"
proof -
  from assms(3) obtain x y where w: "w = x # y" "\<not> blank x" by (cases w) (auto simp: tight_def)
  have "find_from (\<lambda>c. \<not> blank c) (pre @ a @ x # (y @ b)) pos = Some (pos + length a)"
    by (rule find_from_at) (use assms(1,2) w in auto)
  then have f: "find_from (\<lambda>c. \<not> blank c) (pre @ a @ w @ b) pos = Some (pos + length a)" using w by simp
  have "find_from (\<lambda>c. c \<in> set delim) ((pre @ a) @ (w @ b)) (pos + length a) = None"
    by (rule find_from_none) (use assms in auto)
  then have g: "find_from (\<lambda>c. c \<in> set delim) (pre @ a @ w @ b) (pos + length a) = None" by simp
  have "trim (w @ b) = w" using trim_tight [of "[]" w b] assms(3,5) by simp
  with f g assms(1) w show ?thesis by (simp add: getNextToken_def Let_def)
qed

lemma getNextToken_blank:
  "length pre = pos \<Longrightarrow> \<forall>c \<in> set b. blank c \<Longrightarrow> getNextToken (pre @ b) pos lst delim = ([], lst)"
  using find_from_none [of pre pos b "\<lambda>c. \<not> blank c"] by (simp add: getNextToken_def)

end
