(* ===== verification/Emugen_Spec.thy ===== *)
theory Emugen_Spec
  imports Emugen_Text
begin

text \<open>
  The input of \<open>emugen\<close>: the types (\<open>TypeFactory.cpp\<close>, \<open>VarType.h\<close>, \<open>Var.h\<close>), the entry points
  with their attributes (\<open>EntryPoint.cpp\<close>), and the files that list them (\<open>ApiGen.cpp\<close>). The messages on
  the error output are left out, the return values kept.
\<close>

section \<open>Types\<close>

record var_type =
  vt_id :: nat
  vt_name :: bytes
  vt_bytes :: nat
  vt_printFormat :: bytes
  vt_isPointer :: bool

text \<open>\<open>g_varMap\<close> and \<open>g_typeId\<close>. \<open>insert\<close> of a \<open>std::map\<close> keeps what is there.\<close>

type_synonym types = "(bytes \<rightharpoonup> var_type) \<times> nat"

definition add_type :: "bytes \<Rightarrow> nat \<Rightarrow> bytes \<Rightarrow> bool \<Rightarrow> types \<Rightarrow> types" where
  "add_type name n format ptr ty =
     (case ty of (m, k) \<Rightarrow>
        (if m name = None then m(name \<mapsto> \<lparr>vt_id = k, vt_name = name, vt_bytes = n, vt_printFormat = format, vt_isPointer = ptr\<rparr>) else m,
         k + 1))"

definition initBaseTypes :: "types" where
  "initBaseTypes =
     add_type ''short'' 2 ''%d'' False (add_type ''float'' 4 ''%d'' False (add_type ''int'' 4 ''%d'' False
       (add_type ''char'' 1 ''%c'' False (add_type ''void'' 0 ''0x%x'' False (add_type ''UNKNOWN'' 0 ''0x%x'' False (Map.empty, 0))))))"

definition getVarTypeByName :: "types \<Rightarrow> bytes \<Rightarrow> var_type" where
  "getVarTypeByName ty name =
     (case fst ty name of
        Some t \<Rightarrow> t
      | None \<Rightarrow> (case fst ty ''UNKNOWN'' of Some t \<Rightarrow> t | None \<Rightarrow> \<lparr>vt_id = 0, vt_name = ''default_constructed'', vt_bytes = 0, vt_printFormat = ''0x%x'', vt_isPointer = False\<rparr>))"

text \<open>The bytes of the converter for a width in bits.\<close>

definition getVarConverter :: "int \<Rightarrow> nat option" where
  "getVarConverter n =
     (if n = 0 then Some 0 else if n = 8 then Some 1 else if n = 16 then Some 2 else if n = 32 then Some 4 else None)"

text \<open>One line of the types file: the result of the function when the line ends it, and the types.\<close>

definition type_line :: "bytes \<Rightarrow> types \<Rightarrow> int option \<times> types" where
  "type_line line ty =
     (let str = trim line
      in if str = [] \<or> hd str = CHR ''#'' then (None, ty)
         else
           let (name, lst) = getNextToken str 0 0 WHITESPACE
           in if name = [] then (Some (- 2), ty)
              else
                let (sz, lst) = getNextToken str (lst + 1) lst WHITESPACE
                in if sz = [] then (Some (- 2), ty)
                   else
                     let (printString, lst) = getNextToken str (lst + 1) lst WHITESPACE
                     in if printString = [] then (Some (- 2), ty)
                        else
                          let (pointerDef, lst) = getNextToken str (lst + 1) lst WHITESPACE
                          in if pointerDef \<noteq> ''true'' \<and> pointerDef \<noteq> ''false'' then (Some (- 2), ty)
                             else
                               case getVarConverter (atoi sz) of
                                 None \<Rightarrow> (Some (- 1), ty)
                               | Some n \<Rightarrow>
                                   let ptr = (pointerDef = ''true'');
                                       ty = add_type name n printString ptr ty;
                                       ty = add_type (''const '' @ name) n printString ptr ty
                                   in (None, ty))"

fun type_lines :: "bytes list \<Rightarrow> types \<Rightarrow> int \<times> types" where
  "type_lines [] ty = (0, ty)"
| "type_lines (l # ls) ty =
     (case type_line l ty of
        (Some r, ty) \<Rightarrow> (r, ty)
      | (None, ty) \<Rightarrow> type_lines ls ty)"

text \<open>None when the file cannot be opened; the types were not initialised before.\<close>

definition initFromFile :: "bytes option \<Rightarrow> int \<times> types" where
  "initFromFile contents =
     (case contents of None \<Rightarrow> (- 1, initBaseTypes) | Some text_of \<Rightarrow> type_lines (file_lines 1000 text_of) initBaseTypes)"

section \<open>Variables\<close>

datatype pointer_dir = POINTER_OUT | POINTER_IN | POINTER_INOUT

record var =
  v_name :: bytes
  v_type :: var_type
  v_lenExpression :: bytes
  v_pointerDir :: pointer_dir
  v_nullAllowed :: bool
  v_isLarge :: bool
  v_packExpression :: bytes
  v_writeExpression :: bytes
  v_paramCheckExpression :: bytes

definition Var :: "bytes \<Rightarrow> var_type \<Rightarrow> bytes \<Rightarrow> pointer_dir \<Rightarrow> bytes \<Rightarrow> bytes \<Rightarrow> var" where
  "Var name ty len dir pack wr =
     \<lparr>v_name = name, v_type = ty, v_lenExpression = len, v_pointerDir = dir, v_nullAllowed = False, v_isLarge = False,
      v_packExpression = pack, v_writeExpression = wr, v_paramCheckExpression = []\<rparr>"

definition isPointer :: "var \<Rightarrow> bool" where
  "isPointer v = vt_isPointer (v_type v)"

definition isVoid :: "var \<Rightarrow> bool" where
  "isVoid v \<longleftrightarrow> vt_bytes (v_type v) = 0 \<and> \<not> vt_isPointer (v_type v)"

section \<open>Entry points\<close>

record entry_point =
  ep_name :: bytes
  ep_retval :: var
  ep_vars :: "var list"
  ep_unsupported :: bool
  ep_customDecoder :: bool
  ep_notApi :: bool

text \<open>The stars in front of a parameter's name belong to its type.\<close>

function strip_stars :: "bytes \<Rightarrow> bytes \<Rightarrow> bytes \<times> bytes" where
  "strip_stars vartype str =
     (if str \<noteq> [] \<and> hd str = CHR ''*'' then strip_stars (vartype @ ''*'') (trim (SPC # tl str)) else (vartype, str))"
  by auto
termination
proof (relation "measure (\<lambda>(vartype, str). length str)", goal_cases)
  case (2 vartype str)
  have "length (trim (SPC # tl str)) \<le> length (tl str)" by (rule length_trim_blank) (simp add: WHITESPACE_def)
  with 2 show ?case by (cases str) auto
qed simp

declare strip_stars.simps [simp del]

text \<open>\<open>parseTypeField\<close>, with its state \<open>ST_NAME\<close> or not. Without a name wanted the second word ends it. The result
  is always true.\<close>

function parseTypeField_loop :: "bytes \<Rightarrow> bool \<Rightarrow> bool \<Rightarrow> nat \<Rightarrow> bytes \<Rightarrow> bytes \<times> bytes" where
  "parseTypeField_loop f want st_name pos vartype =
     (case getNextToken f pos 0 WHITESPACE of
        (str, lst) \<Rightarrow>
          if str = [] then (vartype, [])
          else if \<not> st_name
          then if str = ''const'' then parseTypeField_loop f want False lst ''const ''
               else parseTypeField_loop f want True lst (vartype @ str)
          else if str = ''*'' then parseTypeField_loop f want True lst (vartype @ ''*'')
          else if \<not> want then (vartype, [])
          else strip_stars vartype str)"
  by auto
termination
  by (relation "measure (\<lambda>(f, want, st_name, pos, vartype). length f - pos)")
     (auto dest!: getNextToken_advances [OF sym])

declare parseTypeField_loop.simps [simp del]

definition parseTypeField :: "bytes \<Rightarrow> bool \<Rightarrow> bytes \<times> bytes" where
  "parseTypeField f want = parseTypeField_loop f want False 0 []"

text \<open>The loop over the parameters; \<open>nvars\<close> counts also those of an unknown type, which are left out.\<close>

function parse_params :: "types \<Rightarrow> bytes \<Rightarrow> nat \<Rightarrow> nat \<Rightarrow> nat \<Rightarrow> var list" where
  "parse_params ty linestr pos lst nvars =
     (if pos < length linestr - 1
      then
        let (field, lst) = getNextToken linestr pos lst '',)'';
            (vartype, varname) = parseTypeField field True;
            nvars = nvars + 1;
            v = getVarTypeByName ty vartype;
            varname = (if varname = [] \<and> \<not> (vt_name v = ''void'' \<and> \<not> vt_isPointer v) then ''var'' @ fmt_u nvars else varname)
        in (if vt_id v = 0 then [] else [Var varname v [] POINTER_IN [] []]) @
           (if lst + 1 \<le> pos then [] else parse_params ty linestr (lst + 1) lst nvars)
      else [])"
  by auto
termination by (relation "measure (\<lambda>(ty, linestr, pos, lst, nvars). length linestr - pos)") auto

declare parse_params.simps [simp del]

text \<open>\<open>parse\<close>: None for a line that is not an entry point. The condition under which \<open>parse_params\<close> gives up is never
  met for the line that \<open>parse\<close> hands to it, see \<open>parse_advances\<close>.\<close>

definition parse :: "types \<Rightarrow> bytes \<Rightarrow> entry_point option" where
  "parse ty str =
     (let linestr = trim str
      in if linestr = [] then None
         else if hd linestr = CHR ''#'' then None
         else
           let (field, lst) = getNextToken linestr 0 0 ''('';
               pos = lst + 1;
               (field, lst) = getNextToken linestr pos lst '',)'';
               (retTypeName, _) = parseTypeField field False;
               pos = lst + 1;
               theType = getVarTypeByName ty retTypeName;
               (name, lst) = getNextToken linestr pos lst '',)'';
               pos = lst + 1
           in Some \<lparr>ep_name = name, ep_retval = Var [] theType [] POINTER_OUT [] [],
                    ep_vars = parse_params ty linestr pos lst 0,
                    ep_unsupported = False, ep_customDecoder = False, ep_notApi = False\<rparr>)"

lemma parse_advances:
  assumes "tight (linestr)" "pos < length linestr" "getNextToken linestr pos lst delim = (tok, lst')"
  shows "pos \<le> lst'"
proof -
  have "last linestr \<in> set (drop pos linestr)"
    using assms(2) by (metis drop_eq_Nil last_drop last_in_set linorder_not_le)
  with find_from_ex [of "last linestr" pos linestr "\<lambda>c. \<not> blank c"] assms(1,2)
  obtain p where p: "find_from (\<lambda>c. \<not> blank c) linestr pos = Some p" by (auto simp: tight_def)
  with assms(2,3) have "lst' = (case find_from (\<lambda>c. c \<in> set delim) linestr p of None \<Rightarrow> length linestr | Some l \<Rightarrow> l)"
    by (auto simp: getNextToken_def Let_def split: if_splits)
  then show ?thesis using find_from_Some [OF p] assms(2) by (auto split: option.splits dest: find_from_Some)
qed

section \<open>Attributes\<close>

text \<open>\<open>var\<close>: the first variable with a name, here with the list in which it is changed.\<close>

fun update_var :: "bytes \<Rightarrow> (var \<Rightarrow> var) \<Rightarrow> var list \<Rightarrow> var list option" where
  "update_var name g [] = None"
| "update_var name g (v # vs) =
     (if v_name v = name then Some (g v # vs) else map_option (Cons v) (update_var name g vs))"

text \<open>The loop over the flags of \<open>var_flag\<close>: None when there is no flag at all.\<close>

definition set_var_flag :: "bytes \<Rightarrow> var \<Rightarrow> var" where
  "set_var_flag flag v =
     (if flag = ''nullAllowed'' then (if isPointer v then v\<lparr>v_nullAllowed := True\<rparr> else v)
      else if flag = ''isLarge'' then (if isPointer v then v\<lparr>v_isLarge := True\<rparr> else v)
      else v)"

function var_flags :: "bytes \<Rightarrow> nat \<Rightarrow> nat \<Rightarrow> bytes list" where
  "var_flags line pos lst =
     (case getNextToken line pos lst WHITESPACE of
        (flag, lst) \<Rightarrow> if flag = [] then [] else flag # var_flags line lst lst)"
  by auto
termination
  by (relation "measure (\<lambda>(line, pos, lst). length line - pos)") (auto dest!: getNextToken_advances [OF sym])

declare var_flags.simps [simp del]

text \<open>The attributes with a variable: what they do with it, or the value that the function returns.\<close>

definition var_attribute :: "bytes \<Rightarrow> bytes \<Rightarrow> nat \<Rightarrow> (int + (var \<Rightarrow> var)) option" where
  "var_attribute token line pos =
     (if token = ''len'' then Some (Inr (\<lambda>v. v\<lparr>v_lenExpression := drop pos line\<rparr>))
      else if token = ''param_check'' then Some (Inr (\<lambda>v. v\<lparr>v_paramCheckExpression := drop pos line\<rparr>))
      else if token = ''dir''
      then
        let (dir, lst) = getNextToken line pos pos WHITESPACE
        in if dir = [] then Some (Inl (- 3))
           else if dir = ''out'' then Some (Inr (\<lambda>v. v\<lparr>v_pointerDir := POINTER_OUT\<rparr>))
           else if dir = ''inout'' then Some (Inr (\<lambda>v. v\<lparr>v_pointerDir := POINTER_INOUT\<rparr>))
           else if dir = ''in'' then Some (Inr (\<lambda>v. v\<lparr>v_pointerDir := POINTER_IN\<rparr>))
           else Some (Inr (\<lambda>v. v))
      else if token = ''var_flag''
      then
        let flags = var_flags line pos pos
        in if flags = [] then Some (Inl (- 3)) else Some (Inr (\<lambda>v. fold set_var_flag flags v))
      else if token = ''custom_pack'' then Some (Inr (\<lambda>v. v\<lparr>v_packExpression := drop pos line\<rparr>))
      else if token = ''custom_write'' then Some (Inr (\<lambda>v. v\<lparr>v_writeExpression := drop pos line\<rparr>))
      else None)"

definition setAttribute :: "bytes \<Rightarrow> entry_point \<Rightarrow> int \<times> entry_point" where
  "setAttribute line e =
     (let (token, lst) = getNextToken line 0 0 WHITESPACE
      in if token \<in> {''len'', ''param_check'', ''dir'', ''var_flag'', ''custom_pack'', ''custom_write''}
         then
           let (varname, lst) = getNextToken line lst lst WHITESPACE
           in if varname = [] then (- 1, e)
              else if update_var varname (\<lambda>v. v) (ep_vars e) = None then (- 2, e)
              else
                case var_attribute token line lst of
                  Some (Inr g) \<Rightarrow>
                    (case update_var varname g (ep_vars e) of
                       None \<Rightarrow> (- 2, e)
                     | Some vs \<Rightarrow> (0, e\<lparr>ep_vars := vs\<rparr>))
                | Some (Inl r) \<Rightarrow> (r, e)
                | None \<Rightarrow> (0, e)
         else if token = ''flag''
         then
           let (flag, lst) = getNextToken line lst lst WHITESPACE
           in if flag = [] then (- 4, e)
              else if flag = ''unsupported'' then (0, e\<lparr>ep_unsupported := True\<rparr>)
              else if flag = ''custom_decoder'' then (0, e\<lparr>ep_customDecoder := True\<rparr>)
              else if flag = ''not_api'' then (0, e\<lparr>ep_notApi := True\<rparr>)
              else (0, e)
         else (0, e))"

section \<open>The files of an API\<close>

record api =
  ag_basename :: bytes
  ag_entries :: "entry_point list"
  ag_clientContextHeaders :: "bytes list"
  ag_encoderHeaders :: "bytes list"
  ag_serverContextHeaders :: "bytes list"
  ag_decoderHeaders :: "bytes list"
  ag_maxEntryPointsParams :: nat
  ag_baseOpcode :: int

definition ApiGen :: "bytes \<Rightarrow> api" where
  "ApiGen basename =
     \<lparr>ag_basename = basename, ag_entries = [], ag_clientContextHeaders = [], ag_encoderHeaders = [], ag_serverContextHeaders = [],
      ag_decoderHeaders = [], ag_maxEntryPointsParams = 0, ag_baseOpcode = 0\<rparr>"

definition updateMaxEntryPointsParams :: "nat \<Rightarrow> api \<Rightarrow> api" where
  "updateMaxEntryPointsParams n a =
     (if ag_maxEntryPointsParams a = 0 \<or> ag_maxEntryPointsParams a < n then a\<lparr>ag_maxEntryPointsParams := n\<rparr> else a)"

definition readSpec_line :: "types \<Rightarrow> bytes \<Rightarrow> api \<Rightarrow> api" where
  "readSpec_line ty line a =
     (case parse ty line of
        None \<Rightarrow> a
      | Some e \<Rightarrow> updateMaxEntryPointsParams (length (ep_vars e)) (a\<lparr>ag_entries := ag_entries a @ [e]\<rparr>))"

definition readSpec :: "types \<Rightarrow> bytes option \<Rightarrow> api \<Rightarrow> int \<times> api" where
  "readSpec ty contents a =
     (case contents of None \<Rightarrow> (- 1, a) | Some text_of \<Rightarrow> (0, fold (readSpec_line ty) (file_lines 1000 text_of) a))"

text \<open>The words of a line from a position on.\<close>

function header_words :: "bytes \<Rightarrow> nat \<Rightarrow> nat \<Rightarrow> bytes list" where
  "header_words line pos lst =
     (case getNextToken line pos lst WHITESPACE of
        (str, lst) \<Rightarrow> if str = [] then [] else str # header_words line lst lst)"
  by auto
termination
  by (relation "measure (\<lambda>(line, pos, lst). length line - pos)") (auto dest!: getNextToken_advances [OF sym])

declare header_words.simps [simp del]

definition setGlobalAttribute :: "bytes \<Rightarrow> api \<Rightarrow> api" where
  "setGlobalAttribute line a =
     (let (token, lst) = getNextToken line 0 0 WHITESPACE
      in if token = ''base_opcode''
         then
           let (str, lst) = getNextToken line lst lst WHITESPACE
           in if str = [] then a else a\<lparr>ag_baseOpcode := atoi str\<rparr>
         else if token = ''encoder_headers''
         then a\<lparr>ag_encoderHeaders := ag_encoderHeaders a @ header_words line lst lst\<rparr>
         else if token = ''client_context_headers''
         then a\<lparr>ag_clientContextHeaders := ag_clientContextHeaders a @ header_words line lst lst\<rparr>
         else if token = ''server_context_headers''
         then a\<lparr>ag_serverContextHeaders := ag_serverContextHeaders a @ header_words line lst lst\<rparr>
         else if token = ''decoder_headers''
         then a\<lparr>ag_decoderHeaders := ag_decoderHeaders a @ header_words line lst lst\<rparr>
         else a)"

text \<open>\<open>findEntryByName\<close>: the place of the first entry with a name.\<close>

fun findEntryByName :: "bytes \<Rightarrow> entry_point list \<Rightarrow> nat option" where
  "findEntryByName name [] = None"
| "findEntryByName name (e # es) =
     (if ep_name e = name then Some 0 else map_option Suc (findEntryByName name es))"

text \<open>What the attributes of the following lines are about.\<close>

datatype att_section = Global | Entry "nat option"

record att_state =
  st_att :: bool
  st_section :: att_section
  st_api :: api

definition attribute_line :: "bytes \<Rightarrow> att_state \<Rightarrow> att_state" where
  "attribute_line line st =
     (if line = [] then st
      else if hd line = CHR ''#'' then st
      else
        let first = find_from (\<lambda>c. \<not> blank c) line 0;
            st = (if st_att st \<and> (first = None \<or> first = Some 0) then st\<lparr>st_att := False\<rparr> else st);
            line = trim line
        in if line = [] \<or> hd line = CHR ''#'' then st
           else if \<not> st_att st
           then if line = ''GLOBAL'' then st\<lparr>st_section := Global, st_att := True\<rparr>
                else st\<lparr>st_section := Entry (findEntryByName line (ag_entries (st_api st))), st_att := True\<rparr>
           else
             case st_section st of
               Global \<Rightarrow> st\<lparr>st_api := setGlobalAttribute line (st_api st)\<rparr>
             | Entry None \<Rightarrow> st
             | Entry (Some i) \<Rightarrow>
                 let a = st_api st
                 in st\<lparr>st_api := a\<lparr>ag_entries := (ag_entries a)[i := snd (setAttribute line (ag_entries a ! i))]\<rparr>\<rparr>)"

definition readAttributes :: "bytes option \<Rightarrow> api \<Rightarrow> int \<times> api" where
  "readAttributes contents a =
     (case contents of
        None \<Rightarrow> (- 1, a)
      | Some text_of \<Rightarrow>
          (0, st_api (fold attribute_line (file_lines 1000 text_of) \<lparr>st_att = False, st_section = Entry None, st_api = a\<rparr>)))"

end
