(* ===== verification/Emugen_Encoder.thy ===== *)
theory Emugen_Encoder
  imports Emugen_Spec Io_Stream Render_Stream
begin

text \<open>
  The encoder that \<open>ApiGen::genEncoderImpl\<close> generates for an entry point. The generated text is a sequence of
  statements, of which there are few kinds: \<open>encoder_code\<close> gives the sequence that is printed for an entry
  point, with the loops and conditions of the generator, and \<open>exec_stmt\<close> what each kind does when the client runs
  it. The variables of the generated function are named by their position.
\<close>

section \<open>The code that is generated\<close>

text \<open>The terms of a sum of sizes: a decimal constant, or \<open>__size_x\<close>.\<close>

datatype size_term = Const nat | Size_of nat

text \<open>In their order: \<open>ptr = stream->alloc(...)\<close>; the operation and \<open>packetSize\<close> stored at \<open>ptr\<close>; \<open>__size_x\<close>, the data
  behind \<open>x\<close> and \<open>x\<close> itself stored at \<open>ptr\<close>; \<open>stream->flush()\<close>; \<open>__size_x\<close> and the data behind \<open>x\<close>
  written without the buffer; \<open>stream->readback\<close> into \<open>x\<close> and into \<open>retval\<close>.\<close>

datatype enc_stmt =
    Alloc_Room "size_term list"
  | Store_Op
  | Store_Packet_Size
  | Store_Size nat
  | Store_Data nat
  | Store_Value nat
  | Flush_Stream
  | Write_Size nat
  | Write_Data nat
  | Read_Back nat
  | Read_Return nat

definition writeVarEncodingSize :: "nat \<times> var \<Rightarrow> size_term" where
  "writeVarEncodingSize jv = (case jv of (j, v) \<Rightarrow> if \<not> isPointer v then Const (vt_bytes (v_type v)) else Size_of j)"

definition var_sizes :: "(nat \<times> var) list \<Rightarrow> size_term list" where
  "var_sizes vs =
     (let npointers = length (filter (isPointer \<circ> snd) vs)
      in map writeVarEncodingSize vs @ (if npointers > 0 then [Const (npointers * 4)] else []))"

definition writeVarEncodingExpression :: "nat \<times> var \<Rightarrow> enc_stmt list" where
  "writeVarEncodingExpression jv =
     (case jv of (j, v) \<Rightarrow>
        if isPointer v
        then Store_Size j #
          (if v_pointerDir v = POINTER_INOUT \<or> v_pointerDir v = POINTER_IN then [Store_Data j] else [])
        else if \<not> isVoid v then [Store_Value j] else [])"

definition writeVarLargeEncodingExpression :: "nat \<times> var \<Rightarrow> enc_stmt list" where
  "writeVarLargeEncodingExpression jv = (case jv of (j, v) \<Rightarrow> [Write_Size j, Write_Data j])"

definition packetSize :: "(nat \<times> var) list \<Rightarrow> size_term list" where
  "packetSize vs = Const 8 # var_sizes vs"

text \<open>The loop over the fragments: the variables up to the next large one go into the buffer, the large ones
  that follow are written directly. The flag says that nothing has been written yet (\<open>nvars == 0\<close>).\<close>

abbreviation small_vars :: "(nat \<times> var) list \<Rightarrow> (nat \<times> var) list" where
  "small_vars \<equiv> takeWhile (\<lambda>jv. \<not> v_isLarge (snd jv))"

abbreviation after_small :: "(nat \<times> var) list \<Rightarrow> (nat \<times> var) list" where
  "after_small \<equiv> dropWhile (\<lambda>jv. \<not> v_isLarge (snd jv))"

abbreviation large_vars :: "(nat \<times> var) list \<Rightarrow> (nat \<times> var) list" where
  "large_vars \<equiv> takeWhile (\<lambda>jv. v_isLarge (snd jv))"

abbreviation after_large :: "(nat \<times> var) list \<Rightarrow> (nat \<times> var) list" where
  "after_large \<equiv> dropWhile (\<lambda>jv. v_isLarge (snd jv))"

definition fragment :: "bool \<Rightarrow> (nat \<times> var) list \<Rightarrow> enc_stmt list" where
  "fragment first vs =
     (if first \<or> small_vars vs \<noteq> []
      then
        Alloc_Room
          (if first \<and> after_small vs = [] then packetSize vs
           else (if first then [Const 8] else []) @ (if small_vars vs \<noteq> [] then var_sizes (small_vars vs) else [])) #
        (if first then [Store_Op, Store_Packet_Size] else []) @
        concat (map writeVarEncodingExpression (small_vars vs)) @
        (if after_small vs \<noteq> [] then [Flush_Stream] else [])
      else [])"

lemma after_large_shorter:
  "vs \<noteq> [] \<Longrightarrow> length (after_large (after_small vs)) < length vs"
proof (cases vs)
  case (Cons v rest)
  have "length (after_large (after_small rest)) \<le> length rest" "length (after_large rest) \<le> length rest"
    using length_dropWhile_le order_trans by blast+
  then show ?thesis using Cons by (auto simp: le_imp_less_Suc)
qed simp

function fragments :: "bool \<Rightarrow> (nat \<times> var) list \<Rightarrow> enc_stmt list" where
  "fragments first vs =
     (if \<not> first \<and> vs = [] then []
      else
        fragment first vs @
        concat (map writeVarLargeEncodingExpression (large_vars (after_small vs))) @
        fragments False (after_large (after_small vs)))"
  by auto
termination
proof (relation "measure (\<lambda>(first, vs). (if first then 1 else 0) + length vs)", goal_cases)
  case (2 first vs)
  then show ?case using after_large_shorter [of vs] by (cases "vs = []") simp_all
qed simp

declare fragments.simps [simp del]

definition read_backs :: "(nat \<times> var) list \<Rightarrow> enc_stmt list" where
  "read_backs vs =
     concat (map (\<lambda>(j, v). if isPointer v \<and> (v_pointerDir v = POINTER_INOUT \<or> v_pointerDir v = POINTER_OUT) then [Read_Back j] else []) vs)"

definition return_code :: "entry_point \<Rightarrow> enc_stmt list" where
  "return_code e =
     (if isPointer (ep_retval e) then []
      else if vt_name (v_type (ep_retval e)) \<noteq> ''void'' then [Read_Return (vt_bytes (v_type (ep_retval e)))]
      else [])"

definition encoder_code :: "entry_point \<Rightarrow> enc_stmt list" where
  "encoder_code e =
     (let vs = enumerate 0 (ep_vars e) in fragments True vs @ read_backs vs @ return_code e)"

text \<open>\<open>genOpcodes\<close>: the operations are numbered from \<open>base_opcode\<close> in the order of the entry points.\<close>

definition genOpcodes :: "api \<Rightarrow> (bytes \<times> 32 word) list" where
  "genOpcodes a = map (\<lambda>(i, e). (ep_name e, word_of_int (int i + ag_baseOpcode a))) (enumerate 0 (ag_entries a))"

section \<open>What the code does\<close>

text \<open>
  An argument of a call: the bytes of a value, or a pointer, with the memory at it (None is the null pointer), the
  value of the length expression of its attributes in this call, and the bytes that its \<open>custom_pack\<close> or \<open>custom_write\<close>
  expression stores.
\<close>

datatype client_arg = Value (val_bytes: bytes) | Pointer (ptr_mem: "bytes option") (ptr_len: "32 word") (ptr_packed: bytes)

definition arg_null :: "client_arg \<Rightarrow> bool" where
  "arg_null a \<longleftrightarrow> (case a of Value _ \<Rightarrow> False | Pointer m _ _ \<Rightarrow> m = None)"

text \<open>\<open>__size_x\<close>.\<close>

definition getVarEncodingSizeExpression :: "var \<Rightarrow> client_arg \<Rightarrow> 32 word" where
  "getVarEncodingSizeExpression v a =
     (if v_nullAllowed v then (if \<not> arg_null a then ptr_len a else 0) else ptr_len a)"

text \<open>A sum of sizes: \<open>unsigned int\<close> as soon as a size is in it.\<close>

definition term_value :: "var list \<Rightarrow> client_arg list \<Rightarrow> size_term \<Rightarrow> 32 word" where
  "term_value vs args tm =
     (case tm of Const n \<Rightarrow> word_of_nat n | Size_of j \<Rightarrow> getVarEncodingSizeExpression (vs ! j) (args ! j))"

definition terms_value :: "var list \<Rightarrow> client_arg list \<Rightarrow> size_term list \<Rightarrow> 32 word" where
  "terms_value vs args tms = sum_list (map (term_value vs args) tms)"

text \<open>The client: its stream, the socket it writes to and the one it reads from, \<open>ptr\<close>, and what it has read.\<close>

record ('t, 's) encoder_context =
  cl_stream :: io_stream
  cl_out :: 't
  cl_in :: 's
  cl_ptr :: "nat option"
  cl_got :: "bytes option list"

text \<open>Bytes stored at \<open>ptr\<close>, which then moves on by \<open>n\<close>.\<close>

definition store :: "bytes \<Rightarrow> nat \<Rightarrow> ('t, 's) encoder_context \<Rightarrow> fault + ('t, 's) encoder_context" where
  "store bs n c =
     (if bs = [] then Inr (c\<lparr>cl_ptr := map_option (\<lambda>p. p + n) (cl_ptr c)\<rparr>)
      else
        case cl_ptr c of
          None \<Rightarrow> Inl NullPointer
        | Some p \<Rightarrow> bindE (fill_room p bs (cl_stream c)) (\<lambda>s. Inr (c\<lparr>cl_stream := s, cl_ptr := Some (p + n)\<rparr>)))"

definition flush_client :: "(bytes \<Rightarrow> 't \<Rightarrow> nat option \<times> 't) \<Rightarrow> ('t, 's) encoder_context \<Rightarrow> (fault + ('t, 's) encoder_context) option" where
  "flush_client wr c =
     map_option (\<lambda>(_, s, t). Inr (c\<lparr>cl_stream := s, cl_out := t\<rparr>)) (flush wr (cl_stream c) (cl_out c))"

definition write_client :: "(bytes \<Rightarrow> 't \<Rightarrow> nat option \<times> 't) \<Rightarrow> bytes \<Rightarrow> ('t, 's) encoder_context \<Rightarrow> (fault + ('t, 's) encoder_context) option" where
  "write_client wr bs c = map_option (\<lambda>(_, t). Inr (c\<lparr>cl_out := t\<rparr>)) (writeFully wr bs (cl_out c))"

definition readback :: "(bytes \<Rightarrow> 't \<Rightarrow> nat option \<times> 't) \<Rightarrow> (nat \<Rightarrow> 's \<Rightarrow> bytes option \<times> 's) \<Rightarrow> bool \<Rightarrow> nat \<Rightarrow>
    ('t, 's) encoder_context \<Rightarrow> (fault + ('t, 's) encoder_context) option" where
  "readback wr rd null n c =
     (case flush_client wr c of
        Some (Inr c) \<Rightarrow>
          if null then Some (Inr (c\<lparr>cl_got := cl_got c @ [None]\<rparr>))
          else let (r, s) = readFully rd n (cl_in c) in Some (Inr (c\<lparr>cl_in := s, cl_got := cl_got c @ [r]\<rparr>))
      | r \<Rightarrow> r)"

text \<open>The data behind a pointer: a copy of \<open>__size_x\<close> bytes, or what the custom expression stores. A null
  pointer cannot be copied from, but \<open>send\<close> only fails for it.\<close>

definition store_data :: "var \<Rightarrow> client_arg \<Rightarrow> ('t, 's) encoder_context \<Rightarrow> fault + ('t, 's) encoder_context" where
  "store_data v a c =
     (let n = unat (getVarEncodingSizeExpression v a)
      in if v_nullAllowed v \<and> arg_null a then store [] n c
         else if v_packExpression v \<noteq> [] then store (ptr_packed a) n c
         else case ptr_mem a of
                None \<Rightarrow> if n = 0 then store [] n c else Inl NullPointer
              | Some m \<Rightarrow> if n \<le> length m then store (take n m) n c else Inl Uninitialised)"

definition write_data :: "(bytes \<Rightarrow> 't \<Rightarrow> nat option \<times> 't) \<Rightarrow> var \<Rightarrow> client_arg \<Rightarrow> ('t, 's) encoder_context \<Rightarrow> (fault + ('t, 's) encoder_context) option" where
  "write_data wr v a c =
     (let n = unat (getVarEncodingSizeExpression v a)
      in if v_nullAllowed v \<and> arg_null a then Some (Inr c)
         else if v_writeExpression v \<noteq> [] then write_client wr (ptr_packed a) c
         else case ptr_mem a of
                None \<Rightarrow> Some (Inr c)
              | Some m \<Rightarrow> if n \<le> length m then write_client wr (take n m) c else Some (Inl Uninitialised))"

definition exec_stmt ::
  "(nat \<Rightarrow> (nat \<Rightarrow> char) option) \<Rightarrow> (bytes \<Rightarrow> 't \<Rightarrow> nat option \<times> 't) \<Rightarrow> (nat \<Rightarrow> 's \<Rightarrow> bytes option \<times> 's) \<Rightarrow>
   32 word \<Rightarrow> var list \<Rightarrow> client_arg list \<Rightarrow> enc_stmt \<Rightarrow> ('t, 's) encoder_context \<Rightarrow> (fault + ('t, 's) encoder_context) option" where
  "exec_stmt mem wr rd op vs args stmt c =
     (case stmt of
        Alloc_Room tms \<Rightarrow>
          map_option (\<lambda>(p, s, t). Inr (c\<lparr>cl_stream := s, cl_out := t, cl_ptr := p\<rparr>))
            (alloc mem wr (unat (terms_value vs args tms)) (cl_stream c) (cl_out c))
      | Store_Op \<Rightarrow> Some (store (put4LE op) 4 c)
      | Store_Packet_Size \<Rightarrow> Some (store (put4LE (terms_value vs args (packetSize (enumerate 0 vs)))) 4 c)
      | Store_Size j \<Rightarrow> Some (store (put4LE (getVarEncodingSizeExpression (vs ! j) (args ! j))) 4 c)
      | Store_Data j \<Rightarrow> Some (store_data (vs ! j) (args ! j) c)
      | Store_Value j \<Rightarrow> Some (store (val_bytes (args ! j)) (vt_bytes (v_type (vs ! j))) c)
      | Flush_Stream \<Rightarrow> flush_client wr c
      | Write_Size j \<Rightarrow> write_client wr (put4LE (getVarEncodingSizeExpression (vs ! j) (args ! j))) c
      | Write_Data j \<Rightarrow> write_data wr (vs ! j) (args ! j) c
      | Read_Back j \<Rightarrow>
          if v_nullAllowed (vs ! j) \<and> arg_null (args ! j) then Some (Inr c)
          else readback wr rd (arg_null (args ! j)) (unat (getVarEncodingSizeExpression (vs ! j) (args ! j))) c
      | Read_Return n \<Rightarrow> readback wr rd False n c)"

fun exec_code ::
  "(nat \<Rightarrow> (nat \<Rightarrow> char) option) \<Rightarrow> (bytes \<Rightarrow> 't \<Rightarrow> nat option \<times> 't) \<Rightarrow> (nat \<Rightarrow> 's \<Rightarrow> bytes option \<times> 's) \<Rightarrow>
   32 word \<Rightarrow> var list \<Rightarrow> client_arg list \<Rightarrow> enc_stmt list \<Rightarrow> ('t, 's) encoder_context \<Rightarrow> (fault + ('t, 's) encoder_context) option" where
  "exec_code mem wr rd op vs args [] c = Some (Inr c)"
| "exec_code mem wr rd op vs args (st # sts) c =
     (case exec_stmt mem wr rd op vs args st c of
        Some (Inr c) \<Rightarrow> exec_code mem wr rd op vs args sts c
      | r \<Rightarrow> r)"

text \<open>A call of an entry point through its encoder.\<close>

definition client_call ::
  "(nat \<Rightarrow> (nat \<Rightarrow> char) option) \<Rightarrow> (bytes \<Rightarrow> 't \<Rightarrow> nat option \<times> 't) \<Rightarrow> (nat \<Rightarrow> 's \<Rightarrow> bytes option \<times> 's) \<Rightarrow>
   32 word \<Rightarrow> entry_point \<Rightarrow> client_arg list \<Rightarrow> ('t, 's) encoder_context \<Rightarrow> (fault + ('t, 's) encoder_context) option" where
  "client_call mem wr rd op e args c = exec_code mem wr rd op (ep_vars e) args (encoder_code e) c"

end
