(* ===== verification/Emugen_Packet.thy ===== *)
theory Emugen_Packet
  imports Emugen_Encoder
begin

text \<open>
  What a generated encoder puts on the wire: one packet, with the operation, its length, the arguments in
  their order, and behind them as many bytes of whatever the buffer held as the data of the output pointers are long.
\<close>

section \<open>The packet of a call\<close>

definition custom_expression :: "var \<Rightarrow> bytes" where
  "custom_expression v = (if v_isLarge v then v_writeExpression v else v_packExpression v)"

definition sends_data :: "var \<Rightarrow> bool" where
  "sends_data v \<longleftrightarrow> v_pointerDir v = POINTER_INOUT \<or> v_pointerDir v = POINTER_IN"

abbreviation arg_size :: "var \<Rightarrow> client_arg \<Rightarrow> 32 word" where
  "arg_size \<equiv> getVarEncodingSizeExpression"

definition arg_data :: "var \<Rightarrow> client_arg \<Rightarrow> bytes" where
  "arg_data v a =
     (if v_nullAllowed v \<and> arg_null a then []
      else if custom_expression v \<noteq> [] then ptr_packed a
      else case ptr_mem a of None \<Rightarrow> [] | Some m \<Rightarrow> take (unat (arg_size v a)) m)"

definition enc_arg :: "var \<Rightarrow> client_arg \<Rightarrow> bytes" where
  "enc_arg v a =
     (if isPointer v then put4LE (arg_size v a) @ (if sends_data v then arg_data v a else []) else val_bytes a)"

text \<open>The bytes that an argument takes in the length of the packet, and those of them that are never written.\<close>

definition arg_room :: "var \<Rightarrow> client_arg \<Rightarrow> nat" where
  "arg_room v a = (if isPointer v then 4 + unat (arg_size v a) else vt_bytes (v_type v))"

definition arg_unwritten :: "var \<Rightarrow> client_arg \<Rightarrow> nat" where
  "arg_unwritten v a = (if isPointer v \<and> \<not> sends_data v then unat (arg_size v a) else 0)"

text \<open>An argument fits its variable: a value has the size of its type, the memory at a pointer that is sent is as
  long as the length expression says, and a custom expression stores that many bytes.\<close>

definition arg_ok :: "var \<Rightarrow> client_arg \<Rightarrow> bool" where
  "arg_ok v a \<longleftrightarrow>
     (if isPointer v
      then (case a of Value _ \<Rightarrow> False | Pointer _ _ _ \<Rightarrow> sends_data v \<longrightarrow> length (arg_data v a) = unat (arg_size v a))
      else (case a of Value bs \<Rightarrow> length bs = vt_bytes (v_type v) | Pointer _ _ _ \<Rightarrow> False))"

text \<open>Only a pointer whose data is sent is large, and then no data is only received.\<close>

definition vars_ok :: "var list \<Rightarrow> bool" where
  "vars_ok vs \<longleftrightarrow> (\<forall>v \<in> set vs. v_isLarge v \<longrightarrow> isPointer v \<and> sends_data v) \<and>
     ((\<exists>v \<in> set vs. v_isLarge v) \<longrightarrow> (\<forall>v \<in> set vs. isPointer v \<longrightarrow> sends_data v))"

definition enc_args :: "var list \<Rightarrow> client_arg list \<Rightarrow> bytes" where
  "enc_args vs args = concat (map2 enc_arg vs args)"

definition packet_length :: "var list \<Rightarrow> client_arg list \<Rightarrow> nat" where
  "packet_length vs args = 8 + sum_list (map2 arg_room vs args)"

definition args_ok :: "var list \<Rightarrow> client_arg list \<Rightarrow> bool" where
  "args_ok vs args \<longleftrightarrow> vars_ok vs \<and> list_all2 arg_ok vs args \<and> packet_length vs args < 2 ^ 31"

lemma length_enc_arg: "arg_ok v a \<Longrightarrow> length (enc_arg v a) + arg_unwritten v a = arg_room v a"
  by (auto simp: arg_ok_def enc_arg_def arg_unwritten_def arg_room_def split: client_arg.splits if_splits)

section \<open>Variables with their positions\<close>

text \<open>The pairs the generator's loops run over.\<close>

definition in_place :: "var list \<Rightarrow> (nat \<times> var) list \<Rightarrow> bool" where
  "in_place vs xs \<longleftrightarrow> (\<forall>(j, v) \<in> set xs. j < length vs \<and> vs ! j = v)"

lemma in_place_simps [simp]:
  "in_place vs []" "in_place vs (x # xs) \<longleftrightarrow> fst x < length vs \<and> vs ! fst x = snd x \<and> in_place vs xs"
  "in_place vs (xs @ ys) \<longleftrightarrow> in_place vs xs \<and> in_place vs ys"
  by (auto simp: in_place_def split: prod.splits)

lemma in_place_sub: "in_place vs xs \<Longrightarrow> set ys \<subseteq> set xs \<Longrightarrow> in_place vs ys"
  by (auto simp: in_place_def)

lemma in_place_enumerate: "in_place vs (enumerate 0 vs)"
  by (auto simp: in_place_def in_set_enumerate_eq)

definition sent :: "client_arg list \<Rightarrow> (nat \<times> var) list \<Rightarrow> bytes" where
  "sent args xs = concat (map (\<lambda>(j, v). enc_arg v (args ! j)) xs)"

definition rooms :: "client_arg list \<Rightarrow> (nat \<times> var) list \<Rightarrow> nat" where
  "rooms args xs = sum_list (map (\<lambda>(j, v). arg_room v (args ! j)) xs)"

definition unwritten :: "client_arg list \<Rightarrow> (nat \<times> var) list \<Rightarrow> nat" where
  "unwritten args xs = sum_list (map (\<lambda>(j, v). arg_unwritten v (args ! j)) xs)"

lemma sent_simps [simp]:
  "sent args [] = []" "sent args ((j, v) # xs) = enc_arg v (args ! j) @ sent args xs"
  "sent args (xs @ ys) = sent args xs @ sent args ys"
  by (simp_all add: sent_def)

lemma rooms_simps [simp]:
  "rooms args [] = 0" "rooms args ((j, v) # xs) = arg_room v (args ! j) + rooms args xs"
  "rooms args (xs @ ys) = rooms args xs + rooms args ys"
  by (simp_all add: rooms_def)

lemma unwritten_simps [simp]:
  "unwritten args [] = 0" "unwritten args ((j, v) # xs) = arg_unwritten v (args ! j) + unwritten args xs"
  "unwritten args (xs @ ys) = unwritten args xs + unwritten args ys"
  by (simp_all add: unwritten_def)

definition args_fit :: "client_arg list \<Rightarrow> (nat \<times> var) list \<Rightarrow> bool" where
  "args_fit args xs \<longleftrightarrow> (\<forall>(j, v) \<in> set xs. arg_ok v (args ! j))"

lemma args_fit_simps [simp]:
  "args_fit args []" "args_fit args ((j, v) # xs) \<longleftrightarrow> arg_ok v (args ! j) \<and> args_fit args xs"
  "args_fit args (xs @ ys) \<longleftrightarrow> args_fit args xs \<and> args_fit args ys"
  by (auto simp: args_fit_def)

lemma length_sent: "args_fit args xs \<Longrightarrow> length (sent args xs) + unwritten args xs = rooms args xs"
proof (induction xs)
  case (Cons jv xs)
  then show ?case using length_enc_arg [of "snd jv" "args ! fst jv"] by (cases jv) simp
qed simp

text \<open>Over all variables these are the arguments of the call.\<close>

lemma enumerate_map2:
  assumes "length vs = length args"
  shows "map (\<lambda>(j, v). f v (args ! j)) (enumerate 0 vs) = map2 f vs args"
  using assms by (intro nth_equalityI) (simp_all add: nth_enumerate_eq)

lemma sent_all: "length vs = length args \<Longrightarrow> sent args (enumerate 0 vs) = enc_args vs args"
  by (simp add: sent_def enc_args_def enumerate_map2)

lemma rooms_all: "length vs = length args \<Longrightarrow> rooms args (enumerate 0 vs) = sum_list (map2 arg_room vs args)"
  by (simp add: rooms_def enumerate_map2)

lemma args_fit_all: "list_all2 arg_ok vs args \<Longrightarrow> args_fit args (enumerate 0 vs)"
  by (auto simp: args_fit_def in_set_enumerate_eq list_all2_conv_all_nth)

text \<open>The sums of sizes that the generator prints.\<close>

lemma var_sizes_value:
  assumes "in_place vs xs"
  shows "terms_value vs args (var_sizes xs) = word_of_nat (rooms args xs)"
proof -
  have split: "terms_value vs args (var_sizes xs) =
    terms_value vs args (map writeVarEncodingSize xs) + word_of_nat (length (filter (isPointer \<circ> snd) xs) * 4)" for xs
    by (cases "filter (isPointer \<circ> snd) xs") (simp_all add: terms_value_def var_sizes_def term_value_def Let_def)
  have "terms_value vs args (map writeVarEncodingSize xs) + word_of_nat (length (filter (isPointer \<circ> snd) xs) * 4) = word_of_nat (rooms args xs)"
    using assms
  proof (induction xs)
    case (Cons jv xs)
    then show ?case
      by (cases jv) (simp add: terms_value_def term_value_def writeVarEncodingSize_def arg_room_def algebra_simps)
  qed (simp add: terms_value_def)
  with split show ?thesis by simp
qed

lemma packetSize_value:
  assumes "length vs = length args"
  shows "terms_value vs args (packetSize (enumerate 0 vs)) = word_of_nat (packet_length vs args)"
  using var_sizes_value [OF in_place_enumerate, of vs args] assms
  by (simp add: packetSize_def terms_value_def term_value_def packet_length_def rooms_all)

section \<open>Stores into the room\<close>

text \<open>The stream has given room up to \<open>stop\<close>, and the first \<open>q\<close> bytes of its buffer are \<open>x\<close>.\<close>

definition room :: "io_stream \<Rightarrow> nat \<Rightarrow> nat \<Rightarrow> bytes \<Rightarrow> bool" where
  "room s stop q x \<longleftrightarrow> (\<exists>b. ss_buf s = Some b \<and> take q b = x \<and> q \<le> stop \<and> stop \<le> length b \<and> io_attached s \<and>
     io_bufsize s - io_free s = stop \<and> io_free s \<le> io_bufsize s \<and> io_bufsize s \<le> length b \<and> io_bufsize s < 2 ^ 31 \<and>
     ss_bufsize s \<le> length b)"

lemma room_done:
  assumes "room s stop q x"
  shows "io_inv s \<and> (\<exists>g. pending s = x @ g \<and> length g = stop - q)"
proof -
  from assms obtain b where b: "ss_buf s = Some b" "take q b = x" "q \<le> stop" "stop \<le> length b" "io_attached s"
    "io_bufsize s - io_free s = stop" "io_free s \<le> io_bufsize s" "io_bufsize s \<le> length b" "io_bufsize s < 2 ^ 31" "ss_bufsize s \<le> length b"
    by (auto simp: room_def)
  have "take stop b = take q b @ take (stop - q) (drop q b)"
    using b(3) by (metis le_add_diff_inverse take_add)
  with b have "pending s = x @ take (stop - q) (drop q b)" by (simp add: pending_def)
  moreover have "length (take (stop - q) (drop q b)) = stop - q" using b by simp
  moreover have "io_inv s" using b by (simp add: io_inv_def)
  ultimately show ?thesis by blast
qed

lemma store_ok:
  assumes "room (cl_stream c) stop q x" "cl_ptr c = Some q" "q + length bs \<le> stop" "n = length bs"
  shows "\<exists>s. store bs n c = Inr (c\<lparr>cl_stream := s, cl_ptr := Some (q + length bs)\<rparr>) \<and> room s stop (q + length bs) (x @ bs)"
proof -
  from assms(1) obtain b where b: "ss_buf (cl_stream c) = Some b" "take q b = x" "q \<le> stop" "stop \<le> length b" "io_attached (cl_stream c)"
    "io_bufsize (cl_stream c) - io_free (cl_stream c) = stop" "io_free (cl_stream c) \<le> io_bufsize (cl_stream c)"
    "io_bufsize (cl_stream c) \<le> length b" "io_bufsize (cl_stream c) < 2 ^ 31" "ss_bufsize (cl_stream c) \<le> length b"
    unfolding room_def by blast
  show ?thesis
  proof (cases "bs = []")
    case True
    with assms show ?thesis by (intro exI [of _ "cl_stream c"]) (simp add: store_def)
  next
    case False
    let ?s = "cl_stream c\<lparr>ss_buf := Some (take q b @ bs @ drop (q + length bs) b)\<rparr>"
    have "room ?s stop (q + length bs) (x @ bs)"
      using b assms(3) by (auto simp: room_def)
    moreover have "fill_room q bs (cl_stream c) = Inr ?s" using b assms(3) by (simp add: fill_room_def)
    ultimately show ?thesis using False assms(2,4) by (intro exI [of _ ?s]) (simp add: store_def)
  qed
qed

lemma exec_code_append:
  "exec_code mem wr rd op vs args (xs @ ys) c =
     (case exec_code mem wr rd op vs args xs c of Some (Inr c) \<Rightarrow> exec_code mem wr rd op vs args ys c | r \<Rightarrow> r)"
  by (induction xs arbitrary: c) (auto split: option.splits sum.splits)

lemma exec_code_then:
  "exec_code mem wr rd op vs args xs c = Some (Inr c') \<Longrightarrow>
   exec_code mem wr rd op vs args (xs @ ys) c = exec_code mem wr rd op vs args ys c'"
  by (simp add: exec_code_append)

text \<open>One argument, and then all arguments of a fragment.\<close>

lemma store_data_stores:
  assumes "arg_ok v a" "isPointer v" "sends_data v" "\<not> v_isLarge v"
  shows "store_data v a c = store (arg_data v a) (length (arg_data v a)) c"
proof -
  from assms obtain m n p where a: "a = Pointer m n p" by (cases a) (auto simp: arg_ok_def)
  have n: "length (arg_data v a) = unat (arg_size v a)" using assms a by (simp add: arg_ok_def)
  show ?thesis
  proof (cases "v_nullAllowed v \<and> arg_null a")
    case True
    with n show ?thesis by (simp add: store_data_def arg_data_def)
  next
    case False
    show ?thesis
    proof (cases "v_packExpression v \<noteq> []")
      case True
      with n False assms(4) show ?thesis by (auto simp: store_data_def arg_data_def custom_expression_def Let_def)
    next
      case pack: False
      have data: "arg_data v a = (case m of None \<Rightarrow> [] | Some m \<Rightarrow> take (unat (arg_size v a)) m)"
        using False pack assms(4) a by (auto simp: arg_data_def custom_expression_def)
      show ?thesis
      proof (cases m)
        case None
        with n data False pack a show ?thesis by (auto simp: store_data_def Let_def)
      next
        case (Some mm)
        with n data have "unat (arg_size v a) \<le> length mm" by simp
        with Some n data False pack a show ?thesis by (auto simp: store_data_def Let_def)
      qed
    qed
  qed
qed

lemma exec_arg:
  assumes "arg_ok v (args ! j)" "\<not> v_isLarge v" "vs ! j = v" "room (cl_stream c) stop q x" "cl_ptr c = Some q"
    "q + length (enc_arg v (args ! j)) \<le> stop"
  shows "\<exists>s. exec_code mem wr rd op vs args (writeVarEncodingExpression (j, v)) c =
      Some (Inr (c\<lparr>cl_stream := s, cl_ptr := Some (q + length (enc_arg v (args ! j)))\<rparr>)) \<and>
    room s stop (q + length (enc_arg v (args ! j))) (x @ enc_arg v (args ! j))"
proof (cases "isPointer v")
  case True
  let ?a = "args ! j"
  have e: "enc_arg v ?a = put4LE (arg_size v ?a) @ (if sends_data v then arg_data v ?a else [])" using True by (simp add: enc_arg_def)
  obtain s1 where s1: "store (put4LE (arg_size v ?a)) 4 c = Inr (c\<lparr>cl_stream := s1, cl_ptr := Some (q + 4)\<rparr>)"
    "room s1 stop (q + 4) (x @ put4LE (arg_size v ?a))"
  proof -
    have "q + length (put4LE (arg_size v ?a)) \<le> stop" using assms(6) unfolding e by simp
    from store_ok [OF assms(4,5) this, of 4] that show thesis by auto
  qed
  show ?thesis
  proof (cases "sends_data v")
    case sends: True
    let ?c1 = "c\<lparr>cl_stream := s1, cl_ptr := Some (q + 4)\<rparr>"
    have "room (cl_stream ?c1) stop (q + 4) (x @ put4LE (arg_size v ?a))" "cl_ptr ?c1 = Some (q + 4)" using s1 by simp_all
    have "q + 4 + length (arg_data v ?a) \<le> stop" using assms(6) e sends by simp
    from store_ok [OF \<open>room (cl_stream ?c1) stop (q + 4) (x @ put4LE (arg_size v ?a))\<close> \<open>cl_ptr ?c1 = Some (q + 4)\<close> this refl]
    obtain s2 where s2: "store (arg_data v ?a) (length (arg_data v ?a)) ?c1 = Inr (?c1\<lparr>cl_stream := s2, cl_ptr := Some (q + 4 + length (arg_data v ?a))\<rparr>)"
      "room s2 stop (q + 4 + length (arg_data v ?a)) ((x @ put4LE (arg_size v ?a)) @ arg_data v ?a)" by blast
    have code: "writeVarEncodingExpression (j, v) = [Store_Size j, Store_Data j]"
      using True sends by (simp add: writeVarEncodingExpression_def sends_data_def)
    have one: "exec_stmt mem wr rd op vs args (Store_Size j) c = Some (Inr ?c1)" using s1(1) assms(3) by (simp add: exec_stmt_def)
    have two: "exec_stmt mem wr rd op vs args (Store_Data j) ?c1 =
        Some (Inr (?c1\<lparr>cl_stream := s2, cl_ptr := Some (q + 4 + length (arg_data v ?a))\<rparr>))"
      using s2(1) store_data_stores [OF assms(1) True sends assms(2), of ?c1] assms(3) by (simp add: exec_stmt_def)
    have len: "q + length (enc_arg v ?a) = q + 4 + length (arg_data v ?a)" "enc_arg v ?a = put4LE (arg_size v ?a) @ arg_data v ?a"
      using e sends by simp_all
    have "exec_code mem wr rd op vs args (writeVarEncodingExpression (j, v)) c =
        Some (Inr (c\<lparr>cl_stream := s2, cl_ptr := Some (q + 4 + length (arg_data v ?a))\<rparr>))"
      by (simp only: code exec_code.simps one two option.case sum.case) simp
    then show ?thesis unfolding len(1) using s2(2) len(2) by (intro exI [of _ s2]) simp
  next
    case False
    then have "writeVarEncodingExpression (j, v) = [Store_Size j]"
      using True by (simp add: writeVarEncodingExpression_def sends_data_def)
    with s1 False assms(3) e show ?thesis by (intro exI [of _ s1]) (simp add: exec_stmt_def)
  qed
next
  case False
  with assms(1) obtain bs where a: "args ! j = Value bs" "length bs = vt_bytes (v_type v)" by (cases "args ! j") (auto simp: arg_ok_def)
  have e: "enc_arg v (args ! j) = bs" using False a by (simp add: enc_arg_def)
  show ?thesis
  proof (cases "isVoid v")
    case True
    then have "bs = []" using a by (simp add: isVoid_def)
    with True False e assms(4,5) show ?thesis by (intro exI [of _ "cl_stream c"]) (simp add: writeVarEncodingExpression_def)
  next
    case nv: False
    have "q + length bs \<le> stop" using assms(6) e by simp
    from store_ok [OF assms(4,5) this a(2) [symmetric]] obtain s1 where
      "store bs (vt_bytes (v_type v)) c = Inr (c\<lparr>cl_stream := s1, cl_ptr := Some (q + length bs)\<rparr>)" "room s1 stop (q + length bs) (x @ bs)" by blast
    with nv False a assms(3) e show ?thesis
      by (intro exI [of _ s1]) (simp add: writeVarEncodingExpression_def exec_stmt_def)
  qed
qed

lemma exec_args:
  assumes "in_place vs xs" "args_fit args xs" "\<forall>jv \<in> set xs. \<not> v_isLarge (snd jv)" "room (cl_stream c) stop q x" "cl_ptr c = Some q"
    "q + length (sent args xs) \<le> stop"
  shows "\<exists>s. exec_code mem wr rd op vs args (concat (map writeVarEncodingExpression xs)) c =
      Some (Inr (c\<lparr>cl_stream := s, cl_ptr := Some (q + length (sent args xs))\<rparr>)) \<and>
    room s stop (q + length (sent args xs)) (x @ sent args xs)"
  using assms
proof (induction xs arbitrary: c q x)
  case Nil
  then show ?case by (intro exI [of _ "cl_stream c"]) simp
next
  case (Cons jv xs)
  obtain j v where jv: "jv = (j, v)" by (cases jv)
  let ?e = "enc_arg v (args ! j)"
  have "arg_ok v (args ! j)" "\<not> v_isLarge v" "vs ! j = v" "q + length ?e \<le> stop" using Cons.prems jv by simp_all
  from exec_arg [OF this(1-3) Cons.prems(4,5) this(4), of mem wr rd op] obtain s1 where
    s1: "exec_code mem wr rd op vs args (writeVarEncodingExpression (j, v)) c = Some (Inr (c\<lparr>cl_stream := s1, cl_ptr := Some (q + length ?e)\<rparr>))"
      "room s1 stop (q + length ?e) (x @ ?e)" by blast
  let ?c1 = "c\<lparr>cl_stream := s1, cl_ptr := Some (q + length ?e)\<rparr>"
  have "room (cl_stream ?c1) stop (q + length ?e) (x @ ?e)" using s1(2) by simp
  from Cons.IH [OF _ _ _ this, of] Cons.prems jv obtain s2 where
    s2: "exec_code mem wr rd op vs args (concat (map writeVarEncodingExpression xs)) ?c1 =
        Some (Inr (?c1\<lparr>cl_stream := s2, cl_ptr := Some (q + length ?e + length (sent args xs))\<rparr>))"
      "room s2 stop (q + length ?e + length (sent args xs)) ((x @ ?e) @ sent args xs)" by (auto simp: add.assoc)
  show ?case using s1(1) s2 jv by (intro exI [of _ s2]) (simp add: exec_code_then [OF s1(1)] add.assoc)
qed

section \<open>Fragments\<close>

text \<open>What a sequence of statements does that only sends: the bytes \<open>bs\<close> come behind those that were sent or wait.\<close>

definition sends ::
  "('t \<Rightarrow> bytes) \<Rightarrow> bytes \<Rightarrow> ('t, 's) encoder_context \<Rightarrow> ('t, 's) encoder_context \<Rightarrow> bool" where
  "sends written bs c c' \<longleftrightarrow> io_inv (cl_stream c') \<and> cl_in c' = cl_in c \<and> cl_got c' = cl_got c \<and>
     written (cl_out c') @ pending (cl_stream c') = written (cl_out c) @ pending (cl_stream c) @ bs"

lemma sends_trans: "sends written xs c c1 \<Longrightarrow> sends written ys c1 c2 \<Longrightarrow> sends written (xs @ ys) c c2"
  by (simp add: sends_def flip: append_assoc)

lemma sends_refl: "io_inv (cl_stream c) \<Longrightarrow> sends written [] c c"
  by (simp add: sends_def)

lemma small_not_large: "\<forall>jv \<in> set (small_vars xs). \<not> v_isLarge (snd jv)"
  by (auto dest: set_takeWhileD)

definition large_ok :: "(nat \<times> var) list \<Rightarrow> bool" where
  "large_ok xs \<longleftrightarrow> (\<forall>(j, v) \<in> set xs. v_isLarge v \<longrightarrow> isPointer v \<and> sends_data v)"

lemma packetSize_sum: "in_place vs xs \<Longrightarrow> terms_value vs args (packetSize xs) = word_of_nat (8 + rooms args xs)"
  using var_sizes_value [of vs xs args] by (simp add: packetSize_def terms_value_def term_value_def)

context byte_sink
begin

lemma flush_client_ok:
  assumes "io_inv (cl_stream c)"
  shows "\<exists>c'. flush_client wr c = Some (Inr c') \<and> sends written [] c c' \<and> pending (cl_stream c') = [] \<and> cl_ptr c' = cl_ptr c"
proof -
  from flush_ok [OF assms, of "cl_out c"] obtain s t where
    "flush wr (cl_stream c) (cl_out c) = Some (0, s, t)" "io_inv s" "pending s = []" "written t = written (cl_out c) @ pending (cl_stream c)" by blast
  then show ?thesis by (intro exI [of _ "c\<lparr>cl_stream := s, cl_out := t\<rparr>"]) (simp add: flush_client_def sends_def)
qed

lemma write_client_ok:
  assumes "io_inv (cl_stream c)" "pending (cl_stream c) = []"
  shows "\<exists>c'. write_client wr bs c = Some (Inr c') \<and> sends written bs c c' \<and> pending (cl_stream c') = []"
proof -
  from writeFully_ok [of bs "cl_out c"] obtain t where "writeFully wr bs (cl_out c) = Some (0, t)" "written t = written (cl_out c) @ bs" by blast
  with assms show ?thesis by (intro exI [of _ "c\<lparr>cl_out := t\<rparr>"]) (simp add: write_client_def sends_def)
qed

lemma exec_alloc:
  assumes "\<forall>n. mem n \<noteq> None" "io_inv (cl_stream c)" "terms_value vs args tms = word_of_nat n" "n < 2 ^ 31"
  shows "\<exists>c' x. exec_stmt mem wr rd op vs args (Alloc_Room tms) c = Some (Inr c') \<and> room (cl_stream c') (length x + n) (length x) x \<and>
    cl_ptr c' = Some (length x) \<and> cl_in c' = cl_in c \<and> cl_got c' = cl_got c \<and>
    written (cl_out c') @ x = written (cl_out c) @ pending (cl_stream c)"
proof -
  have n: "unat (terms_value vs args tms) = n"
    using assms(3,4) by (simp add: unat_of_nat)
  from alloc_ok [OF assms(1,2,4), of "cl_out c"] obtain p s t b where a: "alloc mem wr n (cl_stream c) (cl_out c) = Some (Some p, s, t)"
    "written t @ take p b = written (cl_out c) @ pending (cl_stream c)" "ss_buf s = Some b" "p + n \<le> length b" "io_attached s"
    "io_bufsize s - io_free s = p + n" "io_free s \<le> io_bufsize s" "io_bufsize s \<le> length b" "io_bufsize s < 2 ^ 31" "ss_bufsize s \<le> length b" by metis
  then have "length (take p b) = p" by simp
  with a n show ?thesis
    by (intro exI [of _ "c\<lparr>cl_stream := s, cl_out := t, cl_ptr := Some p\<rparr>"] exI [of _ "take p b"])
      (simp add: exec_stmt_def room_def)
qed

lemma exec_header:
  assumes "room (cl_stream c) stop q x" "cl_ptr c = Some q" "q + 8 \<le> stop"
  shows "\<exists>s. exec_code mem wr rd op vs args [Store_Op, Store_Packet_Size] c = Some (Inr (c\<lparr>cl_stream := s, cl_ptr := Some (q + 8)\<rparr>)) \<and>
    room s stop (q + 8) (x @ put4LE op @ put4LE (terms_value vs args (packetSize (enumerate 0 vs))))"
proof -
  let ?n = "terms_value vs args (packetSize (enumerate 0 vs))"
  have "q + length (put4LE op) \<le> stop" using assms(3) by simp
  from store_ok [OF assms(1,2) this, of 4] obtain s1 where
    s1: "store (put4LE op) 4 c = Inr (c\<lparr>cl_stream := s1, cl_ptr := Some (q + 4)\<rparr>)" "room s1 stop (q + 4) (x @ put4LE op)" by auto
  let ?c1 = "c\<lparr>cl_stream := s1, cl_ptr := Some (q + 4)\<rparr>"
  have "room (cl_stream ?c1) stop (q + 4) (x @ put4LE op)" "cl_ptr ?c1 = Some (q + 4)" "q + 4 + length (put4LE ?n) \<le> stop"
    using s1(2) assms(3) by simp_all
  from store_ok [OF this, of 4] obtain s2 where
    "store (put4LE ?n) 4 ?c1 = Inr (?c1\<lparr>cl_stream := s2, cl_ptr := Some (q + 8)\<rparr>)" "room s2 stop (q + 8) ((x @ put4LE op) @ put4LE ?n)"
    by (auto simp: add.commute [of 8])
  with s1(1) show ?thesis by (intro exI [of _ s2]) (simp add: exec_stmt_def)
qed

lemma exec_fragment:
  assumes mem: "\<forall>n. mem n \<noteq> None" and i: "io_inv (cl_stream c)" and xs: "in_place vs xs" "args_fit args xs"
    and n: "(if first then 8 else 0) + rooms args (small_vars xs) < 2 ^ 31" and ne: "first \<or> small_vars xs \<noteq> []"
  shows "\<exists>c' g. exec_code mem wr rd op vs args (fragment first xs) c = Some (Inr c') \<and> length g = unwritten args (small_vars xs) \<and>
    sends written ((if first then put4LE op @ put4LE (terms_value vs args (packetSize (enumerate 0 vs))) else []) @
      sent args (small_vars xs) @ g) c c' \<and> (after_small xs \<noteq> [] \<longrightarrow> pending (cl_stream c') = [])"
proof -
  let ?small = "small_vars xs"
  let ?n = "(if first then 8 else 0) + rooms args ?small"
  let ?hd = "if first then put4LE op @ put4LE (terms_value vs args (packetSize (enumerate 0 vs))) else []"
  let ?tms = "if first \<and> after_small xs = [] then packetSize xs
    else (if first then [Const 8] else []) @ (if ?small \<noteq> [] then var_sizes ?small else [])"
  have sub: "set ?small \<subseteq> set xs" by (rule set_takeWhileD [THEN conjunct1, THEN subsetI])
  have small: "in_place vs ?small" "args_fit args ?small"
    using in_place_sub [OF xs(1) sub] xs(2) sub by (auto simp: args_fit_def)
  have tms: "terms_value vs args ?tms = word_of_nat ?n"
  proof (cases "first \<and> after_small xs = []")
    case True
    then have small_all: "?small = xs" by (metis append_Nil2 takeWhile_dropWhile_id)
    have "terms_value vs args ?tms = word_of_nat (8 + rooms args xs)" using True packetSize_sum [OF xs(1), of args] by simp
    with True small_all show ?thesis by (simp del: takeWhile_eq_all_conv)
  next
    case False
    have "terms_value vs args (if ?small \<noteq> [] then var_sizes ?small else []) = word_of_nat (rooms args ?small)"
      using var_sizes_value [OF small(1)] by (auto simp: terms_value_def)
    then have "terms_value vs args ((if first then [Const 8] else []) @ (if ?small \<noteq> [] then var_sizes ?small else [])) = word_of_nat ?n"
      by (simp add: terms_value_def term_value_def)
    with False show ?thesis by (simp only: if_False)
  qed
  from exec_alloc [OF mem i tms n] obtain c1 x where
    c1: "exec_stmt mem wr rd op vs args (Alloc_Room ?tms) c = Some (Inr c1)" "room (cl_stream c1) (length x + ?n) (length x) x"
      "cl_ptr c1 = Some (length x)" "cl_in c1 = cl_in c" "cl_got c1 = cl_got c"
      "written (cl_out c1) @ x = written (cl_out c) @ pending (cl_stream c)" by blast
  obtain s2 where s2: "exec_code mem wr rd op vs args (if first then [Store_Op, Store_Packet_Size] else []) c1 =
      Some (Inr (c1\<lparr>cl_stream := s2, cl_ptr := Some (length x + length ?hd)\<rparr>))"
    "room s2 (length x + ?n) (length x + length ?hd) (x @ ?hd)"
  proof (cases first)
    case True
    with exec_header [OF c1(2,3), of mem rd op vs args] that show thesis by auto
  next
    case False
    with c1(2,3) that [of "cl_stream c1"] show thesis by simp
  qed
  let ?c2 = "c1\<lparr>cl_stream := s2, cl_ptr := Some (length x + length ?hd)\<rparr>"
  have len: "length (sent args ?small) + unwritten args ?small = rooms args ?small" by (rule length_sent [OF small(2)])
  have r2: "room (cl_stream ?c2) (length x + ?n) (length x + length ?hd) (x @ ?hd)" "cl_ptr ?c2 = Some (length x + length ?hd)"
    "length x + length ?hd + length (sent args ?small) \<le> length x + ?n"
    using s2(2) len by simp_all
  from exec_args [OF small small_not_large r2, of mem wr rd op] obtain s3 where
    s3: "exec_code mem wr rd op vs args (concat (map writeVarEncodingExpression ?small)) ?c2 =
        Some (Inr (?c2\<lparr>cl_stream := s3, cl_ptr := Some (length x + length ?hd + length (sent args ?small))\<rparr>))"
      "room s3 (length x + ?n) (length x + length ?hd + length (sent args ?small)) ((x @ ?hd) @ sent args ?small)" by blast
  let ?c3 = "?c2\<lparr>cl_stream := s3, cl_ptr := Some (length x + length ?hd + length (sent args ?small))\<rparr>"
  from room_done [OF s3(2)] obtain g where g: "io_inv s3" "pending s3 = ((x @ ?hd) @ sent args ?small) @ g"
    "length g = (length x + ?n) - (length x + length ?hd + length (sent args ?small))" by blast
  have lg: "length g = unwritten args ?small" using g(3) len by (cases first) simp_all
  have sends3: "sends written (?hd @ sent args ?small @ g) c ?c3"
    unfolding sends_def using g(1,2) c1(4-6) by (simp flip: append_assoc)
  have code: "fragment first xs = Alloc_Room ?tms # (if first then [Store_Op, Store_Packet_Size] else []) @
      concat (map writeVarEncodingExpression ?small) @ (if after_small xs \<noteq> [] then [Flush_Stream] else [])"
    unfolding fragment_def using ne by (simp only: if_True simp_thms)
  have upto: "exec_code mem wr rd op vs args (fragment first xs) c =
      exec_code mem wr rd op vs args (if after_small xs \<noteq> [] then [Flush_Stream] else []) ?c3"
    unfolding code by (simp only: exec_code.simps c1(1) option.case sum.case exec_code_then [OF s2(1)] exec_code_then [OF s3(1)])
  show ?thesis
  proof (cases "after_small xs = []")
    case True
    with upto sends3 lg show ?thesis by (intro exI [of _ ?c3] exI [of _ g]) simp
  next
    case False
    have "io_inv (cl_stream ?c3)" using g(1) by simp
    from flush_client_ok [OF this] obtain c4 where
      c4: "flush_client wr ?c3 = Some (Inr c4)" "sends written [] ?c3 c4" "pending (cl_stream c4) = []" by blast
    have "exec_code mem wr rd op vs args (fragment first xs) c = Some (Inr c4)"
      using upto False c4(1) by (simp add: exec_stmt_def)
    moreover have "sends written (?hd @ sent args ?small @ g) c c4" using sends_trans [OF sends3 c4(2)] by simp
    ultimately show ?thesis using lg c4(3) by blast
  qed
qed

lemma write_data_ok:
  assumes "arg_ok v a" "isPointer v" "sends_data v" "v_isLarge v" "io_inv (cl_stream c)" "pending (cl_stream c) = []"
  shows "\<exists>c'. write_data wr v a c = Some (Inr c') \<and> sends written (arg_data v a) c c' \<and> pending (cl_stream c') = []"
proof -
  from assms obtain m n p where a: "a = Pointer m n p" by (cases a) (auto simp: arg_ok_def)
  have n: "length (arg_data v a) = unat (arg_size v a)" using assms a by (simp add: arg_ok_def)
  show ?thesis
  proof (cases "v_nullAllowed v \<and> arg_null a")
    case True
    then have "write_data wr v a c = Some (Inr c)" "arg_data v a = []" by (simp_all add: write_data_def arg_data_def)
    then show ?thesis using assms(5,6) by (intro exI [of _ c] conjI) (simp_all add: sends_def)
  next
    case False
    show ?thesis
    proof (cases "v_writeExpression v \<noteq> []")
      case True
      with False assms(4) a have "write_data wr v a c = write_client wr (arg_data v a) c"
        by (auto simp: write_data_def arg_data_def custom_expression_def Let_def)
      with write_client_ok [OF assms(5,6), of "arg_data v a"] show ?thesis by simp
    next
      case copied: False
      have data: "arg_data v a = (case m of None \<Rightarrow> [] | Some m \<Rightarrow> take (unat (arg_size v a)) m)"
        using False copied assms(4) a by (auto simp: arg_data_def custom_expression_def)
      show ?thesis
      proof (cases m)
        case None
        with data False copied a have "write_data wr v a c = Some (Inr c)" "arg_data v a = []" by (auto simp: write_data_def Let_def)
        then show ?thesis using assms(5,6) by (intro exI [of _ c] conjI) (simp_all add: sends_def)
      next
        case (Some mm)
        with n data have "unat (arg_size v a) \<le> length mm" by simp
        with Some data False copied a have "write_data wr v a c = write_client wr (arg_data v a) c"
          by (auto simp: write_data_def Let_def)
        with write_client_ok [OF assms(5,6), of "arg_data v a"] show ?thesis by simp
      qed
    qed
  qed
qed

lemma exec_large:
  assumes "in_place vs xs" "args_fit args xs" "\<forall>(j, v) \<in> set xs. v_isLarge v \<and> isPointer v \<and> sends_data v"
    "io_inv (cl_stream c)" "pending (cl_stream c) = []"
  shows "\<exists>c'. exec_code mem wr rd op vs args (concat (map writeVarLargeEncodingExpression xs)) c = Some (Inr c') \<and>
    sends written (sent args xs) c c' \<and> pending (cl_stream c') = []"
  using assms
proof (induction xs arbitrary: c)
  case Nil
  then show ?case by (intro exI [of _ c]) (simp add: sends_refl)
next
  case (Cons jv xs)
  obtain j v where jv: "jv = (j, v)" by (cases jv)
  let ?a = "args ! j"
  have v: "arg_ok v ?a" "isPointer v" "sends_data v" "v_isLarge v" "vs ! j = v" using Cons.prems jv by auto
  from write_client_ok [OF Cons.prems(4,5), of "put4LE (arg_size v ?a)"] obtain c1 where
    c1: "write_client wr (put4LE (arg_size v ?a)) c = Some (Inr c1)" "sends written (put4LE (arg_size v ?a)) c c1" "pending (cl_stream c1) = []"
    by blast
  have i1: "io_inv (cl_stream c1)" using c1(2) by (simp add: sends_def)
  from write_data_ok [OF v(1-4) i1 c1(3)] obtain c2 where
    c2: "write_data wr v ?a c1 = Some (Inr c2)" "sends written (arg_data v ?a) c1 c2" "pending (cl_stream c2) = []" by blast
  have i2: "io_inv (cl_stream c2)" using c2(2) by (simp add: sends_def)
  from Cons.IH [OF _ _ _ i2 c2(3)] Cons.prems jv obtain c3 where
    c3: "exec_code mem wr rd op vs args (concat (map writeVarLargeEncodingExpression xs)) c2 = Some (Inr c3)"
      "sends written (sent args xs) c2 c3" "pending (cl_stream c3) = []" by auto
  have "enc_arg v ?a = put4LE (arg_size v ?a) @ arg_data v ?a" using v by (simp add: enc_arg_def)
  with sends_trans [OF sends_trans [OF c1(2) c2(2)] c3(2)] have "sends written (sent args (jv # xs)) c c3" using jv by simp
  moreover have "exec_code mem wr rd op vs args (concat (map writeVarLargeEncodingExpression (jv # xs))) c = Some (Inr c3)"
    using c1(1) c2(1) c3(1) v(5) jv by (simp add: writeVarLargeEncodingExpression_def exec_stmt_def)
  ultimately show ?case using c3(3) by blast
qed

text \<open>A fragment and the large variables behind it.\<close>

lemma after_large_hd: "after_large xs = [] \<or> \<not> v_isLarge (snd (hd (after_large xs)))"
  using hd_dropWhile [of "\<lambda>jv. v_isLarge (snd jv)" xs] by blast

lemma three_parts: "xs = small_vars xs @ large_vars (after_small xs) @ after_large (after_small xs)"
  by simp

lemma exec_round:
  assumes mem: "\<forall>n. mem n \<noteq> None" and i: "io_inv (cl_stream c)" and xs: "in_place vs xs" "args_fit args xs" "large_ok xs"
    and n: "(if first then 8 else 0) + rooms args xs < 2 ^ 31" and ne: "first \<or> small_vars xs \<noteq> []"
  shows "\<exists>c' g. exec_code mem wr rd op vs args (fragment first xs @ concat (map writeVarLargeEncodingExpression (large_vars (after_small xs)))) c =
      Some (Inr c') \<and> length g = unwritten args (small_vars xs) \<and>
    sends written ((if first then put4LE op @ put4LE (terms_value vs args (packetSize (enumerate 0 vs))) else []) @
      sent args (small_vars xs) @ g @ sent args (large_vars (after_small xs))) c c'"
proof -
  let ?large = "large_vars (after_small xs)"
  have sub: "set ?large \<subseteq> set xs" by (auto dest: set_takeWhileD set_dropWhileD)
  have large: "in_place vs ?large" "args_fit args ?large" "\<forall>(j, v) \<in> set ?large. v_isLarge v \<and> isPointer v \<and> sends_data v"
    using in_place_sub [OF xs(1) sub] xs(2,3) sub
    by (fastforce simp: args_fit_def large_ok_def dest: set_takeWhileD)+
  have "rooms args xs = rooms args (small_vars xs) + rooms args ?large + rooms args (after_large (after_small xs))"
    by (subst three_parts [of xs]) (simp only: rooms_simps)
  with n have "(if first then 8 else 0) + rooms args (small_vars xs) < 2 ^ 31" by simp
  from exec_fragment [OF mem i xs(1,2) this ne, of rd op] obtain c1 g where
    c1: "exec_code mem wr rd op vs args (fragment first xs) c = Some (Inr c1)" "length g = unwritten args (small_vars xs)"
      "sends written ((if first then put4LE op @ put4LE (terms_value vs args (packetSize (enumerate 0 vs))) else []) @
        sent args (small_vars xs) @ g) c c1" "after_small xs \<noteq> [] \<longrightarrow> pending (cl_stream c1) = []" by blast
  show ?thesis
  proof (cases "after_small xs = []")
    case True
    show ?thesis unfolding True using c1(1-3) by (intro exI [of _ c1] exI [of _ g]) simp
  next
    case False
    have "io_inv (cl_stream c1)" using c1(3) by (simp add: sends_def)
    from exec_large [OF large this c1(4) [rule_format, OF False], of mem rd op] obtain c2 where
      c2: "exec_code mem wr rd op vs args (concat (map writeVarLargeEncodingExpression ?large)) c1 = Some (Inr c2)"
        "sends written (sent args ?large) c1 c2" by blast
    have "sends written ((if first then put4LE op @ put4LE (terms_value vs args (packetSize (enumerate 0 vs))) else []) @
        sent args (small_vars xs) @ g @ sent args ?large) c c2"
      using sends_trans [OF c1(3) c2(2)] by simp
    then show ?thesis using exec_code_then [OF c1(1)] c2(1) c1(2) by (intro exI [of _ c2] exI [of _ g]) simp
  qed
qed

text \<open>The fragments behind the first: there is nothing unwritten in them.\<close>

lemma exec_fragments:
  assumes "\<forall>n. mem n \<noteq> None" "io_inv (cl_stream c)" "in_place vs xs" "args_fit args xs" "large_ok xs"
    "rooms args xs < 2 ^ 31" "unwritten args xs = 0" "xs = [] \<or> \<not> v_isLarge (snd (hd xs))"
  shows "\<exists>c'. exec_code mem wr rd op vs args (fragments False xs) c = Some (Inr c') \<and> sends written (sent args xs) c c'"
  using assms
proof (induction "length xs" arbitrary: xs c rule: less_induct)
  case less
  show ?case
  proof (cases "xs = []")
    case True
    with less.prems(2) show ?thesis by (intro exI [of _ c]) (simp add: fragments.simps sends_refl)
  next
    case False
    let ?rest = "after_large (after_small xs)"
    have ne: "False \<or> small_vars xs \<noteq> []" using False less.prems(8) by (cases xs) auto
    have n: "(if False then 8 else 0) + rooms args xs < 2 ^ 31" using less.prems(6) by simp
    have three: "xs = small_vars xs @ large_vars (after_small xs) @ ?rest" by (rule three_parts)
    have sums: "unwritten args (small_vars xs) = 0" "unwritten args ?rest = 0" "rooms args ?rest < 2 ^ 31"
      "sent args xs = sent args (small_vars xs) @ sent args (large_vars (after_small xs)) @ sent args ?rest"
      using less.prems(6,7) arg_cong [OF three, of "unwritten args"] arg_cong [OF three, of "rooms args"] arg_cong [OF three, of "sent args"]
      by (simp_all only: unwritten_simps rooms_simps sent_simps)
    from exec_round [OF less.prems(1-5) n ne, of rd op] obtain c1 g where
      c1: "exec_code mem wr rd op vs args (fragment False xs @ concat (map writeVarLargeEncodingExpression (large_vars (after_small xs)))) c = Some (Inr c1)"
        "length g = 0" "sends written (sent args (small_vars xs) @ g @ sent args (large_vars (after_small xs))) c c1"
      using sums(1) by auto
    have sub: "set ?rest \<subseteq> set xs" by (auto dest: set_dropWhileD)
    have rest: "in_place vs ?rest" "args_fit args ?rest" "large_ok ?rest" "?rest = [] \<or> \<not> v_isLarge (snd (hd ?rest))"
      using in_place_sub [OF less.prems(3) sub] less.prems(4,5) sub after_large_hd by (auto simp: args_fit_def large_ok_def)
    have i1: "io_inv (cl_stream c1)" using c1(3) by (simp add: sends_def)
    from less.hyps [OF after_large_shorter [OF False] less.prems(1) i1 rest(1-3) sums(3,2) rest(4)] obtain c2 where
      c2: "exec_code mem wr rd op vs args (fragments False ?rest) c1 = Some (Inr c2)" "sends written (sent args ?rest) c1 c2" by blast
    have "sends written (sent args xs) c c2" using sends_trans [OF c1(3) c2(2)] c1(2) sums(4) by simp
    moreover have "exec_code mem wr rd op vs args (fragments False xs) c = Some (Inr c2)"
      using exec_code_then [OF c1(1), of "fragments False ?rest"] c2(1) False by (subst fragments.simps) simp
    ultimately show ?thesis by blast
  qed
qed

text \<open>All of it: the header, the arguments, and what was never written.\<close>

lemma exec_packet:
  assumes mem: "\<forall>n. mem n \<noteq> None" and i: "io_inv (cl_stream c)" and ok: "args_ok vs args"
  shows "\<exists>c' g. exec_code mem wr rd op vs args (fragments True (enumerate 0 vs)) c = Some (Inr c') \<and>
    length g = unwritten args (enumerate 0 vs) \<and>
    sends written (put4LE op @ put4LE (word_of_nat (packet_length vs args)) @ enc_args vs args @ g) c c'"
proof -
  let ?xs = "enumerate 0 vs" and ?rest = "after_large (after_small (enumerate 0 vs))"
  have len: "length vs = length args" using ok list_all2_lengthD by (auto simp: args_ok_def)
  have xs: "in_place vs ?xs" "args_fit args ?xs" "large_ok ?xs"
    using in_place_enumerate args_fit_all ok by (auto simp: args_ok_def vars_ok_def large_ok_def in_set_enumerate_eq)
  have n: "(if True then 8 else 0) + rooms args ?xs < 2 ^ 31" using ok len by (simp add: args_ok_def packet_length_def rooms_all)
  from exec_round [OF mem i xs n, of rd op] obtain c1 g where
    c1: "exec_code mem wr rd op vs args (fragment True ?xs @ concat (map writeVarLargeEncodingExpression (large_vars (after_small ?xs)))) c = Some (Inr c1)"
      "length g = unwritten args (small_vars ?xs)"
      "sends written ((put4LE op @ put4LE (word_of_nat (packet_length vs args))) @
        sent args (small_vars ?xs) @ g @ sent args (large_vars (after_small ?xs))) c c1"
    using packetSize_value [OF len] by auto
  have code: "exec_code mem wr rd op vs args (fragments True ?xs) c = exec_code mem wr rd op vs args (fragments False ?rest) c1"
    using exec_code_then [OF c1(1), of "fragments False ?rest"] by (subst fragments.simps) simp
  have three: "?xs = small_vars ?xs @ large_vars (after_small ?xs) @ ?rest" by (rule three_parts)
  have sums: "unwritten args ?xs = unwritten args (small_vars ?xs) + unwritten args (large_vars (after_small ?xs)) + unwritten args ?rest"
    "rooms args ?rest \<le> rooms args ?xs" "enc_args vs args = sent args (small_vars ?xs) @ sent args (large_vars (after_small ?xs)) @ sent args ?rest"
    using arg_cong [OF three, of "unwritten args"] arg_cong [OF three, of "rooms args"] arg_cong [OF three, of "sent args"] sent_all [OF len]
    by (simp_all only: unwritten_simps rooms_simps sent_simps)
  show ?thesis
  proof (cases "after_small ?xs = []")
    case True
    have rest: "?rest = []" "large_vars (after_small ?xs) = []" unfolding True by simp_all
    have "enc_args vs args = sent args (small_vars ?xs)" using sums(3) unfolding rest by (simp only: sent_simps append_Nil2)
    then have "sends written (put4LE op @ put4LE (word_of_nat (packet_length vs args)) @ enc_args vs args @ g) c c1"
      using c1(3) unfolding rest by (simp only: sent_simps append_Nil2 append_assoc)
    moreover have "exec_code mem wr rd op vs args (fragments True ?xs) c = Some (Inr c1)"
      unfolding code rest by (simp add: fragments.simps)
    moreover have "length g = unwritten args ?xs"
      using sums(1) c1(2) unfolding rest by (simp only: unwritten_simps add_0_right)
    ultimately show ?thesis by blast
  next
    case False
    then have "\<exists>v \<in> set vs. v_isLarge v" by (auto simp: in_set_enumerate_eq)
    then have "\<forall>v \<in> set vs. isPointer v \<longrightarrow> sends_data v" using ok by (auto simp: args_ok_def vars_ok_def)
    then have "unwritten args ?xs = 0" by (auto simp: unwritten_def arg_unwritten_def in_set_enumerate_eq)
    with sums(1) have u: "unwritten args (small_vars ?xs) = 0" "unwritten args ?rest = 0" by simp_all
    have sub: "set ?rest \<subseteq> set ?xs" by (meson set_dropWhileD subsetI)
    have rest: "in_place vs ?rest" "args_fit args ?rest" "large_ok ?rest" "?rest = [] \<or> \<not> v_isLarge (snd (hd ?rest))"
      using in_place_sub [OF xs(1) sub] xs(2,3) sub after_large_hd by (auto simp: args_fit_def large_ok_def)
    have "io_inv (cl_stream c1)" "rooms args ?rest < 2 ^ 31" using c1(3) n sums(2) by (simp_all add: sends_def)
    from exec_fragments [OF mem this(1) rest(1-3) this(2) u(2) rest(4), of rd op] obtain c2 where
      c2: "exec_code mem wr rd op vs args (fragments False ?rest) c1 = Some (Inr c2)" "sends written (sent args ?rest) c1 c2" by blast
    have "sends written (put4LE op @ put4LE (word_of_nat (packet_length vs args)) @ enc_args vs args @ []) c c2"
      using sends_trans [OF c1(3) c2(2)] c1(2) u(1) sums(3) by simp
    with code c2(1) \<open>unwritten args ?xs = 0\<close> show ?thesis by (intro exI [of _ c2] exI [of _ "[]"]) simp
  qed
qed

end

end
