(* ===== verification/Emugen_Decoder.thy ===== *)
theory Emugen_Decoder
  imports Emugen_Packet
begin

text \<open>
  The case that \<open>ApiGen::genDecoderImpl\<close> generates for an entry point, and what it makes of the packet that the
  encoder of the same entry point sends: the function of the server gets the arguments of the client.
\<close>

section \<open>The case of an entry point\<close>

text \<open>
  What the server's function is called with: a value, a null pointer, a pointer into the packet, given by all the
  bytes from there to the end of the buffer, or a pointer to a part of the temporary buffer, given by its size.
\<close>

datatype server_arg = SValue bytes | SNull | SIn bytes | SOut nat

text \<open>The offset is the sum that the generator keeps in \<open>varoffset\<close>. A load from behind the buffer is an error.\<close>

fun decode_args :: "var list \<Rightarrow> bytes \<Rightarrow> nat \<Rightarrow> fault + server_arg list" where
  "decode_args [] ptr varoffset = Inr []"
| "decode_args (v # vs) ptr varoffset =
     (if isVoid v then decode_args vs ptr varoffset
      else if \<not> isPointer v
      then
        let n = vt_bytes (v_type v)
        in if length ptr < varoffset + n then Inl Uninitialised
           else bindE (decode_args vs ptr (varoffset + n)) (\<lambda>args. Inr (SValue (take n (drop varoffset ptr)) # args))
      else if length ptr < varoffset + 4 then Inl Uninitialised
      else
        let n = get4LE (drop varoffset ptr)
        in if v_pointerDir v = POINTER_IN \<or> v_pointerDir v = POINTER_INOUT
           then bindE (decode_args vs ptr (varoffset + 4 + unat n)) (\<lambda>args.
                  Inr ((if v_nullAllowed v \<and> n = 0 then SNull else SIn (drop (varoffset + 4) ptr)) # args))
           else bindE (decode_args vs ptr (varoffset + 4)) (\<lambda>args.
                  Inr ((if v_nullAllowed v \<and> n = 0 then SNull else SOut (unat n)) # args)))"

definition has_out :: "entry_point \<Rightarrow> bool" where
  "has_out e \<longleftrightarrow> (\<exists>v \<in> set (ep_vars e). isPointer v \<and> v_pointerDir v = POINTER_OUT)"

definition returns_value :: "entry_point \<Rightarrow> bool" where
  "returns_value e \<longleftrightarrow> \<not> isVoid (ep_retval e) \<and> \<not> isPointer (ep_retval e)"

definition totalTmpSize :: "entry_point \<Rightarrow> server_arg list \<Rightarrow> nat" where
  "totalTmpSize e args =
     sum_list (map (\<lambda>a. case a of SOut n \<Rightarrow> n | _ \<Rightarrow> 0) args) + (if returns_value e then vt_bytes (v_type (ep_retval e)) else 0)"

text \<open>The functions of the server, by name: from the arguments to what they leave in the parts of the temporary
  buffer, one for each output pointer, and what they return.\<close>

type_synonym 'w server = "bytes \<Rightarrow> server_arg list \<Rightarrow> 'w \<Rightarrow> fault + bytes list \<times> bytes \<times> 'w"

text \<open>The temporary buffer, the call, and the reply, which is the temporary buffer.\<close>

definition call_reply :: "entry_point \<Rightarrow> bytes list \<Rightarrow> bytes \<Rightarrow> bytes" where
  "call_reply e outs ret = concat outs @ (if returns_value e then ret else [])"

definition call_server ::
  "(nat \<Rightarrow> (nat \<Rightarrow> char) option) \<Rightarrow> (bytes \<Rightarrow> 't \<Rightarrow> nat option \<times> 't) \<Rightarrow> 'w server \<Rightarrow> entry_point \<Rightarrow>
   server_arg list \<Rightarrow> io_stream \<times> 't \<times> 'w \<Rightarrow> fault + io_stream \<times> 't \<times> 'w" where
  "call_server mem wr srv e args st =
     (case st of (s, t, w) \<Rightarrow>
        if has_out e \<or> returns_value e
        then
          case alloc mem wr (totalTmpSize e args) s t of
            None \<Rightarrow> Inl Hang
          | Some (tmpBuf, s, t) \<Rightarrow>
              bindE (srv (ep_name e) args w) (\<lambda>(outs, ret, w).
                let reply = call_reply e outs ret
                in bindE (case tmpBuf of None \<Rightarrow> if reply = [] then Inr s else Inl NullPointer | Some p \<Rightarrow> fill_room p reply s) (\<lambda>s.
                     case flush wr s t of None \<Rightarrow> Inl Hang | Some (_, s, t) \<Rightarrow> Inr (s, t, w)))
        else bindE (srv (ep_name e) args w) (\<lambda>(outs, ret, w). Inr (s, t, w)))"

definition decode_case ::
  "(nat \<Rightarrow> (nat \<Rightarrow> char) option) \<Rightarrow> (bytes \<Rightarrow> 't \<Rightarrow> nat option \<times> 't) \<Rightarrow> 'w server \<Rightarrow> entry_point \<Rightarrow>
   bytes \<Rightarrow> io_stream \<times> 't \<times> 'w \<Rightarrow> fault + io_stream \<times> 't \<times> 'w" where
  "decode_case mem wr srv e ptr st =
     bindE (decode_args (ep_vars e) ptr 8) (\<lambda>args. call_server mem wr srv e args st)"

text \<open>The switch over the operations.\<close>

definition api_decoder ::
  "(nat \<Rightarrow> (nat \<Rightarrow> char) option) \<Rightarrow> (bytes \<Rightarrow> 't \<Rightarrow> nat option \<times> 't) \<Rightarrow> 'w server \<Rightarrow> api \<Rightarrow> (io_stream \<times> 't \<times> 'w) decoder" where
  "api_decoder mem wr srv a op =
     map_option (decode_case mem wr srv) (map_of (zip (map snd (genOpcodes a)) (ag_entries a)) op)"

section \<open>The arguments arrive\<close>

definition arrived :: "var \<Rightarrow> client_arg \<Rightarrow> server_arg" where
  "arrived v a =
     (if \<not> isPointer v then SValue (val_bytes a)
      else if v_nullAllowed v \<and> arg_size v a = 0 then SNull
      else if sends_data v then SIn (arg_data v a)
      else SOut (unat (arg_size v a)))"

definition server_args :: "var list \<Rightarrow> client_arg list \<Rightarrow> server_arg list" where
  "server_args vs args = concat (map2 (\<lambda>v a. if isVoid v then [] else [arrived v a]) vs args)"

text \<open>The pointers into the packet lead to the data, and to what follows it.\<close>

definition extends :: "server_arg \<Rightarrow> server_arg \<Rightarrow> bool" where
  "extends x y \<longleftrightarrow> (case x of SIn d \<Rightarrow> \<exists>z. y = SIn (d @ z) | _ \<Rightarrow> y = x)"

lemma sends_data_dir: "sends_data v \<longleftrightarrow> v_pointerDir v = POINTER_IN \<or> v_pointerDir v = POINTER_INOUT"
  by (auto simp: sends_data_def)

lemma get4LE_at: "length pre = n \<Longrightarrow> get4LE (drop n (pre @ put4LE w @ rest)) = w"
  by simp

lemma decode_args_arrive:
  assumes "list_all2 arg_ok vs args" "length pre = off"
  shows "\<exists>ys. decode_args vs (pre @ enc_args vs args @ rest) off = Inr ys \<and> list_all2 extends (server_args vs args) ys"
  using assms
proof (induction vs args arbitrary: pre off rule: list_all2_induct)
  case Nil
  then show ?case by (simp add: server_args_def)
next
  case (Cons v vs a args)
  let ?tail = "enc_args vs args @ rest"
  have enc: "enc_args (v # vs) (a # args) = enc_arg v a @ enc_args vs args" by (simp add: enc_args_def)
  have srv: "server_args (v # vs) (a # args) = (if isVoid v then [] else [arrived v a]) @ server_args vs args"
    by (simp add: server_args_def)
  show ?case
  proof (cases "isPointer v")
    case False
    with Cons.hyps(1) obtain bs where a: "a = Value bs" "length bs = vt_bytes (v_type v)" by (cases a) (auto simp: arg_ok_def)
    have e: "enc_arg v a = bs" using False a by (simp add: enc_arg_def)
    have l: "length (pre @ bs) = off + length bs" using Cons.prems by simp
    from Cons.IH [OF l] obtain ys where
      ys: "decode_args vs (pre @ bs @ ?tail) (off + length bs) = Inr ys" "list_all2 extends (server_args vs args) ys" by auto
    show ?thesis
    proof (cases "isVoid v")
      case True
      then have "bs = []" using a by (simp add: isVoid_def)
      with True ys enc e srv show ?thesis by (intro exI [of _ ys]) simp
    next
      case nv: False
      have "arrived v a = SValue bs" using False a by (simp add: arrived_def)
      then have "list_all2 extends (server_args (v # vs) (a # args)) (SValue bs # ys)"
        using ys(2) nv srv by (simp add: extends_def)
      moreover have "decode_args (v # vs) (pre @ enc_args (v # vs) (a # args) @ rest) off = Inr (SValue bs # ys)"
        using nv False ys(1) enc e a(2) Cons.prems by (simp add: Let_def)
      ultimately show ?thesis by blast
    qed
  next
    case True
    have nv: "\<not> isVoid v" using True by (simp add: isVoid_def isPointer_def)
    show ?thesis
    proof (cases "sends_data v")
      case False
      have e: "enc_arg v a = put4LE (arg_size v a)" using True False by (simp add: enc_arg_def)
      have l: "length (pre @ put4LE (arg_size v a)) = off + 4" using Cons.prems by simp
      from Cons.IH [OF l] obtain ys where
        ys: "decode_args vs (pre @ put4LE (arg_size v a) @ ?tail) (off + 4) = Inr ys" "list_all2 extends (server_args vs args) ys" by auto
      have n: "get4LE (drop off (pre @ put4LE (arg_size v a) @ ?tail)) = arg_size v a" using Cons.prems by (rule get4LE_at)
      have "arrived v a = (if v_nullAllowed v \<and> arg_size v a = 0 then SNull else SOut (unat (arg_size v a)))"
        using True False by (simp add: arrived_def)
      then have "list_all2 extends (server_args (v # vs) (a # args)) (arrived v a # ys)"
        using ys(2) nv srv by (simp add: extends_def)
      moreover have "decode_args (v # vs) (pre @ enc_args (v # vs) (a # args) @ rest) off = Inr (arrived v a # ys)"
        using nv True False n ys(1) enc e Cons.prems by (simp add: Let_def arrived_def sends_data_dir)
      ultimately show ?thesis by blast
    next
      case sends: True
      let ?d = "arg_data v a"
      have e: "enc_arg v a = put4LE (arg_size v a) @ ?d" using True sends by (simp add: enc_arg_def)
      have ld: "length ?d = unat (arg_size v a)" using Cons.hyps(1) True sends by (cases a) (auto simp: arg_ok_def)
      have l: "length (pre @ put4LE (arg_size v a) @ ?d) = off + 4 + unat (arg_size v a)" using Cons.prems ld by simp
      from Cons.IH [OF l] obtain ys where
        ys: "decode_args vs (pre @ put4LE (arg_size v a) @ ?d @ ?tail) (off + 4 + unat (arg_size v a)) = Inr ys"
          "list_all2 extends (server_args vs args) ys" by auto
      have n: "get4LE (drop off (pre @ put4LE (arg_size v a) @ ?d @ ?tail)) = arg_size v a" using Cons.prems by (rule get4LE_at)
      have d: "drop (off + 4) (pre @ put4LE (arg_size v a) @ ?d @ ?tail) = ?d @ ?tail" using Cons.prems by simp
      let ?y = "if v_nullAllowed v \<and> arg_size v a = 0 then SNull else SIn (?d @ ?tail)"
      have "extends (arrived v a) ?y" using True sends by (simp add: arrived_def extends_def)
      then have "list_all2 extends (server_args (v # vs) (a # args)) (?y # ys)" using ys(2) nv srv by simp
      moreover have "decode_args (v # vs) (pre @ enc_args (v # vs) (a # args) @ rest) off = Inr (?y # ys)"
        using nv True sends n d ys(1) enc e Cons.prems by (simp add: Let_def sends_data_dir)
      ultimately show ?thesis by blast
    qed
  qed
qed

section \<open>The server answers\<close>

text \<open>A function that reads no more than the data that a pointer into the packet was sent with.\<close>

definition reads_only :: "'w server \<Rightarrow> bytes \<Rightarrow> server_arg list \<Rightarrow> bool" where
  "reads_only srv name xs \<longleftrightarrow> (\<forall>ys w. list_all2 extends xs ys \<longrightarrow> srv name ys w = srv name xs w)"

text \<open>The output pointers of a call, and contents of the lengths that they were given.\<close>

definition out_vars :: "var list \<Rightarrow> client_arg list \<Rightarrow> (var \<times> client_arg) list" where
  "out_vars vs args = filter (\<lambda>(v, a). isPointer v \<and> \<not> sends_data v) (zip vs args)"

definition fills :: "var list \<Rightarrow> client_arg list \<Rightarrow> bytes list \<Rightarrow> bool" where
  "fills vs args outs \<longleftrightarrow> list_all2 (\<lambda>(v, a) out. length out = unat (arg_size v a)) (out_vars vs args) outs"

text \<open>The types of results: at most four bytes, and none only for \<open>void\<close>.\<close>

definition result_ok :: "entry_point \<Rightarrow> bool" where
  "result_ok e \<longleftrightarrow> vt_bytes (v_type (ep_retval e)) \<le> 4 \<and>
     (\<not> isPointer (ep_retval e) \<longrightarrow> (vt_name (v_type (ep_retval e)) = ''void'' \<longleftrightarrow> vt_bytes (v_type (ep_retval e)) = 0))"

definition answer_ok :: "entry_point \<Rightarrow> client_arg list \<Rightarrow> bytes list \<Rightarrow> bytes \<Rightarrow> bool" where
  "answer_ok e args outs ret \<longleftrightarrow> fills (ep_vars e) args outs \<and> (returns_value e \<longrightarrow> length ret = vt_bytes (v_type (ep_retval e)))"

definition call_packet :: "32 word \<Rightarrow> entry_point \<Rightarrow> client_arg list \<Rightarrow> bytes \<Rightarrow> wire_packet" where
  "call_packet op e args g = (op, enc_args (ep_vars e) args @ g)"

lemma extends_refl [simp]: "extends x x"
  by (auto simp: extends_def split: server_arg.splits)

lemma extends_out: "extends x y \<Longrightarrow> (case y of SOut n \<Rightarrow> n | _ \<Rightarrow> 0) = (case x of SOut n \<Rightarrow> n | _ \<Rightarrow> 0)"
  by (auto simp: extends_def split: server_arg.splits)

lemma totalTmpSize_extends: "list_all2 extends xs ys \<Longrightarrow> totalTmpSize e ys = totalTmpSize e xs"
  unfolding totalTmpSize_def
  by (rule arg_cong [where f = "\<lambda>n. sum_list n + _"], induction rule: list_all2_induct) (simp_all add: extends_out)

lemma call_server_extends:
  assumes "list_all2 extends xs ys" "reads_only srv (ep_name e) xs"
  shows "call_server mem wr srv e ys st = call_server mem wr srv e xs st"
proof -
  have "srv (ep_name e) ys = srv (ep_name e) xs" using assms by (auto simp: reads_only_def)
  then show ?thesis by (simp only: call_server_def totalTmpSize_extends [OF assms(1)])
qed

lemma unwritten_all: "length vs = length args \<Longrightarrow> unwritten args (enumerate 0 vs) = sum_list (map2 arg_unwritten vs args)"
  by (simp add: unwritten_def enumerate_map2)

lemma packet_length_split:
  assumes "list_all2 arg_ok vs args"
  shows "packet_length vs args = 8 + length (enc_args vs args) + sum_list (map2 arg_unwritten vs args)"
proof -
  have len: "length vs = length args" using assms by (rule list_all2_lengthD)
  with length_sent [OF args_fit_all [OF assms]] show ?thesis
    by (simp add: sent_all rooms_all unwritten_all packet_length_def)
qed

lemma decode_case_packet:
  assumes "args_ok (ep_vars e) args" "reads_only srv (ep_name e) (server_args (ep_vars e) args)"
  shows "decode_case mem wr srv e (enc_packet (call_packet op e args g) @ rest) st = call_server mem wr srv e (server_args (ep_vars e) args) st"
proof -
  let ?pre = "put4LE op @ put4LE (packet_len (call_packet op e args g))"
  have "list_all2 arg_ok (ep_vars e) args" "length ?pre = 8" using assms(1) by (simp_all add: args_ok_def)
  from decode_args_arrive [OF this, of "g @ rest"] obtain ys where
    "decode_args (ep_vars e) (?pre @ enc_args (ep_vars e) args @ g @ rest) 8 = Inr ys" "list_all2 extends (server_args (ep_vars e) args) ys" by blast
  moreover have "enc_packet (call_packet op e args g) @ rest = ?pre @ enc_args (ep_vars e) args @ g @ rest"
    by (simp add: enc_packet_def call_packet_def)
  ultimately show ?thesis using call_server_extends [OF _ assms(2)] by (simp add: decode_case_def)
qed

text \<open>The size of the temporary buffer is that of the reply.\<close>

lemma out_sizes:
  assumes "list_all2 arg_ok vs args"
  shows "sum_list (map (\<lambda>a. case a of SOut n \<Rightarrow> n | _ \<Rightarrow> 0) (server_args vs args)) = sum_list (map2 arg_unwritten vs args) \<and>
    sum_list (map (\<lambda>(v, a). unat (arg_size v a)) (out_vars vs args)) = sum_list (map2 arg_unwritten vs args)"
  using assms
proof (induction rule: list_all2_induct)
  case (Cons v vs a args)
  have "server_args (v # vs) (a # args) = (if isVoid v then [] else [arrived v a]) @ server_args vs args"
    "out_vars (v # vs) (a # args) = (if isPointer v \<and> \<not> sends_data v then [(v, a)] else []) @ out_vars vs args"
    by (simp_all add: server_args_def out_vars_def)
  moreover have "isPointer v \<Longrightarrow> \<not> isVoid v" by (simp add: isVoid_def isPointer_def)
  ultimately show ?case using Cons.IH by (auto simp: arg_unwritten_def arrived_def)
qed (simp add: server_args_def out_vars_def)

lemma fills_length:
  assumes "fills vs args outs" "list_all2 arg_ok vs args"
  shows "length (concat outs) = sum_list (map2 arg_unwritten vs args)"
proof -
  have "length (concat outs) = sum_list (map (\<lambda>(v, a). unat (arg_size v a)) (out_vars vs args))"
    using assms(1) unfolding fills_def by (induction rule: list_all2_induct) (auto split: prod.splits)
  with out_sizes [OF assms(2)] show ?thesis by simp
qed

lemma no_out_vars: "\<not> has_out e \<Longrightarrow> length args = length (ep_vars e) \<Longrightarrow> out_vars (ep_vars e) args = []"
proof -
  have "isPointer v \<Longrightarrow> \<not> sends_data v \<Longrightarrow> v_pointerDir v = POINTER_OUT" for v
    by (cases "v_pointerDir v") (simp_all add: sends_data_def)
  then show "\<not> has_out e \<Longrightarrow> ?thesis" by (auto simp: has_out_def out_vars_def filter_empty_conv dest: set_zip_leftD)
qed

context byte_sink
begin

lemma call_server_ok:
  assumes mem: "\<forall>n. mem n \<noteq> None" and i: "io_inv s" "pending s = []" and ok: "args_ok (ep_vars e) args" "result_ok e"
    and srv: "srv (ep_name e) (server_args (ep_vars e) args) w = Inr (outs, ret, w')" and ans: "answer_ok e args outs ret"
  shows "\<exists>s' t'. call_server mem wr srv e (server_args (ep_vars e) args) (s, t, w) = Inr (s', t', w') \<and> io_inv s' \<and> pending s' = [] \<and>
    written t' = written t @ call_reply e outs ret"
proof -
  let ?sargs = "server_args (ep_vars e) args" and ?reply = "call_reply e outs ret"
  have args: "list_all2 arg_ok (ep_vars e) args" "packet_length (ep_vars e) args < 2 ^ 31" using ok by (simp_all add: args_ok_def)
  have reply: "length ?reply = totalTmpSize e ?sargs"
    using fills_length [OF _ args(1), of outs] out_sizes [OF args(1)] ans
    by (auto simp: call_reply_def totalTmpSize_def answer_ok_def)
  have total: "totalTmpSize e ?sargs < 2 ^ 31"
    using packet_length_split [OF args(1)] args(2) out_sizes [OF args(1)] ok(2)
    by (auto simp: totalTmpSize_def result_ok_def)
  show ?thesis
  proof (cases "has_out e \<or> returns_value e")
    case False
    then have "out_vars (ep_vars e) args = []" using no_out_vars args(1) list_all2_lengthD by metis
    then have "?reply = []" using ans False by (simp add: call_reply_def answer_ok_def fills_def)
    with False srv i show ?thesis by (intro exI [of _ s] exI [of _ t]) (simp add: call_server_def)
  next
    case True
    from alloc_ok [OF mem i(1) total, of t] obtain p s1 t1 b where a: "alloc mem wr (totalTmpSize e ?sargs) s t = Some (Some p, s1, t1)"
      "written t1 @ take p b = written t @ pending s" "ss_buf s1 = Some b" "p + totalTmpSize e ?sargs \<le> length b" "io_attached s1"
      "io_bufsize s1 - io_free s1 = p + totalTmpSize e ?sargs" "io_free s1 \<le> io_bufsize s1"
      "io_bufsize s1 \<le> length b" "io_bufsize s1 < 2 ^ 31" "ss_bufsize s1 \<le> length b" by metis
    have "p + length ?reply \<le> length b" "io_bufsize s1 - io_free s1 = p + length ?reply" using a(4,6) reply by simp_all
    from fill_room_ok [OF a(3) this(1) refl a(5) this(2) a(7-10)] obtain s2 where
      s2: "fill_room p ?reply s1 = Inr s2" "io_inv s2" "pending s2 = take p b @ ?reply" by blast
    from flush_ok [OF s2(2), of t1] obtain s3 t3 where
      "flush wr s2 t1 = Some (0, s3, t3)" "io_inv s3" "pending s3 = []" "written t3 = written t1 @ pending s2" by blast
    with True a(1,2) s2 srv i(2) show ?thesis
      by (intro exI [of _ s3] exI [of _ t3]) (simp add: call_server_def Let_def flip: append_assoc)
  qed
qed

end

end
