(* ===== verification/Emugen_Remote.thy ===== *)
theory Emugen_Remote
  imports Emugen_Decoder
begin

text \<open>
  Calls through the wire: a client that makes a sequence of calls through the generated encoders, a render thread
  that reads its stream through the generated decoders, and the answers on their way back.
\<close>

section \<open>The calls, and what they mean without a wire\<close>

type_synonym remote_call = "32 word \<times> entry_point \<times> client_arg list"

fun serve :: "'w server \<Rightarrow> remote_call list \<Rightarrow> 'w \<Rightarrow> fault + (bytes list \<times> bytes) list \<times> 'w" where
  "serve srv [] w = Inr ([], w)"
| "serve srv ((op, e, args) # cs) w =
     bindE (srv (ep_name e) (server_args (ep_vars e) args) w) (\<lambda>(outs, ret, w).
       bindE (serve srv cs w) (\<lambda>(answers, w). Inr ((outs, ret) # answers, w)))"

fun replies :: "remote_call list \<Rightarrow> (bytes list \<times> bytes) list \<Rightarrow> bytes" where
  "replies ((op, e, args) # cs) ((outs, ret) # answers) = call_reply e outs ret @ replies cs answers"
| "replies cs answers = []"

text \<open>What the client has read at the end of a call: the data of the output pointers that are not null, and the result.\<close>

definition out_results :: "(var \<times> client_arg) list \<Rightarrow> bytes list \<Rightarrow> bytes option list" where
  "out_results vas outs = map (\<lambda>(va, out). Some out) (filter (\<lambda>((v, a), out). \<not> (v_nullAllowed v \<and> arg_null a)) (zip vas outs))"

definition call_results :: "entry_point \<Rightarrow> client_arg list \<Rightarrow> bytes list \<Rightarrow> bytes \<Rightarrow> bytes option list" where
  "call_results e args outs ret = out_results (out_vars (ep_vars e) args) outs @ (if returns_value e then [Some ret] else [])"

fun results :: "remote_call list \<Rightarrow> (bytes list \<times> bytes) list \<Rightarrow> bytes option list" where
  "results ((op, e, args) # cs) ((outs, ret) # answers) = call_results e args outs ret @ results cs answers"
| "results cs answers = []"

fun client_calls ::
  "(nat \<Rightarrow> (nat \<Rightarrow> char) option) \<Rightarrow> (bytes \<Rightarrow> 't \<Rightarrow> nat option \<times> 't) \<Rightarrow> (nat \<Rightarrow> 's \<Rightarrow> bytes option \<times> 's) \<Rightarrow>
   remote_call list \<Rightarrow> ('t, 's) encoder_context \<Rightarrow> (fault + ('t, 's) encoder_context) option" where
  "client_calls mem wr rd [] c = flush_client wr c"
| "client_calls mem wr rd ((op, e, args) # cs) c =
     (case client_call mem wr rd op e args c of
        Some (Inr c) \<Rightarrow> client_calls mem wr rd cs c
      | r \<Rightarrow> r)"

text \<open>No pointer is both for input and for output, and a pointer for output is null only where that is allowed.\<close>

definition receives_ok :: "entry_point \<Rightarrow> client_arg list \<Rightarrow> bool" where
  "receives_ok e args \<longleftrightarrow> (\<forall>(v, a) \<in> set (zip (ep_vars e) args). isPointer v \<longrightarrow>
     v_pointerDir v \<noteq> POINTER_INOUT \<and> (v_pointerDir v = POINTER_OUT \<and> arg_null a \<longrightarrow> v_nullAllowed v))"

definition remote_ok :: "'w server \<Rightarrow> remote_call \<Rightarrow> bool" where
  "remote_ok srv call \<longleftrightarrow> (case call of (op, e, args) \<Rightarrow>
     args_ok (ep_vars e) args \<and> result_ok e \<and> receives_ok e args \<and> reads_only srv (ep_name e) (server_args (ep_vars e) args))"

section \<open>The client reads\<close>

locale connection = byte_source rd left + byte_sink wr written
  for rd :: "nat \<Rightarrow> 's \<Rightarrow> bytes option \<times> 's" and left :: "'s \<Rightarrow> bytes"
    and wr :: "bytes \<Rightarrow> 't \<Rightarrow> nat option \<times> 't" and written :: "'t \<Rightarrow> bytes"
begin

definition gets :: "bytes option list \<Rightarrow> bytes \<Rightarrow> ('t, 's) encoder_context \<Rightarrow> ('t, 's) encoder_context \<Rightarrow> bool" where
  "gets rs behind c c' \<longleftrightarrow> io_inv (cl_stream c') \<and> cl_got c' = cl_got c @ rs \<and> left (cl_in c') = behind \<and>
     written (cl_out c') @ pending (cl_stream c') = written (cl_out c) @ pending (cl_stream c)"

lemma gets_trans: "gets rs m c c1 \<Longrightarrow> gets rs' m' c1 c2 \<Longrightarrow> gets (rs @ rs') m' c c2"
  by (simp add: gets_def)

lemma readback_ok:
  assumes "io_inv (cl_stream c)" "left (cl_in c) = out @ behind" "n = length out"
  shows "\<exists>c'. readback wr rd False n c = Some (Inr c') \<and> gets [Some out] behind c c'"
proof -
  from flush_client_ok [OF assms(1)] obtain c1 where
    c1: "flush_client wr c = Some (Inr c1)" "sends written [] c c1" by blast
  have i: "left (cl_in c1) = out @ behind" "cl_got c1 = cl_got c" using c1(2) assms(2) by (simp_all add: sends_def)
  from readFully_some [of n "cl_in c1"] i(1) assms(3) obtain s where
    "readFully rd n (cl_in c1) = (Some out, s)" "left s = behind" by auto
  with c1 i(2) show ?thesis
    by (intro exI [of _ "c1\<lparr>cl_in := s, cl_got := cl_got c1 @ [Some out]\<rparr>"]) (simp add: readback_def sends_def gets_def)
qed

lemma exec_read_backs:
  assumes "in_place vs xs" "\<forall>(j, v) \<in> set xs. isPointer v \<longrightarrow> v_pointerDir v \<noteq> POINTER_INOUT \<and>
      (v_pointerDir v = POINTER_OUT \<and> arg_null (args ! j) \<longrightarrow> v_nullAllowed v)"
    "list_all2 (\<lambda>(v, a) out. length out = unat (arg_size v a)) (filter (\<lambda>(v, a). isPointer v \<and> \<not> sends_data v) (map (\<lambda>(j, v). (v, args ! j)) xs)) outs"
    "io_inv (cl_stream c)" "left (cl_in c) = concat outs @ behind"
  shows "\<exists>c'. exec_code mem wr rd op vs args (read_backs xs) c = Some (Inr c') \<and>
    gets (out_results (filter (\<lambda>(v, a). isPointer v \<and> \<not> sends_data v) (map (\<lambda>(j, v). (v, args ! j)) xs)) outs) behind c c'"
  using assms
proof (induction xs arbitrary: c outs)
  case Nil
  then show ?case by (intro exI [of _ c]) (simp add: read_backs_def out_results_def gets_def)
next
  case (Cons jv xs)
  obtain j v where jv: "jv = (j, v)" by (cases jv)
  let ?out_vas = "\<lambda>xs. filter (\<lambda>(v, a). isPointer v \<and> \<not> sends_data v) (map (\<lambda>(j, v). (v, args ! j)) xs)"
  have code: "read_backs (jv # xs) = (if isPointer v \<and> (v_pointerDir v = POINTER_INOUT \<or> v_pointerDir v = POINTER_OUT) then [Read_Back j] else []) @ read_backs xs"
    using jv by (simp add: read_backs_def)
  show ?case
  proof (cases "isPointer v \<and> \<not> sends_data v")
    case False
    then have "read_backs (jv # xs) = read_backs xs" using code Cons.prems(2) jv by (auto simp: sends_data_def)
    moreover have "?out_vas (jv # xs) = ?out_vas xs" using False jv by auto
    ultimately show ?thesis using Cons.IH [of outs c] Cons.prems by simp
  next
    case True
    then have dir: "v_pointerDir v = POINTER_OUT" by (cases "v_pointerDir v") (simp_all add: sends_data_def)
    have vas: "?out_vas (jv # xs) = (v, args ! j) # ?out_vas xs" using True jv by simp
    with Cons.prems(3) obtain out outs' where outs: "outs = out # outs'" "length out = unat (arg_size v (args ! j))"
      "list_all2 (\<lambda>(v, a) out. length out = unat (arg_size v a)) (?out_vas xs) outs'" by (auto simp: list_all2_Cons1)
    have v: "vs ! j = v" "in_place vs xs" using Cons.prems(1) jv by simp_all
    have step: "exec_code mem wr rd op vs args (read_backs (jv # xs)) c =
      (case exec_stmt mem wr rd op vs args (Read_Back j) c of Some (Inr c) \<Rightarrow> exec_code mem wr rd op vs args (read_backs xs) c | r \<Rightarrow> r)"
      using code True dir by simp
    show ?thesis
    proof (cases "v_nullAllowed v \<and> arg_null (args ! j)")
      case null: True
      then have "out = []" using outs(2) by (simp add: getVarEncodingSizeExpression_def)
      then have "left (cl_in c) = concat outs' @ behind" using Cons.prems(5) outs(1) by simp
      with Cons.IH [OF v(2) _ outs(3) Cons.prems(4)] Cons.prems(2) jv obtain c2 where
        "exec_code mem wr rd op vs args (read_backs xs) c = Some (Inr c2)" "gets (out_results (?out_vas xs) outs') behind c c2" by auto
      moreover have "exec_stmt mem wr rd op vs args (Read_Back j) c = Some (Inr c)" using null v(1) by (simp add: exec_stmt_def)
      ultimately show ?thesis using step null unfolding vas outs(1) by (intro exI [of _ c2]) (simp add: out_results_def)
    next
      case False
      then have nn: "\<not> arg_null (args ! j)" using Cons.prems(2) jv True dir by auto
      have "left (cl_in c) = out @ concat outs' @ behind" using Cons.prems(5) outs(1) by simp
      from readback_ok [OF Cons.prems(4) this outs(2) [symmetric]] obtain c1 where
        c1: "readback wr rd False (unat (arg_size v (args ! j))) c = Some (Inr c1)" "gets [Some out] (concat outs' @ behind) c c1" by blast
      have i1: "io_inv (cl_stream c1)" "left (cl_in c1) = concat outs' @ behind" using c1(2) by (simp_all add: gets_def)
      with Cons.IH [OF v(2) _ outs(3)] Cons.prems(2) jv obtain c2 where
        c2: "exec_code mem wr rd op vs args (read_backs xs) c1 = Some (Inr c2)" "gets (out_results (?out_vas xs) outs') behind c1 c2" by auto
      have "exec_stmt mem wr rd op vs args (Read_Back j) c = Some (Inr c1)" using c1(1) nn False v(1) by (simp add: exec_stmt_def)
      with step c2(1) have "exec_code mem wr rd op vs args (read_backs (jv # xs)) c = Some (Inr c2)" by simp
      moreover have "gets (out_results (?out_vas (jv # xs)) outs) behind c c2"
        using gets_trans [OF c1(2) c2(2)] False unfolding vas outs(1) by (simp add: out_results_def)
      ultimately show ?thesis by blast
    qed
  qed
qed

text \<open>A call: its packet goes out, and what comes back is read, nothing more.\<close>

lemma out_vars_enumerate:
  "length vs = length args \<Longrightarrow>
   filter (\<lambda>(v, a). isPointer v \<and> \<not> sends_data v) (map (\<lambda>(j, v). (v, args ! j)) (enumerate 0 vs)) = out_vars vs args"
  using enumerate_map2 [of vs args Pair] by (simp add: out_vars_def zip_map_fst_snd case_prod_unfold)

lemma client_call_ok:
  assumes mem: "\<forall>n. mem n \<noteq> None" and i: "io_inv (cl_stream c)" and ok: "args_ok (ep_vars e) args" "result_ok e" "receives_ok e args"
    and ans: "answer_ok e args outs ret" and left: "left (cl_in c) = call_reply e outs ret @ behind"
  shows "\<exists>c' g. client_call mem wr rd op e args c = Some (Inr c') \<and> length g = sum_list (map2 arg_unwritten (ep_vars e) args) \<and>
    io_inv (cl_stream c') \<and> cl_got c' = cl_got c @ call_results e args outs ret \<and> left (cl_in c') = behind \<and>
    written (cl_out c') @ pending (cl_stream c') = written (cl_out c) @ pending (cl_stream c) @ enc_packet (call_packet op e args g)"
proof -
  let ?vs = "ep_vars e"
  have all: "list_all2 arg_ok ?vs args" using ok(1) by (simp add: args_ok_def)
  then have len: "length ?vs = length args" by (rule list_all2_lengthD)
  from exec_packet [OF mem i ok(1), of rd op] obtain c1 g where
    c1: "exec_code mem wr rd op ?vs args (fragments True (enumerate 0 ?vs)) c = Some (Inr c1)"
      "length g = sum_list (map2 arg_unwritten ?vs args)"
      "sends written (put4LE op @ put4LE (word_of_nat (packet_length ?vs args)) @ enc_args ?vs args @ g) c c1"
    using unwritten_all [OF len] by auto
  have packet: "enc_packet (call_packet op e args g) = put4LE op @ put4LE (word_of_nat (packet_length ?vs args)) @ enc_args ?vs args @ g"
    using packet_length_split [OF all] c1(2) by (simp add: enc_packet_def call_packet_def packet_len_def add.assoc)
  have recv: "\<forall>(j, v) \<in> set (enumerate 0 ?vs). isPointer v \<longrightarrow> v_pointerDir v \<noteq> POINTER_INOUT \<and>
      (v_pointerDir v = POINTER_OUT \<and> arg_null (args ! j) \<longrightarrow> v_nullAllowed v)"
  proof -
    have "(?vs ! j, args ! j) \<in> set (zip ?vs args)" if "j < length ?vs" for j using that len by (auto simp: set_zip)
    with ok(3) show ?thesis unfolding receives_ok_def by (fastforce simp: in_set_enumerate_eq)
  qed
  have i1: "io_inv (cl_stream c1)" "left (cl_in c1) = concat outs @ (if returns_value e then ret else []) @ behind"
    using c1(3) left by (simp_all add: sends_def call_reply_def)
  from exec_read_backs [OF in_place_enumerate recv _ i1, of mem op] ans obtain c2 where
    c2: "exec_code mem wr rd op ?vs args (read_backs (enumerate 0 ?vs)) c1 = Some (Inr c2)"
      "gets (out_results (out_vars ?vs args) outs) ((if returns_value e then ret else []) @ behind) c1 c2"
    by (auto simp: out_vars_enumerate [OF len] answer_ok_def fills_def)
  have i2: "io_inv (cl_stream c2)" "left (cl_in c2) = (if returns_value e then ret else []) @ behind"
    using c2(2) by (simp_all add: gets_def)
  obtain c3 where c3: "exec_code mem wr rd op ?vs args (return_code e) c2 = Some (Inr c3)"
    "gets (if returns_value e then [Some ret] else []) behind c2 c3"
  proof (cases "returns_value e")
    case True
    then have "return_code e = [Read_Return (vt_bytes (v_type (ep_retval e)))]"
      using ok(2) by (auto simp: return_code_def result_ok_def returns_value_def isVoid_def isPointer_def)
    moreover have "left (cl_in c2) = ret @ behind" "vt_bytes (v_type (ep_retval e)) = length ret"
      using True i2(2) ans by (simp_all add: answer_ok_def)
    ultimately show thesis using readback_ok [OF i2(1)] True that by (force simp: exec_stmt_def)
  next
    case False
    then have "return_code e = []"
      using ok(2) by (auto simp: return_code_def result_ok_def returns_value_def isVoid_def isPointer_def)
    with False i2 that [of c2] show thesis by (simp add: gets_def)
  qed
  have "gets (call_results e args outs ret) behind c1 c3"
    using gets_trans [OF c2(2) c3(2)] by (simp add: call_results_def)
  moreover have "client_call mem wr rd op e args c = Some (Inr c3)"
    using exec_code_then [OF c1(1)] exec_code_then [OF c2(1)] c3(1) by (simp add: client_call_def encoder_code_def Let_def)
  ultimately show ?thesis
    using c1(2,3) packet by (intro exI [of _ c3] exI [of _ g]) (simp add: gets_def sends_def)
qed

text \<open>All calls; \<open>packets\<close> relates the calls to what was sent.\<close>

end

definition is_packet :: "remote_call \<Rightarrow> wire_packet \<Rightarrow> bool" where
  "is_packet call p \<longleftrightarrow> (case call of (op, e, args) \<Rightarrow>
     \<exists>g. p = call_packet op e args g \<and> length g = sum_list (map2 arg_unwritten (ep_vars e) args))"

fun answers_ok :: "remote_call list \<Rightarrow> (bytes list \<times> bytes) list \<Rightarrow> bool" where
  "answers_ok [] [] \<longleftrightarrow> True"
| "answers_ok ((op, e, args) # cs) ((outs, ret) # as) \<longleftrightarrow> answer_ok e args outs ret \<and> answers_ok cs as"
| "answers_ok _ _ \<longleftrightarrow> False"

lemma is_packet_ok:
  assumes "is_packet (op, e, args) p" "remote_ok srv (op, e, args)" "H op = Some (decode_case mem wr srv e)"
  shows "fst p = op \<and> packet_ok H p \<and> decode_case mem wr srv e (enc_packet p) = call_server mem wr srv e (server_args (ep_vars e) args)"
proof -
  from assms(1) obtain g where p: "p = call_packet op e args g" "length g = sum_list (map2 arg_unwritten (ep_vars e) args)"
    by (auto simp: is_packet_def)
  have ok: "args_ok (ep_vars e) args" "reads_only srv (ep_name e) (server_args (ep_vars e) args)"
    using assms(2) by (simp_all add: remote_ok_def)
  have "8 + length (snd p) < 2 ^ 31"
    using packet_length_split [of "ep_vars e" args] ok(1) p by (simp add: args_ok_def call_packet_def)
  moreover have "decode_case mem wr srv e (enc_packet p @ rest) st = call_server mem wr srv e (server_args (ep_vars e) args) st" for rest st
    unfolding p by (rule decode_case_packet [OF ok])
  from this this [of "[]"] have
    "decode_case mem wr srv e (enc_packet p @ rest) st = call_server mem wr srv e (server_args (ep_vars e) args) st"
    "decode_case mem wr srv e (enc_packet p) st = call_server mem wr srv e (server_args (ep_vars e) args) st" for rest st by simp_all
  ultimately show ?thesis using assms(3) p by (auto simp: packet_ok_def call_packet_def)
qed

context connection
begin

lemma client_calls_ok:
  assumes "\<forall>n. mem n \<noteq> None" "io_inv (cl_stream c)" "\<forall>call \<in> set cs. remote_ok srv call" "answers_ok cs answers"
    "left (cl_in c) = replies cs answers @ behind"
  shows "\<exists>c' ps. client_calls mem wr rd cs c = Some (Inr c') \<and> list_all2 is_packet cs ps \<and>
    cl_got c' = cl_got c @ results cs answers \<and> left (cl_in c') = behind \<and> pending (cl_stream c') = [] \<and>
    written (cl_out c') = written (cl_out c) @ pending (cl_stream c) @ enc_packets ps"
  using assms
proof (induction cs answers arbitrary: c rule: answers_ok.induct)
  case 1
  from flush_client_ok [OF "1.prems"(2)] obtain c' where
    "flush_client wr c = Some (Inr c')" "sends written [] c c'" "pending (cl_stream c') = []" by blast
  with "1.prems" show ?case by (intro exI [of _ c'] exI [of _ "[]"]) (simp add: sends_def)
next
  case (2 op e args cs outs ret as)
  have ok: "args_ok (ep_vars e) args" "result_ok e" "receives_ok e args" "answer_ok e args outs ret"
    "left (cl_in c) = call_reply e outs ret @ replies cs as @ behind"
    using "2.prems" by (simp_all add: remote_ok_def)
  from client_call_ok [OF "2.prems"(1,2) ok, of op] obtain c1 g where
    c1: "client_call mem wr rd op e args c = Some (Inr c1)" "length g = sum_list (map2 arg_unwritten (ep_vars e) args)"
      "io_inv (cl_stream c1)" "cl_got c1 = cl_got c @ call_results e args outs ret" "left (cl_in c1) = replies cs as @ behind"
      "written (cl_out c1) @ pending (cl_stream c1) = written (cl_out c) @ pending (cl_stream c) @ enc_packet (call_packet op e args g)" by blast
  from "2.IH" [OF "2.prems"(1) c1(3) _ _ c1(5)] "2.prems"(3,4) obtain c2 ps where
    c2: "client_calls mem wr rd cs c1 = Some (Inr c2)" "list_all2 is_packet cs ps" "cl_got c2 = cl_got c1 @ results cs as"
      "left (cl_in c2) = behind" "pending (cl_stream c2) = []"
      "written (cl_out c2) = written (cl_out c1) @ pending (cl_stream c1) @ enc_packets ps" by auto
  have "is_packet (op, e, args) (call_packet op e args g)" using c1(2) by (auto simp: is_packet_def)
  with c1 c2 show ?case
    by (intro exI [of _ c2] exI [of _ "call_packet op e args g # ps"]) (simp flip: append_assoc)
qed simp_all

end

section \<open>The server runs\<close>

context byte_sink
begin

lemma run_packets_serve:
  assumes "\<forall>n. mem n \<noteq> None" "list_all2 is_packet cs ps" "\<forall>(op, e, args) \<in> set cs. remote_ok srv (op, e, args) \<and> H op = Some (decode_case mem wr srv e)"
    "serve srv cs w = Inr (answers, w')" "answers_ok cs answers" "io_inv s" "pending s = []"
  shows "\<exists>s' t'. run_packets H ps (s, t, w) = Inr (s', t', w') \<and> written t' = written t @ replies cs answers"
  using assms
proof (induction cs answers arbitrary: ps s t w rule: answers_ok.induct)
  case 1
  then show ?case by simp
next
  case (2 op e args cs outs ret as)
  from "2.prems"(2) obtain p ps' where ps: "ps = p # ps'" "is_packet (op, e, args) p" "list_all2 is_packet cs ps'"
    by (auto simp: list_all2_Cons1)
  have call: "remote_ok srv (op, e, args)" "H op = Some (decode_case mem wr srv e)" using "2.prems"(3) by auto
  from "2.prems"(4) obtain w1 where w1: "srv (ep_name e) (server_args (ep_vars e) args) w = Inr (outs, ret, w1)"
    "serve srv cs w1 = Inr (as, w')" by (auto simp: bindE_eq_Inr split: prod.splits)
  have p: "fst p = op" "decode_case mem wr srv e (enc_packet p) = call_server mem wr srv e (server_args (ep_vars e) args)"
    using is_packet_ok [where H = H, OF ps(2) call] by simp_all
  have ok: "args_ok (ep_vars e) args" "result_ok e" "answer_ok e args outs ret" using call(1) "2.prems"(5) by (simp_all add: remote_ok_def)
  from call_server_ok [where srv = srv, OF "2.prems"(1,6,7) ok(1,2) w1(1) ok(3), of t] obtain s1 t1 where
    s1: "call_server mem wr srv e (server_args (ep_vars e) args) (s, t, w) = Inr (s1, t1, w1)" "io_inv s1" "pending s1 = []"
      "written t1 = written t @ call_reply e outs ret" by blast
  from "2.IH" [OF "2.prems"(1) ps(3) _ w1(2) _ s1(2,3), of t1] "2.prems"(3,5) obtain s2 t2 where
    "run_packets H ps' (s1, t1, w1) = Inr (s2, t2, w')" "written t2 = written t1 @ replies cs as" by auto
  with p s1 call(2) show ?case unfolding ps(1) by (intro exI [of _ s2] exI [of _ t2]) simp
qed simp_all

end

interpretation conn: connection pipe_read fst sink_write fst
  by unfold_locales

lemma handler_member:
  assumes "d \<in> set ds" "disjoint ds" "d op = Some f"
  shows "handler ds op = Some f"
  using handler_together [OF assms(2)] assms(1,3) by (auto simp: together_def)

end
