(* ===== verification/Emugen_Wire.thy ===== *)
theory Emugen_Wire
  imports Emugen_Remote
begin

text \<open>
  What the generated protocol promises, and where it breaks: calls through the wire are calls of the server's
  functions, except for pointers that are both for input and output, which nothing answers, and for output pointers in
  front of a large one, which shift what follows them.
\<close>

section \<open>Calls through the wire\<close>

definition new_client :: "nat \<Rightarrow> 't \<Rightarrow> 's \<Rightarrow> ('t, 's) encoder_context" where
  "new_client n out inp = \<lparr>cl_stream = SocketStream n, cl_out = out, cl_in = inp, cl_ptr = None, cl_got = []\<rparr>"

definition entry_of :: "api \<Rightarrow> 32 word \<Rightarrow> entry_point option" where
  "entry_of a op = map_of (zip (map snd (genOpcodes a)) (ag_entries a)) op"

definition calls_length :: "remote_call list \<Rightarrow> nat" where
  "calls_length cs = sum_list (map (\<lambda>(op, e, args). packet_length (ep_vars e) args) cs)"

lemma enc_packets_length:
  assumes "list_all2 is_packet cs ps" "\<forall>call \<in> set cs. remote_ok srv call"
  shows "length (enc_packets ps) = calls_length cs"
  using assms
proof (induction rule: list_all2_induct)
  case (Cons call cs p ps)
  obtain op e args where call: "call = (op, e, args)" by (cases call)
  with Cons.hyps(1) obtain g where p: "p = call_packet op e args g" "length g = sum_list (map2 arg_unwritten (ep_vars e) args)"
    by (auto simp: is_packet_def)
  have "list_all2 arg_ok (ep_vars e) args" using Cons.prems call by (simp add: remote_ok_def args_ok_def)
  from packet_length_split [OF this] p have "length (enc_packet p) = packet_length (ep_vars e) args"
    by (simp add: call_packet_def)
  with Cons call show ?case by (simp add: calls_length_def)
qed (simp add: calls_length_def)

lemma packets_ok:
  assumes "list_all2 is_packet cs ps" "\<forall>(op, e, args) \<in> set cs. remote_ok srv (op, e, args) \<and> H op = Some (decode_case mem wr srv e)"
  shows "\<forall>p \<in> set ps. packet_ok H p"
proof
  fix p assume "p \<in> set ps"
  with assms(1) have "\<exists>call \<in> set cs. is_packet call p" by (induction rule: list_all2_induct) auto
  then obtain call where "call \<in> set cs" "is_packet call p" by blast
  moreover obtain op e args where "call = (op, e, args)" by (cases call)
  ultimately show "packet_ok H p" using assms(2) is_packet_ok [of op e args p srv H mem wr] by fastforce
qed

lemma remote_calls:
  assumes "\<forall>n. mem n \<noteq> None" "\<forall>n. realloc n \<noteq> None" "n < 2 ^ 31" "m < 2 ^ 31"
    "api_decoder mem sink_write srv a \<in> set ds" "disjoint ds"
    "\<forall>(op, e, args) \<in> set cs. remote_ok srv (op, e, args) \<and> entry_of a op = Some e"
    "serve srv cs w = Inr (answers, w')" "answers_ok cs answers" "calls_length cs < 2 ^ 31"
    "fst answers_in = replies cs answers"
  shows "\<exists>c rb s hs t. client_calls mem sink_write pipe_read cs (new_client n ([], ks) answers_in) = Some (Inr c) \<and>
    cl_got c = results cs answers \<and> fst (cl_in c) = [] \<and>
    render_main realloc pipe_read ds (ReadBuffer mem' STREAM_BUFFER_SIZE) (fst (cl_out c), ks') (SocketStream m, ([], kt), w) =
      Some (Inr (rb, s, hs, t, w')) \<and> rb_data rb = [] \<and> fst t = replies cs answers"
proof -
  let ?H = "handler ds"
  have calls: "\<forall>(op, e, args) \<in> set cs. remote_ok srv (op, e, args) \<and> ?H op = Some (decode_case mem sink_write srv e)"
    using assms(7) handler_member [OF assms(5,6)] by (fastforce simp: api_decoder_def entry_of_def)
  have ok: "\<forall>call \<in> set cs. remote_ok srv call" using assms(7) by auto
  have new: "io_inv (cl_stream (new_client n ([], ks) answers_in))" "pending (cl_stream (new_client n ([], ks) answers_in)) = []"
    using SocketStream_inv [OF assms(3)] by (simp_all add: new_client_def)
  have "fst (cl_in (new_client n ([], ks) answers_in)) = replies cs answers @ []" using assms(11) by (simp add: new_client_def)
  from conn.client_calls_ok [OF assms(1) new(1) ok assms(9) this] obtain c ps where
    c: "client_calls mem sink_write pipe_read cs (new_client n ([], ks) answers_in) = Some (Inr c)" "list_all2 is_packet cs ps"
      "cl_got c = results cs answers" "fst (cl_in c) = []" "fst (cl_out c) = enc_packets ps"
    using new(2) by (auto simp: new_client_def)
  have m: "io_inv (SocketStream m)" "pending (SocketStream m) = []" using SocketStream_inv [OF assms(4)] by simp_all
  from sink.run_packets_serve [OF assms(1) c(2) calls assms(8,9) m, of "([], kt)"] obtain hs t where
    hs: "run_packets ?H ps (SocketStream m, ([], kt), w) = Inr (hs, t, w')" "fst t = replies cs answers" by auto
  have "length (fst (fst (cl_out c), ks')) < 2 ^ 31" using enc_packets_length [OF c(2) ok] assms(10) c(5) by simp
  from pipe_packets [OF assms(6) packets_ok [OF c(2) calls] _ assms(2) _ this, of "[]" mem' "(SocketStream m, ([], kt), w)"] c(5) hs
  obtain rb s where "render_main realloc pipe_read ds (ReadBuffer mem' STREAM_BUFFER_SIZE) (fst (cl_out c), ks') (SocketStream m, ([], kt), w) =
      Some (Inr (rb, s, hs, t, w'))" "rb_data rb = []" by (auto simp: partial_def)
  with c hs(2) show ?thesis by blast
qed

text \<open>C3: 
  A sequence of calls through the generated encoders and decoders has the effect of calling the server's functions one
  after the other: the server ends in the state it would have, every answer reaches the client, in the
  output pointers and the result of its call, and no byte is left over on either side. This holds however the
  bytes are cut into pieces on both ways, for every specification, for calls that fit the wire and
  functions that read no more than they were sent. The stream of the server's
  answers is the one that the client reads.
\<close>

theorem remote_calls_correct:
  assumes "\<forall>n. mem n \<noteq> None" "\<forall>n. realloc n \<noteq> None" "n < 2 ^ 31" "m < 2 ^ 31"
    "api_decoder mem sink_write srv a \<in> set ds" "disjoint ds"
    "\<forall>(op, e, args) \<in> set cs. remote_ok srv (op, e, args) \<and> entry_of a op = Some e"
    "serve srv cs w = Inr (answers, w')" "answers_ok cs answers" "calls_length cs < 2 ^ 31"
    "fst answers_in = replies cs answers"
  shows "\<exists>c rb s hs t. client_calls mem sink_write pipe_read cs (new_client n ([], ks) answers_in) = Some (Inr c) \<and>
    cl_got c = results cs answers \<and> fst (cl_in c) = [] \<and>
    render_main realloc pipe_read ds (ReadBuffer mem' STREAM_BUFFER_SIZE) (fst (cl_out c), ks') (SocketStream m, ([], kt), w) =
      Some (Inr (rb, s, hs, t, w')) \<and> rb_data rb = [] \<and> fst t = replies cs answers"
  using assms by (rule remote_calls)

text \<open>A specification with two functions: one with a value, data in and data out, and one without an answer.\<close>

definition demo_type :: "bytes \<Rightarrow> nat \<Rightarrow> bool \<Rightarrow> var_type" where
  "demo_type name n ptr = \<lparr>vt_id = 7, vt_name = name, vt_bytes = n, vt_printFormat = ''%d'', vt_isPointer = ptr\<rparr>"

definition demo_entry :: "bytes \<Rightarrow> bytes \<Rightarrow> nat \<Rightarrow> var list \<Rightarrow> entry_point" where
  "demo_entry name rt n vs =
     \<lparr>ep_name = name, ep_retval = Var [] (demo_type rt n False) [] POINTER_OUT [] [], ep_vars = vs,
      ep_unsupported = False, ep_customDecoder = False, ep_notApi = False\<rparr>"

definition demo_swap :: entry_point where
  "demo_swap = demo_entry ''swap'' ''int'' 4
     [Var ''n'' (demo_type ''int'' 4 False) [] POINTER_IN [] [], Var ''p'' (demo_type ''void*'' 4 True) ''n'' POINTER_IN [] [],
      Var ''q'' (demo_type ''void*'' 4 True) ''n'' POINTER_OUT [] []]"

definition demo_set :: entry_point where
  "demo_set = demo_entry ''set'' ''void'' 0 [Var ''n'' (demo_type ''int'' 4 False) [] POINTER_IN [] []]"

definition demo_api :: api where
  "demo_api = (ApiGen ''demo'')\<lparr>ag_entries := [demo_set, demo_swap], ag_baseOpcode := 300\<rparr>"

definition demo_server :: "bytes server" where
  "demo_server name args w =
     (if name = ''set'' then (case args of [SValue n] \<Rightarrow> Inr ([], [], n) | _ \<Rightarrow> Inl Panic)
      else if name = ''swap'' then (case args of [SValue n, SIn d, SOut k] \<Rightarrow> Inr ([rev (take k d)], w, n) | _ \<Rightarrow> Inl Panic)
      else Inl Panic)"

definition demo_calls :: "remote_call list" where
  "demo_calls =
     [(300, demo_set, [Value (put4LE 5)]),
      (301, demo_swap, [Value (put4LE 9), Pointer (Some ''abcd'') 2 [], Pointer (Some ''....'') 2 []])]"

definition demo_answers :: "(bytes list \<times> bytes) list" where
  "demo_answers = [([], []), ([''ba''], put4LE 5)]"

lemmas demo_defs = demo_type_def demo_entry_def demo_swap_def demo_set_def Var_def isPointer_def isVoid_def

lemma demo_calls_ok: "remote_ok demo_server (300, demo_set, [Value (put4LE 5)])"
  "remote_ok demo_server (301, demo_swap, [Value (put4LE 9), Pointer (Some ''abcd'') 2 [], Pointer (Some ''....'') 2 []])"
  by (auto simp: remote_ok_def args_ok_def vars_ok_def packet_length_def arg_room_def arg_ok_def arg_data_def custom_expression_def
      sends_data_def getVarEncodingSizeExpression_def arg_null_def result_ok_def receives_ok_def reads_only_def server_args_def
      arrived_def demo_defs extends_def list_all2_Cons1 demo_server_def)

lemma remote_calls_correct_witness:
  "\<exists>c rb s hs t. client_calls (\<lambda>n. Some (\<lambda>_. NUL)) sink_write pipe_read demo_calls (new_client 16 ([], [2, 0]) (''ba'' @ put4LE 5, [0, 1])) = Some (Inr c) \<and>
    cl_got c = [Some ''ba'', Some (put4LE 5)] \<and> fst (cl_in c) = [] \<and>
    render_main (\<lambda>n. Some (\<lambda>_. NUL)) pipe_read [api_decoder (\<lambda>n. Some (\<lambda>_. NUL)) sink_write demo_server demo_api]
      (ReadBuffer (\<lambda>_. NUL) STREAM_BUFFER_SIZE) (fst (cl_out c), [7, 0, 3]) (SocketStream 16, ([], [1]), []) =
      Some (Inr (rb, s, hs, t, put4LE 9)) \<and> rb_data rb = [] \<and> fst t = ''ba'' @ put4LE 5"
proof -
  have calls: "\<forall>(op, e, args) \<in> set demo_calls. remote_ok demo_server (op, e, args) \<and> entry_of demo_api op = Some e"
    using demo_calls_ok by (simp add: demo_calls_def entry_of_def genOpcodes_def demo_api_def ApiGen_def)
  have serves: "serve demo_server demo_calls [] = Inr (demo_answers, put4LE 9)"
    by (simp add: demo_calls_def demo_answers_def server_args_def arrived_def demo_defs sends_data_def arg_data_def custom_expression_def
      getVarEncodingSizeExpression_def arg_null_def demo_server_def)
  have answers: "answers_ok demo_calls demo_answers"
    by (simp add: demo_calls_def demo_answers_def answer_ok_def fills_def out_vars_def demo_defs sends_data_def returns_value_def
      getVarEncodingSizeExpression_def)
  have rs: "replies demo_calls demo_answers = ''ba'' @ put4LE 5" "results demo_calls demo_answers = [Some ''ba'', Some (put4LE 5)]"
    by (simp_all add: demo_calls_def demo_answers_def call_reply_def call_results_def out_results_def out_vars_def demo_defs sends_data_def
      returns_value_def arg_null_def)
  have len: "calls_length demo_calls < 2 ^ 31"
    by (simp add: calls_length_def demo_calls_def packet_length_def arg_room_def demo_defs getVarEncodingSizeExpression_def)
  have d: "disjoint [api_decoder (\<lambda>n. Some (\<lambda>_. NUL)) sink_write demo_server demo_api]" by simp
  show ?thesis
    using remote_calls_correct [where mem = "\<lambda>n. Some (\<lambda>_. NUL)" and realloc = "\<lambda>n. Some (\<lambda>_. NUL)" and n = "16" and m = "16"
      and ds = "[api_decoder (\<lambda>n. Some (\<lambda>_. NUL)) sink_write demo_server demo_api]" and answers_in = "(''ba'' @ put4LE 5, [0, 1])"
      and ks = "[2, 0]" and ks' = "[7, 0, 3]" and kt = "[1]" and mem' = "\<lambda>_. NUL", OF _ _ _ _ _ d calls serves answers len] rs
    by simp
qed

section \<open>Where the protocol breaks\<close>

text \<open>C32: 
  A pointer for input and output is never answered. The documentation says that its data is sent back, the encoder waits for
  it, but the decoder writes nothing: after the server has run the call and the connection has brought
  all it ever will, the client's read has failed. On a live connection it blocks.
\<close>

theorem inout_unanswered:
  assumes "\<forall>n. mem n \<noteq> None" "n < 2 ^ 31" "ep_vars e = [v]" "isPointer v" "v_pointerDir v = POINTER_INOUT" "\<not> returns_value e" "result_ok e"
    "args_ok [v] [a]" "\<not> arg_null a" "arg_size v a \<noteq> 0" "reads_only srv (ep_name e) (server_args [v] [a])"
    "srv (ep_name e) (server_args [v] [a]) w = Inr (outs, ret, w')"
  shows "(\<exists>c. client_call mem sink_write pipe_read op e [a] (new_client n ([], ks) ([], js)) = Some (Inr c) \<and> cl_got c = [None] \<and>
      (\<exists>g. fst (cl_out c) = enc_packet (call_packet op e [a] g))) \<and>
    decode_case mem sink_write srv e (enc_packet (call_packet op e [a] g)) (s, t, w) = Inr (s, t, w')"
proof (rule conjI)
  let ?c = "new_client n ([], ks) ([], js) :: (bytes \<times> nat list, pipe) encoder_context"
  have new: "io_inv (cl_stream ?c)" "pending (cl_stream ?c) = []" using SocketStream_inv [OF assms(2)] by (simp_all add: new_client_def)
  from sink.exec_packet [OF assms(1) new(1) assms(8), of pipe_read op] obtain c1 g where
    c1: "exec_code mem sink_write pipe_read op [v] [a] (fragments True (enumerate 0 [v])) ?c = Some (Inr c1)"
      "length g = unwritten [a] (enumerate 0 [v])"
      "sends fst (put4LE op @ put4LE (word_of_nat (packet_length [v] [a])) @ enc_args [v] [a] @ g) ?c c1" by blast
  have all: "list_all2 arg_ok [v] [a]" using assms(8) by (simp add: args_ok_def)
  have packet: "enc_packet (call_packet op e [a] g) = put4LE op @ put4LE (word_of_nat (packet_length [v] [a])) @ enc_args [v] [a] @ g"
    using packet_length_split [OF all] c1(2) unwritten_all [of "[v]" "[a]"] assms(3)
    by (simp add: enc_packet_def call_packet_def packet_len_def add.assoc)
  have i1: "io_inv (cl_stream c1)" using c1(3) by (simp add: sends_def)
  from sink.flush_client_ok [OF i1] obtain c2 where
    c2: "flush_client sink_write c1 = Some (Inr c2)" "sends fst [] c1 c2" "pending (cl_stream c2) = []" by blast
  have in2: "fst (cl_in c2) = []" "cl_got c2 = []" using c1(3) c2(2) by (simp_all add: sends_def new_client_def)
  have "0 < unat (arg_size v a)" using assms(10) by (simp add: unat_gt_0)
  with pipe.readFully_none [of "cl_in c2" "unat (arg_size v a)"] in2(1) obtain js' where
    js: "readFully pipe_read (unat (arg_size v a)) (cl_in c2) = (None, js')" by auto
  let ?c3 = "c2\<lparr>cl_in := js', cl_got := [None]\<rparr>"
  have "encoder_code e = fragments True (enumerate 0 [v]) @ [Read_Back 0]"
    using assms(3-7) by (auto simp: encoder_code_def read_backs_def return_code_def result_ok_def returns_value_def isVoid_def isPointer_def)
  moreover have "exec_stmt mem sink_write pipe_read op [v] [a] (Read_Back 0) c1 = Some (Inr ?c3)"
    using assms(9) c2(1) in2(2) js by (simp add: exec_stmt_def readback_def)
  ultimately have "client_call mem sink_write pipe_read op e [a] ?c = Some (Inr ?c3)"
    using exec_code_then [OF c1(1)] assms(3) by (simp add: client_call_def)
  moreover have "fst (cl_out ?c3) = enc_packet (call_packet op e [a] g)"
    using c1(3) c2(2,3) new(2) packet by (simp add: sends_def new_client_def)
  ultimately show "\<exists>c. client_call mem sink_write pipe_read op e [a] ?c = Some (Inr c) \<and> cl_got c = [None] \<and>
      (\<exists>g. fst (cl_out c) = enc_packet (call_packet op e [a] g))" by (intro exI [of _ ?c3]) auto
next
  have "\<not> has_out e" using assms(3,5) by (simp add: has_out_def)
  then show "decode_case mem sink_write srv e (enc_packet (call_packet op e [a] g)) (s, t, w) = Inr (s, t, w')"
    using decode_case_packet [of e "[a]" srv mem sink_write op g "[]"] assms(3,6,8,11,12) by (simp add: call_server_def)
qed

definition demo_inout :: entry_point where
  "demo_inout = demo_entry ''set'' ''void'' 0 [Var ''p'' (demo_type ''void*'' 4 True) ''4'' POINTER_INOUT [] []]"

lemma inout_unanswered_witness:
  "(\<exists>c. client_call (\<lambda>n. Some (\<lambda>_. NUL)) sink_write pipe_read 300 demo_inout [Pointer (Some ''abcd'') 4 []]
      (new_client 64 ([], [5]) ([], [])) = Some (Inr c) \<and> cl_got c = [None] \<and>
      (\<exists>g. fst (cl_out c) = enc_packet (call_packet 300 demo_inout [Pointer (Some ''abcd'') 4 []] g))) \<and>
    decode_case (\<lambda>n. Some (\<lambda>_. NUL)) sink_write (\<lambda>name args w. Inr ([], [], w + 1)) demo_inout
      (enc_packet (call_packet 300 demo_inout [Pointer (Some ''abcd'') 4 []] [])) (SocketStream 64, ([], []), 0 :: nat) =
      Inr (SocketStream 64, ([], []), 1)"
proof -
  have ok: "args_ok [Var ''p'' (demo_type ''void*'' 4 True) ''4'' POINTER_INOUT [] []] [Pointer (Some ''abcd'') 4 []]"
    by (simp add: args_ok_def vars_ok_def packet_length_def arg_room_def arg_ok_def arg_data_def custom_expression_def sends_data_def
      getVarEncodingSizeExpression_def arg_null_def demo_defs)
  show ?thesis
    by (rule inout_unanswered [OF _ _ _ _ _ _ _ ok])
      (simp_all add: demo_inout_def demo_defs returns_value_def result_ok_def arg_null_def getVarEncodingSizeExpression_def reads_only_def)
qed

text \<open>C33: 
  Data that is only sent back also counts in the length of the packet, and so in the room that the encoder asks
  for, but nothing is stored there. In front of a variable that is written directly this room goes onto the wire between
  the arguments: the decoder, which expects nothing there, takes these bytes for the length of the next data
  and gives the server a pointer to whatever follows.
\<close>

theorem out_before_large_garbled:
  assumes "\<forall>n. mem n \<noteq> None" "n < 2 ^ 31" "isPointer q" "v_pointerDir q = POINTER_OUT" "\<not> v_isLarge q" "\<not> v_nullAllowed q"
    "isPointer p" "v_pointerDir p = POINTER_IN" "v_isLarge p" "\<not> v_nullAllowed p" "arg_ok q b" "arg_ok p a"
    "packet_length [q, p] [b, a] < 2 ^ 31" "4 \<le> unat (arg_size q b)"
  shows "\<exists>c g. exec_code mem sink_write pipe_read op [q, p] [b, a] (fragments True (enumerate 0 [q, p]) @ [Flush_Stream]) (new_client n ([], ks) inp) =
      Some (Inr c) \<and> length g = unat (arg_size q b) \<and>
    fst (cl_out c) = put4LE op @ put4LE (word_of_nat (packet_length [q, p] [b, a])) @ put4LE (arg_size q b) @ g @ put4LE (arg_size p a) @ arg_data p a \<and>
    decode_args [q, p] (fst (cl_out c)) 8 = Inr [SOut (unat (arg_size q b)), SIn (drop 4 g @ put4LE (arg_size p a) @ arg_data p a)]"
proof -
  let ?vs = "[q, p]" and ?args = "[b, a]" and ?c = "new_client n ([], ks) inp"
  let ?xs = "enumerate 0 [q, p]"
  have new: "io_inv (cl_stream ?c)" "pending (cl_stream ?c) = []" using SocketStream_inv [OF assms(2)] by (simp_all add: new_client_def)
  have data: "sends_data p" "\<not> sends_data q" using assms(4,8) by (simp_all add: sends_data_def)
  have xs: "in_place ?vs ?xs" "args_fit ?args ?xs" "large_ok ?xs"
    using in_place_enumerate assms data by (simp_all add: large_ok_def)
  have rooms: "(if True then 8 else 0) + rooms ?args ?xs < 2 ^ 31" using assms(13) by (simp add: packet_length_def)
  have parts: "small_vars ?xs = [(0, q)]" "large_vars (after_small ?xs) = [(1, p)]" "after_large (after_small ?xs) = []"
    using assms(5,9) by simp_all
  from sink.exec_round [OF assms(1) new(1) xs rooms, of pipe_read op] obtain c1 g where
    c1: "exec_code mem sink_write pipe_read op ?vs ?args (fragment True ?xs @ concat (map writeVarLargeEncodingExpression (large_vars (after_small ?xs)))) ?c = Some (Inr c1)"
      "length g = unwritten ?args (small_vars ?xs)"
      "sends fst ((put4LE op @ put4LE (word_of_nat (packet_length ?vs ?args))) @ sent ?args (small_vars ?xs) @ g @
        sent ?args (large_vars (after_small ?xs))) ?c c1"
    using packetSize_value [of ?vs ?args] by auto
  have sent: "sent ?args (small_vars ?xs) = put4LE (arg_size q b)" "sent ?args (large_vars (after_small ?xs)) = put4LE (arg_size p a) @ arg_data p a"
    "length g = unat (arg_size q b)"
    using assms(3,7) data c1(2) unfolding parts by (simp_all add: enc_arg_def arg_unwritten_def)
  have code: "fragments True ?xs = fragment True ?xs @ concat (map writeVarLargeEncodingExpression (large_vars (after_small ?xs)))"
  proof -
    have "fragments False [] = []" by (simp add: fragments.simps)
    then show ?thesis unfolding fragments.simps [of True ?xs] parts(3) by (simp only: not_True_eq_False simp_thms if_False append_Nil2)
  qed
  have i1: "io_inv (cl_stream c1)" using c1(3) by (simp add: sends_def)
  from sink.flush_client_ok [OF i1] obtain c2 where
    c2: "flush_client sink_write c1 = Some (Inr c2)" "sends fst [] c1 c2" "pending (cl_stream c2) = []" by blast
  have run: "exec_code mem sink_write pipe_read op ?vs ?args (fragments True ?xs @ [Flush_Stream]) ?c = Some (Inr c2)"
    using exec_code_then [OF c1(1)] c2(1) unfolding code by (simp add: exec_stmt_def)
  have out: "fst (cl_out c2) = put4LE op @ put4LE (word_of_nat (packet_length ?vs ?args)) @ put4LE (arg_size q b) @ g @ put4LE (arg_size p a) @ arg_data p a"
    using c1(3) c2(2,3) new(2) unfolding sent sends_def by (simp add: new_client_def)
  have nv: "\<not> isVoid q" "\<not> isVoid p" using assms(3,7) by (simp_all add: isVoid_def isPointer_def)
  have "decode_args ?vs (fst (cl_out c2)) 8 = Inr [SOut (unat (arg_size q b)), SIn (drop 4 g @ put4LE (arg_size p a) @ arg_data p a)]"
  proof -
    let ?pre = "put4LE op @ put4LE (word_of_nat (packet_length ?vs ?args))"
    let ?tail = "g @ put4LE (arg_size p a) @ arg_data p a"
    have "get4LE (drop 8 (?pre @ put4LE (arg_size q b) @ ?tail)) = arg_size q b" by (rule get4LE_at) simp
    moreover have "drop 16 (?pre @ put4LE (arg_size q b) @ ?tail) = drop 4 ?tail" by simp
    ultimately show ?thesis using out nv assms(3,4,6,7,8,10,14) sent(3) by (simp add: Let_def)
  qed
  with run out sent(3) show ?thesis by blast
qed

lemma out_before_large_garbled_witness:
  "\<exists>c g. exec_code (\<lambda>n. Some (\<lambda>_. NUL)) sink_write pipe_read 7
      [Var ''q'' (demo_type ''void*'' 4 True) ''8'' POINTER_OUT [] [], (Var ''p'' (demo_type ''void*'' 4 True) ''2'' POINTER_IN [] [])\<lparr>v_isLarge := True\<rparr>]
      [Pointer (Some ''........'') 8 [], Pointer (Some ''hi'') 2 []]
      (fragments True (enumerate 0 [Var ''q'' (demo_type ''void*'' 4 True) ''8'' POINTER_OUT [] [],
         (Var ''p'' (demo_type ''void*'' 4 True) ''2'' POINTER_IN [] [])\<lparr>v_isLarge := True\<rparr>]) @ [Flush_Stream]) (new_client 64 ([], []) ([], [])) =
      Some (Inr c) \<and> length g = 8 \<and>
    fst (cl_out c) = put4LE 7 @ put4LE 26 @ put4LE 8 @ g @ put4LE 2 @ ''hi'' \<and>
    decode_args [Var ''q'' (demo_type ''void*'' 4 True) ''8'' POINTER_OUT [] [],
        (Var ''p'' (demo_type ''void*'' 4 True) ''2'' POINTER_IN [] [])\<lparr>v_isLarge := True\<rparr>] (fst (cl_out c)) 8 =
      Inr [SOut 8, SIn (drop 4 g @ put4LE 2 @ ''hi'')]"
  using out_before_large_garbled [of "\<lambda>n. Some (\<lambda>_. NUL)" 64 "Var ''q'' (demo_type ''void*'' 4 True) ''8'' POINTER_OUT [] []"
      "(Var ''p'' (demo_type ''void*'' 4 True) ''2'' POINTER_IN [] [])\<lparr>v_isLarge := True\<rparr>" "Pointer (Some ''........'') 8 []"
      "Pointer (Some ''hi'') 2 []" 7 "[]" "([], [])"]
  by (simp add: demo_defs arg_ok_def sends_data_def arg_data_def custom_expression_def getVarEncodingSizeExpression_def arg_null_def
      packet_length_def arg_room_def)

end
