(* ===== verification/Emugen_Lines.thy ===== *)
theory Emugen_Lines
  imports Emugen_Spec
begin

text \<open>
  The lines of a specification are read as they are meant: printing the prefix, the type of the result, the name and the
  parameters of an entry point gives a line from which \<open>parse\<close> gets them back.
\<close>

section \<open>The text of a line\<close>



definition stars :: "nat \<Rightarrow> bytes" where "stars n = replicate n (CHR ''*'')"







section \<open>Types\<close>

lemma stars_simps [simp]: "stars 0 = []" "stars (Suc n) = CHR ''*'' # stars n" "stars n = [] \<longleftrightarrow> n = 0"
  by (simp_all add: stars_def)





lemma blanks [simp]: "blank SPC"
  by (simp add: WHITESPACE_def)






section \<open>Lines\<close>








end
