(* ===== verification/Render_Config.thy ===== *)
theory Render_Config
  imports Render_Demo
begin

text \<open>
  The configurations of \<open>FBConfig.cpp\<close> and the calls of \<open>RenderControl.cpp\<close> that answer a query. The host's EGL
  library is a parameter: the list of its configurations, their attributes, and which of them match. An array that a
  caller passes is the list of its elements, so that an access behind its end is seen.
\<close>

section \<open>The attributes\<close>

definition EGL_NONE :: "32 word" where "EGL_NONE = 0x3038"
definition EGL_SURFACE_TYPE :: "32 word" where "EGL_SURFACE_TYPE = 0x3033"
definition EGL_CONFIG_ID :: "32 word" where "EGL_CONFIG_ID = 0x3028"
definition EGL_ALPHA_SIZE :: "32 word" where "EGL_ALPHA_SIZE = 0x3021"
definition EGL_BLUE_SIZE :: "32 word" where "EGL_BLUE_SIZE = 0x3022"
definition EGL_GREEN_SIZE :: "32 word" where "EGL_GREEN_SIZE = 0x3023"
definition EGL_RED_SIZE :: "32 word" where "EGL_RED_SIZE = 0x3024"
definition EGL_PBUFFER_BIT :: "32 word" where "EGL_PBUFFER_BIT = 1"
definition EGL_WINDOW_BIT :: "32 word" where "EGL_WINDOW_BIT = 4"

definition s_configAttribs :: "32 word list" where
  "s_configAttribs =
     [0x3025, 0x3026, 0x3040, EGL_SURFACE_TYPE, EGL_CONFIG_ID, 0x3020, EGL_ALPHA_SIZE, EGL_BLUE_SIZE, EGL_GREEN_SIZE, EGL_RED_SIZE,
      0x3027, 0x3029, 0x302A, 0x302B, 0x302C, 0x302D, 0x302E, 0x302F, 0x3031, 0x3032, 0x3034, 0x3035, 0x3036, 0x3037,
      0x3039, 0x303A, 0x303B, 0x303C, 0x303D, 0x303E, 0x303F, 0x3042]"

definition getNumAttribs :: nat where
  "getNumAttribs = length s_configAttribs"

text \<open>The host's library: None is a failure, which leaves the variable of the caller as it was.\<close>

record egl_lib =
  eglGetConfigs :: "int list option"
  eglGetConfigAttrib :: "int \<Rightarrow> 32 word \<Rightarrow> 32 word option"
  eglChooseConfig :: "32 word list \<Rightarrow> int list option"
  eglQueryString :: "32 word \<Rightarrow> bytes option"

record fbconfig =
  m_eglConfig_of :: int
  m_attribValues :: "32 word list"

section \<open>The list of configurations\<close>

definition attrib_value :: "egl_lib \<Rightarrow> int \<Rightarrow> 32 word \<Rightarrow> 32 word" where
  "attrib_value egl c a =
     (let v = (case eglGetConfigAttrib egl c a of None \<Rightarrow> 0 | Some v \<Rightarrow> v)
      in if a = EGL_SURFACE_TYPE then v OR EGL_WINDOW_BIT else v)"

definition FBConfig :: "egl_lib \<Rightarrow> int \<Rightarrow> fbconfig" where
  "FBConfig egl c = \<lparr>m_eglConfig_of = c, m_attribValues = map (attrib_value egl c) s_configAttribs\<rparr>"

text \<open>A query into a variable that was not initialised.\<close>

definition query :: "egl_lib \<Rightarrow> int \<Rightarrow> 32 word \<Rightarrow> fault + 32 word" where
  "query egl c a = (case eglGetConfigAttrib egl c a of None \<Rightarrow> Inl Uninitialised | Some v \<Rightarrow> Inr v)"

definition wanted_config :: "egl_lib \<Rightarrow> int \<Rightarrow> fault + bool" where
  "wanted_config egl c =
     bindE (query egl c EGL_SURFACE_TYPE) (\<lambda>surfaceType.
       if surfaceType AND EGL_PBUFFER_BIT = 0 then Inr False
       else
         bindE (query egl c EGL_RED_SIZE) (\<lambda>redSize.
         bindE (query egl c EGL_BLUE_SIZE) (\<lambda>blueSize.
         bindE (query egl c EGL_GREEN_SIZE) (\<lambda>greenSize.
         bindE (query egl c EGL_ALPHA_SIZE) (\<lambda>alphaSize.
           Inr (\<not> (redSize = 0 \<or> greenSize = 0 \<or> blueSize = 0 \<or> alphaSize = 0)))))))"

fun config_list :: "egl_lib \<Rightarrow> int list \<Rightarrow> fault + fbconfig list" where
  "config_list egl [] = Inr []"
| "config_list egl (c # cs) =
     bindE (wanted_config egl c) (\<lambda>wanted.
     bindE (config_list egl cs) (\<lambda>rest. Inr (if wanted then FBConfig egl c # rest else rest)))"

text \<open>The result says whether the initialisation passed; on an early return the list stays empty.\<close>

definition initConfigList :: "egl_lib \<Rightarrow> 'e renderer \<Rightarrow> fault + bool \<times> fbconfig list" where
  "initConfigList egl s =
     (if \<not> fb_live s then Inr (False, [])
      else if m_eglDisplay s = 0 then Inr (False, [])
      else
        case eglGetConfigs egl of
          None \<Rightarrow> Inr (False, [])
        | Some configs \<Rightarrow> bindE (config_list egl configs) (\<lambda>cs. Inr (length cs > 0, cs)))"

definition config_get :: "32 word \<Rightarrow> fbconfig list \<Rightarrow> fbconfig option" where
  "config_get p_config cfgs =
     (if 0 \<le> sint p_config \<and> sint p_config < int (length cfgs) then Some (cfgs ! nat (sint p_config)) else None)"

definition attrib_at :: "nat \<Rightarrow> fbconfig \<Rightarrow> 32 word" where
  "attrib_at i c = (if m_attribValues c \<noteq> [] then m_attribValues c ! i else 0)"

definition getDepthSize :: "fbconfig \<Rightarrow> 32 word" where "getDepthSize = attrib_at 0"
definition getStencilSize :: "fbconfig \<Rightarrow> 32 word" where "getStencilSize = attrib_at 1"
definition getRenderableType :: "fbconfig \<Rightarrow> 32 word" where "getRenderableType = attrib_at 2"
definition getSurfaceType :: "fbconfig \<Rightarrow> 32 word" where "getSurfaceType = attrib_at 3"

text \<open>Values stored from an index of an array.\<close>

definition put_words :: "nat \<Rightarrow> 32 word list \<Rightarrow> 32 word list \<Rightarrow> fault + 32 word list" where
  "put_words i vs arr =
     (if length arr < i + length vs then Inl BufferOverflow else Inr (take i arr @ vs @ drop (i + length vs) arr))"

fun pack_values :: "nat \<Rightarrow> fbconfig list \<Rightarrow> 32 word list \<Rightarrow> fault + 32 word list" where
  "pack_values i [] buffer = Inr buffer"
| "pack_values i (c # cs) buffer =
     bindE (put_words ((i + 1) * getNumAttribs) (take getNumAttribs (m_attribValues c)) buffer) (pack_values (i + 1) cs)"

definition packConfigsInfo :: "fbconfig list \<Rightarrow> 32 word list \<Rightarrow> fault + 32 word list" where
  "packConfigsInfo cfgs buffer = bindE (put_words 0 s_configAttribs buffer) (pack_values 0 cfgs)"

section \<open>Choosing configurations\<close>

text \<open>The attributes of the caller up to \<open>EGL_NONE\<close>, which nothing but its value ends, with the surface type replaced; the
  flag says that there was none.\<close>

fun scan_attribs :: "32 word list \<Rightarrow> fault + 32 word list \<times> bool" where
  "scan_attribs [] = Inl Uninitialised"
| "scan_attribs [a] =
     (if a = EGL_NONE then Inr ([], True) else if a = EGL_SURFACE_TYPE then Inl BufferOverflow else Inl Uninitialised)"
| "scan_attribs (a # v # rest) =
     (if a = EGL_NONE then Inr ([], True)
      else
        bindE (scan_attribs rest) (\<lambda>(attribs, need).
          if a = EGL_SURFACE_TYPE then Inr (a # EGL_PBUFFER_BIT # attribs, False) else Inr (a # v # attribs, need)))"

definition newAttribs :: "32 word list option \<Rightarrow> fault + 32 word list" where
  "newAttribs attribs =
     bindE (case attribs of None \<Rightarrow> Inr ([], True) | Some as \<Rightarrow> scan_attribs as) (\<lambda>(as, needToAddPbufAttr).
       Inr ((if needToAddPbufAttr then [EGL_SURFACE_TYPE, EGL_PBUFFER_BIT] else []) @ as @ [EGL_NONE]))"

text \<open>The first configuration of the list with an identifier.\<close>

fun find_id :: "32 word \<Rightarrow> nat \<Rightarrow> fbconfig list \<Rightarrow> nat option" where
  "find_id sCfgId fbIdx [] = None"
| "find_id sCfgId fbIdx (c # cs) = (if sCfgId = m_attribValues c ! 4 then Some fbIdx else find_id sCfgId (fbIdx + 1) cs)"

fun verify_configs :: "egl_lib \<Rightarrow> fbconfig list \<Rightarrow> 32 word \<Rightarrow> int list \<Rightarrow> 32 word list option \<Rightarrow> 32 word \<Rightarrow>
    fault + 32 word \<times> 32 word list option" where
  "verify_configs egl cfgs configs_size [] configs nVerifiedCfgs = Inr (nVerifiedCfgs, configs)"
| "verify_configs egl cfgs configs_size (m # ms) configs nVerifiedCfgs =
     (if configs \<noteq> None \<and> configs_size > 0 \<and> nVerifiedCfgs \<ge> configs_size then Inr (nVerifiedCfgs, configs)
      else
        bindE (query egl m EGL_CONFIG_ID) (\<lambda>sCfgId.
          case find_id sCfgId 0 cfgs of
            None \<Rightarrow> verify_configs egl cfgs configs_size ms configs nVerifiedCfgs
          | Some fbIdx \<Rightarrow>
              bindE (case configs of
                       Some arr \<Rightarrow>
                         if nVerifiedCfgs < configs_size
                         then map_sum id Some (put_words (unat nVerifiedCfgs) [word_of_nat fbIdx] arr)
                         else Inr configs
                     | None \<Rightarrow> Inr None) (\<lambda>configs.
                verify_configs egl cfgs configs_size ms configs (nVerifiedCfgs + 1))))"

definition chooseConfig :: "egl_lib \<Rightarrow> fbconfig list \<Rightarrow> int \<Rightarrow> 32 word list option \<Rightarrow> 32 word list option \<Rightarrow> 32 word \<Rightarrow>
    fault + 32 word \<times> 32 word list option" where
  "chooseConfig egl cfgs dpy attribs configs configs_size =
     (if dpy = 0 then Inr (0, configs)
      else
        case eglGetConfigs egl of
          None \<Rightarrow> Inr (0, configs)
        | Some all_configs \<Rightarrow>
            bindE (newAttribs attribs) (\<lambda>as.
              case eglChooseConfig egl as of
                None \<Rightarrow> if all_configs = [] then Inr (0, configs) else Inl Uninitialised
              | Some matchedConfigs \<Rightarrow> verify_configs egl cfgs configs_size matchedConfigs configs 0))"

section \<open>The calls\<close>

definition rendererVersion :: "32 word" where "rendererVersion = 1"

definition rcGetRendererVersion :: "32 word" where "rcGetRendererVersion = rendererVersion"

text \<open>What a call stores behind its pointers is an option: None is storage that is left as it was.\<close>

definition rcGetEGLVersion :: "32 word \<Rightarrow> 32 word \<Rightarrow> 'e renderer \<Rightarrow> 32 word \<times> (32 word \<times> 32 word) option" where
  "rcGetEGLVersion eglMajor eglMinor s = (if \<not> fb_live s then (0, None) else (1, Some (eglMajor, eglMinor)))"

text \<open>The answer with a string of the host, for a buffer of the given contents and the size that the caller claims.\<close>

definition string_answer :: "bytes option \<Rightarrow> bytes option \<Rightarrow> 32 word \<Rightarrow> fault + 32 word \<times> bytes option" where
  "string_answer str buffer bufferSize =
     (case str of
        None \<Rightarrow> Inr (0, buffer)
      | Some str \<Rightarrow>
          let len = (word_of_nat (length str + 1) :: 32 word)
          in case buffer of
               None \<Rightarrow> Inr (- len, buffer)
             | Some b \<Rightarrow>
                 if sint len > sint bufferSize then Inr (- len, buffer)
                 else if length b < length str + 1 then Inl BufferOverflow
                 else Inr (len, Some (str @ [NUL] @ drop (length str + 1) b)))"

definition rcQueryEGLString :: "egl_lib \<Rightarrow> 32 word \<Rightarrow> bytes option \<Rightarrow> 32 word \<Rightarrow> 'e renderer \<Rightarrow> fault + 32 word \<times> bytes option" where
  "rcQueryEGLString egl name buffer bufferSize s =
     (if \<not> fb_live s then Inr (0, buffer) else string_answer (eglQueryString egl name) buffer bufferSize)"

text \<open>\<open>glGetString\<close> of the two GL libraries; the flag is \<open>isGL2()\<close> of the current context.\<close>

definition rcGetGLString :: "(bool \<Rightarrow> 32 word \<Rightarrow> bytes option) \<Rightarrow> nat \<Rightarrow> 32 word \<Rightarrow> bytes option \<Rightarrow> 32 word \<Rightarrow> 'e renderer \<Rightarrow>
    fault + 32 word \<times> bytes option" where
  "rcGetGLString glGetString t name buffer bufferSize s =
     (case currContext (getRenderThreadInfo t s) of
        None \<Rightarrow> Inr (0, buffer)
      | Some a \<Rightarrow> bindE (sp_get (Some a) (o_ctx s)) (\<lambda>c. string_answer (glGetString (m_isGL2 c) name) buffer bufferSize))"

definition getNumConfigs :: "fbconfig list \<Rightarrow> nat" where
  "getNumConfigs cfgs = length cfgs"

definition rcGetNumConfigs :: "fbconfig list \<Rightarrow> bool \<Rightarrow> 32 word \<times> 32 word option" where
  "rcGetNumConfigs cfgs numAttribs =
     (word_of_nat (getNumConfigs cfgs), if numAttribs then Some (word_of_nat getNumAttribs) else None)"

definition rcGetConfigs :: "fbconfig list \<Rightarrow> 32 word \<Rightarrow> 32 word list option \<Rightarrow> fault + 32 word \<times> 32 word list option" where
  "rcGetConfigs cfgs bufSize buffer =
     (let neededSize = (word_of_nat ((getNumConfigs cfgs + 1) * getNumAttribs * 4) :: 32 word)
      in case buffer of
           None \<Rightarrow> Inr (- neededSize, None)
         | Some b \<Rightarrow>
             if bufSize < neededSize then Inr (- neededSize, buffer)
             else bindE (packConfigsInfo cfgs b) (\<lambda>b. Inr (word_of_nat (getNumConfigs cfgs), Some b)))"

definition rcChooseConfig :: "egl_lib \<Rightarrow> fbconfig list \<Rightarrow> 32 word list option \<Rightarrow> 32 word \<Rightarrow> 32 word list option \<Rightarrow> 32 word \<Rightarrow>
    'e renderer \<Rightarrow> fault + 32 word \<times> 32 word list option" where
  "rcChooseConfig egl cfgs attribs attribs_size configs configs_size s =
     (if \<not> fb_live s then Inr (0, configs) else chooseConfig egl cfgs (m_eglDisplay s) attribs configs configs_size)"

definition rcGetFBParam :: "32 word \<Rightarrow> 'e renderer \<Rightarrow> 32 word" where
  "rcGetFBParam param s =
     (if \<not> fb_live s then 0
      else if param = 1 then word_of_int (m_fbWidth s)
      else if param = 2 then word_of_int (m_fbHeight s)
      else if param = 3 \<or> param = 4 then 72
      else if param = 5 then 60
      else if param = 6 \<or> param = 7 then 1
      else 0)"

text \<open>The calls that do nothing yet: \<open>pixels\<close> of the third is left as it was.\<close>

definition rcFBSetSwapInterval :: "32 word \<Rightarrow> 'e renderer \<Rightarrow> 'e renderer" where
  "rcFBSetSwapInterval interval s = s"

definition rcColorBufferCacheFlush :: "32 word \<Rightarrow> 32 word \<Rightarrow> 32 word \<Rightarrow> 32 word" where
  "rcColorBufferCacheFlush colorBuffer postCount forRead = 0"

definition rcReadColorBuffer :: "32 word list \<Rightarrow> bytes \<Rightarrow> bytes" where
  "rcReadColorBuffer args pixels = pixels"

section \<open>What the list holds\<close>

lemma getNumAttribs_val [simp]: "getNumAttribs = 32"
  by (simp add: getNumAttribs_def s_configAttribs_def)

lemma length_attribs [simp]: "length s_configAttribs = 32"
  by (simp add: s_configAttribs_def)

lemma FBConfig_length [simp]: "length (m_attribValues (FBConfig egl c)) = 32"
  by (simp add: FBConfig_def)

text \<open>The attributes that the code finds by position.\<close>

lemma attrib_positions:
  "getDepthSize (FBConfig egl c) = attrib_value egl c 0x3025"
  "getStencilSize (FBConfig egl c) = attrib_value egl c 0x3026"
  "getRenderableType (FBConfig egl c) = attrib_value egl c 0x3040"
  "getSurfaceType (FBConfig egl c) = attrib_value egl c EGL_SURFACE_TYPE"
  "m_attribValues (FBConfig egl c) ! 4 = attrib_value egl c EGL_CONFIG_ID"
  by (simp_all add: getDepthSize_def getStencilSize_def getRenderableType_def getSurfaceType_def attrib_at_def FBConfig_def s_configAttribs_def)

text \<open>A configuration that the renderer can use: it supports pixel buffers and has every colour and an alpha channel.\<close>

definition usable :: "egl_lib \<Rightarrow> int \<Rightarrow> bool" where
  "usable egl c \<longleftrightarrow>
     (\<exists>st. eglGetConfigAttrib egl c EGL_SURFACE_TYPE = Some st \<and> st AND EGL_PBUFFER_BIT \<noteq> 0) \<and>
     (\<forall>a \<in> {EGL_RED_SIZE, EGL_GREEN_SIZE, EGL_BLUE_SIZE, EGL_ALPHA_SIZE}. \<exists>n. eglGetConfigAttrib egl c a = Some n \<and> n \<noteq> 0)"

lemma wanted_usable: "wanted_config egl c = Inr b \<Longrightarrow> b \<longleftrightarrow> usable egl c"
  by (auto simp: wanted_config_def usable_def query_def bindE_eq_Inr split: option.splits if_splits)

lemma config_list_spec: "config_list egl cs = Inr cfgs \<Longrightarrow> cfgs = map (FBConfig egl) (filter (usable egl) cs)"
proof (induction cs arbitrary: cfgs)
  case (Cons c cs)
  then obtain b rest where "wanted_config egl c = Inr b" "config_list egl cs = Inr rest" "cfgs = (if b then FBConfig egl c # rest else rest)"
    by (auto simp: bindE_eq_Inr)
  with Cons.IH wanted_usable [of egl c b] show ?case by simp
qed simp

text \<open>\<open>eglGetConfigAttrib\<close> answers for every attribute of a configuration of the library.\<close>

definition answers_all :: "egl_lib \<Rightarrow> int \<Rightarrow> bool" where
  "answers_all egl c \<longleftrightarrow> (\<forall>a \<in> set s_configAttribs. eglGetConfigAttrib egl c a \<noteq> None)"

lemma query_answers: "answers_all egl c \<Longrightarrow> a \<in> set s_configAttribs \<Longrightarrow> \<exists>v. query egl c a = Inr v"
  by (auto simp: answers_all_def query_def split: option.split)

lemma wanted_answers:
  assumes "answers_all egl c"
  shows "wanted_config egl c = Inr (usable egl c)"
proof -
  have "a \<in> set s_configAttribs" if "a \<in> {EGL_SURFACE_TYPE, EGL_RED_SIZE, EGL_GREEN_SIZE, EGL_BLUE_SIZE, EGL_ALPHA_SIZE}" for a
    using that by (auto simp: s_configAttribs_def)
  with query_answers [OF assms] obtain st r g b al where
    "query egl c EGL_SURFACE_TYPE = Inr st" "query egl c EGL_RED_SIZE = Inr r" "query egl c EGL_GREEN_SIZE = Inr g"
    "query egl c EGL_BLUE_SIZE = Inr b" "query egl c EGL_ALPHA_SIZE = Inr al" by (metis insertCI)
  then have "wanted_config egl c = Inr (st AND EGL_PBUFFER_BIT \<noteq> 0 \<and> \<not> (r = 0 \<or> g = 0 \<or> b = 0 \<or> al = 0))"
    by (simp add: wanted_config_def)
  with wanted_usable [OF this] show ?thesis by simp
qed

lemma config_list_answers:
  "\<forall>c \<in> set cs. answers_all egl c \<Longrightarrow> config_list egl cs = Inr (map (FBConfig egl) (filter (usable egl) cs))"
  by (induction cs) (simp_all add: wanted_answers)

text \<open>Every configuration of the list can back a window of the guest.\<close>

theorem config_list_usable:
  assumes "initConfigList egl s = Inr (True, cfgs)" "c \<in> set cfgs"
  shows "getSurfaceType c AND EGL_WINDOW_BIT \<noteq> 0 \<and> getSurfaceType c AND EGL_PBUFFER_BIT \<noteq> 0 \<and>
    (\<exists>k all. eglGetConfigs egl = Some all \<and> k \<in> set all \<and> c = FBConfig egl k \<and> usable egl k)"
proof -
  from assms(1) obtain all cs where "eglGetConfigs egl = Some all" "config_list egl all = Inr cfgs"
    by (auto simp: initConfigList_def bindE_eq_Inr split: if_splits option.splits)
  with config_list_spec assms(2) obtain k where k: "k \<in> set all" "c = FBConfig egl k" "usable egl k" by fastforce
  from k(3) obtain st where st: "eglGetConfigAttrib egl k EGL_SURFACE_TYPE = Some st" "st AND EGL_PBUFFER_BIT \<noteq> 0"
    by (auto simp: usable_def)
  then have "getSurfaceType c = st OR EGL_WINDOW_BIT" using k(2) attrib_positions(4) by (simp add: attrib_value_def)
  moreover have "(st OR EGL_WINDOW_BIT) AND EGL_WINDOW_BIT = EGL_WINDOW_BIT"
    by (rule bit_eqI) (auto simp: bit_simps)
  moreover have "(st OR EGL_WINDOW_BIT) AND EGL_PBUFFER_BIT = st AND EGL_PBUFFER_BIT"
    by (rule bit_eqI) (auto simp: bit_simps EGL_WINDOW_BIT_def EGL_PBUFFER_BIT_def)
  ultimately show ?thesis using st k \<open>eglGetConfigs egl = Some all\<close> by (auto simp: EGL_WINDOW_BIT_def)
qed

section \<open>The table of the guest\<close>

lemma put_words_at: "put_words (length pre) vs (pre @ old @ tl_b) = Inr (pre @ vs @ tl_b)" if "length old = length vs"
  using that by (simp add: put_words_def)

lemma pack_values_table:
  assumes "\<forall>c \<in> set cfgs. length (m_attribValues c) = 32" "length pre = (i + 1) * 32" "length old = length cfgs * 32"
  shows "pack_values i cfgs (pre @ old @ tl_b) = Inr (pre @ concat (map m_attribValues cfgs) @ tl_b)"
  using assms
proof (induction cfgs arbitrary: i pre old)
  case (Cons c cs)
  have c: "length (m_attribValues c) = 32" using Cons.prems(1) by simp
  have split: "pre @ old @ tl_b = pre @ take 32 old @ (drop 32 old @ tl_b)" by simp
  have "put_words (length pre) (m_attribValues c) (pre @ old @ tl_b) = Inr (pre @ m_attribValues c @ drop 32 old @ tl_b)"
    unfolding split by (rule put_words_at) (use c Cons.prems(3) in simp)
  moreover have "pack_values (i + 1) cs ((pre @ m_attribValues c) @ drop 32 old @ tl_b) =
      Inr ((pre @ m_attribValues c) @ concat (map m_attribValues cs) @ tl_b)"
    by (rule Cons.IH) (use Cons.prems c in simp_all)
  ultimately show ?case using Cons.prems(2) c by simp
qed simp

text \<open>The guest that passes a large enough buffer finds in it the attributes and their values for every
  configuration, in the order of the numbers that it will use, and nothing else changed; with a
  smaller one it is told the size.\<close>

theorem rcGetConfigs_table:
  assumes "\<forall>c \<in> set cfgs. length (m_attribValues c) = 32" "(length cfgs + 1) * 128 < 2 ^ 32"
    "length b = unat bufSize div 4"
  shows "rcGetConfigs cfgs bufSize (Some b) =
    (if unat bufSize < (length cfgs + 1) * 128
     then Inr (- word_of_nat ((length cfgs + 1) * 128), Some b)
     else Inr (word_of_nat (length cfgs), Some (s_configAttribs @ concat (map m_attribValues cfgs) @ drop ((length cfgs + 1) * 32) b)))"
proof -
  let ?n = "(length cfgs + 1) * 128"
  have less: "bufSize < word_of_nat ?n \<longleftrightarrow> unat bufSize < ?n"
  proof -
    have "unat (word_of_nat ?n :: 32 word) = ?n" using assms(2) by (simp only: unat_of_nat take_bit_eq_mod) simp
    then show ?thesis by (simp only: word_less_nat_alt)
  qed
  have needed: "(getNumConfigs cfgs + 1) * getNumAttribs * 4 = ?n" by (simp add: getNumConfigs_def)
  have call: "rcGetConfigs cfgs bufSize (Some b) =
      (if unat bufSize < ?n then Inr (- word_of_nat ?n, Some b)
       else bindE (packConfigsInfo cfgs b) (\<lambda>b. Inr (word_of_nat (length cfgs), Some b)))"
    unfolding rcGetConfigs_def Let_def option.case needed less by (simp only: getNumConfigs_def)
  show ?thesis
  proof (cases "unat bufSize < ?n")
    case True
    then show ?thesis by (simp only: call if_True)
  next
    case False
    then have "?n div 4 \<le> length b" unfolding assms(3) by (simp only: not_less div_le_mono)
    then have len: "(length cfgs + 1) * 32 \<le> length b" by simp
    let ?head = "take 32 b" and ?old = "take (length cfgs * 32) (drop 32 b)" and ?tl_b = "drop ((length cfgs + 1) * 32) b"
    have b: "b = ?head @ ?old @ ?tl_b"
      by (metis add.commute append_take_drop_id drop_drop mult.commute mult_Suc Suc_eq_plus1)
    have "put_words 0 s_configAttribs b = Inr (s_configAttribs @ ?old @ ?tl_b)"
      using put_words_at [of ?head s_configAttribs "[]" "?old @ ?tl_b"] b len by simp
    moreover have "pack_values 0 cfgs (s_configAttribs @ ?old @ ?tl_b) = Inr (s_configAttribs @ concat (map m_attribValues cfgs) @ ?tl_b)"
      by (rule pack_values_table) (use assms(1) len in simp_all)
    ultimately have "packConfigsInfo cfgs b = Inr (s_configAttribs @ concat (map m_attribValues cfgs) @ ?tl_b)"
      by (simp add: packConfigsInfo_def)
    with False show ?thesis by (simp only: call if_False bindE_simps)
  qed
qed

section \<open>What is chosen\<close>

definition pair_list :: "(32 word \<times> 32 word) list \<Rightarrow> 32 word list" where
  "pair_list ps = concat (map (\<lambda>(a, v). [a, v]) ps)"

definition with_pbuffer :: "(32 word \<times> 32 word) list \<Rightarrow> (32 word \<times> 32 word) list" where
  "with_pbuffer ps =
     (if EGL_SURFACE_TYPE \<in> fst ` set ps then [] else [(EGL_SURFACE_TYPE, EGL_PBUFFER_BIT)]) @
     map (\<lambda>(a, v). (a, if a = EGL_SURFACE_TYPE then EGL_PBUFFER_BIT else v)) ps"

lemma scan_attribs_pairs:
  assumes "\<forall>(a, v) \<in> set ps. a \<noteq> EGL_NONE"
  shows "scan_attribs (pair_list ps @ EGL_NONE # rest) =
    Inr (pair_list (map (\<lambda>(a, v). (a, if a = EGL_SURFACE_TYPE then EGL_PBUFFER_BIT else v)) ps), EGL_SURFACE_TYPE \<notin> fst ` set ps)"
  using assms
proof (induction ps)
  case Nil
  then show ?case by (cases rest) (simp_all add: pair_list_def)
qed (auto simp: pair_list_def)

lemma newAttribs_pairs:
  assumes "\<forall>(a, v) \<in> set ps. a \<noteq> EGL_NONE"
  shows "newAttribs (Some (pair_list ps @ EGL_NONE # rest)) = Inr (pair_list (with_pbuffer ps) @ [EGL_NONE])"
  using scan_attribs_pairs [OF assms, of rest] by (simp add: newAttribs_def with_pbuffer_def) (simp add: pair_list_def)

text \<open>Nothing but the value \<open>EGL_NONE\<close> ends the attributes: without it the scan leaves the array, whatever size the
  caller gave.\<close>

lemma scan_attribs_unended:
  "\<forall>i. 2 * i < length as \<longrightarrow> as ! (2 * i) \<noteq> EGL_NONE \<Longrightarrow> \<exists>f. scan_attribs as = Inl f"
proof (induction as rule: scan_attribs.induct)
  case (2 a)
  then show ?case by auto
next
  case (3 a v rest)
  have a: "a \<noteq> EGL_NONE" using "3.prems" [rule_format, of 0] by simp
  have "\<forall>i. 2 * i < length rest \<longrightarrow> rest ! (2 * i) \<noteq> EGL_NONE"
    using "3.prems" [rule_format, of "i + 1" for i] by auto
  from "3.IH" [OF a this] obtain f where "scan_attribs rest = Inl f" by blast
  with a show ?case by simp
qed simp

theorem chooseConfig_unended:
  assumes "\<forall>i. 2 * i < length as \<longrightarrow> as ! (2 * i) \<noteq> EGL_NONE" "fb_live s" "m_eglDisplay s \<noteq> 0" "eglGetConfigs egl \<noteq> None"
  shows "\<exists>f. rcChooseConfig egl cfgs (Some as) attribs_size configs configs_size s = Inl f"
  using scan_attribs_unended [OF assms(1)] assms(2-4) by (auto simp: rcChooseConfig_def chooseConfig_def newAttribs_def)

text \<open>The numbers of the configurations that the host matched and the renderer has.\<close>

definition matched_index :: "egl_lib \<Rightarrow> fbconfig list \<Rightarrow> int \<Rightarrow> nat option" where
  "matched_index egl cfgs m = (case eglGetConfigAttrib egl m EGL_CONFIG_ID of None \<Rightarrow> None | Some i \<Rightarrow> find_id i 0 cfgs)"

definition hits :: "egl_lib \<Rightarrow> fbconfig list \<Rightarrow> int list \<Rightarrow> nat list" where
  "hits egl cfgs ms = List.map_filter (matched_index egl cfgs) ms"

lemma hits_simps [simp]:
  "hits egl cfgs [] = []"
  "hits egl cfgs (m # ms) = (case matched_index egl cfgs m of None \<Rightarrow> hits egl cfgs ms | Some i \<Rightarrow> i # hits egl cfgs ms)"
  by (simp_all add: hits_def map_filter_simps split: option.split)

lemma find_id_Some:
  "find_id i k cfgs = Some j \<Longrightarrow> k \<le> j \<and> j - k < length cfgs \<and> m_attribValues (cfgs ! (j - k)) ! 4 = i"
proof (induction cfgs arbitrary: k)
  case (Cons c cs)
  show ?case
  proof (cases "i = m_attribValues c ! 4")
    case False
    with Cons.prems Cons.IH [of "k + 1"] have "k + 1 \<le> j" "j - (k + 1) < length cs" "m_attribValues (cs ! (j - (k + 1))) ! 4 = i" by auto
    then show ?thesis by (simp add: nth_Cons' Suc_diff_Suc)
  qed (use Cons.prems in simp)
qed simp

lemma hits_in_list: "i \<in> set (hits egl cfgs ms) \<Longrightarrow> i < length cfgs"
  by (induction ms) (auto simp: matched_index_def split: option.splits dest!: find_id_Some)

lemma length_hits: "length (hits egl cfgs ms) \<le> length ms"
  by (induction ms) (auto split: option.split)

lemma verify_configs_count:
  assumes "\<forall>m \<in> set ms. eglGetConfigAttrib egl m EGL_CONFIG_ID \<noteq> None"
  shows "verify_configs egl cfgs n ms None k = Inr (k + word_of_nat (length (hits egl cfgs ms)), None)"
  using assms
proof (induction ms arbitrary: k)
  case (Cons m ms)
  then obtain i where i: "eglGetConfigAttrib egl m EGL_CONFIG_ID = Some i" by auto
  show ?case
    using Cons.IH Cons.prems i by (cases "find_id i 0 cfgs") (simp_all add: query_def matched_index_def)
qed simp

lemma verify_configs_fill:
  assumes "\<forall>m \<in> set ms. eglGetConfigAttrib egl m EGL_CONFIG_ID \<noteq> None" "0 < n" "unat n \<le> length arr" "length found \<le> unat n"
  shows "verify_configs egl cfgs n ms (Some (map word_of_nat found @ drop (length found) arr)) (word_of_nat (length found)) =
    (let all = take (unat n) (found @ hits egl cfgs ms)
     in Inr (word_of_nat (length all), Some (map word_of_nat all @ drop (length all) arr)))"
  using assms
proof (induction ms arbitrary: found)
  case Nil
  then show ?case by (simp add: Let_def)
next
  case (Cons m ms)
  let ?arr = "map word_of_nat found @ drop (length found) arr"
  have k: "unat (word_of_nat (length found) :: 32 word) = length found"
    using Cons.prems(4) by (rule le_unat_uoi)
  show ?case
  proof (cases "length found = unat n")
    case True
    then have "n \<le> word_of_nat (length found)" by simp
    with True Cons.prems(2) show ?thesis by (simp add: Let_def)
  next
    case False
    then have lt: "length found < unat n" "\<not> n \<le> word_of_nat (length found)" "word_of_nat (length found) < n"
      using Cons.prems(4) k by (simp_all add: word_le_nat_alt word_less_nat_alt)
    from Cons.prems(1) obtain i where i: "eglGetConfigAttrib egl m EGL_CONFIG_ID = Some i" by auto
    show ?thesis
    proof (cases "find_id i 0 cfgs")
      case None
      with lt i Cons.IH [of found] Cons.prems show ?thesis by (simp add: query_def matched_index_def Let_def)
    next
      case (Some j)
      have put: "put_words (length found) [word_of_nat j] ?arr = Inr (map word_of_nat (found @ [j]) @ drop (length (found @ [j])) arr)"
        using lt(1) Cons.prems(3) by (simp add: put_words_def)
      have "verify_configs egl cfgs n (m # ms) (Some ?arr) (word_of_nat (length found)) =
          verify_configs egl cfgs n ms (Some (map word_of_nat (found @ [j]) @ drop (length (found @ [j])) arr)) (word_of_nat (length (found @ [j])))"
        using lt i Some put k by (simp add: query_def add.commute)
      with Cons.IH [of "found @ [j]"] Cons.prems lt(1) i Some show ?thesis by (simp add: matched_index_def)
    qed
  qed
qed

text \<open>C31: The guest gets the numbers of the configurations that the host's library matched, for the attributes it asked for and
  pixel buffers, as far as the renderer has them, in the order of the host and no more than it has room for.\<close>

theorem chooseConfig_chooses:
  assumes "fb_live s" "m_eglDisplay s \<noteq> 0" "eglGetConfigs egl = Some all_configs" "\<forall>(a, v) \<in> set ps. a \<noteq> EGL_NONE"
    "eglChooseConfig egl (pair_list (with_pbuffer ps) @ [EGL_NONE]) = Some ms"
    "\<forall>m \<in> set ms. eglGetConfigAttrib egl m EGL_CONFIG_ID \<noteq> None" "0 < n" "unat n \<le> length arr"
  shows "rcChooseConfig egl cfgs (Some (pair_list ps @ EGL_NONE # rest)) k (Some arr) n s =
    (let chosen = take (unat n) (hits egl cfgs ms)
     in Inr (word_of_nat (length chosen), Some (map word_of_nat chosen @ drop (length chosen) arr)))"
  using verify_configs_fill [OF assms(6,7,8), of "[]" cfgs] newAttribs_pairs [OF assms(4)] assms(1-3,5)
  by (simp add: rcChooseConfig_def chooseConfig_def)

text \<open>A library with three configurations, of which the second has no alpha channel; it matches all of them.\<close>

definition demo_egl :: egl_lib where
  "demo_egl =
     \<lparr>eglGetConfigs = Some [10, 20, 30],
      eglGetConfigAttrib = (\<lambda>c a. Some (if a = EGL_CONFIG_ID then word_of_int c else if c = 20 \<and> a = EGL_ALPHA_SIZE then 0 else 5)),
      eglChooseConfig = (\<lambda>as. Some [30, 20, 10]), eglQueryString = (\<lambda>n. None)\<rparr>"

definition demo_configs :: "fbconfig list" where
  "demo_configs = map (FBConfig demo_egl) [10, 30]"

lemmas egl_consts = EGL_NONE_def EGL_SURFACE_TYPE_def EGL_CONFIG_ID_def EGL_ALPHA_SIZE_def EGL_BLUE_SIZE_def EGL_GREEN_SIZE_def
  EGL_RED_SIZE_def EGL_PBUFFER_BIT_def EGL_WINDOW_BIT_def

lemma demo_egl_simps [simp]:
  "eglGetConfigs demo_egl = Some [10, 20, 30]" "eglChooseConfig demo_egl as = Some [30, 20, 10]"
  "eglGetConfigAttrib demo_egl c a = Some (if a = EGL_CONFIG_ID then word_of_int c else if c = 20 \<and> a = EGL_ALPHA_SIZE then 0 else 5)"
  by (simp_all add: demo_egl_def)

lemma demo_config_ids [simp]: "m_attribValues (FBConfig demo_egl c) ! 4 = word_of_int c"
  by (simp add: attrib_positions attrib_value_def egl_consts)

lemma demo_egl_configs: "initConfigList demo_egl demo_start = Inr (True, demo_configs)"
  by (simp add: initConfigList_def demo_start_def wanted_config_def query_def demo_configs_def egl_consts)

lemma config_list_usable_witness:
  "initConfigList demo_egl demo_start = Inr (True, demo_configs) \<and> getSurfaceType (FBConfig demo_egl 30) AND EGL_PBUFFER_BIT \<noteq> 0"
  using config_list_usable [OF demo_egl_configs, of "FBConfig demo_egl 30"] demo_egl_configs by (simp add: demo_configs_def)

lemma rcGetConfigs_table_witness:
  "rcGetConfigs demo_configs 400 (Some (replicate 100 0)) =
     Inr (2, Some (s_configAttribs @ m_attribValues (FBConfig demo_egl 10) @ m_attribValues (FBConfig demo_egl 30) @ replicate 4 0))"
  using rcGetConfigs_table [of demo_configs "replicate 100 0" 400] by (simp add: demo_configs_def)

lemma chooseConfig_unended_witness:
  "\<exists>f. rcChooseConfig demo_egl demo_configs (Some [0x3024, 8, 0x3023, 8]) 16 (Some [0, 0]) 2 demo_start = Inl f"
proof (rule chooseConfig_unended)
  show "\<forall>i. 2 * i < length [0x3024, 8, 0x3023, 8 :: 32 word] \<longrightarrow> [0x3024, 8, 0x3023, 8] ! (2 * i) \<noteq> EGL_NONE"
  proof (intro allI impI)
    fix i assume "2 * i < length [0x3024, 8, 0x3023, 8 :: 32 word]"
    then have "i = 0 \<or> i = 1" by auto
    then show "[0x3024, 8, 0x3023, 8 :: 32 word] ! (2 * i) \<noteq> EGL_NONE" by (auto simp: egl_consts)
  qed
qed (simp_all add: demo_start_def)

lemma chooseConfig_chooses_witness:
  "rcChooseConfig demo_egl demo_configs (Some [0x3024, 8, 0x3038, 9]) 16 (Some [7, 7, 7]) 3 demo_start = Inr (2, Some [1, 0, 7])"
proof -
  have h: "hits demo_egl demo_configs [30, 20, 10] = [1, 0]"
    by (simp add: matched_index_def demo_configs_def)
  show ?thesis
    using chooseConfig_chooses [of demo_start demo_egl "[10, 20, 30]" "[(0x3024, 8)]" "[30, 20, 10]" 3 "[7, 7, 7]" demo_configs "[9]" 16] h
    by (simp add: demo_start_def pair_list_def egl_consts)
qed

end
