(* ===== verification/Render_Remote.thy ===== *)
theory Render_Remote
  imports Render_Config Render_Demo Emugen_Wire
begin

text \<open>
  The renderer at the end of the wire: the API of \<open>renderControl.in\<close>, and the functions of \<open>RenderControl.cpp\<close>
  as the server of its generated decoder.
\<close>

section \<open>The API\<close>

text \<open>\<open>renderControl.types\<close>, with the base types that its lines name; every one of them has 32 bits.\<close>

definition rc_type :: "bytes \<Rightarrow> var_type" where
  "rc_type name =
     \<lparr>vt_id = 6, vt_name = name, vt_bytes = (if name = ''void'' then 0 else 4), vt_printFormat = ''0x%08x'',
      vt_isPointer = (name \<noteq> [] \<and> last name = CHR ''*'')\<rparr>"

definition rc_value :: "bytes \<times> bytes \<Rightarrow> var" where
  "rc_value p = Var (snd p) (rc_type (fst p)) [] POINTER_IN [] []"

text \<open>A pointer with its attributes of \<open>renderControl.attrib\<close>.\<close>

definition rc_pointer :: "bytes \<Rightarrow> bytes \<Rightarrow> pointer_dir \<Rightarrow> bytes \<Rightarrow> var" where
  "rc_pointer ty name dir len = Var name (rc_type ty) len dir [] []"

definition rc_entry :: "bytes \<Rightarrow> bytes \<Rightarrow> var list \<Rightarrow> entry_point" where
  "rc_entry rt name vs =
     \<lparr>ep_name = name, ep_retval = Var [] (rc_type rt) [] POINTER_OUT [] [], ep_vars = vs,
      ep_unsupported = False, ep_customDecoder = False, ep_notApi = False\<rparr>"

definition pixels_len :: bytes where
  "pixels_len = ''(((glUtilsPixelBitSize(format, type) * width) >> 3) * height)''"

definition pixel_params :: "(bytes \<times> bytes) list" where
  "pixel_params =
     [(''uint32_t'', ''colorbuffer''), (''GLint'', ''x''), (''GLint'', ''y''), (''GLint'', ''width''), (''GLint'', ''height''),
      (''GLenum'', ''format''), (''GLenum'', ''type'')]"

text \<open>The entry points that only have values, in the second half of the specification.\<close>

definition rc_values :: "(bytes \<times> bytes \<times> (bytes \<times> bytes) list) list" where
  "rc_values =
     [(''EGLint'', ''rcGetFBParam'', [(''EGLint'', ''param'')]),
      (''uint32_t'', ''rcCreateContext'', [(''uint32_t'', ''config''), (''uint32_t'', ''share''), (''uint32_t'', ''glVersion'')]),
      (''void'', ''rcDestroyContext'', [(''uint32_t'', ''context'')]),
      (''uint32_t'', ''rcCreateWindowSurface'', [(''uint32_t'', ''config''), (''uint32_t'', ''width''), (''uint32_t'', ''height'')]),
      (''void'', ''rcDestroyWindowSurface'', [(''uint32_t'', ''windowSurface'')]),
      (''uint32_t'', ''rcCreateColorBuffer'', [(''uint32_t'', ''width''), (''uint32_t'', ''height''), (''GLenum'', ''internalFormat'')]),
      (''void'', ''rcOpenColorBuffer'', [(''uint32_t'', ''colorbuffer'')]),
      (''void'', ''rcCloseColorBuffer'', [(''uint32_t'', ''colorbuffer'')]),
      (''void'', ''rcSetWindowColorBuffer'', [(''uint32_t'', ''windowSurface''), (''uint32_t'', ''colorBuffer'')]),
      (''int'', ''rcFlushWindowColorBuffer'', [(''uint32_t'', ''windowSurface'')]),
      (''EGLint'', ''rcMakeCurrent'', [(''uint32_t'', ''context''), (''uint32_t'', ''drawSurf''), (''uint32_t'', ''readSurf'')]),
      (''void'', ''rcFBPost'', [(''uint32_t'', ''colorBuffer'')]),
      (''void'', ''rcFBSetSwapInterval'', [(''EGLint'', ''interval'')]),
      (''void'', ''rcBindTexture'', [(''uint32_t'', ''colorBuffer'')]),
      (''void'', ''rcBindRenderbuffer'', [(''uint32_t'', ''colorBuffer'')]),
      (''EGLint'', ''rcColorBufferCacheFlush'', [(''uint32_t'', ''colorbuffer''), (''EGLint'', ''postCount''), (''int'', ''forRead'')])]"

definition rc_queries :: "entry_point list" where
  "rc_queries =
     [rc_entry ''GLint'' ''rcGetRendererVersion'' [],
      rc_entry ''EGLint'' ''rcGetEGLVersion''
        [rc_pointer ''EGLint*'' ''major'' POINTER_OUT ''sizeof(EGLint)'', rc_pointer ''EGLint*'' ''minor'' POINTER_OUT ''sizeof(EGLint)''],
      rc_entry ''EGLint'' ''rcQueryEGLString''
        [rc_value (''EGLenum'', ''name''), rc_pointer ''void*'' ''buffer'' POINTER_OUT ''bufferSize'', rc_value (''EGLint'', ''bufferSize'')],
      rc_entry ''EGLint'' ''rcGetGLString''
        [rc_value (''EGLenum'', ''name''), rc_pointer ''void*'' ''buffer'' POINTER_OUT ''bufferSize'', rc_value (''EGLint'', ''bufferSize'')],
      rc_entry ''EGLint'' ''rcGetNumConfigs'' [rc_pointer ''uint32_t*'' ''numAttribs'' POINTER_OUT ''sizeof(uint32_t)''],
      rc_entry ''EGLint'' ''rcGetConfigs'' [rc_value (''uint32_t'', ''bufSize''), rc_pointer ''GLuint*'' ''buffer'' POINTER_OUT ''bufSize''],
      rc_entry ''EGLint'' ''rcChooseConfig''
        [rc_pointer ''EGLint*'' ''attribs'' POINTER_IN ''attribs_size'', rc_value (''uint32_t'', ''attribs_size''),
         (rc_pointer ''uint32_t*'' ''configs'' POINTER_OUT ''configs_size*sizeof(uint32_t)'')\<lparr>v_nullAllowed := True\<rparr>,
         rc_value (''uint32_t'', ''configs_size'')]]"

definition value_entry :: "bytes \<times> bytes \<times> (bytes \<times> bytes) list \<Rightarrow> entry_point" where
  "value_entry d = rc_entry (fst d) (fst (snd d)) (map rc_value (snd (snd d)))"

definition rc_api :: api where
  "rc_api = (ApiGen ''renderControl'')\<lparr>
     ag_entries :=
       rc_queries @ map value_entry rc_values @
       [rc_entry ''void'' ''rcReadColorBuffer'' (map rc_value pixel_params @ [rc_pointer ''void*'' ''pixels'' POINTER_OUT pixels_len]),
        rc_entry ''int'' ''rcUpdateColorBuffer''
          (map rc_value pixel_params @ [(rc_pointer ''void*'' ''pixels'' POINTER_IN pixels_len)\<lparr>v_isLarge := True\<rparr>])],
     ag_baseOpcode := 10000\<rparr>"

section \<open>The server\<close>

text \<open>Words in memory; bytes behind the last whole word stay.\<close>

fun words_of :: "bytes \<Rightarrow> 32 word list" where
  "words_of (a # b # c # d # bs) = get4LE [a, b, c, d] # words_of bs"
| "words_of bs = []"

definition store_words :: "32 word list \<Rightarrow> bytes \<Rightarrow> bytes" where
  "store_words ws bs = concat (map put4LE ws) @ drop (4 * length ws) bs"

text \<open>What the functions of \<open>RenderControl.cpp\<close> depend on beside the renderer: the host's libraries, the list of configurations,
  what the temporary buffer of a decoder happened to hold, and how many bytes the host's GL reads for an update.\<close>

record rc_world =
  w_egl :: egl_lib
  w_glGetString :: "bool \<Rightarrow> 32 word \<Rightarrow> bytes option"
  w_eglVersion :: "32 word \<times> 32 word"
  w_configs :: "fbconfig list"
  w_junk :: "nat \<Rightarrow> bytes"
  w_pixels :: "32 word list \<Rightarrow> nat"

text \<open>The calls that change the renderer, by their names and values.\<close>

definition rc_request :: "bytes \<Rightarrow> 32 word list \<Rightarrow> rc_call option" where
  "rc_request name ws =
     (case ws of
        [a] \<Rightarrow>
          if name = ''rcDestroyContext'' then Some (DestroyContext a)
          else if name = ''rcDestroyWindowSurface'' then Some (DestroyWindow a)
          else if name = ''rcOpenColorBuffer'' then Some (OpenColorBuffer a)
          else if name = ''rcCloseColorBuffer'' then Some (CloseColorBuffer a)
          else if name = ''rcFlushWindowColorBuffer'' then Some (FlushWindow a)
          else if name = ''rcFBPost'' then Some (FBPost a)
          else if name = ''rcBindTexture'' then Some (BindTexture a)
          else if name = ''rcBindRenderbuffer'' then Some (BindRenderbuffer a)
          else None
      | [a, b] \<Rightarrow> if name = ''rcSetWindowColorBuffer'' then Some (SetWindowColorBuffer a b) else None
      | [a, b, c] \<Rightarrow>
          if name = ''rcCreateContext'' then Some (CreateContext a b c)
          else if name = ''rcCreateWindowSurface'' then Some (CreateWindowSurface a b c)
          else if name = ''rcCreateColorBuffer'' then Some (CreateColorBuffer a b c)
          else if name = ''rcMakeCurrent'' then Some (MakeCurrentCall a b c)
          else None
      | _ \<Rightarrow> None)"

definition arg_word :: "server_arg \<Rightarrow> 32 word" where
  "arg_word a = (case a of SValue bs \<Rightarrow> get4LE bs | _ \<Rightarrow> 0)"

text \<open>The room behind an output pointer: what is there, and what is sent back.\<close>

definition out_bytes :: "rc_world \<Rightarrow> server_arg \<Rightarrow> bytes option" where
  "out_bytes w a = (case a of SOut n \<Rightarrow> Some (w_junk w n) | _ \<Rightarrow> None)"

definition out_list :: "'b option \<Rightarrow> 'b list" where
  "out_list r = (case r of None \<Rightarrow> [] | Some b \<Rightarrow> [b])"

definition words_answer :: "bytes option \<Rightarrow> fault + 32 word \<times> 32 word list option \<Rightarrow> 's \<Rightarrow> fault + bytes list \<times> bytes \<times> 's" where
  "words_answer area m s =
     bindE m (\<lambda>(r, ws).
       Inr (out_list (case (area, ws) of (Some b, Some ws) \<Rightarrow> Some (store_words ws b) | _ \<Rightarrow> area), put4LE r, s))"

definition bytes_answer :: "fault + 32 word \<times> bytes option \<Rightarrow> 's \<Rightarrow> fault + bytes list \<times> bytes \<times> 's" where
  "bytes_answer m s = bindE m (\<lambda>(r, b). Inr (out_list b, put4LE r, s))"

definition value_answer :: "32 word \<Rightarrow> 's \<Rightarrow> fault + bytes list \<times> bytes \<times> 's" where
  "value_answer r s = Inr ([], put4LE r, s)"

definition rc_query :: "rc_world \<Rightarrow> nat \<Rightarrow> bytes \<Rightarrow> server_arg list \<Rightarrow> 'e renderer \<Rightarrow> fault + bytes list \<times> bytes \<times> 'e renderer" where
  "rc_query w t name args s =
     (case args of
        [] \<Rightarrow> if name = ''rcGetRendererVersion'' then value_answer rcGetRendererVersion s else Inl Panic
      | [a] \<Rightarrow>
          if name = ''rcGetFBParam'' then value_answer (rcGetFBParam (arg_word a) s) s
          else if name = ''rcFBSetSwapInterval'' then Inr ([], [], rcFBSetSwapInterval (arg_word a) s)
          else if name = ''rcGetNumConfigs''
          then words_answer (out_bytes w a) (Inr (map_prod id (map_option (\<lambda>n. [n])) (rcGetNumConfigs (w_configs w) (a \<noteq> SNull)))) s
          else Inl Panic
      | [a, b] \<Rightarrow>
          if name = ''rcGetEGLVersion''
          then
            let (r, v) = rcGetEGLVersion (fst (w_eglVersion w)) (snd (w_eglVersion w)) s;
                put = (\<lambda>f x. case (out_bytes w x, v) of (Some area, Some v) \<Rightarrow> Some (store_words [f v] area) | (area, _) \<Rightarrow> area)
            in Inr (out_list (put fst a) @ out_list (put snd b), put4LE r, s)
          else if name = ''rcGetConfigs''
          then words_answer (out_bytes w b) (rcGetConfigs (w_configs w) (arg_word a) (map_option words_of (out_bytes w b))) s
          else Inl Panic
      | [a, b, c] \<Rightarrow>
          if name = ''rcQueryEGLString'' then bytes_answer (rcQueryEGLString (w_egl w) (arg_word a) (out_bytes w b) (arg_word c) s) s
          else if name = ''rcGetGLString'' then bytes_answer (rcGetGLString (w_glGetString w) t (arg_word a) (out_bytes w b) (arg_word c) s) s
          else if name = ''rcColorBufferCacheFlush''
          then value_answer (rcColorBufferCacheFlush (arg_word a) (arg_word b) (arg_word c)) s
          else Inl Panic
      | [a, b, c, d] \<Rightarrow>
          if name = ''rcChooseConfig''
          then words_answer (out_bytes w c)
            (rcChooseConfig (w_egl w) (w_configs w) (case a of SIn bs \<Rightarrow> Some (words_of bs) | _ \<Rightarrow> None) (arg_word b)
              (map_option words_of (out_bytes w c)) (arg_word d) s) s
          else Inl Panic
      | [a, x, y, wd, ht, fmt, ty, p] \<Rightarrow>
          if name = ''rcReadColorBuffer''
          then Inr (out_list (map_option (rcReadColorBuffer (map arg_word [a, x, y, wd, ht, fmt, ty])) (out_bytes w p)), [], s)
          else Inl Panic
      | _ \<Rightarrow> Inl Panic)"

text \<open>The pixels of an update go to the host's GL, which reads as many as the format and the sizes say.\<close>

definition rc_update :: "'e host \<Rightarrow> rc_world \<Rightarrow> nat \<Rightarrow> server_arg list \<Rightarrow> 'e renderer \<Rightarrow> fault + bytes list \<times> bytes \<times> 'e renderer" where
  "rc_update h w t args s =
     (let ws = map arg_word (take 7 args); n = w_pixels w (tl ws)
      in case drop 7 args of
           [SIn bs] \<Rightarrow>
             if length bs < n then Inl Uninitialised
             else bindE (rc_step h t (UpdateColorBuffer (hd ws) (map sint (tl ws) @ map of_char (take n bs))) s) (\<lambda>(r, s).
                    Inr ([], put4LE (word_of_int (the r)), s))
         | _ \<Rightarrow> Inl Panic)"

definition rc_server :: "'e host \<Rightarrow> rc_world \<Rightarrow> nat \<Rightarrow> 'e renderer server" where
  "rc_server h w t name args s =
     (case rc_request name (map arg_word args) of
        Some call \<Rightarrow>
          bindE (rc_step h t call s) (\<lambda>(r, s). Inr ([], (case r of None \<Rightarrow> [] | Some n \<Rightarrow> put4LE (word_of_int n)), s))
      | None \<Rightarrow> if name = ''rcUpdateColorBuffer'' then rc_update h w t args s else rc_query w t name args s)"

section \<open>The guest\<close>

text \<open>The calls as the guest makes them: the number of the entry point and the values.\<close>

fun rc_words :: "rc_call \<Rightarrow> nat \<times> 32 word list" where
  "rc_words (CreateContext a b c) = (8, [a, b, c])"
| "rc_words (DestroyContext a) = (9, [a])"
| "rc_words (CreateWindowSurface a b c) = (10, [a, b, c])"
| "rc_words (DestroyWindow a) = (11, [a])"
| "rc_words (CreateColorBuffer a b c) = (12, [a, b, c])"
| "rc_words (OpenColorBuffer a) = (13, [a])"
| "rc_words (CloseColorBuffer a) = (14, [a])"
| "rc_words (SetWindowColorBuffer a b) = (15, [a, b])"
| "rc_words (FlushWindow a) = (16, [a])"
| "rc_words (MakeCurrentCall a b c) = (17, [a, b, c])"
| "rc_words (FBPost a) = (18, [a])"
| "rc_words (BindTexture a) = (20, [a])"
| "rc_words (BindRenderbuffer a) = (21, [a])"
| "rc_words (UpdateColorBuffer a args) = (24, a # map word_of_int (take 6 args))"

definition has_data :: "rc_call \<Rightarrow> bool" where
  "has_data call \<longleftrightarrow> (case call of UpdateColorBuffer _ _ \<Rightarrow> True | _ \<Rightarrow> False)"

definition call_entry :: "rc_call \<Rightarrow> bytes \<times> bytes \<times> (bytes \<times> bytes) list" where
  "call_entry call = rc_values ! (fst (rc_words call) - 7)"

definition guest_call :: "rc_call \<Rightarrow> remote_call" where
  "guest_call call = (word_of_nat (10000 + fst (rc_words call)), value_entry (call_entry call), map (Value \<circ> put4LE) (snd (rc_words call)))"

fun rc_run :: "'e host \<Rightarrow> nat \<Rightarrow> rc_call list \<Rightarrow> 'e renderer \<Rightarrow> fault + int option list \<times> 'e renderer" where
  "rc_run h t [] s = Inr ([], s)"
| "rc_run h t (c # cs) s =
     bindE (rc_step h t c s) (\<lambda>(r, s). bindE (rc_run h t cs s) (\<lambda>(rs, s). Inr (r # rs, s)))"

definition answer_bytes :: "int option \<Rightarrow> bytes" where
  "answer_bytes r = (case r of None \<Rightarrow> [] | Some n \<Rightarrow> put4LE (word_of_int n))"

definition answers_read :: "int option list \<Rightarrow> bytes option list" where
  "answers_read rs = concat (map (\<lambda>r. case r of None \<Rightarrow> [] | Some n \<Rightarrow> [Some (put4LE (word_of_int n))]) rs)"

section \<open>Values arrive\<close>

definition value_type :: "bytes \<Rightarrow> bool" where
  "value_type ty \<longleftrightarrow> ty \<noteq> [] \<and> ty \<noteq> ''void'' \<and> last ty \<noteq> CHR ''*''"

definition plain_entry :: "bytes \<times> bytes \<times> (bytes \<times> bytes) list \<Rightarrow> bool" where
  "plain_entry d \<longleftrightarrow> (fst d = ''void'' \<or> value_type (fst d)) \<and> (\<forall>p \<in> set (snd (snd d)). value_type (fst p)) \<and> length (snd (snd d)) \<le> 3"

abbreviation word_args :: "32 word list \<Rightarrow> client_arg list" where
  "word_args \<equiv> map (Value \<circ> put4LE)"

lemma rc_value_simps [simp]:
  "v_isLarge (rc_value p) = False" "v_type (rc_value p) = rc_type (fst p)"
  "isPointer (rc_value p) \<longleftrightarrow> fst p \<noteq> [] \<and> last (fst p) = CHR ''*''"
  "vt_bytes (rc_type ty) = (if ty = ''void'' then 0 else 4)" "vt_name (rc_type ty) = ty"
  by (simp_all add: rc_value_def Var_def isPointer_def rc_type_def)

lemma value_var: "value_type (fst p) \<Longrightarrow> \<not> isPointer (rc_value p) \<and> \<not> isVoid (rc_value p)"
  by (auto simp: value_type_def isVoid_def)

lemma value_entry_simps [simp]:
  "ep_vars (value_entry d) = map rc_value (snd (snd d))" "ep_name (value_entry d) = fst (snd d)"
  "vt_name (v_type (ep_retval (value_entry d))) = fst d"
  "vt_bytes (v_type (ep_retval (value_entry d))) = (if fst d = ''void'' then 0 else 4)"
  "isPointer (ep_retval (value_entry d)) \<longleftrightarrow> fst d \<noteq> [] \<and> last (fst d) = CHR ''*''"
  by (simp_all add: value_entry_def rc_entry_def Var_def isPointer_def rc_type_def)

lemma values_arg_ok:
  assumes "\<forall>p \<in> set ps. value_type (fst p)" "length ws = length ps"
  shows "list_all2 arg_ok (map rc_value ps) (word_args ws)" "server_args (map rc_value ps) (word_args ws) = map (SValue \<circ> put4LE) ws"
    "sum_list (map2 arg_room (map rc_value ps) (word_args ws)) = 4 * length ps" "out_vars (map rc_value ps) (word_args ws) = []"
  using assms(2,1)
  by (induction ws ps rule: list_induct2)
    (auto simp: arg_ok_def server_args_def arrived_def arg_room_def out_vars_def value_type_def isVoid_def dest: value_var)

lemma extends_values: "list_all2 extends (map (SValue \<circ> put4LE) ws) ys \<Longrightarrow> ys = map (SValue \<circ> put4LE) ws"
  by (induction ws arbitrary: ys) (auto simp: list_all2_Cons1 extends_def)

lemma plain_remote_ok:
  assumes "plain_entry d" "length ws = length (snd (snd d))"
  shows "remote_ok srv (op, value_entry d, word_args ws)" "packet_length (ep_vars (value_entry d)) (word_args ws) \<le> 20"
proof -
  have ps: "\<forall>p \<in> set (snd (snd d)). value_type (fst p)" "length (snd (snd d)) \<le> 3" using assms(1) by (simp_all add: plain_entry_def)
  note v = values_arg_ok [OF ps(1) assms(2)]
  show len: "packet_length (ep_vars (value_entry d)) (word_args ws) \<le> 20" using v(3) ps(2) by (simp add: packet_length_def)
  have "vars_ok (map rc_value (snd (snd d)))" by (auto simp: vars_ok_def)
  moreover have "\<forall>v \<in> set (map rc_value (snd (snd d))). \<not> isPointer v" using ps(1) value_var by (auto simp del: rc_value_simps)
  then have "receives_ok (value_entry d) (word_args ws)"
    by (auto simp: receives_ok_def simp del: rc_value_simps dest!: set_zip_leftD)
  moreover have "result_ok (value_entry d)" using assms(1) by (auto simp: result_ok_def plain_entry_def value_type_def)
  ultimately show "remote_ok srv (op, value_entry d, word_args ws)"
    using v(1,2) len by (auto simp: remote_ok_def args_ok_def reads_only_def dest: extends_values)
qed

lemma plain_returns: "plain_entry d \<Longrightarrow> returns_value (value_entry d) \<longleftrightarrow> fst d \<noteq> ''void''"
  by (auto simp: returns_value_def isVoid_def plain_entry_def value_type_def value_entry_def rc_entry_def Var_def isPointer_def rc_type_def)

section \<open>The calls arrive\<close>

lemma call_entry_cases:
  assumes "\<not> has_data call"
  shows "plain_entry (call_entry call)" "length (snd (rc_words call)) = length (snd (snd (call_entry call)))"
    "rc_request (fst (snd (call_entry call))) (snd (rc_words call)) = Some call"
  using assms
  by (cases call; simp add: call_entry_def rc_values_def has_data_def plain_entry_def value_type_def rc_request_def)+

lemma rc_step_answers:
  assumes "\<not> has_data call" "rc_step h t call s = Inr (r, s')"
  shows "r \<noteq> None \<longleftrightarrow> fst (call_entry call) \<noteq> ''void''"
  using assms
  by (cases call)
    (auto simp: call_entry_def rc_values_def has_data_def handle_answer_def no_answer_def bindE_eq_Inr split: prod.splits)

lemma call_entry_of:
  assumes "\<not> has_data call"
  shows "entry_of rc_api (word_of_nat (10000 + fst (rc_words call))) = Some (value_entry (call_entry call))"
  using assms
  by (cases call)
    (simp_all add: call_entry_def rc_values_def has_data_def entry_of_def genOpcodes_def rc_api_def rc_queries_def ApiGen_def)

lemma plain_answer_ok:
  assumes "plain_entry d" "length ws = length (snd (snd d))" "r \<noteq> None \<longleftrightarrow> fst d \<noteq> ''void''"
  shows "answer_ok (value_entry d) (word_args ws) [] (answer_bytes r)"
    "call_reply (value_entry d) [] (answer_bytes r) = answer_bytes r"
    "call_results (value_entry d) (word_args ws) [] (answer_bytes r) = answers_read [r]"
proof -
  have ps: "\<forall>p \<in> set (snd (snd d)). value_type (fst p)" using assms(1) by (simp add: plain_entry_def)
  note o = values_arg_ok(4) [OF ps assms(2)] and rv = plain_returns [OF assms(1)]
  show "answer_ok (value_entry d) (word_args ws) [] (answer_bytes r)"
    using o rv assms(3) by (auto simp: answer_ok_def fills_def answer_bytes_def)
  show "call_reply (value_entry d) [] (answer_bytes r) = answer_bytes r"
    using rv assms(3) by (auto simp: call_reply_def answer_bytes_def)
  show "call_results (value_entry d) (word_args ws) [] (answer_bytes r) = answers_read [r]"
    using o rv assms(3) by (auto simp: call_results_def out_results_def answer_bytes_def answers_read_def split: option.split)
qed

text \<open>The calls of the guest, as calls of the server's functions.\<close>

lemma guest_calls_serve:
  assumes "\<forall>c \<in> set calls. \<not> has_data c" "rc_run h t calls s = Inr (rs, s')"
  shows "serve (rc_server h w t) (map guest_call calls) s = Inr (map (\<lambda>r. ([], answer_bytes r)) rs, s') \<and>
    answers_ok (map guest_call calls) (map (\<lambda>r. ([], answer_bytes r)) rs) \<and>
    replies (map guest_call calls) (map (\<lambda>r. ([], answer_bytes r)) rs) = concat (map answer_bytes rs) \<and>
    results (map guest_call calls) (map (\<lambda>r. ([], answer_bytes r)) rs) = answers_read rs"
  using assms
proof (induction calls arbitrary: s rs)
  case (Cons c cs)
  from Cons.prems(2) obtain r s1 rs1 where
    r: "rc_step h t c s = Inr (r, s1)" "rc_run h t cs s1 = Inr (rs1, s')" "rs = r # rs1"
    by (auto simp: bindE_eq_Inr split: prod.splits)
  have nd: "\<not> has_data c" using Cons.prems(1) by simp
  note e = call_entry_cases [OF nd] and a = rc_step_answers [OF nd r(1)]
  note p = plain_answer_ok [OF e(1,2) a]
  have ps: "\<forall>p \<in> set (snd (snd (call_entry c))). value_type (fst p)" using e(1) by (simp add: plain_entry_def)
  note sa = values_arg_ok(2) [OF ps e(2)]
  have words: "map arg_word (map (SValue \<circ> put4LE) ws) = ws" for ws
    using get4LE_put4LE [of _ "[]"] by (simp add: arg_word_def map_idI)
  have "rc_server h w t (ep_name (value_entry (call_entry c))) (map (SValue \<circ> put4LE) (snd (rc_words c))) s = Inr ([], answer_bytes r, s1)"
    using e(3) r(1) words [of "snd (rc_words c)"] by (simp add: rc_server_def answer_bytes_def split: option.split del: map_map)
  with Cons.IH [OF _ r(2)] Cons.prems(1) p sa show ?case unfolding r(3) by (simp add: guest_call_def answers_read_def)
qed (simp add: answers_read_def)

lemma guest_calls_remote:
  assumes "\<forall>c \<in> set calls. \<not> has_data c"
  shows "\<forall>(op, e, args) \<in> set (map guest_call calls). remote_ok srv (op, e, args) \<and> entry_of rc_api op = Some e"
    "calls_length (map guest_call calls) \<le> 20 * length calls"
proof -
  show "\<forall>(op, e, args) \<in> set (map guest_call calls). remote_ok srv (op, e, args) \<and> entry_of rc_api op = Some e"
  proof
    fix x assume "x \<in> set (map guest_call calls)"
    then obtain c where c: "x = guest_call c" "\<not> has_data c" using assms by auto
    from plain_remote_ok(1) [OF call_entry_cases(1,2) [OF c(2)], of srv] call_entry_of [OF c(2)]
    show "case x of (op, e, args) \<Rightarrow> remote_ok srv (op, e, args) \<and> entry_of rc_api op = Some e"
      unfolding c(1) guest_call_def prod.case by blast
  qed
  show "calls_length (map guest_call calls) \<le> 20 * length calls"
    using assms
  proof (induction calls)
    case (Cons c cs)
    then show ?case using plain_remote_ok(2) [OF call_entry_cases(1,2) [of c]] by (simp add: calls_length_def guest_call_def)
  qed (simp add: calls_length_def)
qed

text \<open>C4: 
  A guest that makes render control calls through its generated encoder drives the renderer as if it called the
  functions of the renderer: whatever calls, in whatever order, and however the connection cuts their bytes, the renderer
  ends in the state that the calls have one after the other, and the guest has read every answer. The
  calls are all those that change the renderer except the update of a colour buffer, which has data.
\<close>

theorem render_control_remote:
  assumes "\<forall>n. mem n \<noteq> None" "\<forall>n. realloc n \<noteq> None" "n < 2 ^ 31" "m < 2 ^ 31"
    "api_decoder mem sink_write (rc_server h w t) rc_api \<in> set ds" "disjoint ds"
    "\<forall>c \<in> set calls. \<not> has_data c" "rc_run h t calls s = Inr (rs, s')" "length calls < 2 ^ 26"
    "fst answers_in = concat (map answer_bytes rs)"
  shows "\<exists>c rb sk hs k. client_calls mem sink_write pipe_read (map guest_call calls) (new_client n ([], ks) answers_in) = Some (Inr c) \<and>
    cl_got c = answers_read rs \<and> fst (cl_in c) = [] \<and>
    render_main realloc pipe_read ds (ReadBuffer mem' STREAM_BUFFER_SIZE) (fst (cl_out c), ks') (SocketStream m, ([], kt), s) =
      Some (Inr (rb, sk, hs, k, s')) \<and> rb_data rb = [] \<and> fst k = concat (map answer_bytes rs)"
proof -
  note g = guest_calls_serve [OF assms(7,8), of w] and r = guest_calls_remote [OF assms(7)]
  have "calls_length (map guest_call calls) < 2 ^ 31" using r(2) assms(9) by simp
  from remote_calls [OF assms(1-6) r(1) _ _ this, of s "map (\<lambda>r. ([], answer_bytes r)) rs" s' answers_in ks mem' ks' kt] g assms(10)
  show ?thesis by simp
qed

definition demo_world :: rc_world where
  "demo_world =
     \<lparr>w_egl = \<lparr>eglGetConfigs = None, eglGetConfigAttrib = (\<lambda>c a. None), eglChooseConfig = (\<lambda>as. None), eglQueryString = (\<lambda>n. None)\<rparr>,
      w_glGetString = (\<lambda>gl2 n. None), w_eglVersion = (1, 4), w_configs = [], w_junk = (\<lambda>n. replicate n NUL), w_pixels = (\<lambda>ws. 0)\<rparr>"

definition demo_guest :: "rc_call list" where
  "demo_guest = [CreateWindowSurface 0 16 16, CreateColorBuffer 16 16 GL_RGBA, SetWindowColorBuffer 1 2]"

lemma demo_guest_runs: "\<exists>s. rc_run demo_host 0 demo_guest demo_start = Inr ([Some 1, Some 2, None], s) \<and> m_colorbuffers s 2 \<noteq> None"
proof -
  have "case rc_run demo_host 0 demo_guest demo_start of Inr (rs, s) \<Rightarrow> rs = [Some 1, Some 2, None] \<and> m_colorbuffers s 2 \<noteq> None | Inl f \<Rightarrow> False"
    by (simp add: demo_guest_def demo_simps cong: demo_congs)
  then show ?thesis by (auto split: sum.splits)
qed

lemma render_control_remote_witness:
  "\<exists>c rb sk hs k s'. client_calls (\<lambda>n. Some (\<lambda>_. NUL)) sink_write pipe_read (map guest_call demo_guest)
      (new_client 16 ([], [2, 0]) (put4LE 1 @ put4LE 2, [0, 1])) = Some (Inr c) \<and>
    cl_got c = [Some (put4LE 1), Some (put4LE 2)] \<and>
    render_main (\<lambda>n. Some (\<lambda>_. NUL)) pipe_read [api_decoder (\<lambda>n. Some (\<lambda>_. NUL)) sink_write (rc_server demo_host demo_world 0) rc_api]
      (ReadBuffer (\<lambda>_. NUL) STREAM_BUFFER_SIZE) (fst (cl_out c), [7, 0, 3]) (SocketStream 16, ([], [1]), demo_start) =
      Some (Inr (rb, sk, hs, k, s')) \<and> m_colorbuffers s' 2 \<noteq> None"
proof -
  obtain s where s: "rc_run demo_host 0 demo_guest demo_start = Inr ([Some 1, Some 2, None], s)" "m_colorbuffers s 2 \<noteq> None"
    using demo_guest_runs by blast
  have d: "disjoint [api_decoder (\<lambda>n. Some (\<lambda>_. NUL)) sink_write (rc_server demo_host demo_world 0) rc_api]" by simp
  have plain: "\<forall>c \<in> set demo_guest. \<not> has_data c" by (simp add: demo_guest_def has_data_def)
  have len: "length demo_guest < 2 ^ 26" by (simp add: demo_guest_def)
  show ?thesis
    using render_control_remote [where mem = "\<lambda>n. Some (\<lambda>_. NUL)" and realloc = "\<lambda>n. Some (\<lambda>_. NUL)" and n = "16" and m = "16"
        and ds = "[api_decoder (\<lambda>n. Some (\<lambda>_. NUL)) sink_write (rc_server demo_host demo_world 0) rc_api]"
        and answers_in = "(put4LE 1 @ put4LE 2, [0, 1])" and ks = "[2, 0]" and ks' = "[7, 0, 3]" and kt = "[1]" and mem' = "\<lambda>_. NUL",
        OF _ _ _ _ _ d plain s(1) len] s(2)
    by (fastforce simp: answer_bytes_def answers_read_def)
qed

end
