(* ===== verification/Etc1_Block.thy ===== *)
theory Etc1_Block
  imports Prelude
begin

text \<open>
  The texture compression of \<open>ETC1/etc1.cpp\<close>: the decoder and the encoder of a block of 4 by 4 pixels. A pixel is three
  bytes in a list of 48; \<open>int\<close> is \<open>int\<close>, since no value comes near its bounds: the sums of errors stay below
  \<open>2 ^ 24\<close> (\<open>score_bound\<close>), and \<open>~0\<close> is the number \<open>2 ^ 32 - 1\<close>.
\<close>

section \<open>Colours\<close>

type_synonym etc1_byte = "8 word"

definition kModifierTable :: "int list" where
  "kModifierTable =
     [2, 8, -2, -8, 5, 17, -5, -17, 9, 29, -9, -29, 13, 42, -13, -42, 18, 60, -18, -60, 24, 80, -24, -80, 33, 106, -33, -106,
      47, 183, -47, -183]"

definition kLookup :: "int list" where
  "kLookup = [0, 1, 2, 3, -4, -3, -2, -1]"

definition clamp :: "int \<Rightarrow> etc1_byte" where
  "clamp x = word_of_int (if x \<ge> 0 then (if x < 255 then x else 255) else 0)"

definition convert4To8 :: "int \<Rightarrow> int" where
  "convert4To8 b = (let c = b AND 0xf in push_bit 4 c OR c)"

definition convert5To8 :: "int \<Rightarrow> int" where
  "convert5To8 b = (let c = b AND 0x1f in push_bit 3 c OR drop_bit 2 c)"

definition convert6To8 :: "int \<Rightarrow> int" where
  "convert6To8 b = (let c = b AND 0x3f in push_bit 2 c OR drop_bit 4 c)"

definition divideBy255 :: "int \<Rightarrow> int" where
  "divideBy255 d = drop_bit 8 (d + 128 + drop_bit 8 d)"

definition convert8To4 :: "int \<Rightarrow> int" where
  "convert8To4 b = (let c = b AND 0xff in divideBy255 (c * 15))"

definition convert8To5 :: "int \<Rightarrow> int" where
  "convert8To5 b = (let c = b AND 0xff in divideBy255 (c * 31))"

definition convertDiff :: "int \<Rightarrow> int \<Rightarrow> int" where
  "convertDiff base diff = convert5To8 ((0x1f AND base) + kLookup ! nat (0x7 AND diff))"

section \<open>The decoder\<close>

definition put_pixel :: "nat \<Rightarrow> etc1_byte \<times> etc1_byte \<times> etc1_byte \<Rightarrow> etc1_byte list \<Rightarrow> etc1_byte list" where
  "put_pixel i c out = (case c of (r, g, b) \<Rightarrow> out[3 * i := r, 3 * i + 1 := g, 3 * i + 2 := b])"

text \<open>The coordinates of the \<open>i\<close>-th pixel of a half.\<close>

definition decode_pos :: "bool \<Rightarrow> bool \<Rightarrow> nat \<Rightarrow> nat \<times> nat" where
  "decode_pos second flipped i =
     (let baseX = (if second \<and> \<not> flipped then 2 else 0);
          baseY = (if second \<and> flipped then 2 else 0)
      in if flipped then (baseX + i div 2, baseY + i mod 2) else (baseX + i div 4, baseY + i mod 4))"

definition pixel_offset :: "32 word \<Rightarrow> nat \<Rightarrow> nat" where
  "pixel_offset low k = unat ((drop_bit k low AND 1) OR (drop_bit (k + 15) low AND 2))"

definition decoded_pixel :: "int \<times> int \<times> int \<Rightarrow> int \<Rightarrow> etc1_byte \<times> etc1_byte \<times> etc1_byte" where
  "decoded_pixel c delta = (case c of (r, g, b) \<Rightarrow> (clamp (r + delta), clamp (g + delta), clamp (b + delta)))"

definition decode_subblock :: "int \<times> int \<times> int \<Rightarrow> int list \<Rightarrow> 32 word \<Rightarrow> bool \<Rightarrow> bool \<Rightarrow> etc1_byte list \<Rightarrow> etc1_byte list" where
  "decode_subblock c table low second flipped pOut =
     fold (\<lambda>i out.
        let (x, y) = decode_pos second flipped i;
            delta = table ! pixel_offset low (y + x * 4)
        in put_pixel (x + 4 * y) (decoded_pixel c delta) out) [0..<8] pOut"

text \<open>The base colours of the two halves.\<close>

definition decode_colors :: "32 word \<Rightarrow> (int \<times> int \<times> int) \<times> (int \<times> int \<times> int)" where
  "decode_colors high =
     (let at = (\<lambda>n. uint (drop_bit n high))
      in if high AND 2 \<noteq> 0
         then let rBase = at 27; gBase = at 19; bBase = at 11
              in ((convert5To8 rBase, convert5To8 gBase, convert5To8 bBase),
                  (convertDiff rBase (at 24), convertDiff gBase (at 16), convertDiff bBase (at 8)))
         else ((convert4To8 (at 28), convert4To8 (at 20), convert4To8 (at 12)),
               (convert4To8 (at 24), convert4To8 (at 16), convert4To8 (at 8))))"

definition modifier_table :: "nat \<Rightarrow> int list" where
  "modifier_table i = take 4 (drop (i * 4) kModifierTable)"

definition readBigEndian :: "etc1_byte list \<Rightarrow> 32 word" where
  "readBigEndian p =
     push_bit 24 (ucast (p ! 0)) OR push_bit 16 (ucast (p ! 1)) OR push_bit 8 (ucast (p ! 2)) OR ucast (p ! 3)"

definition decode_words :: "32 word \<Rightarrow> 32 word \<Rightarrow> etc1_byte list \<Rightarrow> etc1_byte list" where
  "decode_words high low pOut =
     (let (c1, c2) = decode_colors high;
          tableA = modifier_table (unat (7 AND drop_bit 5 high));
          tableB = modifier_table (unat (7 AND drop_bit 2 high));
          flipped = (high AND 1 \<noteq> 0)
      in decode_subblock c2 tableB low True flipped (decode_subblock c1 tableA low False flipped pOut))"

definition etc1_decode_block :: "etc1_byte list \<Rightarrow> etc1_byte list \<Rightarrow> etc1_byte list" where
  "etc1_decode_block pIn pOut = decode_words (readBigEndian pIn) (readBigEndian (drop 4 pIn)) pOut"

section \<open>The encoder\<close>

record etc_compressed =
  ec_high :: "32 word"
  ec_low :: "32 word"
  ec_score :: int

definition take_best :: "etc_compressed \<Rightarrow> etc_compressed \<Rightarrow> etc_compressed" where
  "take_best a b = (if ec_score a > ec_score b then b else a)"

text \<open>The pixels of a half, in the order of the loops.\<close>

definition half_pixels :: "bool \<Rightarrow> bool \<Rightarrow> (nat \<times> nat) list" where
  "half_pixels flipped second =
     (let b = (if second then 2 else 0)
      in if flipped then [(x, b + y). y \<leftarrow> [0..<2], x \<leftarrow> [0..<4]] else [(b + x, y). y \<leftarrow> [0..<4], x \<leftarrow> [0..<2]])"

definition channel :: "etc1_byte list \<Rightarrow> nat \<times> nat \<Rightarrow> nat \<Rightarrow> int" where
  "channel pIn p ch = (case p of (x, y) \<Rightarrow> uint (pIn ! (3 * (x + 4 * y) + ch)))"

definition in_mask :: "32 word \<Rightarrow> nat \<times> nat \<Rightarrow> bool" where
  "in_mask inMask p = (case p of (x, y) \<Rightarrow> inMask AND push_bit (x + 4 * y) 1 \<noteq> 0)"

definition etc_average_colors_subblock :: "etc1_byte list \<Rightarrow> 32 word \<Rightarrow> bool \<Rightarrow> bool \<Rightarrow> etc1_byte list" where
  "etc_average_colors_subblock pIn inMask flipped second =
     map (\<lambda>ch.
        let r = fold (\<lambda>p r. if in_mask inMask p then r + channel pIn p ch else r) (half_pixels flipped second) 0
        in word_of_int (drop_bit 3 (r + 4))) [0, 1, 2]"

definition square :: "int \<Rightarrow> int" where
  "square x = x * x"

text \<open>A round of the loop over the modifiers, with its early exits.\<close>

definition choose_step :: "int \<times> int \<times> int \<Rightarrow> int \<times> int \<times> int \<Rightarrow> int list \<Rightarrow> nat \<Rightarrow> int \<times> nat \<Rightarrow> int \<times> nat" where
  "choose_step base pixel table i best =
     (case (base, pixel, best) of ((r, g, b), (pixelR, pixelG, pixelB), (bestScore, bestIndex)) \<Rightarrow>
        let modifier = table ! i;
            score = 6 * square (uint (clamp (g + modifier)) - pixelG)
        in if score \<ge> bestScore then best
           else
             let score = score + 3 * square (uint (clamp (r + modifier)) - pixelR)
             in if score \<ge> bestScore then best
                else
                  let score = score + square (uint (clamp (b + modifier)) - pixelB)
                  in if score < bestScore then (score, i) else best)"

definition chooseModifier :: "int \<times> int \<times> int \<Rightarrow> int \<times> int \<times> int \<Rightarrow> 32 word \<Rightarrow> nat \<Rightarrow> int list \<Rightarrow> int \<times> 32 word" where
  "chooseModifier base pixel low bitIndex table =
     (let (bestScore, bestIndex) = fold (choose_step base pixel table) [0..<4] (2 ^ 32 - 1, 0);
          lowMask = push_bit bitIndex (push_bit 16 (word_of_nat (bestIndex div 2)) OR word_of_nat (bestIndex mod 2))
      in (bestScore, low OR lowMask))"

definition pixel_at :: "etc1_byte list \<Rightarrow> nat \<times> nat \<Rightarrow> int \<times> int \<times> int" where
  "pixel_at pIn p = (channel pIn p 0, channel pIn p 1, channel pIn p 2)"

definition etc_encode_subblock_helper ::
  "etc1_byte list \<Rightarrow> 32 word \<Rightarrow> bool \<Rightarrow> bool \<Rightarrow> int \<times> int \<times> int \<Rightarrow> int list \<Rightarrow> etc_compressed \<Rightarrow> etc_compressed" where
  "etc_encode_subblock_helper pIn inMask flipped second base table c =
     fold (\<lambda>p c.
        if in_mask inMask p
        then let (s, low) = chooseModifier base (pixel_at pIn p) (ec_low c) (snd p + fst p * 4) table
             in c\<lparr>ec_low := low, ec_score := ec_score c + s\<rparr>
        else c) (half_pixels flipped second) c"

definition inRange4bitSigned :: "int \<Rightarrow> bool" where
  "inRange4bitSigned color \<longleftrightarrow> color \<ge> -4 \<and> color \<le> 3"

text \<open>The base colours of the halves, and the bits that they add to the upper word.\<close>

definition etc_encodeBaseColors :: "etc1_byte list \<Rightarrow> ((int \<times> int \<times> int) \<times> (int \<times> int \<times> int)) \<times> 32 word" where
  "etc_encodeBaseColors pColors =
     (let c5 = (\<lambda>i. convert8To5 (uint (pColors ! i)));
          r51 = c5 0; g51 = c5 1; b51 = c5 2; r52 = c5 3; g52 = c5 4; b52 = c5 5;
          dr = r52 - r51; dg = g52 - g51; db = b52 - b51
      in if inRange4bitSigned dr \<and> inRange4bitSigned dg \<and> inRange4bitSigned db
         then
           (((convert5To8 r51, convert5To8 g51, convert5To8 b51),
             (convert5To8 (r51 + dr), convert5To8 (g51 + dg), convert5To8 (b51 + db))),
            push_bit 27 (word_of_int r51) OR push_bit 24 (word_of_int (7 AND dr)) OR push_bit 19 (word_of_int g51) OR
            push_bit 16 (word_of_int (7 AND dg)) OR push_bit 11 (word_of_int b51) OR push_bit 8 (word_of_int (7 AND db)) OR 2)
         else
           let c4 = (\<lambda>i. convert8To4 (uint (pColors ! i)));
               r41 = c4 0; g41 = c4 1; b41 = c4 2; r42 = c4 3; g42 = c4 4; b42 = c4 5
           in (((convert4To8 r41, convert4To8 g41, convert4To8 b41), (convert4To8 r42, convert4To8 g42, convert4To8 b42)),
               push_bit 28 (word_of_int r41) OR push_bit 24 (word_of_int r42) OR push_bit 20 (word_of_int g41) OR
               push_bit 16 (word_of_int g42) OR push_bit 12 (word_of_int b41) OR push_bit 8 (word_of_int b42)))"

definition etc_encode_block_helper :: "etc1_byte list \<Rightarrow> 32 word \<Rightarrow> etc1_byte list \<Rightarrow> bool \<Rightarrow> etc_compressed" where
  "etc_encode_block_helper pIn inMask pColors flipped =
     (let ((c1, c2), colors) = etc_encodeBaseColors pColors;
          originalHigh = (if flipped then 1 else 0) OR colors;
          first = (\<lambda>i. etc_encode_subblock_helper pIn inMask flipped False c1 (modifier_table i)
            \<lparr>ec_high = originalHigh OR push_bit 5 (word_of_nat i), ec_low = 0, ec_score = 0\<rparr>);
          firstHalf = foldl take_best \<lparr>ec_high = originalHigh, ec_low = 0, ec_score = 2 ^ 32 - 1\<rparr> (map first [0..<8]);
          second = (\<lambda>i. etc_encode_subblock_helper pIn inMask flipped True c2 (modifier_table i)
            (firstHalf\<lparr>ec_high := ec_high firstHalf OR push_bit 2 (word_of_nat i)\<rparr>))
      in foldl take_best (second 0) (map second [1..<8]))"

definition writeBigEndian :: "32 word \<Rightarrow> etc1_byte list" where
  "writeBigEndian d = [ucast (drop_bit 24 d), ucast (drop_bit 16 d), ucast (drop_bit 8 d), ucast d]"

definition encode_words :: "etc1_byte list \<Rightarrow> 32 word \<Rightarrow> etc_compressed" where
  "encode_words pIn inMask =
     (let colors = (\<lambda>flipped. etc_average_colors_subblock pIn inMask flipped False @ etc_average_colors_subblock pIn inMask flipped True)
      in take_best (etc_encode_block_helper pIn inMask (colors False) False) (etc_encode_block_helper pIn inMask (colors True) True))"

definition etc1_encode_block :: "etc1_byte list \<Rightarrow> 32 word \<Rightarrow> etc1_byte list" where
  "etc1_encode_block pIn inMask =
     (let a = encode_words pIn inMask in writeBigEndian (ec_high a) @ writeBigEndian (ec_low a))"

end
