(* ===== verification/Etc1_Codec.thy ===== *)
theory Etc1_Codec
  imports Etc1_Block
begin

text \<open>
  What the encoder of a block promises: the error it reckons with is the error of what the decoder makes of its output,
  and no other choice of direction, tables and modifiers would have been closer.
\<close>

section \<open>Offsets of pixels\<close>

lemma pixel_offset_bits:
  "pixel_offset low k = of_bool (bit low k) + 2 * of_bool (bit low (k + 16))"
proof -
  have "drop_bit k low AND 1 = of_bool (bit low k)" by (simp add: and_one_eq bit_iff_odd_drop_bit of_bool_odd_eq_mod_2)
  moreover have "drop_bit (k + 15) low AND 2 = (if bit low (k + 16) then 2 else 0)"
  proof (rule bit_word_eqI)
    fix n assume "n < LENGTH(32)"
    have two: "bit (2 :: 32 word) n \<longleftrightarrow> n = 1" for n
      using bit_push_bit_iff [of 1 "1 :: 32 word" n] by (auto simp: push_bit_eq_mult bit_1_iff)
    show "bit (drop_bit (k + 15) low AND 2) n = bit (if bit low (k + 16) then 2 else 0 :: 32 word) n"
      by (auto simp: bit_simps two add.commute)
  qed
  ultimately show ?thesis by (simp add: pixel_offset_def)
qed

lemma pixel_offset_less: "pixel_offset low k < 4"
  by (simp add: pixel_offset_bits)

section \<open>Errors\<close>

definition pixel_error :: "int \<times> int \<times> int \<Rightarrow> etc1_byte \<times> etc1_byte \<times> etc1_byte \<Rightarrow> int" where
  "pixel_error pixel out =
     (case (pixel, out) of ((pr, pg, pb), (r, g, b)) \<Rightarrow>
        6 * square (uint g - pg) + 3 * square (uint r - pr) + square (uint b - pb))"

definition byte_range :: "int \<Rightarrow> bool" where
  "byte_range x \<longleftrightarrow> 0 \<le> x \<and> x < 256"

definition pixel_ok :: "int \<times> int \<times> int \<Rightarrow> bool" where
  "pixel_ok p \<longleftrightarrow> (case p of (r, g, b) \<Rightarrow> byte_range r \<and> byte_range g \<and> byte_range b)"

lemma byte_uint: "byte_range (uint (w :: etc1_byte))"
  using uint_bounded [of w] by (simp add: byte_range_def)

lemma pixel_at_ok [simp]: "pixel_ok (pixel_at pIn p)"
  using byte_uint by (simp add: pixel_at_def pixel_ok_def channel_def split: prod.split)

lemma square_bound:
  assumes "byte_range x" "byte_range y"
  shows "0 \<le> square (x - y)" "square (x - y) \<le> 65025"
proof -
  have "\<bar>x - y\<bar> \<le> 255" using assms by (auto simp: byte_range_def)
  then have "\<bar>x - y\<bar> * \<bar>x - y\<bar> \<le> 255 * 255" by (intro mult_mono) simp_all
  then show "square (x - y) \<le> 65025" by (simp add: square_def)
qed (simp add: square_def)

lemma pixel_error_bound:
  assumes "pixel_ok p"
  shows "0 \<le> pixel_error p out" "pixel_error p out \<le> 650250"
proof -
  obtain pr pg pb r g b where p: "p = (pr, pg, pb)" "out = (r, g, b)" by (metis prod_cases3)
  have "byte_range pr" "byte_range pg" "byte_range pb" using assms p(1) by (simp_all add: pixel_ok_def)
  then have "0 \<le> square (uint g - pg)" "square (uint g - pg) \<le> 65025" "0 \<le> square (uint r - pr)" "square (uint r - pr) \<le> 65025"
    "0 \<le> square (uint b - pb)" "square (uint b - pb) \<le> 65025" by (simp_all add: square_bound byte_uint)
  then show "0 \<le> pixel_error p out" "pixel_error p out \<le> 650250" using p by (simp_all add: pixel_error_def)
qed

section \<open>The best modifier\<close>

lemma choose_step_error:
  assumes "pixel_ok pixel"
  shows "choose_step base pixel table i best =
    (let e = pixel_error pixel (decoded_pixel base (table ! i)) in if e < fst best then (e, i) else best)"
proof -
  obtain pr pg pb r g b s k where p: "pixel = (pr, pg, pb)" "base = (r, g, b)" "best = (s, k)" by (metis prod_cases3 surj_pair)
  have "0 \<le> square x" for x by (simp add: square_def)
  from this [of "uint (clamp (r + table ! i)) - pr"] this [of "uint (clamp (b + table ! i)) - pb"]
  show ?thesis using p by (simp add: choose_step_def pixel_error_def decoded_pixel_def Let_def)
qed

lemma chooseModifier_best:
  assumes "pixel_ok pixel"
  shows "\<exists>i<4. chooseModifier base pixel low bitIndex table =
      (pixel_error pixel (decoded_pixel base (table ! i)),
       low OR push_bit bitIndex (push_bit 16 (word_of_nat (i div 2)) OR word_of_nat (i mod 2))) \<and>
    (\<forall>j<4. pixel_error pixel (decoded_pixel base (table ! i)) \<le> pixel_error pixel (decoded_pixel base (table ! j)))"
proof -
  define e where "e i = pixel_error pixel (decoded_pixel base (table ! i))" for i
  have e: "e i < 2 ^ 32 - 1" for i using pixel_error_bound(2) [OF assms, of "decoded_pixel base (table ! i)"] by (simp add: e_def)
  have "choose_step base pixel table i best = (if e i < fst best then (e i, i) else best)" for i best
    using choose_step_error [OF assms] by (simp add: e_def Let_def)
  then have "\<exists>i<4. fold (choose_step base pixel table) [0..<4] (2 ^ 32 - 1, 0) = (e i, i) \<and> (\<forall>j<4. e i \<le> e j)"
    using e [of 0] e [of 1] e [of 2] e [of 3]
    by (auto simp: upt_rec [of _ 4] eval_nat_numeral less_Suc_eq)
  then show ?thesis by (fastforce simp: chooseModifier_def e_def)
qed

section \<open>A half\<close>

abbreviation bit_index :: "nat \<times> nat \<Rightarrow> nat" where
  "bit_index p \<equiv> snd p + fst p * 4"

definition half_error :: "etc1_byte list \<Rightarrow> 32 word \<Rightarrow> int \<times> int \<times> int \<Rightarrow> int list \<Rightarrow> 32 word \<Rightarrow> (nat \<times> nat) list \<Rightarrow> int" where
  "half_error pIn inMask base table low ps =
     sum_list (map (\<lambda>p. pixel_error (pixel_at pIn p) (decoded_pixel base (table ! pixel_offset low (bit_index p)))) (filter (in_mask inMask) ps))"

lemma half_error_simps [simp]:
  "half_error pIn inMask base table low [] = 0"
  "half_error pIn inMask base table low (p # ps) =
     (if in_mask inMask p then pixel_error (pixel_at pIn p) (decoded_pixel base (table ! pixel_offset low (bit_index p))) else 0) +
     half_error pIn inMask base table low ps"
  by (simp_all add: half_error_def)

definition same_offset :: "32 word \<Rightarrow> 32 word \<Rightarrow> nat \<Rightarrow> bool" where
  "same_offset low low' k \<longleftrightarrow> bit low' k = bit low k \<and> bit low' (k + 16) = bit low (k + 16)"

lemma half_error_cong:
  "\<forall>p \<in> set ps. same_offset low low' (bit_index p) \<Longrightarrow> half_error pIn inMask base table low' ps = half_error pIn inMask base table low ps"
  by (induction ps) (simp_all add: same_offset_def pixel_offset_bits)

lemma half_error_bound: "half_error pIn inMask base table low ps \<le> 650250 * int (length ps)" "0 \<le> half_error pIn inMask base table low ps"
proof (induction ps)
  case (Cons p ps)
  let ?e = "pixel_error (pixel_at pIn p) (decoded_pixel base (table ! pixel_offset low (bit_index p)))"
  have e: "0 \<le> ?e" "?e \<le> 650250" by (rule pixel_error_bound [OF pixel_at_ok])+
  case 1
  then show ?case using Cons(1) e by simp
  case 2
  then show ?case using Cons(2) e by simp
qed simp_all

lemma low_mask_bits:
  assumes "i < 4" "n < 32"
  shows "bit (push_bit k (push_bit 16 (word_of_nat (i div 2)) OR word_of_nat (i mod 2)) :: 32 word) n \<longleftrightarrow>
    n = k \<and> odd i \<or> n = k + 16 \<and> 2 \<le> i"
proof -
  have "i = 0 \<or> i = 1 \<or> i = 2 \<or> i = 3" using assms(1) by auto
  then show ?thesis using assms(2) by (auto simp: bit_simps bit_1_iff)
qed

definition clear_at :: "32 word \<Rightarrow> nat \<Rightarrow> bool" where
  "clear_at low k \<longleftrightarrow> \<not> bit low k \<and> \<not> bit low (k + 16)"

lemma choose_bits:
  assumes "i < 4" "k < 16" "clear_at low k"
  defines "low' \<equiv> low OR push_bit k (push_bit 16 (word_of_nat (i div 2)) OR word_of_nat (i mod 2))"
  shows "pixel_offset low' k = i" "k' < 16 \<Longrightarrow> k' \<noteq> k \<Longrightarrow> same_offset low low' k'"
proof -
  have b: "bit low' n \<longleftrightarrow> bit low n \<or> n = k \<and> odd i \<or> n = k + 16 \<and> 2 \<le> i" if "n < 32" for n
    using low_mask_bits [OF assms(1) that] by (simp add: low'_def bit_or_iff)
  have "i = 0 \<or> i = 1 \<or> i = 2 \<or> i = 3" using assms(1) by auto
  then show "pixel_offset low' k = i" using assms(2,3) by (auto simp: pixel_offset_bits b clear_at_def)
  show "k' < 16 \<Longrightarrow> k' \<noteq> k \<Longrightarrow> same_offset low low' k'" using assms(2) by (auto simp: same_offset_def b)
qed

definition half_step :: "etc1_byte list \<Rightarrow> 32 word \<Rightarrow> int \<times> int \<times> int \<Rightarrow> int list \<Rightarrow> nat \<times> nat \<Rightarrow> etc_compressed \<Rightarrow> etc_compressed" where
  "half_step pIn inMask base table p c =
     (if in_mask inMask p
      then let (s, low) = chooseModifier base (pixel_at pIn p) (ec_low c) (bit_index p) table
           in c\<lparr>ec_low := low, ec_score := ec_score c + s\<rparr>
      else c)"

lemma helper_fold: "etc_encode_subblock_helper pIn inMask flipped second base table = fold (half_step pIn inMask base table) (half_pixels flipped second)"
  by (rule ext) (simp add: etc_encode_subblock_helper_def half_step_def [abs_def])

lemma half_step_spec:
  assumes "bit_index p < 16" "clear_at (ec_low c) (bit_index p)"
  shows "\<exists>c'. half_step pIn inMask base table p c = c' \<and> ec_high c' = ec_high c \<and>
    (\<forall>k<16. k \<noteq> bit_index p \<longrightarrow> same_offset (ec_low c) (ec_low c') k) \<and>
    ec_score c' = ec_score c + half_error pIn inMask base table (ec_low c') [p] \<and>
    (\<forall>low. half_error pIn inMask base table (ec_low c') [p] \<le> half_error pIn inMask base table low [p])"
proof (cases "in_mask inMask p")
  case True
  from chooseModifier_best [OF pixel_at_ok, of base pIn p "ec_low c" "bit_index p" table] obtain i where
    i: "i < 4" "chooseModifier base (pixel_at pIn p) (ec_low c) (bit_index p) table =
      (pixel_error (pixel_at pIn p) (decoded_pixel base (table ! i)),
       ec_low c OR push_bit (bit_index p) (push_bit 16 (word_of_nat (i div 2)) OR word_of_nat (i mod 2)))"
    "\<forall>j<4. pixel_error (pixel_at pIn p) (decoded_pixel base (table ! i)) \<le> pixel_error (pixel_at pIn p) (decoded_pixel base (table ! j))"
    by blast
  note b = choose_bits [OF i(1) assms]
  show ?thesis using True i(2,3) b pixel_offset_less by (simp add: half_step_def)
next
  case False
  then show ?thesis by (simp add: half_step_def same_offset_def)
qed

lemma half_fold_spec:
  assumes "distinct (map bit_index ps)" "\<forall>p \<in> set ps. bit_index p < 16 \<and> clear_at (ec_low c) (bit_index p)"
  shows "\<exists>c'. fold (half_step pIn inMask base table) ps c = c' \<and> ec_high c' = ec_high c \<and>
    (\<forall>k<16. k \<notin> bit_index ` set ps \<longrightarrow> same_offset (ec_low c) (ec_low c') k) \<and>
    ec_score c' = ec_score c + half_error pIn inMask base table (ec_low c') ps \<and>
    (\<forall>low. half_error pIn inMask base table (ec_low c') ps \<le> half_error pIn inMask base table low ps)"
  using assms
proof (induction ps arbitrary: c)
  case Nil
  then show ?case by (simp add: same_offset_def)
next
  case (Cons p ps)
  from half_step_spec [of p c pIn inMask base table] Cons.prems(2) obtain c1 where
    c1: "half_step pIn inMask base table p c = c1" "ec_high c1 = ec_high c"
      "\<forall>k<16. k \<noteq> bit_index p \<longrightarrow> same_offset (ec_low c) (ec_low c1) k"
      "ec_score c1 = ec_score c + half_error pIn inMask base table (ec_low c1) [p]"
      "\<forall>low. half_error pIn inMask base table (ec_low c1) [p] \<le> half_error pIn inMask base table low [p]" by auto
  have "\<forall>q \<in> set ps. bit_index q < 16 \<and> clear_at (ec_low c1) (bit_index q)"
  proof
    fix q assume q: "q \<in> set ps"
    have "bit_index p \<notin> bit_index ` set ps" using Cons.prems(1) by simp
    then have "bit_index q \<noteq> bit_index p" using imageI [OF q, of bit_index] by metis
    with Cons.prems q have "bit_index q < 16" "bit_index q \<noteq> bit_index p" "clear_at (ec_low c) (bit_index q)" by auto
    with c1(3) show "bit_index q < 16 \<and> clear_at (ec_low c1) (bit_index q)" by (auto simp: same_offset_def clear_at_def)
  qed
  from Cons.IH [OF _ this] Cons.prems(1) obtain c2 where
    c2: "fold (half_step pIn inMask base table) ps c1 = c2" "ec_high c2 = ec_high c1"
      "\<forall>k<16. k \<notin> bit_index ` set ps \<longrightarrow> same_offset (ec_low c1) (ec_low c2) k"
      "ec_score c2 = ec_score c1 + half_error pIn inMask base table (ec_low c2) ps"
      "\<forall>low. half_error pIn inMask base table (ec_low c2) ps \<le> half_error pIn inMask base table low ps" by auto
  have "same_offset (ec_low c1) (ec_low c2) (bit_index p)" using Cons.prems c2(3) by auto
  then have p: "half_error pIn inMask base table (ec_low c2) [p] = half_error pIn inMask base table (ec_low c1) [p]"
    by (intro half_error_cong) simp
  have same: "\<forall>k<16. k \<notin> bit_index ` set (p # ps) \<longrightarrow> same_offset (ec_low c) (ec_low c2) k"
    using c1(3) c2(3) by (auto simp: same_offset_def)
  have split: "half_error pIn inMask base table low (p # ps) = half_error pIn inMask base table low [p] + half_error pIn inMask base table low ps" for low
    by simp
  show ?case
    unfolding split using c1 c2 p same by (auto intro: add_mono simp del: half_error_simps)
qed

end
