(* ===== verification/Etc1_Best.thy ===== *)
theory Etc1_Best
  imports Etc1_Codec
begin

text \<open>
  The choice of the encoder among the tables: for the base colours of a direction, its error is that of its own choice of
  tables and modifiers, and no other choice has a smaller one.
\<close>

section \<open>The two halves\<close>

lemma half_pixels_lists:
  "half_pixels True False = [(0,0),(1,0),(2,0),(3,0),(0,1),(1,1),(2,1),(3,1)]"
  "half_pixels True True = [(0,2),(1,2),(2,2),(3,2),(0,3),(1,3),(2,3),(3,3)]"
  "half_pixels False False = [(0,0),(1,0),(0,1),(1,1),(0,2),(1,2),(0,3),(1,3)]"
  "half_pixels False True = [(2,0),(3,0),(2,1),(3,1),(2,2),(3,2),(2,3),(3,3)]"
  by code_simp+

definition grid :: "(nat \<times> nat) list" where
  "grid = [(x, y). y \<leftarrow> [0..<4], x \<leftarrow> [0..<4]]"

lemma grid_list: "grid = [(0,0),(1,0),(2,0),(3,0),(0,1),(1,1),(2,1),(3,1),(0,2),(1,2),(2,2),(3,2),(0,3),(1,3),(2,3),(3,3)]"
  by code_simp

lemma halves:
  "distinct (map bit_index (half_pixels f s))" "length (half_pixels f s) = 8"
  "p \<in> set (half_pixels f s) \<Longrightarrow> bit_index p < 16"
  "p \<in> set (half_pixels f True) \<Longrightarrow> bit_index p \<notin> bit_index ` set (half_pixels f False)"
  "set grid = set (half_pixels f False) \<union> set (half_pixels f True)"
  "distinct grid" "distinct (half_pixels f False @ half_pixels f True)"
  by (cases f; cases s; simp add: half_pixels_lists grid_list; fastforce)+

section \<open>The best of the candidates\<close>

lemma take_best_foldl:
  "foldl take_best c cs \<in> set (c # cs) \<and> (\<forall>c' \<in> set (c # cs). ec_score (foldl take_best c cs) \<le> ec_score c')"
proof (induction cs arbitrary: c)
  case (Cons d cs)
  have "take_best c d \<in> {c, d}" "ec_score (take_best c d) \<le> ec_score c" "ec_score (take_best c d) \<le> ec_score d"
    by (auto simp: take_best_def)
  with Cons.IH [of "take_best c d"] show ?case by fastforce
qed simp

text \<open>The error of a choice of tables and modifiers.\<close>

definition choice_error :: "etc1_byte list \<Rightarrow> 32 word \<Rightarrow> bool \<Rightarrow> (int \<times> int \<times> int) \<times> (int \<times> int \<times> int) \<Rightarrow> nat \<Rightarrow> nat \<Rightarrow> 32 word \<Rightarrow> int" where
  "choice_error pIn inMask flipped cs i j low =
     half_error pIn inMask (fst cs) (modifier_table i) low (half_pixels flipped False) +
     half_error pIn inMask (snd cs) (modifier_table j) low (half_pixels flipped True)"

lemma helper_spec:
  assumes "etc_encodeBaseColors pColors = (cs, colors)"
  shows "\<exists>i<8. \<exists>j<8. \<exists>c. etc_encode_block_helper pIn inMask pColors flipped = c \<and>
    ec_high c = ((if flipped then 1 else 0) OR colors) OR push_bit 5 (word_of_nat i) OR push_bit 2 (word_of_nat j) \<and>
    ec_score c = choice_error pIn inMask flipped cs i j (ec_low c) \<and>
    (\<forall>i'<8. \<forall>j'<8. \<forall>low. ec_score c \<le> choice_error pIn inMask flipped cs i' j' low)"
proof -
  obtain c1 c2 where cs: "cs = (c1, c2)" by (cases cs)
  define H where "H = (if flipped then 1 else 0) OR colors"
  let ?E1 = "\<lambda>i low. half_error pIn inMask c1 (modifier_table i) low (half_pixels flipped False)"
  let ?E2 = "\<lambda>i low. half_error pIn inMask c2 (modifier_table i) low (half_pixels flipped True)"
  define first where "first i = etc_encode_subblock_helper pIn inMask flipped False c1 (modifier_table i)
      \<lparr>ec_high = H OR push_bit 5 (word_of_nat i), ec_low = 0, ec_score = 0\<rparr>" for i :: nat
  define c0 where "c0 = \<lparr>ec_high = H, ec_low = 0, ec_score = 2 ^ 32 - 1\<rparr>"
  define fh where "fh = foldl take_best c0 (map first [0..<8])"
  define second where "second i = etc_encode_subblock_helper pIn inMask flipped True c2 (modifier_table i)
      (fh\<lparr>ec_high := ec_high fh OR push_bit 2 (word_of_nat i)\<rparr>)" for i :: nat
  have code: "etc_encode_block_helper pIn inMask pColors flipped = foldl take_best (second 0) (map second [1..<8])"
    unfolding etc_encode_block_helper_def assms cs
    by (simp only: Let_def prod.case H_def [symmetric] first_def [abs_def, symmetric] c0_def [symmetric] fh_def [symmetric] second_def [abs_def, symmetric])
      (simp only: second_def)
  have F: "ec_high (first i) = H OR push_bit 5 (word_of_nat i) \<and>
      (\<forall>p \<in> set (half_pixels flipped True). clear_at (ec_low (first i)) (bit_index p)) \<and>
      ec_score (first i) = ?E1 i (ec_low (first i)) \<and> (\<forall>low. ec_score (first i) \<le> ?E1 i low)" for i
  proof -
    let ?c = "\<lparr>ec_high = H OR push_bit 5 (word_of_nat i), ec_low = 0, ec_score = 0\<rparr>"
    have "\<forall>p \<in> set (half_pixels flipped False). bit_index p < 16 \<and> clear_at (ec_low ?c) (bit_index p)"
      using halves(3) by (auto simp: clear_at_def)
    from half_fold_spec [OF halves(1) this, of pIn inMask c1 "modifier_table i"]
    have f: "ec_high (first i) = H OR push_bit 5 (word_of_nat i)"
      "\<forall>k<16. k \<notin> bit_index ` set (half_pixels flipped False) \<longrightarrow> same_offset 0 (ec_low (first i)) k"
      "ec_score (first i) = ?E1 i (ec_low (first i))" "\<forall>low. ec_score (first i) \<le> ?E1 i low"
      by (simp_all add: first_def helper_fold)
    have "clear_at (ec_low (first i)) (bit_index p)" if "p \<in> set (half_pixels flipped True)" for p
      using f(2) [rule_format, OF halves(3) [OF that] halves(4) [OF that]] by (simp add: same_offset_def clear_at_def)
    with f(1,3,4) show ?thesis by blast
  qed
  have fh: "fh \<in> insert c0 (first ` {0..<8})" "\<And>i. i < 8 \<Longrightarrow> ec_score fh \<le> ec_score (first i)"
    using take_best_foldl [of c0 "map first [0..<8]"] by (auto simp: fh_def)
  have "ec_score (first 0) \<le> 5202000"
    using F [of 0] half_error_bound(1) [of pIn inMask c1 "modifier_table 0" _ "half_pixels flipped False"] by (simp add: halves(2))
  with fh(2) [of 0] have "fh \<noteq> c0" by (auto simp: c0_def)
  with fh(1) obtain i where i: "i < 8" "fh = first i" by auto
  have S: "ec_high (second j) = H OR push_bit 5 (word_of_nat i) OR push_bit 2 (word_of_nat j) \<and>
      ec_score (second j) = ec_score fh + ?E2 j (ec_low (second j)) \<and> (\<forall>low. ec_score (second j) \<le> ec_score fh + ?E2 j low) \<and>
      ec_score fh = ?E1 i (ec_low (second j))" for j
  proof -
    let ?c = "fh\<lparr>ec_high := ec_high fh OR push_bit 2 (word_of_nat j)\<rparr>"
    have "\<forall>p \<in> set (half_pixels flipped True). bit_index p < 16 \<and> clear_at (ec_low ?c) (bit_index p)"
      using halves(3) F [of i] i(2) by auto
    from half_fold_spec [OF halves(1) this, of pIn inMask c2 "modifier_table j"]
    have s: "ec_high (second j) = ec_high fh OR push_bit 2 (word_of_nat j)"
      "\<forall>k<16. k \<notin> bit_index ` set (half_pixels flipped True) \<longrightarrow> same_offset (ec_low fh) (ec_low (second j)) k"
      "ec_score (second j) = ec_score fh + ?E2 j (ec_low (second j))" "\<forall>low. ec_score (second j) \<le> ec_score fh + ?E2 j low"
      by (simp_all add: second_def helper_fold)
    have "\<forall>p \<in> set (half_pixels flipped False). same_offset (ec_low fh) (ec_low (second j)) (bit_index p)"
    proof
      fix p assume p: "p \<in> set (half_pixels flipped False)"
      have notin: "bit_index p \<notin> bit_index ` set (half_pixels flipped True)"
      proof
        assume "bit_index p \<in> bit_index ` set (half_pixels flipped True)"
        then obtain q where q: "q \<in> set (half_pixels flipped True)" "bit_index p = bit_index q" by (rule imageE)
        from imageI [OF p, of bit_index] halves(4) [OF q(1)] show False unfolding q(2) by (rule notE [rotated])
      qed
      show "same_offset (ec_low fh) (ec_low (second j)) (bit_index p)" by (rule s(2) [rule_format, OF halves(3) [OF p] notin])
    qed
    from half_error_cong [OF this] F [of i] i(2) have "ec_score fh = ?E1 i (ec_low (second j))" by simp
    with s(1,3,4) F [of i] i(2) show ?thesis by (simp add: or.assoc)
  qed
  let ?r = "foldl take_best (second 0) (map second [1..<8])"
  have r: "?r \<in> second ` {0..<8}" "\<And>j. j < 8 \<Longrightarrow> ec_score ?r \<le> ec_score (second j)"
  proof -
    have eq: "set (second 0 # map second [1..<8]) = second ` {0..<8}"
      by (auto simp: image_iff) (metis One_nat_def atLeastLessThan_iff less_one not_le)
    note best = take_best_foldl [of "second 0" "map second [1..<8]", unfolded eq]
    from best show "?r \<in> second ` {0..<8}" by (rule conjunct1)
    fix j :: nat assume "j < 8"
    then have "second j \<in> second ` {0..<8}" by simp
    with best show "ec_score ?r \<le> ec_score (second j)" by blast
  qed
  then obtain j where j: "j < 8" "?r = second j" by auto
  have best: "ec_score ?r \<le> choice_error pIn inMask flipped cs i' j' low" if "i' < 8" "j' < 8" for i' j' low
  proof -
    have "ec_score ?r \<le> ec_score fh + ?E2 j' low" using r(2) [OF that(2)] S [of j'] by (meson order_trans)
    moreover have "ec_score fh \<le> ?E1 i' low" using fh(2) [OF that(1)] F [of i'] by (meson order_trans)
    ultimately show ?thesis by (simp add: choice_error_def cs)
  qed
  have "ec_score ?r = choice_error pIn inMask flipped cs i j (ec_low ?r)"
    using S [of j] unfolding j(2) by (simp add: choice_error_def cs)
  with S [of j] best i(1) j show ?thesis unfolding code H_def [symmetric] by (intro exI [of _ i] exI [of _ j] exI [of _ ?r] conjI) (auto simp: or.assoc)
qed

end
