(* ===== verification/Etc1_Fields.thy ===== *)
theory Etc1_Fields
  imports Etc1_Codec
begin

text \<open>
  The upper word of a block: the fields that the encoder puts there are the ones that the decoder reads.
\<close>

section \<open>The fields of the upper word\<close>

definition bits_below :: "nat \<Rightarrow> 32 word \<Rightarrow> bool" where
  "bits_below k w \<longleftrightarrow> (\<forall>n. bit w n \<longrightarrow> n < k)"

lemma bits_belowD: "bits_below k w \<Longrightarrow> k \<le> n \<Longrightarrow> \<not> bit w n"
  by (auto simp: bits_below_def)

lemma bits_below_nat:
  assumes "i < 2 ^ k"
  shows "bits_below k (word_of_nat i)"
proof -
  have "n < k" if "bit i n" for n
  proof (rule ccontr)
    assume "\<not> n < k"
    then have "(2 :: nat) ^ k \<le> 2 ^ n" by simp
    with assms have "i < 2 ^ n" by (rule less_le_trans)
    then have "i div 2 ^ n = 0" by (rule div_less)
    with that show False by (simp add: bit_iff_odd)
  qed
  then show ?thesis by (auto simp: bits_below_def bit_of_nat_iff)
qed

lemma word_masks: "(7 :: 32 word) = mask 3" "(15 :: 32 word) = mask 4" "(31 :: 32 word) = mask 5" "(2 :: 32 word) = push_bit 1 1"
  by (simp_all add: mask_eq_exp_minus_1 push_bit_eq_mult)

lemma field_above: "p + n \<le> q \<Longrightarrow> drop_bit p (push_bit q (a :: 32 word)) AND mask n = 0"
  by (rule bit_word_eqI) (auto simp: bit_simps)

lemma field_below:
  assumes "bits_below k a" "q + k \<le> p"
  shows "drop_bit p (push_bit q a) = 0"
proof (rule bit_word_eqI)
  fix n
  have "\<not> bit a (p + n - q)" by (rule bits_belowD [OF assms(1)]) (use assms(2) in simp)
  then show "bit (drop_bit p (push_bit q a)) n = bit 0 n" by (auto simp: bit_simps)
qed

lemma field_here: "bits_below n a \<Longrightarrow> p + n \<le> 32 \<Longrightarrow> drop_bit p (push_bit p a) AND mask n = a"
  by (rule bit_word_eqI) (auto simp: bit_simps bits_below_def)

lemmas field_rules = drop_bit_or bit.conj_disj_distrib2 field_above field_here

lemma field5:
  assumes "bits_below 5 a" "bits_below 3 b" "bits_below 5 c" "bits_below 3 d" "bits_below 5 e" "bits_below 3 f"
  defines "w \<equiv> push_bit 27 a OR push_bit 24 b OR push_bit 19 c OR push_bit 16 d OR push_bit 11 e OR push_bit 8 f OR push_bit 1 1"
  shows "drop_bit 27 w AND mask 5 = a" "drop_bit 24 w AND mask 3 = b" "drop_bit 19 w AND mask 5 = c" "drop_bit 16 w AND mask 3 = d"
    "drop_bit 11 w AND mask 5 = e" "drop_bit 8 w AND mask 3 = f"
proof -
  have one: "bits_below 1 1" by (auto simp: bits_below_def bit_1_iff)
  note below = assms(1-6) [THEN field_below] one [THEN field_below]
  show "drop_bit 27 w AND mask 5 = a" "drop_bit 24 w AND mask 3 = b" "drop_bit 19 w AND mask 5 = c" "drop_bit 16 w AND mask 3 = d"
    "drop_bit 11 w AND mask 5 = e" "drop_bit 8 w AND mask 3 = f"
    using assms(1-6) unfolding w_def by (simp_all add: field_rules below del: push_bit_of_1)
qed

lemma field4:
  assumes "bits_below 4 a" "bits_below 4 b" "bits_below 4 c" "bits_below 4 d" "bits_below 4 e" "bits_below 4 f"
  defines "w \<equiv> push_bit 28 a OR push_bit 24 b OR push_bit 20 c OR push_bit 16 d OR push_bit 12 e OR push_bit 8 f"
  shows "drop_bit 28 w AND mask 4 = a" "drop_bit 24 w AND mask 4 = b" "drop_bit 20 w AND mask 4 = c" "drop_bit 16 w AND mask 4 = d"
    "drop_bit 12 w AND mask 4 = e" "drop_bit 8 w AND mask 4 = f"
proof -
  note below = assms(1-6) [THEN field_below]
  show "drop_bit 28 w AND mask 4 = a" "drop_bit 24 w AND mask 4 = b" "drop_bit 20 w AND mask 4 = c" "drop_bit 16 w AND mask 4 = d"
    "drop_bit 12 w AND mask 4 = e" "drop_bit 8 w AND mask 4 = f"
    using assms(1-6) unfolding w_def by (simp_all add: field_rules below)
qed


section \<open>The decoder finds them\<close>

lemma convert5_masked: "convert5To8 (uint (w :: 32 word)) = convert5To8 (uint (w AND mask 5))"
  by (simp add: convert5To8_def unsigned_and_eq word_masks(3) [symmetric] and.assoc)

lemma convert4_masked: "convert4To8 (uint (w :: 32 word)) = convert4To8 (uint (w AND mask 4))"
  by (simp add: convert4To8_def unsigned_and_eq word_masks(2) [symmetric] and.assoc)

lemma convertDiff_masked: "convertDiff (uint (b :: 32 word)) (uint (d :: 32 word)) = convertDiff (uint (b AND mask 5)) (uint (d AND mask 3))"
  by (simp add: convertDiff_def unsigned_and_eq word_masks [symmetric] and.assoc and.left_commute and.commute)

lemma divideBy255_range:
  assumes "0 \<le> d" "d \<le> m" "divideBy255 m < k"
  shows "0 \<le> divideBy255 d \<and> divideBy255 d < k"
proof -
  have "d div 256 \<le> m div 256" using assms(2) by (rule zdiv_mono1) simp
  then have "(d + 128 + d div 256) div 256 \<le> (m + 128 + m div 256) div 256" using assms(2) by (intro zdiv_mono1) simp_all
  moreover have "0 \<le> d div 256" using assms(1) by simp
  then have "0 \<le> (d + 128 + d div 256) div 256" using assms(1) by simp
  ultimately show ?thesis using assms(3) by (simp add: divideBy255_def drop_bit_eq_div)
qed

lemma convert8_range: "0 \<le> convert8To5 (uint (x :: etc1_byte)) \<and> convert8To5 (uint x) < 32"
  "0 \<le> convert8To4 (uint x) \<and> convert8To4 (uint x) < 16"
proof -
  have x: "uint x AND 255 = uint x" proof -
    have "uint x AND mask 8 = uint x" using byte_uint [of x] by (simp only: byte_range_def take_bit_eq_mask [symmetric] take_bit_int_eq_self_iff) simp
    then show ?thesis by (simp add: mask_eq_exp_minus_1)
  qed
  show "0 \<le> convert8To5 (uint (x :: etc1_byte)) \<and> convert8To5 (uint x) < 32" "0 \<le> convert8To4 (uint x) \<and> convert8To4 (uint x) < 16"
    using byte_uint [of x] divideBy255_range [of "uint x * 31" 7905 32] divideBy255_range [of "uint x * 15" 3825 16]
    unfolding convert8To5_def convert8To4_def Let_def x byte_range_def by (simp_all add: divideBy255_def [of 7905] divideBy255_def [of 3825])
qed


lemma word_field:
  assumes "0 \<le> x" "x < 2 ^ k" "k < 32"
  shows "bits_below k (word_of_int x)" "uint (word_of_int x :: 32 word) = x"
proof -
  have "x < 2 ^ 32" using assms(2,3) power_strict_increasing [of k 32 "2 :: int"] by simp
  then show "uint (word_of_int x :: 32 word) = x" using assms(1) by (simp add: uint_word_of_int)
  have "nat x < 2 ^ k" using assms(1,2) by (simp add: nat_less_iff)
  from bits_below_nat [OF this] show "bits_below k (word_of_int x)" using assms(1) by simp
qed

lemma lookup_diff:
  assumes "inRange4bitSigned d"
  shows "kLookup ! nat (7 AND d) = d" "0 \<le> 7 AND d" "7 AND d < 8" "7 AND (7 AND d) = 7 AND d"
proof -
  have "d = -4 \<or> d = -3 \<or> d = -2 \<or> d = -1 \<or> d = 0 \<or> d = 1 \<or> d = 2 \<or> d = 3"
    using assms by (auto simp: inRange4bitSigned_def)
  then show "kLookup ! nat (7 AND d) = d" "0 \<le> 7 AND d" "7 AND d < 8" "7 AND (7 AND d) = 7 AND d"
    by (auto simp: kLookup_def)
qed

lemma and_31: "0 \<le> x \<Longrightarrow> x < 32 \<Longrightarrow> 31 AND x = (x :: int)"
proof -
  assume x: "0 \<le> x" "x < 32"
  then have "take_bit 5 x = x" by (simp add: take_bit_int_eq_self)
  then show ?thesis by (simp add: take_bit_eq_mask mask_eq_exp_minus_1 and.commute)
qed

lemma convertDiff_lookup:
  assumes "inRange4bitSigned d" "0 \<le> x" "x < 32"
  shows "convertDiff x (7 AND d) = convert5To8 (x + d)"
  using lookup_diff [OF assms(1)] and_31 [OF assms(2,3)] by (simp add: convertDiff_def)

definition same_fields :: "32 word \<Rightarrow> 32 word \<Rightarrow> bool" where
  "same_fields high colors \<longleftrightarrow> (\<forall>n\<ge>8. drop_bit n high = drop_bit n colors) \<and> high AND 2 = colors AND 2"

lemma decode_colors_cong:
  assumes "same_fields high colors"
  shows "decode_colors high = decode_colors colors"
proof -
  have d: "drop_bit n high = drop_bit n colors" if "8 \<le> n" for n using assms that by (simp add: same_fields_def)
  show ?thesis using assms by (simp add: decode_colors_def same_fields_def d)
qed

lemma decode_colors_encoded:
  assumes "etc_encodeBaseColors pColors = (cs, colors)"
  shows "decode_colors colors = cs" "\<forall>n<8. n \<noteq> 1 \<longrightarrow> \<not> bit colors n"
proof -
  define c5 where "c5 i = convert8To5 (uint (pColors ! i))" for i
  define c4 where "c4 i = convert8To4 (uint (pColors ! i))" for i
  have r5: "0 \<le> c5 i" "c5 i < 32" and r4: "0 \<le> c4 i" "c4 i < 16" for i
    using convert8_range by (simp_all add: c5_def c4_def)
  note w5 = word_field [OF r5(1), of _ 5, simplified, OF r5(2)] and w4 = word_field [OF r4(1), of _ 4, simplified, OF r4(2)]
  let ?d = "inRange4bitSigned (c5 3 - c5 0) \<and> inRange4bitSigned (c5 4 - c5 1) \<and> inRange4bitSigned (c5 5 - c5 2)"
  have "decode_colors colors = cs \<and> (\<forall>n<8. n \<noteq> 1 \<longrightarrow> \<not> bit colors n)"
  proof (cases ?d)
    case True
    have wd: "bits_below 3 (word_of_int (7 AND d))" "uint (word_of_int (7 AND d) :: 32 word) = 7 AND d" if "inRange4bitSigned d" for d
      using word_field [OF lookup_diff(2), of d 3] lookup_diff(3) [OF that] that by simp_all
    let ?w = "push_bit 27 (word_of_int (c5 0)) OR push_bit 24 (word_of_int (7 AND (c5 3 - c5 0))) OR push_bit 19 (word_of_int (c5 1)) OR
      push_bit 16 (word_of_int (7 AND (c5 4 - c5 1))) OR push_bit 11 (word_of_int (c5 2)) OR push_bit 8 (word_of_int (7 AND (c5 5 - c5 2))) OR push_bit 1 (1 :: 32 word)"
    have c: "colors = ?w" and cs: "cs = ((convert5To8 (c5 0), convert5To8 (c5 1), convert5To8 (c5 2)),
        (convert5To8 (c5 0 + (c5 3 - c5 0)), convert5To8 (c5 1 + (c5 4 - c5 1)), convert5To8 (c5 2 + (c5 5 - c5 2))))"
      using assms True unfolding etc_encodeBaseColors_def Let_def c5_def [symmetric] word_masks(4) by simp_all
    have bits: "bit colors 1" "\<forall>n<8. n \<noteq> 1 \<longrightarrow> \<not> bit colors n" unfolding c by (auto simp: bit_simps)
    have f: "drop_bit 27 colors AND mask 5 = word_of_int (c5 0)" "drop_bit 24 colors AND mask 3 = word_of_int (7 AND (c5 3 - c5 0))"
      "drop_bit 19 colors AND mask 5 = word_of_int (c5 1)" "drop_bit 16 colors AND mask 3 = word_of_int (7 AND (c5 4 - c5 1))"
      "drop_bit 11 colors AND mask 5 = word_of_int (c5 2)" "drop_bit 8 colors AND mask 3 = word_of_int (7 AND (c5 5 - c5 2))"
      unfolding c by (rule field5; use True w5(1) wd(1) in simp)+
    have "colors AND 2 \<noteq> 0"
    proof
      assume "colors AND 2 = 0"
      then have "bit (colors AND push_bit 1 1) 1 = bit (0 :: 32 word) 1" unfolding word_masks(4) by simp
      with bits(1) show False by (simp add: bit_simps)
    qed
    then have "decode_colors colors =
        ((convert5To8 (uint (drop_bit 27 colors AND mask 5)), convert5To8 (uint (drop_bit 19 colors AND mask 5)), convert5To8 (uint (drop_bit 11 colors AND mask 5))),
         (convertDiff (uint (drop_bit 27 colors AND mask 5)) (uint (drop_bit 24 colors AND mask 3)),
          convertDiff (uint (drop_bit 19 colors AND mask 5)) (uint (drop_bit 16 colors AND mask 3)),
          convertDiff (uint (drop_bit 11 colors AND mask 5)) (uint (drop_bit 8 colors AND mask 3))))"
      unfolding convert5_masked [symmetric] convertDiff_masked [symmetric] by (simp add: decode_colors_def Let_def)
    then show ?thesis
      unfolding f using bits(2) True by (simp add: cs w5(2) wd(2) convertDiff_lookup r5)
  next
    case False
    let ?w = "push_bit 28 (word_of_int (c4 0)) OR push_bit 24 (word_of_int (c4 3)) OR push_bit 20 (word_of_int (c4 1)) OR
      push_bit 16 (word_of_int (c4 4)) OR push_bit 12 (word_of_int (c4 2)) OR push_bit 8 (word_of_int (c4 5)) :: 32 word"
    have c: "colors = ?w" and cs: "cs = ((convert4To8 (c4 0), convert4To8 (c4 1), convert4To8 (c4 2)),
        (convert4To8 (c4 3), convert4To8 (c4 4), convert4To8 (c4 5)))"
      using assms False unfolding etc_encodeBaseColors_def Let_def c5_def [symmetric] c4_def [symmetric] by auto
    have bits: "\<not> bit colors 1" "\<forall>n<8. n \<noteq> 1 \<longrightarrow> \<not> bit colors n" unfolding c by (auto simp: bit_simps)
    have f: "drop_bit 28 colors AND mask 4 = word_of_int (c4 0)" "drop_bit 24 colors AND mask 4 = word_of_int (c4 3)"
      "drop_bit 20 colors AND mask 4 = word_of_int (c4 1)" "drop_bit 16 colors AND mask 4 = word_of_int (c4 4)"
      "drop_bit 12 colors AND mask 4 = word_of_int (c4 2)" "drop_bit 8 colors AND mask 4 = word_of_int (c4 5)"
      unfolding c by (rule field4; use w4(1) in simp)+
    have "colors AND 2 = 0"
      unfolding word_masks(4) by (rule bit_word_eqI) (use bits(1) in \<open>auto simp: bit_simps bit_1_iff\<close>)
    then have "decode_colors colors =
        ((convert4To8 (uint (drop_bit 28 colors AND mask 4)), convert4To8 (uint (drop_bit 20 colors AND mask 4)), convert4To8 (uint (drop_bit 12 colors AND mask 4))),
         (convert4To8 (uint (drop_bit 24 colors AND mask 4)), convert4To8 (uint (drop_bit 16 colors AND mask 4)), convert4To8 (uint (drop_bit 8 colors AND mask 4))))"
      unfolding convert4_masked [symmetric] by (simp add: decode_colors_def Let_def)
    then show ?thesis unfolding f using bits(2) by (simp add: cs w4(2))
  qed
  then show "decode_colors colors = cs" "\<forall>n<8. n \<noteq> 1 \<longrightarrow> \<not> bit colors n" by blast+
qed

end
