(* ===== verification/Etc1_Decode.thy ===== *)
theory Etc1_Decode
  imports Etc1_Best Etc1_Fields
begin

text \<open>
  The decoder on what the encoder of a block can write, and the theorem about the two together.
\<close>

section \<open>The upper word\<close>

definition block_high :: "bool \<Rightarrow> 32 word \<Rightarrow> nat \<Rightarrow> nat \<Rightarrow> 32 word" where
  "block_high flipped colors i j = ((if flipped then 1 else 0) OR colors) OR push_bit 5 (word_of_nat i) OR push_bit 2 (word_of_nat j)"

lemma block_high_bits:
  assumes "i < 8" "j < 8" "\<forall>n<8. n \<noteq> 1 \<longrightarrow> \<not> bit colors n"
  shows "block_high flipped colors i j AND 1 \<noteq> 0 \<longleftrightarrow> flipped"
    "7 AND drop_bit 5 (block_high flipped colors i j) = word_of_nat i"
    "7 AND drop_bit 2 (block_high flipped colors i j) = word_of_nat j"
    "same_fields (block_high flipped colors i j) colors"
proof -
  let ?w = "block_high flipped colors i j"
  have below: "bits_below 3 (word_of_nat i)" "bits_below 3 (word_of_nat j)" using bits_below_nat [of _ 3] assms(1,2) by simp_all
  have bits: "bit ?w n \<longleftrightarrow> n = 0 \<and> flipped \<or> bit colors n \<or> 5 \<le> n \<and> n < 32 \<and> bit (word_of_nat i :: 32 word) (n - 5) \<or>
      2 \<le> n \<and> n < 32 \<and> bit (word_of_nat j :: 32 word) (n - 2)" for n
    by (cases flipped) (auto simp: block_high_def bit_simps bit_1_iff)
  have i: "bit (word_of_nat i :: 32 word) n \<Longrightarrow> n < 3" and j: "bit (word_of_nat j :: 32 word) n \<Longrightarrow> n < 3" for n
    using below by (auto simp: bits_below_def)
  have c: "n < 8 \<Longrightarrow> n \<noteq> 1 \<Longrightarrow> \<not> bit colors n" for n using assms(3) by blast
  have "?w AND 1 = of_bool (bit ?w 0)" by (simp add: and_one_eq bit_0 of_bool_odd_eq_mod_2)
  moreover have "bit ?w 0 \<longleftrightarrow> flipped" using bits [of 0] c [of 0] by simp
  ultimately show "?w AND 1 \<noteq> 0 \<longleftrightarrow> flipped" by simp
  show "7 AND drop_bit 5 ?w = word_of_nat i"
    unfolding word_masks(1)
  proof (rule bit_word_eqI)
    fix n assume "n < LENGTH(32)"
    have "bit (mask 3 AND drop_bit 5 ?w) n \<longleftrightarrow> n < 3 \<and> bit ?w (5 + n)" by (auto simp: bit_simps)
    also have "\<dots> \<longleftrightarrow> bit (word_of_nat i :: 32 word) n" using bits [of "5 + n"] c [of "5 + n"] i [of n] j [of "3 + n"] by auto
    finally show "bit (mask 3 AND drop_bit 5 ?w) n = bit (word_of_nat i :: 32 word) n" .
  qed
  show "7 AND drop_bit 2 ?w = word_of_nat j"
    unfolding word_masks(1)
  proof (rule bit_word_eqI)
    fix n assume "n < LENGTH(32)"
    have "bit (mask 3 AND drop_bit 2 ?w) n \<longleftrightarrow> n < 3 \<and> bit ?w (2 + n)" by (auto simp: bit_simps)
    also have "\<dots> \<longleftrightarrow> bit (word_of_nat j :: 32 word) n" using bits [of "2 + n"] c [of "2 + n"] j [of n] by auto
    finally show "bit (mask 3 AND drop_bit 2 ?w) n = bit (word_of_nat j :: 32 word) n" .
  qed
  have "drop_bit n ?w = drop_bit n colors" if n: "8 \<le> n" for n
  proof (rule bit_word_eqI)
    fix m
    show "bit (drop_bit n ?w) m = bit (drop_bit n colors) m"
      using bits [of "n + m"] i [of "n + m - 5"] j [of "n + m - 2"] n by (auto simp: bit_drop_bit_eq)
  qed
  moreover have "?w AND 2 = colors AND 2"
    unfolding word_masks(4)
  proof (rule bit_word_eqI)
    fix n
    show "bit (?w AND push_bit 1 1) n = bit (colors AND push_bit 1 1) n"
      using bits [of 1] by (cases "n = 1") (auto simp: bit_simps bit_1_iff)
  qed
  ultimately show "same_fields ?w colors" by (simp add: same_fields_def)
qed

section \<open>The decoded pixels\<close>

definition out_at :: "etc1_byte list \<Rightarrow> nat \<Rightarrow> etc1_byte \<times> etc1_byte \<times> etc1_byte" where
  "out_at out k = (out ! (3 * k), out ! (3 * k + 1), out ! (3 * k + 2))"

lemma put_pixel_length [simp]: "length (put_pixel k c out) = length out"
  by (cases c) (simp add: put_pixel_def)

lemma out_at_put_pixel:
  assumes "length out = 48" "k < 16"
  shows "out_at (put_pixel k c out) k' = (if k' = k then c else out_at out k')"
proof -
  obtain r g b where c: "c = (r, g, b)" by (cases c)
  have "3 * k' + x = 3 * k + y \<longleftrightarrow> k' = k \<and> x = y" if "x < 3" "y < 3" for x y using that by presburger
  from this [of 0 0] this [of 0 1] this [of 0 2] this [of 1 0] this [of 1 1] this [of 1 2] this [of 2 0] this [of 2 1] this [of 2 2]
  show ?thesis using assms by (simp add: c put_pixel_def out_at_def nth_list_update)
qed

lemma fold_put_pixel:
  assumes "distinct (map k xs)" "\<forall>i \<in> set xs. k i < 16" "length out = 48"
  shows "length (fold (\<lambda>i. put_pixel (k i) (c i)) xs out) = 48 \<and>
    (\<forall>i \<in> set xs. out_at (fold (\<lambda>i. put_pixel (k i) (c i)) xs out) (k i) = c i) \<and>
    (\<forall>m. m \<notin> k ` set xs \<longrightarrow> out_at (fold (\<lambda>i. put_pixel (k i) (c i)) xs out) m = out_at out m)"
  using assms
proof (induction xs arbitrary: out)
  case (Cons i xs)
  let ?out = "put_pixel (k i) (c i) out"
  have p: "out_at ?out m = (if m = k i then c i else out_at out m)" for m using Cons.prems by (intro out_at_put_pixel) auto
  from Cons.IH [of ?out] Cons.prems have IH:
    "length (fold (\<lambda>i. put_pixel (k i) (c i)) xs ?out) = 48"
    "\<forall>i \<in> set xs. out_at (fold (\<lambda>i. put_pixel (k i) (c i)) xs ?out) (k i) = c i"
    "\<forall>m. m \<notin> k ` set xs \<longrightarrow> out_at (fold (\<lambda>i. put_pixel (k i) (c i)) xs ?out) m = out_at ?out m" by simp_all
  have "k i \<notin> k ` set xs" using Cons.prems(1) by simp
  then have "out_at (fold (\<lambda>i. put_pixel (k i) (c i)) xs ?out) (k i) = c i" using IH(3) p by simp
  with IH p show ?case by simp
qed simp

abbreviation byte_index :: "nat \<times> nat \<Rightarrow> nat" where
  "byte_index p \<equiv> fst p + 4 * snd p"

lemma decode_positions:
  "distinct (map byte_index (map (decode_pos s f) [0..<8]))" "set (map (decode_pos s f) [0..<8]) = set (half_pixels f s)"
  "p \<in> set (half_pixels f s) \<Longrightarrow> byte_index p < 16"
  "p \<in> set (half_pixels f (\<not> s)) \<Longrightarrow> byte_index p \<notin> byte_index ` set (half_pixels f s)"
  by (cases f; cases s; simp add: half_pixels_lists decode_pos_def upt_rec [of _ 8]; fastforce)+

lemma decode_subblock_pixels:
  fixes c :: "int \<times> int \<times> int"
  assumes "length out = 48" and res_def: "res = decode_subblock c table low s f out"
  shows "length res = 48"
    "p \<in> set (half_pixels f s) \<Longrightarrow> out_at res (byte_index p) = decoded_pixel c (table ! pixel_offset low (bit_index p))"
    "p \<in> set (half_pixels f (\<not> s)) \<Longrightarrow> out_at res (byte_index p) = out_at out (byte_index p)"
proof -
  let ?k = "\<lambda>i. byte_index (decode_pos s f i)" and ?c = "\<lambda>i. decoded_pixel c (table ! pixel_offset low (bit_index (decode_pos s f i)))"
  have res: "res = fold (\<lambda>i. put_pixel (?k i) (?c i)) [0..<8] out"
    by (simp add: res_def decode_subblock_def case_prod_beta Let_def)
  have img: "?k ` set [0..<8] = byte_index ` set (half_pixels f s)"
    by (simp only: decode_positions(2) [of s f, symmetric] set_map image_image)
  have k: "\<forall>i \<in> set [0..<8]. ?k i < 16"
  proof
    fix i :: nat assume "i \<in> set [0..<8]"
    then have "decode_pos s f i \<in> set (map (decode_pos s f) [0..<8])" unfolding set_map by (rule imageI)
    then show "?k i < 16" unfolding decode_positions(2) by (rule decode_positions(3))
  qed
  have "distinct (map ?k [0..<8])" using decode_positions(1) [of s f] by (simp only: map_map comp_def)
  from fold_put_pixel [OF this k assms(1), of ?c] have all: "length res = 48" "\<forall>i \<in> set [0..<8]. out_at res (?k i) = ?c i"
    "\<forall>m. m \<notin> byte_index ` set (half_pixels f s) \<longrightarrow> out_at res m = out_at out m" unfolding res img by blast+
  show "length res = 48" by (rule all(1))
  show "out_at res (byte_index p) = decoded_pixel c (table ! pixel_offset low (bit_index p))" if "p \<in> set (half_pixels f s)"
  proof -
    from that obtain i where "i \<in> set [0..<8]" "p = decode_pos s f i" unfolding decode_positions(2) [of s f, symmetric] by auto
    with all(2) show ?thesis by blast
  qed
  show "out_at res (byte_index p) = out_at out (byte_index p)" if "p \<in> set (half_pixels f (\<not> s))"
    using all(3) decode_positions(4) [OF that] by blast
qed

section \<open>Both together\<close>

definition block_error :: "etc1_byte list \<Rightarrow> 32 word \<Rightarrow> etc1_byte list \<Rightarrow> int" where
  "block_error pIn inMask out =
     sum_list (map (\<lambda>p. pixel_error (pixel_at pIn p) (out_at out (byte_index p))) (filter (in_mask inMask) grid))"

lemma sum_list_halves:
  fixes g :: "nat \<times> nat \<Rightarrow> int"
  shows "sum_list (map g (filter P grid)) = sum_list (map g (filter P (half_pixels f False))) + sum_list (map g (filter P (half_pixels f True)))"
proof -
  have "sum_list (map g (filter P grid)) = sum g (set (filter P grid))"
    by (rule sum_list_distinct_conv_sum_set) (rule distinct_filter [OF halves(6)])
  also have "set (filter P grid) = set (filter P (half_pixels f False @ half_pixels f True))" using halves(5) [of f] by auto
  also have "sum g \<dots> = sum_list (map g (filter P (half_pixels f False @ half_pixels f True)))"
    by (rule sum_list_distinct_conv_sum_set [symmetric]) (rule distinct_filter [OF halves(7)])
  finally show ?thesis by simp
qed

lemma decode_words_error:
  assumes "etc_encodeBaseColors pColors = (cs, colors)" "i < 8" "j < 8" "length out = 48"
  shows "block_error pIn inMask (decode_words (block_high f colors i j) low out) = choice_error pIn inMask f cs i j low"
proof -
  let ?h = "block_high f colors i j"
  note d = decode_colors_encoded [OF assms(1)]
  note h = block_high_bits [OF assms(2,3) d(2), of f]
  have cs: "decode_colors ?h = (fst cs, snd cs)" using decode_colors_cong [OF h(4)] d(1) by simp
  have n: "unat (word_of_nat n :: 32 word) = n" if "n < 8" for n using that by (simp add: unat_of_nat)
  define r1 where "r1 = decode_subblock (fst cs) (modifier_table i) low False f out"
  define r2 where "r2 = decode_subblock (snd cs) (modifier_table j) low True f r1"
  have res: "decode_words ?h low out = r2"
    using cs h(1-3) n assms(2,3) by (simp add: decode_words_def r1_def r2_def case_prod_beta)
  note p1 = decode_subblock_pixels [OF assms(4) r1_def]
  note p2 = decode_subblock_pixels [OF p1(1) r2_def]
  have "out_at r2 (byte_index p) = decoded_pixel (fst cs) (modifier_table i ! pixel_offset low (bit_index p))" if "p \<in> set (half_pixels f False)" for p
    using p1(2) [OF that] p2(3) [of p] that by simp
  then have "sum_list (map (\<lambda>p. pixel_error (pixel_at pIn p) (out_at r2 (byte_index p))) (filter (in_mask inMask) (half_pixels f False))) =
      half_error pIn inMask (fst cs) (modifier_table i) low (half_pixels f False)"
    unfolding half_error_def by (intro arg_cong [where f = sum_list] map_cong refl) auto
  moreover have "sum_list (map (\<lambda>p. pixel_error (pixel_at pIn p) (out_at r2 (byte_index p))) (filter (in_mask inMask) (half_pixels f True))) =
      half_error pIn inMask (snd cs) (modifier_table j) low (half_pixels f True)"
    unfolding half_error_def using p2(2) by (intro arg_cong [where f = sum_list] map_cong refl) auto
  ultimately show ?thesis unfolding res block_error_def choice_error_def sum_list_halves [where f = f] by simp
qed

lemma byte_of_word: "ucast (ucast (drop_bit k w) :: etc1_byte) = drop_bit k w AND (mask 8 :: 32 word)"
  by (rule bit_word_eqI) (auto simp: bit_simps)

lemma bit_byte_in_word:
  "k + 8 \<le> 32 \<Longrightarrow> bit (push_bit k (drop_bit k w AND (mask 8 :: 32 word))) n \<longleftrightarrow> k \<le> n \<and> n < k + 8 \<and> bit w n"
  by (auto simp: bit_simps dest: bit_imp_le_length)

lemma readBigEndian_write [simp]: "readBigEndian (writeBigEndian d @ rest) = d"
proof (rule bit_word_eqI)
  fix n assume "n < LENGTH(32)"
  then have n: "n < 8 \<or> 8 \<le> n \<and> n < 16 \<or> 16 \<le> n \<and> n < 24 \<or> 24 \<le> n \<and> n < 32" by auto
  have "readBigEndian (writeBigEndian d @ rest) =
      push_bit 24 (drop_bit 24 d AND mask 8) OR push_bit 16 (drop_bit 16 d AND mask 8) OR push_bit 8 (drop_bit 8 d AND mask 8) OR
      push_bit 0 (drop_bit 0 d AND mask 8)"
    unfolding readBigEndian_def writeBigEndian_def byte_of_word [symmetric] by simp
  then show "bit (readBigEndian (writeBigEndian d @ rest)) n = bit d n"
    using n unfolding bit_or_iff bit_byte_in_word by (simp only: bit_or_iff bit_byte_in_word) auto
qed

lemma writeBigEndian_length [simp]: "length (writeBigEndian d) = 4"
  by (simp add: writeBigEndian_def)

lemma decode_block_words [simp]: "etc1_decode_block (writeBigEndian h @ writeBigEndian l) out = decode_words h l out"
  using readBigEndian_write [of l "[]"] by (simp add: etc1_decode_block_def)

definition average_colors :: "etc1_byte list \<Rightarrow> 32 word \<Rightarrow> bool \<Rightarrow> etc1_byte list" where
  "average_colors pIn inMask flipped =
     etc_average_colors_subblock pIn inMask flipped False @ etc_average_colors_subblock pIn inMask flipped True"

text \<open>Everything that the encoder could have written with the base colours of one of the two directions: any
  tables for the halves and any modifiers for the pixels.\<close>

definition candidate :: "etc1_byte list \<Rightarrow> 32 word \<Rightarrow> bool \<Rightarrow> nat \<Rightarrow> nat \<Rightarrow> 32 word \<Rightarrow> etc1_byte list" where
  "candidate pIn inMask flipped i j low =
     writeBigEndian (block_high flipped (snd (etc_encodeBaseColors (average_colors pIn inMask flipped))) i j) @ writeBigEndian low"

definition directed :: "etc1_byte list \<Rightarrow> 32 word \<Rightarrow> bool \<Rightarrow> etc_compressed" where
  "directed pIn inMask f = etc_encode_block_helper pIn inMask (average_colors pIn inMask f) f"

lemma helper_optimal:
  assumes "length out = 48" "length out' = 48"
  shows "block_error pIn inMask (decode_words (ec_high (directed pIn inMask f)) (ec_low (directed pIn inMask f)) out) = ec_score (directed pIn inMask f)"
    "i < 8 \<Longrightarrow> j < 8 \<Longrightarrow> ec_score (directed pIn inMask f) \<le> block_error pIn inMask (etc1_decode_block (candidate pIn inMask f i j low) out')"
proof -
  let ?c = "directed pIn inMask f"
  obtain cs colors where e: "etc_encodeBaseColors (average_colors pIn inMask f) = (cs, colors)" by (metis surj_pair)
  from helper_spec [OF e, of pIn inMask f] obtain i0 j0 where
    h: "i0 < 8" "j0 < 8" "ec_high ?c = block_high f colors i0 j0" "ec_score ?c = choice_error pIn inMask f cs i0 j0 (ec_low ?c)"
      "\<forall>i'<8. \<forall>j'<8. \<forall>low. ec_score ?c \<le> choice_error pIn inMask f cs i' j' low"
    unfolding directed_def block_high_def by blast
  show "block_error pIn inMask (decode_words (ec_high ?c) (ec_low ?c) out) = ec_score ?c"
    using decode_words_error [OF e h(1,2) assms(1)] h(3,4) by simp
  show "ec_score ?c \<le> block_error pIn inMask (etc1_decode_block (candidate pIn inMask f i j low) out')" if "i < 8" "j < 8"
    using decode_words_error [OF e that assms(2)] h(5) that e by (simp add: candidate_def)
qed

text \<open>C30: 
  What the decoder makes of an encoded block has exactly the error that the encoder has computed, and no block with
  the same base colours in one of the two directions decodes to something closer to the picture: neither the early exits
  of the search nor the choice of the tables one after the other lose anything.
\<close>

theorem etc1_encode_optimal:
  assumes "length pIn = 48" "length out = 48" "length out' = 48" "i < 8" "j < 8"
  shows "block_error pIn inMask (etc1_decode_block (etc1_encode_block pIn inMask) out) = ec_score (encode_words pIn inMask) \<and>
    block_error pIn inMask (etc1_decode_block (etc1_encode_block pIn inMask) out) \<le>
    block_error pIn inMask (etc1_decode_block (candidate pIn inMask flipped i j low) out')"
proof -
  let ?c = "directed pIn inMask"
  let ?w = "encode_words pIn inMask"
  have w: "?w = take_best (?c False) (?c True)" by (simp add: encode_words_def directed_def average_colors_def)
  then have "\<exists>f. ?w = ?c f" by (metis take_best_def)
  then have "block_error pIn inMask (decode_words (ec_high ?w) (ec_low ?w) out) = ec_score ?w" using helper_optimal(1) [OF assms(2,3)] by metis
  moreover have "ec_score ?w \<le> ec_score (?c flipped)" unfolding w by (cases flipped) (auto simp: take_best_def)
  moreover have "ec_score (?c flipped) \<le> block_error pIn inMask (etc1_decode_block (candidate pIn inMask flipped i j low) out')"
    by (rule helper_optimal(2) [OF assms(2-5)])
  ultimately show ?thesis by (simp add: etc1_encode_block_def Let_def)
qed

lemma etc1_encode_optimal_witness:
  "block_error (map word_of_nat [0..<48]) 0x0FFF (etc1_decode_block (etc1_encode_block (map word_of_nat [0..<48]) 0x0FFF) (replicate 48 0)) \<le>
   block_error (map word_of_nat [0..<48]) 0x0FFF (etc1_decode_block (candidate (map word_of_nat [0..<48]) 0x0FFF True 2 7 0xFFFF1234) (replicate 48 1))"
  using etc1_encode_optimal [of "map word_of_nat [0..<48]" "replicate 48 0" "replicate 48 1" 2 7 "0x0FFF" True "0xFFFF1234"] by simp

end
