(* ===== verification/Etc1_Image.thy ===== *)
theory Etc1_Image
  imports Etc1_Decode
begin

text \<open>
  Whole pictures and the headers of their files: the loops of \<open>etc1_encode_image\<close> and \<open>etc1_decode_image\<close> over the
  blocks, with the masks at the edges, and the header of a \<open>PKM\<close> file. Memory is the list of its bytes from the pointer
  on; an access behind its end is a fault. Widths, heights and strides are 32-bit words that wrap around.
\<close>

section \<open>Sizes\<close>

definition round4 :: "32 word \<Rightarrow> 32 word" where
  "round4 n = (n + 3) AND NOT 3"

definition etc1_get_encoded_data_size :: "32 word \<Rightarrow> 32 word \<Rightarrow> 32 word" where
  "etc1_get_encoded_data_size width height = drop_bit 1 (round4 width * round4 height)"

section \<open>The header\<close>









lemma and_not_mask_2: "(x :: 32 word) AND NOT (mask 2) = push_bit 2 (drop_bit 2 x)"
proof (rule bit_word_eqI)
  fix k assume "k < LENGTH(32)"
  show "bit (x AND NOT (mask 2)) k = bit (push_bit 2 (drop_bit 2 x)) k"
  proof (cases "k < 2")
    case False
    then obtain j where "k = 2 + j" using le_Suc_ex [of 2 k] by auto
    with \<open>k < LENGTH(32)\<close> show ?thesis by (auto simp: bit_simps)
  qed (auto simp: bit_simps)
qed

lemma unat_bound: "unat (x :: 32 word) < 2 ^ 32"
  using unsigned_less [of x] by simp

lemma unat_push_drop: "unat (push_bit 2 (drop_bit 2 (x :: 32 word))) = unat x div 4 * 4"
proof -
  have "unat x div 4 * 4 < 2 ^ 32"
    using div_times_less_eq_dividend [of "unat x" 4] unat_bound [of x] by (rule le_less_trans)
  then show ?thesis by (simp add: push_bit_eq_mult unat_word_ariths unat_drop_bit_eq drop_bit_eq_div mult.commute)
qed









section \<open>Pictures\<close>

definition kYMask :: "32 word list" where "kYMask = [0x0, 0xf, 0xff, 0xfff, 0xffff]"
definition kXMask :: "32 word list" where "kXMask = [0x0, 0x1111, 0x3333, 0x7777, 0xffff]"

text \<open>The corners of the blocks, in the order of the loops: the rounded sizes are multiples of 4, so the counters do not
  wrap around.\<close>

definition corners :: "32 word \<Rightarrow> 32 word list" where
  "corners encoded = map (\<lambda>i. word_of_nat (4 * i)) [0..<unat encoded div 4]"

definition block_corners :: "32 word \<Rightarrow> 32 word \<Rightarrow> (32 word \<times> 32 word) list" where
  "block_corners width height = [(x, y). y \<leftarrow> corners (round4 height), x \<leftarrow> corners (round4 width)]"

definition block_end :: "32 word \<Rightarrow> 32 word \<Rightarrow> nat" where
  "block_end extent c = (let e = extent - c in if e > 4 then 4 else unat e)"

text \<open>Each product has 32 bits, and the pointer takes their sum.\<close>

definition pixel_address :: "32 word \<Rightarrow> 32 word \<Rightarrow> 32 word \<Rightarrow> 32 word \<Rightarrow> nat \<Rightarrow> nat" where
  "pixel_address pixelSize stride x y cy = unat (pixelSize * x) + unat (stride * (y + word_of_nat cy))"

definition read_bytes :: "nat \<Rightarrow> nat \<Rightarrow> etc1_byte list \<Rightarrow> fault + etc1_byte list" where
  "read_bytes off n mem = (if off + n \<le> length mem then Inr (take n (drop off mem)) else Inl Uninitialised)"

definition copy_to :: "nat \<Rightarrow> etc1_byte list \<Rightarrow> etc1_byte list \<Rightarrow> fault + etc1_byte list" where
  "copy_to off bs mem =
     (if off + length bs \<le> length mem then Inr (take off mem @ bs @ drop (off + length bs) mem) else Inl BufferOverflow)"

fun unpack565 :: "etc1_byte list \<Rightarrow> etc1_byte list" where
  "unpack565 (p0 # p1 # p) =
     (let pixel = push_bit 8 (uint p1) OR uint p0
      in word_of_int (convert5To8 (drop_bit 11 pixel)) # word_of_int (convert6To8 (drop_bit 5 pixel)) # word_of_int (convert5To8 pixel) #
         unpack565 p)"
| "unpack565 p = []"

fun pack565 :: "etc1_byte list \<Rightarrow> etc1_byte list" where
  "pack565 (r # g # b # q) =
     (let pixel = push_bit 11 (ucast (drop_bit 3 r)) OR push_bit 5 (ucast (drop_bit 2 g)) OR (ucast (drop_bit 3 b) :: 32 word)
      in ucast pixel # ucast (drop_bit 8 pixel) # pack565 q)"
| "pack565 q = []"

text \<open>A row of a block to and from the picture.\<close>

definition load_row :: "etc1_byte list \<Rightarrow> 32 word \<Rightarrow> 32 word \<Rightarrow> 32 word \<Rightarrow> 32 word \<Rightarrow> nat \<Rightarrow> nat \<Rightarrow> etc1_byte list \<Rightarrow> fault + etc1_byte list" where
  "load_row pIn pixelSize stride x y xEnd cy block =
     (let p = pixel_address pixelSize stride x y cy
      in bindE (if pixelSize = 3 then read_bytes p (xEnd * 3) pIn else map_sum id unpack565 (read_bytes p (xEnd * 2) pIn)) (\<lambda>row.
           Inr (take (12 * cy) block @ row @ drop (12 * cy + length row) block)))"

definition store_row :: "32 word \<Rightarrow> 32 word \<Rightarrow> 32 word \<Rightarrow> 32 word \<Rightarrow> nat \<Rightarrow> etc1_byte list \<Rightarrow> nat \<Rightarrow> etc1_byte list \<Rightarrow> fault + etc1_byte list" where
  "store_row pixelSize stride x y xEnd block cy pOut =
     (let row = take (3 * xEnd) (drop (12 * cy) block)
      in copy_to (pixel_address pixelSize stride x y cy) (if pixelSize = 3 then row else pack565 row) pOut)"

fun rows :: "(nat \<Rightarrow> 's \<Rightarrow> fault + 's) \<Rightarrow> nat list \<Rightarrow> 's \<Rightarrow> fault + 's" where
  "rows f [] s = Inr s"
| "rows f (cy # cys) s = bindE (f cy s) (rows f cys)"

text \<open>The block keeps what it held of the block before; the mask leaves those pixels out.\<close>

fun encode_blocks ::
  "etc1_byte list \<Rightarrow> 32 word \<Rightarrow> 32 word \<Rightarrow> 32 word \<Rightarrow> 32 word \<Rightarrow> etc1_byte list \<Rightarrow> (32 word \<times> 32 word) list \<Rightarrow> fault + etc1_byte list" where
  "encode_blocks pIn width height pixelSize stride block [] = Inr []"
| "encode_blocks pIn width height pixelSize stride block ((x, y) # cs) =
     (let xEnd = block_end width x; yEnd = block_end height y; inMask = kYMask ! yEnd AND kXMask ! xEnd
      in bindE (rows (load_row pIn pixelSize stride x y xEnd) [0..<yEnd] block) (\<lambda>block.
         bindE (encode_blocks pIn width height pixelSize stride block cs) (\<lambda>out. Inr (etc1_encode_block block inMask @ out))))"

definition etc1_encode_image ::
  "etc1_byte list \<Rightarrow> 32 word \<Rightarrow> 32 word \<Rightarrow> 32 word \<Rightarrow> 32 word \<Rightarrow> etc1_byte list \<Rightarrow> fault + int \<times> etc1_byte list" where
  "etc1_encode_image pIn width height pixelSize stride block =
     (if pixelSize < 2 \<or> pixelSize > 3 then Inr (- 1, [])
      else bindE (encode_blocks pIn width height pixelSize stride block (block_corners width height)) (\<lambda>out. Inr (0, out)))"

fun decode_blocks ::
  "etc1_byte list \<Rightarrow> 32 word \<Rightarrow> 32 word \<Rightarrow> 32 word \<Rightarrow> 32 word \<Rightarrow> etc1_byte list \<Rightarrow> (32 word \<times> 32 word) list \<Rightarrow> etc1_byte list \<Rightarrow>
   fault + etc1_byte list" where
  "decode_blocks pIn width height pixelSize stride block [] pOut = Inr pOut"
| "decode_blocks pIn width height pixelSize stride block ((x, y) # cs) pOut =
     (let xEnd = block_end width x; yEnd = block_end height y
      in bindE (read_bytes 0 8 pIn) (\<lambda>encoded.
           let block = etc1_decode_block encoded block
           in bindE (rows (store_row pixelSize stride x y xEnd block) [0..<yEnd] pOut)
                (decode_blocks (drop 8 pIn) width height pixelSize stride block cs)))"

definition etc1_decode_image ::
  "etc1_byte list \<Rightarrow> etc1_byte list \<Rightarrow> 32 word \<Rightarrow> 32 word \<Rightarrow> 32 word \<Rightarrow> 32 word \<Rightarrow> etc1_byte list \<Rightarrow> fault + int \<times> etc1_byte list" where
  "etc1_decode_image pIn pOut width height pixelSize stride block =
     (if pixelSize < 2 \<or> pixelSize > 3 then Inr (- 1, pOut)
      else bindE (decode_blocks pIn width height pixelSize stride block (block_corners width height) pOut) (\<lambda>out. Inr (0, out)))"

section \<open>What they write and read\<close>

lemma length_encode_block [simp]: "length (etc1_encode_block p m) = 8"
  by (simp add: etc1_encode_block_def Let_def)

lemma length_encode_blocks:
  "encode_blocks pIn width height pixelSize stride block cs = Inr out \<Longrightarrow> length out = 8 * length cs"
  by (induction cs arbitrary: block out) (auto simp: Let_def bindE_eq_Inr)

lemma length_block_corners: "length (block_corners w h) = unat (round4 w) div 4 * (unat (round4 h) div 4)"
  by (simp add: block_corners_def corners_def length_concat comp_def sum_list_triv)

lemma round4_dvd: "4 dvd unat (round4 n)"
proof -
  have "round4 n = push_bit 2 (drop_bit 2 (n + 3))"
    using and_not_mask_2 [of "n + 3"] by (simp add: round4_def mask_eq_exp_minus_1)
  then show ?thesis by (simp add: unat_push_drop)
qed

text \<open>An encoded picture has the size that the library tells its callers, as long as the number of pixels of the
  rounded picture fits 32 bits; \<open>etc1_get_encoded_data_size\<close> wraps around where the encoder does not.\<close>

lemma encoded_image_size:
  assumes "etc1_encode_image pIn width height pixelSize stride block = Inr (0, out)"
  shows "length out = unat (round4 width) * unat (round4 height) div 2"
    "unat (round4 width) * unat (round4 height) < 2 ^ 32 \<Longrightarrow> length out = unat (etc1_get_encoded_data_size width height)"
proof -
  from assms have "encode_blocks pIn width height pixelSize stride block (block_corners width height) = Inr out"
    by (auto simp: etc1_encode_image_def bindE_eq_Inr split: if_splits)
  from length_encode_blocks [OF this] have "length out = 8 * (unat (round4 width) div 4 * (unat (round4 height) div 4))"
    by (simp only: length_block_corners)
  moreover obtain a b where "unat (round4 width) = 4 * a" "unat (round4 height) = 4 * b" using round4_dvd [of width] round4_dvd [of height] by (elim dvdE)
  ultimately show l: "length out = unat (round4 width) * unat (round4 height) div 2" by simp
  assume "unat (round4 width) * unat (round4 height) < 2 ^ 32"
  then have "unat (round4 width * round4 height) = unat (round4 width) * unat (round4 height)" by (simp add: unat_word_ariths)
  then show "length out = unat (etc1_get_encoded_data_size width height)"
    unfolding etc1_get_encoded_data_size_def unat_drop_bit_eq using l by (simp add: drop_bit_eq_div [where 'a = nat])
qed

lemma encoded_data_size_wraps: "etc1_get_encoded_data_size 0x10000 0x10000 = 0"
  by (simp add: etc1_get_encoded_data_size_def round4_def)

section \<open>What is left in the block\<close>

lemma half_in_grid: "p \<in> set (half_pixels f s) \<Longrightarrow> p \<in> set grid"
  using halves(5) [of f] by (cases s) auto

text \<open>The encoder only looks at the pixels of the mask.\<close>

definition same_pixels :: "32 word \<Rightarrow> etc1_byte list \<Rightarrow> etc1_byte list \<Rightarrow> bool" where
  "same_pixels inMask a b \<longleftrightarrow> (\<forall>p \<in> set grid. in_mask inMask p \<longrightarrow> pixel_at a p = pixel_at b p)"

lemma encode_block_masked:
  assumes "same_pixels inMask a b"
  shows "etc1_encode_block a inMask = etc1_encode_block b inMask"
proof -
  have px: "pixel_at a p = pixel_at b p" if "p \<in> set (half_pixels f s)" "in_mask inMask p" for p f s
    using assms that half_in_grid by (auto simp: same_pixels_def)
  have "fold (\<lambda>p r. if in_mask inMask p then r + channel a p ch else r) (half_pixels f s) 0 =
      fold (\<lambda>p r. if in_mask inMask p then r + channel b p ch else r) (half_pixels f s) (0 :: int)" if "ch \<in> {0, 1, 2}" for f s ch
    by (rule fold_cong) (use px that in \<open>auto simp: pixel_at_def fun_eq_iff\<close>)
  then have avg: "etc_average_colors_subblock a inMask f s = etc_average_colors_subblock b inMask f s" for f s
    by (simp add: etc_average_colors_subblock_def Let_def)
  have "etc_encode_subblock_helper a inMask f s base table c = etc_encode_subblock_helper b inMask f s base table c" for f s base table c
    unfolding helper_fold by (rule fold_cong) (use px in \<open>auto simp: half_step_def fun_eq_iff\<close>)
  then have "etc_encode_block_helper a inMask colors f = etc_encode_block_helper b inMask colors f" for colors f
    by (simp add: etc_encode_block_helper_def)
  then show ?thesis by (simp add: etc1_encode_block_def encode_words_def avg)
qed

lemma y_mask_bits: "list_all (\<lambda>yEnd. list_all (\<lambda>k. bit (kYMask ! yEnd) k \<longrightarrow> k div 4 < yEnd) [0..<16]) [0..<5]"
  by (simp add: upt_rec [of _ 5] upt_rec [of _ 16] kYMask_def)

lemma x_mask_bits: "list_all (\<lambda>xEnd. list_all (\<lambda>k. bit (kXMask ! xEnd) k \<longrightarrow> k mod 4 < xEnd) [0..<16]) [0..<5]"
  by (simp add: upt_rec [of _ 5] upt_rec [of _ 16] kXMask_def)

lemma in_mask_bit: "in_mask inMask p \<Longrightarrow> bit inMask (fst p + 4 * snd p)"
proof (rule ccontr)
  assume p: "in_mask inMask p" and n: "\<not> bit inMask (fst p + 4 * snd p)"
  have "inMask AND push_bit (fst p + 4 * snd p) 1 = 0"
    by (rule bit_word_eqI) (use n in \<open>auto simp: bit_simps bit_1_iff\<close>)
  with p show False by (simp add: in_mask_def case_prod_beta)
qed

lemma mask_pixels:
  assumes "xEnd \<le> 4" "yEnd \<le> 4" "p \<in> set grid" "in_mask (kYMask ! yEnd AND kXMask ! xEnd) p"
  shows "fst p < xEnd \<and> snd p < yEnd"
proof -
  let ?k = "fst p + 4 * snd p"
  have g: "fst p < 4" "snd p < 4" using assms(3) by (auto simp: grid_def)
  have "bit (kYMask ! yEnd) ?k" "bit (kXMask ! xEnd) ?k" using in_mask_bit [OF assms(4)] by (simp_all add: bit_and_iff)
  moreover have "?k \<in> set [0..<16]" "xEnd \<in> set [0..<5]" "yEnd \<in> set [0..<5]" "?k div 4 = snd p" "?k mod 4 = fst p"
    using g assms(1,2) by auto
  ultimately show ?thesis using y_mask_bits x_mask_bits unfolding list_all_iff by metis
qed

text \<open>Two blocks that agree on the upper left part.\<close>

definition agree :: "nat \<Rightarrow> nat \<Rightarrow> etc1_byte list \<Rightarrow> etc1_byte list \<Rightarrow> bool" where
  "agree xEnd yEnd a b \<longleftrightarrow> length a = 48 \<and> length b = 48 \<and> (\<forall>y<yEnd. \<forall>i<3 * xEnd. a ! (12 * y + i) = b ! (12 * y + i))"

definition agree_res :: "nat \<Rightarrow> nat \<Rightarrow> fault + etc1_byte list \<Rightarrow> fault + etc1_byte list \<Rightarrow> bool" where
  "agree_res xEnd yEnd r r' \<longleftrightarrow> (case r of Inl f \<Rightarrow> r' = Inl f | Inr a \<Rightarrow> \<exists>b. r' = Inr b \<and> agree xEnd yEnd a b)"

lemma length_unpack565: "length (unpack565 p) = 3 * (length p div 2)"
  by (induction p rule: unpack565.induct) (simp_all add: Let_def)

lemma load_row_agree:
  assumes "agree xEnd cy a b" "xEnd \<le> 4" "cy < 4"
  shows "agree_res xEnd (cy + 1) (load_row pIn ps st x y xEnd cy a) (load_row pIn ps st x y xEnd cy b)"
proof -
  let ?p = "pixel_address ps st x y cy"
  let ?r = "if ps = 3 then read_bytes ?p (xEnd * 3) pIn else map_sum id unpack565 (read_bytes ?p (xEnd * 2) pIn)"
  have row: "length row = 3 * xEnd" if "?r = Inr row" for row
    using that by (auto simp: read_bytes_def length_unpack565 split: if_splits)
  show ?thesis
  proof (cases ?r)
    case (Inl f)
    then show ?thesis by (simp add: load_row_def Let_def agree_res_def)
  next
    case (Inr row)
    note l = row [OF Inr]
    have len: "length a = 48" "length b = 48" using assms(1) by (simp_all add: agree_def)
    have fit: "12 * cy + 3 * xEnd \<le> 48" using assms(2,3) by simp
    have "agree xEnd (cy + 1) (take (12 * cy) a @ row @ drop (12 * cy + length row) a) (take (12 * cy) b @ row @ drop (12 * cy + length row) b)"
      unfolding agree_def
    proof (intro conjI allI impI)
      fix yy i assume y: "yy < cy + 1" "i < 3 * xEnd"
      show "(take (12 * cy) a @ row @ drop (12 * cy + length row) a) ! (12 * yy + i) =
          (take (12 * cy) b @ row @ drop (12 * cy + length row) b) ! (12 * yy + i)"
      proof (cases "yy = cy")
        case True
        then show ?thesis using y(2) l len fit by (simp add: nth_append)
      next
        case False
        then have "12 * yy + i < 12 * cy" "yy < cy" using y assms(2) by linarith+
        then show ?thesis using assms(1) y(2) len fit by (simp add: nth_append agree_def)
      qed
    qed (use len fit l in simp_all)
    with Inr show ?thesis by (simp add: load_row_def Let_def agree_res_def)
  qed
qed

lemma rows_append: "rows f (xs @ ys) s = bindE (rows f xs s) (rows f ys)"
  by (induction xs arbitrary: s) (auto simp: bindE_assoc intro!: bindE_cong)

lemma rows_none: "rows f [] = Inr"
  by (rule ext) simp

lemma load_rows_agree:
  assumes "length a = 48" "length b = 48" "xEnd \<le> 4" "yEnd \<le> 4"
  shows "agree_res xEnd yEnd (rows (load_row pIn ps st x y xEnd) [0..<yEnd] a) (rows (load_row pIn ps st x y xEnd) [0..<yEnd] b)"
  using assms(4)
proof (induction yEnd)
  case 0
  then show ?case using assms(1,2) by (simp add: agree_res_def agree_def)
next
  case (Suc cy)
  show ?case
  proof (cases "rows (load_row pIn ps st x y xEnd) [0..<cy] a")
    case (Inl f)
    with Suc have "rows (load_row pIn ps st x y xEnd) [0..<cy] b = Inl f" by (simp add: agree_res_def)
    with Inl show ?thesis by (simp add: rows_append agree_res_def)
  next
    case (Inr a')
    with Suc obtain b' where b': "rows (load_row pIn ps st x y xEnd) [0..<cy] b = Inr b'" "agree xEnd cy a' b'"
      by (auto simp: agree_res_def)
    with Inr load_row_agree [OF b'(2) assms(3)] Suc.prems show ?thesis by (simp add: rows_append rows_none)
  qed
qed

lemma agree_pixels:
  assumes "agree xEnd yEnd a b" "xEnd \<le> 4" "yEnd \<le> 4"
  shows "same_pixels (kYMask ! yEnd AND kXMask ! xEnd) a b"
  unfolding same_pixels_def
proof (intro ballI impI)
  fix p assume p: "p \<in> set grid" "in_mask (kYMask ! yEnd AND kXMask ! xEnd) p"
  from mask_pixels [OF assms(2,3) p] have "fst p < xEnd" "snd p < yEnd" by blast+
  then have at: "a ! (12 * snd p + (3 * fst p + ch)) = b ! (12 * snd p + (3 * fst p + ch))" if "ch < 3" for ch
    using assms(1) that unfolding agree_def by simp
  have "3 * (fst p + 4 * snd p) + ch = 12 * snd p + (3 * fst p + ch)" for ch by simp
  then have "channel a p ch = channel b p ch" if "ch < 3" for ch
    using at [OF that] by (simp only: channel_def case_prod_beta)
  then show "pixel_at a p = pixel_at b p" by (simp add: pixel_at_def)
qed

lemma block_end_le: "block_end n c \<le> 4"
  by (simp add: block_end_def Let_def not_less word_le_nat_alt)

lemma encode_blocks_independent:
  "length a = 48 \<Longrightarrow> length b = 48 \<Longrightarrow> encode_blocks pIn w h ps st a cs = encode_blocks pIn w h ps st b cs"
proof (induction cs arbitrary: a b)
  case (Cons c cs)
  obtain x y where c: "c = (x, y)" by (cases c)
  let ?xe = "block_end w x" and ?ye = "block_end h y"
  note r = load_rows_agree [OF Cons.prems block_end_le [of w x] block_end_le [of h y], of pIn ps st x y]
  show ?case
  proof (cases "rows (load_row pIn ps st x y ?xe) [0..<?ye] a")
    case (Inl f)
    with r show ?thesis by (simp add: c agree_res_def Let_def)
  next
    case (Inr a')
    with r obtain b' where b': "rows (load_row pIn ps st x y ?xe) [0..<?ye] b = Inr b'" "agree ?xe ?ye a' b'" by (auto simp: agree_res_def)
    have "length a' = 48" "length b' = 48" using b'(2) by (simp_all add: agree_def)
    from Cons.IH [OF this] encode_block_masked [OF agree_pixels [OF b'(2) block_end_le block_end_le]] Inr b'(1)
    show ?thesis by (simp add: c Let_def)
  qed
qed simp

text \<open>C40: What the local block held, at the start or of the block before, never reaches the encoded picture: the masks at the
  right and lower edges leave out exactly what was not loaded.\<close>

theorem encode_image_independent:
  assumes "length block = 48" "length block' = 48"
  shows "etc1_encode_image pIn width height pixelSize stride block = etc1_encode_image pIn width height pixelSize stride block'"
  using encode_blocks_independent [OF assms] by (simp add: etc1_encode_image_def)

lemma encode_image_independent_witness:
  "etc1_encode_image (replicate 90 7) 5 6 3 15 (replicate 48 0) = etc1_encode_image (replicate 90 7) 5 6 3 15 (replicate 48 0xFF)"
  by (rule encode_image_independent) simp_all

end
