(* ===== verification/Spec2Isabelle.thy ===== *)
theory Spec2Isabelle
  imports Qemud_Streams Log_Pipeline Str_Parms_History Record_Stream Byte_Buffer Pointer_Array Utf_Convert Sdcard_Image Config_Utils Fake_Log Render_Safety Render_Stream Io_Stream Emugen_Wire Emugen_Lines Render_Remote Etc1_Image
begin

text \<open>
  Android's renderer tree holds the pieces that let an emulated Android device talk to its host. This
  development models, from the sources, the parts that carry its own logic: the daemon \<open>qemud\<close> that
  multiplexes the clients of the guest over one serial line, the renderer on the host that executes the graphics
  calls of the guest (\<open>libOpenglRender\<close>) with the wire protocol and its generator, the logging library with its
  fake device, the containers and text utilities of \<open>libcutils\<close>, and the tool that makes images of memory cards.

  \<^bold>\<open>How the parts interact.\<close> A process of the guest writes log entries (liblog) that a reader takes apart with the
  table of event tags and prints through the filters. The daemons of the guest reach the emulator through \<open>qemud\<close>:
  their local sockets are the clients, each bound to a channel, and the packets of all channels are framed on the serial
  line. The graphics libraries of the guest encode calls into packets (\<open>emugen\<close> generates encoder and
  decoder from one specification); a thread of the renderer per connection reads the stream, decodes it and calls
  \<open>RenderControl.cpp\<close>, which acts on the shared tables of \<open>FrameBuffer.cpp\<close>. The answers go back
  over the same stream.

  \<^bold>\<open>Conventions.\<close> \<open>Prelude\<close> has bytes, the faults of a C program (a use after free, an overflow, a null
  pointer and so on) and the error monad: \<open>Inl\<close> is the fault, so that a theorem that an operation returns \<open>Inr\<close> also says
  that it does none of these. \<open>Byte_Words\<close> has little-endian numbers, \<open>C_Format\<close> the number formats of the C
  library, \<open>Byte_Source\<close> the locales of descriptors that are read and written in pieces, \<open>Interfaces\<close> the
  locale of a store. Every locale is interpreted on the definitions of the model. A loop that may not end is a partial
  function into an option, and None means that it does not return. System calls, the C allocator, the clock, the
  host's EGL and GL libraries and the cases of generated decoders are arguments of the definitions.

  \<^bold>\<open>qemud\<close> (\<open>emulator/qemud/qemud.c\<close>). \<open>Qemud_State\<close>: records, the packet pool and the heap of objects;
  \<open>Qemud_Hex\<close>: \<open>hex2int\<close>, \<open>int2hex\<close>; \<open>Qemud_Looper\<close>: the event loop with the kernel's interest list;
  \<open>Qemud_FDHandler\<close>: \<open>fdhandler_*\<close> and \<open>receiver_*\<close>; \<open>Qemud_Serial\<close>: framing; \<open>Qemud_Mux\<close>: clients and
  multiplexer; \<open>Qemud_Inv\<close>, \<open>Qemud_Safety\<close>: the invariant and its preservation by every callback;
  \<open>Qemud_Daemon\<close>: the runs, as an inductive step relation over rounds of the loop; \<open>Qemud_Streams\<close>: queues as byte
  streams and the choice of channels. The lemmas show that no run touches a freed object except in the
  situations that are named, that the tables of descriptors, handlers and clients agree, that every packet is
  accounted for, and that what is framed is delivered. \<open>try_channels\<close> has fuel 256, the number of
  channels; \<open>run_pending\<close> has the number of watched descriptors plus 2, which its loop cannot exceed.

  \<^bold>\<open>liblog\<close> (\<open>libs/liblog\<close>). \<open>Log_Filter\<close>, \<open>Log_Entry\<close>, \<open>Log_Event\<close>: \<open>logprint.c\<close>; \<open>Event_Tags\<close>:
  \<open>event_tag_map.c\<close>; \<open>Fake_Log\<close>: \<open>fake_log_device.c\<close>; \<open>Log_Pipeline\<close>: them together. The printer of binary events
  recurses on lists, with the length of the data plus 1 as fuel: a list costs at least two bytes.

  \<^bold>\<open>libcutils\<close>. \<open>Hashmap\<close>, \<open>Hashmap_Map\<close>, \<open>Hashmap_Ops\<close>: \<open>hashmap.c\<close> against a map; \<open>Str_Parms\<close> and its
  companions: \<open>str_parms.c\<close> over an explicit heap of strings, with ownership and the round trip through text (sets
  of at most 2^57 pairs, more than fit in memory); \<open>Record_Stream\<close>: \<open>record_stream.c\<close> (fuel twice the stream's
  length plus 1); \<open>Pointer_Array\<close>: \<open>array.c\<close> up to \<open>MAX_CAPACITY\<close>; \<open>Byte_Buffer\<close>: \<open>buffer.c\<close>; \<open>Utf_Convert\<close>:
  \<open>strdup8to16.c\<close>, \<open>strdup16to8.c\<close>; \<open>Config_Utils\<close>: \<open>config_utils.c\<close> (fuel three times the length of the text plus 3, proved to
  suffice). \<open>Sdcard_Image\<close> is \<open>emulator/mksdcard/mksdcard.c\<close>.

  \<^bold>\<open>The renderer\<close> (\<open>emulator/opengl/host/libs/libOpenglRender\<close>). \<open>Render_Heap\<close>: \<open>SmartPtr.h\<close>; \<open>Render_State\<close>:
  objects, tables, threads, and the trace of calls to the host libraries; \<open>Render_Objects\<close>: colour buffers,
  contexts, surfaces; \<open>Render_FrameBuffer\<close>: \<open>FrameBuffer.cpp\<close>; \<open>Render_Control\<close>: the calls of the clients and the runs, one
  step per operation under the renderer's lock. \<open>Render_Inv\<close>, \<open>Render_Core\<close>, \<open>Render_Surface\<close>, \<open>Render_Tables\<close>,
  \<open>Render_Ops\<close> and \<open>Render_Binding\<close> prove that the counters of the smart pointers are exact after every operation;
  \<open>Render_Safety\<close> draws the conclusions: which faults remain, how long objects live, that the table of colour
  buffers counts the clients. \<open>Render_Demo\<close> evaluates runs. \<open>Render_Stream\<close> and \<open>Io_Stream\<close> are the input
  and the output of a connection, for streams below 2 GB. \<open>Render_Config\<close>: \<open>FBConfig.cpp\<close> and the queries of
  \<open>RenderControl.cpp\<close>. \<open>Render_Remote\<close>: the API of \<open>renderControl.in\<close> and its functions as the server of the generated
  decoder, with the theorem that a guest on the other side of the connection drives the renderer as if it called them.

  \<^bold>\<open>The generator\<close> (\<open>emulator/opengl/host/tools/emugen\<close>). \<open>Emugen_Text\<close>: tokens and lines; \<open>Emugen_Spec\<close>: types, entry points
  and attributes read from the three files of an API.
  \<open>Emugen_Lines\<close>: the documented form of a line is read back. \<open>Emugen_Encoder\<close> and \<open>Emugen_Decoder\<close>: the
  generated text as data, that is the statements of an encoder in the order in which the loops of \<open>genEncoderImpl\<close> print
  them, the case of an entry point in \<open>genDecoderImpl\<close>, and what both do when they run. \<open>Emugen_Packet\<close>: the packet that
  an encoder sends, as a specification on lists, and the proof that the code sends it. \<open>Emugen_Remote\<close> and \<open>Emugen_Wire\<close>:
  a client that makes any sequence of calls, over the streams and the render loop of the renderer, has the effects and the
  answers of calling the server's functions directly; and the two kinds of entry point for which it has not. The functions
  of the server and the expressions of the attributes (lengths, \<open>custom_pack\<close>, \<open>custom_write\<close>) are parameters; packets and
  streams are below 2 GB, the limit of the \<open>int\<close> that their lengths go through. The text of headers, tables, wrappers and
  templates is not modelled.

  \<^bold>\<open>Textures\<close> (\<open>libs/ETC1/etc1.cpp\<close>). \<open>Etc1_Block\<close>: the decoder and the encoder of a block of pixels. \<open>Etc1_Codec\<close>: the best
  modifier of a pixel and the offsets in the lower word; \<open>Etc1_Best\<close>: the search over the tables; \<open>Etc1_Fields\<close>: the upper word;
  \<open>Etc1_Decode\<close>: the error that the encoder computes is the one of the decoded block, and it is the least.
  \<open>Etc1_Image\<close>: whole pictures, whose edges need masks, and the headers of files.

  \<^bold>\<open>Not modelled.\<close> The translator to the host's GL (\<open>Translator\<close>) and the hand-written parts of the GL decoders and
  encoders, which forward to GL libraries that are not in the tree; \<open>FrameBuffer::initialize\<close>, which asks those
  libraries what they offer; windows of the host; \<open>libs/libc\<close>, which is
  an adapted BSD library with the kernel's headers, and the vendored allocator, resolver and time zone code in it; the
  C++ utilities of \<open>libs/utils\<close>; stack unwinding; \<open>gps\<close> and \<open>sensors\<close>, tests and tools; the parts of \<open>libcutils\<close>
  that only make system calls. The manifest lists them one by one. Threads of one process are
  modelled where the source lets them interact, by the order of the operations under its lock.
\<close>

end
